(* ===== verification/Prelude.thy ===== *)
theory Prelude
  imports Main "HOL-Library.Word"
begin

text \<open>
  Shared vocabulary of the development.

  \<^item> Exceptions of the JavaScript code are values: an operation that may throw has a result of
    type \<open>js_error + 'a\<close>, \<open>Inl\<close> being the exception. \<open>res_bind\<close> sequences such operations and
    \<open>js_assert\<close> is Node's \<open>assert\<close>.
  \<^item> A Node \<open>Buffer\<close> is a list of 8-bit words. \<open>be\<close> and \<open>of_be\<close> are the big-endian
    encodings behind \<open>writeUInt16BE\<close>, \<open>writeUInt32BE\<close> and their readers.
  \<^item> A file opened by a handler is the list of its bytes, with the semantics of positional
    reads (short at the end of the file) and writes (zero filling past the end).
  \<^item> JavaScript numbers of the modelled code are integers below \<open>2 ^ 53\<close>, on which double
    arithmetic is exact; they are \<open>nat\<close> or \<open>int\<close> here.
\<close>

section \<open>Collections of facts\<close>

named_theorems res_simps \<open>rewriting of sequenced results\<close>
named_theorems buf_simps \<open>lengths and reads of buffers and files\<close>

section \<open>Results: exceptions as values\<close>

datatype js_error =
    AssertionError
  | RangeError
  | TypeError
  | SyntaxError
  | JsError string
  | Errno string

definition res_bind :: "'e + 'a \<Rightarrow> ('a \<Rightarrow> 'e + 'b) \<Rightarrow> 'e + 'b" where
  "res_bind m f = (case m of Inl e \<Rightarrow> Inl e | Inr x \<Rightarrow> f x)"

definition js_assert :: "bool \<Rightarrow> js_error + unit" where
  "js_assert b = (if b then Inr () else Inl AssertionError)"

lemma res_bind_simps [simp, res_simps]:
  "res_bind (Inl e) f = Inl e"
  "res_bind (Inr x) f = f x"
  by (simp_all add: res_bind_def)

lemma res_bind_Inr_iff [res_simps]:
  "res_bind m f = Inr y \<longleftrightarrow> (\<exists>x. m = Inr x \<and> f x = Inr y)"
  by (cases m) auto

lemma res_bindE: "res_bind m f = Inr y \<Longrightarrow> (\<And>x. m = Inr x \<Longrightarrow> f x = Inr y \<Longrightarrow> P) \<Longrightarrow> P"
  by (auto simp: res_bind_Inr_iff)

lemma res_bind_assoc [res_simps]:
  "res_bind (res_bind m f) g = res_bind m (\<lambda>x. res_bind (f x) g)"
  by (cases m) auto

lemma res_bind_cong [fundef_cong]:
  assumes "m = m'" and "\<And>x. m' = Inr x \<Longrightarrow> f x = f' x"
  shows "res_bind m f = res_bind m' f'"
  using assms by (cases m') auto

lemma js_assert_simps [simp]:
  "js_assert True = Inr ()"
  "js_assert False = Inl AssertionError"
  by (simp_all add: js_assert_def)

lemma js_assert_Inr_iff [simp, res_simps]: "js_assert b = Inr u \<longleftrightarrow> b"
  by (simp add: js_assert_def)

lemma js_assert_Inl_iff [simp]: "js_assert b = Inl e \<longleftrightarrow> \<not> b \<and> e = AssertionError"
  by (auto simp: js_assert_def)

text \<open>\<open>Array.prototype.map\<close> with a callback that may throw: the first exception wins.\<close>

fun res_map :: "('a \<Rightarrow> 'e + 'b) \<Rightarrow> 'a list \<Rightarrow> 'e + 'b list" where
  "res_map f [] = Inr []"
| "res_map f (x # xs) = res_bind (f x) (\<lambda>y. res_bind (res_map f xs) (\<lambda>ys. Inr (y # ys)))"

lemma res_map_Inr: "(\<And>x. x \<in> set xs \<Longrightarrow> f x = Inr (g x)) \<Longrightarrow> res_map f xs = Inr (map g xs)"
  by (induction xs) auto

text \<open>A loop over a list that threads a state and may throw.\<close>

fun res_fold :: "('a \<Rightarrow> 's \<Rightarrow> 'e + 's) \<Rightarrow> 'a list \<Rightarrow> 's \<Rightarrow> 'e + 's" where
  "res_fold f [] s = Inr s"
| "res_fold f (x # xs) s = res_bind (f x s) (res_fold f xs)"

lemma res_fold_append: "res_fold f (xs @ ys) s = res_bind (res_fold f xs s) (res_fold f ys)"
proof (induction xs arbitrary: s)
  case (Cons x xs)
  then show ?case by (cases "f x s") simp_all
qed simp

text \<open>An invariant of a fold: what every iteration keeps holds at the end.\<close>

lemma res_fold_invariant:
  assumes "res_fold f xs s = Inr s'" and "P s"
    and "\<And>x t t'. x \<in> set xs \<Longrightarrow> P t \<Longrightarrow> f x t = Inr t' \<Longrightarrow> P t'"
  shows "P s'"
  using assms
proof (induction xs arbitrary: s)
  case Nil
  then show ?case by simp
next
  case (Cons x xs)
  from Cons.prems(1) obtain t where t: "f x s = Inr t" and rest: "res_fold f xs t = Inr s'"
    by (auto simp: res_bind_Inr_iff)
  have "P t" using Cons.prems(3) [OF _ Cons.prems(2) t] by simp
  show ?case
    by (rule Cons.IH [OF rest \<open>P t\<close>]) (use Cons.prems(3) in auto)
qed

section \<open>Bytes, buffers, big-endian integers\<close>

type_synonym byte = "8 word"
type_synonym buffer = "byte list"

primrec be :: "nat \<Rightarrow> nat \<Rightarrow> buffer" where
  "be 0 v = []"
| "be (Suc n) v = word_of_nat (v div 256 ^ n) # be n v"

definition of_be :: "buffer \<Rightarrow> nat" where
  "of_be bs = foldl (\<lambda>a b. a * 256 + unat b) 0 bs"

lemma length_be [simp, buf_simps]: "length (be n v) = n"
  by (induction n) simp_all

lemma foldl_be: "foldl (\<lambda>a b. a * 256 + unat b) a (be n v) = a * 256 ^ n + v mod 256 ^ n"
proof (induction n arbitrary: a)
  case 0
  then show ?case by (simp add: of_be_def)
next
  case (Suc n)
  let ?q = "v div 256 ^ n"
  have sp: "v mod 256 ^ Suc n = 256 ^ n * (?q mod 256) + v mod 256 ^ n"
    by (simp only: power_Suc2 mod_mult2_eq)
  have "unat (word_of_nat ?q :: byte) = ?q mod 256"
    by (simp add: unat_of_nat take_bit_eq_mod)
  then show ?case
    by (simp add: Suc sp del: power_Suc) (simp add: algebra_simps)
qed

lemma of_be_be: "v < 256 ^ n \<Longrightarrow> of_be (be n v) = v"
  by (simp add: of_be_def foldl_be)

lemma of_be_bound: "of_be bs < 256 ^ length bs"
proof -
  have "foldl (\<lambda>a b. a * 256 + unat b) a bs < (a + 1) * 256 ^ length bs" for a
  proof (induction bs arbitrary: a)
    case Nil
    then show ?case by simp
  next
    case (Cons b bs)
    have "unat b < 256" using unsigned_less [of b] by simp
    then have "a * 256 + unat b + 1 \<le> (a + 1) * 256" by simp
    then have "(a * 256 + unat b + 1) * 256 ^ length bs \<le> (a + 1) * 256 * 256 ^ length bs"
      by (rule mult_le_mono1)
    with Cons.IH [of "a * 256 + unat b"]
    have "foldl (\<lambda>a b. a * 256 + unat b) (a * 256 + unat b) bs < (a + 1) * 256 * 256 ^ length bs"
      by (rule less_le_trans)
    then show ?case by (simp add: algebra_simps)
  qed
  from this [of 0] show ?thesis by (simp add: of_be_def)
qed

lemma be_of_be: "length b = n \<Longrightarrow> be n (of_be b) = b"
proof -
  have "be (length b) (foldl (\<lambda>a b. a * 256 + unat b) a b) = b" for a
  proof (induction b arbitrary: a)
    case (Cons x b)
    have bound: "foldl (\<lambda>a b. a * 256 + unat b) c b = c * 256 ^ length b + of_be b" for c
    proof (induction b arbitrary: c)
      case (Cons y b)
      have "of_be (y # b) = unat y * 256 ^ length b + of_be b"
        using Cons [of "unat y"] by (simp add: of_be_def)
      then show ?case using Cons [of "c * 256 + unat y"] by (simp add: algebra_simps)
    qed (simp add: of_be_def)
    have "((a * 256 + unat x) * 256 ^ length b + of_be b) div 256 ^ length b = a * 256 + unat x"
      using of_be_bound [of b] by simp
    moreover have "(word_of_nat (a * 256 + unat x) :: byte) = x"
    proof -
      have "(256 :: byte) = 0" by simp
      then have "(word_of_nat (a * 256) :: byte) = 0"
        by (simp only: of_nat_mult of_nat_numeral mult_zero_right)
      then show ?thesis by (simp only: of_nat_add add_0) simp
    qed
    ultimately have "be (length (x # b)) (foldl (\<lambda>a b. a * 256 + unat b) a (x # b)) =
        x # be (length b) (foldl (\<lambda>a b. a * 256 + unat b) (a * 256 + unat x) b)"
      by (simp add: bound)
    then show ?case using Cons.IH [of "a * 256 + unat x"] by (simp del: foldl_Cons)
  qed simp
  from this [of 0] show "length b = n \<Longrightarrow> ?thesis" by (simp add: of_be_def)
qed

text \<open>\<open>Buffer.slice\<close> for indices counted from the start: clipped at the end of the buffer.\<close>

definition buf_slice :: "'a list \<Rightarrow> nat \<Rightarrow> nat \<Rightarrow> 'a list" where
  "buf_slice xs i j = take (j - i) (drop i xs)"

lemma length_slice [buf_simps]: "length (buf_slice xs i j) = min (j - i) (length xs - i)"
  by (simp add: buf_slice_def)

lemma slice_all [simp]: "buf_slice xs 0 (length xs) = xs"
  by (simp add: buf_slice_def)

lemma slice_append_left: "j \<le> length xs \<Longrightarrow> buf_slice (xs @ ys) i j = buf_slice xs i j"
  by (cases "i \<le> j") (simp_all add: buf_slice_def)

lemma slice_middle:
  "length pre = a \<Longrightarrow> j \<le> length mid \<Longrightarrow> buf_slice (pre @ mid @ post) (a + i) (a + j) = buf_slice mid i j"
  by (cases "i \<le> j") (simp_all add: buf_slice_def)

lemma slice_append_right:
  "length xs \<le> i \<Longrightarrow> buf_slice (xs @ ys) i j = buf_slice ys (i - length xs) (j - length xs)"
  by (simp add: buf_slice_def)

text \<open>\<open>source.copy(target, off)\<close>: overwrites \<open>target\<close> in place, clipped at its end.\<close>

definition buf_copy :: "'a list \<Rightarrow> 'a list \<Rightarrow> nat \<Rightarrow> 'a list" where
  "buf_copy source target off =
     take off target @ take (length target - off) source @ drop (off + length source) target"

lemma length_buf_copy [simp, buf_simps]: "length (buf_copy s t off) = length t"
  by (auto simp: buf_copy_def min_def)

lemma nth_buf_copy:
  "i < length t \<Longrightarrow> off + length s \<le> length t \<Longrightarrow>
   buf_copy s t off ! i = (if off \<le> i \<and> i < off + length s then s ! (i - off) else t ! i)"
  by (auto simp: buf_copy_def nth_append min_def)

lemma slice_buf_copy_other:
  assumes "off + length s \<le> length t" and "j \<le> off \<or> off + length s \<le> i"
  shows "buf_slice (buf_copy s t off) i j = buf_slice t i j"
  using assms by (intro nth_equalityI) (auto simp: buf_slice_def nth_buf_copy)

lemma slice_buf_copy_same:
  assumes "off + length s \<le> length t"
  shows "buf_slice (buf_copy s t off) off (off + length s) = s"
  using assms by (intro nth_equalityI) (auto simp: buf_slice_def nth_buf_copy)

lemma buf_copy_middle:
  "length pre = off \<Longrightarrow> length d = length mid \<Longrightarrow> buf_copy d (pre @ mid @ post) off = pre @ d @ post"
  by (simp add: buf_copy_def)

lemma buf_copy_self: "off + 4 \<le> length b \<Longrightarrow> buf_copy (buf_slice b off (off + 4)) b off = b"
  by (intro nth_equalityI) (auto simp: nth_buf_copy length_slice buf_slice_def)

lemma slice_update:
  "buf_slice (b[i := v]) a c =
     (if a \<le> i \<and> i < c then (buf_slice b a c)[i - a := v] else buf_slice b a c)"
proof (cases "i < length b")
  case True
  then show ?thesis by (intro nth_equalityI) (auto simp: buf_slice_def nth_list_update)
next
  case False
  then have "(buf_slice b a c)[i - a := v] = buf_slice b a c"
    by (intro list_update_beyond) (auto simp: length_slice)
  with False show ?thesis by (simp add: list_update_beyond)
qed

text \<open>\<open>buf.readUInt32BE(i)\<close> and \<open>buf.writeUInt32BE(v, i)\<close> throw outside of the buffer.\<close>

definition readUInt32BE :: "buffer \<Rightarrow> nat \<Rightarrow> js_error + nat" where
  "readUInt32BE b i = (if i + 4 \<le> length b then Inr (of_be (buf_slice b i (i + 4))) else Inl RangeError)"

definition writeUInt32BE :: "buffer \<Rightarrow> nat \<Rightarrow> nat \<Rightarrow> js_error + buffer" where
  "writeUInt32BE b v i =
     (if i + 4 \<le> length b \<and> v < 2 ^ 32 then Inr (take i b @ be 4 v @ drop (i + 4) b)
      else Inl RangeError)"

lemma slice_at: "length xs = i \<Longrightarrow> buf_slice (xs @ ys @ zs) i (i + length ys) = ys"
  by (simp add: buf_slice_def)

lemma readUInt32BE_write_same:
  assumes "writeUInt32BE b v i = Inr b'"
  shows "readUInt32BE b' i = Inr v"
proof -
  from assms have b': "b' = take i b @ be 4 v @ drop (i + 4) b" and i: "i + 4 \<le> length b"
    and v: "v < 2 ^ 32" by (auto simp: writeUInt32BE_def split: if_splits)
  have "buf_slice b' i (i + 4) = be 4 v"
    using slice_at [of "take i b" i "be 4 v" "drop (i + 4) b"] i b' by simp
  then show ?thesis using i v b' by (simp add: readUInt32BE_def of_be_be)
qed

lemma readUInt32BE_write_other:
  assumes "writeUInt32BE b v i = Inr b'" and "j + 4 \<le> i \<or> i + 4 \<le> j"
  shows "readUInt32BE b' j = readUInt32BE b j"
proof -
  from assms(1) have b': "b' = take i b @ be 4 v @ drop (i + 4) b" and i: "i + 4 \<le> length b"
    by (auto simp: writeUInt32BE_def split: if_splits)
  then have len: "length b' = length b" by simp
  have "buf_slice b' j (j + 4) = buf_slice b j (j + 4)"
    using assms(2)
  proof
    assume "j + 4 \<le> i"
    then show ?thesis using i b' by (simp add: slice_append_left) (simp add: buf_slice_def take_drop min_absorb1)
  next
    assume j: "i + 4 \<le> j"
    then have "buf_slice b' j (j + 4) = buf_slice (drop (i + 4) b) (j - (i + 4)) (j + 4 - (i + 4))"
      using i b' slice_append_right [of "take i b @ be 4 v" j "drop (i + 4) b" "j + 4"] by simp
    then show ?thesis using j by (simp add: buf_slice_def)
  qed
  with len show ?thesis by (simp add: readUInt32BE_def)
qed

section \<open>Files\<close>

text \<open>\<open>handler.read\<close> fills at most \<open>n\<close> bytes; \<open>handler.write\<close> extends the file when needed.\<close>

definition file_read :: "buffer \<Rightarrow> nat \<Rightarrow> nat \<Rightarrow> buffer" where
  "file_read f start n = take n (drop start f)"

definition file_write :: "buffer \<Rightarrow> buffer \<Rightarrow> nat \<Rightarrow> buffer" where
  "file_write f d off =
     take off (f @ replicate (off - length f) 0) @ d @ drop (off + length d) f"

lemma length_file_write [simp, buf_simps]:
  "length (file_write f d off) = max (length f) (off + length d)"
  by (auto simp: file_write_def)

lemma length_file_read [simp, buf_simps]: "length (file_read f start n) = min n (length f - start)"
  by (simp add: file_read_def)

lemma file_read_write_same: "file_read (file_write f d off) off (length d) = d"
  by (simp add: file_read_def file_write_def)

lemma nth_file_write:
  "i < max (length f) (off + length d) \<Longrightarrow>
   file_write f d off ! i =
     (if off \<le> i \<and> i < off + length d then d ! (i - off) else if i < length f then f ! i else 0)"
proof -
  assume i: "i < max (length f) (off + length d)"
  let ?p = "take off (f @ replicate (off - length f) 0)"
  have p: "length ?p = off" by simp
  consider "i < off" | "off \<le> i" "i < off + length d" | "off + length d \<le> i" by linarith
  then show ?thesis
  proof cases
    case 1
    then show ?thesis by (auto simp: file_write_def nth_append)
  next
    case 2
    then have "i - off < length d" by simp
    with 2 show ?thesis by (simp add: file_write_def nth_append p del: length_take take_append)
  next
    case 3
    then have "i < length f" using i by simp
    with 3 show ?thesis by (auto simp: file_write_def nth_append)
  qed
qed

lemma file_read_write_disjoint:
  assumes "start + n \<le> length f" and "start + n \<le> off \<or> off + length d \<le> start"
  shows "file_read (file_write f d off) start n = file_read f start n"
  using assms by (intro nth_equalityI) (auto simp: file_read_def nth_file_write)

lemma file_read_write_inside:
  assumes "off + n \<le> length f" and "k + length d \<le> n"
  shows "file_read (file_write f d (off + k)) off n = buf_copy d (file_read f off n) k"
  using assms
  by (intro nth_equalityI) (auto simp: file_read_def nth_file_write nth_buf_copy add.commute)

lemma take_buf_copy:
  "k + length d \<le> n \<Longrightarrow> k + length d \<le> length t \<Longrightarrow> take n (buf_copy d t k) = buf_copy d (take n t) k"
  by (intro nth_equalityI) (auto simp: nth_buf_copy)

lemma writeUInt32BE_eq:
  "i + 4 \<le> length b \<Longrightarrow> v < 2 ^ 32 \<Longrightarrow> writeUInt32BE b v i = Inr (buf_copy (be 4 v) b i)"
  by (auto simp: writeUInt32BE_def buf_copy_def min_def)

lemma writeUInt32BE_Inl: "\<not> (i + 4 \<le> length b \<and> v < 2 ^ 32) \<Longrightarrow> writeUInt32BE b v i = Inl RangeError"
  by (auto simp: writeUInt32BE_def)

section \<open>Step relations\<close>

text \<open>What the components that are step relations share: an invariant, and what the steps can only lower.\<close>

locale kept_by_steps =
  fixes step :: "'s \<Rightarrow> 's \<Rightarrow> bool" and inv :: "'s \<Rightarrow> bool"
  assumes kept: "step s s' \<Longrightarrow> inv s \<Longrightarrow> inv s'"
begin

lemma run: "step\<^sup>*\<^sup>* s s' \<Longrightarrow> inv s \<Longrightarrow> inv s'"
  by (induction rule: rtranclp_induct) (auto intro: kept)

lemma path: "inv (f 0) \<Longrightarrow> (\<And>i. i < n \<Longrightarrow> step (f i) (f (Suc i))) \<Longrightarrow> i \<le> n \<Longrightarrow> inv (f i)"
proof (induction i)
  case (Suc i)
  then show ?case using kept [of "f i" "f (Suc i)"] by simp
qed simp

end

locale lowered_by_steps = kept_by_steps +
  fixes seen :: "'s \<Rightarrow> 'v" and height :: "'v \<Rightarrow> nat"
  assumes lowers: "step s s' \<Longrightarrow> inv s \<Longrightarrow> seen s' = seen s \<or> height (seen s') < height (seen s)"
begin

lemma changes:
  assumes "inv (f 0)" and "\<And>i. i < n \<Longrightarrow> step (f i) (f (Suc i))"
  shows "card {i. i < n \<and> seen (f (Suc i)) \<noteq> seen (f i)} + height (seen (f n)) \<le> height (seen (f 0))"
  using assms
proof (induction n)
  case (Suc n)
  have IH: "card {i. i < n \<and> seen (f (Suc i)) \<noteq> seen (f i)} + height (seen (f n)) \<le> height (seen (f 0))" using Suc by simp
  have last: "seen (f (Suc n)) = seen (f n) \<or> height (seen (f (Suc n))) < height (seen (f n))"
    using lowers path [of f "Suc n" n] Suc.prems by simp
  have set: "{i. i < Suc n \<and> seen (f (Suc i)) \<noteq> seen (f i)} =
    (if seen (f (Suc n)) \<noteq> seen (f n) then insert n {i. i < n \<and> seen (f (Suc i)) \<noteq> seen (f i)}
     else {i. i < n \<and> seen (f (Suc i)) \<noteq> seen (f i)})"
    by (auto simp: less_Suc_eq)
  show ?case using IH last unfolding set by (auto simp: card_insert_if)
qed simp

end

end
