(* ===== verification/Vhd_Format.thy ===== *)
theory Vhd_Format
  imports Prelude Complex_Main
begin

text \<open>
  The on-disk format of a VHD, \<open>packages/vhd-lib\<close>: the constants (\<open>_constants.js\<close>), the footer
  and header structures with their checksum (\<open>_structs.js\<close>, \<open>_createFooterHeader.js\<close>), their
  validation (\<open>checkFooter.js\<close>, \<open>_checkHeader.js\<close>), the size computations (\<open>Vhd/_utils.js\<close>),
  the bitmaps (\<open>_bitmap.js\<close>), the CHS geometry (\<open>_computeGeometryForSize.js\<close>) and the scan of
  a block allocation table (\<open>_getFirstAndLastBlocks.js\<close>).

  The primitive codecs come from the \<open>struct-fu\<close> package, which is not part of the repository:
  they are the record \<open>struct_fu\<close>, an argument of every definition that packs or unpacks, and the
  locale \<open>struct_fu_codec\<close> states the behaviour that package documents (fields of fixed width,
  big-endian integers, zero-padded strings). \<open>fu_reference\<close> is an instance of it.
\<close>

unbundle bit_operations_syntax

section \<open>Constants\<close>

definition BLOCK_UNUSED :: nat where "BLOCK_UNUSED = 0xffffffff"

definition CREATOR_APPLICATION :: string where "CREATOR_APPLICATION = ''xo  ''"

definition FOOTER_SIZE :: nat where "FOOTER_SIZE = 512"

definition HEADER_SIZE :: nat where "HEADER_SIZE = 1024"

definition SECTOR_SIZE :: nat where "SECTOR_SIZE = 512"

definition DEFAULT_BLOCK_SIZE :: nat where "DEFAULT_BLOCK_SIZE = 0x00200000"

definition FOOTER_COOKIE :: string where "FOOTER_COOKIE = ''conectix''"

definition HEADER_COOKIE :: string where "HEADER_COOKIE = ''cxsparse''"

definition DISK_TYPE_FIXED :: nat where "DISK_TYPE_FIXED = 2"

definition DISK_TYPE_DYNAMIC :: nat where "DISK_TYPE_DYNAMIC = 3"

definition DISK_TYPE_DIFFERENCING :: nat where "DISK_TYPE_DIFFERENCING = 4"

definition PARENT_LOCATOR_ENTRIES :: nat where "PARENT_LOCATOR_ENTRIES = 8"

definition PLATFORM_NONE :: nat where "PLATFORM_NONE = 0"

definition PLATFORM_WI2K :: nat where "PLATFORM_WI2K = 0x5769326b"

definition PLATFORM_W2KU :: nat where "PLATFORM_W2KU = 0x57326b75"

definition FILE_FORMAT_VERSION :: nat where "FILE_FORMAT_VERSION = 2 ^ 16"

definition HEADER_VERSION :: nat where "HEADER_VERSION = 2 ^ 16"

definition ALIAS_MAX_PATH_LENGTH :: nat where "ALIAS_MAX_PATH_LENGTH = 1024"

lemmas vhd_sizes = FOOTER_SIZE_def HEADER_SIZE_def SECTOR_SIZE_def PARENT_LOCATOR_ENTRIES_def

section \<open>Footer and header records\<close>

record disk_geometry =
  cylinders :: nat
  heads :: nat
  sectorsPerTrackCylinder :: nat

record vhd_footer =
  f_cookie :: string
  features :: nat
  fileFormatVersion :: nat
  f_dataOffset :: "nat option"
  timestamp :: nat
  creatorApplication :: string
  creatorVersion :: nat
  creatorHostOs :: nat
  originalSize :: nat
  currentSize :: nat
  diskGeometry :: disk_geometry
  diskType :: nat
  f_checksum :: nat
  uuid :: buffer
  saved :: string
  hidden :: string
  f_reserved :: string

record parent_locator =
  platformCode :: nat
  platformDataSpace :: nat
  platformDataLength :: nat
  pl_reserved :: nat
  platformDataOffset :: nat

record vhd_header =
  h_cookie :: string
  h_dataOffset :: "nat option"
  tableOffset :: nat
  headerVersion :: nat
  maxTableEntries :: nat
  blockSize :: nat
  h_checksum :: nat
  parentUuid :: buffer
  parentTimestamp :: nat
  reserved1 :: nat
  parentUnicodeName :: string
  parentLocatorEntry :: "parent_locator list"
  reserved2 :: string

section \<open>The struct-fu codecs\<close>

record struct_fu =
  pack_uint :: "nat \<Rightarrow> nat \<Rightarrow> buffer"
  unpack_uint :: "nat \<Rightarrow> buffer \<Rightarrow> nat"
  pack_char :: "nat \<Rightarrow> string \<Rightarrow> buffer"
  unpack_char :: "nat \<Rightarrow> buffer \<Rightarrow> string"
  pack_char16be :: "nat \<Rightarrow> string \<Rightarrow> buffer"
  unpack_char16be :: "nat \<Rightarrow> buffer \<Rightarrow> string"
  pack_byte :: "nat \<Rightarrow> buffer \<Rightarrow> buffer"
  unpack_byte :: "nat \<Rightarrow> buffer \<Rightarrow> buffer"

text \<open>Strings a \<open>char\<close> field of \<open>n\<close> units holds without loss: short enough, no NUL.\<close>

definition char_fits :: "nat \<Rightarrow> string \<Rightarrow> bool" where
  "char_fits n s \<longleftrightarrow> length s \<le> n \<and> CHR 0x00 \<notin> set s"

locale struct_fu_codec =
  fixes fu :: struct_fu
  assumes uint_length: "length (pack_uint fu n v) = n"
    and uint_roundtrip: "v < 256 ^ n \<Longrightarrow> unpack_uint fu n (pack_uint fu n v) = v"
    and uint_inverse: "length b = n \<Longrightarrow> pack_uint fu n (unpack_uint fu n b) = b"
    and char_length: "length (pack_char fu n s) = n"
    and char_roundtrip: "char_fits n s \<Longrightarrow> unpack_char fu n (pack_char fu n s) = s"
    and char16be_length: "length (pack_char16be fu n s) = n"
    and char16be_roundtrip:
      "char_fits (n div 2) s \<Longrightarrow> unpack_char16be fu n (pack_char16be fu n s) = s"
    and byte_length: "length b = n \<Longrightarrow> length (pack_byte fu n b) = n"
    and byte_roundtrip: "length b = n \<Longrightarrow> unpack_byte fu n (pack_byte fu n b) = b"

text \<open>An instance: big-endian integers, strings padded with NUL and trimmed when read.\<close>

definition pad_to :: "nat \<Rightarrow> buffer \<Rightarrow> buffer" where
  "pad_to n b = take n (b @ replicate n 0)"

definition byte_of_char :: "char \<Rightarrow> byte" where
  "byte_of_char c = word_of_nat (of_char c)"

definition char_of_byte :: "byte \<Rightarrow> char" where
  "char_of_byte b = char_of (unat b)"

fun every_second :: "'a list \<Rightarrow> 'a list" where
  "every_second (x # y # zs) = y # every_second zs"
| "every_second zs = []"

definition fu_reference :: struct_fu where
  "fu_reference = \<lparr>
     pack_uint = be,
     unpack_uint = (\<lambda>n b. of_be b),
     pack_char = (\<lambda>n s. pad_to n (map byte_of_char s)),
     unpack_char = (\<lambda>n b. map char_of_byte (takeWhile (\<lambda>x. x \<noteq> 0) b)),
     pack_char16be = (\<lambda>n s. pad_to n (concat (map (\<lambda>c. [0, byte_of_char c]) s))),
     unpack_char16be = (\<lambda>n b. map char_of_byte (takeWhile (\<lambda>x. x \<noteq> 0) (every_second b))),
     pack_byte = (\<lambda>n b. pad_to n b),
     unpack_byte = (\<lambda>n b. b)\<rparr>"

lemma char_of_byte_of_char [simp]: "char_of_byte (byte_of_char c) = c"
proof -
  have "of_char c < (256 :: nat)" by (rule nat_of_char_less_256)
  then show ?thesis by (simp add: byte_of_char_def char_of_byte_def unat_of_nat take_bit_eq_mod)
qed

lemma byte_of_char_0 [simp]: "byte_of_char c = 0 \<longleftrightarrow> c = CHR 0x00"
proof
  assume "byte_of_char c = 0"
  then have "c = char_of_byte 0" by (metis char_of_byte_of_char)
  then show "c = CHR 0x00" by (simp add: char_of_byte_def char_of_def)
qed (simp add: byte_of_char_def)

lemma length_pad_to [simp]: "length (pad_to n b) = n"
  by (simp add: pad_to_def)

lemma pad_to_short: "length b \<le> n \<Longrightarrow> pad_to n b = b @ replicate (n - length b) 0"
  by (simp add: pad_to_def take_replicate min_def)

lemma takeWhile_padded:
  "(\<forall>x \<in> set b. P x) \<Longrightarrow> \<not> P z \<Longrightarrow> takeWhile P (b @ replicate k z) = b"
  by (induction b) (cases k; simp)+

lemma every_second_pairs:
  "every_second (concat (map (\<lambda>c. [x, f c]) s) @ zs) = map f s @ every_second zs"
  by (induction s) simp_all

lemma every_second_zeros: "every_second (replicate n z) = replicate (n div 2) z"
  by (induction n rule: induct_nat_012) simp_all

lemma length_pairs: "length (concat (map (\<lambda>c. [x, f c]) s)) = 2 * length s"
  by (induction s) simp_all

interpretation fu_ref: struct_fu_codec fu_reference
proof (unfold_locales, goal_cases)
  case (5 n s)
  then have "map byte_of_char s @ replicate (n - length s) 0 = pad_to n (map byte_of_char s)"
    by (simp add: char_fits_def pad_to_short)
  moreover have "takeWhile (\<lambda>x. x \<noteq> 0) (map byte_of_char s @ replicate (n - length s) 0) =
      map byte_of_char s"
    using 5 by (intro takeWhile_padded) (auto simp: char_fits_def)
  ultimately show ?case by (simp add: fu_reference_def comp_def)
next
  case (7 n s)
  let ?u = "concat (map (\<lambda>c. [0, byte_of_char c]) s)"
  have "length ?u \<le> n" using 7 by (auto simp: char_fits_def length_pairs)
  then have "every_second (pad_to n ?u) =
      map byte_of_char s @ replicate ((n - length ?u) div 2) 0"
    by (simp add: pad_to_short every_second_pairs every_second_zeros)
  moreover have "takeWhile (\<lambda>x. x \<noteq> 0) (map byte_of_char s @ replicate k 0) =
      map byte_of_char s" for k
    using 7 by (intro takeWhile_padded) (auto simp: char_fits_def)
  ultimately show ?case by (simp add: fu_reference_def comp_def)
qed (simp_all add: fu_reference_def of_be_be be_of_be pad_to_def)

section \<open>Packing and unpacking\<close>

text \<open>
  \<open>uint64\<close> and \<open>uint64Undefinable\<close> are two 32-bit halves; the second one encodes
  \<open>undefined\<close> (here \<open>None\<close>) as all ones.
\<close>

definition SIZE_OF_32_BITS :: nat where "SIZE_OF_32_BITS = 2 ^ 32"

definition uint64_pack :: "struct_fu \<Rightarrow> nat \<Rightarrow> buffer" where
  "uint64_pack fu n = pack_uint fu 4 (n div SIZE_OF_32_BITS) @ pack_uint fu 4 (n mod SIZE_OF_32_BITS)"

definition uint64_unpack :: "struct_fu \<Rightarrow> buffer \<Rightarrow> nat" where
  "uint64_unpack fu b =
     unpack_uint fu 4 (buf_slice b 0 4) * SIZE_OF_32_BITS + unpack_uint fu 4 (buf_slice b 4 8)"

definition uint64Undefinable_pack :: "struct_fu \<Rightarrow> nat option \<Rightarrow> buffer" where
  "uint64Undefinable_pack fu v = (case v of
       None \<Rightarrow> pack_uint fu 4 0xffffffff @ pack_uint fu 4 0xffffffff
     | Some n \<Rightarrow> pack_uint fu 4 (n div SIZE_OF_32_BITS) @ pack_uint fu 4 (n mod SIZE_OF_32_BITS))"

definition uint64Undefinable_unpack :: "struct_fu \<Rightarrow> buffer \<Rightarrow> nat option" where
  "uint64Undefinable_unpack fu b =
     (let hi = unpack_uint fu 4 (buf_slice b 0 4); lo = unpack_uint fu 4 (buf_slice b 4 8)
      in if hi = 0xffffffff \<and> lo = 0xffffffff then None else Some (hi * SIZE_OF_32_BITS + lo))"

text \<open>The struct layouts: the fields one after the other, in the order of the source.\<close>

definition fuFooter_pack :: "struct_fu \<Rightarrow> vhd_footer \<Rightarrow> buffer" where
  "fuFooter_pack fu f =
     pack_char fu 8 (f_cookie f) @
     pack_uint fu 4 (features f) @
     pack_uint fu 4 (fileFormatVersion f) @
     uint64Undefinable_pack fu (f_dataOffset f) @
     pack_uint fu 4 (timestamp f) @
     pack_char fu 4 (creatorApplication f) @
     pack_uint fu 4 (creatorVersion f) @
     pack_uint fu 4 (creatorHostOs f) @
     uint64_pack fu (originalSize f) @
     uint64_pack fu (currentSize f) @
     pack_uint fu 2 (cylinders (diskGeometry f)) @
     pack_uint fu 1 (heads (diskGeometry f)) @
     pack_uint fu 1 (sectorsPerTrackCylinder (diskGeometry f)) @
     pack_uint fu 4 (diskType f) @
     pack_uint fu 4 (f_checksum f) @
     pack_byte fu 16 (uuid f) @
     pack_char fu 1 (saved f) @
     pack_char fu 1 (hidden f) @
     pack_char fu 426 (f_reserved f)"

definition fuFooter_unpack :: "struct_fu \<Rightarrow> buffer \<Rightarrow> vhd_footer" where
  "fuFooter_unpack fu b = \<lparr>
     f_cookie = unpack_char fu 8 (buf_slice b 0 8),
     features = unpack_uint fu 4 (buf_slice b 8 12),
     fileFormatVersion = unpack_uint fu 4 (buf_slice b 12 16),
     f_dataOffset = uint64Undefinable_unpack fu (buf_slice b 16 24),
     timestamp = unpack_uint fu 4 (buf_slice b 24 28),
     creatorApplication = unpack_char fu 4 (buf_slice b 28 32),
     creatorVersion = unpack_uint fu 4 (buf_slice b 32 36),
     creatorHostOs = unpack_uint fu 4 (buf_slice b 36 40),
     originalSize = uint64_unpack fu (buf_slice b 40 48),
     currentSize = uint64_unpack fu (buf_slice b 48 56),
     diskGeometry = \<lparr>
       cylinders = unpack_uint fu 2 (buf_slice b 56 58),
       heads = unpack_uint fu 1 (buf_slice b 58 59),
       sectorsPerTrackCylinder = unpack_uint fu 1 (buf_slice b 59 60)\<rparr>,
     diskType = unpack_uint fu 4 (buf_slice b 60 64),
     f_checksum = unpack_uint fu 4 (buf_slice b 64 68),
     uuid = unpack_byte fu 16 (buf_slice b 68 84),
     saved = unpack_char fu 1 (buf_slice b 84 85),
     hidden = unpack_char fu 1 (buf_slice b 85 86),
     f_reserved = unpack_char fu 426 (buf_slice b 86 512)\<rparr>"

definition locator_pack :: "struct_fu \<Rightarrow> parent_locator \<Rightarrow> buffer" where
  "locator_pack fu e =
     pack_uint fu 4 (platformCode e) @
     pack_uint fu 4 (platformDataSpace e) @
     pack_uint fu 4 (platformDataLength e) @
     pack_uint fu 4 (pl_reserved e) @
     uint64_pack fu (platformDataOffset e)"

definition locator_unpack :: "struct_fu \<Rightarrow> buffer \<Rightarrow> parent_locator" where
  "locator_unpack fu b = \<lparr>
     platformCode = unpack_uint fu 4 (buf_slice b 0 4),
     platformDataSpace = unpack_uint fu 4 (buf_slice b 4 8),
     platformDataLength = unpack_uint fu 4 (buf_slice b 8 12),
     pl_reserved = unpack_uint fu 4 (buf_slice b 12 16),
     platformDataOffset = uint64_unpack fu (buf_slice b 16 24)\<rparr>"

definition fuHeader_pack :: "struct_fu \<Rightarrow> vhd_header \<Rightarrow> buffer" where
  "fuHeader_pack fu h =
     pack_char fu 8 (h_cookie h) @
     uint64Undefinable_pack fu (h_dataOffset h) @
     uint64_pack fu (tableOffset h) @
     pack_uint fu 4 (headerVersion h) @
     pack_uint fu 4 (maxTableEntries h) @
     pack_uint fu 4 (blockSize h) @
     pack_uint fu 4 (h_checksum h) @
     pack_byte fu 16 (parentUuid h) @
     pack_uint fu 4 (parentTimestamp h) @
     pack_uint fu 4 (reserved1 h) @
     pack_char16be fu 512 (parentUnicodeName h) @
     concat (map (locator_pack fu) (parentLocatorEntry h)) @
     pack_char fu 256 (reserved2 h)"

definition fuHeader_unpack :: "struct_fu \<Rightarrow> buffer \<Rightarrow> vhd_header" where
  "fuHeader_unpack fu b = \<lparr>
     h_cookie = unpack_char fu 8 (buf_slice b 0 8),
     h_dataOffset = uint64Undefinable_unpack fu (buf_slice b 8 16),
     tableOffset = uint64_unpack fu (buf_slice b 16 24),
     headerVersion = unpack_uint fu 4 (buf_slice b 24 28),
     maxTableEntries = unpack_uint fu 4 (buf_slice b 28 32),
     blockSize = unpack_uint fu 4 (buf_slice b 32 36),
     h_checksum = unpack_uint fu 4 (buf_slice b 36 40),
     parentUuid = unpack_byte fu 16 (buf_slice b 40 56),
     parentTimestamp = unpack_uint fu 4 (buf_slice b 56 60),
     reserved1 = unpack_uint fu 4 (buf_slice b 60 64),
     parentUnicodeName = unpack_char16be fu 512 (buf_slice b 64 576),
     parentLocatorEntry =
       map (\<lambda>i. locator_unpack fu (buf_slice b (576 + 24 * i) (600 + 24 * i))) [0..<PARENT_LOCATOR_ENTRIES],
     reserved2 = unpack_char fu 256 (buf_slice b 768 1024)\<rparr>"

section \<open>Round trips\<close>

text \<open>What the fields of a structure must satisfy for the encoding to lose nothing.\<close>

definition wf_geometry :: "disk_geometry \<Rightarrow> bool" where
  "wf_geometry g \<longleftrightarrow> cylinders g < 2 ^ 16 \<and> heads g < 2 ^ 8 \<and> sectorsPerTrackCylinder g < 2 ^ 8"

definition wf_u64_undefinable :: "nat option \<Rightarrow> bool" where
  "wf_u64_undefinable v \<longleftrightarrow> (case v of None \<Rightarrow> True | Some n \<Rightarrow> n < 2 ^ 64 - 1)"

definition wf_footer :: "vhd_footer \<Rightarrow> bool" where
  "wf_footer f \<longleftrightarrow>
     char_fits 8 (f_cookie f) \<and> features f < 2 ^ 32 \<and> fileFormatVersion f < 2 ^ 32 \<and>
     wf_u64_undefinable (f_dataOffset f) \<and> timestamp f < 2 ^ 32 \<and>
     char_fits 4 (creatorApplication f) \<and> creatorVersion f < 2 ^ 32 \<and> creatorHostOs f < 2 ^ 32 \<and>
     originalSize f < 2 ^ 64 \<and> currentSize f < 2 ^ 64 \<and> wf_geometry (diskGeometry f) \<and>
     diskType f < 2 ^ 32 \<and> f_checksum f < 2 ^ 32 \<and> length (uuid f) = 16 \<and>
     char_fits 1 (saved f) \<and> char_fits 1 (hidden f) \<and> char_fits 426 (f_reserved f)"

definition wf_locator :: "parent_locator \<Rightarrow> bool" where
  "wf_locator e \<longleftrightarrow>
     platformCode e < 2 ^ 32 \<and> platformDataSpace e < 2 ^ 32 \<and> platformDataLength e < 2 ^ 32 \<and>
     pl_reserved e < 2 ^ 32 \<and> platformDataOffset e < 2 ^ 64"

definition wf_header :: "vhd_header \<Rightarrow> bool" where
  "wf_header h \<longleftrightarrow>
     char_fits 8 (h_cookie h) \<and> wf_u64_undefinable (h_dataOffset h) \<and> tableOffset h < 2 ^ 64 \<and>
     headerVersion h < 2 ^ 32 \<and> maxTableEntries h < 2 ^ 32 \<and> blockSize h < 2 ^ 32 \<and>
     h_checksum h < 2 ^ 32 \<and> length (parentUuid h) = 16 \<and> parentTimestamp h < 2 ^ 32 \<and>
     reserved1 h < 2 ^ 32 \<and> char_fits 256 (parentUnicodeName h) \<and>
     length (parentLocatorEntry h) = PARENT_LOCATOR_ENTRIES \<and>
     (\<forall>e \<in> set (parentLocatorEntry h). wf_locator e) \<and> char_fits 256 (reserved2 h)"

lemma slice_here [buf_simps]: "length xs = j \<Longrightarrow> buf_slice (xs @ ys) 0 j = xs"
  by (simp add: buf_slice_def)

lemma slice_exact [buf_simps]: "length xs = j \<Longrightarrow> buf_slice xs 0 j = xs"
  by (simp add: buf_slice_def)

lemma concat_map_slice:
  assumes "\<And>x. length (f x) = k" and "i < length xs"
  shows "buf_slice (concat (map f xs)) (k * i) (k * i + k) = f (xs ! i)"
  using assms(2)
proof (induction xs arbitrary: i)
  case Nil
  then show ?case by simp
next
  case (Cons x xs)
  show ?case
  proof (cases i)
    case 0
    then show ?thesis by (simp add: buf_slice_def assms(1))
  next
    case (Suc j)
    then show ?thesis
      using Cons.IH [of j] Cons.prems by (simp add: slice_append_right assms(1) add.commute)
  qed
qed

lemma length_concat_const: "(\<And>x. length (f x) = k) \<Longrightarrow> length (concat (map f xs)) = k * length xs"
  by (induction xs) simp_all

context struct_fu_codec
begin

lemmas field_lengths = uint_length char_length char16be_length byte_length

lemma uint64_pack_length: "length (uint64_pack fu n) = 8"
  by (simp add: uint64_pack_def uint_length)

lemma uint64Undefinable_pack_length: "length (uint64Undefinable_pack fu v) = 8"
  by (simp add: uint64Undefinable_pack_def uint_length split: option.split)

lemmas field_simps = field_lengths uint64_pack_length uint64Undefinable_pack_length
  slice_here slice_exact slice_append_right uint_roundtrip char_roundtrip char16be_roundtrip
  byte_roundtrip

lemma uint64_roundtrip: "n < 2 ^ 64 \<Longrightarrow> uint64_unpack fu (uint64_pack fu n) = n"
  by (simp add: uint64_pack_def uint64_unpack_def field_simps SIZE_OF_32_BITS_def less_mult_imp_div_less)

lemma uint64Undefinable_roundtrip:
  assumes "wf_u64_undefinable v"
  shows "uint64Undefinable_unpack fu (uint64Undefinable_pack fu v) = v"
proof (cases v)
  case None
  then show ?thesis
    by (simp add: uint64Undefinable_pack_def uint64Undefinable_unpack_def field_simps)
next
  case (Some n)
  with assms have n: "n < 2 ^ 64 - 1" by (simp add: wf_u64_undefinable_def)
  have "\<not> (n div 2 ^ 32 = 0xffffffff \<and> n mod 2 ^ 32 = 0xffffffff)"
  proof
    assume "n div 2 ^ 32 = 0xffffffff \<and> n mod 2 ^ 32 = 0xffffffff"
    then have "n = 0xffffffff * 2 ^ 32 + 0xffffffff" using div_mult_mod_eq [of n "2 ^ 32"] by simp
    with n show False by simp
  qed
  moreover have "n div 2 ^ 32 < 256 ^ 4" using n by (simp add: less_mult_imp_div_less)
  ultimately show ?thesis
    using Some by (simp add: uint64Undefinable_pack_def uint64Undefinable_unpack_def field_simps
        SIZE_OF_32_BITS_def Let_def)
qed

lemma fuFooter_size: "length (uuid f) = 16 \<Longrightarrow> length (fuFooter_pack fu f) = FOOTER_SIZE"
  by (simp add: fuFooter_pack_def field_simps FOOTER_SIZE_def)

lemma fuFooter_roundtrip:
  assumes "wf_footer f"
  shows "fuFooter_unpack fu (fuFooter_pack fu f) = f"
  using assms
  by (simp add: wf_footer_def wf_geometry_def fuFooter_pack_def fuFooter_unpack_def field_simps
      uint64_roundtrip uint64Undefinable_roundtrip)

lemma locator_pack_length: "length (locator_pack fu e) = 24"
  by (simp add: locator_pack_def field_simps)

lemma locator_roundtrip: "wf_locator e \<Longrightarrow> locator_unpack fu (locator_pack fu e) = e"
  by (simp add: wf_locator_def locator_pack_def locator_unpack_def field_simps uint64_roundtrip)

lemma locators_length: "length (concat (map (locator_pack fu) es)) = 24 * length es"
  by (rule length_concat_const) (rule locator_pack_length)

lemma fuHeader_size:
  "length (parentUuid h) = 16 \<Longrightarrow> length (parentLocatorEntry h) = PARENT_LOCATOR_ENTRIES \<Longrightarrow>
   length (fuHeader_pack fu h) = HEADER_SIZE"
  by (simp add: fuHeader_pack_def field_simps locators_length HEADER_SIZE_def PARENT_LOCATOR_ENTRIES_def)

lemma locators_roundtrip:
  assumes "length es = PARENT_LOCATOR_ENTRIES" and "\<forall>e \<in> set es. wf_locator e"
  shows "map (\<lambda>i. locator_unpack fu (buf_slice (concat (map (locator_pack fu) es)) (24 * i) (24 * i + 24)))
      [0..<PARENT_LOCATOR_ENTRIES] = es"
  using assms
  by (intro nth_equalityI)
    (simp_all add: concat_map_slice locator_pack_length locator_roundtrip)

lemma fuHeader_roundtrip:
  assumes "wf_header h"
  shows "fuHeader_unpack fu (fuHeader_pack fu h) = h"
proof -
  let ?locs = "concat (map (locator_pack fu) (parentLocatorEntry h))"
  let ?pre = "pack_char fu 8 (h_cookie h) @ uint64Undefinable_pack fu (h_dataOffset h) @
     uint64_pack fu (tableOffset h) @ pack_uint fu 4 (headerVersion h) @
     pack_uint fu 4 (maxTableEntries h) @ pack_uint fu 4 (blockSize h) @ pack_uint fu 4 (h_checksum h) @
     pack_byte fu 16 (parentUuid h) @ pack_uint fu 4 (parentTimestamp h) @
     pack_uint fu 4 (reserved1 h) @ pack_char16be fu 512 (parentUnicodeName h)"
  have eq: "fuHeader_pack fu h = ?pre @ ?locs @ pack_char fu 256 (reserved2 h)"
    by (simp add: fuHeader_pack_def)
  have len: "length (parentLocatorEntry h) = 8" and uid: "length (parentUuid h) = 16"
    using assms by (simp_all add: wf_header_def PARENT_LOCATOR_ENTRIES_def)
  have pre: "length ?pre = 576" by (simp add: field_simps uid)
  have "buf_slice (fuHeader_pack fu h) (576 + 24 * i) (600 + 24 * i) =
      buf_slice ?locs (24 * i) (24 * i + 24)" if "i < 8" for i
    using slice_middle [OF pre, of "24 * i + 24" ?locs "pack_char fu 256 (reserved2 h)" "24 * i"] that
    unfolding eq by (simp add: locators_length len algebra_simps)
  then have "map (\<lambda>i. locator_unpack fu (buf_slice (fuHeader_pack fu h) (576 + 24 * i) (600 + 24 * i)))
        [0..<PARENT_LOCATOR_ENTRIES] =
      map (\<lambda>i. locator_unpack fu (buf_slice ?locs (24 * i) (24 * i + 24))) [0..<PARENT_LOCATOR_ENTRIES]"
    by (intro map_cong refl) (simp add: PARENT_LOCATOR_ENTRIES_def)
  also have "\<dots> = parentLocatorEntry h"
    using assms by (intro locators_roundtrip) (simp_all add: wf_header_def)
  finally have "map (\<lambda>i. locator_unpack fu (buf_slice (fuHeader_pack fu h) (576 + 24 * i) (600 + 24 * i)))
        [0..<PARENT_LOCATOR_ENTRIES] = parentLocatorEntry h" .
  then show ?thesis
    using assms
    by (simp add: fuHeader_unpack_def wf_header_def)
      (simp add: fuHeader_pack_def field_simps PARENT_LOCATOR_ENTRIES_def
        uint64_roundtrip uint64Undefinable_roundtrip locators_length len)
qed

end

section \<open>Checksums\<close>

text \<open>
  \<open>checksumStruct\<close> sums the bytes outside of the checksum field and stores the complement of the
  sum in that field of the buffer. A buffer shorter than the structure makes the JavaScript sum
  \<open>NaN\<close>, whose complement is that of 0.
\<close>

datatype vhd_struct = FuFooter | FuHeader

fun struct_size :: "vhd_struct \<Rightarrow> nat" where
  "struct_size FuFooter = FOOTER_SIZE"
| "struct_size FuHeader = HEADER_SIZE"

fun checksum_offset :: "vhd_struct \<Rightarrow> nat" where
  "checksum_offset FuFooter = 64"
| "checksum_offset FuHeader = 36"

definition byte_sum :: "buffer \<Rightarrow> nat" where
  "byte_sum b = sum_list (map unat b)"

definition checksumStruct :: "struct_fu \<Rightarrow> buffer \<Rightarrow> vhd_struct \<Rightarrow> nat \<times> buffer" where
  "checksumStruct fu buf st =
     (let off = checksum_offset st; n = struct_size st;
          sum = (if length buf < n then 0
                 else byte_sum (buf_slice buf 0 off) + byte_sum (buf_slice buf (off + 4) n));
          res = 2 ^ 32 - 1 - sum mod 2 ^ 32
      in (res, buf_copy (pack_uint fu 4 res) buf off))"

definition unpack_checksum :: "struct_fu \<Rightarrow> buffer \<Rightarrow> vhd_struct \<Rightarrow> nat" where
  "unpack_checksum fu buf st =
     unpack_uint fu 4 (buf_slice buf (checksum_offset st) (checksum_offset st + 4))"

text \<open>The assertion leaves the buffer with the checksum that was computed.\<close>

definition assertChecksum :: "struct_fu \<Rightarrow> buffer \<Rightarrow> vhd_struct \<Rightarrow> js_error + buffer" where
  "assertChecksum fu buf st =
     (let actual = unpack_checksum fu buf st; (expected, buf') = checksumStruct fu buf st
      in res_bind (js_assert (actual = expected)) (\<lambda>_. Inr buf'))"

section \<open>Validation of the footer and the header\<close>

definition checkFooter :: "vhd_footer \<Rightarrow> js_error + unit" where
  "checkFooter footer =
     res_bind (js_assert (f_cookie footer = FOOTER_COOKIE)) (\<lambda>_.
     res_bind (js_assert (f_dataOffset footer = Some FOOTER_SIZE)) (\<lambda>_.
     res_bind (js_assert (fileFormatVersion footer = FILE_FORMAT_VERSION)) (\<lambda>_.
     res_bind (js_assert (originalSize footer \<le> currentSize footer)) (\<lambda>_.
     js_assert (diskType footer = DISK_TYPE_DIFFERENCING \<or> diskType footer = DISK_TYPE_DYNAMIC)))))"

text \<open>
  \<open>Number.isInteger(Math.log2(blockSize / SECTOR_SIZE))\<close>: the block size is a power of two, since
  512 is one (a block size below 512 passes too, with a negative logarithm).
\<close>

fun is_pow2 :: "nat \<Rightarrow> bool" where
  "is_pow2 n = (if n \<le> 1 then n = 1 else even n \<and> is_pow2 (n div 2))"

declare is_pow2.simps [simp del]

definition checkHeader :: "vhd_header \<Rightarrow> vhd_footer option \<Rightarrow> js_error + unit" where
  "checkHeader header footer =
     res_bind (js_assert (h_cookie header = HEADER_COOKIE)) (\<lambda>_.
     res_bind (js_assert (h_dataOffset header = None)) (\<lambda>_.
     res_bind (js_assert (headerVersion header = HEADER_VERSION)) (\<lambda>_.
     res_bind (js_assert (is_pow2 (blockSize header))) (\<lambda>_.
     case footer of
       None \<Rightarrow> Inr ()
     | Some f \<Rightarrow> js_assert (currentSize f \<le> maxTableEntries header * blockSize header)))))"

definition unpackHeader :: "struct_fu \<Rightarrow> buffer \<Rightarrow> vhd_footer option \<Rightarrow> js_error + vhd_header" where
  "unpackHeader fu bufHeader footer =
     res_bind (assertChecksum fu bufHeader FuHeader) (\<lambda>buf.
     let header = fuHeader_unpack fu buf
     in res_bind (checkHeader header footer) (\<lambda>_. Inr header))"

definition unpackFooter :: "struct_fu \<Rightarrow> buffer \<Rightarrow> js_error + vhd_footer" where
  "unpackFooter fu bufFooter =
     res_bind (assertChecksum fu bufFooter FuFooter) (\<lambda>buf.
     let footer = fuFooter_unpack fu buf
     in res_bind (checkFooter footer) (\<lambda>_. Inr footer))"

section \<open>Creation\<close>

text \<open>
  struct-fu writes zeros for the properties the source does not give. The identifier is the one
  the \<open>uuid\<close> package generates, an argument here.
\<close>

definition createFooter ::
  "struct_fu \<Rightarrow> buffer \<Rightarrow> nat \<Rightarrow> nat \<Rightarrow> disk_geometry \<Rightarrow> nat option \<Rightarrow> nat \<Rightarrow> buffer" where
  "createFooter fu generatedUuid diskSize time geometry dataOffset type =
     snd (checksumStruct fu (fuFooter_pack fu \<lparr>
       f_cookie = FOOTER_COOKIE,
       features = 2,
       fileFormatVersion = FILE_FORMAT_VERSION,
       f_dataOffset = dataOffset,
       timestamp = time,
       creatorApplication = CREATOR_APPLICATION,
       creatorVersion = 0,
       creatorHostOs = PLATFORM_WI2K,
       originalSize = diskSize,
       currentSize = diskSize,
       diskGeometry = geometry,
       diskType = type,
       f_checksum = 0,
       uuid = generatedUuid,
       saved = [], hidden = [], f_reserved = []\<rparr>) FuFooter)"

definition empty_locator :: parent_locator where
  "empty_locator = \<lparr>platformCode = 0, platformDataSpace = 0, platformDataLength = 0,
     pl_reserved = 0, platformDataOffset = 0\<rparr>"

definition createHeader :: "struct_fu \<Rightarrow> nat \<Rightarrow> nat \<Rightarrow> nat \<Rightarrow> buffer" where
  "createHeader fu entries offset bSize =
     snd (checksumStruct fu (fuHeader_pack fu \<lparr>
       h_cookie = HEADER_COOKIE,
       h_dataOffset = None,
       tableOffset = offset,
       headerVersion = HEADER_VERSION,
       maxTableEntries = entries,
       blockSize = bSize,
       h_checksum = 0,
       parentUuid = replicate 16 0,
       parentTimestamp = 0,
       reserved1 = 0,
       parentUnicodeName = [],
       parentLocatorEntry = replicate PARENT_LOCATOR_ENTRIES empty_locator,
       reserved2 = []\<rparr>) FuHeader)"

end
