(* ===== verification/Vhd_Struct.thy ===== *)
theory Vhd_Struct
  imports Vhd_Format
begin

text \<open>
  What the footer and header codecs of \<open>packages/vhd-lib/_structs.js\<close> and \<open>Vhd/_utils.js\<close>
  promise: a structure that is packed, checksummed and read back is the structure that was
  written, and a buffer with one corrupted byte is rejected.
\<close>

section \<open>Byte sums\<close>

lemma byte_sum_bound: "byte_sum b \<le> 255 * length b"
proof (induction b)
  case (Cons x b)
  have "unat x < 256" using unsigned_less [of x] by simp
  with Cons show ?case by (simp add: byte_sum_def)
qed (simp add: byte_sum_def)

lemma byte_sum_update:
  "i < length b \<Longrightarrow> byte_sum (b[i := v]) + unat (b ! i) = byte_sum b + unat v"
proof (induction b arbitrary: i)
  case (Cons x b)
  then show ?case by (cases i) (auto simp: byte_sum_def)
qed simp

definition checked_bytes :: "buffer \<Rightarrow> vhd_struct \<Rightarrow> nat" where
  "checked_bytes b st = byte_sum (buf_slice b 0 (checksum_offset st)) +
     byte_sum (buf_slice b (checksum_offset st + 4) (struct_size st))"

lemma checksum_field_inside: "checksum_offset st + 4 \<le> struct_size st"
  by (cases st) (simp_all add: vhd_sizes)

lemma checked_bytes_bound: "length b = struct_size st \<Longrightarrow> checked_bytes b st < 2 ^ 32"
proof -
  assume len: "length b = struct_size st"
  have "checked_bytes b st \<le> 255 * struct_size st"
    using byte_sum_bound [of "buf_slice b 0 (checksum_offset st)"]
      byte_sum_bound [of "buf_slice b (checksum_offset st + 4) (struct_size st)"] len
      checksum_field_inside [of st]
    by (simp add: checked_bytes_def length_slice)
  also have "\<dots> < 2 ^ 32" by (cases st) (simp_all add: vhd_sizes)
  finally show ?thesis .
qed

lemma fst_checksumStruct:
  "length b = struct_size st \<Longrightarrow> fst (checksumStruct fu b st) = 2 ^ 32 - 1 - checked_bytes b st"
  using checked_bytes_bound [of b st] by (simp add: checksumStruct_def Let_def checked_bytes_def)

lemma snd_checksumStruct:
  "snd (checksumStruct fu b st) =
     buf_copy (pack_uint fu 4 (fst (checksumStruct fu b st))) b (checksum_offset st)"
  by (simp add: checksumStruct_def Let_def)

lemma fst_checksumStruct_bound: "fst (checksumStruct fu b st) < 2 ^ 32"
  by (simp add: checksumStruct_def Let_def)

section \<open>Writing, then reading\<close>

definition with_checksum :: "struct_fu \<Rightarrow> vhd_footer \<Rightarrow> vhd_footer" where
  "with_checksum fu f = f\<lparr>f_checksum := fst (checksumStruct fu (fuFooter_pack fu f) FuFooter)\<rparr>"

definition header_with_checksum :: "struct_fu \<Rightarrow> vhd_header \<Rightarrow> vhd_header" where
  "header_with_checksum fu h = h\<lparr>h_checksum := fst (checksumStruct fu (fuHeader_pack fu h) FuHeader)\<rparr>"

context struct_fu_codec
begin

lemma uint_inj: "length a = 4 \<Longrightarrow> length b = 4 \<Longrightarrow> unpack_uint fu 4 a = unpack_uint fu 4 b \<Longrightarrow> a = b"
  using uint_inverse by metis

lemma checksumStruct_passes:
  assumes "length b = struct_size st"
  shows "assertChecksum fu (snd (checksumStruct fu b st)) st = Inr (snd (checksumStruct fu b st))"
proof -
  let ?c = "fst (checksumStruct fu b st)" and ?off = "checksum_offset st"
  let ?p = "pack_uint fu 4 ?c" and ?b = "buf_copy (pack_uint fu 4 (fst (checksumStruct fu b st))) b (checksum_offset st)"
  have inside: "?off + length ?p \<le> length b"
    using checksum_field_inside [of st] assms by (simp add: uint_length)
  have field: "buf_slice ?b ?off (?off + 4) = ?p"
    using slice_buf_copy_same [OF inside] by (simp add: uint_length)
  have "checked_bytes ?b st = checked_bytes b st"
    using inside by (simp add: checked_bytes_def slice_buf_copy_other uint_length)
  then have same: "fst (checksumStruct fu ?b st) = ?c"
    using assms by (simp add: fst_checksumStruct)
  have "unpack_checksum fu ?b st = ?c"
    using field fst_checksumStruct_bound [of fu b st] by (simp add: unpack_checksum_def uint_roundtrip)
  moreover have "snd (checksumStruct fu ?b st) = ?b"
    using inside field buf_copy_self [of ?off ?b] by (simp add: snd_checksumStruct same uint_length)
  ultimately show ?thesis
    using same by (simp add: assertChecksum_def snd_checksumStruct case_prod_beta)
qed

lemma snd_checksum_footer:
  assumes "length (uuid f) = 16"
  shows "snd (checksumStruct fu (fuFooter_pack fu f) FuFooter) = fuFooter_pack fu (with_checksum fu f)"
proof -
  let ?c = "fst (checksumStruct fu (fuFooter_pack fu f) FuFooter)"
  let ?pre = "pack_char fu 8 (f_cookie f) @ pack_uint fu 4 (features f) @
     pack_uint fu 4 (fileFormatVersion f) @ uint64Undefinable_pack fu (f_dataOffset f) @
     pack_uint fu 4 (timestamp f) @ pack_char fu 4 (creatorApplication f) @
     pack_uint fu 4 (creatorVersion f) @ pack_uint fu 4 (creatorHostOs f) @
     uint64_pack fu (originalSize f) @ uint64_pack fu (currentSize f) @
     pack_uint fu 2 (cylinders (diskGeometry f)) @ pack_uint fu 1 (heads (diskGeometry f)) @
     pack_uint fu 1 (sectorsPerTrackCylinder (diskGeometry f)) @ pack_uint fu 4 (diskType f)"
  let ?post = "pack_byte fu 16 (uuid f) @ pack_char fu 1 (saved f) @ pack_char fu 1 (hidden f) @
     pack_char fu 426 (f_reserved f)"
  have "fuFooter_pack fu f = ?pre @ pack_uint fu 4 (f_checksum f) @ ?post"
    by (simp add: fuFooter_pack_def)
  moreover have "length ?pre = 64" by (simp add: field_simps)
  ultimately have "buf_copy (pack_uint fu 4 ?c) (fuFooter_pack fu f) 64 = ?pre @ pack_uint fu 4 ?c @ ?post"
    by (metis buf_copy_middle uint_length)
  then show ?thesis
    by (simp add: snd_checksumStruct with_checksum_def) (simp add: fuFooter_pack_def)
qed

lemma snd_checksum_header:
  assumes "length (parentUuid h) = 16"
  shows "snd (checksumStruct fu (fuHeader_pack fu h) FuHeader) = fuHeader_pack fu (header_with_checksum fu h)"
proof -
  let ?c = "fst (checksumStruct fu (fuHeader_pack fu h) FuHeader)"
  let ?pre = "pack_char fu 8 (h_cookie h) @ uint64Undefinable_pack fu (h_dataOffset h) @
     uint64_pack fu (tableOffset h) @ pack_uint fu 4 (headerVersion h) @
     pack_uint fu 4 (maxTableEntries h) @ pack_uint fu 4 (blockSize h)"
  let ?post = "pack_byte fu 16 (parentUuid h) @ pack_uint fu 4 (parentTimestamp h) @
     pack_uint fu 4 (reserved1 h) @ pack_char16be fu 512 (parentUnicodeName h) @
     concat (map (locator_pack fu) (parentLocatorEntry h)) @ pack_char fu 256 (reserved2 h)"
  have "fuHeader_pack fu h = ?pre @ pack_uint fu 4 (h_checksum h) @ ?post"
    by (simp add: fuHeader_pack_def)
  moreover have "length ?pre = 36" by (simp add: field_simps)
  ultimately have "buf_copy (pack_uint fu 4 ?c) (fuHeader_pack fu h) 36 = ?pre @ pack_uint fu 4 ?c @ ?post"
    by (metis buf_copy_middle uint_length)
  then show ?thesis
    by (simp add: snd_checksumStruct header_with_checksum_def) (simp add: fuHeader_pack_def)
qed

lemma wf_with_checksum: "wf_footer f \<Longrightarrow> wf_footer (with_checksum fu f)"
  using fst_checksumStruct_bound [of fu _ FuFooter]
  by (simp add: wf_footer_def with_checksum_def)

lemma wf_header_with_checksum: "wf_header h \<Longrightarrow> wf_header (header_with_checksum fu h)"
  using fst_checksumStruct_bound [of fu _ FuHeader]
  by (simp add: wf_header_def header_with_checksum_def)

lemma unpackFooter_pack:
  assumes wf: "wf_footer f" and check: "checkFooter f = Inr ()"
  shows "unpackFooter fu (fuFooter_pack fu (with_checksum fu f)) = Inr (with_checksum fu f)"
proof -
  have uid: "length (uuid f) = 16" using wf by (simp add: wf_footer_def)
  have "length (fuFooter_pack fu f) = struct_size FuFooter" using uid by (simp add: fuFooter_size)
  from checksumStruct_passes [OF this]
  have "assertChecksum fu (fuFooter_pack fu (with_checksum fu f)) FuFooter =
      Inr (fuFooter_pack fu (with_checksum fu f))"
    by (simp add: snd_checksum_footer uid)
  moreover have "checkFooter (with_checksum fu f) = Inr ()"
    using check by (simp add: with_checksum_def checkFooter_def)
  ultimately show ?thesis
    using fuFooter_roundtrip [OF wf_with_checksum [OF wf]] by (simp add: unpackFooter_def Let_def)
qed

lemma unpackHeader_pack:
  assumes wf: "wf_header h" and check: "checkHeader h footer = Inr ()"
  shows "unpackHeader fu (fuHeader_pack fu (header_with_checksum fu h)) footer = Inr (header_with_checksum fu h)"
proof -
  have uid: "length (parentUuid h) = 16" and n: "length (parentLocatorEntry h) = PARENT_LOCATOR_ENTRIES"
    using wf by (simp_all add: wf_header_def)
  have "length (fuHeader_pack fu h) = struct_size FuHeader" using uid n by (simp add: fuHeader_size)
  from checksumStruct_passes [OF this]
  have "assertChecksum fu (fuHeader_pack fu (header_with_checksum fu h)) FuHeader =
      Inr (fuHeader_pack fu (header_with_checksum fu h))"
    by (simp add: snd_checksum_header uid)
  moreover have "checkHeader (header_with_checksum fu h) footer = Inr ()"
    using check by (cases footer) (simp_all add: header_with_checksum_def checkHeader_def)
  ultimately show ?thesis
    using fuHeader_roundtrip [OF wf_header_with_checksum [OF wf]] by (simp add: unpackHeader_def Let_def)
qed

lemma assertChecksum_corrupted:
  assumes len: "length b = struct_size st" and ok: "assertChecksum fu b st = Inr b0"
    and i: "i < struct_size st" and v: "v \<noteq> b ! i"
  shows "assertChecksum fu (b[i := v]) st = Inl AssertionError"
proof -
  let ?off = "checksum_offset st" and ?b = "b[i := v]"
  note inside = checksum_field_inside [of st]
  have stored: "unpack_checksum fu b st = fst (checksumStruct fu b st)"
    using ok by (simp add: assertChecksum_def case_prod_beta res_bind_Inr_iff)
  have "unpack_checksum fu ?b st \<noteq> fst (checksumStruct fu ?b st)"
  proof (cases "?off \<le> i \<and> i < ?off + 4")
    case True
    let ?old = "buf_slice b ?off (?off + 4)"
    have "checked_bytes ?b st = checked_bytes b st"
      using True by (simp add: checked_bytes_def slice_update)
    then have "fst (checksumStruct fu ?b st) = fst (checksumStruct fu b st)"
      using len by (simp add: fst_checksumStruct)
    moreover have "?old[i - ?off := v] \<noteq> ?old"
    proof
      assume "?old[i - ?off := v] = ?old"
      then have "?old ! (i - ?off) = v"
        using True len inside by (metis nth_list_update_eq length_slice min_less_iff_conj
            add_diff_cancel_left' less_diff_conv2 less_le_trans diff_less_mono)
      moreover have "?old ! (i - ?off) = b ! i"
      proof -
        have "i - ?off < 4" "?off + (i - ?off) = i" "?off \<le> length b" using True len inside by auto
        then show ?thesis by (simp add: buf_slice_def)
      qed
      ultimately show False using v by simp
    qed
    then have "unpack_checksum fu ?b st \<noteq> unpack_checksum fu b st"
      using uint_inj [of "?old[i - ?off := v]" ?old] True len inside
      by (auto simp: unpack_checksum_def slice_update length_slice)
    ultimately show ?thesis using stored by simp
  next
    case False
    have field: "unpack_checksum fu ?b st = unpack_checksum fu b st"
      using False by (auto simp: unpack_checksum_def slice_update)
    have ne: "unat v \<noteq> unat (b ! i)" using v by (metis word_unat_eq_iff)
    have "checked_bytes ?b st + unat (b ! i) = checked_bytes b st + unat v"
    proof (cases "i < ?off")
      case True
      then show ?thesis
        using byte_sum_update [of i "buf_slice b 0 ?off" v] len inside
        by (simp add: checked_bytes_def slice_update length_slice) (simp add: buf_slice_def)
    next
      case 2: False
      then have "?off + 4 \<le> i" using False by simp
      then show ?thesis
        using byte_sum_update [of "i - (?off + 4)" "buf_slice b (?off + 4) (struct_size st)" v] len i
        by (simp add: checked_bytes_def slice_update length_slice) (simp add: buf_slice_def)
    qed
    then have "checked_bytes ?b st \<noteq> checked_bytes b st" using ne by linarith
    then show ?thesis
      using field stored len checked_bytes_bound [of b st] checked_bytes_bound [of ?b st]
      by (simp add: fst_checksumStruct)
  qed
  then show ?thesis by (simp add: assertChecksum_def case_prod_beta)
qed

end

end
