(* ===== verification/Vhd_Layout.thy ===== *)
theory Vhd_Layout
  imports Vhd_Struct
begin

text \<open>
  Sizes and small tables of the VHD format: the size computations of \<open>Vhd/_utils.js\<close>, the bitmaps
  of \<open>_bitmap.js\<close>, the CHS geometry of \<open>_computeGeometryForSize.js\<close> and the scan of the block
  allocation table of \<open>_getFirstAndLastBlocks.js\<close>.
\<close>

section \<open>Sizes\<close>

definition ceil_div :: "nat \<Rightarrow> nat \<Rightarrow> nat" where
  "ceil_div a b = (a + b - 1) div b"

lemma ceil_div_le_iff: "0 < b \<Longrightarrow> ceil_div a b \<le> c \<longleftrightarrow> a \<le> c * b"
proof -
  assume b: "0 < b"
  have "(a + b - 1) div b \<le> c \<longleftrightarrow> (a + b - 1) div b < Suc c" by auto
  also have "\<dots> \<longleftrightarrow> a + b - 1 < Suc c * b" using b by (simp add: div_less_iff_less_mult)
  also have "\<dots> \<longleftrightarrow> a \<le> c * b" using b by auto
  finally show ?thesis by (simp add: ceil_div_def)
qed

lemma le_ceil_div_mult: "0 < b \<Longrightarrow> a \<le> ceil_div a b * b"
  using ceil_div_le_iff [of b a "ceil_div a b"] by simp

lemma ceil_div_mult: "0 < b \<Longrightarrow> ceil_div (k * b) b = k"
  by (intro antisym) (simp_all add: ceil_div_le_iff, metis ceil_div_le_iff le_ceil_div_mult mult_le_cancel2)

definition sectorsToBytes :: "nat \<Rightarrow> nat" where
  "sectorsToBytes sectors = sectors * SECTOR_SIZE"

definition sectorsRoundUpNoZero :: "nat \<Rightarrow> nat" where
  "sectorsRoundUpNoZero bytes =
     (let n = ceil_div bytes SECTOR_SIZE in if n = 0 then 1 else n)"

definition computeBatSize :: "nat \<Rightarrow> nat" where
  "computeBatSize entries = sectorsToBytes (sectorsRoundUpNoZero (entries * 4))"

text \<open>Exact for the block sizes the code handles, which are multiples of the sector size.\<close>

definition computeSectorsPerBlock :: "nat \<Rightarrow> nat" where
  "computeSectorsPerBlock bSize = bSize div SECTOR_SIZE"

definition computeBlockBitmapSize :: "nat \<Rightarrow> nat" where
  "computeBlockBitmapSize bSize = computeSectorsPerBlock bSize div 8"

definition computeSectorOfBitmap :: "nat \<Rightarrow> nat" where
  "computeSectorOfBitmap bSize = sectorsRoundUpNoZero (computeBlockBitmapSize bSize)"

definition computeFullBlockSize :: "nat \<Rightarrow> nat" where
  "computeFullBlockSize bSize = bSize + SECTOR_SIZE * computeSectorOfBitmap bSize"

lemmas layout_defs = sectorsToBytes_def sectorsRoundUpNoZero_def computeBatSize_def
  computeSectorsPerBlock_def computeBlockBitmapSize_def computeSectorOfBitmap_def
  computeFullBlockSize_def

lemma computeBatSize_mono: "a \<le> b \<Longrightarrow> computeBatSize a \<le> computeBatSize b"
proof -
  assume "a \<le> b"
  then have "ceil_div (a * 4) SECTOR_SIZE \<le> ceil_div (b * 4) SECTOR_SIZE"
    by (simp add: ceil_div_def div_le_mono vhd_sizes)
  then show ?thesis by (auto simp: layout_defs Let_def)
qed

lemma computeBatSize_ge: "4 * entries \<le> computeBatSize entries"
  using le_ceil_div_mult [of SECTOR_SIZE "entries * 4"]
  by (auto simp: layout_defs Let_def vhd_sizes)

lemma computeBatSize_sectors: "SECTOR_SIZE dvd computeBatSize entries"
  by (simp add: layout_defs)

lemma computeBatSize_dvd4: "4 dvd computeBatSize entries"
  by (simp add: layout_defs vhd_sizes)

lemma computeFullBlockSize_pos: "0 < computeFullBlockSize b"
  by (simp add: layout_defs vhd_sizes Let_def)

section \<open>Bitmaps\<close>

definition MASK :: byte where "MASK = 0x80"

definition bitmap_set :: "buffer \<Rightarrow> nat \<Rightarrow> buffer" where
  "bitmap_set m b =
     (let i = b div 8 in if i < length m then m[i := (m ! i) OR drop_bit (b mod 8) MASK] else m)"

definition bitmap_test :: "buffer \<Rightarrow> nat \<Rightarrow> bool" where
  "bitmap_test m b =
     (let i = b div 8 in i < length m \<and> (push_bit (b mod 8) (m ! i)) AND MASK \<noteq> 0)"

lemma bit_MASK: "bit MASK n \<longleftrightarrow> n = 7"
proof -
  have "bit (2 ^ 7 :: byte) n \<longleftrightarrow> n = 7" by (simp only: bit_exp_iff) auto
  then show ?thesis by (simp add: MASK_def)
qed

lemma and_MASK: "x AND MASK \<noteq> 0 \<longleftrightarrow> bit x 7"
proof
  assume "x AND MASK \<noteq> 0"
  then obtain n where "bit (x AND MASK) n" by (metis bit_eq_iff bit_0_eq bot_apply bot_bool_def)
  then show "bit x 7" by (auto simp: bit_and_iff bit_MASK)
next
  assume "bit x 7"
  then have "bit (x AND MASK) 7" by (simp add: bit_and_iff bit_MASK)
  then show "x AND MASK \<noteq> 0" by auto
qed

lemma bitmap_test_bit:
  "bitmap_test m b \<longleftrightarrow> b div 8 < length m \<and> bit (m ! (b div 8)) (7 - b mod 8)"
proof -
  have "b mod 8 \<le> 7" by (simp add: less_Suc_eq_le [symmetric])
  then show ?thesis
    by (simp add: bitmap_test_def Let_def and_MASK bit_push_bit_iff)
qed

lemma length_bitmap_set [simp, buf_simps]: "length (bitmap_set m b) = length m"
  by (simp add: bitmap_set_def Let_def)

lemma bit_drop_MASK: "k \<le> 7 \<Longrightarrow> bit (drop_bit k MASK) n \<longleftrightarrow> n = 7 - k"
  by (auto simp: bit_drop_bit_eq bit_MASK)

lemma bitmap_test_set:
  assumes "b div 8 < length m"
  shows "bitmap_test (bitmap_set m b) c \<longleftrightarrow> c = b \<or> bitmap_test m c"
proof (cases "c div 8 = b div 8")
  case True
  have "b mod 8 \<le> 7" "c mod 8 \<le> 7" by (simp_all add: less_Suc_eq_le [symmetric])
  then have "7 - c mod 8 = 7 - b mod 8 \<longleftrightarrow> c = b"
    using True by (metis diff_diff_cancel mult_div_mod_eq)
  moreover have "bit (drop_bit (b mod 8) MASK) (7 - c mod 8) \<longleftrightarrow> 7 - c mod 8 = 7 - b mod 8"
    by (rule bit_drop_MASK) fact
  ultimately show ?thesis
    using assms True by (auto simp: bitmap_test_bit bitmap_set_def Let_def bit_or_iff)
next
  case False
  with assms show ?thesis by (auto simp: bitmap_test_bit bitmap_set_def Let_def)
qed

lemma bitmap_set_outside: "length m \<le> b div 8 \<Longrightarrow> bitmap_set m b = m"
  by (simp add: bitmap_set_def Let_def)

section \<open>Geometry\<close>

text \<open>
  The divisions are those of JavaScript numbers, exact rationals here: the totals stay below
  \<open>2 ^ 29\<close>, where rounding to a double cannot cross an integer.
\<close>

definition chs_for_sectors :: "nat \<Rightarrow> nat \<times> nat \<times> rat" where
  "chs_for_sectors totalSectors =
     (if totalSectors \<ge> 65535 * 16 * 63 then
        (255, 16, rat_of_nat totalSectors / 255)
      else
        let cth17 = rat_of_nat totalSectors / 17;
            h17 = nat \<lfloor>(cth17 + 1023) / 1024\<rfloor>;
            hds = (if h17 < 4 then 4 else h17);
            (spt, hds, cth) =
              (if cth17 \<ge> rat_of_nat (hds * 1024) \<or> hds > 16
               then (31, 16, rat_of_nat totalSectors / 31) else (17, hds, cth17))
        in if cth \<ge> rat_of_nat (hds * 1024)
           then (63, 16, rat_of_nat totalSectors / 63) else (spt, hds, cth))"

definition computeGeometryForSize :: "nat \<Rightarrow> disk_geometry \<times> nat" where
  "computeGeometryForSize diskSize =
     (let totalSectors = min (ceil_div diskSize 512) (65535 * 16 * 255);
          (spt, hds, cylinderTimesHeads) = chs_for_sectors totalSectors;
          cyls = nat \<lceil>cylinderTimesHeads / rat_of_nat hds\<rceil>
      in (\<lparr>cylinders = cyls, heads = hds, sectorsPerTrackCylinder = spt\<rparr>,
          cyls * hds * spt * SECTOR_SIZE))"

text \<open>The same computation on integers: every quotient is a quotient of sector counts.\<close>

lemma ceiling_rat_div: "0 < a \<Longrightarrow> 0 < b \<Longrightarrow> nat \<lceil>rat_of_nat t / rat_of_nat a / rat_of_nat b\<rceil> = ceil_div t (a * b)"
proof -
  assume ab: "0 < a" "0 < b"
  have "nat \<lceil>rat_of_nat t / rat_of_nat (a * b)\<rceil> \<le> c \<longleftrightarrow> ceil_div t (a * b) \<le> c" for c
  proof -
    have "nat \<lceil>rat_of_nat t / rat_of_nat (a * b)\<rceil> \<le> c \<longleftrightarrow> rat_of_nat t / rat_of_nat (a * b) \<le> rat_of_nat c"
      by (simp add: nat_le_iff ceiling_le_iff)
    also have "\<dots> \<longleftrightarrow> rat_of_nat t \<le> rat_of_nat (c * (a * b))"
      using ab by (simp add: divide_le_eq)
    also have "\<dots> \<longleftrightarrow> t \<le> c * (a * b)" by (rule of_nat_le_iff)
    finally show ?thesis using ab by (simp add: ceil_div_le_iff)
  qed
  from this [of "ceil_div t (a * b)"] this [of "nat \<lceil>rat_of_nat t / rat_of_nat (a * b)\<rceil>"]
  show ?thesis by (simp add: antisym)
qed

lemma chs_for_sectors_cases:
  obtains (spt255) "chs_for_sectors t = (255, 16, rat_of_nat t / 255)"
  | (spt17) h where "chs_for_sectors t = (17, h, rat_of_nat t / 17)" "4 \<le> h" "h \<le> 16" "t < 17 * (h * 1024)"
  | (spt31) "chs_for_sectors t = (31, 16, rat_of_nat t / 31)" "t < 31 * 16 * 1024"
  | (spt63) "chs_for_sectors t = (63, 16, rat_of_nat t / 63)" "t < 65535 * 16 * 63"
proof -
  define h where "h = (if nat \<lfloor>(rat_of_nat t / 17 + 1023) / 1024\<rfloor> < 4 then 4
      else nat \<lfloor>(rat_of_nat t / 17 + 1023) / 1024\<rfloor>)"
  have ge: "rat_of_nat t / rat_of_nat a \<ge> rat_of_nat k \<longleftrightarrow> t \<ge> k * a" if "0 < a" for a k
    using that by (simp add: le_divide_eq) (metis of_nat_le_iff of_nat_mult)
  have ge17: "rat_of_nat t / 17 \<ge> rat_of_nat (h * 1024) \<longleftrightarrow> t \<ge> h * 1024 * 17"
    using ge [of 17 "h * 1024"] by simp
  have ge31: "rat_of_nat t / 31 \<ge> rat_of_nat (16 * 1024) \<longleftrightarrow> t \<ge> 16 * 1024 * 31"
    using ge [of 31 "16 * 1024"] by simp
  have body: "chs_for_sectors t =
      (if t \<ge> 65535 * 16 * 63 then (255, 16, rat_of_nat t / 255)
       else if t \<ge> h * 1024 * 17 \<or> h > 16
       then (if t \<ge> 16 * 1024 * 31 then (63, 16, rat_of_nat t / 63) else (31, 16, rat_of_nat t / 31))
       else (17, h, rat_of_nat t / 17))"
    unfolding chs_for_sectors_def Let_def h_def [symmetric] ge17
    using ge17 ge31 by (auto split del: if_split split: if_split)
  have "4 \<le> h" by (simp add: h_def)
  then show thesis
    using spt255 spt17 [of h] spt31 spt63 unfolding body
    by (cases "t \<ge> 65535 * 16 * 63"; cases "t \<ge> h * 1024 * 17 \<or> h > 16";
        cases "t \<ge> 16 * 1024 * 31") auto
qed

text \<open>
  The geometry always fits the fields of the footer (16 bits of cylinders, 8 bits of heads and of
  sectors), and covers every sector of the disk up to the largest size CHS addressing can express.
\<close>

lemma computeGeometry_spec:
  assumes "t = min (ceil_div d 512) (65535 * 16 * 255)"
  shows "\<exists>spt hds. computeGeometryForSize d =
      (\<lparr>cylinders = ceil_div t (spt * hds), heads = hds, sectorsPerTrackCylinder = spt\<rparr>,
       ceil_div t (spt * hds) * hds * spt * SECTOR_SIZE) \<and>
    0 < hds \<and> hds \<le> 16 \<and> 0 < spt \<and> spt \<le> 255 \<and> t \<le> 65535 * (spt * hds)"
proof (rule chs_for_sectors_cases [of t], goal_cases)
  case 1
  then show ?case
    using ceiling_rat_div [of 255 16 t] assms
    by (simp add: computeGeometryForSize_def Let_def)
next
  case (2 h)
  have "17 * (h * 1024) \<le> 65535 * (17 * h)" by simp
  then have "t \<le> 65535 * (17 * h)" using 2(4) by linarith
  then show ?case
    using 2 ceiling_rat_div [of 17 h t] assms
    by (intro exI [of _ 17] exI [of _ h]) (simp add: computeGeometryForSize_def Let_def)
next
  case 3
  then show ?case
    using ceiling_rat_div [of 31 16 t] assms
    by (simp add: computeGeometryForSize_def Let_def)
next
  case 4
  then show ?case
    using ceiling_rat_div [of 63 16 t] assms
    by (simp add: computeGeometryForSize_def Let_def)
qed

section \<open>First and last blocks of an allocation table\<close>

text \<open>The table is read as 32-bit entries; the scan is over the list of the entries.\<close>

definition bat_entry :: "buffer \<Rightarrow> nat \<Rightarrow> nat" where
  "bat_entry bat i = of_be (buf_slice bat (4 * i) (4 * i + 4))"

definition bat_entries :: "buffer \<Rightarrow> nat list" where
  "bat_entries bat = map (bat_entry bat) [0..<length bat div 4]"

record first_last =
  fl_first :: nat
  firstSector :: nat
  fl_last :: nat
  lastSector :: nat

text \<open>First loop: the first allocated entry, with its index and the entries from there on.\<close>

fun find_first_allocated :: "nat \<Rightarrow> nat list \<Rightarrow> (nat \<times> nat list) option" where
  "find_first_allocated i [] = None"
| "find_first_allocated i (e # es) =
     (if e = BLOCK_UNUSED then find_first_allocated (Suc i) es else Some (i, e # es))"

text \<open>Second loop: the entries with the lowest and the highest sector.\<close>

fun scan_allocated :: "nat \<Rightarrow> nat list \<Rightarrow> first_last \<Rightarrow> first_last" where
  "scan_allocated i [] r = r"
| "scan_allocated i (sector # es) r =
     scan_allocated (Suc i) es
       (if sector \<noteq> BLOCK_UNUSED then
          if sector < firstSector r then r\<lparr>fl_first := i, firstSector := sector\<rparr>
          else if sector > lastSector r then r\<lparr>fl_last := i, lastSector := sector\<rparr>
          else r
        else r)"

definition getFirstAndLastBlocks :: "buffer \<Rightarrow> js_error + first_last option" where
  "getFirstAndLastBlocks bat =
     (let n = length bat in
      if n = 0 then Inr None
      else res_bind (js_assert (n mod 4 = 0)) (\<lambda>_.
        case find_first_allocated 0 (bat_entries bat) of
          None \<Rightarrow> Inr None
        | Some (i, es) \<Rightarrow>
            Inr (Some (scan_allocated i es
              \<lparr>fl_first = i, firstSector = hd es, fl_last = i, lastSector = hd es\<rparr>))))"

text \<open>\<open>r\<close> describes the allocated entries of \<open>es\<close> below index \<open>k\<close>.\<close>

definition first_last_of :: "nat list \<Rightarrow> nat \<Rightarrow> first_last \<Rightarrow> bool" where
  "first_last_of es k r \<longleftrightarrow>
     fl_first r < k \<and> es ! fl_first r = firstSector r \<and> firstSector r \<noteq> BLOCK_UNUSED \<and>
     fl_last r < k \<and> es ! fl_last r = lastSector r \<and> lastSector r \<noteq> BLOCK_UNUSED \<and>
     (\<forall>j < k. es ! j \<noteq> BLOCK_UNUSED \<longrightarrow> firstSector r \<le> es ! j \<and> es ! j \<le> lastSector r)"

lemma find_first_allocated_None: "find_first_allocated i es = None \<longleftrightarrow> (\<forall>e \<in> set es. e = BLOCK_UNUSED)"
  by (induction es arbitrary: i) auto

lemma find_first_allocated_Some:
  "find_first_allocated i es = Some (k, rest) \<Longrightarrow>
   \<exists>pre e. es = pre @ rest \<and> k = i + length pre \<and> rest \<noteq> [] \<and> hd rest \<noteq> BLOCK_UNUSED \<and>
     (\<forall>x \<in> set pre. x = BLOCK_UNUSED)"
proof (induction es arbitrary: i)
  case (Cons e es)
  show ?case
  proof (cases "e = BLOCK_UNUSED")
    case True
    with Cons obtain pre where "es = pre @ rest" "k = Suc i + length pre" "rest \<noteq> []"
      "hd rest \<noteq> BLOCK_UNUSED" "\<forall>x \<in> set pre. x = BLOCK_UNUSED" by fastforce
    with True show ?thesis by (intro exI [of _ "e # pre"]) auto
  next
    case False
    with Cons.prems show ?thesis by (intro exI [of _ "[]"]) auto
  qed
qed simp

lemma scan_allocated_spec:
  assumes "all = pre @ es" and "first_last_of all (length pre) r"
  shows "first_last_of all (length all) (scan_allocated (length pre) es r)"
  using assms
proof (induction es arbitrary: pre r)
  case Nil
  then show ?case by simp
next
  case (Cons sector es)
  let ?r = "if sector \<noteq> BLOCK_UNUSED then
          if sector < firstSector r then r\<lparr>fl_first := length pre, firstSector := sector\<rparr>
          else if sector > lastSector r then r\<lparr>fl_last := length pre, lastSector := sector\<rparr>
          else r
        else r"
  have here: "all ! length pre = sector" using Cons.prems(1) by simp
  have "first_last_of all (Suc (length pre)) ?r"
    using Cons.prems(2) here by (auto simp: first_last_of_def less_Suc_eq)
  then have "first_last_of all (length (pre @ [sector])) ?r" by simp
  from Cons.IH [OF _ this] Cons.prems(1) show ?case by simp
qed

lemma getFirstAndLastBlocks_spec:
  assumes "4 dvd length bat"
  shows "case getFirstAndLastBlocks bat of
      Inl e \<Rightarrow> False
    | Inr None \<Rightarrow> \<forall>e \<in> set (bat_entries bat). e = BLOCK_UNUSED
    | Inr (Some r) \<Rightarrow> first_last_of (bat_entries bat) (length (bat_entries bat)) r"
proof (cases "find_first_allocated 0 (bat_entries bat)")
  case None
  then show ?thesis
    using assms find_first_allocated_None [of 0 "bat_entries bat"]
    by (auto simp: getFirstAndLastBlocks_def Let_def dvd_eq_mod_eq_0 bat_entries_def)
next
  case (Some a)
  obtain k rest where a: "a = (k, rest)" by fastforce
  from find_first_allocated_Some [OF Some [unfolded a]] obtain pre where
    pre: "bat_entries bat = pre @ rest" "k = length pre" "rest \<noteq> []" "hd rest \<noteq> BLOCK_UNUSED"
      "\<forall>x \<in> set pre. x = BLOCK_UNUSED" by auto
  then obtain e es where rest: "rest = e # es" by (cases rest) auto
  let ?r = "\<lparr>fl_first = k, firstSector = e, fl_last = k, lastSector = e\<rparr>"
  have "first_last_of (bat_entries bat) (Suc k) ?r"
    using pre rest by (auto simp: first_last_of_def less_Suc_eq nth_append)
  then have "first_last_of (bat_entries bat) (length (bat_entries bat)) (scan_allocated (Suc k) es ?r)"
    using scan_allocated_spec [of "bat_entries bat" "pre @ [e]" es ?r] pre rest by simp
  moreover have "bat \<noteq> []" using pre(1) rest by (auto simp: bat_entries_def)
  ultimately show ?thesis
    using assms Some a rest pre(4) by (simp add: getFirstAndLastBlocks_def Let_def dvd_eq_mod_eq_0)
qed

lemma length_bat_entries [simp]: "length (bat_entries bat) = length bat div 4"
  by (simp add: bat_entries_def)

lemma nth_bat_entries [simp]: "i < length bat div 4 \<Longrightarrow> bat_entries bat ! i = bat_entry bat i"
  by (simp add: bat_entries_def)

lemma readUInt32BE_bat_entry:
  "4 * i + 4 \<le> length bat \<Longrightarrow> readUInt32BE bat (4 * i) = Inr (bat_entry bat i)"
  by (simp add: readUInt32BE_def bat_entry_def)

end
