(* ===== verification/Vhd_File.thy ===== *)
theory Vhd_File
  imports Vhd_Layout
begin

text \<open>
  The class \<open>VhdFile\<close> of \<open>packages/vhd-lib/Vhd/VhdFile.js\<close>: a VHD stored in one file.

  The state is the content of the file, the parsed header and footer and the block allocation table
  in memory (\<open>None\<close> before it is initialised). Every method that reads or writes is a function that
  returns the new state or the exception. Waiting for a promise is sequencing: the class is used by
  one caller at a time.
\<close>

section \<open>State\<close>

datatype vhd_block =
    BitmapBlock (blk_id: nat) (blk_bitmap: buffer)
  | FullBlock (blk_id: nat) (blk_bitmap: buffer) (blk_data: buffer) (blk_buffer: buffer)

record vhd_file =
  vf_content :: buffer
  vf_header :: vhd_header
  vf_footer :: vhd_footer
  vf_blockTable :: "buffer option"

section \<open>Sizes derived from the header (\<open>VhdAbstract\<close>)\<close>

definition sectorsOfBitmap :: "vhd_header \<Rightarrow> nat" where
  "sectorsOfBitmap h = computeSectorOfBitmap (blockSize h)"

definition bitmapSize :: "vhd_header \<Rightarrow> nat" where
  "bitmapSize h = sectorsToBytes (sectorsOfBitmap h)"

definition fullBlockSize :: "vhd_header \<Rightarrow> nat" where
  "fullBlockSize h = computeFullBlockSize (blockSize h)"

definition sectorsPerBlock :: "vhd_header \<Rightarrow> nat" where
  "sectorsPerBlock h = computeSectorsPerBlock (blockSize h)"

definition batSize :: "vhd_header \<Rightarrow> nat" where
  "batSize h = computeBatSize (maxTableEntries h)"

section \<open>The header setter\<close>

definition vf_table :: "vhd_file \<Rightarrow> js_error + buffer" where
  "vf_table s = (case vf_blockTable s of None \<Rightarrow> Inl AssertionError | Some t \<Rightarrow> Inr t)"

definition set_header :: "vhd_header \<Rightarrow> vhd_file \<Rightarrow> js_error + vhd_file" where
  "set_header h s =
     res_bind (res_fold (\<lambda>i t. writeUInt32BE t BLOCK_UNUSED (i * 4)) [0..<maxTableEntries h]
         (replicate (batSize h) 0)) (\<lambda>t.
     Inr (s\<lparr>vf_header := h, vf_blockTable := Some t\<rparr>))"

section \<open>Read functions\<close>

definition vf_read :: "vhd_file \<Rightarrow> nat \<Rightarrow> nat \<Rightarrow> js_error + buffer" where
  "vf_read s start n =
     (let buf = file_read (vf_content s) start n
      in res_bind (js_assert (length buf = n)) (\<lambda>_. Inr buf))"

definition getEndOfHeaders :: "vhd_header \<Rightarrow> nat" where
  "getEndOfHeaders h =
     fold (\<lambda>entry end.
         if platformCode entry \<noteq> PLATFORM_NONE
         then max end (platformDataOffset entry + sectorsToBytes (platformDataSpace entry)) else end)
       (take PARENT_LOCATOR_ENTRIES (parentLocatorEntry h))
       (max (FOOTER_SIZE + HEADER_SIZE) (tableOffset h + batSize h))"

definition getBatEntry :: "vhd_file \<Rightarrow> nat \<Rightarrow> js_error + nat" where
  "getBatEntry s blockId =
     res_bind (vf_table s) (\<lambda>blockTable.
     if blockId * 4 < length blockTable then readUInt32BE blockTable (blockId * 4)
     else Inr BLOCK_UNUSED)"

definition getEndOfData :: "vhd_file \<Rightarrow> js_error + nat" where
  "getEndOfData s =
     (let h = vf_header s; sectorsOfFullBlock = sectorsOfBitmap h + sectorsPerBlock h
      in res_bind (res_fold (\<lambda>i end.
             res_bind (getBatEntry s i) (\<lambda>blockAddr.
             Inr (if blockAddr \<noteq> BLOCK_UNUSED then max end (blockAddr + sectorsOfFullBlock) else end)))
           [0..<maxTableEntries h] (ceil_div (getEndOfHeaders h) SECTOR_SIZE)) (\<lambda>end.
         Inr (sectorsToBytes end)))"

definition containsBlock :: "vhd_file \<Rightarrow> nat \<Rightarrow> js_error + bool" where
  "containsBlock s blockId = res_bind (getBatEntry s blockId) (\<lambda>e. Inr (e \<noteq> BLOCK_UNUSED))"

definition readHeaderAndFooter :: "struct_fu \<Rightarrow> bool \<Rightarrow> vhd_file \<Rightarrow> js_error + vhd_file" where
  "readHeaderAndFooter fu checkSecondFooter s =
     res_bind (vf_read s 0 (FOOTER_SIZE + HEADER_SIZE)) (\<lambda>buf.
     let bufFooter = buf_slice buf 0 FOOTER_SIZE; bufHeader = drop FOOTER_SIZE buf
     in res_bind (unpackFooter fu bufFooter) (\<lambda>footer.
        res_bind (unpackHeader fu bufHeader (Some footer)) (\<lambda>header.
        res_bind (if checkSecondFooter then
            let size = length (vf_content s)
            in res_bind (vf_read s (size - FOOTER_SIZE) FOOTER_SIZE) (\<lambda>endFooter.
               js_assert (bufFooter = endFooter))
          else Inr ()) (\<lambda>_.
        set_header header (s\<lparr>vf_footer := footer\<rparr>)))))"

definition readBlockAllocationTable :: "vhd_file \<Rightarrow> js_error + vhd_file" where
  "readBlockAllocationTable s =
     res_bind (vf_read s (tableOffset (vf_header s)) (maxTableEntries (vf_header s) * 4)) (\<lambda>t.
     Inr (s\<lparr>vf_blockTable := Some t\<rparr>))"

definition readBlock :: "vhd_file \<Rightarrow> nat \<Rightarrow> bool \<Rightarrow> js_error + vhd_block" where
  "readBlock s blockId onlyBitmap =
     res_bind (getBatEntry s blockId) (\<lambda>blockAddr.
     res_bind (js_assert (blockAddr \<noteq> BLOCK_UNUSED)) (\<lambda>_.
     let bms = bitmapSize (vf_header s)
     in res_bind (vf_read s (sectorsToBytes blockAddr)
            (if onlyBitmap then bms else fullBlockSize (vf_header s))) (\<lambda>buf.
        Inr (if onlyBitmap then BitmapBlock blockId buf
             else FullBlock blockId (buf_slice buf 0 bms) (drop bms buf) buf))))"

section \<open>Write functions\<close>

definition vf_write :: "buffer \<Rightarrow> nat \<Rightarrow> vhd_file \<Rightarrow> vhd_file" where
  "vf_write data offset s = s\<lparr>vf_content := file_write (vf_content s) data offset\<rparr>"

definition setBatEntry :: "nat \<Rightarrow> nat \<Rightarrow> vhd_file \<Rightarrow> js_error + vhd_file" where
  "setBatEntry block blockSector s =
     (let i = block * 4
      in res_bind (vf_table s) (\<lambda>t.
         res_bind (writeUInt32BE t blockSector i) (\<lambda>t'.
         Inr (vf_write (buf_slice t' i (i + 4)) (tableOffset (vf_header s) + i)
           (s\<lparr>vf_blockTable := Some t'\<rparr>)))))"

definition writeFooter :: "struct_fu \<Rightarrow> bool \<Rightarrow> vhd_file \<Rightarrow> js_error + vhd_file" where
  "writeFooter fu onlyEndFooter s =
     (let rawFooter = fuFooter_pack fu (vf_footer s); eof = length (vf_content s)
      in res_bind (getEndOfData s) (\<lambda>endOfData.
         let offset = max endOfData (eof - length rawFooter);
             (checksum, rawFooter) = checksumStruct fu rawFooter FuFooter;
             s = s\<lparr>vf_footer := (vf_footer s)\<lparr>f_checksum := checksum\<rparr>\<rparr>;
             s = (if onlyEndFooter then s else vf_write rawFooter 0 s)
         in Inr (vf_write rawFooter offset s)))"

definition writeHeader :: "struct_fu \<Rightarrow> vhd_file \<Rightarrow> vhd_file" where
  "writeHeader fu s =
     (let (checksum, rawHeader) = checksumStruct fu (fuHeader_pack fu (vf_header s)) FuHeader
      in vf_write rawHeader FOOTER_SIZE
           (s\<lparr>vf_header := (vf_header s)\<lparr>h_checksum := checksum\<rparr>\<rparr>))"

definition writeBlockAllocationTable :: "vhd_file \<Rightarrow> js_error + vhd_file" where
  "writeBlockAllocationTable s =
     res_bind (vf_table s) (\<lambda>t. Inr (vf_write t (tableOffset (vf_header s)) s))"

text \<open>
  \<open>freeFirstBlockSpace\<close> moves the first block of the file behind the last one, and calls itself with
  what is still needed. A move costs one full block of the needed space, whence termination.
\<close>

function freeFirstBlockSpace :: "struct_fu \<Rightarrow> nat \<Rightarrow> vhd_file \<Rightarrow> js_error + vhd_file" where
  "freeFirstBlockSpace fu spaceNeededBytes s =
     res_bind (vf_table s) (\<lambda>t.
     res_bind (getFirstAndLastBlocks t) (\<lambda>fl.
     case fl of
       None \<Rightarrow> Inr s
     | Some r \<Rightarrow>
         let h = vf_header s;
             newMinSector = ceil_div (tableOffset h + batSize h + spaceNeededBytes) SECTOR_SIZE
         in if tableOffset h + batSize h + spaceNeededBytes \<ge> sectorsToBytes (firstSector r) then
              let full = fullBlockSize h;
                  newFirstSector = max (lastSector r + full div SECTOR_SIZE) newMinSector
              in res_bind (vf_read s (sectorsToBytes (firstSector r)) full) (\<lambda>block.
                 res_bind (setBatEntry (fl_first r) newFirstSector
                     (vf_write block (sectorsToBytes newFirstSector) s)) (\<lambda>s.
                 res_bind (writeFooter fu True s) (\<lambda>s.
                 if spaceNeededBytes > full
                 then freeFirstBlockSpace fu (spaceNeededBytes - full) s else Inr s)))
            else Inr s))"
  by pat_completeness auto
termination
  by (relation "measure (\<lambda>(fu, n, s). n)")
    (auto simp: fullBlockSize_def computeFullBlockSize_pos)

declare freeFirstBlockSpace.simps [simp del]

text \<open>
  \<open>bat.fill(BUF_BLOCK_UNUSED, from)\<close> repeats the four bytes of an unused entry, all 0xff, up to the
  end; \<open>Buffer.alloc(n, BUF_BLOCK_UNUSED)\<close> is a buffer of \<open>n\<close> such bytes.
\<close>

definition ensureBatSize :: "struct_fu \<Rightarrow> nat \<Rightarrow> vhd_file \<Rightarrow> js_error + vhd_file" where
  "ensureBatSize fu entries s =
     (let prevMaxTableEntries = maxTableEntries (vf_header s)
      in if prevMaxTableEntries \<ge> entries then Inr s
         else
           let newBatSize = computeBatSize entries
           in res_bind (freeFirstBlockSpace fu (newBatSize - batSize (vf_header s)) s) (\<lambda>s.
              res_bind (vf_table s) (\<lambda>prevBat.
              let s = s\<lparr>vf_header := (vf_header s)\<lparr>maxTableEntries := entries\<rparr>\<rparr>;
                  bat = take newBatSize (take (prevMaxTableEntries * 4) prevBat @ replicate newBatSize 0xff);
                  s = s\<lparr>vf_blockTable := Some bat\<rparr>;
                  s = vf_write (replicate (entries - prevMaxTableEntries) 0xff)
                        (tableOffset (vf_header s) + length prevBat) s
              in Inr (writeHeader fu s))))"

definition createBlock :: "nat \<Rightarrow> vhd_file \<Rightarrow> js_error + (nat \<times> vhd_file)" where
  "createBlock blockId s =
     res_bind (getBatEntry s blockId) (\<lambda>e.
     res_bind (js_assert (e = BLOCK_UNUSED)) (\<lambda>_.
     res_bind (getEndOfData s) (\<lambda>endOfData.
     let blockAddr = ceil_div endOfData SECTOR_SIZE
     in res_bind (setBatEntry blockId blockAddr s) (\<lambda>s. Inr (blockAddr, s)))))"

definition writeBlockBitmap :: "nat \<Rightarrow> buffer \<Rightarrow> vhd_file \<Rightarrow> js_error + vhd_file" where
  "writeBlockBitmap blockAddr bitmap s =
     (if length bitmap \<noteq> bitmapSize (vf_header s) then Inl (JsError ''Bitmap length is not correct !'')
      else Inr (vf_write bitmap (sectorsToBytes blockAddr) s))"

text \<open>The address of a block, allocated when it has none.\<close>

definition getOrCreateBlock :: "nat \<Rightarrow> vhd_file \<Rightarrow> js_error + (nat \<times> vhd_file)" where
  "getOrCreateBlock blockId s =
     res_bind (getBatEntry s blockId) (\<lambda>blockAddr.
     if blockAddr = BLOCK_UNUSED then createBlock blockId s else Inr (blockAddr, s))"

definition writeEntireBlock :: "nat \<Rightarrow> buffer \<Rightarrow> vhd_file \<Rightarrow> js_error + vhd_file" where
  "writeEntireBlock blockId buf s =
     res_bind (getOrCreateBlock blockId s) (\<lambda>(blockAddr, s).
     Inr (vf_write buf (sectorsToBytes blockAddr) s))"

definition writeBlockData :: "nat \<Rightarrow> buffer \<Rightarrow> vhd_file \<Rightarrow> js_error + vhd_file" where
  "writeBlockData blockId data s =
     res_bind (js_assert (length data = blockSize (vf_header s))) (\<lambda>_.
     res_bind (getOrCreateBlock blockId s) (\<lambda>(blockAddr, s).
     res_bind (writeBlockBitmap blockAddr (replicate (bitmapSize (vf_header s)) 255) s) (\<lambda>s.
     Inr (vf_write data (sectorsToBytes (blockAddr + sectorsOfBitmap (vf_header s))) s))))"

text \<open>\<open>parentBitmap\<close> is the bitmap the caller already holds, if any.\<close>

definition writeBlockSectors ::
  "nat \<Rightarrow> buffer \<Rightarrow> nat \<Rightarrow> nat \<Rightarrow> buffer option \<Rightarrow> vhd_file \<Rightarrow> js_error + vhd_file" where
  "writeBlockSectors blockId data beginSectorId endSectorId parentBitmap s =
     res_bind (getBatEntry s blockId) (\<lambda>blockAddr.
     res_bind
       (if blockAddr = BLOCK_UNUSED then
          res_bind (createBlock blockId s) (\<lambda>(blockAddr, s).
          Inr (blockAddr, replicate (bitmapSize (vf_header s)) 0, s))
        else case parentBitmap of
          None \<Rightarrow> res_bind (readBlock s blockId True) (\<lambda>b. Inr (blockAddr, blk_bitmap b, s))
        | Some bitmap \<Rightarrow> Inr (blockAddr, bitmap, s)) (\<lambda>(blockAddr, bitmap, s).
     let offset = blockAddr + sectorsOfBitmap (vf_header s) + beginSectorId;
         bitmap = fold (\<lambda>i m. bitmap_set m i) [beginSectorId..<endSectorId] bitmap
     in res_bind (writeBlockBitmap blockAddr bitmap s) (\<lambda>s.
        Inr (vf_write (buf_slice data (sectorsToBytes beginSectorId) (sectorsToBytes endSectorId))
          (sectorsToBytes offset) s))))"

text \<open>
  One iteration of the loop of \<open>writeData\<close>: the part of the buffer that falls in \<open>currentBlock\<close>.
  The numbers that JavaScript lets go below zero before \<open>Math.max(0, _)\<close> stop at zero here.
\<close>

definition writeData_block :: "nat \<Rightarrow> buffer \<Rightarrow> nat \<Rightarrow> vhd_file \<Rightarrow> js_error + vhd_file" where
  "writeData_block offsetSectors buf currentBlock s =
     (let spb = sectorsPerBlock (vf_header s);
          endBufferSectors = offsetSectors + ceil_div (length buf) SECTOR_SIZE;
          offsetInBlockSectors = offsetSectors - currentBlock * spb;
          endInBlockSectors = min (endBufferSectors - currentBlock * spb) spb;
          startInBuffer = (currentBlock * spb - offsetSectors) * SECTOR_SIZE;
          endInBuffer = min (((currentBlock + 1) * spb - offsetSectors) * SECTOR_SIZE) (length buf);
          inputBuffer =
            (if offsetInBlockSectors = 0 \<and> endInBlockSectors = spb
             then buf_slice buf startInBuffer endInBuffer
             else buf_copy (buf_slice buf startInBuffer endInBuffer)
                    (replicate (spb * SECTOR_SIZE) 0) (offsetInBlockSectors * SECTOR_SIZE))
      in writeBlockSectors currentBlock inputBuffer offsetInBlockSectors endInBlockSectors None s)"

definition writeData :: "struct_fu \<Rightarrow> nat \<Rightarrow> buffer \<Rightarrow> vhd_file \<Rightarrow> js_error + vhd_file" where
  "writeData fu offsetSectors buf s =
     (let spb = sectorsPerBlock (vf_header s);
          endBufferSectors = offsetSectors + ceil_div (length buf) SECTOR_SIZE;
          startBlock = offsetSectors div spb;
          nextBlock = ceil_div endBufferSectors spb;
          lastBlock = nextBlock - 1
      in res_bind (ensureBatSize fu lastBlock s) (\<lambda>s.
         res_bind (res_fold (writeData_block offsetSectors buf) [startBlock..<nextBlock] s) (\<lambda>s.
         writeFooter fu False s)))"

section \<open>Parent locators\<close>

definition readParentLocatorData :: "vhd_file \<Rightarrow> nat \<Rightarrow> js_error + buffer" where
  "readParentLocatorData s parentLocatorId =
     (let e = parentLocatorEntry (vf_header s) ! parentLocatorId
      in if platformDataLength e > 0 then vf_read s (platformDataOffset e) (platformDataLength e)
         else Inr [])"

definition update_locator :: "nat \<Rightarrow> (parent_locator \<Rightarrow> parent_locator) \<Rightarrow> vhd_file \<Rightarrow> vhd_file" where
  "update_locator i f s =
     s\<lparr>vf_header := (vf_header s)\<lparr>parentLocatorEntry :=
       (parentLocatorEntry (vf_header s))[i := f (parentLocatorEntry (vf_header s) ! i)]\<rparr>\<rparr>"

definition writeParentLocatorData :: "struct_fu \<Rightarrow> nat \<Rightarrow> buffer \<Rightarrow> vhd_file \<Rightarrow> js_error + vhd_file" where
  "writeParentLocatorData fu parentLocatorId data s =
     (if data = [] then
        Inr (update_locator parentLocatorId (\<lambda>e. e\<lparr>platformDataOffset := 0\<rparr>) s)
      else
        let entry = parentLocatorEntry (vf_header s) ! parentLocatorId;
            space = platformDataSpace entry * SECTOR_SIZE
        in res_bind
             (if length data \<le> space then Inr (platformDataOffset entry, s)
              else
                res_bind (vf_table s) (\<lambda>t.
                res_bind (getFirstAndLastBlocks t) (\<lambda>fl.
                case fl of
                  None \<Rightarrow> res_bind (getEndOfData s) (\<lambda>position. Inr (position, s))
                | Some r \<Rightarrow>
                    res_bind (freeFirstBlockSpace fu space s) (\<lambda>s.
                    Inr (sectorsToBytes (firstSector r), s))))) (\<lambda>(position, s).
           Inr (update_locator parentLocatorId (\<lambda>e. e\<lparr>platformDataOffset := position\<rparr>)
                 (vf_write data position s))))"

definition ensureSpaceForParentLocators :: "struct_fu \<Rightarrow> nat \<Rightarrow> vhd_file \<Rightarrow> js_error + (nat \<times> vhd_file)" where
  "ensureSpaceForParentLocators fu neededSectors s =
     (let firstLocatorOffset = FOOTER_SIZE + HEADER_SIZE;
          currentSpace = tableOffset (vf_header s) div SECTOR_SIZE - firstLocatorOffset div SECTOR_SIZE
      in if currentSpace < neededSectors then
           let deltaSectors = neededSectors - currentSpace
           in res_bind (freeFirstBlockSpace fu (sectorsToBytes deltaSectors) s) (\<lambda>s.
              let s = s\<lparr>vf_header := (vf_header s)\<lparr>tableOffset :=
                    tableOffset (vf_header s) + sectorsToBytes deltaSectors\<rparr>\<rparr>
              in res_bind (vf_table s) (\<lambda>t.
                 Inr (firstLocatorOffset, vf_write t (tableOffset (vf_header s)) s)))
         else Inr (firstLocatorOffset, s))"

section \<open>Opening\<close>

text \<open>
  \<open>VhdFile.open\<close> on a file that \<open>handler.openFile\<close> could open; \<open>blank\<close> holds the values of the
  fields before they are read.
\<close>

definition vf_open :: "struct_fu \<Rightarrow> bool \<Rightarrow> vhd_file \<Rightarrow> buffer \<Rightarrow> js_error + vhd_file" where
  "vf_open fu checkSecondFooter blank content =
     readHeaderAndFooter fu checkSecondFooter (blank\<lparr>vf_content := content, vf_blockTable := None\<rparr>)"

end
