(* ===== verification/Vhd_Abstract.thy ===== *)
theory Vhd_Abstract
  imports Vhd_File
begin

text \<open>
  The methods \<open>VhdAbstract\<close> (\<open>packages/vhd-lib/Vhd/VhdAbstract.js\<close>) gives to every kind of VHD.

  The methods that only read are defined over a \<open>vhd_view\<close>: the record of what a subclass
  overrides (header, footer, \<open>containsBlock\<close>, \<open>readBlock\<close>, \<open>_readParentLocatorData\<close>). The methods
  that write are defined over a \<open>vhd_writer\<close>, the overridden methods on the subclass state.
\<close>

section \<open>The overridden methods\<close>

text \<open>
  \<open>_readParentLocatorData\<close> depends on the entries of the header object at the moment of the call,
  its first argument: \<open>stream\<close> modifies them.
\<close>

record vhd_view =
  v_header :: vhd_header
  v_footer :: vhd_footer
  v_contains :: "nat \<Rightarrow> js_error + bool"
  v_read :: "nat \<Rightarrow> bool \<Rightarrow> js_error + vhd_block"
  v_locatorData :: "parent_locator list \<Rightarrow> nat \<Rightarrow> js_error + buffer"

record 's vhd_writer =
  w_header :: "'s \<Rightarrow> vhd_header"
  w_contains :: "nat \<Rightarrow> 's \<Rightarrow> js_error + bool"
  w_writeEntireBlock :: "nat \<Rightarrow> buffer \<Rightarrow> 's \<Rightarrow> js_error + 's"
  w_writeParentLocatorData :: "nat \<Rightarrow> buffer \<Rightarrow> 's \<Rightarrow> js_error + 's"
  w_update_locator :: "nat \<Rightarrow> (parent_locator \<Rightarrow> parent_locator) \<Rightarrow> 's \<Rightarrow> 's"

definition file_view :: "vhd_file \<Rightarrow> vhd_view" where
  "file_view s = \<lparr>
     v_header = vf_header s,
     v_footer = vf_footer s,
     v_contains = containsBlock s,
     v_read = readBlock s,
     v_locatorData = (\<lambda>entries i.
       readParentLocatorData (s\<lparr>vf_header := (vf_header s)\<lparr>parentLocatorEntry := entries\<rparr>\<rparr>) i)\<rparr>"

definition file_writer :: "struct_fu \<Rightarrow> vhd_file vhd_writer" where
  "file_writer fu = \<lparr>
     w_header = vf_header,
     w_contains = (\<lambda>i s. containsBlock s i),
     w_writeEntireBlock = writeEntireBlock,
     w_writeParentLocatorData = writeParentLocatorData fu,
     w_update_locator = update_locator\<rparr>"

section \<open>Reading\<close>

definition abs_readParentLocator :: "vhd_view \<Rightarrow> parent_locator list \<Rightarrow> nat \<Rightarrow> js_error + (nat \<times> nat \<times> buffer)" where
  "abs_readParentLocator v entries i =
     res_bind (js_assert (i < PARENT_LOCATOR_ENTRIES)) (\<lambda>_.
     res_bind (v_locatorData v entries i) (\<lambda>data.
     Inr (platformCode (entries ! i), i, data)))"

text \<open>The blocks the generator \<open>blocks()\<close> yields, in order.\<close>

definition abs_blocks :: "vhd_view \<Rightarrow> js_error + vhd_block list" where
  "abs_blocks v =
     res_fold (\<lambda>i acc.
       res_bind (v_contains v i) (\<lambda>c.
       if c then res_bind (v_read v i False) (\<lambda>b. Inr (acc @ [b])) else Inr acc))
     [0..<maxTableEntries (v_header v)] []"

definition streamSize :: "vhd_view \<Rightarrow> js_error + nat" where
  "streamSize v =
     (let header = v_header v;
          fileSize = FOOTER_SIZE + HEADER_SIZE + batSize header + FOOTER_SIZE;
          fileSize = fold (\<lambda>i n. n + platformDataSpace (parentLocatorEntry header ! i) * SECTOR_SIZE)
            [0..<PARENT_LOCATOR_ENTRIES] fileSize
      in res_bind (res_fold (\<lambda>i n. res_bind (v_contains v i) (\<lambda>c.
             Inr (if c then n + fullBlockSize header else n)))
           [0..<maxTableEntries header] fileSize) (\<lambda>fileSize.
         res_bind (js_assert (fileSize mod SECTOR_SIZE = 0)) (\<lambda>_. Inr fileSize)))"

text \<open>
  \<open>stream\<close>, first half: the entries of the parent locators are given their place in the stream. The
  header is a shallow copy, so the entries of the VHD itself are replaced too.
\<close>

definition stream_locators :: "vhd_header \<Rightarrow> parent_locator list \<times> nat" where
  "stream_locators header =
     fold (\<lambda>i (entries, offset).
         (entries[i := (entries ! i)\<lparr>platformDataOffset := offset\<rparr>],
          offset + platformDataSpace (entries ! i) * SECTOR_SIZE))
       [0..<PARENT_LOCATOR_ENTRIES]
       (parentLocatorEntry header, FOOTER_SIZE + HEADER_SIZE + batSize header)"

text \<open>
  The block allocation table of the stream, the sectors after the last block and the size of the
  file. \<open>uninit\<close> is what \<open>Buffer.allocUnsafe\<close> happens to contain.
\<close>

definition stream_bat :: "vhd_view \<Rightarrow> buffer \<Rightarrow> nat \<Rightarrow> js_error + (buffer \<times> nat \<times> nat)" where
  "stream_bat v uninit offset =
     (let header = v_header v; blockSizeInSectors = fullBlockSize header div SECTOR_SIZE
      in res_fold (\<lambda>i (bat, offsetSector, fileSize).
           res_bind (v_contains v i) (\<lambda>c.
           if c then res_bind (writeUInt32BE bat offsetSector (i * 4)) (\<lambda>bat.
             Inr (bat, offsetSector + blockSizeInSectors, fileSize + fullBlockSize header))
           else res_bind (writeUInt32BE bat BLOCK_UNUSED (i * 4)) (\<lambda>bat.
             Inr (bat, offsetSector, fileSize))))
         [0..<maxTableEntries header]
         (uninit, offset div SECTOR_SIZE, offset div SECTOR_SIZE * SECTOR_SIZE + FOOTER_SIZE))"

text \<open>\<open>trackTransmittedLength\<close>: no more than the announced size is ever yielded.\<close>

definition track :: "nat \<Rightarrow> buffer \<Rightarrow> buffer list \<times> nat \<Rightarrow> js_error + (buffer list \<times> nat)" where
  "track fileSize buf st =
     (let yielded = snd st + length buf
      in res_bind (js_assert (yielded \<le> fileSize)) (\<lambda>_. Inr (fst st @ [buf], yielded)))"

definition stream_locator_data ::
  "vhd_view \<Rightarrow> parent_locator list \<Rightarrow> nat \<Rightarrow> nat \<Rightarrow> buffer list \<times> nat \<Rightarrow> js_error + (buffer list \<times> nat)" where
  "stream_locator_data v entries fileSize i st =
     (let space = platformDataSpace (entries ! i) * SECTOR_SIZE
      in if space > 0 then
           res_bind (abs_readParentLocator v entries i) (\<lambda>(_, _, data).
           track fileSize (buf_copy data (replicate space 0) 0) st)
         else Inr st)"

definition stream_block ::
  "vhd_view \<Rightarrow> buffer \<Rightarrow> nat \<Rightarrow> nat \<Rightarrow> buffer list \<times> nat \<Rightarrow> js_error + (buffer list \<times> nat)" where
  "stream_block v bat fileSize i st =
     res_bind (readUInt32BE bat (i * 4)) (\<lambda>e.
     if e \<noteq> BLOCK_UNUSED then
       res_bind (v_read v i False) (\<lambda>block. track fileSize (blk_buffer block) st)
     else Inr st)"

text \<open>The buffers the stream yields, and the length it announces.\<close>

definition stream :: "struct_fu \<Rightarrow> vhd_view \<Rightarrow> buffer \<Rightarrow> js_error + (buffer list \<times> nat)" where
  "stream fu v uninit =
     (let (_, rawFooter) = checksumStruct fu (fuFooter_pack fu (v_footer v)) FuFooter;
          (entries, offset) = stream_locators (v_header v);
          header = (v_header v)\<lparr>tableOffset := FOOTER_SIZE + HEADER_SIZE, parentLocatorEntry := entries\<rparr>;
          (_, rawHeader) = checksumStruct fu (fuHeader_pack fu header) FuHeader
      in res_bind (js_assert (offset mod SECTOR_SIZE = 0)) (\<lambda>_.
         res_bind (stream_bat v uninit offset) (\<lambda>(bat, _, fileSize).
         res_bind (track fileSize rawFooter ([], 0)) (\<lambda>st.
         res_bind (track fileSize rawHeader st) (\<lambda>st.
         res_bind (track fileSize bat st) (\<lambda>st.
         res_bind (res_fold (stream_locator_data v entries fileSize) [0..<PARENT_LOCATOR_ENTRIES] st) (\<lambda>st.
         res_bind (res_fold (stream_block v bat fileSize) [0..<maxTableEntries header] st) (\<lambda>st.
         res_bind (track fileSize rawFooter st) (\<lambda>st.
         res_bind (js_assert (snd st = fileSize)) (\<lambda>_.
         Inr (fst st, fileSize)))))))))))"

text \<open>
  \<open>rawContent\<close> yields the content of the disk block after block; the remaining size may become
  negative, \<open>buffer.slice(0, negative)\<close> then counts from the end of the block.
\<close>

definition slice_to :: "buffer \<Rightarrow> int \<Rightarrow> buffer" where
  "slice_to b n = (if n < 0 then take (length b - nat (- n)) b else take (nat n) b)"

definition rawContent :: "vhd_view \<Rightarrow> js_error + buffer list" where
  "rawContent v =
     (let bSize = blockSize (v_header v); EMPTY = replicate bSize 0
      in res_bind (res_fold (\<lambda>blockId (out, remainingSize).
             res_bind (v_contains v blockId) (\<lambda>c.
             res_bind (if c then res_bind (v_read v blockId False) (\<lambda>b. Inr (blk_data b)) else Inr EMPTY) (\<lambda>buf.
             let buf = (if remainingSize < int bSize then slice_to buf remainingSize else buf)
             in Inr (out @ [buf], remainingSize - int bSize))))
           [0..<maxTableEntries (v_header v)] ([], int (currentSize (v_footer v)))) (\<lambda>(out, _). Inr out))"

definition containsAllDataOf :: "vhd_view \<Rightarrow> vhd_view \<Rightarrow> js_error + bool" where
  "containsAllDataOf v child =
     res_bind (abs_blocks child) (\<lambda>blocks.
     res_fold (\<lambda>block ok.
       if \<not> ok then Inr False
       else res_bind (v_contains v (blk_id block)) (\<lambda>c.
         if \<not> c then Inr False
         else res_bind (v_read v (blk_id block) False) (\<lambda>b. Inr (blk_data block = blk_data b))))
     blocks True)"

text \<open>
  \<open>readRawData\<close> into the buffer \<open>buf\<close>. The cache holds the data of blocks already read: a block of a
  \<open>vhd_view\<close> does not change, so reading it again gives the cached value.
\<close>

definition readRawData :: "vhd_view \<Rightarrow> nat \<Rightarrow> nat \<Rightarrow> buffer \<Rightarrow> js_error + (buffer \<times> nat)" where
  "readRawData v start len buf =
     (let bSize = blockSize (v_header v);
          startBlockId = start div bSize;
          endBlockId = (start + len) div bSize
      in res_bind (res_fold (\<lambda>blockId (buf, copied).
             res_bind (v_contains v blockId) (\<lambda>c.
             res_bind (if c then res_bind (v_read v blockId False) (\<lambda>b. Inr (blk_data b))
                       else Inr (replicate bSize 0)) (\<lambda>data.
             let offsetStart = (if blockId = startBlockId then start mod bSize else 0);
                 offsetEnd = (if blockId = endBlockId then (start + len) mod bSize else bSize)
             in Inr (buf_copy (buf_slice data offsetStart offsetEnd) buf copied,
                     copied + (offsetEnd - offsetStart)))))
           [startBlockId..<endBlockId + 1] (buf, 0)) (\<lambda>(buf, copied).
         res_bind (js_assert (copied = len)) (\<lambda>_. Inr (buf, copied))))"

section \<open>Writing\<close>

definition abs_writeBlockData :: "'s vhd_writer \<Rightarrow> nat \<Rightarrow> buffer \<Rightarrow> 's \<Rightarrow> js_error + 's" where
  "abs_writeBlockData w blockId data s =
     res_bind (js_assert (length data = blockSize (w_header w s))) (\<lambda>_.
     w_writeEntireBlock w blockId (replicate (bitmapSize (w_header w s)) 255 @ data) s)"

text \<open>Returns the number of bytes the parent grows by.\<close>

definition abs_mergeBlock :: "'s vhd_writer \<Rightarrow> vhd_view \<Rightarrow> nat \<Rightarrow> 's \<Rightarrow> js_error + (nat \<times> 's)" where
  "abs_mergeBlock w child blockId s =
     res_bind (w_contains w blockId s) (\<lambda>isBlockPresent.
     res_bind (v_read child blockId False) (\<lambda>block.
     res_bind (w_writeEntireBlock w (blk_id block) (blk_buffer block) s) (\<lambda>s'.
     Inr (if isBlockPresent then 0 else fullBlockSize (w_header w s'), s'))))"

definition writeParentLocator :: "'s vhd_writer \<Rightarrow> nat \<Rightarrow> nat \<Rightarrow> buffer \<Rightarrow> 's \<Rightarrow> js_error + 's" where
  "writeParentLocator w i platform data s =
     res_bind (js_assert (i < PARENT_LOCATOR_ENTRIES)) (\<lambda>_.
     res_bind (w_writeParentLocatorData w i data s) (\<lambda>s.
     Inr (w_update_locator w i (\<lambda>entry. entry\<lparr>
       platformCode := platform,
       platformDataSpace := ceil_div (length data) SECTOR_SIZE,
       platformDataLength := length data\<rparr>) s)))"

text \<open>\<open>Buffer.from(string, 'utf16le')\<close>.\<close>

definition utf16le :: "string \<Rightarrow> buffer" where
  "utf16le s = concat (map (\<lambda>c. [byte_of_char c, 0]) s)"

definition setUniqueParentLocator :: "'s vhd_writer \<Rightarrow> string \<Rightarrow> 's \<Rightarrow> js_error + 's" where
  "setUniqueParentLocator w fileNameString s =
     res_bind (writeParentLocator w 0 PLATFORM_W2KU (utf16le fileNameString) s) (\<lambda>s.
     res_fold (\<lambda>i s. writeParentLocator w i PLATFORM_NONE [] s) [1..<PARENT_LOCATOR_ENTRIES] s)"

end
