(* ===== verification/Vhd_File_Props.thy ===== *)
theory Vhd_File_Props
  imports Vhd_Abstract
begin

text \<open>
  What \<open>VhdFile\<close> guarantees. \<open>vf_inv\<close> is the well-formedness of a file in use: the allocated blocks
  lie after the headers, inside the file, and do not overlap; the entries of the table beyond the
  declared ones are unused. Writing a block keeps it, gives back what was written and leaves every
  other block alone; making room for a larger table keeps the content of every block.
\<close>

section \<open>Entries of the table\<close>

definition vf_entry :: "vhd_file \<Rightarrow> nat \<Rightarrow> nat" where
  "vf_entry s i = (case vf_blockTable s of None \<Rightarrow> BLOCK_UNUSED
     | Some t \<Rightarrow> if i * 4 < length t then bat_entry t i else BLOCK_UNUSED)"

abbreviation allocated :: "vhd_file \<Rightarrow> nat \<Rightarrow> bool" where
  "allocated s i \<equiv> vf_entry s i \<noteq> BLOCK_UNUSED"

definition full_sectors :: "vhd_header \<Rightarrow> nat" where
  "full_sectors h = sectorsOfBitmap h + sectorsPerBlock h"

definition wf_table :: "vhd_header \<Rightarrow> buffer \<Rightarrow> bool" where
  "wf_table h t \<longleftrightarrow> 4 dvd length t \<and> 4 * maxTableEntries h \<le> length t \<and> length t \<le> batSize h"

definition wf_layout :: "vhd_header \<Rightarrow> bool" where
  "wf_layout h \<longleftrightarrow> SECTOR_SIZE dvd blockSize h \<and> FOOTER_SIZE + HEADER_SIZE \<le> tableOffset h"

definition vf_inv :: "vhd_file \<Rightarrow> bool" where
  "vf_inv s \<longleftrightarrow>
     wf_layout (vf_header s) \<and>
     (\<exists>t. vf_blockTable s = Some t \<and> wf_table (vf_header s) t) \<and>
     (\<forall>i. allocated s i \<longrightarrow>
        i < maxTableEntries (vf_header s) \<and>
        getEndOfHeaders (vf_header s) \<le> vf_entry s i * SECTOR_SIZE \<and>
        (vf_entry s i + full_sectors (vf_header s)) * SECTOR_SIZE \<le> length (vf_content s)) \<and>
     (\<forall>i j. i \<noteq> j \<longrightarrow> allocated s i \<longrightarrow> allocated s j \<longrightarrow>
        vf_entry s i + full_sectors (vf_header s) \<le> vf_entry s j \<or>
        vf_entry s j + full_sectors (vf_header s) \<le> vf_entry s i)"

lemma vf_invD:
  assumes "vf_inv s"
  shows "wf_layout (vf_header s)"
    and "allocated s i \<Longrightarrow> i < maxTableEntries (vf_header s)"
    and "allocated s i \<Longrightarrow> getEndOfHeaders (vf_header s) \<le> vf_entry s i * SECTOR_SIZE"
    and "allocated s i \<Longrightarrow> (vf_entry s i + full_sectors (vf_header s)) * SECTOR_SIZE \<le> length (vf_content s)"
    and "i \<noteq> j \<Longrightarrow> allocated s i \<Longrightarrow> allocated s j \<Longrightarrow>
      vf_entry s i + full_sectors (vf_header s) \<le> vf_entry s j \<or>
      vf_entry s j + full_sectors (vf_header s) \<le> vf_entry s i"
  using assms by (simp_all add: vf_inv_def)

lemma vf_inv_table:
  assumes "vf_inv s"
  obtains t where "vf_blockTable s = Some t" "wf_table (vf_header s) t"
  using assms by (auto simp: vf_inv_def)

lemma fullBlockSize_sectors: "wf_layout h \<Longrightarrow> fullBlockSize h = full_sectors h * SECTOR_SIZE"
  by (auto simp: wf_layout_def fullBlockSize_def full_sectors_def sectorsPerBlock_def
      computeFullBlockSize_def computeSectorsPerBlock_def sectorsOfBitmap_def SECTOR_SIZE_def)

lemma bitmapSize_le_full: "bitmapSize h \<le> fullBlockSize h"
  by (simp add: bitmapSize_def fullBlockSize_def computeFullBlockSize_def sectorsOfBitmap_def sectorsToBytes_def)

lemma full_sectors_pos: "0 < full_sectors h"
  by (simp add: full_sectors_def sectorsOfBitmap_def layout_defs Let_def)

lemma fold_max_ge: "(a :: nat) \<le> fold (\<lambda>x e. if P x then max e (g x) else e) xs a"
  by (induction xs arbitrary: a) (auto intro: order.trans max.coboundedI1)

lemma fold_max_in: "x \<in> set xs \<Longrightarrow> P x \<Longrightarrow> (g x :: nat) \<le> fold (\<lambda>x e. if P x then max e (g x) else e) xs a"
proof (induction xs arbitrary: a)
  case (Cons y ys)
  show ?case
  proof (cases "x = y")
    case True
    then have "g x \<le> max a (g y)" by simp
    also have "\<dots> \<le> fold (\<lambda>x e. if P x then max e (g x) else e) ys (max a (g y))"
      by (rule fold_max_ge)
    finally show ?thesis using True Cons.prems(2) by simp
  next
    case False
    with Cons show ?thesis by simp
  qed
qed simp

lemma fold_max_le:
  "(a :: nat) \<le> b \<Longrightarrow> (\<And>x. x \<in> set xs \<Longrightarrow> P x \<Longrightarrow> g x \<le> b) \<Longrightarrow>
   fold (\<lambda>x e. if P x then max e (g x) else e) xs a \<le> b"
  by (induction xs arbitrary: a) auto

lemma getEndOfHeaders_ge:
  "FOOTER_SIZE + HEADER_SIZE \<le> getEndOfHeaders h" "tableOffset h + batSize h \<le> getEndOfHeaders h"
  unfolding getEndOfHeaders_def
  by (rule order.trans [OF _ fold_max_ge], simp)+

lemma getBatEntry_eq:
  assumes "vf_inv s"
  shows "getBatEntry s i = Inr (vf_entry s i)"
proof -
  obtain t where t: "vf_blockTable s = Some t" "wf_table (vf_header s) t"
    by (rule vf_inv_table [OF assms])
  have "i * 4 < length t \<Longrightarrow> readUInt32BE t (i * 4) = Inr (bat_entry t i)"
    using readUInt32BE_bat_entry [of i t] t(2) by (auto simp: wf_table_def dvd_def mult.commute)
  then show ?thesis
    by (simp add: getBatEntry_def vf_table_def vf_entry_def t)
qed

lemma containsBlock_eq: "vf_inv s \<Longrightarrow> containsBlock s i = Inr (allocated s i)"
  by (simp add: containsBlock_def getBatEntry_eq)

definition vf_end :: "vhd_file \<Rightarrow> nat" where
  "vf_end s = fold (\<lambda>i e. if allocated s i then max e (vf_entry s i + full_sectors (vf_header s)) else e)
     [0..<maxTableEntries (vf_header s)] (ceil_div (getEndOfHeaders (vf_header s)) SECTOR_SIZE)"

lemma res_fold_Inr: "(\<And>x s. f x s = Inr (g x s)) \<Longrightarrow> res_fold f xs s = Inr (fold g xs s)"
  by (induction xs arbitrary: s) auto

lemma getEndOfData_eq: "vf_inv s \<Longrightarrow> getEndOfData s = Inr (vf_end s * SECTOR_SIZE)"
  unfolding getEndOfData_def vf_end_def full_sectors_def Let_def
  by (subst res_fold_Inr [where g = "\<lambda>i e. if allocated s i
        then max e (vf_entry s i + (sectorsOfBitmap (vf_header s) + sectorsPerBlock (vf_header s))) else e"])
    (simp_all add: getBatEntry_eq sectorsToBytes_def)

lemma vf_end_headers: "getEndOfHeaders (vf_header s) \<le> vf_end s * SECTOR_SIZE"
proof -
  have "getEndOfHeaders (vf_header s) \<le> ceil_div (getEndOfHeaders (vf_header s)) SECTOR_SIZE * SECTOR_SIZE"
    by (rule le_ceil_div_mult) (simp add: SECTOR_SIZE_def)
  also have "\<dots> \<le> vf_end s * SECTOR_SIZE"
    unfolding vf_end_def by (intro mult_le_mono1 fold_max_ge)
  finally show ?thesis .
qed

lemma vf_end_blocks: "vf_inv s \<Longrightarrow> allocated s i \<Longrightarrow> vf_entry s i + full_sectors (vf_header s) \<le> vf_end s"
  unfolding vf_end_def by (intro fold_max_in) (auto dest: vf_invD(2))

section \<open>Reading blocks\<close>

definition block_bytes :: "vhd_file \<Rightarrow> nat \<Rightarrow> buffer" where
  "block_bytes s i = file_read (vf_content s) (vf_entry s i * SECTOR_SIZE) (fullBlockSize (vf_header s))"

definition mk_block :: "vhd_header \<Rightarrow> nat \<Rightarrow> buffer \<Rightarrow> bool \<Rightarrow> vhd_block" where
  "mk_block h i buf onlyBitmap =
     (if onlyBitmap then BitmapBlock i (buf_slice buf 0 (bitmapSize h))
      else FullBlock i (buf_slice buf 0 (bitmapSize h)) (drop (bitmapSize h) buf) buf)"

lemma length_block_bytes: "vf_inv s \<Longrightarrow> allocated s i \<Longrightarrow> length (block_bytes s i) = fullBlockSize (vf_header s)"
  using vf_invD(4) [of s i] vf_invD(1) [of s]
  by (simp add: block_bytes_def fullBlockSize_sectors algebra_simps)

lemma readBlock_eq:
  assumes "vf_inv s"
  shows "readBlock s i onlyBitmap =
    (if allocated s i then Inr (mk_block (vf_header s) i (block_bytes s i) onlyBitmap) else Inl AssertionError)"
proof (cases "allocated s i")
  case True
  have len: "length (block_bytes s i) = fullBlockSize (vf_header s)"
    by (rule length_block_bytes) fact+
  have "take (bitmapSize (vf_header s)) (block_bytes s i) =
      file_read (vf_content s) (vf_entry s i * SECTOR_SIZE) (bitmapSize (vf_header s))"
    using bitmapSize_le_full [of "vf_header s"] by (simp add: block_bytes_def file_read_def min_def)
  moreover from this have "length (file_read (vf_content s) (vf_entry s i * SECTOR_SIZE) (bitmapSize (vf_header s))) =
      bitmapSize (vf_header s)"
    using len bitmapSize_le_full [of "vf_header s"] by (metis length_take min.absorb2)
  ultimately show ?thesis
    using True assms len len [unfolded block_bytes_def length_file_read]
    by (simp add: readBlock_def getBatEntry_eq Let_def vf_read_def sectorsToBytes_def mk_block_def buf_slice_def
        flip: block_bytes_def)
next
  case False
  then show ?thesis using assms by (simp add: readBlock_def getBatEntry_eq)
qed

text \<open>\<open>s'\<close> shows the same blocks as \<open>s\<close>.\<close>

definition same_blocks :: "vhd_file \<Rightarrow> vhd_file \<Rightarrow> bool" where
  "same_blocks s s' \<longleftrightarrow>
     (\<forall>i. allocated s' i \<longleftrightarrow> allocated s i) \<and>
     (\<forall>i. allocated s i \<longrightarrow> block_bytes s' i = block_bytes s i) \<and>
     blockSize (vf_header s') = blockSize (vf_header s)"

lemma same_blocks_refl: "same_blocks s s"
  by (simp add: same_blocks_def)

lemma same_blocks_trans: "same_blocks s t \<Longrightarrow> same_blocks t u \<Longrightarrow> same_blocks s u"
  by (simp add: same_blocks_def)

lemma same_blocks_read:
  assumes "vf_inv s" "vf_inv s'" "same_blocks s s'"
  shows "readBlock s' i b = readBlock s i b" "containsBlock s' i = containsBlock s i"
  using assms by (auto simp: readBlock_eq containsBlock_eq same_blocks_def mk_block_def bitmapSize_def
      sectorsOfBitmap_def)

section \<open>Placing a block\<close>

text \<open>
  A state where block \<open>k\<close> is at sector \<open>addr\<close>, with content \<open>buf\<close>, and nothing else has moved.
\<close>

definition placed :: "vhd_file \<Rightarrow> nat \<Rightarrow> nat \<Rightarrow> buffer \<Rightarrow> vhd_file \<Rightarrow> bool" where
  "placed s k addr buf s' \<longleftrightarrow>
     vf_header s' = vf_header s \<and>
     (\<exists>t t'. vf_blockTable s = Some t \<and> vf_blockTable s' = Some t' \<and> length t' = length t) \<and>
     vf_entry s' = (vf_entry s)(k := addr) \<and>
     length (vf_content s) \<le> length (vf_content s') \<and>
     (addr + full_sectors (vf_header s)) * SECTOR_SIZE \<le> length (vf_content s') \<and>
     file_read (vf_content s') (addr * SECTOR_SIZE) (fullBlockSize (vf_header s)) = buf \<and>
     (\<forall>i. i \<noteq> k \<longrightarrow> allocated s i \<longrightarrow>
        file_read (vf_content s') (vf_entry s i * SECTOR_SIZE) (fullBlockSize (vf_header s)) = block_bytes s i)"

definition free_place :: "vhd_file \<Rightarrow> nat \<Rightarrow> nat \<Rightarrow> bool" where
  "free_place s k addr \<longleftrightarrow>
     addr < BLOCK_UNUSED \<and> getEndOfHeaders (vf_header s) \<le> addr * SECTOR_SIZE \<and>
     (\<forall>i. i \<noteq> k \<longrightarrow> allocated s i \<longrightarrow>
        addr + full_sectors (vf_header s) \<le> vf_entry s i \<or> vf_entry s i + full_sectors (vf_header s) \<le> addr)"

lemma placed_inv:
  assumes inv: "vf_inv s" and k: "k < maxTableEntries (vf_header s)" and free: "free_place s k addr"
    and p: "placed s k addr buf s'"
  shows "vf_inv s'"
proof -
  note d = vf_invD [OF inv] and p' = p [unfolded placed_def]
  obtain t where t: "vf_blockTable s = Some t" "wf_table (vf_header s) t" by (rule vf_inv_table [OF inv])
  have 1: "\<exists>t'. vf_blockTable s' = Some t' \<and> wf_table (vf_header s') t'"
    using t p' by (auto simp: wf_table_def)
  have 2: "i < maxTableEntries (vf_header s') \<and> getEndOfHeaders (vf_header s') \<le> vf_entry s' i * SECTOR_SIZE \<and>
      (vf_entry s' i + full_sectors (vf_header s')) * SECTOR_SIZE \<le> length (vf_content s')"
    if "allocated s' i" for i
    using that p' d(2,3,4) [of i] k free by (cases "i = k") (auto simp: free_place_def)
  have 3: "vf_entry s' i + full_sectors (vf_header s') \<le> vf_entry s' j \<or>
        vf_entry s' j + full_sectors (vf_header s') \<le> vf_entry s' i"
    if "i \<noteq> j" "allocated s' i" "allocated s' j" for i j
    using that p' d(5) [of i j] free by (auto simp: free_place_def split: if_splits)
  show ?thesis
    unfolding vf_inv_def using 1 2 3 d(1) p' by auto
qed

lemma placed_blocks:
  assumes "placed s k addr buf s'"
  shows "block_bytes s' k = buf" "i \<noteq> k \<Longrightarrow> allocated s i \<Longrightarrow> block_bytes s' i = block_bytes s i"
    "i \<noteq> k \<Longrightarrow> vf_entry s' i = vf_entry s i" "vf_entry s' k = addr"
  using assms by (auto simp: placed_def block_bytes_def)

section \<open>Writing an entry and a block\<close>

lemma bat_entry_copy:
  assumes "4 * k + 4 \<le> length t" "4 * i + 4 \<le> length t" "a < 2 ^ 32"
  shows "bat_entry (buf_copy (be 4 a) t (4 * k)) i = (if i = k then a else bat_entry t i)"
proof (cases "i = k")
  case True
  then show ?thesis
    using slice_buf_copy_same [of "4 * k" "be 4 a" t] assms by (simp add: bat_entry_def of_be_be)
next
  case False
  then have "4 * i + 4 \<le> 4 * k \<or> 4 * k + 4 \<le> 4 * i" by arith
  then show ?thesis
    using slice_buf_copy_other [of "4 * k" "be 4 a" t "4 * i + 4" "4 * i"] assms False
    by (simp add: bat_entry_def)
qed

lemma setBatEntry_eq:
  assumes "vf_blockTable s = Some t" "4 * k + 4 \<le> length t" "a < 2 ^ 32"
  shows "setBatEntry k a s = Inr (s\<lparr>
    vf_blockTable := Some (buf_copy (be 4 a) t (4 * k)),
    vf_content := file_write (vf_content s) (be 4 a) (tableOffset (vf_header s) + 4 * k)\<rparr>)"
  using assms slice_buf_copy_same [of "4 * k" "be 4 a" t]
  by (simp add: setBatEntry_def Let_def vf_table_def writeUInt32BE_eq mult.commute vf_write_def)

lemma wf_table_bound: "wf_table h t \<Longrightarrow> k < maxTableEntries h \<Longrightarrow> 4 * k + 4 \<le> length t"
  by (auto simp: wf_table_def)

lemma vf_entry_copy:
  assumes "vf_blockTable s = Some t" "wf_table (vf_header s) t" "k < maxTableEntries (vf_header s)"
    "a < 2 ^ 32" "vf_blockTable s' = Some (buf_copy (be 4 a) t (4 * k))"
  shows "vf_entry s' = (vf_entry s)(k := a)"
proof
  fix i
  have k: "4 * k + 4 \<le> length t" by (rule wf_table_bound [OF assms(2,3)])
  have "i * 4 < length t \<Longrightarrow> 4 * i + 4 \<le> length t" using assms(2) by (auto simp: wf_table_def dvd_def)
  then show "vf_entry s' i = ((vf_entry s)(k := a)) i"
    using bat_entry_copy [OF k _ assms(4), of i] assms k by (auto simp: vf_entry_def)
qed

text \<open>The table lies before every block.\<close>

lemma bat_before:
  assumes "vf_inv s" "k < maxTableEntries (vf_header s)" "getEndOfHeaders (vf_header s) \<le> x"
  shows "tableOffset (vf_header s) + 4 * k + 4 \<le> x"
proof -
  obtain t where "wf_table (vf_header s) t" by (rule vf_inv_table [OF assms(1)])
  then have "4 * k + 4 \<le> batSize (vf_header s)"
    using wf_table_bound [of "vf_header s" t k] assms(2) by (simp add: wf_table_def)
  with getEndOfHeaders_ge(2) [of "vf_header s"] assms(3) show ?thesis by linarith
qed

lemma placed_by_writes:
  assumes inv: "vf_inv s" and k: "k < maxTableEntries (vf_header s)" and free: "free_place s k addr"
    and len: "length buf = fullBlockSize (vf_header s)"
    and t: "vf_blockTable s = Some t" and hd: "vf_header s' = vf_header s"
    and t': "vf_blockTable s' = Some (buf_copy (be 4 addr) t (4 * k))"
    and c': "vf_content s' = file_write (file_write (vf_content s) (be 4 addr) (tableOffset (vf_header s) + 4 * k))
          buf (addr * SECTOR_SIZE) \<or>
        vf_content s' = file_write (file_write (vf_content s) buf (addr * SECTOR_SIZE))
          (be 4 addr) (tableOffset (vf_header s) + 4 * k)"
  shows "placed s k addr buf s'"
proof -
  let ?h = "vf_header s" and ?c = "vf_content s" and ?e = "tableOffset (vf_header s) + 4 * k"
  have wf: "wf_table ?h t" using inv t by (auto simp: vf_inv_def)
  have a32: "addr < 2 ^ 32" using free by (simp add: free_place_def BLOCK_UNUSED_def)
  have full: "fullBlockSize ?h = full_sectors ?h * SECTOR_SIZE"
    by (rule fullBlockSize_sectors [OF vf_invD(1) [OF inv]])
  have end_addr: "(addr + full_sectors ?h) * SECTOR_SIZE = addr * SECTOR_SIZE + length buf"
    by (simp add: len full algebra_simps)
  have before: "?e + 4 \<le> addr * SECTOR_SIZE"
    using bat_before [OF inv k] free by (simp add: free_place_def)
  have entry: "vf_entry s' = (vf_entry s)(k := addr)"
    by (rule vf_entry_copy [OF t wf k a32 t'])
  have lens: "length ?c \<le> length (vf_content s')" "addr * SECTOR_SIZE + length buf \<le> length (vf_content s')"
    using c' by auto
  have same: "file_read (vf_content s') (addr * SECTOR_SIZE) (length buf) = buf"
    using c' by (elim disjE) (simp_all add: file_read_write_same file_read_write_disjoint before)
  have other: "file_read (vf_content s') (vf_entry s i * SECTOR_SIZE) (fullBlockSize ?h) = block_bytes s i"
    if i: "i \<noteq> k" "allocated s i" for i
  proof -
    have b: "?e + 4 \<le> vf_entry s i * SECTOR_SIZE"
      by (rule bat_before [OF inv k vf_invD(3) [OF inv i(2)]])
    have fits: "vf_entry s i * SECTOR_SIZE + fullBlockSize ?h \<le> length ?c"
      using vf_invD(4) [OF inv i(2)] by (simp add: full algebra_simps)
    have apart: "vf_entry s i * SECTOR_SIZE + fullBlockSize ?h \<le> addr * SECTOR_SIZE \<or>
        addr * SECTOR_SIZE + length buf \<le> vf_entry s i * SECTOR_SIZE"
    proof -
      have "addr + full_sectors ?h \<le> vf_entry s i \<or> vf_entry s i + full_sectors ?h \<le> addr"
        using free i by (simp add: free_place_def)
      then show ?thesis
        by (elim disjE) (drule mult_le_mono1 [where k = SECTOR_SIZE], simp add: len full algebra_simps)+
    qed
    from c' show ?thesis
      by (elim disjE) (use b fits apart in \<open>simp_all add: file_read_write_disjoint block_bytes_def\<close>)
  qed
  show ?thesis
    unfolding placed_def
    using hd t t' entry lens same other len end_addr by auto
qed

section \<open>Writing a whole block\<close>

text \<open>Where a block goes: where it is, or behind the last one.\<close>

definition write_addr :: "vhd_file \<Rightarrow> nat \<Rightarrow> nat" where
  "write_addr s k = (if allocated s k then vf_entry s k else vf_end s)"

lemma entry_bound: "vf_entry s i \<le> BLOCK_UNUSED"
proof -
  have "bat_entry t i \<le> BLOCK_UNUSED" for t
  proof -
    have "of_be (buf_slice t (4 * i) (4 * i + 4)) < 256 ^ 4"
      by (rule less_le_trans [OF of_be_bound]) (rule power_increasing, simp_all add: length_slice)
    then show ?thesis by (simp add: bat_entry_def BLOCK_UNUSED_def)
  qed
  then show ?thesis by (auto simp: vf_entry_def split: option.split)
qed

lemma write_addr_free:
  assumes "vf_inv s" "vf_end s < BLOCK_UNUSED"
  shows "free_place s k (write_addr s k)"
proof (cases "allocated s k")
  case True
  then show ?thesis
    using assms vf_invD(3,5) [OF assms(1)] entry_bound [of s k]
    by (auto simp: free_place_def write_addr_def nat_less_le)
next
  case False
  then show ?thesis
    using assms vf_end_headers [of s] vf_end_blocks [OF assms(1)]
    by (auto simp: free_place_def write_addr_def)
qed

lemma createBlock_eq:
  assumes inv: "vf_inv s" and k: "k < maxTableEntries (vf_header s)" and "vf_end s < BLOCK_UNUSED"
    and "\<not> allocated s k" and t: "vf_blockTable s = Some t"
  shows "createBlock k s = Inr (vf_end s, s\<lparr>
    vf_blockTable := Some (buf_copy (be 4 (vf_end s)) t (4 * k)),
    vf_content := file_write (vf_content s) (be 4 (vf_end s)) (tableOffset (vf_header s) + 4 * k)\<rparr>)"
proof -
  have wf: "wf_table (vf_header s) t" using inv t by (auto simp: vf_inv_def)
  have "ceil_div (vf_end s * SECTOR_SIZE) SECTOR_SIZE = vf_end s"
    by (rule ceil_div_mult) (simp add: SECTOR_SIZE_def)
  moreover have "setBatEntry k (vf_end s) s = Inr (s\<lparr>
      vf_blockTable := Some (buf_copy (be 4 (vf_end s)) t (4 * k)),
      vf_content := file_write (vf_content s) (be 4 (vf_end s)) (tableOffset (vf_header s) + 4 * k)\<rparr>)"
    by (rule setBatEntry_eq [OF t wf_table_bound [OF wf k]]) (use assms(3) in \<open>simp add: BLOCK_UNUSED_def\<close>)
  ultimately show ?thesis
    using assms by (simp add: createBlock_def getBatEntry_eq getEndOfData_eq Let_def)
qed

lemma rewrite_placed:
  assumes inv: "vf_inv s" and a: "allocated s k" and len: "length buf = fullBlockSize (vf_header s)"
  shows "placed s k (vf_entry s k) buf (vf_write buf (vf_entry s k * SECTOR_SIZE) s)"
proof -
  let ?h = "vf_header s" and ?c = "vf_content s"
  have full: "fullBlockSize ?h = full_sectors ?h * SECTOR_SIZE"
    by (rule fullBlockSize_sectors [OF vf_invD(1) [OF inv]])
  have "file_read (file_write ?c buf (vf_entry s k * SECTOR_SIZE)) (vf_entry s i * SECTOR_SIZE) (fullBlockSize ?h) =
      block_bytes s i" if i: "i \<noteq> k" "allocated s i" for i
  proof -
    have "vf_entry s i + full_sectors ?h \<le> vf_entry s k \<or> vf_entry s k + full_sectors ?h \<le> vf_entry s i"
      by (rule vf_invD(5) [OF inv i(1) i(2) a])
    then have "vf_entry s i * SECTOR_SIZE + fullBlockSize ?h \<le> vf_entry s k * SECTOR_SIZE \<or>
        vf_entry s k * SECTOR_SIZE + length buf \<le> vf_entry s i * SECTOR_SIZE"
      by (elim disjE) (drule mult_le_mono1 [where k = SECTOR_SIZE], simp add: len full algebra_simps)+
    moreover have "vf_entry s i * SECTOR_SIZE + fullBlockSize ?h \<le> length ?c"
      using vf_invD(4) [OF inv i(2)] by (simp add: full algebra_simps)
    ultimately show ?thesis by (simp add: file_read_write_disjoint block_bytes_def)
  qed
  moreover obtain t where "vf_blockTable s = Some t" by (rule vf_inv_table [OF inv])
  moreover have "vf_entry (vf_write buf x s) = vf_entry s" for x
    by (intro ext) (simp add: vf_entry_def vf_write_def)
  ultimately show ?thesis
    using vf_invD(4) [OF inv a]
    by (simp add: placed_def vf_write_def len [symmetric] file_read_write_same)
qed

lemma writeEntireBlock_placed:
  assumes inv: "vf_inv s" and k: "k < maxTableEntries (vf_header s)" and e: "vf_end s < BLOCK_UNUSED"
    and len: "length buf = fullBlockSize (vf_header s)"
  obtains s' where "writeEntireBlock k buf s = Inr s'" "placed s k (write_addr s k) buf s'" "vf_inv s'"
    "vf_footer s' = vf_footer s"
proof -
  obtain t where t: "vf_blockTable s = Some t" "wf_table (vf_header s) t" by (rule vf_inv_table [OF inv])
  note free = write_addr_free [OF inv e, of k]
  have "\<exists>s'. writeEntireBlock k buf s = Inr s' \<and> placed s k (write_addr s k) buf s' \<and> vf_footer s' = vf_footer s"
  proof (cases "allocated s k")
    case True
    then show ?thesis
      using rewrite_placed [OF inv True len] inv
      by (simp add: writeEntireBlock_def getOrCreateBlock_def getBatEntry_eq write_addr_def sectorsToBytes_def)
        (simp add: vf_write_def)
  next
    case False
    let ?s = "vf_write buf (vf_end s * SECTOR_SIZE) (s\<lparr>
      vf_blockTable := Some (buf_copy (be 4 (vf_end s)) t (4 * k)),
      vf_content := file_write (vf_content s) (be 4 (vf_end s)) (tableOffset (vf_header s) + 4 * k)\<rparr>)"
    have "writeEntireBlock k buf s = Inr ?s"
      using False inv createBlock_eq [OF inv k e False t(1)]
      by (simp add: writeEntireBlock_def getOrCreateBlock_def getBatEntry_eq sectorsToBytes_def)
    moreover have "placed s k (vf_end s) buf ?s"
      by (rule placed_by_writes [OF inv k _ len t(1)])
        (use free False in \<open>simp_all add: write_addr_def vf_write_def\<close>)
    ultimately show ?thesis using False by (auto simp: write_addr_def) (simp add: vf_write_def)
  qed
  then obtain s' where "writeEntireBlock k buf s = Inr s'" "placed s k (write_addr s k) buf s'"
    "vf_footer s' = vf_footer s" by blast
  with placed_inv [OF inv k free] show thesis by (auto intro: that)
qed

section \<open>Writing outside of the blocks\<close>

lemma vf_entry_cong: "vf_blockTable s' = vf_blockTable s \<Longrightarrow> vf_entry s' = vf_entry s"
  by (intro ext) (simp add: vf_entry_def)

lemma vf_end_cong:
  assumes "vf_header s' = vf_header s" "vf_blockTable s' = vf_blockTable s"
  shows "vf_end s' = vf_end s"
  by (simp only: vf_end_def assms(1) vf_entry_cong [OF assms(2)])

lemma keeps_by_content:
  assumes inv: "vf_inv s" and hd: "vf_header s' = vf_header s" and t: "vf_blockTable s' = vf_blockTable s"
    and len: "length (vf_content s) \<le> length (vf_content s')"
    and blocks: "\<And>i. allocated s i \<Longrightarrow> block_bytes s' i = block_bytes s i"
  shows "vf_inv s'" "same_blocks s s'"
proof -
  note e = vf_entry_cong [OF t]
  have "vf_inv s'"
    unfolding vf_inv_def hd t e
  proof (intro conjI allI impI)
    show "wf_layout (vf_header s)" by (rule vf_invD(1) [OF inv])
    show "\<exists>t. vf_blockTable s = Some t \<and> wf_table (vf_header s) t"
      by (rule vf_inv_table [OF inv]) blast
    fix i
    assume i: "allocated s i"
    show "i < maxTableEntries (vf_header s)" by (rule vf_invD(2) [OF inv i])
    show "getEndOfHeaders (vf_header s) \<le> vf_entry s i * SECTOR_SIZE" by (rule vf_invD(3) [OF inv i])
    show "(vf_entry s i + full_sectors (vf_header s)) * SECTOR_SIZE \<le> length (vf_content s')"
      by (rule order.trans [OF vf_invD(4) [OF inv i] len])
    show "vf_entry s i + full_sectors (vf_header s) \<le> vf_entry s j \<or>
        vf_entry s j + full_sectors (vf_header s) \<le> vf_entry s i" if "i \<noteq> j" "allocated s j" for j
      by (rule vf_invD(5) [OF inv that(1) i that(2)])
  qed
  then show "vf_inv s'" "same_blocks s s'"
    using blocks by (simp_all add: same_blocks_def e hd)
qed

lemma write_outside:
  assumes inv: "vf_inv s"
    and off: "vf_end s * SECTOR_SIZE \<le> off \<or> off + length d \<le> getEndOfHeaders (vf_header s)"
    and s': "vf_header s' = vf_header s" "vf_blockTable s' = vf_blockTable s"
      "vf_content s' = file_write (vf_content s) d off"
  shows "vf_inv s'" "same_blocks s s'"
proof -
  have "block_bytes s' i = block_bytes s i" if i: "allocated s i" for i
  proof -
    have fits: "vf_entry s i * SECTOR_SIZE + fullBlockSize (vf_header s) \<le> length (vf_content s)"
      using vf_invD(4) [OF inv i] vf_invD(1) [OF inv] by (simp add: fullBlockSize_sectors algebra_simps)
    have "(vf_entry s i + full_sectors (vf_header s)) * SECTOR_SIZE \<le> vf_end s * SECTOR_SIZE"
      by (rule mult_le_mono1) (rule vf_end_blocks [OF inv i])
    then have "vf_entry s i * SECTOR_SIZE + fullBlockSize (vf_header s) \<le> vf_end s * SECTOR_SIZE"
      using vf_invD(1) [OF inv] by (simp add: fullBlockSize_sectors algebra_simps)
    with off vf_invD(3) [OF inv i] fits show ?thesis
      by (auto simp: block_bytes_def s' vf_entry_cong [OF s'(2)] intro!: file_read_write_disjoint)
  qed
  with s' show "vf_inv s'" "same_blocks s s'"
    using keeps_by_content [OF inv s'(1,2)] by simp_all
qed

lemma writeFooter_keeps:
  assumes inv: "vf_inv s" and front: "onlyEnd \<or> length (fuFooter_pack fu (vf_footer s)) \<le> FOOTER_SIZE"
  obtains s' where "writeFooter fu onlyEnd s = Inr s'" "vf_inv s'" "same_blocks s s'"
    "vf_header s' = vf_header s" "vf_blockTable s' = vf_blockTable s"
proof -
  let ?raw = "fuFooter_pack fu (vf_footer s)"
  let ?d = "snd (checksumStruct fu ?raw FuFooter)"
  let ?f = "(vf_footer s)\<lparr>f_checksum := fst (checksumStruct fu ?raw FuFooter)\<rparr>"
  let ?off = "max (vf_end s * SECTOR_SIZE) (length (vf_content s) - length ?raw)"
  define s1 where "s1 = (if onlyEnd then s\<lparr>vf_footer := ?f\<rparr> else vf_write ?d 0 (s\<lparr>vf_footer := ?f\<rparr>))"
  define s2 where "s2 = vf_write ?d ?off s1"
  have len: "length ?d = length ?raw" by (simp add: checksumStruct_def Let_def)
  have eq: "writeFooter fu onlyEnd s = Inr s2"
    using inv by (simp add: writeFooter_def getEndOfData_eq Let_def case_prod_beta s1_def s2_def)
  have hd: "vf_header s1 = vf_header s" "vf_blockTable s1 = vf_blockTable s"
    by (simp_all add: s1_def vf_write_def)
  have hd2: "vf_header s2 = vf_header s1" "vf_blockTable s2 = vf_blockTable s1"
    "vf_content s2 = file_write (vf_content s1) ?d ?off"
    by (simp_all add: s2_def vf_write_def)
  have s1: "vf_inv s1" "same_blocks s s1"
  proof -
    have "vf_inv s1 \<and> same_blocks s s1"
    proof (cases onlyEnd)
      case True
      then have "vf_content s1 = vf_content s" by (simp add: s1_def)
      with keeps_by_content [OF inv hd] vf_entry_cong [OF hd(2)] hd show ?thesis
        by (simp add: block_bytes_def)
    next
      case False
      then have "length ?d \<le> getEndOfHeaders (vf_header s)"
        using front len getEndOfHeaders_ge(1) [of "vf_header s"] by simp
      moreover from False have "vf_content s1 = file_write (vf_content s) ?d 0"
        by (simp add: s1_def vf_write_def)
      ultimately show ?thesis using write_outside [OF inv _ hd, of 0 ?d] by simp
    qed
    then show "vf_inv s1" "same_blocks s s1" by simp_all
  qed
  have "vf_end s1 * SECTOR_SIZE \<le> ?off" by (simp add: vf_end_cong [OF hd])
  then have s2: "vf_inv s2" "same_blocks s1 s2"
    using write_outside [OF s1(1) _ hd2] by simp_all
  show thesis
    by (rule that [OF eq s2(1) same_blocks_trans [OF s1(2) s2(2)]]) (simp_all add: hd hd2)
qed

section \<open>Making room\<close>

lemma first_last_cases:
  assumes inv: "vf_inv s" and t: "vf_blockTable s = Some t"
  obtains (none) "getFirstAndLastBlocks t = Inr None" "\<And>i. \<not> allocated s i"
    | (some) r l where "getFirstAndLastBlocks t = Inr (Some r)"
        "allocated s (fl_first r)" "vf_entry s (fl_first r) = firstSector r"
        "allocated s l" "vf_entry s l = lastSector r"
        "\<And>i. allocated s i \<Longrightarrow> firstSector r \<le> vf_entry s i \<and> vf_entry s i \<le> lastSector r"
proof -
  have dvd: "4 dvd length t" using inv t by (auto simp: vf_inv_def wf_table_def)
  have entry: "vf_entry s i = (if i < length t div 4 then bat_entry t i else BLOCK_UNUSED)" for i
    using dvd t by (auto simp: vf_entry_def dvd_def)
  show thesis
  proof (cases "getFirstAndLastBlocks t")
    case (Inl e)
    with getFirstAndLastBlocks_spec [OF dvd] show ?thesis by simp
  next
    case (Inr opt)
    show ?thesis
    proof (cases opt)
      case None
      with Inr getFirstAndLastBlocks_spec [OF dvd] have "\<forall>e \<in> set (bat_entries t). e = BLOCK_UNUSED" by simp
      then have "\<not> allocated s i" for i by (simp add: entry bat_entries_def)
      with Inr None show ?thesis by (intro none) simp_all
    next
      case (Some r)
      with Inr getFirstAndLastBlocks_spec [OF dvd] have r: "first_last_of (bat_entries t) (length t div 4) r"
        by simp
      show ?thesis
      proof (rule some [of r "fl_last r"])
        show "getFirstAndLastBlocks t = Inr (Some r)" using Inr Some by simp
        show "allocated s (fl_first r)" "vf_entry s (fl_first r) = firstSector r"
          "allocated s (fl_last r)" "vf_entry s (fl_last r) = lastSector r"
          using r by (auto simp: entry first_last_of_def)
        show "firstSector r \<le> vf_entry s i \<and> vf_entry s i \<le> lastSector r" if "allocated s i" for i
          using that r by (auto simp: entry first_last_of_def split: if_splits)
      qed
    qed
  qed
qed

lemma placed_move:
  assumes "placed s k addr (block_bytes s k) s'" "allocated s k" "addr < BLOCK_UNUSED"
  shows "same_blocks s s'"
proof -
  have "block_bytes s' i = block_bytes s i" if "allocated s i" for i
    using placed_blocks(1,2) [OF assms(1)] that by (cases "i = k") simp_all
  then show ?thesis
    using assms by (auto simp: same_blocks_def placed_def)
qed

lemma placed_end:
  assumes "placed s k addr buf s'"
  shows "vf_end s' \<le> max (vf_end s) (addr + full_sectors (vf_header s))"
proof -
  have hd: "vf_header s' = vf_header s" using assms by (simp add: placed_def)
  show ?thesis
    unfolding vf_end_def hd
  proof (rule fold_max_le)
    fix i
    assume i: "i \<in> set [0..<maxTableEntries (vf_header s)]" "allocated s' i"
    show "vf_entry s' i + full_sectors (vf_header s) \<le> max (fold (\<lambda>i e. if allocated s i
        then max e (vf_entry s i + full_sectors (vf_header s)) else e) [0..<maxTableEntries (vf_header s)]
        (ceil_div (getEndOfHeaders (vf_header s)) SECTOR_SIZE)) (addr + full_sectors (vf_header s))"
    proof (cases "i = k")
      case True
      then show ?thesis using placed_blocks(4) [OF assms] by simp
    next
      case False
      with i placed_blocks(3) [OF assms False] show ?thesis
        by (intro max.coboundedI1) (simp, rule fold_max_in, simp_all)
    qed
  qed (rule max.coboundedI1, rule fold_max_ge)
qed

text \<open>One move: the first block goes to a free place behind every other block.\<close>

lemma vf_read_block:
  assumes "vf_inv s" "allocated s k"
  shows "vf_read s (vf_entry s k * SECTOR_SIZE) (fullBlockSize (vf_header s)) = Inr (block_bytes s k)"
  using length_block_bytes [OF assms] by (simp add: vf_read_def Let_def flip: block_bytes_def)

lemma move_block:
  assumes inv: "vf_inv s" and a: "allocated s k" and free: "free_place s k addr"
  obtains s1 s2 where
    "setBatEntry k addr (vf_write (block_bytes s k) (addr * SECTOR_SIZE) s) = Inr s1"
    "writeFooter fu True s1 = Inr s2" "vf_inv s2" "same_blocks s s2" "vf_header s2 = vf_header s"
    "vf_entry s2 = (vf_entry s)(k := addr)"
    "vf_end s2 \<le> max (vf_end s) (addr + full_sectors (vf_header s))"
    "map_option length (vf_blockTable s2) = map_option length (vf_blockTable s)"
proof -
  obtain t where t: "vf_blockTable s = Some t" "wf_table (vf_header s) t" by (rule vf_inv_table [OF inv])
  have k: "k < maxTableEntries (vf_header s)" by (rule vf_invD(2) [OF inv a])
  have len: "length (block_bytes s k) = fullBlockSize (vf_header s)" by (rule length_block_bytes [OF inv a])
  have a32: "addr < 2 ^ 32" and unused: "addr < BLOCK_UNUSED" using free by (simp_all add: free_place_def BLOCK_UNUSED_def)
  define s1 where "s1 = s\<lparr>vf_blockTable := Some (buf_copy (be 4 addr) t (4 * k)),
    vf_content := file_write (file_write (vf_content s) (block_bytes s k) (addr * SECTOR_SIZE))
       (be 4 addr) (tableOffset (vf_header s) + 4 * k)\<rparr>"
  have eq: "setBatEntry k addr (vf_write (block_bytes s k) (addr * SECTOR_SIZE) s) = Inr s1"
    using setBatEntry_eq [of "vf_write (block_bytes s k) (addr * SECTOR_SIZE) s" t k addr] t
      wf_table_bound [OF t(2) k] a32 by (simp add: vf_write_def s1_def)
  have p: "placed s k addr (block_bytes s k) s1"
    by (rule placed_by_writes [OF inv k free len t(1)]) (simp_all add: s1_def)
  have inv1: "vf_inv s1" by (rule placed_inv [OF inv k free p])
  have same1: "same_blocks s s1" by (rule placed_move [OF p a unused])
  have hd: "vf_header s1 = vf_header s" by (simp add: s1_def)
  obtain s2 where s2: "writeFooter fu True s1 = Inr s2" "vf_inv s2" "same_blocks s1 s2"
    "vf_header s2 = vf_header s1" "vf_blockTable s2 = vf_blockTable s1"
    by (rule writeFooter_keeps [OF inv1, of True fu]) simp_all
  have e: "vf_entry s2 = (vf_entry s)(k := addr)"
    using vf_entry_cong [OF s2(5)] p by (simp add: placed_def)
  show thesis
    by (rule that [OF eq s2(1,2) same_blocks_trans [OF same1 s2(3)]])
      (simp_all add: s2(4,5) hd e vf_end_cong [OF s2(4,5)] placed_end [OF p], simp add: s1_def t)
qed

definition free_bound :: "vhd_file \<Rightarrow> nat \<Rightarrow> nat" where
  "free_bound s n =
     (let h = vf_header s
      in max (vf_end s) (ceil_div (tableOffset h + batSize h + n) SECTOR_SIZE) +
         n div fullBlockSize h * full_sectors h)"

lemma freeFirstBlockSpace_keeps:
  assumes "vf_inv s" "free_bound s n < BLOCK_UNUSED"
  shows "\<exists>s'. freeFirstBlockSpace fu n s = Inr s' \<and> vf_inv s' \<and> same_blocks s s' \<and>
    vf_header s' = vf_header s \<and> vf_end s' \<le> free_bound s n + full_sectors (vf_header s) \<and>
    map_option length (vf_blockTable s') = map_option length (vf_blockTable s) \<and>
    (n \<le> fullBlockSize (vf_header s) \<longrightarrow> (\<forall>i. allocated s' i \<longrightarrow>
       tableOffset (vf_header s) + batSize (vf_header s) + n \<le> vf_entry s' i * SECTOR_SIZE))"
  using assms
proof (induction n arbitrary: s rule: less_induct)
  case (less n)
  let ?h = "vf_header s" and ?fs = "full_sectors (vf_header s)" and ?full = "fullBlockSize (vf_header s)"
  let ?lim = "tableOffset (vf_header s) + batSize (vf_header s)"
  note inv = less.prems(1)
  obtain t where t: "vf_blockTable s = Some t" "wf_table ?h t" by (rule vf_inv_table [OF inv])
  have full: "?full = ?fs * SECTOR_SIZE" "0 < ?fs" "0 < ?full" "?full div SECTOR_SIZE = ?fs"
    using fullBlockSize_sectors [OF vf_invD(1) [OF inv]] full_sectors_pos [of ?h]
    by (simp_all add: SECTOR_SIZE_def)
  from inv t(1) show ?case
  proof (cases rule: first_last_cases)
    case none
    then show ?thesis
      using inv by (simp add: freeFirstBlockSpace.simps [of fu n s] vf_table_def t same_blocks_refl free_bound_def Let_def)
  next
    case (some r l)
    define new where "new = max (lastSector r + ?fs) (ceil_div (?lim + n) SECTOR_SIZE)"
    show ?thesis
    proof (cases "?lim + n \<ge> firstSector r * SECTOR_SIZE")
      case False
      have "?lim + n \<le> vf_entry s i * SECTOR_SIZE" if "allocated s i" for i
      proof -
        have "firstSector r * SECTOR_SIZE \<le> vf_entry s i * SECTOR_SIZE"
          using some(6) [OF that] by (intro mult_le_mono1) simp
        with False show ?thesis by linarith
      qed
      with False some(1) show ?thesis
        using inv by (simp add: freeFirstBlockSpace.simps [of fu n s] vf_table_def t same_blocks_refl
            free_bound_def Let_def sectorsToBytes_def)
    next
      case True
      let ?k = "fl_first r"
      have new_end: "new \<le> max (vf_end s) (ceil_div (?lim + n) SECTOR_SIZE)"
        using vf_end_blocks [OF inv some(4)] some(5) by (auto simp: new_def)
      then have unused: "new < BLOCK_UNUSED"
        using less.prems(2) by (simp add: free_bound_def Let_def)
      have above: "getEndOfHeaders ?h \<le> new * SECTOR_SIZE"
      proof -
        have "getEndOfHeaders ?h \<le> lastSector r * SECTOR_SIZE"
          using vf_invD(3) [OF inv some(4)] some(5) by simp
        also have "\<dots> \<le> new * SECTOR_SIZE" by (intro mult_le_mono1) (simp add: new_def)
        finally show ?thesis .
      qed
      have free: "free_place s ?k new"
        using some(6) unused above by (fastforce simp: free_place_def new_def)
      obtain s1 s2 where m:
        "setBatEntry ?k new (vf_write (block_bytes s ?k) (new * SECTOR_SIZE) s) = Inr s1"
        "writeFooter fu True s1 = Inr s2" "vf_inv s2" "same_blocks s s2" "vf_header s2 = ?h"
        "vf_entry s2 = (vf_entry s)(?k := new)" "vf_end s2 \<le> max (vf_end s) (new + ?fs)"
        "map_option length (vf_blockTable s2) = map_option length (vf_blockTable s)"
        by (rule move_block [OF inv some(2) free])
      have step: "freeFirstBlockSpace fu n s =
          (if n > ?full then freeFirstBlockSpace fu (n - ?full) s2 else Inr s2)"
        using True some(1) vf_read_block [OF inv some(2)] some(3) m(1,2) full(4)
        by (simp add: freeFirstBlockSpace.simps [of fu n s] vf_table_def t(1) Let_def sectorsToBytes_def
            flip: new_def)
      have end2: "vf_end s2 \<le> max (vf_end s) (ceil_div (?lim + n) SECTOR_SIZE) + ?fs"
        using m(7) new_end by (simp add: max_def split: if_splits)
      show ?thesis
      proof (cases "n > ?full")
        case False
        have "?lim + n \<le> vf_entry s2 i * SECTOR_SIZE" if "allocated s2 i" for i
        proof (cases "i = ?k")
          case True
          have "?lim + n \<le> ceil_div (?lim + n) SECTOR_SIZE * SECTOR_SIZE"
            by (rule le_ceil_div_mult) (simp add: SECTOR_SIZE_def)
          also have "\<dots> \<le> new * SECTOR_SIZE" by (intro mult_le_mono1) (simp add: new_def)
          finally show ?thesis using True m(6) by simp
        next
          case False
          then have i: "allocated s i" "vf_entry s2 i = vf_entry s i" using that m(6) by auto
          have "vf_entry s ?k + ?fs \<le> vf_entry s i"
            using vf_invD(5) [OF inv False i(1) some(2)] some(3) some(6) [OF i(1)] full(2) by auto
          then have "(vf_entry s ?k + ?fs) * SECTOR_SIZE \<le> vf_entry s i * SECTOR_SIZE" by (rule mult_le_mono1)
          moreover have "?lim \<le> vf_entry s ?k * SECTOR_SIZE"
            using vf_invD(3) [OF inv some(2)] getEndOfHeaders_ge(2) [of ?h] by linarith
          ultimately show ?thesis using \<open>\<not> n > ?full\<close> i(2) full(1) by (simp add: algebra_simps)
        qed
        with False step m end2 show ?thesis by (auto simp: free_bound_def Let_def)
      next
        case True
        have q: "n div ?full * ?fs = ?fs + (n - ?full) div ?full * ?fs"
        proof -
          have "n div ?full = Suc ((n - ?full) div ?full)"
            using True full(3) by (simp add: le_div_geq)
          then show ?thesis by simp
        qed
        have "ceil_div (?lim + (n - ?full)) SECTOR_SIZE \<le> ceil_div (?lim + n) SECTOR_SIZE"
          by (simp add: ceil_div_def SECTOR_SIZE_def div_le_mono)
        then have b: "free_bound s2 (n - ?full) \<le> free_bound s n"
          using end2 q by (simp add: free_bound_def m(5) Let_def)
        with less.prems(2) have b2: "free_bound s2 (n - ?full) < BLOCK_UNUSED" by linarith
        have "n - ?full < n" using True full(3) by linarith
        from less.IH [OF this m(3) b2] obtain s' where
          "freeFirstBlockSpace fu (n - ?full) s2 = Inr s'" "vf_inv s'" "same_blocks s2 s'"
          "vf_header s' = vf_header s2" "vf_end s' \<le> free_bound s2 (n - ?full) + ?fs"
          "map_option length (vf_blockTable s') = map_option length (vf_blockTable s2)"
          using m(5) by auto
        with True step m(4,5,8) b show ?thesis by (auto intro: same_blocks_trans)
      qed
    qed
  qed
qed

lemma writeFooter_footer:
  "writeFooter fu only s = Inr s' \<Longrightarrow>
   vf_footer s' = (vf_footer s)\<lparr>f_checksum := fst (checksumStruct fu (fuFooter_pack fu (vf_footer s)) FuFooter)\<rparr>"
  by (auto simp: writeFooter_def Let_def case_prod_beta res_bind_Inr_iff vf_write_def)

lemma setBatEntry_footer: "setBatEntry k a s = Inr s' \<Longrightarrow> vf_footer s' = vf_footer s"
  by (auto simp: setBatEntry_def Let_def res_bind_Inr_iff vf_write_def)

text \<open>The moves of blocks write the footer again: only its checksum may change.\<close>

definition same_footer :: "vhd_footer \<Rightarrow> vhd_footer \<Rightarrow> bool" where
  "same_footer f g \<longleftrightarrow> f = g \<or>
     (\<exists>fu b. g = f\<lparr>f_checksum := fst (checksumStruct fu b FuFooter)\<rparr>)"

lemma same_footer_trans: "same_footer f g \<Longrightarrow> same_footer g h \<Longrightarrow> same_footer f h"
  unfolding same_footer_def by (elim disjE exE; simp; blast)

lemma move_footer:
  assumes "setBatEntry k a (vf_write b off s) = Inr s1" and "writeFooter fu True s1 = Inr s2"
  shows "same_footer (vf_footer s) (vf_footer s2)"
  using setBatEntry_footer [OF assms(1)] writeFooter_footer [OF assms(2)]
  by (auto simp: same_footer_def vf_write_def)

lemma freeFirstBlockSpace_footer:
  "freeFirstBlockSpace fu n s = Inr s' \<Longrightarrow> same_footer (vf_footer s) (vf_footer s')"
proof (induction n arbitrary: s rule: less_induct)
  case (less n)
  have smaller: "n - fullBlockSize (vf_header s) < n" if "fullBlockSize (vf_header s) < n"
    using that by (simp add: fullBlockSize_def computeFullBlockSize_pos)
  note run = less.prems [unfolded freeFirstBlockSpace.simps [of fu n s] Let_def]
  show ?case
  proof (cases "s' = s")
    case True
    then show ?thesis by (simp add: same_footer_def)
  next
    case False
    obtain t r where t: "vf_table s = Inr t" "getFirstAndLastBlocks t = Inr (Some r)"
      using run False by (cases "vf_table s"; simp) (auto simp: res_bind_Inr_iff split: option.splits)
    obtain k a b off s1 where s1: "setBatEntry k a (vf_write b off s) = Inr s1"
      and rest: "res_bind (writeFooter fu True s1) (\<lambda>s2. if n > fullBlockSize (vf_header s)
        then freeFirstBlockSpace fu (n - fullBlockSize (vf_header s)) s2 else Inr s2) = Inr s'"
      using run False unfolding t res_bind_simps option.case
      by (cases "tableOffset (vf_header s) + batSize (vf_header s) + n \<ge> sectorsToBytes (firstSector r)"; simp only: if_True if_False)
        (erule res_bindE, erule res_bindE, rule that, assumption, assumption, simp)
    obtain s2 where s2: "writeFooter fu True s1 = Inr s2" using rest by (cases "writeFooter fu True s1") simp_all
    note moved = move_footer [OF s1 s2]
    show ?thesis
    proof (cases "n > fullBlockSize (vf_header s)")
      case True
      then have "freeFirstBlockSpace fu (n - fullBlockSize (vf_header s)) s2 = Inr s'" using rest s2 by simp
      then show ?thesis using less.IH [OF smaller [OF True]] same_footer_trans [OF moved] by blast
    next
      case False
      then show ?thesis using rest s2 moved by simp
    qed
  qed
qed

section \<open>A larger table\<close>

lemma getEndOfHeaders_grow:
  assumes "entries \<ge> maxTableEntries h"
  shows "getEndOfHeaders (h\<lparr>maxTableEntries := entries\<rparr>) \<le>
    max (getEndOfHeaders h) (tableOffset h + computeBatSize entries)"
  unfolding getEndOfHeaders_def
proof (rule fold_max_le, goal_cases)
  case 1
  have "max (FOOTER_SIZE + HEADER_SIZE) (tableOffset h + batSize h) \<le> getEndOfHeaders h"
    using getEndOfHeaders_ge [of h] by simp
  then show ?case by (simp add: batSize_def getEndOfHeaders_def max.coboundedI1)
next
  case (2 e)
  then show ?case by (intro max.coboundedI1 fold_max_in) simp_all
qed

lemma replicate_four: "replicate 4 x = [x, x, x, x]"
  by (simp add: numeral_eq_Suc)

lemma ensureBatSize_table:
  assumes "4 * n \<le> length t" "n \<le> m" "4 * m \<le> k" "4 dvd k"
  shows "bat_entry (take k (take (4 * n) t @ replicate k 0xff)) i =
    (if i < n then bat_entry t i else BLOCK_UNUSED) \<or> k < 4 * i + 4"
proof (cases "4 * i + 4 \<le> k")
  case True
  have t: "take k (take (4 * n) t @ replicate k 0xff) = take (4 * n) t @ replicate (k - 4 * n) (0xff :: byte)"
    using assms by simp
  have len: "length (take (4 * n) t) = 4 * n" using assms by simp
  show ?thesis
  proof (cases "i < n")
    case True
    then have "buf_slice (take (4 * n) t) (4 * i) (4 * i + 4) = buf_slice t (4 * i) (4 * i + 4)"
      by (simp add: buf_slice_def drop_take)
    with True len show ?thesis unfolding bat_entry_def t by (simp add: slice_append_left)
  next
    case False
    with len \<open>4 * i + 4 \<le> k\<close> have
      "buf_slice (take (4 * n) t @ replicate (k - 4 * n) 0xff) (4 * i) (4 * i + 4) = replicate 4 (0xff :: byte)"
      by (simp add: slice_append_right) (simp add: buf_slice_def min_def)
    moreover have "of_be (replicate 4 (0xff :: byte)) = BLOCK_UNUSED"
      by (simp add: of_be_def BLOCK_UNUSED_def replicate_four)
    ultimately show ?thesis using False unfolding bat_entry_def t by simp
  qed
qed simp

lemma vf_end_le:
  assumes "ceil_div (getEndOfHeaders (vf_header s)) SECTOR_SIZE \<le> b"
    "\<And>i. allocated s i \<Longrightarrow> vf_entry s i + full_sectors (vf_header s) \<le> b"
  shows "vf_end s \<le> b"
  unfolding vf_end_def by (rule fold_max_le) (use assms in auto)

lemma ensureBatSize_keeps:
  assumes inv: "vf_inv s"
    and exact: "\<And>t. vf_blockTable s = Some t \<Longrightarrow> length t = 4 * maxTableEntries (vf_header s)"
    and grow: "maxTableEntries (vf_header s) < entries"
    and fits: "computeBatSize entries - batSize (vf_header s) \<le> fullBlockSize (vf_header s)"
    and bound: "free_bound s (computeBatSize entries - batSize (vf_header s)) < BLOCK_UNUSED"
    and hsize: "length (fuHeader_pack fu ((vf_header s)\<lparr>maxTableEntries := entries\<rparr>)) \<le> HEADER_SIZE"
  defines "h' \<equiv> (vf_header s)\<lparr>maxTableEntries := entries\<rparr>"
  shows "\<exists>s'. ensureBatSize fu entries s = Inr s' \<and> vf_inv s' \<and> same_blocks s s' \<and>
    vf_header s' = h'\<lparr>h_checksum := fst (checksumStruct fu (fuHeader_pack fu h') FuHeader)\<rparr> \<and>
    same_footer (vf_footer s) (vf_footer s') \<and>
    (\<exists>c. vf_content s' = file_write c (snd (checksumStruct fu (fuHeader_pack fu h') FuHeader)) FOOTER_SIZE) \<and>
    vf_end s' \<le> free_bound s (computeBatSize entries - batSize (vf_header s)) + full_sectors (vf_header s)"
proof -
  let ?h = "vf_header s" and ?n = "maxTableEntries (vf_header s)" and ?new = "computeBatSize entries"
  let ?h' = "?h\<lparr>maxTableEntries := entries\<rparr>"
  have new_ge: "batSize ?h \<le> ?new" using grow computeBatSize_mono [of ?n entries] by (simp add: batSize_def)
  obtain s1 where s1: "freeFirstBlockSpace fu (?new - batSize ?h) s = Inr s1" "vf_inv s1" "same_blocks s s1"
    "vf_header s1 = ?h" "map_option length (vf_blockTable s1) = map_option length (vf_blockTable s)"
    "vf_end s1 \<le> free_bound s (?new - batSize ?h) + full_sectors ?h"
    and room: "\<And>i. allocated s1 i \<Longrightarrow> tableOffset ?h + ?new \<le> vf_entry s1 i * SECTOR_SIZE"
    using freeFirstBlockSpace_keeps [OF inv bound, of fu] fits new_ge by auto
  obtain t where t: "vf_blockTable s1 = Some t" "wf_table ?h t"
    by (rule vf_inv_table [OF s1(2), unfolded s1(4)])
  define bat where "bat = take ?new (take (4 * ?n) t @ replicate ?new 0xff)"
  define w where "w = replicate (entries - ?n) (0xff :: byte)"
  define d where "d = snd (checksumStruct fu (fuHeader_pack fu ?h') FuHeader)"
  define s2 where "s2 = s1\<lparr>vf_header := ?h'\<lparr>h_checksum := fst (checksumStruct fu (fuHeader_pack fu ?h') FuHeader)\<rparr>,
    vf_blockTable := Some bat,
    vf_content := file_write (file_write (vf_content s1) w (tableOffset ?h + length t)) d FOOTER_SIZE\<rparr>"
  have eq: "ensureBatSize fu entries s = Inr s2"
    using grow s1 t
    by (simp add: ensureBatSize_def Let_def vf_table_def writeHeader_def vf_write_def case_prod_beta mult.commute
        s2_def bat_def w_def d_def)
  have len: "length t = 4 * ?n"
    using s1(5) exact t(1) inv by (auto simp: vf_inv_def)
  have bat: "length bat = ?new" by (simp add: bat_def)
  have hd: "vf_header s2 = ?h'\<lparr>h_checksum := h_checksum (vf_header s2)\<rparr>" by (simp add: s2_def)
  have entry: "vf_entry s2 = vf_entry s1"
  proof
    fix i
    have "\<not> ?new < 4 * i + 4" if "i * 4 < ?new"
    proof -
      from computeBatSize_dvd4 [of entries] obtain q where "?new = 4 * q" ..
      with that show ?thesis by simp
    qed
    then show "vf_entry s2 i = vf_entry s1 i"
      using ensureBatSize_table [of ?n t entries ?new i] len grow computeBatSize_ge [of entries]
        computeBatSize_dvd4 [of entries] t(1) bat
      by (auto simp: vf_entry_def s2_def bat_def mult.commute)
  qed
  have full: "full_sectors (vf_header s2) = full_sectors ?h" "fullBlockSize (vf_header s2) = fullBlockSize ?h"
    "batSize (vf_header s2) = ?new"
    by (simp_all add: s2_def full_sectors_def sectorsOfBitmap_def sectorsPerBlock_def fullBlockSize_def batSize_def)
  have dlen: "FOOTER_SIZE + length d \<le> getEndOfHeaders ?h"
    using hsize getEndOfHeaders_ge(1) [of ?h] by (simp add: d_def checksumStruct_def Let_def)
  have wlen: "tableOffset ?h + length t + length w \<le> tableOffset ?h + ?new"
    using len grow computeBatSize_ge [of entries] by (simp add: w_def)
  have blocks: "block_bytes s2 i = block_bytes s1 i" if i: "allocated s1 i" for i
  proof -
    have "vf_entry s1 i * SECTOR_SIZE + fullBlockSize ?h \<le> length (vf_content s1)"
      using vf_invD(4) [OF s1(2) i] vf_invD(1) [OF s1(2)] by (simp add: fullBlockSize_sectors s1(4) algebra_simps)
    then show ?thesis
      using room [OF i] wlen dlen vf_invD(3) [OF s1(2) i]
      by (simp add: block_bytes_def entry full s1(4)) (simp add: s2_def file_read_write_disjoint)
  qed
  have ends: "getEndOfHeaders (vf_header s2) \<le> max (getEndOfHeaders ?h) (tableOffset ?h + ?new)"
    using getEndOfHeaders_grow [of ?h entries] grow by (simp add: s2_def getEndOfHeaders_def batSize_def)
  have "vf_inv s2"
    unfolding vf_inv_def entry full
  proof (intro conjI allI impI)
    show "wf_layout (vf_header s2)"
      using vf_invD(1) [OF inv] by (simp add: s2_def wf_layout_def)
    show "\<exists>t. vf_blockTable s2 = Some t \<and> wf_table (vf_header s2) t"
      using bat computeBatSize_dvd4 [of entries] computeBatSize_ge [of entries]
      by (simp add: s2_def wf_table_def batSize_def)
    fix i
    assume i: "allocated s1 i"
    show "i < maxTableEntries (vf_header s2)"
      using vf_invD(2) [OF s1(2) i] s1(4) grow by (simp add: s2_def)
    show "getEndOfHeaders (vf_header s2) \<le> vf_entry s1 i * SECTOR_SIZE"
      using vf_invD(3) [OF s1(2) i] s1(4) room [OF i] ends by auto
    have "length (vf_content s1) \<le> length (vf_content s2)" by (simp add: s2_def)
    with vf_invD(4) [OF s1(2) i] s1(4)
    show "(vf_entry s1 i + full_sectors ?h) * SECTOR_SIZE \<le> length (vf_content s2)" by simp
    show "vf_entry s1 i + full_sectors ?h \<le> vf_entry s1 j \<or> vf_entry s1 j + full_sectors ?h \<le> vf_entry s1 i"
      if "i \<noteq> j" "allocated s1 j" for j
      using vf_invD(5) [OF s1(2) that(1) i that(2)] s1(4) by simp
  qed
  moreover have "same_blocks s1 s2"
    using blocks s1(4) by (simp add: same_blocks_def entry) (simp add: s2_def)
  moreover have "vf_end s2 \<le> free_bound s (?new - batSize ?h) + full_sectors ?h"
  proof (rule vf_end_le)
    have "ceil_div (max (getEndOfHeaders ?h) (tableOffset ?h + ?new)) SECTOR_SIZE \<le> free_bound s (?new - batSize ?h)"
    proof -
      have "ceil_div (getEndOfHeaders ?h) SECTOR_SIZE \<le> vf_end s"
        unfolding vf_end_def by (rule fold_max_ge)
      then have "ceil_div (getEndOfHeaders ?h) SECTOR_SIZE \<le> free_bound s (?new - batSize ?h)"
        by (simp add: free_bound_def Let_def)
      moreover have "ceil_div (tableOffset ?h + ?new) SECTOR_SIZE \<le> free_bound s (?new - batSize ?h)"
        using new_ge by (simp add: free_bound_def Let_def)
      ultimately show ?thesis by (simp add: max_def)
    qed
    moreover have "ceil_div (getEndOfHeaders (vf_header s2)) SECTOR_SIZE \<le>
        ceil_div (max (getEndOfHeaders ?h) (tableOffset ?h + ?new)) SECTOR_SIZE"
      unfolding ceil_div_def by (intro div_le_mono) (use ends in linarith)
    ultimately show "ceil_div (getEndOfHeaders (vf_header s2)) SECTOR_SIZE \<le>
        free_bound s (?new - batSize ?h) + full_sectors ?h" by linarith
    fix i
    assume "allocated s2 i"
    then have "vf_entry s2 i + full_sectors (vf_header s2) \<le> vf_end s1"
      using vf_end_blocks [OF s1(2), of i] s1(4) by (simp add: entry full)
    then show "vf_entry s2 i + full_sectors (vf_header s2) \<le> free_bound s (?new - batSize ?h) + full_sectors ?h"
      using s1(6) by linarith
  qed
  moreover have "same_footer (vf_footer s) (vf_footer s2)"
    using freeFirstBlockSpace_footer [OF s1(1)] by (simp add: s2_def)
  moreover have "\<exists>c. vf_content s2 = file_write c (snd (checksumStruct fu (fuHeader_pack fu h') FuHeader)) FOOTER_SIZE"
    unfolding s2_def d_def h'_def by auto
  moreover have "vf_header s2 = h'\<lparr>h_checksum := fst (checksumStruct fu (fuHeader_pack fu h') FuHeader)\<rparr>"
    by (simp add: s2_def h'_def)
  ultimately show ?thesis
    using eq same_blocks_trans [OF s1(3)] by (intro exI [of _ s2]) blast
qed

end
