(* ===== verification/Vhd_Durable.thy ===== *)
theory Vhd_Durable
  imports Vhd_File_Props Vhd_Struct
begin

text \<open>
  What is on the disk: the header and the table as the object in memory has them. Writing blocks keeps
  that, writing the footer completes it, and a file opened again shows the same blocks.
\<close>

section \<open>The header setter\<close>

lemma writeUInt32BE_entry:
  assumes "4 * k + 4 \<le> length t" "v < 2 ^ 32"
  shows "\<exists>t'. writeUInt32BE t v (k * 4) = Inr t' \<and> length t' = length t \<and>
    (\<forall>i. 4 * i + 4 \<le> length t \<longrightarrow> bat_entry t' i = (if i = k then v else bat_entry t i))"
  using assms bat_entry_copy [of k t _ v]
  by (intro exI [of _ "buf_copy (be 4 v) t (4 * k)"]) (simp add: writeUInt32BE_eq mult.commute)

lemma fill_unused:
  assumes "4 * n \<le> length t"
  shows "\<exists>t'. res_fold (\<lambda>i t. writeUInt32BE t BLOCK_UNUSED (i * 4)) [0..<n] t = Inr t' \<and> length t' = length t \<and>
    (\<forall>i. 4 * i + 4 \<le> length t \<longrightarrow> bat_entry t' i = (if i < n then BLOCK_UNUSED else bat_entry t i))"
  using assms
proof (induction n)
  case (Suc n)
  then obtain t1 where t1: "res_fold (\<lambda>i t. writeUInt32BE t BLOCK_UNUSED (i * 4)) [0..<n] t = Inr t1"
    "length t1 = length t"
    "\<forall>i. 4 * i + 4 \<le> length t \<longrightarrow> bat_entry t1 i = (if i < n then BLOCK_UNUSED else bat_entry t i)"
    by auto
  have "4 * n + 4 \<le> length t1" "BLOCK_UNUSED < 2 ^ 32" using Suc.prems t1(2) by (simp_all add: BLOCK_UNUSED_def)
  from writeUInt32BE_entry [OF this] obtain t2 where
    "writeUInt32BE t1 BLOCK_UNUSED (n * 4) = Inr t2" "length t2 = length t1"
    "\<forall>i. 4 * i + 4 \<le> length t1 \<longrightarrow> bat_entry t2 i = (if i = n then BLOCK_UNUSED else bat_entry t1 i)"
    by blast
  with t1 show ?case by (auto simp: res_fold_append)
qed simp

lemma bat_entry_zeros: "4 * i + 4 \<le> n \<Longrightarrow> bat_entry (replicate n 0) i = 0"
proof -
  assume "4 * i + 4 \<le> n"
  then have "buf_slice (replicate n (0 :: byte)) (4 * i) (4 * i + 4) = replicate 4 0"
    by (simp add: buf_slice_def min_def)
  then show ?thesis by (simp add: bat_entry_def replicate_four of_be_def)
qed

lemma set_header_table:
  "\<exists>t. set_header h s = Inr (s\<lparr>vf_header := h, vf_blockTable := Some t\<rparr>) \<and> length t = batSize h \<and>
    (\<forall>i. 4 * i + 4 \<le> batSize h \<longrightarrow> bat_entry t i = (if i < maxTableEntries h then BLOCK_UNUSED else 0))"
proof -
  have "4 * maxTableEntries h \<le> length (replicate (batSize h) (0 :: byte))"
    by (simp add: batSize_def computeBatSize_ge)
  from fill_unused [OF this] show ?thesis
    by (auto simp: set_header_def bat_entry_zeros)
qed

section \<open>What is on the disk\<close>

definition disk_synced :: "struct_fu \<Rightarrow> vhd_file \<Rightarrow> bool" where
  "disk_synced fu s \<longleftrightarrow>
     (let h = vf_header s
      in wf_header h \<and> header_with_checksum fu h = h \<and>
         file_read (vf_content s) FOOTER_SIZE HEADER_SIZE = fuHeader_pack fu h \<and>
         (case vf_blockTable s of None \<Rightarrow> False
          | Some t \<Rightarrow> tableOffset h + 4 * maxTableEntries h \<le> length (vf_content s) \<and>
              file_read (vf_content s) (tableOffset h) (4 * maxTableEntries h) = take (4 * maxTableEntries h) t))"

lemma file_read_append: "file_read f a (m + n) = file_read f a m @ file_read f (a + m) n"
  by (simp add: file_read_def take_add add.commute)

lemma take_file_read: "m \<le> n \<Longrightarrow> take m (file_read f a n) = file_read f a m"
  by (simp add: file_read_def min_def)

lemma synced_write:
  assumes sync: "disk_synced fu s" and lay: "wf_layout (vf_header s)"
    and s': "vf_header s' = vf_header s" "vf_blockTable s' = vf_blockTable s"
      "vf_content s' = file_write (vf_content s) d off"
    and off: "getEndOfHeaders (vf_header s) \<le> off \<or> off + length d \<le> FOOTER_SIZE"
  shows "disk_synced fu s'"
proof -
  let ?h = "vf_header s" and ?c = "vf_content s"
  obtain t where t: "vf_blockTable s = Some t" using sync by (auto simp: disk_synced_def Let_def split: option.splits)
  have toff: "FOOTER_SIZE + HEADER_SIZE \<le> tableOffset ?h" using lay by (simp add: wf_layout_def)
  have len: "tableOffset ?h + 4 * maxTableEntries ?h \<le> length ?c"
    using sync t by (simp add: disk_synced_def Let_def)
  have tab: "tableOffset ?h + 4 * maxTableEntries ?h \<le> getEndOfHeaders ?h"
    using getEndOfHeaders_ge(2) [of ?h] computeBatSize_ge [of "maxTableEntries ?h"] by (simp add: batSize_def)
  have "file_read (vf_content s') FOOTER_SIZE HEADER_SIZE = file_read ?c FOOTER_SIZE HEADER_SIZE"
    unfolding s'(3) by (rule file_read_write_disjoint) (use len toff tab off in linarith)+
  moreover have "file_read (vf_content s') (tableOffset ?h) (4 * maxTableEntries ?h) =
      file_read ?c (tableOffset ?h) (4 * maxTableEntries ?h)"
    unfolding s'(3) by (rule file_read_write_disjoint) (use len toff tab off in linarith)+
  ultimately show ?thesis
    using sync len s' t by (simp add: disk_synced_def Let_def)
qed

lemma synced_setBatEntry:
  assumes sync: "disk_synced fu s" and lay: "wf_layout (vf_header s)"
    and t: "vf_blockTable s = Some t" "wf_table (vf_header s) t" and k: "k < maxTableEntries (vf_header s)"
    and s': "vf_header s' = vf_header s" "vf_blockTable s' = Some (buf_copy (be 4 a) t (4 * k))"
      "vf_content s' = file_write (vf_content s) (be 4 a) (tableOffset (vf_header s) + 4 * k)"
  shows "disk_synced fu s'"
proof -
  let ?h = "vf_header s" and ?c = "vf_content s" and ?n = "4 * maxTableEntries (vf_header s)"
  have toff: "FOOTER_SIZE + HEADER_SIZE \<le> tableOffset ?h" using lay by (simp add: wf_layout_def)
  have len: "tableOffset ?h + ?n \<le> length ?c" and read: "file_read ?c (tableOffset ?h) ?n = take ?n t"
    using sync t(1) by (simp_all add: disk_synced_def Let_def)
  have "file_read (vf_content s') FOOTER_SIZE HEADER_SIZE = file_read ?c FOOTER_SIZE HEADER_SIZE"
    unfolding s'(3) by (rule file_read_write_disjoint) (use len toff in linarith)+
  moreover have "file_read (vf_content s') (tableOffset ?h) ?n = take ?n (buf_copy (be 4 a) t (4 * k))"
  proof -
    have "file_read (vf_content s') (tableOffset ?h) ?n = buf_copy (be 4 a) (file_read ?c (tableOffset ?h) ?n) (4 * k)"
      unfolding s'(3) by (rule file_read_write_inside) (use len k in simp_all)
    also have "\<dots> = take ?n (buf_copy (be 4 a) t (4 * k))"
      unfolding read by (rule take_buf_copy [symmetric]) (use k wf_table_bound [OF t(2) k] in simp_all)
    finally show ?thesis .
  qed
  ultimately show ?thesis
    using sync len s' t by (simp add: disk_synced_def Let_def)
qed

lemma writeEntireBlock_synced:
  assumes inv: "vf_inv s" and k: "k < maxTableEntries (vf_header s)" and e: "vf_end s < BLOCK_UNUSED"
    and sync: "disk_synced fu s" and w: "writeEntireBlock k buf s = Inr s'"
  shows "disk_synced fu s'"
proof -
  obtain t where t: "vf_blockTable s = Some t" "wf_table (vf_header s) t" by (rule vf_inv_table [OF inv])
  note lay = vf_invD(1) [OF inv]
  show ?thesis
  proof (cases "allocated s k")
    case True
    then have s': "s' = vf_write buf (vf_entry s k * SECTOR_SIZE) s"
      using w inv by (simp add: writeEntireBlock_def getOrCreateBlock_def getBatEntry_eq sectorsToBytes_def)
    show ?thesis
      by (rule synced_write [OF sync lay, of _ buf "vf_entry s k * SECTOR_SIZE"])
        (use vf_invD(3) [OF inv True] in \<open>simp_all add: s' vf_write_def\<close>)
  next
    case False
    define s1 where "s1 = s\<lparr>vf_blockTable := Some (buf_copy (be 4 (vf_end s)) t (4 * k)),
      vf_content := file_write (vf_content s) (be 4 (vf_end s)) (tableOffset (vf_header s) + 4 * k)\<rparr>"
    have s': "s' = vf_write buf (vf_end s * SECTOR_SIZE) s1"
      using w False inv createBlock_eq [OF inv k e False t(1)]
      by (simp add: writeEntireBlock_def getOrCreateBlock_def getBatEntry_eq sectorsToBytes_def s1_def)
    have "disk_synced fu s1"
      by (rule synced_setBatEntry [OF sync lay t k, of _ "vf_end s"]) (simp_all add: s1_def)
    then show ?thesis
      by (rule synced_write [where d = buf and off = "vf_end s * SECTOR_SIZE"])
        (use vf_end_headers [of s] lay in \<open>simp_all add: s' vf_write_def s1_def\<close>)
  qed
qed

section \<open>Opening again\<close>

definition footer_synced :: "struct_fu \<Rightarrow> vhd_file \<Rightarrow> bool" where
  "footer_synced fu s \<longleftrightarrow>
     (let f = vf_footer s; c = vf_content s
      in wf_footer f \<and> with_checksum fu f = f \<and> FOOTER_SIZE \<le> length c \<and>
         file_read c 0 FOOTER_SIZE = fuFooter_pack fu f \<and>
         file_read c (length c - FOOTER_SIZE) FOOTER_SIZE = fuFooter_pack fu f)"

text \<open>The table as the disk has it, without the padding the table in memory may carry.\<close>

lemma vf_entry_take:
  assumes inv: "vf_inv s" and t: "vf_blockTable s = Some t"
    and t': "vf_blockTable s' = Some (take (4 * maxTableEntries (vf_header s)) t)"
  shows "vf_entry s' = vf_entry s"
proof
  fix i
  let ?n = "maxTableEntries (vf_header s)"
  have len: "4 * ?n \<le> length t" using inv t by (auto simp: vf_inv_def wf_table_def)
  have "vf_entry s i = BLOCK_UNUSED" if "\<not> i < ?n" using vf_invD(2) [OF inv, of i] that by auto
  moreover have "bat_entry (take (4 * ?n) t) i = bat_entry t i" if "i < ?n"
    using that by (simp add: bat_entry_def buf_slice_def drop_take)
  ultimately show "vf_entry s' i = vf_entry s i"
    using t t' len by (auto simp: vf_entry_def)
qed

lemma f_checksum_with: "f_checksum (with_checksum fu f) = fst (checksumStruct fu (fuFooter_pack fu f) FuFooter)"
  by (simp add: with_checksum_def)

context struct_fu_codec
begin

lemma reopen:
  assumes inv: "vf_inv s" and sync: "disk_synced fu s" and fsync: "footer_synced fu s"
    and check: "checkFooter (vf_footer s) = Inr ()" "checkHeader (vf_header s) (Some (vf_footer s)) = Inr ()"
  obtains s3 s4
  where "vf_open fu True blank (vf_content s) = Inr s3" "readBlockAllocationTable s3 = Inr s4"
    "vf_inv s4" "same_blocks s s4" "vf_header s4 = vf_header s" "vf_footer s4 = vf_footer s"
proof -
  let ?h = "vf_header s" and ?f = "vf_footer s" and ?c = "vf_content s"
  obtain t where t: "vf_blockTable s = Some t" "wf_table ?h t" by (rule vf_inv_table [OF inv])
  have wf: "wf_header ?h" "wf_footer ?f" and same: "header_with_checksum fu ?h = ?h" "with_checksum fu ?f = ?f"
    and front: "file_read ?c FOOTER_SIZE HEADER_SIZE = fuHeader_pack fu ?h"
      "file_read ?c 0 FOOTER_SIZE = fuFooter_pack fu ?f"
    and rear: "file_read ?c (length ?c - FOOTER_SIZE) FOOTER_SIZE = fuFooter_pack fu ?f"
    and tab: "tableOffset ?h + 4 * maxTableEntries ?h \<le> length ?c"
      "file_read ?c (tableOffset ?h) (4 * maxTableEntries ?h) = take (4 * maxTableEntries ?h) t"
    using sync fsync t(1) by (simp_all add: disk_synced_def footer_synced_def Let_def)
  have flen: "length (fuFooter_pack fu ?f) = FOOTER_SIZE" and hlen: "length (fuHeader_pack fu ?h) = HEADER_SIZE"
    using wf by (simp_all add: fuFooter_size fuHeader_size wf_footer_def wf_header_def)
  have buf: "file_read ?c 0 (FOOTER_SIZE + HEADER_SIZE) = fuFooter_pack fu ?f @ fuHeader_pack fu ?h"
    by (simp add: file_read_append front)
  define s0 where "s0 = blank\<lparr>vf_content := ?c, vf_blockTable := None, vf_footer := ?f\<rparr>"
  obtain t0 where t0: "set_header ?h s0 = Inr (s0\<lparr>vf_header := ?h, vf_blockTable := Some t0\<rparr>)"
    using set_header_table [of ?h s0] by blast
  have blen: "length (file_read ?c 0 (FOOTER_SIZE + HEADER_SIZE)) = FOOTER_SIZE + HEADER_SIZE"
    unfolding buf using flen hlen by simp
  have slices: "buf_slice (file_read ?c 0 (FOOTER_SIZE + HEADER_SIZE)) 0 FOOTER_SIZE = fuFooter_pack fu ?f"
    "drop FOOTER_SIZE (file_read ?c 0 (FOOTER_SIZE + HEADER_SIZE)) = fuHeader_pack fu ?h"
    unfolding buf using flen by (simp_all add: buf_slice_def)
  have vr: "vf_read (blank\<lparr>vf_content := ?c, vf_blockTable := None\<rparr>) 0 (FOOTER_SIZE + HEADER_SIZE) =
      Inr (file_read ?c 0 (FOOTER_SIZE + HEADER_SIZE))"
    unfolding vf_read_def Let_def using blen by (simp del: length_file_read)
  have ve: "vf_read (blank\<lparr>vf_content := ?c, vf_blockTable := None\<rparr>) (length ?c - FOOTER_SIZE) FOOTER_SIZE =
      Inr (fuFooter_pack fu ?f)"
    unfolding vf_read_def Let_def using flen rear by (simp del: length_file_read)
  have uf: "unpackFooter fu (fuFooter_pack fu ?f) = Inr ?f"
    using unpackFooter_pack [OF wf(2) check(1)] same by simp
  have uh: "unpackHeader fu (fuHeader_pack fu ?h) (Some ?f) = Inr ?h"
    using unpackHeader_pack [OF wf(1) check(2)] same by simp
  define s3 where "s3 = s0\<lparr>vf_header := ?h, vf_blockTable := Some t0\<rparr>"
  have open3: "vf_open fu True blank ?c = Inr s3"
    using t0 by (simp add: vf_open_def readHeaderAndFooter_def vr slices uf uh ve s3_def s0_def)
  define s4 where "s4 = s3\<lparr>vf_blockTable := Some (take (4 * maxTableEntries ?h) t)\<rparr>"
  have fields: "vf_content s4 = ?c" "vf_header s4 = ?h" "vf_footer s4 = ?f"
    "vf_blockTable s4 = Some (take (4 * maxTableEntries ?h) t)"
    by (simp_all add: s4_def s3_def s0_def)
  have tlen: "4 * maxTableEntries ?h \<le> length t" using t(2) by (simp add: wf_table_def)
  have "length (file_read ?c (tableOffset ?h) (maxTableEntries ?h * 4)) = maxTableEntries ?h * 4"
    using tab tlen by (simp add: mult.commute)
  then have "readBlockAllocationTable s3 = Inr s4"
    using tab(2) by (simp add: readBlockAllocationTable_def vf_read_def Let_def s4_def s3_def s0_def mult.commute
        del: length_file_read)
  moreover have entry: "vf_entry s4 = vf_entry s" by (rule vf_entry_take [OF inv t(1) fields(4)])
  have "vf_inv s4"
    using inv computeBatSize_ge [of "maxTableEntries ?h"] tlen
    unfolding vf_inv_def entry fields by (simp add: wf_table_def batSize_def)
  moreover have "same_blocks s s4" by (simp add: same_blocks_def block_bytes_def entry fields)
  ultimately show thesis using that open3 fields by blast
qed

lemma footer_checksum_idem:
  assumes wf: "wf_footer f"
  shows "with_checksum fu (with_checksum fu f) = with_checksum fu f"
proof -
  let ?raw = "fuFooter_pack fu f" and ?d = "fuFooter_pack fu (with_checksum fu f)"
  have uid: "length (uuid f) = 16" using wf by (simp add: wf_footer_def)
  have raw: "length ?raw = FOOTER_SIZE" using uid by (simp add: fuFooter_size)
  have dlen: "length ?d = FOOTER_SIZE" using uid by (simp add: fuFooter_size with_checksum_def)
  have fw: "f\<lparr>f_checksum := f_checksum (with_checksum fu f)\<rparr> = with_checksum fu f" by (simp add: with_checksum_def)
  have "checked_bytes ?d FuFooter = checked_bytes ?raw FuFooter"
    using snd_checksum_footer [OF uid] raw
    by (simp add: snd_checksumStruct checked_bytes_def flip: snd_checksum_footer [OF uid])
      (simp add: slice_buf_copy_other uint_length vhd_sizes)
  then show ?thesis
    using raw dlen fw by (simp add: with_checksum_def [of fu "with_checksum fu f"] f_checksum_with fst_checksumStruct vhd_sizes)
qed

lemma writeFooter_synced:
  assumes inv: "vf_inv s" and sync: "disk_synced fu s" and wf: "wf_footer (vf_footer s)"
  obtains s' where "writeFooter fu False s = Inr s'" "vf_inv s'" "same_blocks s s'" "vf_header s' = vf_header s"
    "vf_footer s' = with_checksum fu (vf_footer s)" "disk_synced fu s'" "footer_synced fu s'"
proof -
  let ?f = "with_checksum fu (vf_footer s)" and ?c = "vf_content s"
  let ?raw = "fuFooter_pack fu (vf_footer s)" and ?d = "fuFooter_pack fu (with_checksum fu (vf_footer s))"
  have uid: "length (uuid (vf_footer s)) = 16" using wf by (simp add: wf_footer_def)
  have raw: "length ?raw = FOOTER_SIZE" using uid by (simp add: fuFooter_size)
  have dlen: "length ?d = FOOTER_SIZE" using uid by (simp add: fuFooter_size with_checksum_def)
  have cs: "checksumStruct fu ?raw FuFooter = (f_checksum ?f, ?d)"
    by (rule prod_eqI) (simp_all only: fst_conv snd_conv snd_checksum_footer [OF uid] f_checksum_with)
  let ?off = "max (vf_end s * SECTOR_SIZE) (length ?c - FOOTER_SIZE)"
  obtain s' where s': "writeFooter fu False s = Inr s'" "vf_inv s'" "same_blocks s s'"
    "vf_header s' = vf_header s" "vf_blockTable s' = vf_blockTable s"
    by (rule writeFooter_keeps [OF inv, of False fu]) (simp_all add: raw)
  have fw: "(vf_footer s)\<lparr>f_checksum := f_checksum ?f\<rparr> = ?f" by (simp add: with_checksum_def)
  define s1 where "s1 = vf_write ?d 0 (s\<lparr>vf_footer := ?f\<rparr>)"
  have eq: "s' = vf_write ?d ?off s1"
    using s'(1) inv cs raw
    by (simp add: writeFooter_def getEndOfData_eq Let_def s1_def fw)
  have foot: "vf_footer s' = ?f" by (simp add: eq s1_def vf_write_def)
  note lay = vf_invD(1) [OF inv]
  have "disk_synced fu s1"
    by (rule synced_write [OF sync lay, of _ ?d 0]) (use dlen in \<open>simp_all add: s1_def vf_write_def\<close>)
  then have "disk_synced fu s'"
    by (rule synced_write [where d = ?d and off = ?off])
      (use vf_end_headers [of s] lay in \<open>simp_all add: eq s1_def vf_write_def le_max_iff_disj\<close>)
  moreover have "footer_synced fu s'"
  proof -
    have c': "vf_content s' = file_write (file_write ?c ?d 0) ?d ?off"
      by (simp add: eq s1_def vf_write_def)
    have above: "FOOTER_SIZE \<le> ?off"
      using vf_end_headers [of s] getEndOfHeaders_ge(1) [of "vf_header s"] by linarith
    have "file_read (vf_content s') 0 FOOTER_SIZE = file_read (file_write ?c ?d 0) 0 FOOTER_SIZE"
      unfolding c' by (rule file_read_write_disjoint) (use above dlen in simp_all)
    then have "file_read (vf_content s') 0 FOOTER_SIZE = ?d"
      using file_read_write_same [of ?c ?d 0] dlen by simp
    moreover have len: "length (vf_content s') = ?off + FOOTER_SIZE"
      using dlen above by (simp add: c')
    then have "file_read (vf_content s') (length (vf_content s') - FOOTER_SIZE) FOOTER_SIZE = ?d"
      using file_read_write_same [of "file_write ?c ?d 0" ?d ?off] dlen by (simp add: c')
    moreover have "with_checksum fu ?f = ?f" by (rule footer_checksum_idem [OF wf])
    ultimately show ?thesis
      using wf_with_checksum [OF wf] len by (simp add: footer_synced_def foot Let_def)
  qed
  ultimately show thesis using that s' foot by blast
qed

lemma header_checksum_idem:
  assumes wf: "wf_header h"
  shows "header_with_checksum fu (header_with_checksum fu h) = header_with_checksum fu h"
proof -
  have uid: "length (parentUuid h) = 16" and n: "length (parentLocatorEntry h) = PARENT_LOCATOR_ENTRIES"
    using wf by (simp_all add: wf_header_def)
  let ?raw = "fuHeader_pack fu h" and ?d = "fuHeader_pack fu (header_with_checksum fu h)"
  have raw: "length ?raw = HEADER_SIZE" using uid n by (simp add: fuHeader_size)
  have dlen: "length ?d = HEADER_SIZE" using uid n by (simp add: fuHeader_size header_with_checksum_def)
  have "checked_bytes ?d FuHeader = checked_bytes ?raw FuHeader"
    using snd_checksum_header [OF uid] raw
    by (simp add: snd_checksumStruct checked_bytes_def flip: snd_checksum_header [OF uid])
      (simp add: slice_buf_copy_other uint_length vhd_sizes)
  then have "fst (checksumStruct fu ?d FuHeader) = fst (checksumStruct fu ?raw FuHeader)"
    using raw dlen by (simp add: fst_checksumStruct)
  then show ?thesis by (simp add: header_with_checksum_def)
qed

end

end
