(* ===== verification/Vhd_Store.thy ===== *)
theory Vhd_Store
  imports Vhd_Durable
begin

text \<open>
  The contract between a VHD that is written to (\<open>VhdFile\<close>, \<open>VhdDirectory\<close>) and the code that writes
  blocks into it: copying, merging, importing. A store shows a map from block numbers to the bytes of
  the blocks; writing a block updates that map and nothing else.
\<close>

section \<open>The contract\<close>

locale vhd_store =
  fixes inv :: "'s \<Rightarrow> bool"
    and entries :: "'s \<Rightarrow> nat"
    and bytes_per_block :: "'s \<Rightarrow> nat"
    and room :: "'s \<Rightarrow> nat"
    and shown :: "'s \<Rightarrow> nat \<Rightarrow> buffer option"
    and contains_op :: "nat \<Rightarrow> 's \<Rightarrow> js_error + bool"
    and write_op :: "nat \<Rightarrow> buffer \<Rightarrow> 's \<Rightarrow> js_error + 's"
  assumes contains_law: "inv s \<Longrightarrow> contains_op k s = Inr (shown s k \<noteq> None)"
    and write_law: "inv s \<Longrightarrow> k < entries s \<Longrightarrow> length b = bytes_per_block s \<Longrightarrow> 0 < room s \<Longrightarrow>
      \<exists>s'. write_op k b s = Inr s' \<and> inv s' \<and> entries s' = entries s \<and>
        bytes_per_block s' = bytes_per_block s \<and> room s \<le> Suc (room s') \<and> shown s' = (shown s)(k \<mapsto> b)"
begin

text \<open>A sequence of blocks: the last one written to a number is the one that is shown.\<close>

lemma write_all:
  assumes "inv s" "length bs \<le> room s"
    "\<And>k b. (k, b) \<in> set bs \<Longrightarrow> k < entries s \<and> length b = bytes_per_block s"
  shows "\<exists>s'. res_fold (\<lambda>(k, b). write_op k b) bs s = Inr s' \<and> inv s' \<and> entries s' = entries s \<and>
    bytes_per_block s' = bytes_per_block s \<and> room s \<le> length bs + room s' \<and>
    shown s' = shown s ++ map_of (rev bs)"
  using assms
proof (induction bs arbitrary: s)
  case (Cons x bs)
  obtain k b where x: "x = (k, b)" by fastforce
  from write_law [OF Cons.prems(1), of k b] Cons.prems obtain s1 where
    s1: "write_op k b s = Inr s1" "inv s1" "entries s1 = entries s" "bytes_per_block s1 = bytes_per_block s"
      "room s \<le> Suc (room s1)" "shown s1 = (shown s)(k \<mapsto> b)"
    by (auto simp: x)
  have l: "length bs \<le> room s1" using s1(5) Cons.prems(2) by simp
  have each: "j < entries s1 \<and> length c = bytes_per_block s1" if "(j, c) \<in> set bs" for j c
    using Cons.prems(3) [of j c] that s1(3,4) by simp
  obtain s' where s':
    "res_fold (\<lambda>(k, b). write_op k b) bs s1 = Inr s'" "inv s'" "entries s' = entries s1"
    "bytes_per_block s' = bytes_per_block s1" "room s1 \<le> length bs + room s'"
    "shown s' = shown s1 ++ map_of (rev bs)"
    using Cons.IH [OF s1(2) l] each by fastforce
  have "((shown s)(k \<mapsto> b)) ++ map_of (rev bs) = shown s ++ map_of (rev bs @ [(k, b)])"
    by simp
  then show ?case using s1 s' by (simp add: x)
qed simp

text \<open>Copying every block a map shows, in the order of their numbers.\<close>

lemma write_map:
  assumes "inv s" "card (dom m) \<le> room s"
    "dom m \<subseteq> {..<entries s}" "\<And>k b. m k = Some b \<Longrightarrow> length b = bytes_per_block s"
    and ks: "set ks = dom m" "distinct ks"
  shows "\<exists>s'. res_fold (\<lambda>k. write_op k (the (m k))) ks s = Inr s' \<and> inv s' \<and> entries s' = entries s \<and>
    shown s' = shown s ++ m"
proof -
  let ?bs = "map (\<lambda>k. (k, the (m k))) ks"
  have "length ?bs = card (dom m)" using ks by (metis distinct_card length_map)
  moreover have "k < entries s \<and> length b = bytes_per_block s" if "(k, b) \<in> set ?bs" for k b
    using that assms(3,4) ks(1) by fastforce
  ultimately obtain s' where s': "res_fold (\<lambda>(k, b). write_op k b) ?bs s = Inr s'" "inv s'"
    "entries s' = entries s" "shown s' = shown s ++ map_of (rev ?bs)"
    using write_all [of s ?bs] assms(1,2) by auto
  have "res_fold (\<lambda>k. write_op k (the (m k))) js t = res_fold (\<lambda>(k, b). write_op k b) (map (\<lambda>k. (k, the (m k))) js) t"
    for js t
  proof (induction js arbitrary: t)
    case (Cons j js)
    then show ?case by (cases "write_op j (the (m j)) t") simp_all
  qed simp
  moreover have "map_of (rev ?bs) = m"
  proof
    fix k
    show "map_of (rev ?bs) k = m k"
    proof (cases "k \<in> dom m")
      case True
      have "distinct (map fst (rev ?bs))" using ks(2) by (simp add: rev_map comp_def)
      moreover have "(k, the (m k)) \<in> set (rev ?bs)" using True ks(1) by auto
      ultimately have "map_of (rev ?bs) k = Some (the (m k))" by (rule map_of_is_SomeI)
      with True show ?thesis by auto
    next
      case False
      then have "k \<notin> fst ` set (rev ?bs)" using ks(1) by auto
      then have "map_of (rev ?bs) k = None" by (simp only: map_of_eq_None_iff) simp
      with False show ?thesis by (simp add: domIff)
    qed
  qed
  ultimately show ?thesis using s' by auto
qed

end

section \<open>A VHD file is a store\<close>

definition file_blocks :: "vhd_file \<Rightarrow> nat \<Rightarrow> buffer option" where
  "file_blocks s i = (if allocated s i then Some (block_bytes s i) else None)"

text \<open>How many blocks can still be allocated before the sector numbers no longer fit an entry.\<close>

definition file_room :: "vhd_file \<Rightarrow> nat" where
  "file_room s = (if vf_end s < BLOCK_UNUSED
     then Suc ((BLOCK_UNUSED - 1 - vf_end s) div full_sectors (vf_header s)) else 0)"

lemma file_room_step:
  assumes "vf_end s' \<le> vf_end s + full_sectors (vf_header s)" "vf_header s' = vf_header s"
  shows "file_room s \<le> Suc (file_room s')"
proof -
  let ?fs = "full_sectors (vf_header s)" and ?m = "BLOCK_UNUSED - 1"
  show ?thesis
  proof (cases "vf_end s' < BLOCK_UNUSED \<and> vf_end s < BLOCK_UNUSED")
    case True
    have "?m - vf_end s \<le> ?m - vf_end s' + ?fs" using assms(1) by linarith
    then have "(?m - vf_end s) div ?fs \<le> (?m - vf_end s' + ?fs) div ?fs" by (rule div_le_mono)
    also have "\<dots> = Suc ((?m - vf_end s') div ?fs)"
      using full_sectors_pos [of "vf_header s"] by simp
    finally show ?thesis using True assms(2) by (simp add: file_room_def)
  next
    case False
    have "(?m - vf_end s) div ?fs = 0" if "BLOCK_UNUSED \<le> vf_end s'" "vf_end s < BLOCK_UNUSED"
      using that assms(1) by (intro div_less) linarith
    with False show ?thesis by (auto simp: file_room_def not_less)
  qed
qed

interpretation file_store: vhd_store vf_inv "\<lambda>s. maxTableEntries (vf_header s)"
  "\<lambda>s. fullBlockSize (vf_header s)" file_room file_blocks "\<lambda>i s. containsBlock s i" writeEntireBlock
proof (unfold_locales, goal_cases)
  case (1 s k)
  then show ?case by (simp add: containsBlock_eq file_blocks_def)
next
  case (2 s k b)
  have e: "vf_end s < BLOCK_UNUSED" using 2(4) by (simp add: file_room_def split: if_splits)
  obtain s' where s': "writeEntireBlock k b s = Inr s'" "placed s k (write_addr s k) b s'" "vf_inv s'"
    by (rule writeEntireBlock_placed [OF 2(1,2) e 2(3)])
  have hd: "vf_header s' = vf_header s" using s'(2) by (simp add: placed_def)
  have used: "write_addr s k \<noteq> BLOCK_UNUSED" using e by (simp add: write_addr_def)
  have "vf_end s' \<le> vf_end s + full_sectors (vf_header s)"
    using placed_end [OF s'(2)] vf_end_blocks [OF 2(1), of k] by (auto simp: write_addr_def split: if_splits)
  then have "file_room s \<le> Suc (file_room s')" using hd by (rule file_room_step)
  moreover have "file_blocks s' = (file_blocks s)(k \<mapsto> b)"
  proof
    fix i
    show "file_blocks s' i = ((file_blocks s)(k \<mapsto> b)) i"
      using placed_blocks [OF s'(2)] used by (cases "i = k") (auto simp: file_blocks_def)
  qed
  ultimately show ?case using s'(1,3) hd by auto
qed

end
