(* ===== verification/Zero_Filter_Props.thy ===== *)
theory Zero_Filter_Props
  imports Zero_Filter
begin

text \<open>
  The page by page specification of the zero filter, the proof that \<open>removeZeroPages\<close> implements it,
  and the round trip with \<open>restoreZeroPages\<close>.
\<close>

section \<open>Pages\<close>

definition page_end :: "nat \<Rightarrow> nat \<Rightarrow> nat" where
  "page_end n i = getFirstPageSize n + i * PAGE_SIZE"

definition page_start :: "nat \<Rightarrow> nat \<Rightarrow> nat" where
  "page_start n i = (if i = 0 then 0 else page_end n (i - 1))"

definition page :: "buffer \<Rightarrow> nat \<Rightarrow> buffer" where
  "page c i = buf_slice c (page_start (length c) i) (page_end (length c) i)"

definition zero_page :: "buffer \<Rightarrow> nat \<Rightarrow> bool" where
  "zero_page c i \<longleftrightarrow> (\<forall>b \<in> set (page c i). b = 0)"

definition stored_pages :: "buffer \<Rightarrow> nat \<Rightarrow> buffer" where
  "stored_pages c m = concat (map (page c) (filter (\<lambda>i. \<not> zero_page c i) [0..<m]))"

lemma page_count: "0 < n \<Longrightarrow> n = getFirstPageSize n + (ceil_pages n - 1) * PAGE_SIZE \<and> 0 < ceil_pages n"
proof -
  assume n: "0 < n"
  let ?q = "n div PAGE_SIZE" and ?r = "n mod PAGE_SIZE"
  have qr: "n = ?q * PAGE_SIZE + ?r" by simp
  show ?thesis
  proof (cases "?r = 0")
    case True
    then have "?q > 0" using n qr by (cases "?q = 0") auto
    have nq: "n = ?q * PAGE_SIZE" using True by (metis div_mult_mod_eq add.right_neutral)
    have "1 \<le> PAGE_SIZE" by (simp add: PAGE_SIZE_def)
    with nq have "n + PAGE_SIZE - 1 = (PAGE_SIZE - 1) + ?q * PAGE_SIZE" by linarith
    then have "ceil_pages n = ?q"
      unfolding ceil_pages_def by (simp only:) (simp add: PAGE_SIZE_def)
    then show ?thesis using True \<open>?q > 0\<close> qr
      by (cases "?q") (simp_all add: getFirstPageSize_def)
  next
    case False
    have "1 \<le> ?r" using False by simp
    with qr have "n + PAGE_SIZE - 1 = (?r - 1) + (?q * PAGE_SIZE + PAGE_SIZE)" by linarith
    then have "n + PAGE_SIZE - 1 = (?r - 1) + (?q + 1) * PAGE_SIZE" by simp
    then have "ceil_pages n = (?r - 1) div PAGE_SIZE + (?q + 1)"
      unfolding ceil_pages_def by (simp only:) (simp add: PAGE_SIZE_def)
    also have "(?r - 1) div PAGE_SIZE = 0"
      by (rule div_less) (metis PAGE_SIZE_def less_imp_diff_less mod_less_divisor zero_less_numeral)
    finally show ?thesis using False qr by (simp add: getFirstPageSize_def Let_def)
  qed
qed

lemma first_page_pos: "0 < getFirstPageSize n" "getFirstPageSize n \<le> PAGE_SIZE"
  using mod_less_divisor [of PAGE_SIZE n] by (auto simp: getFirstPageSize_def Let_def PAGE_SIZE_def)

lemma ceil_pages_0 [simp]: "ceil_pages 0 = 0"
  by (simp add: ceil_pages_def PAGE_SIZE_def)

lemma page_last: "0 < n \<Longrightarrow> page_start n (ceil_pages n) = n"
  using page_count [of n] by (simp add: page_start_def page_end_def)

lemma page_end_le: "i < ceil_pages n \<Longrightarrow> page_end n i \<le> n"
proof -
  assume i: "i < ceil_pages n"
  then have n: "0 < n" by (cases n) simp_all
  have "i * PAGE_SIZE \<le> (ceil_pages n - 1) * PAGE_SIZE" using i by (intro mult_le_mono1) simp
  then show ?thesis using page_count [OF n] unfolding page_end_def by linarith
qed

lemma page_start_Suc [simp]: "page_start n (Suc i) = page_end n i"
  by (simp add: page_start_def)

lemma page_end_Suc: "page_end n (Suc i) = page_end n i + PAGE_SIZE"
  by (simp add: page_end_def)

lemma page_start_less: "page_start n i < page_end n i"
  using first_page_pos [of n] by (cases i) (simp_all add: page_start_def page_end_def PAGE_SIZE_def)

lemma page_start_mono: "i \<le> j \<Longrightarrow> page_start n i \<le> page_start n j"
  by (cases i; cases j) (simp_all add: page_start_def page_end_def)

lemma length_page: "i < ceil_pages (length c) \<Longrightarrow> length (page c i) = page_end (length c) i - page_start (length c) i"
  using page_end_le [of i "length c"] by (simp add: page_def length_slice)

lemma slice_join: "a \<le> b \<Longrightarrow> b \<le> d \<Longrightarrow> buf_slice xs a b @ buf_slice xs b d = buf_slice xs a d"
proof -
  assume "a \<le> b" "b \<le> d"
  then have "drop b xs = drop (b - a) (drop a xs)" "d - a = (b - a) + (d - b)" by simp_all
  then show ?thesis by (simp add: buf_slice_def take_add)
qed

lemma pages_concat:
  "i \<le> j \<Longrightarrow> concat (map (page c) [i..<j]) = buf_slice c (page_start (length c) i) (page_start (length c) j)"
proof (induction j)
  case (Suc j)
  show ?case
  proof (cases "i = Suc j")
    case True
    then show ?thesis by (simp add: buf_slice_def)
  next
    case False
    with Suc have "i \<le> j" by simp
    with Suc.IH page_start_mono [of i j "length c"] page_start_less [of "length c" j] show ?thesis
      by (simp add: page_def slice_join)
  qed
qed (simp add: buf_slice_def)

lemma stored_pages_Suc:
  "stored_pages c (Suc i) = stored_pages c i @ (if zero_page c i then [] else page c i)"
  by (simp add: stored_pages_def)

lemma stored_pages_skip:
  "i \<le> j \<Longrightarrow> (\<And>k. i \<le> k \<Longrightarrow> k < j \<Longrightarrow> zero_page c k) \<Longrightarrow> stored_pages c j = stored_pages c i"
proof (induction j)
  case (Suc j)
  then show ?case by (cases "i = Suc j") (auto simp: stored_pages_Suc)
qed simp

section \<open>Parts\<close>

definition part_start :: "buffer list \<Rightarrow> nat \<Rightarrow> nat" where
  "part_start parts p = sum_list (map length (take p parts))"

lemma part_start_Suc: "p < length parts \<Longrightarrow> part_start parts (Suc p) = part_start parts p + length (parts ! p)"
  by (simp add: part_start_def take_Suc_conv_app_nth)

lemma part_start_all: "length parts \<le> p \<Longrightarrow> part_start parts p = length (concat parts)"
  by (simp add: part_start_def length_concat)

lemma part_slice:
  assumes "p < length parts" "b \<le> length (parts ! p)"
  shows "buf_slice (concat parts) (part_start parts p + a) (part_start parts p + b) = buf_slice (parts ! p) a b"
proof -
  have "concat parts = concat (take p parts) @ parts ! p @ concat (drop (Suc p) parts)"
    by (metis append_take_drop_id concat.simps(2) concat_append Cons_nth_drop_Suc assms(1))
  moreover have "length (concat (take p parts)) = part_start parts p"
    by (simp add: part_start_def length_concat)
  ultimately show ?thesis using slice_middle assms(2) by metis
qed

lemma part_end_le: "p < length parts \<Longrightarrow> part_start parts p + length (parts ! p) \<le> length (concat parts)"
proof -
  assume p: "p < length parts"
  have "concat parts = concat (take p parts) @ parts ! p @ concat (drop (Suc p) parts)"
    by (metis append_take_drop_id concat.simps(2) concat_append Cons_nth_drop_Suc p)
  then have "length (concat parts) = length (concat (take p parts)) + (length (parts ! p) + length (concat (drop (Suc p) parts)))"
    by (metis length_append)
  then show ?thesis by (simp add: part_start_def length_concat)
qed

lemma rz_seek_spec:
  assumes "x < length (concat parts)" "s = part_start parts p" "s \<le> x" "rz_seek parts x p s = (p', s')"
  shows "p' < length parts \<and> s' = part_start parts p' \<and> s' \<le> x \<and> x < s' + length (parts ! p')"
  using assms
proof (induction parts x p s rule: rz_seek.induct)
  case (1 parts x p s)
  show ?case
  proof (cases "p < length parts \<and> s + length (parts ! p) \<le> x")
    case True
    then have "rz_seek parts x (p + 1) (s + length (parts ! p)) = (p', s')"
      using "1.prems"(4) by (subst (asm) rz_seek.simps) simp
    with True "1.IH" "1.prems" show ?thesis by (simp add: part_start_Suc)
  next
    case False
    then have "p' = p" "s' = s" using "1.prems"(4) by (subst (asm) (1) rz_seek.simps, auto)+
    moreover have "p < length parts"
      using "1.prems"(1-3) part_start_all [of parts p] by (cases "p < length parts") auto
    ultimately show ?thesis using False "1.prems" by auto
  qed
qed

definition slice_bytes :: "buffer list \<Rightarrow> nat \<times> nat \<times> nat \<Rightarrow> buffer" where
  "slice_bytes parts piece = (case piece of (p, s, e) \<Rightarrow> buf_slice (parts ! p) s e)"

lemma rz_slices_spec:
  assumes "p < length parts \<Longrightarrow> s \<le> length (parts ! p)" "part_start parts p + s + r \<le> length (concat parts)"
    "\<not> p < length parts \<Longrightarrow> s = 0"
  shows "concat (map (slice_bytes parts) (rz_slices parts p s r)) =
      buf_slice (concat parts) (part_start parts p + s) (part_start parts p + s + r) \<and>
    (\<forall>(q, a, b) \<in> set (rz_slices parts p s r). a < b \<and> b \<le> length (parts ! q))"
  using assms
proof (induction parts p s r rule: rz_slices.induct)
  case (1 parts p s r)
  let ?len = "length (parts ! p)"
  show ?case
  proof (cases "r > 0 \<and> p < length parts")
    case True
    then have Suc: "part_start parts (p + 1) = part_start parts p + ?len" by (simp add: part_start_Suc)
    let ?e = "min ?len (s + r)"
    have hyp: "p + 1 < length parts \<Longrightarrow> 0 \<le> length (parts ! (p + 1))" by simp
    show ?thesis
    proof (cases "?e > s")
      case e: True
      have step: "rz_slices parts p s r = (p, s, ?e) # rz_slices parts (p + 1) 0 (r - (?e - s))"
        using True e by (subst rz_slices.simps) (simp add: Let_def)
      show ?thesis
      proof (cases "s + r \<le> ?len")
        case fit: True
        then have "rz_slices parts (p + 1) 0 (r - (?e - s)) = []" by (subst rz_slices.simps) simp
        with step fit True show ?thesis
          using part_slice [of p parts "s + r" s] e by (simp add: slice_bytes_def add.assoc)
      next
        case over: False
        then have eq: "?e = ?len" by simp
        have le: "part_start parts (p + 1) + 0 + (r - (?e - s)) \<le> length (concat parts)"
          using "1.prems"(2) Suc over e by simp
        have rest: "concat (map (slice_bytes parts) (rz_slices parts (p + 1) 0 (r - (?e - s)))) =
            buf_slice (concat parts) (part_start parts (p + 1) + 0) (part_start parts (p + 1) + 0 + (r - (?e - s))) \<and>
            (\<forall>(q, a, b) \<in> set (rz_slices parts (p + 1) 0 (r - (?e - s))). a < b \<and> b \<le> length (parts ! q))"
          using "1.IH"(1) [OF True refl e _ le] by simp
        have "buf_slice (parts ! p) s ?e = buf_slice (concat parts) (part_start parts p + s) (part_start parts p + ?len)"
          using part_slice [of p parts ?len s] True eq by simp
        moreover have "part_start parts p + ?len + (r - (?len - s)) = part_start parts p + s + r"
          using over e eq by simp
        ultimately show ?thesis
          using step rest Suc e eq over
          by (simp add: slice_bytes_def [of _ "(p, s, ?len)"] slice_join ac_simps)
      qed
    next
      case e: False
      then have s: "s = ?len" using "1.prems"(1) True by simp
      have step: "rz_slices parts p s r = rz_slices parts (p + 1) 0 r"
        using True e by (subst rz_slices.simps) (simp add: Let_def)
      show ?thesis
        unfolding step using "1.IH"(2) [OF True refl e] "1.prems"(2) Suc s by simp
    qed
  next
    case False
    then have "r = 0" using "1.prems"(2,3) part_start_all [of parts p] by auto
    then show ?thesis by (subst rz_slices.simps, subst (2) rz_slices.simps) (simp add: buf_slice_def)
  qed
qed

section \<open>Zeros, runs and the bitmap\<close>

lemma isZero_iff:
  assumes "s < e" "e \<le> length b"
  shows "isZero b s e \<longleftrightarrow> (\<forall>x \<in> set (buf_slice b s e). x = 0)"
proof
  assume "isZero b s e"
  then show "\<forall>x \<in> set (buf_slice b s e). x = 0" by (simp add: isZero_def)
next
  assume z: "\<forall>x \<in> set (buf_slice b s e). x = 0"
  have len: "length (buf_slice b s e) = e - s" using assms by (simp add: length_slice)
  have nth: "buf_slice b s e ! k = b ! (s + k)" if "k < e - s" for k
    using that assms by (simp add: buf_slice_def)
  have zero: "b ! (s + k) = 0" if "k < e - s" for k
    using z nth [OF that] len that nth_mem [of k "buf_slice b s e"] by simp
  have "buf_slice b s e = replicate (e - s) 0"
    using len zero nth by (intro nth_equalityI) simp_all
  moreover have "b ! s = 0" using zero [of 0] assms by simp
  moreover have "b ! (e - 1) = 0" using zero [of "e - 1 - s"] assms by simp
  ultimately show "isZero b s e" using assms by (simp add: isZero_def)
qed

definition rz_out :: "buffer list \<Rightarrow> rz_state \<Rightarrow> buffer" where
  "rz_out parts st = concat (rz_flush parts st)"

definition run_ok :: "rz_state \<Rightarrow> bool" where
  "run_ok st = (case rz_run st of None \<Rightarrow> True | Some (_, s, e) \<Rightarrow> s \<le> e)"

lemma rz_store_out:
  assumes "run_ok st" "s \<le> e"
  shows "rz_out parts (rz_store parts (p, s, e) st) = rz_out parts st @ buf_slice (parts ! p) s e"
    "run_ok (rz_store parts (p, s, e) st)" "rz_header (rz_store parts (p, s, e) st) = rz_header st"
  using assms by (auto simp: rz_out_def rz_flush_def rz_store_def run_ok_def slice_join split: option.splits)

lemma rz_stores_out:
  assumes "run_ok st" "\<forall>(p, s, e) \<in> set ss. s < e \<and> e \<le> length (parts ! p)"
  shows "rz_out parts (fold (rz_store parts) ss st) = rz_out parts st @ concat (map (slice_bytes parts) ss) \<and>
    run_ok (fold (rz_store parts) ss st) \<and> rz_header (fold (rz_store parts) ss st) = rz_header st"
  using assms
proof (induction ss arbitrary: st)
  case (Cons x ss)
  obtain p s e where x: "x = (p, s, e)" by (cases x)
  then have "s \<le> e" using Cons.prems(2) by auto
  note one = rz_store_out [OF Cons.prems(1) this, of parts p]
  from Cons.IH [OF one(2)] Cons.prems(2) one(1,3) show ?case
    by (simp add: x slice_bytes_def)
qed simp

lemma isStored_mark:
  assumes "LENGTH_SIZE + i div 8 < length h" "rz_header st = h"
  shows "isStored (rz_header (rz_mark i st)) j \<longleftrightarrow> isStored h j \<or> j = i"
proof -
  let ?h = "rz_header (rz_mark i st)"
  have h: "?h = h[LENGTH_SIZE + i div 8 := or (h ! (LENGTH_SIZE + i div 8)) (push_bit (i mod 8) 1)]"
    using assms(2) by (simp add: rz_mark_def Let_def)
  show ?thesis
  proof (cases "j div 8 = i div 8")
    case True
    have "bit (2 ^ (i mod 8) :: byte) (j mod 8) \<longleftrightarrow> j mod 8 = i mod 8"
      by (auto simp: bit_exp_iff possible_bit_word)
    moreover have "j mod 8 = i mod 8 \<longleftrightarrow> j = i"
      using True by (metis div_mult_mod_eq)
    ultimately show ?thesis using True assms(1) by (simp add: isStored_def h bit_or_iff)
  next
    case False
    then show ?thesis by (auto simp: isStored_def h)
  qed
qed

lemma rz_mark_out:
  "rz_out parts (rz_mark i st) = rz_out parts st" "run_ok (rz_mark i st) = run_ok st"
  "length (rz_header (rz_mark i st)) = length (rz_header st)"
  "take LENGTH_SIZE (rz_header (rz_mark i st)) = take LENGTH_SIZE (rz_header st)"
  by (simp_all add: rz_mark_def Let_def rz_out_def rz_flush_def run_ok_def split: option.split)

definition rz_inv :: "buffer list \<Rightarrow> nat \<Rightarrow> rz_state \<Rightarrow> bool" where
  "rz_inv parts i st \<longleftrightarrow>
     (let c = concat parts
      in rz_out parts st = stored_pages c i \<and> run_ok st \<and>
         length (rz_header st) = LENGTH_SIZE + ceil_bytes (ceil_pages (length c)) \<and>
         take LENGTH_SIZE (rz_header st) = be 4 (length c) \<and>
         (\<forall>j. isStored (rz_header st) j \<longleftrightarrow> j < i \<and> \<not> zero_page c j))"

lemma ceil_bytes_div: "i < n \<Longrightarrow> i div 8 < ceil_bytes n"
  by (simp add: ceil_bytes_def)

lemma rz_inv_zero:
  "rz_inv parts i st \<Longrightarrow> i \<le> j \<Longrightarrow> (\<And>k. i \<le> k \<Longrightarrow> k < j \<Longrightarrow> zero_page (concat parts) k) \<Longrightarrow> rz_inv parts j st"
  unfolding rz_inv_def Let_def
  by (auto simp: stored_pages_skip [of i j])

lemma rz_inv_stored:
  assumes inv: "rz_inv parts i st" and nz: "\<not> zero_page (concat parts) i" and i: "i < ceil_pages (length (concat parts))"
    and st': "rz_out parts st' = rz_out parts st @ page (concat parts) i" "run_ok st'" "rz_header st' = rz_header st"
  shows "rz_inv parts (Suc i) (rz_mark i st')"
proof -
  let ?h = "rz_header st"
  have len: "LENGTH_SIZE + i div 8 < length ?h"
    using inv ceil_bytes_div [OF i] by (simp add: rz_inv_def Let_def)
  have "isStored (rz_header (rz_mark i st')) j \<longleftrightarrow> j < Suc i \<and> \<not> zero_page (concat parts) j" for j
    using isStored_mark [OF len st'(3), of j] inv nz by (auto simp: rz_inv_def Let_def less_Suc_eq)
  then show ?thesis
    using inv st' nz by (simp add: rz_inv_def Let_def rz_mark_out stored_pages_Suc)
qed

section \<open>The loop\<close>

lemma set_slice_sub:
  assumes "a \<le> s" "s \<le> e" "e \<le> b"
  shows "set (buf_slice xs s e) \<subseteq> set (buf_slice xs a b)"
proof -
  have "buf_slice xs a b = buf_slice xs a s @ buf_slice xs s e @ buf_slice xs e b"
    using assms by (simp add: slice_join)
  then show ?thesis by auto
qed

lemma page_start_add: "0 < i \<Longrightarrow> page_start n (i + m) = page_start n i + m * PAGE_SIZE"
  by (cases i) (simp_all add: page_end_def algebra_simps)

lemma zero_region:
  assumes p: "p < length parts" and k: "part_start parts p + k = page_start (length (concat parts)) i" and i: "0 < i"
    and fits: "k + REGION_SIZE \<le> length (parts ! p)" and z: "isZero (parts ! p) k (k + REGION_SIZE)"
    and j: "i \<le> j" "j < i + PAGES_PER_REGION"
  shows "zero_page (concat parts) j"
proof -
  let ?m = "j - i" and ?c = "concat parts"
  have m: "?m < PAGES_PER_REGION" "j = i + ?m" using j by simp_all
  have mb: "?m * PAGE_SIZE + PAGE_SIZE \<le> REGION_SIZE" using m(1) by (simp add: page_sizes)
  have "page_start (length ?c) j = part_start parts p + (k + ?m * PAGE_SIZE)"
    using page_start_add [OF i, of "length ?c" ?m] k m(2) by simp
  moreover have "page_end (length ?c) j = part_start parts p + (k + ?m * PAGE_SIZE + PAGE_SIZE)"
    using page_start_add [OF i, of "length ?c" "Suc ?m"] k m(2) by simp
  ultimately have "page ?c j = buf_slice (parts ! p) (k + ?m * PAGE_SIZE) (k + ?m * PAGE_SIZE + PAGE_SIZE)"
    using part_slice [OF p, of "k + ?m * PAGE_SIZE + PAGE_SIZE" "k + ?m * PAGE_SIZE"] fits mb
    by (simp add: page_def)
  moreover have "\<forall>x \<in> set (buf_slice (parts ! p) k (k + REGION_SIZE)). x = 0"
    using z fits isZero_iff [of k "k + REGION_SIZE" "parts ! p"] by (simp add: page_sizes)
  moreover have "set (buf_slice (parts ! p) (k + ?m * PAGE_SIZE) (k + ?m * PAGE_SIZE + PAGE_SIZE)) \<subseteq>
      set (buf_slice (parts ! p) k (k + REGION_SIZE))"
    by (rule set_slice_sub) (use mb in simp_all)
  ultimately show ?thesis by (auto simp: zero_page_def)
qed

lemma rz_skip_spec:
  assumes "p < length parts" "part_start parts p + k = page_start (length (concat parts)) i" "0 < i" "i \<le> n"
    "k \<le> length (parts ! p)" "rz_skip (parts ! p) n i k = (i', k')"
  shows "i \<le> i' \<and> i' \<le> n \<and> part_start parts p + k' = page_start (length (concat parts)) i' \<and>
    k' \<le> length (parts ! p) \<and> (\<forall>j. i \<le> j \<longrightarrow> j < i' \<longrightarrow> zero_page (concat parts) j)"
  using assms(2-)
proof (induction "parts ! p" n i k rule: rz_skip.induct)
  case (1 n i k)
  show ?case
  proof (cases "i + PAGES_PER_REGION \<le> n \<and> k + REGION_SIZE \<le> length (parts ! p) \<and>
      isZero (parts ! p) k (k + REGION_SIZE)")
    case True
    then have step: "rz_skip (parts ! p) n (i + PAGES_PER_REGION) (k + REGION_SIZE) = (i', k')"
      using "1.prems"(5) by (subst (asm) rz_skip.simps) simp
    have "part_start parts p + (k + REGION_SIZE) = page_start (length (concat parts)) (i + PAGES_PER_REGION)"
      using "1.prems"(1,2) by (simp add: page_start_add) (simp add: page_sizes)
    from "1.hyps" [OF True this _ _ _ step] True "1.prems"(2)
    have rest: "i + PAGES_PER_REGION \<le> i'" "i' \<le> n" "part_start parts p + k' = page_start (length (concat parts)) i'"
      "k' \<le> length (parts ! p)" "\<forall>j. i + PAGES_PER_REGION \<le> j \<longrightarrow> j < i' \<longrightarrow> zero_page (concat parts) j"
      by auto
    have "zero_page (concat parts) j" if "i \<le> j" "j < i'" for j
      using that rest(5) zero_region [OF assms(1) "1.prems"(1,2), of j] True
      by (cases "j < i + PAGES_PER_REGION") auto
    with rest show ?thesis by auto
  next
    case False
    then have "i' = i" "k' = k" using "1.prems"(5) by (subst (asm) (1) rz_skip.simps, auto)+
    with "1.prems" show ?thesis by auto
  qed
qed

lemma page_in_part:
  assumes "p < length parts" "s = part_start parts p" "s \<le> page_start n i" "n = length (concat parts)"
    "page_end n i - s \<le> length (parts ! p)"
  shows "page (concat parts) i = buf_slice (parts ! p) (page_start n i - s) (page_end n i - s)"
  using part_slice [OF assms(1,5), of "page_start n i - s"] assms page_start_less [of n i]
  by (simp add: page_def)

lemma rz_loop_inv:
  assumes "n = length (concat parts)" "rz_inv parts i st" "i \<le> ceil_pages n" "s = part_start parts p"
    "i < ceil_pages n \<Longrightarrow> ps = page_start n i \<and> pe = page_end n i \<and> s \<le> ps"
  shows "rz_inv parts (ceil_pages n) (rz_loop parts (ceil_pages n) i ps pe p s st)"
  using assms
proof (induction "ceil_pages n - i" arbitrary: i ps pe p s st rule: less_induct)
  case less
  show ?case
  proof (cases "i < ceil_pages n")
    case False
    with less.prems show ?thesis by (subst rz_loop.simps) simp
  next
    case True
    then have ps: "ps = page_start n i" and pe: "pe = page_end n i" and s_le: "s \<le> page_start n i"
      using less.prems(5) by auto
    have below: "page_start n i < n"
      using page_start_less [of n i] page_end_le [OF True] by linarith
    obtain p' s' where sk: "rz_seek parts ps p s = (p', s')" by fastforce
    have seek: "p' < length parts" "s' = part_start parts p'" "s' \<le> page_start n i"
        "page_start n i < s' + length (parts ! p')"
      using rz_seek_spec [OF _ less.prems(4) _ sk] below s_le ps less.prems(1) by auto
    let ?part = "parts ! p'" and ?start = "page_start n i - s'" and ?fin = "page_end n i - s'"
    note less_page = page_start_less [of n i]
    show ?thesis
    proof (cases "?fin \<le> length ?part")
      case fits: True
      have pg: "page (concat parts) i = buf_slice ?part ?start ?fin"
        by (rule page_in_part [OF seek(1,2,3) less.prems(1) fits])
      have zero: "isZero ?part ?start ?fin \<longleftrightarrow> zero_page (concat parts) i"
        using isZero_iff [of ?start ?fin ?part] fits less_page seek(3) pg by (simp add: zero_page_def)
      show ?thesis
      proof (cases "isZero ?part ?start ?fin")
        case z: True
        obtain i' k where skip: "rz_skip ?part (ceil_pages n) (i + 1) ?fin = (i', k)" by fastforce
        have "part_start parts p' + ?fin = page_start (length (concat parts)) (i + 1)"
          using seek(2,3) less_page less.prems(1) by simp
        from rz_skip_spec [OF seek(1) this _ _ fits skip] True
        have sp: "i < i'" "i' \<le> ceil_pages n" "s' + k = page_start n i'"
            "\<And>j. i + 1 \<le> j \<Longrightarrow> j < i' \<Longrightarrow> zero_page (concat parts) j"
          using less.prems(1) seek(2) by auto
        have step: "rz_loop parts (ceil_pages n) i ps pe p s st =
            rz_loop parts (ceil_pages n) i' (s' + k) (s' + k + PAGE_SIZE) p' s' st"
          using True sk ps pe fits z skip by (subst rz_loop.simps) simp
        have inv: "rz_inv parts i' st"
        proof (rule rz_inv_zero [OF less.prems(2)])
          show "i \<le> i'" using sp(1) by simp
          show "zero_page (concat parts) k" if "i \<le> k" "k < i'" for k
            using that sp(4) [of k] z zero by (cases "k = i") auto
        qed
        have "page_end n i' = s' + k + PAGE_SIZE"
          using sp(1,3) by (cases i') (simp_all add: page_end_Suc)
        then show ?thesis
          unfolding step using sp True by (intro less.hyps [OF _ less.prems(1) inv sp(2) seek(2)]) auto
      next
        case nz: False
        let ?st = "rz_mark i (rz_store parts (p', ?start, ?fin) st)"
        have step: "rz_loop parts (ceil_pages n) i ps pe p s st =
            rz_loop parts (ceil_pages n) (Suc i) pe (pe + PAGE_SIZE) p' s' ?st"
          using True sk ps pe fits nz by (subst rz_loop.simps) simp
        have run: "run_ok st" using less.prems(2) by (simp add: rz_inv_def Let_def)
        have inv: "rz_inv parts (Suc i) ?st"
          by (rule rz_inv_stored [OF less.prems(2)])
            (use nz zero True less.prems(1) rz_store_out [OF run, of ?start ?fin parts p'] less_page pg in auto)
        show ?thesis
          unfolding step
          by (rule less.hyps [OF _ less.prems(1) inv _ seek(2)])
            (use True seek(3) less_page pe in \<open>simp_all add: page_end_Suc\<close>)
      qed
    next
      case span: False
      let ?sl = "rz_slices parts p' ?start (pe - ps)"
      have total: "part_start parts p' + ?start + (pe - ps) = page_end n i"
        "part_start parts p' + ?start = page_start n i"
        using seek(2,3) ps pe less_page by simp_all
      have "?start \<le> length ?part" using seek(3,4) by simp
      then have sl: "concat (map (slice_bytes parts) ?sl) = page (concat parts) i"
          "\<forall>(q, a, b) \<in> set ?sl. a < b \<and> b \<le> length (parts ! q)"
        using rz_slices_spec [of p' parts ?start "pe - ps"] seek(1) total page_end_le [OF True] less.prems(1)
        by (simp_all add: page_def)
      have zero: "(\<forall>(q, a, b) \<in> set ?sl. isZero (parts ! q) a b) \<longleftrightarrow> zero_page (concat parts) i"
      proof -
        have "isZero (parts ! q) a b \<longleftrightarrow> (\<forall>x \<in> set (slice_bytes parts (q, a, b)). x = 0)" if "(q, a, b) \<in> set ?sl" for q a b
          using isZero_iff [of a b "parts ! q"] sl(2) that by (auto simp: slice_bytes_def)
        then have "(\<forall>(q, a, b) \<in> set ?sl. isZero (parts ! q) a b) \<longleftrightarrow>
            (\<forall>y \<in> set ?sl. \<forall>x \<in> set (slice_bytes parts y). x = 0)" by fastforce
        then show ?thesis by (simp add: zero_page_def flip: sl(1))
      qed
      define st2 where "st2 = (if zero_page (concat parts) i then st else rz_mark i (fold (rz_store parts) ?sl st))"
      have step: "rz_loop parts (ceil_pages n) i ps pe p s st =
          rz_loop parts (ceil_pages n) (Suc i) pe (pe + PAGE_SIZE) p' s' st2"
        using True sk ps pe span zero by (subst rz_loop.simps) (simp add: Let_def st2_def)
      have run: "run_ok st" using less.prems(2) by (simp add: rz_inv_def Let_def)
      have inv: "rz_inv parts (Suc i) st2"
      proof (cases "zero_page (concat parts) i")
        case True
        then show ?thesis
          using rz_inv_zero [OF less.prems(2), of "Suc i"] by (simp add: st2_def le_less_Suc_eq)
      next
        case False
        then show ?thesis
          unfolding st2_def using True less.prems(1) rz_stores_out [OF run sl(2)] sl(1)
          by (simp add: rz_inv_stored [OF less.prems(2)])
      qed
      show ?thesis
        unfolding step
        by (rule less.hyps [OF _ less.prems(1) inv _ seek(2)])
          (use True seek(3) less_page pe in \<open>simp_all add: page_end_Suc\<close>)
    qed
  qed
qed

section \<open>The filtered chunk\<close>

text \<open>\<open>h\<close> is the header of the filtered form of \<open>c\<close>.\<close>

definition filter_header :: "buffer \<Rightarrow> buffer \<Rightarrow> bool" where
  "filter_header c h \<longleftrightarrow>
     length h = LENGTH_SIZE + ceil_bytes (ceil_pages (length c)) \<and> take LENGTH_SIZE h = be 4 (length c) \<and>
     (\<forall>j. isStored h j \<longleftrightarrow> j < ceil_pages (length c) \<and> \<not> zero_page c j)"

lemma removeZeroPages_spec:
  assumes "length (concat parts) \<le> 0xffffffff"
  obtains h rest where "removeZeroPages parts = Inr (h # rest)" "filter_header (concat parts) h"
    "concat rest = stored_pages (concat parts) (ceil_pages (length (concat parts)))"
proof -
  let ?c = "concat parts" and ?n = "length (concat parts)"
  let ?nb = "ceil_pages (length (concat parts))"
  let ?z = "replicate (LENGTH_SIZE + ceil_bytes ?nb) (0 :: byte)"
  define header where "header = buf_copy (be 4 ?n) ?z 0"
  have sum: "sum_list (map length parts) = ?n" by (simp add: length_concat)
  have w: "writeUInt32BE ?z ?n 0 = Inr header"
    using assms by (simp add: writeUInt32BE_eq header_def LENGTH_SIZE_def)
  have h0: "header = be 4 ?n @ replicate (ceil_bytes ?nb) 0"
    by (simp add: header_def buf_copy_def LENGTH_SIZE_def)
  have "\<not> isStored header j" for j
    by (simp add: isStored_def h0 LENGTH_SIZE_def nth_append)
  then have inv: "rz_inv parts 0 \<lparr>rz_header = header, rz_result = [], rz_run = None\<rparr>"
    by (simp add: rz_inv_def Let_def rz_out_def rz_flush_def stored_pages_def run_ok_def h0 LENGTH_SIZE_def)
  define st where "st = rz_loop parts ?nb 0 0 (getFirstPageSize ?n) 0 0
    \<lparr>rz_header = header, rz_result = [], rz_run = None\<rparr>"
  have "rz_inv parts ?nb st"
    unfolding st_def by (rule rz_loop_inv [OF refl inv])
      (simp_all add: part_start_def page_start_def page_end_def)
  then have "filter_header ?c (rz_header st)" "concat (rz_flush parts st) = stored_pages ?c ?nb"
    by (simp_all add: rz_inv_def filter_header_def Let_def rz_out_def)
  moreover have "removeZeroPages parts = Inr (rz_header st # rz_flush parts st)"
    using assms w by (simp add: removeZeroPages_def Let_def sum st_def)
  ultimately show thesis using that by blast
qed

section \<open>Restoring\<close>

lemma stored_pages_split: "i \<le> j \<Longrightarrow> \<exists>r. stored_pages c j = stored_pages c i @ r"
proof -
  assume "i \<le> j"
  then have "[0..<j] = [0..<i] @ [i..<j]" by (metis le_add_diff_inverse upt_add_eq_append zero_le)
  then show ?thesis by (simp add: stored_pages_def)
qed

lemma stored_pages_run:
  assumes "i \<le> j" "\<And>k. i \<le> k \<Longrightarrow> k < j \<Longrightarrow> \<not> zero_page c k"
  shows "stored_pages c j = stored_pages c i @ buf_slice c (page_start (length c) i) (page_start (length c) j)"
proof -
  have "[0..<j] = [0..<i] @ [i..<j]" using assms(1) by (metis le_add_diff_inverse upt_add_eq_append zero_le)
  moreover have "filter (\<lambda>k. \<not> zero_page c k) [i..<j] = [i..<j]" using assms(2) by simp
  ultimately show ?thesis using pages_concat [OF assms(1), of c] by (simp add: stored_pages_def)
qed

lemma zero_run:
  assumes "i \<le> j" "j \<le> ceil_pages (length c)" "\<And>k. i \<le> k \<Longrightarrow> k < j \<Longrightarrow> zero_page c k"
  shows "buf_slice c (page_start (length c) i) (page_start (length c) j) =
    replicate (page_start (length c) j - page_start (length c) i) 0"
proof (rule replicate_eqI)
  have "page_start (length c) j \<le> length c"
    using assms(2) page_end_le [of "j - 1" "length c"] by (cases j) (simp_all add: page_start_def)
  then show "length (buf_slice c (page_start (length c) i) (page_start (length c) j)) =
      page_start (length c) j - page_start (length c) i"
    using page_start_mono [OF assms(1), of "length c"] by (simp add: length_slice)
  fix y
  assume "y \<in> set (buf_slice c (page_start (length c) i) (page_start (length c) j))"
  then have "y \<in> set (concat (map (page c) [i..<j]))" by (simp add: pages_concat [OF assms(1)])
  then show "y = 0" using assms(3) by (auto simp: zero_page_def)
qed

lemma run_end_spec:
  assumes "0 < i" "i \<le> nb" "k = page_start n i" "run_end f nb b i k = (i', k')"
  shows "i \<le> i' \<and> i' \<le> nb \<and> k' = page_start n i' \<and> (\<forall>j. i \<le> j \<longrightarrow> j < i' \<longrightarrow> isStored f j = b)"
  using assms
proof (induction f nb b i k rule: run_end.induct)
  case (1 f nb b i k)
  show ?case
  proof (cases "i < nb \<and> isStored f i = b")
    case True
    then have "run_end f nb b (i + 1) (k + PAGE_SIZE) = (i', k')"
      using "1.prems"(4) by (subst (asm) run_end.simps) simp
    moreover have "k + PAGE_SIZE = page_start n (i + 1)"
      using page_start_add [OF "1.prems"(1), of n 1] "1.prems"(3) by simp
    ultimately have rest: "i + 1 \<le> i'" "i' \<le> nb" "k' = page_start n i'"
      "\<forall>j. i + 1 \<le> j \<longrightarrow> j < i' \<longrightarrow> isStored f j = b"
      using "1.IH" [OF True] True by auto
    have "isStored f j = b" if "i \<le> j" "j < i'" for j
      using rest(4) that True by (cases "j = i") auto
    with rest show ?thesis by auto
  next
    case False
    then have "i' = i" "k' = k" using "1.prems"(4) by (subst (asm) (1) run_end.simps, auto)+
    with "1.prems" show ?thesis by auto
  qed
qed

lemma take_copy_extend:
  assumes "length chunk = n" "start + length d \<le> n" "take start chunk = take start c"
    "d = buf_slice c start (start + length d)" "n = length c"
  shows "take (start + length d) (buf_copy d chunk start) = take (start + length d) c"
proof -
  have "take (start + length d) (buf_copy d chunk start) = take start chunk @ d"
    using assms(1,2) by (simp add: buf_copy_def)
  also have "\<dots> = take start c @ buf_slice c start (start + length d)" using assms(3,4) by simp
  also have "\<dots> = take (start + length d) c" by (simp add: buf_slice_def take_add)
  finally show ?thesis .
qed

lemma restore_loop_eq:
  assumes f: "f = h @ stored_pages c nb" and h: "filter_header c h" and nb: "nb = ceil_pages (length c)"
    and i: "i \<le> nb" "start = page_start (length c) i" "off = length h + length (stored_pages c i)"
    and ch: "length chunk = length c" "take start chunk = take start c"
  shows "restore_loop f nb (getFirstPageSize (length c)) i start off chunk = c"
  using i ch
proof (induction "nb - i" arbitrary: i start off chunk rule: less_induct)
  case less
  let ?n = "length c"
  show ?case
  proof (cases "i < nb")
    case False
    have "take ?n chunk = take ?n c"
    proof (cases "0 < ?n")
      case True
      then have "start = ?n" using False less.prems(1,2) page_last nb by simp
      then show ?thesis using less.prems(5) by simp
    qed simp
    then have "chunk = c" using less.prems(4) by simp
    then show ?thesis using False by (subst restore_loop.simps) simp
  next
    case True
    let ?b = "isStored f i" and ?e = "if i = 0 then getFirstPageSize ?n else start + PAGE_SIZE"
    have stored: "isStored f j \<longleftrightarrow> \<not> zero_page c j" if "j < nb" for j
    proof -
      have "LENGTH_SIZE + j div 8 < length h" using ceil_bytes_div [OF that] h nb by (simp add: filter_header_def)
      then have "isStored f j = isStored h j" by (simp add: isStored_def f nth_append)
      then show ?thesis using h that nb by (simp add: filter_header_def)
    qed
    have e: "?e = page_start ?n (i + 1)"
      using less.prems(2) page_start_add [of i ?n 1] by (simp add: page_end_def)
    obtain i' fin where re: "run_end f nb ?b (i + 1) ?e = (i', fin)" by fastforce
    have r: "i < i'" "i' \<le> nb" "fin = page_start ?n i'" "\<And>j. i \<le> j \<Longrightarrow> j < i' \<Longrightarrow> isStored f j = ?b"
    proof -
      have *: "i + 1 \<le> i' \<and> i' \<le> nb \<and> fin = page_start ?n i' \<and> (\<forall>j. i + 1 \<le> j \<longrightarrow> j < i' \<longrightarrow> isStored f j = ?b)"
        by (rule run_end_spec [OF _ _ e re]) (use True in simp_all)
      then show "i < i'" "i' \<le> nb" "fin = page_start ?n i'" by simp_all
      show "isStored f j = ?b" if "i \<le> j" "j < i'" for j
        using that * by (cases "j = i") auto
    qed
    have mono: "start \<le> fin" using page_start_mono [of i i' ?n] r(1,3) less.prems(2) by simp
    have fin_le: "fin \<le> ?n"
      using r(1,2,3) page_end_le [of "i' - 1" ?n] nb by (simp add: page_start_def)
    have smaller: "nb - i' < nb - i" using r(1,2) by linarith
    have diff: "fin - start + start = fin" using mono by simp
    show ?thesis
    proof (cases ?b)
      case st: True
      let ?d = "buf_slice f off (off + fin - start)"
      have nz: "\<not> zero_page c j" if "i \<le> j" "j < i'" for j using r(4) [OF that] st stored [of j] that r(2) by simp
      have sp: "stored_pages c i' = stored_pages c i @ buf_slice c start fin"
        using stored_pages_run [of i i' c] nz r(1,3) less.prems(2) by simp
      obtain tl where tl: "stored_pages c nb = stored_pages c i' @ tl" using stored_pages_split [OF r(2)] by blast
      have dlen: "length (buf_slice c start fin) = fin - start" using fin_le by (simp add: length_slice)
      have d: "?d = buf_slice c start fin"
        using slice_at [of "h @ stored_pages c i" off "buf_slice c start fin" tl] less.prems(3) mono
        by (simp add: f tl sp dlen)
      have step: "restore_loop f nb (getFirstPageSize ?n) i start off chunk =
          restore_loop f nb (getFirstPageSize ?n) i' fin (off + fin - start) (buf_copy ?d chunk start)"
        using True st re by (subst restore_loop.simps) simp
      have "take fin (buf_copy ?d chunk start) = take fin c"
        using take_copy_extend [OF less.prems(4), of start ?d c] less.prems(5) d dlen mono fin_le by simp
      then show ?thesis
        unfolding step
        by (intro less.hyps [OF smaller r(2) r(3)]) (use less.prems(3,4) sp dlen mono in simp_all)
    next
      case ns: False
      let ?d = "replicate (fin - start) (0 :: byte)"
      have z: "zero_page c j" if "i \<le> j" "j < i'" for j using r(4) [OF that] ns stored [of j] that r(2) by simp
      have d: "?d = buf_slice c start fin"
        using zero_run [of i i' c] z r(1,2,3) less.prems(2) nb by simp
      have step: "restore_loop f nb (getFirstPageSize ?n) i start off chunk =
          restore_loop f nb (getFirstPageSize ?n) i' fin off (buf_copy ?d chunk start)"
        using True ns re by (subst restore_loop.simps) simp
      have "take fin (buf_copy ?d chunk start) = take fin c"
      proof -
        have "length ?d = fin - start" by simp
        with take_copy_extend [OF less.prems(4), of start ?d c] less.prems(5) mono fin_le d show ?thesis
          by (metis le_add_diff_inverse)
      qed
      moreover have "stored_pages c i' = stored_pages c i" using stored_pages_skip [of i i' c] z r(1) by simp
      ultimately show ?thesis
        unfolding step by (intro less.hyps [OF smaller r(2) r(3)]) (use less.prems(3,4) in simp_all)
    qed
  qed
qed

text \<open>The size the bitmap announces is the size of the stored pages.\<close>

lemma stored_size:
  assumes "i \<le> ceil_pages (length c)"
  shows "length (stored_pages c i) =
    length (filter (\<lambda>k. \<not> zero_page c k) [0..<i]) * PAGE_SIZE -
      (if i > 0 \<and> \<not> zero_page c 0 then PAGE_SIZE - getFirstPageSize (length c) else 0)"
  using assms
proof (induction i)
  case (Suc i)
  let ?n = "length c"
  let ?k = "length (filter (\<lambda>k. \<not> zero_page c k) [0..<i])"
  show ?case
  proof (cases "i = 0")
    case True
    then show ?thesis
      using length_page [of 0 c] Suc.prems first_page_pos [of ?n]
      by (simp add: stored_pages_def page_start_def page_end_def)
  next
    case False
    have pl: "length (page c i) = PAGE_SIZE"
      using length_page [of i c] Suc.prems False by (cases i) (simp_all add: page_end_Suc)
    have "1 \<le> ?k" if "\<not> zero_page c 0"
    proof -
      have "0 \<in> set (filter (\<lambda>k. \<not> zero_page c k) [0..<i])" using that False by simp
      then show ?thesis by (cases "filter (\<lambda>k. \<not> zero_page c k) [0..<i]") auto
    qed
    then have "PAGE_SIZE - getFirstPageSize ?n \<le> ?k * PAGE_SIZE" if "\<not> zero_page c 0"
      using that by (metis diff_le_self le_trans mult_le_mono1 mult_1)
    then show ?thesis
      using Suc False pl by (auto simp: stored_pages_Suc)
  qed
qed (simp add: stored_pages_def)

lemma concat_filter_all:
  assumes "length (concat (map f (filter P xs))) = length (concat (map f xs))" "\<And>x. x \<in> set xs \<Longrightarrow> f x \<noteq> []"
  shows "filter P xs = xs"
  using assms
proof (induction xs)
  case (Cons x xs)
  have le: "length (concat (map f (filter P ys))) \<le> length (concat (map f ys))" for ys
    by (induction ys) auto
  have "P x"
  proof (rule ccontr)
    assume "\<not> P x"
    then have "length (f x) + length (concat (map f xs)) \<le> length (concat (map f xs))"
      using Cons.prems(1) le [of xs] by simp
    then show False using Cons.prems(2) [of x] by simp
  qed
  with Cons show ?case by simp
qed simp

lemma all_pages: "concat (map (page c) [0..<ceil_pages (length c)]) = c"
proof (cases "length c = 0")
  case False
  then show ?thesis
    using pages_concat [of 0 "ceil_pages (length c)" c] page_last [of "length c"]
    by (simp add: page_start_def [of _ 0] buf_slice_def)
qed simp

lemma restoreZeroPages_removed:
  assumes "removeZeroPages parts = Inr out" "\<And>n. length (allocUnsafe n) = n"
  shows "restoreZeroPages allocUnsafe (concat out) = Inr (concat parts)"
proof -
  let ?c = "concat parts" and ?n = "length (concat parts)"
  let ?nb = "ceil_pages (length (concat parts))"
  have small: "?n \<le> 0xffffffff"
    using assms(1) by (simp add: removeZeroPages_def Let_def res_bind_Inr_iff length_concat)
  obtain h rest where "removeZeroPages parts = Inr (h # rest)" and h: "filter_header ?c h"
    and rest: "concat rest = stored_pages ?c ?nb"
    by (rule removeZeroPages_spec [OF small])
  then have out: "concat out = h @ stored_pages ?c ?nb" using assms(1) by simp
  have hlen: "length h = LENGTH_SIZE + ceil_bytes ?nb" and "take LENGTH_SIZE h = be 4 ?n"
    using h by (simp_all add: filter_header_def)
  then have rd: "readUInt32BE (concat out) 0 = Inr ?n"
    using small by (simp add: out readUInt32BE_def buf_slice_def LENGTH_SIZE_def of_be_be)
  have st: "isStored (concat out) j \<longleftrightarrow> \<not> zero_page ?c j" if "j < ?nb" for j
  proof -
    have "LENGTH_SIZE + j div 8 < length h" using ceil_bytes_div [OF that] hlen by simp
    then have "isStored (concat out) j = isStored h j" by (simp add: isStored_def out nth_append)
    then show ?thesis using h that by (simp add: filter_header_def)
  qed
  then have fl: "filter (isStored (concat out)) [0..<?nb] = filter (\<lambda>k. \<not> zero_page ?c k) [0..<?nb]"
    by (intro filter_cong) simp_all
  have size: "length (stored_pages ?c ?nb) = length (filter (isStored (concat out)) [0..<?nb]) * PAGE_SIZE -
      (if ?nb > 0 \<and> isStored (concat out) 0 then PAGE_SIZE - getFirstPageSize ?n else 0)"
    unfolding fl using stored_size [of ?nb ?c] st [of 0] by (cases "?nb > 0") simp_all
  have "stored_pages ?c ?nb = ?c" if "length (stored_pages ?c ?nb) = ?n"
  proof -
    have "page ?c i \<noteq> []" if "i < ?nb" for i
      using length_page [OF that] page_start_less [of ?n i] by auto
    then have "filter (\<lambda>i. \<not> zero_page ?c i) [0..<?nb] = [0..<?nb]"
      using that by (intro concat_filter_all [where f = "page ?c"]) (simp_all add: all_pages flip: stored_pages_def)
    then show ?thesis by (simp add: stored_pages_def all_pages)
  qed
  moreover have "restore_loop (concat out) ?nb (getFirstPageSize ?n) 0 0 (length h) (allocUnsafe ?n) = ?c"
    by (rule restore_loop_eq [OF out h refl]) (simp_all add: page_start_def stored_pages_def assms(2))
  moreover have "length (concat out) = length h + length (stored_pages ?c ?nb)"
    "drop (length h) (concat out) = stored_pages ?c ?nb"
    by (simp_all only: out length_append append_eq_conv_conj) simp
  moreover have "LENGTH_SIZE \<le> length h + k" for k by (simp add: hlen)
  ultimately show ?thesis
    unfolding restoreZeroPages_def rd hlen [symmetric] Let_def by (simp add: rd Let_def hlen [symmetric] size [symmetric] del: length_concat)
qed

end
