(* ===== verification/Vhd_Directory.thy ===== *)
theory Vhd_Directory
  imports Vhd_Store Zero_Filter_Props
begin

text \<open>
  The class \<open>VhdDirectory\<close> of \<open>packages/vhd-lib/Vhd/VhdDirectory.js\<close>: a VHD stored as a directory of
  chunks, each one compressed on its own.

  The handler's files are a map from a directory and a chunk to bytes: the relative paths
  \<open>header\<close>, \<open>footer\<close>, \<open>bat\<close>, \<open>parentLocatorEntry<i>\<close> and \<open>blocks/<prefix>/<suffix>\<close> are the constructors
  of \<open>vhd_chunk\<close>. The chunk \<open>chunk-filters.json\<close> is kept as the list of identifiers it holds. The
  codecs of zlib are a parameter.
\<close>

section \<open>Compressors\<close>

record compressor =
  comp_id :: string
  compress :: "buffer \<Rightarrow> js_error + buffer"
  decompress :: "buffer \<Rightarrow> js_error + buffer"

text \<open>The properties \<open>COMPRESSORS.none\<close> and \<open>NULL_COMPRESSOR\<close> are one object: the identifier is injected in both.\<close>

definition NULL_COMPRESSOR :: compressor where
  "NULL_COMPRESSOR = \<lparr>comp_id = ''none'', compress = Inr, decompress = Inr\<rparr>"

definition zeros_compressor :: "(nat \<Rightarrow> buffer) \<Rightarrow> compressor" where
  "zeros_compressor allocUnsafe = \<lparr>comp_id = ''zeros'',
     compress = (\<lambda>b. res_bind (removeZeroPages [b]) (\<lambda>parts. Inr (concat parts))),
     decompress = restoreZeroPages allocUnsafe\<rparr>"

type_synonym zlib = "string \<Rightarrow> (buffer \<Rightarrow> js_error + buffer) \<times> (buffer \<Rightarrow> js_error + buffer)"

definition COMPRESSORS :: "zlib \<Rightarrow> (nat \<Rightarrow> buffer) \<Rightarrow> string \<Rightarrow> compressor option" where
  "COMPRESSORS zl allocUnsafe i =
     (if i = ''none'' then Some NULL_COMPRESSOR
      else if i = ''zeros'' then Some (zeros_compressor allocUnsafe)
      else if i \<in> {''gzip'', ''brotli'', ''zstd''}
      then Some \<lparr>comp_id = i, compress = fst (zl i), decompress = snd (zl i)\<rparr>
      else None)"

definition getCompressor :: "zlib \<Rightarrow> (nat \<Rightarrow> buffer) \<Rightarrow> string option \<Rightarrow> js_error + compressor" where
  "getCompressor zl allocUnsafe compressorType =
     (case compressorType of
        None \<Rightarrow> Inr NULL_COMPRESSOR
      | Some i \<Rightarrow> (case COMPRESSORS zl allocUnsafe i of
          None \<Rightarrow> Inl (JsError ''Compression type is not supported'') | Some c \<Rightarrow> Inr c))"

section \<open>State\<close>

datatype vhd_chunk = HeaderChunk | FooterChunk | BatChunk | LocatorChunk nat | BlockChunk nat nat

record vhd_dir =
  vd_files :: "string \<times> vhd_chunk \<Rightarrow> buffer option"
  vd_filters :: "string \<Rightarrow> string list option"
  vd_path :: string
  vd_flags :: string
  vd_compressor :: compressor
  vd_header :: "vhd_header option"
  vd_footer :: vhd_footer
  vd_blockTable :: "buffer option"

definition vd_theHeader :: "vhd_dir \<Rightarrow> js_error + vhd_header" where
  "vd_theHeader d = (case vd_header d of None \<Rightarrow> Inl AssertionError | Some h \<Rightarrow> Inr h)"

definition vd_table :: "vhd_dir \<Rightarrow> js_error + buffer" where
  "vd_table d = (case vd_blockTable d of None \<Rightarrow> Inl AssertionError | Some t \<Rightarrow> Inr t)"

definition vd_set_header :: "vhd_header \<Rightarrow> vhd_dir \<Rightarrow> vhd_dir" where
  "vd_set_header h d = d\<lparr>vd_header := Some h, vd_blockTable := Some (replicate (maxTableEntries h) 0)\<rparr>"

section \<open>Chunks\<close>

definition readChunk :: "vhd_dir \<Rightarrow> vhd_chunk \<Rightarrow> js_error + buffer" where
  "readChunk d part =
     (case vd_files d (vd_path d, part) of None \<Rightarrow> Inl (Errno ''ENOENT'')
      | Some b \<Rightarrow> decompress (vd_compressor d) b)"

text \<open>\<open>handler.outputFile\<close>: the flags of an exclusive creation fail on an existing file.\<close>

definition outputChunk :: "vhd_chunk \<Rightarrow> buffer \<Rightarrow> vhd_dir \<Rightarrow> js_error + vhd_dir" where
  "outputChunk part b d =
     (let flags = (if vd_flags d = ''r+'' then ''w'' else vd_flags d)
      in if flags \<in> {''wx'', ''wx+''} \<and> vd_files d (vd_path d, part) \<noteq> None then Inl (Errno ''EEXIST'')
         else Inr (d\<lparr>vd_files := (vd_files d)((vd_path d, part) \<mapsto> b)\<rparr>))"

definition writeChunk :: "vhd_chunk \<Rightarrow> buffer \<Rightarrow> vhd_dir \<Rightarrow> js_error + vhd_dir" where
  "writeChunk part b d =
     res_bind (js_assert (vd_flags d \<noteq> ''r'')) (\<lambda>_.
     res_bind (compress (vd_compressor d) b) (\<lambda>c. outputChunk part c d))"

definition getBlockPath :: "nat \<Rightarrow> vhd_chunk" where
  "getBlockPath blockId =
     (let blockPrefix = blockId div 1000 in BlockChunk blockPrefix (blockId - blockPrefix * 1000))"

section \<open>Reading\<close>

definition vd_readBlockAllocationTable :: "vhd_dir \<Rightarrow> js_error + vhd_dir" where
  "vd_readBlockAllocationTable d =
     res_bind (readChunk d BatChunk) (\<lambda>b. Inr (d\<lparr>vd_blockTable := Some b\<rparr>))"

definition vd_containsBlock :: "vhd_dir \<Rightarrow> nat \<Rightarrow> js_error + bool" where
  "vd_containsBlock d blockId = res_bind (vd_table d) (\<lambda>t. Inr (bitmap_test t blockId))"

definition readChunkFilters :: "zlib \<Rightarrow> (nat \<Rightarrow> buffer) \<Rightarrow> vhd_dir \<Rightarrow> js_error + vhd_dir" where
  "readChunkFilters zl allocUnsafe d =
     (let chunkFilters = (case vd_filters d (vd_path d) of None \<Rightarrow> [] | Some fs \<Rightarrow> fs)
      in res_bind (getCompressor zl allocUnsafe (case chunkFilters of [] \<Rightarrow> None | f # _ \<Rightarrow> Some f)) (\<lambda>c.
         Inr (d\<lparr>vd_compressor := c\<rparr>)))"

definition vd_readHeaderAndFooter ::
  "struct_fu \<Rightarrow> zlib \<Rightarrow> (nat \<Rightarrow> buffer) \<Rightarrow> vhd_dir \<Rightarrow> js_error + vhd_dir" where
  "vd_readHeaderAndFooter fu zl allocUnsafe d =
     res_bind (readChunkFilters zl allocUnsafe d) (\<lambda>d.
     res_bind (case res_bind (readChunk d HeaderChunk) (\<lambda>h. res_bind (readChunk d FooterChunk) (\<lambda>f. Inr (h, f))) of
         Inl e \<Rightarrow> Inl (if e = Errno ''ENOENT'' then AssertionError else e)
       | Inr hf \<Rightarrow> Inr hf) (\<lambda>(bufHeader, bufFooter).
     res_bind (unpackFooter fu bufFooter) (\<lambda>footer.
     res_bind (unpackHeader fu bufHeader (Some footer)) (\<lambda>header.
     Inr (vd_set_header header (d\<lparr>vd_footer := footer\<rparr>))))))"

definition vd_readBlock :: "vhd_dir \<Rightarrow> nat \<Rightarrow> bool \<Rightarrow> js_error + vhd_block" where
  "vd_readBlock d blockId onlyBitmap =
     (if onlyBitmap then Inl (JsError ''reading the bitmap of a block in a VhdDirectory is not implemented'')
      else res_bind (readChunk d (getBlockPath blockId)) (\<lambda>buf.
           res_bind (vd_theHeader d) (\<lambda>h.
           res_bind (js_assert (length buf = fullBlockSize h)) (\<lambda>_.
           Inr (FullBlock blockId (buf_slice buf 0 (bitmapSize h)) (drop (bitmapSize h) buf) buf)))))"

definition readCompressedBlock :: "vhd_dir \<Rightarrow> nat \<Rightarrow> js_error + buffer" where
  "readCompressedBlock d blockId =
     (case vd_files d (vd_path d, getBlockPath blockId) of None \<Rightarrow> Inl (Errno ''ENOENT'') | Some b \<Rightarrow> Inr b)"

section \<open>Writing\<close>

definition vd_ensureBatSize :: "nat \<Rightarrow> vhd_dir \<Rightarrow> js_error + vhd_dir" where
  "vd_ensureBatSize entries d = Inr d"

definition vd_writeFooter :: "struct_fu \<Rightarrow> vhd_dir \<Rightarrow> js_error + vhd_dir" where
  "vd_writeFooter fu d =
     (let (checksum, rawFooter) = checksumStruct fu (fuFooter_pack fu (vd_footer d)) FuFooter
      in writeChunk FooterChunk rawFooter (d\<lparr>vd_footer := (vd_footer d)\<lparr>f_checksum := checksum\<rparr>\<rparr>))"

definition writeChunkFilters :: "vhd_dir \<Rightarrow> vhd_dir" where
  "writeChunkFilters d =
     d\<lparr>vd_filters := (vd_filters d)(vd_path d \<mapsto> [comp_id (vd_compressor d)])\<rparr>"

definition vd_writeHeader :: "struct_fu \<Rightarrow> vhd_dir \<Rightarrow> js_error + vhd_dir" where
  "vd_writeHeader fu d =
     res_bind (vd_theHeader d) (\<lambda>header.
     let (checksum, rawHeader) = checksumStruct fu (fuHeader_pack fu header) FuHeader
     in res_bind (writeChunk HeaderChunk rawHeader (d\<lparr>vd_header := Some (header\<lparr>h_checksum := checksum\<rparr>)\<rparr>)) (\<lambda>d.
        Inr (writeChunkFilters d)))"

definition vd_writeBlockAllocationTable :: "buffer \<Rightarrow> vhd_dir \<Rightarrow> js_error + vhd_dir" where
  "vd_writeBlockAllocationTable blockTable d =
     res_bind (if blockTable = [] then vd_table d else Inr blockTable) (\<lambda>t.
     res_bind (js_assert (t \<noteq> [])) (\<lambda>_. writeChunk BatChunk t d))"

text \<open>\<open>setBitmap\<close> modifies the table in place.\<close>

definition mark_block :: "nat \<Rightarrow> vhd_dir \<Rightarrow> js_error + vhd_dir" where
  "mark_block blockId d =
     res_bind (vd_table d) (\<lambda>t. Inr (d\<lparr>vd_blockTable := Some (bitmap_set t blockId)\<rparr>))"

definition vd_writeEntireBlock :: "nat \<Rightarrow> buffer \<Rightarrow> vhd_dir \<Rightarrow> js_error + vhd_dir" where
  "vd_writeEntireBlock blockId buf d =
     res_bind (vd_theHeader d) (\<lambda>h.
     res_bind (js_assert (length buf = fullBlockSize h)) (\<lambda>_.
     res_bind (writeChunk (getBlockPath blockId) buf d) (mark_block blockId)))"

definition vd_writeBlockData :: "nat \<Rightarrow> buffer \<Rightarrow> vhd_dir \<Rightarrow> js_error + vhd_dir" where
  "vd_writeBlockData blockId data d =
     res_bind (vd_theHeader d) (\<lambda>h.
     res_bind (js_assert (length data = blockSize h)) (\<lambda>_.
     res_bind (writeChunk (getBlockPath blockId) (replicate (bitmapSize h) 255 @ data) d) (mark_block blockId)))"

definition writeCompressedBlock :: "nat \<Rightarrow> buffer \<Rightarrow> vhd_dir \<Rightarrow> js_error + vhd_dir" where
  "writeCompressedBlock blockId buf d =
     res_bind (js_assert (vd_flags d \<noteq> ''r'')) (\<lambda>_.
     res_bind (outputChunk (getBlockPath blockId) buf d) (mark_block blockId))"

definition setAllocatedBlocks :: "nat list \<Rightarrow> vhd_dir \<Rightarrow> js_error + vhd_dir" where
  "setAllocatedBlocks blockIds d = res_fold mark_block blockIds d"

definition vd_readParentLocatorData :: "vhd_dir \<Rightarrow> nat \<Rightarrow> js_error + buffer" where
  "vd_readParentLocatorData d i = readChunk d (LocatorChunk i)"

definition vd_update_locator :: "nat \<Rightarrow> (parent_locator \<Rightarrow> parent_locator) \<Rightarrow> vhd_dir \<Rightarrow> vhd_dir" where
  "vd_update_locator i f d =
     d\<lparr>vd_header := map_option (\<lambda>h. h\<lparr>parentLocatorEntry :=
       (parentLocatorEntry h)[i := f (parentLocatorEntry h ! i)]\<rparr>) (vd_header d)\<rparr>"

definition vd_writeParentLocatorData :: "nat \<Rightarrow> buffer \<Rightarrow> vhd_dir \<Rightarrow> js_error + vhd_dir" where
  "vd_writeParentLocatorData i data d =
     res_bind (writeChunk (LocatorChunk i) data d) (\<lambda>d.
     res_bind (vd_theHeader d) (\<lambda>_.
     Inr (vd_update_locator i (\<lambda>e. e\<lparr>platformDataOffset := 0\<rparr>) d)))"

section \<open>The two views of a directory\<close>

definition dir_view :: "vhd_header \<Rightarrow> vhd_dir \<Rightarrow> vhd_view" where
  "dir_view h d = \<lparr>
     v_header = h,
     v_footer = vd_footer d,
     v_contains = vd_containsBlock d,
     v_read = vd_readBlock d,
     v_locatorData = (\<lambda>_. vd_readParentLocatorData d)\<rparr>"

definition dir_writer :: "vhd_dir vhd_writer" where
  "dir_writer = \<lparr>
     w_header = (\<lambda>d. the (vd_header d)),
     w_contains = (\<lambda>i d. vd_containsBlock d i),
     w_writeEntireBlock = vd_writeEntireBlock,
     w_writeParentLocatorData = vd_writeParentLocatorData,
     w_update_locator = vd_update_locator\<rparr>"

section \<open>Merging a block\<close>

text \<open>
  What the method asks of the child: another VHD directory of the same handler (then the files are
  those of the parent's handler), or anything else, seen through its view.
\<close>

datatype merge_child =
    SameHandlerDirectory string string vhd_view
  | OtherChild vhd_view

definition child_view :: "merge_child \<Rightarrow> vhd_view" where
  "child_view child = (case child of SameHandlerDirectory _ _ v \<Rightarrow> v | OtherChild v \<Rightarrow> v)"

text \<open>
  \<open>handler.getSizeOnDisk\<close> is a parameter: the space a file of some content takes. An ENOENT can only
  come from the calls before the rename or from the rename itself, so the handler is unchanged when the
  resuming branch is taken.
\<close>

definition dir_fileSize :: "(buffer \<Rightarrow> int) \<Rightarrow> nat \<Rightarrow> vhd_dir \<Rightarrow> js_error + int" where
  "dir_fileSize onDisk blockId d =
     (case vd_files d (vd_path d, getBlockPath blockId) of
        None \<Rightarrow> Inl (Errno ''ENOENT'') | Some b \<Rightarrow> Inr (onDisk b))"

definition dir_rename :: "string \<Rightarrow> nat \<Rightarrow> vhd_dir \<Rightarrow> js_error + vhd_dir" where
  "dir_rename childPath blockId d =
     (let src = (childPath, getBlockPath blockId)
      in case vd_files d src of
           None \<Rightarrow> Inl (Errno ''ENOENT'')
         | Some b \<Rightarrow> Inr (d\<lparr>vd_files := (vd_files d)(src := None, (vd_path d, getBlockPath blockId) := Some b)\<rparr>))"

definition vd_mergeBlock ::
  "(buffer \<Rightarrow> int) \<Rightarrow> merge_child \<Rightarrow> nat \<Rightarrow> bool \<Rightarrow> vhd_dir \<Rightarrow> js_error + (int \<times> vhd_dir)" where
  "vd_mergeBlock onDisk child blockId isResumingMerge d =
     (case child of
        OtherChild v \<Rightarrow>
          res_bind (abs_mergeBlock dir_writer v blockId d) (\<lambda>(n, d). Inr (int n, d))
      | SameHandlerDirectory childPath childCompression v \<Rightarrow>
          if childCompression \<noteq> comp_id (vd_compressor d)
          then res_bind (abs_mergeBlock dir_writer v blockId d) (\<lambda>(n, d). Inr (int n, d))
          else
            let attempt =
              res_bind (vd_containsBlock d blockId) (\<lambda>blockExists.
              res_bind (if blockExists then dir_fileSize onDisk blockId d else Inr 0) (\<lambda>initialSize.
              res_bind (dir_rename childPath blockId d) (\<lambda>d.
              if blockExists then Inr (initialSize, d)
              else res_bind (mark_block blockId d) (\<lambda>d.
                   res_bind (vd_writeBlockAllocationTable [] d) (\<lambda>d. Inr (initialSize, d))))));
            recovered =
              (case attempt of
                 Inr r \<Rightarrow> Inr r
               | Inl e \<Rightarrow>
                   if e = Errno ''ENOENT'' \<and> isResumingMerge then
                     res_bind (vd_readBlock d blockId False) (\<lambda>b.
                     res_bind (vd_theHeader d) (\<lambda>h.
                     res_bind (js_assert (length (blk_data b) = blockSize h)) (\<lambda>_.
                     Inr (case vd_containsBlock d blockId of
                            Inr True \<Rightarrow> (case dir_fileSize onDisk blockId d of Inr n \<Rightarrow> n | Inl _ \<Rightarrow> 0)
                          | _ \<Rightarrow> 0, d))))
                   else Inl e)
            in res_bind recovered (\<lambda>(initialSize, d).
               res_bind (mark_block blockId d) (\<lambda>d.
               res_bind (dir_fileSize onDisk blockId d) (\<lambda>n. Inr (n - initialSize, d)))))"

section \<open>A VHD directory is a store\<close>

text \<open>A codec that loses nothing on the buffers a VHD directory gives it.\<close>

definition lossless :: "compressor \<Rightarrow> bool" where
  "lossless c \<longleftrightarrow> (\<forall>b. length b < 2 ^ 32 \<longrightarrow> (\<exists>z. compress c b = Inr z \<and> decompress c z = Inr b))"

lemma lossless_none: "lossless NULL_COMPRESSOR"
  by (simp add: lossless_def NULL_COMPRESSOR_def)

lemma lossless_zeros:
  assumes "\<And>n. length (allocUnsafe n) = n"
  shows "lossless (zeros_compressor allocUnsafe)"
  unfolding lossless_def
proof (intro allI impI)
  fix b :: buffer
  assume "length b < 2 ^ 32"
  then have small: "length (concat [b]) \<le> 0xffffffff" by simp
  obtain h rest where out: "removeZeroPages [b] = Inr (h # rest)" by (rule removeZeroPages_spec [OF small])
  from restoreZeroPages_removed [OF out assms] out
  show "\<exists>z. compress (zeros_compressor allocUnsafe) b = Inr z \<and> decompress (zeros_compressor allocUnsafe) z = Inr b"
    by (simp add: zeros_compressor_def)
qed

lemma getBlockPath_inj: "getBlockPath a = getBlockPath b \<longleftrightarrow> a = b"
proof -
  have "x - x div 1000 * 1000 = x mod 1000" for x :: nat by (simp add: minus_div_mult_eq_mod)
  then show ?thesis by (auto simp: getBlockPath_def Let_def) (metis div_mult_mod_eq)
qed

definition dir_header :: "vhd_dir \<Rightarrow> vhd_header" where
  "dir_header d = the (vd_header d)"

definition dir_inv :: "vhd_dir \<Rightarrow> bool" where
  "dir_inv d \<longleftrightarrow>
     lossless (vd_compressor d) \<and> vd_flags d \<in> {''r+'', ''w''} \<and>
     (\<exists>h t. vd_header d = Some h \<and> vd_blockTable d = Some t \<and>
        fullBlockSize h < 2 ^ 32 \<and> maxTableEntries h \<le> 8 * length t \<and>
        (\<forall>i. bitmap_test t i \<longrightarrow> (\<exists>b. readChunk d (getBlockPath i) = Inr b \<and> length b = fullBlockSize h)))"

definition dir_blocks :: "vhd_dir \<Rightarrow> nat \<Rightarrow> buffer option" where
  "dir_blocks d i =
     (case vd_blockTable d of None \<Rightarrow> None | Some t \<Rightarrow>
        if bitmap_test t i then (case readChunk d (getBlockPath i) of Inr b \<Rightarrow> Some b | Inl _ \<Rightarrow> None) else None)"

lemma dir_contains:
  assumes "dir_inv d"
  shows "vd_containsBlock d k = Inr (dir_blocks d k \<noteq> None)"
proof -
  from assms obtain h t where t: "vd_blockTable d = Some t"
    "\<forall>i. bitmap_test t i \<longrightarrow> (\<exists>b. readChunk d (getBlockPath i) = Inr b \<and> length b = fullBlockSize h)"
    unfolding dir_inv_def by blast
  show ?thesis
    using t(1) t(2) [rule_format, of k] by (auto simp: vd_containsBlock_def vd_table_def dir_blocks_def)
qed

lemma dir_write:
  assumes inv: "dir_inv d" and k: "k < maxTableEntries (dir_header d)" and len: "length b = fullBlockSize (dir_header d)"
  shows "\<exists>d'. vd_writeEntireBlock k b d = Inr d' \<and> dir_inv d' \<and> dir_header d' = dir_header d \<and>
    dir_blocks d' = (dir_blocks d)(k \<mapsto> b)"
proof -
  from inv obtain h t where lc: "lossless (vd_compressor d)" and fl: "vd_flags d \<in> {''r+'', ''w''}"
    and ht: "vd_header d = Some h" "vd_blockTable d = Some t" and small: "fullBlockSize h < 2 ^ 32"
    and room: "maxTableEntries h \<le> 8 * length t"
    and blocks: "\<And>i. bitmap_test t i \<Longrightarrow> \<exists>b. readChunk d (getBlockPath i) = Inr b \<and> length b = fullBlockSize h"
    unfolding dir_inv_def by blast
  have h: "dir_header d = h" by (simp add: dir_header_def ht)
  obtain z where z: "compress (vd_compressor d) b = Inr z" "decompress (vd_compressor d) z = Inr b"
    using lc small len h unfolding lossless_def by metis
  define d' where "d' = d\<lparr>vd_files := (vd_files d)((vd_path d, getBlockPath k) \<mapsto> z),
    vd_blockTable := Some (bitmap_set t k)\<rparr>"
  have eq: "vd_writeEntireBlock k b d = Inr d'"
    using fl len h z(1)
    by (auto simp: vd_writeEntireBlock_def vd_theHeader_def ht writeChunk_def outputChunk_def mark_block_def
        vd_table_def d'_def)
  have read: "readChunk d' (getBlockPath i) = (if i = k then Inr b else readChunk d (getBlockPath i))" for i
    using z(2) by (simp add: readChunk_def d'_def getBlockPath_inj split: option.split)
  have "k div 8 < length t" using k room h by simp
  note test = bitmap_test_set [OF this]
  have "dir_inv d'"
    unfolding dir_inv_def
  proof (intro conjI exI)
    show "lossless (vd_compressor d')" "vd_flags d' \<in> {''r+'', ''w''}" using lc fl by (simp_all add: d'_def)
    show "vd_header d' = Some h" "vd_blockTable d' = Some (bitmap_set t k)" by (simp_all add: d'_def ht)
    show "fullBlockSize h < 2 ^ 32" by (rule small)
    show "maxTableEntries h \<le> 8 * length (bitmap_set t k)" using room by simp
    show "\<forall>i. bitmap_test (bitmap_set t k) i \<longrightarrow> (\<exists>b. readChunk d' (getBlockPath i) = Inr b \<and> length b = fullBlockSize h)"
      using blocks len h by (auto simp: test read)
  qed
  moreover have tbl: "vd_blockTable d' = Some (bitmap_set t k)" by (simp add: d'_def)
  have "dir_blocks d' = (dir_blocks d)(k \<mapsto> b)"
  proof
    fix i
    show "dir_blocks d' i = ((dir_blocks d)(k \<mapsto> b)) i"
      using read [of i] by (cases "i = k") (simp_all add: dir_blocks_def tbl ht test)
  qed
  ultimately show ?thesis using eq h by (intro exI [of _ d']) (simp add: dir_header_def d'_def ht)
qed

text \<open>A directory never lacks room: \<open>n\<close> blocks can always be written.\<close>

interpretation dir_store: vhd_store dir_inv "\<lambda>d. maxTableEntries (dir_header d)"
  "\<lambda>d. fullBlockSize (dir_header d)" "\<lambda>_. n" dir_blocks "\<lambda>i d. vd_containsBlock d i" vd_writeEntireBlock
  for n :: nat
proof (unfold_locales, goal_cases)
  case (1 d k)
  then show ?case by (rule dir_contains)
next
  case (2 d k b)
  from dir_write [OF 2(1-3)] show ?case by auto
qed

end
