(* ===== verification/Vhd_Chain.thy ===== *)
theory Vhd_Chain
  imports Vhd_Directory
begin

text \<open>
  VHDs computed from others: \<open>VhdSynthetic\<close>, the view of a chain of VHDs as one
  (\<open>packages/vhd-lib/Vhd/VhdSynthetic.js\<close>), and \<open>VhdNegative\<close>, the VHD that reverts a child to its
  parent (\<open>packages/vhd-lib/Vhd/VhdNegative.js\<close>). Both only read: they are functions on \<open>vhd_view\<close>s.
\<close>

section \<open>VhdSynthetic\<close>

text \<open>The chain \<open>vhds\<close> starts at the oldest VHD, the root, and ends at the most recent one.\<close>

definition syn_header :: "vhd_view list \<Rightarrow> vhd_header" where
  "syn_header vhds =
     (let vhd = v_header (last vhds); rootVhd = v_header (hd vhds)
      in vhd\<lparr>parentLocatorEntry := parentLocatorEntry rootVhd,
             tableOffset := FOOTER_SIZE + HEADER_SIZE,
             parentTimestamp := parentTimestamp rootVhd,
             parentUnicodeName := parentUnicodeName rootVhd,
             parentUuid := parentUuid rootVhd\<rparr>)"

definition syn_footer :: "vhd_view list \<Rightarrow> vhd_footer" where
  "syn_footer vhds =
     (v_footer (last vhds))\<lparr>f_dataOffset := Some FOOTER_SIZE, diskType := diskType (v_footer (hd vhds))\<rparr>"

definition syn_compressionType :: "string option list \<Rightarrow> string option" where
  "syn_compressionType types =
     (if \<forall>t \<in> set types. t = hd types then hd types else Some ''MIXED'')"

text \<open>\<open>Array.prototype.some\<close> with a predicate that may throw.\<close>

fun syn_contains :: "vhd_view list \<Rightarrow> nat \<Rightarrow> js_error + bool" where
  "syn_contains [] blockId = Inr False"
| "syn_contains (v # vs) blockId =
     res_bind (v_contains v blockId) (\<lambda>c. if c then Inr True else syn_contains vs blockId)"

text \<open>The search of \<open>#getVhdWithBlock\<close>, on the chain from its end.\<close>

fun find_with_block :: "vhd_view list \<Rightarrow> nat \<Rightarrow> js_error + vhd_view" where
  "find_with_block [] blockId = Inl AssertionError"
| "find_with_block (v # vs) blockId =
     res_bind (v_contains v blockId) (\<lambda>c. if c then Inr v else find_with_block vs blockId)"

definition getVhdWithBlock :: "vhd_view list \<Rightarrow> nat \<Rightarrow> js_error + vhd_view" where
  "getVhdWithBlock vhds blockId = find_with_block (rev vhds) blockId"

definition syn_readBlock :: "vhd_view list \<Rightarrow> nat \<Rightarrow> bool \<Rightarrow> js_error + vhd_block" where
  "syn_readBlock vhds blockId onlyBitmap =
     res_bind (getVhdWithBlock vhds blockId) (\<lambda>v. v_read v blockId onlyBitmap)"

text \<open>
  The header the getter builds is a copy, so the last VHD reads its locator with its own entries.
\<close>

definition syn_locatorData :: "vhd_view list \<Rightarrow> nat \<Rightarrow> js_error + buffer" where
  "syn_locatorData vhds i = v_locatorData (last vhds) (parentLocatorEntry (v_header (last vhds))) i"

text \<open>The checks of \<open>readHeaderAndFooter\<close>, and the constructor's.\<close>

fun check_chain :: "vhd_view list \<Rightarrow> js_error + unit" where
  "check_chain (parent # child # vhds) =
     res_bind (js_assert (diskType (v_footer child) = DISK_TYPE_DIFFERENCING)) (\<lambda>_.
     res_bind (js_assert (parentUuid (v_header child) = uuid (v_footer parent))) (\<lambda>_.
     check_chain (child # vhds)))"
| "check_chain _ = Inr ()"

definition syn_view :: "vhd_view list \<Rightarrow> vhd_view" where
  "syn_view vhds = \<lparr>
     v_header = syn_header vhds,
     v_footer = syn_footer vhds,
     v_contains = syn_contains vhds,
     v_read = syn_readBlock vhds,
     v_locatorData = (\<lambda>_. syn_locatorData vhds)\<rparr>"

definition VhdSynthetic :: "vhd_view list \<Rightarrow> js_error + vhd_view" where
  "VhdSynthetic vhds =
     res_bind (js_assert (vhds \<noteq> [])) (\<lambda>_.
     res_bind (check_chain vhds) (\<lambda>_. Inr (syn_view vhds)))"

text \<open>
  \<open>VhdSynthetic.open\<close>: the VHDs of a list of paths. \<open>openVhd\<close> and the resolution of a relative path
  are arguments.
\<close>

definition syn_open :: "('p \<Rightarrow> js_error + vhd_view) \<Rightarrow> 'p list \<Rightarrow> js_error + vhd_view" where
  "syn_open openVhd paths = res_bind (res_map openVhd paths) VhdSynthetic"

text \<open>
  The loop of \<open>fromVhdChain\<close>, which follows the parents up to a dynamic disk or \<open>until\<close>. It does not
  return on a cycle of parents: \<open>None\<close>.
\<close>

partial_function (option) chain_from ::
  "('p \<Rightarrow> js_error + vhd_view) \<Rightarrow> ('p \<Rightarrow> string \<Rightarrow> 'p) \<Rightarrow> 'p option \<Rightarrow> 'p \<Rightarrow> vhd_view list \<Rightarrow>
     (js_error + vhd_view list \<times> 'p) option" where
  "chain_from openVhd resolve until vhdPath vhds =
     (case openVhd vhdPath of
        Inl e \<Rightarrow> Some (Inl e)
      | Inr vhd \<Rightarrow>
          let vhds = vhd # vhds; vhdPath = resolve vhdPath (parentUnicodeName (v_header vhd))
          in if diskType (v_footer vhd) \<noteq> DISK_TYPE_DYNAMIC \<and> Some vhdPath \<noteq> until
             then chain_from openVhd resolve until vhdPath vhds
             else Some (Inr (vhds, vhdPath)))"

definition fromVhdChain ::
  "('p \<Rightarrow> js_error + vhd_view) \<Rightarrow> ('p \<Rightarrow> string \<Rightarrow> 'p) \<Rightarrow> 'p option \<Rightarrow> 'p \<Rightarrow> (js_error + vhd_view) option" where
  "fromVhdChain openVhd resolve until childPath =
     (case chain_from openVhd resolve until childPath [] of
        None \<Rightarrow> None
      | Some r \<Rightarrow> Some (res_bind r (\<lambda>(vhds, vhdPath).
          if until \<noteq> None \<and> Some vhdPath \<noteq> until then Inl (JsError ''Did not find until as a parent'')
          else VhdSynthetic vhds)))"

section \<open>VhdNegative\<close>

definition neg_header :: "vhd_view \<Rightarrow> vhd_view \<Rightarrow> vhd_header" where
  "neg_header parent child = (v_header parent)\<lparr>parentUuid := uuid (v_footer child)\<rparr>"

definition neg_footer :: "vhd_view \<Rightarrow> vhd_footer" where
  "neg_footer parent = (v_footer parent)\<lparr>diskType := DISK_TYPE_DIFFERENCING\<rparr>"

definition neg_readBlock :: "vhd_view \<Rightarrow> nat \<Rightarrow> bool \<Rightarrow> js_error + vhd_block" where
  "neg_readBlock parent blockId onlyBitmap =
     res_bind (v_contains parent blockId) (\<lambda>c.
     if c then v_read parent blockId onlyBitmap
     else
       let bitmap = replicate (computeBlockBitmapSize (blockSize (v_header parent))) 255;
           data = replicate (blockSize (v_header parent)) 0
       in Inr (FullBlock blockId bitmap data (bitmap @ data)))"

definition neg_view :: "vhd_view \<Rightarrow> vhd_view \<Rightarrow> vhd_view" where
  "neg_view parent child = \<lparr>
     v_header = neg_header parent child,
     v_footer = neg_footer parent,
     v_contains = v_contains child,
     v_read = neg_readBlock parent,
     v_locatorData = (\<lambda>_ i. v_locatorData parent (parentLocatorEntry (v_header parent)) i)\<rparr>"

definition VhdNegative :: "vhd_view \<Rightarrow> vhd_view \<Rightarrow> js_error + vhd_view" where
  "VhdNegative parent child =
     res_bind (js_assert (parentUuid (v_header child) = uuid (v_footer parent))) (\<lambda>_.
     res_bind (js_assert (diskType (v_footer child) = DISK_TYPE_DIFFERENCING)) (\<lambda>_.
     res_bind (js_assert (currentSize (v_footer child) = currentSize (v_footer parent))) (\<lambda>_.
     Inr (neg_view parent child))))"

section \<open>The disk a view shows\<close>

text \<open>The block a view shows at a position, when it does not fail.\<close>

definition view_block :: "vhd_view \<Rightarrow> nat \<Rightarrow> vhd_block option" where
  "view_block v i = (case v_contains v i of
     Inr True \<Rightarrow> (case v_read v i False of Inr b \<Rightarrow> Some b | Inl _ \<Rightarrow> None) | _ \<Rightarrow> None)"

text \<open>A view on which no read fails, and where the blocks a VHD contains can be read.\<close>

definition readable :: "vhd_view \<Rightarrow> bool" where
  "readable v \<longleftrightarrow> (\<forall>i. v_contains v i = Inr (view_block v i \<noteq> None)) \<and>
     (\<forall>i b. view_block v i = Some b \<longrightarrow> v_read v i False = Inr b \<and> blk_id b = i)"

text \<open>The data of the disk: a block no VHD of the chain has is full of zeros.\<close>

definition disk_data :: "nat \<Rightarrow> (nat \<Rightarrow> vhd_block option) \<Rightarrow> nat \<Rightarrow> buffer" where
  "disk_data bSize blocks i = (case blocks i of None \<Rightarrow> replicate bSize 0 | Some b \<Rightarrow> blk_data b)"

text \<open>What the chain as a whole shows: the blocks of the later VHDs over those of the earlier ones.\<close>

definition chain_blocks :: "vhd_view list \<Rightarrow> nat \<Rightarrow> vhd_block option" where
  "chain_blocks vhds = fold (\<lambda>v m. m ++ view_block v) vhds Map.empty"

lemma chain_blocks_snoc: "chain_blocks (vs @ [v]) = chain_blocks vs ++ view_block v"
  by (simp add: chain_blocks_def)

lemma view_block_readable:
  "readable v \<Longrightarrow> v_contains v i = Inr (view_block v i \<noteq> None)"
  "readable v \<Longrightarrow> view_block v i = Some b \<Longrightarrow> v_read v i False = Inr b"
  "readable v \<Longrightarrow> view_block v i = Some b \<Longrightarrow> blk_id b = i"
  by (simp_all add: readable_def)

lemma fold_map_add: "fold (\<lambda>v m. m ++ f v) vs m = m ++ fold (\<lambda>v m. m ++ f v) vs Map.empty"
proof (induction vs arbitrary: m)
  case (Cons v vs)
  show ?case
    using Cons [of "m ++ f v"] Cons [of "f v"] by (simp add: map_add_assoc)
qed simp

lemma chain_blocks_Cons: "chain_blocks (v # vs) = view_block v ++ chain_blocks vs"
  using fold_map_add [of view_block vs "view_block v"] by (simp add: chain_blocks_def)

lemma syn_contains_eq:
  "\<forall>v \<in> set vs. readable v \<Longrightarrow> syn_contains vs i = Inr (chain_blocks vs i \<noteq> None)"
proof (induction vs)
  case Nil
  then show ?case by (simp add: chain_blocks_def)
next
  case (Cons v vs)
  then show ?case
    by (auto simp: chain_blocks_Cons view_block_readable(1) map_add_def split: option.split)
qed

lemma syn_readBlock_eq:
  "\<forall>v \<in> set vs. readable v \<Longrightarrow>
   syn_readBlock vs i False = (case chain_blocks vs i of None \<Rightarrow> Inl AssertionError | Some b \<Rightarrow> Inr b)"
proof (induction vs rule: rev_induct)
  case Nil
  then show ?case by (simp add: syn_readBlock_def getVhdWithBlock_def chain_blocks_def)
next
  case (snoc v vs)
  then have v: "readable v"
    and rest: "res_bind (find_with_block (rev vs) i) (\<lambda>v. v_read v i False) =
      (case chain_blocks vs i of None \<Rightarrow> Inl AssertionError | Some b \<Rightarrow> Inr b)"
    by (simp_all add: syn_readBlock_def getVhdWithBlock_def)
  show ?case
    using rest view_block_readable(1) [OF v, of i] view_block_readable(2) [OF v, of i]
    by (auto simp: syn_readBlock_def getVhdWithBlock_def chain_blocks_snoc map_add_def split: option.split)
qed

lemma syn_view_blocks:
  assumes "\<forall>v \<in> set vs. readable v"
  shows "view_block (syn_view vs) = chain_blocks vs" "readable (syn_view vs)"
proof -
  show eq: "view_block (syn_view vs) = chain_blocks vs"
  proof
    fix i
    show "view_block (syn_view vs) i = chain_blocks vs i"
      using syn_contains_eq [OF assms, of i] syn_readBlock_eq [OF assms, of i]
      by (cases "chain_blocks vs i") (simp_all add: view_block_def syn_view_def)
  qed
  have ids: "\<forall>v \<in> set ws. readable v \<Longrightarrow> chain_blocks ws i = Some b \<Longrightarrow> blk_id b = i" for ws i b
  proof (induction ws rule: rev_induct)
    case (snoc v ws)
    then show ?case
      using view_block_readable(3) [of v i b] by (auto simp: chain_blocks_snoc map_add_Some_iff)
  qed (simp add: chain_blocks_def)
  show "readable (syn_view vs)"
    unfolding readable_def eq
    using syn_contains_eq [OF assms] syn_readBlock_eq [OF assms] ids [OF assms] by (simp add: syn_view_def)
qed

lemma neg_view_blocks:
  assumes "readable p" "readable c"
  shows "view_block (neg_view p c) i =
    (if view_block c i = None then None
     else case view_block p i of Some b \<Rightarrow> Some b
       | None \<Rightarrow> Some (let m = replicate (computeBlockBitmapSize (blockSize (v_header p))) 255;
             d = replicate (blockSize (v_header p)) 0 in FullBlock i m d (m @ d)))"
proof -
  have sel: "v_contains (neg_view p c) = v_contains c" "v_read (neg_view p c) = neg_readBlock p"
    by (simp_all add: neg_view_def)
  show ?thesis
    unfolding view_block_def [of "neg_view p c"] sel neg_readBlock_def Let_def
    using assms view_block_readable(1) [of p i] view_block_readable(1) [of c i] view_block_readable(2) [of p i]
    by (auto split: option.splits)
qed

lemma neg_reverts:
  assumes "readable p" "readable c"
  shows "disk_data (blockSize (v_header p)) (view_block p ++ view_block c ++ view_block (neg_view p c)) =
    disk_data (blockSize (v_header p)) (view_block p)"
proof
  fix i
  show "disk_data (blockSize (v_header p)) (view_block p ++ view_block c ++ view_block (neg_view p c)) i =
    disk_data (blockSize (v_header p)) (view_block p) i"
    by (auto simp: disk_data_def map_add_def neg_view_blocks [OF assms] Let_def split: option.split)
qed

text \<open>A chain where every parent comes from a strictly smaller path is finite: the loop returns.\<close>

lemma chain_from_returns:
  fixes rank :: "'p \<Rightarrow> nat"
  assumes "\<And>p v. openVhd p = Inr v \<Longrightarrow> diskType (v_footer v) \<noteq> DISK_TYPE_DYNAMIC \<Longrightarrow>
      rank (resolve p (parentUnicodeName (v_header v))) < rank p"
  shows "\<exists>r. chain_from openVhd resolve until p vs = Some r"
proof (induction "rank p" arbitrary: p vs rule: less_induct)
  case less
  show ?case
  proof (cases "openVhd p")
    case (Inl e)
    then show ?thesis by (subst chain_from.simps) simp
  next
    case (Inr v)
    show ?thesis
    proof (cases "diskType (v_footer v) \<noteq> DISK_TYPE_DYNAMIC \<and>
        Some (resolve p (parentUnicodeName (v_header v))) \<noteq> until")
      case True
      then have "rank (resolve p (parentUnicodeName (v_header v))) < rank p" using assms Inr by simp
      from less [OF this] True Inr show ?thesis by (subst chain_from.simps) (simp add: Let_def)
    next
      case False
      then show ?thesis using Inr by (subst chain_from.simps) (auto simp: Let_def)
    qed
  qed
qed

section \<open>Files and directories as views\<close>

text \<open>What a file or a directory shows is readable, and it is the bytes their invariants speak of.\<close>

lemma view_headers [simp]:
  "v_header (file_view s) = vf_header s" "v_footer (file_view s) = vf_footer s"
  "v_header (dir_view h d) = h" "v_footer (dir_view h d) = vd_footer d"
  by (simp_all add: file_view_def dir_view_def)

lemma file_view_blocks:
  assumes "vf_inv s"
  shows "view_block (file_view s) i = map_option (\<lambda>b. mk_block (vf_header s) i b False) (file_blocks s i)"
  using assms by (simp add: view_block_def file_view_def containsBlock_eq readBlock_eq file_blocks_def)

lemma file_view_readable: "vf_inv s \<Longrightarrow> readable (file_view s)"
  unfolding readable_def file_view_blocks
  by (auto simp: file_view_def containsBlock_eq readBlock_eq file_blocks_def mk_block_def)

lemma dir_readBlock:
  assumes inv: "dir_inv d" and b: "dir_blocks d i = Some b"
  shows "vd_readBlock d i False = Inr (mk_block (dir_header d) i b False)"
proof -
  obtain h t where h: "vd_header d = Some h" and t: "vd_blockTable d = Some t"
      and chunk: "\<forall>i. bitmap_test t i \<longrightarrow> (\<exists>b. readChunk d (getBlockPath i) = Inr b \<and> length b = fullBlockSize h)"
    using inv by (auto simp: dir_inv_def)
  then have "readChunk d (getBlockPath i) = Inr b" "length b = fullBlockSize h"
    using b by (auto simp: dir_blocks_def split: if_splits sum.splits)
  then show ?thesis
    by (simp add: vd_readBlock_def vd_theHeader_def h dir_header_def mk_block_def js_assert_def)
qed

lemma dir_view_blocks:
  assumes "dir_inv d"
  shows "view_block (dir_view h d) i = map_option (\<lambda>b. mk_block (dir_header d) i b False) (dir_blocks d i)"
  using assms dir_readBlock [OF assms]
  by (cases "dir_blocks d i") (simp_all add: view_block_def dir_view_def dir_contains)

lemma dir_view_readable: "dir_inv d \<Longrightarrow> readable (dir_view h d)"
  unfolding readable_def dir_view_blocks
  by (auto simp: dir_view_def dir_contains dir_readBlock mk_block_def)

end
