(* ===== verification/Posix_Path.thy ===== *)
theory Posix_Path
  imports Prelude
begin

text \<open>
  The part of Node's POSIX \<open>path\<close> that the code uses: \<open>resolve\<close> from the root, \<open>relative\<close>, \<open>dirname\<close> and
  \<open>basename\<close>. A path that is resolved is the list of its segments.
\<close>

section \<open>Paths\<close>

fun split_path :: "string \<Rightarrow> string list" where
  "split_path [] = [[]]"
| "split_path (c # s) =
     (if c = CHR ''/'' then [] # split_path s
      else (case split_path s of [] \<Rightarrow> [[c]] | w # ws \<Rightarrow> (c # w) # ws))"

fun join_path :: "string list \<Rightarrow> string" where
  "join_path [] = []"
| "join_path [w] = w"
| "join_path (w # ws) = w @ CHR ''/'' # join_path ws"

text \<open>The stack of the normalisation: empty and \<open>.\<close> segments are dropped, \<open>..\<close> removes one.\<close>

definition push_segment :: "string \<Rightarrow> string list \<Rightarrow> string list" where
  "push_segment seg st = (if seg = [] \<or> seg = ''.'' then st else if seg = ''..'' then tl st else seg # st)"

definition norm_segments :: "string list \<Rightarrow> string list" where
  "norm_segments segs = rev (fold push_segment segs [])"

definition is_absolute :: "string \<Rightarrow> bool" where
  "is_absolute s \<longleftrightarrow> s \<noteq> [] \<and> hd s = CHR ''/''"

text \<open>The segments of \<open>path.resolve('/', base, path)\<close>.\<close>

definition resolve_segments :: "string \<Rightarrow> string \<Rightarrow> string list" where
  "resolve_segments base p =
     norm_segments (if is_absolute p then split_path p else split_path base @ split_path p)"

definition absolute :: "string list \<Rightarrow> string" where
  "absolute segs = CHR ''/'' # join_path segs"

definition dirname :: "string \<Rightarrow> string" where
  "dirname s =
     (let s' = rev (dropWhile (\<lambda>c. c = CHR ''/'') (rev s))
      in if CHR ''/'' \<notin> set s' then (if is_absolute s then ''/'' else ''.'')
         else let d = rev (tl (dropWhile (\<lambda>c. c \<noteq> CHR ''/'') (rev s'))) in if d = [] then ''/'' else d)"

definition resolveRelativeFromFile :: "string \<Rightarrow> string \<Rightarrow> string" where
  "resolveRelativeFromFile file p =
     (let r = absolute (resolve_segments (dirname file) p) in if is_absolute file then r else tl r)"

text \<open>\<open>path.relative\<close> of two absolute paths, by their segments.\<close>

fun relative_segments :: "string list \<Rightarrow> string list \<Rightarrow> string list" where
  "relative_segments (a # as) (b # bs) =
     (if a = b then relative_segments as bs else ''..'' # replicate (length as) ''..'' @ b # bs)"
| "relative_segments as bs = replicate (length as) ''..'' @ bs"

text \<open>\<open>normalize\<close> of \<open>@xen-orchestra/fs/path\<close>, and \<open>basename\<close>.\<close>

definition normalize :: "string \<Rightarrow> string" where
  "normalize p = absolute (resolve_segments [] p)"

definition basename :: "string \<Rightarrow> string" where
  "basename s = rev (takeWhile (\<lambda>c. c \<noteq> CHR ''/'') (dropWhile (\<lambda>c. c = CHR ''/'') (rev s)))"

section \<open>Normalised paths\<close>

definition plain_segment :: "string \<Rightarrow> bool" where
  "plain_segment s \<longleftrightarrow> s \<noteq> [] \<and> s \<noteq> ''.'' \<and> s \<noteq> ''..'' \<and> CHR ''/'' \<notin> set s"

lemma split_path_segments: "seg \<in> set (split_path s) \<Longrightarrow> CHR ''/'' \<notin> set seg"
proof (induction s arbitrary: seg)
  case (Cons c s)
  then show ?case by (cases "split_path s") (auto split: if_splits)
qed simp

lemma push_segment_plain:
  "\<forall>s \<in> set st. plain_segment s \<Longrightarrow> CHR ''/'' \<notin> set seg \<Longrightarrow> \<forall>s \<in> set (push_segment seg st). plain_segment s"
  by (cases st) (auto simp: push_segment_def plain_segment_def)

lemma fold_push_plain:
  "\<forall>seg \<in> set segs. CHR ''/'' \<notin> set seg \<Longrightarrow> \<forall>s \<in> set st. plain_segment s \<Longrightarrow>
   \<forall>s \<in> set (fold push_segment segs st). plain_segment s"
proof (induction segs arbitrary: st)
  case (Cons seg segs)
  then show ?case using push_segment_plain [of st seg] by simp
qed simp

text \<open>No path leaves the root: what is resolved has no \<open>..\<close> left.\<close>

lemma resolve_plain: "s \<in> set (resolve_segments base p) \<Longrightarrow> plain_segment s"
  using fold_push_plain [of "if is_absolute p then split_path p else split_path base @ split_path p" "[]"]
    split_path_segments
  by (auto simp: resolve_segments_def norm_segments_def split: if_splits)

lemma fold_push_plain_segments:
  "\<forall>s \<in> set segs. plain_segment s \<Longrightarrow> fold push_segment segs st = rev segs @ st"
  by (induction segs arbitrary: st) (auto simp: push_segment_def plain_segment_def)

lemma fold_push_up: "fold push_segment (replicate n ''..'') st = drop n st"
proof (induction n arbitrary: st)
  case (Suc n)
  have "push_segment ''..'' st = tl st" by (simp add: push_segment_def)
  with Suc show ?case by (cases st) simp_all
qed simp

lemma fold_push_ups: "(push_segment ''..'' ^^ length as) (rev as @ st) = st"
  using fold_push_up [of "length as" "rev as @ st"] by (simp add: fold_replicate)

lemma norm_relative:
  "\<forall>s \<in> set as. plain_segment s \<Longrightarrow> \<forall>s \<in> set bs. plain_segment s \<Longrightarrow>
   rev (fold push_segment (relative_segments as bs) (rev as @ st)) = rev st @ bs"
proof (induction as bs arbitrary: st rule: relative_segments.induct)
  case (1 a as b bs)
  show ?case
  proof (cases "a = b")
    case True
    then show ?thesis using 1 by (simp add: "1.IH" [of "a # st"])
  next
    case False
    have up: "fold push_segment (''..'' # replicate (length as) ''..'') (rev (a # as) @ st) = st"
      using fold_push_up [of "Suc (length as)" "rev (a # as) @ st"] by simp
    have "fold push_segment (relative_segments (a # as) (b # bs)) (rev (a # as) @ st) =
        fold push_segment (b # bs) (fold push_segment (''..'' # replicate (length as) ''..'') (rev (a # as) @ st))"
      using False by simp
    also have "\<dots> = rev (b # bs) @ st" unfolding up using 1(3) by (rule fold_push_plain_segments)
    finally show ?thesis by simp
  qed
qed (simp_all add: fold_push_plain_segments fold_push_ups)

section \<open>Splitting and joining\<close>

lemma split_path_ne: "split_path s \<noteq> []"
  by (induction s) (auto split: list.splits)

lemma split_path_word: "CHR ''/'' \<notin> set w \<Longrightarrow> split_path w = [w]"
  by (induction w) auto

lemma split_path_append: "CHR ''/'' \<notin> set w \<Longrightarrow> split_path (w @ CHR ''/'' # s) = w # split_path s"
  by (induction w) auto

lemma split_join:
  "ws \<noteq> [] \<Longrightarrow> \<forall>w \<in> set ws. CHR ''/'' \<notin> set w \<Longrightarrow> split_path (join_path ws) = ws"
  by (induction ws rule: join_path.induct) (auto simp: split_path_word split_path_append)

lemma fold_push_empty: "push_segment [] st = st"
  by (simp add: push_segment_def)

text \<open>The segments of a path that is written from segments.\<close>

lemma norm_join:
  assumes "\<forall>w \<in> set ws. CHR ''/'' \<notin> set w"
  shows "fold push_segment (split_path (join_path ws)) st = fold push_segment ws st"
proof (cases "ws = []")
  case True
  then show ?thesis by (simp add: fold_push_empty)
next
  case False
  with assms show ?thesis by (simp add: split_join)
qed

lemma split_absolute: "split_path (absolute ws) = [] # split_path (join_path ws)"
  by (simp add: absolute_def)

lemma split_absolute_fold:
  "\<forall>w \<in> set ws. plain_segment w \<Longrightarrow> fold push_segment (split_path (absolute ws)) st = rev ws @ st"
  by (simp add: split_absolute fold_push_empty norm_join fold_push_plain_segments plain_segment_def)

lemma resolve_absolute: "\<forall>w \<in> set ws. plain_segment w \<Longrightarrow> resolve_segments base (absolute ws) = ws"
  by (simp add: resolve_segments_def is_absolute_def norm_segments_def split_absolute_fold)
    (simp add: absolute_def)

lemma join_snoc: "join_path (ws @ [w]) = (if ws = [] then w else join_path ws @ CHR ''/'' # w)"
proof (induction ws rule: join_path.induct)
  case (3 w v ws)
  then show ?case by simp
qed simp_all

lemma absolute_snoc: "\<exists>d. absolute (ws @ [w]) = d @ CHR ''/'' # w \<and> (d = [] \<longleftrightarrow> ws = []) \<and> (ws \<noteq> [] \<longrightarrow> d = absolute ws)"
  by (cases "ws = []") (simp_all add: absolute_def join_snoc)

lemma dropWhile_rev_word:
  "CHR ''/'' \<notin> set w \<Longrightarrow> dropWhile (\<lambda>c. c \<noteq> CHR ''/'') (rev w @ CHR ''/'' # rest) = CHR ''/'' # rest"
  by (subst dropWhile_append2) auto

lemma dirname_absolute:
  assumes "plain_segment w"
  shows "dirname (absolute (ws @ [w])) = absolute ws"
proof -
  obtain d where d: "absolute (ws @ [w]) = d @ CHR ''/'' # w" "d = [] \<longleftrightarrow> ws = []" "ws \<noteq> [] \<longrightarrow> d = absolute ws"
    using absolute_snoc by blast
  have w: "w \<noteq> []" "CHR ''/'' \<notin> set w" using assms by (simp_all add: plain_segment_def)
  have "last w \<noteq> CHR ''/''" using w by (metis last_in_set)
  then have "dropWhile (\<lambda>c. c = CHR ''/'') (rev (d @ CHR ''/'' # w)) = rev (d @ CHR ''/'' # w)"
    using w(1) by (cases w rule: rev_cases) simp_all
  then have "dirname (absolute (ws @ [w])) = (if d = [] then ''/'' else d)"
    using dropWhile_rev_word [OF w(2), of "rev d"] by (simp add: dirname_def Let_def d(1))
  then show ?thesis using d(2,3) by (cases "ws = []") (simp_all add: absolute_def)
qed

lemma relative_in:
  "w \<in> set (relative_segments as bs) \<Longrightarrow> w = ''..'' \<or> w \<in> set bs"
  by (induction as bs rule: relative_segments.induct) (auto split: if_splits)

lemma relative_no_slash:
  assumes "\<forall>s \<in> set bs. plain_segment s" "w \<in> set (relative_segments as bs)"
  shows "CHR ''/'' \<notin> set w \<and> w \<noteq> []"
  using relative_in [OF assms(2)]
proof
  assume "w = ''..''"
  then show ?thesis by simp
next
  assume "w \<in> set bs"
  with assms(1) have "plain_segment w" by blast
  then show ?thesis by (simp add: plain_segment_def)
qed

lemma join_relative: "\<forall>w \<in> set ws. CHR ''/'' \<notin> set w \<and> w \<noteq> [] \<Longrightarrow> \<not> is_absolute (join_path ws)"
  by (cases ws rule: join_path.cases) (auto simp: is_absolute_def dest!: hd_in_set)

lemma basename_absolute:
  assumes "plain_segment w"
  shows "basename (absolute (ws @ [w])) = w"
proof -
  obtain d where d: "absolute (ws @ [w]) = d @ CHR ''/'' # w" using absolute_snoc by blast
  have w: "w \<noteq> []" "CHR ''/'' \<notin> set w" using assms by (simp_all add: plain_segment_def)
  have "last w \<noteq> CHR ''/''" using w by (metis last_in_set)
  then have "dropWhile (\<lambda>c. c = CHR ''/'') (rev (d @ CHR ''/'' # w)) = rev w @ CHR ''/'' # rev d"
    using w(1) by (cases w rule: rev_cases) simp_all
  moreover have "takeWhile (\<lambda>c. c \<noteq> CHR ''/'') (rev w @ CHR ''/'' # rev d) = rev w"
    using w(2) by (subst takeWhile_append2) auto
  ultimately show ?thesis by (simp add: basename_def d)
qed

lemma normalize_absolute: "\<forall>w \<in> set ws. plain_segment w \<Longrightarrow> normalize (absolute ws) = absolute ws"
  by (simp add: normalize_def resolve_absolute)

lemma normalize_idem: "normalize (normalize p) = normalize p"
  unfolding normalize_def [of p] by (rule normalize_absolute) (blast intro: resolve_plain)

end
