(* ===== verification/Vhd_Aliases.thy ===== *)
theory Vhd_Aliases
  imports Vhd_Chain Posix_Path
begin

text \<open>
  Aliases of VHDs: small files that hold the relative path of a VHD (\<open>aliases.js\<close>,
  \<open>_resolveRelativeFromFile.js\<close> and the static methods \<open>unlink\<close> and \<open>createAlias\<close> of
  \<open>Vhd/VhdAbstract.js\<close>, in \<open>packages/vhd-lib\<close>), over the part of Node's POSIX \<open>path\<close> of \<open>Posix_Path\<close>.

  A remote is a map from paths to files: an alias with its content, a VHD file or a VHD directory.
\<close>

section \<open>Remotes\<close>

datatype 's remote_entry = AliasFile string | VhdFileEntry 's | VhdDirEntry 's

type_synonym 's remote = "string \<Rightarrow> 's remote_entry option"

definition is_suffix :: "string \<Rightarrow> string \<Rightarrow> bool" where
  "is_suffix suf s \<longleftrightarrow> length suf \<le> length s \<and> drop (length s - length suf) s = suf"

definition isVhdAlias :: "string \<Rightarrow> bool" where
  "isVhdAlias filename = is_suffix ''.alias.vhd'' filename"

definition is_space :: "char \<Rightarrow> bool" where
  "is_space c \<longleftrightarrow> c \<in> set [CHR '' '', CHR 0x09, CHR 0x0A, CHR 0x0B, CHR 0x0C, CHR 0x0D]"

definition js_trim :: "string \<Rightarrow> string" where
  "js_trim s = rev (dropWhile is_space (rev (dropWhile is_space s)))"

text \<open>Reading a file that is a directory fails with EISDIR; a VHD file is larger than any alias.\<close>

definition resolveVhdAlias :: "bool \<Rightarrow> 's remote \<Rightarrow> string \<Rightarrow> js_error + string" where
  "resolveVhdAlias isEncrypted r filename =
     (if \<not> isVhdAlias filename then Inr filename
      else case r filename of
        None \<Rightarrow> Inl (Errno ''ENOENT'')
      | Some (VhdDirEntry _) \<Rightarrow> Inl (Errno ''EISDIR'')
      | Some (VhdFileEntry _) \<Rightarrow> Inl (JsError ''The alias file is too big'')
      | Some (AliasFile content) \<Rightarrow>
          if \<not> isEncrypted \<and> length content > ALIAS_MAX_PATH_LENGTH
          then Inl (JsError ''The alias file is too big'')
          else
            let aliasContent = js_trim content
            in if isVhdAlias aliasContent then Inl (JsError ''Chaining alias is forbidden'')
               else Inr (resolveRelativeFromFile filename aliasContent))"

text \<open>\<open>handler.unlink\<close> ignores a file that does not exist, and \<open>rmtree\<close> deletes a directory.\<close>

definition vhd_unlink :: "bool \<Rightarrow> string \<Rightarrow> 's remote \<Rightarrow> js_error + 's remote" where
  "vhd_unlink isEncrypted p r =
     res_bind (case resolveVhdAlias isEncrypted r p of
         Inl e \<Rightarrow> if e = Errno ''EISDIR'' then Inr p else Inl e
       | Inr resolved \<Rightarrow> Inr resolved) (\<lambda>resolved.
     let r = r(resolved := None) in Inr (if p \<noteq> resolved then r(p := None) else r))"

definition createAlias :: "string \<Rightarrow> string \<Rightarrow> 's remote \<Rightarrow> js_error + 's remote" where
  "createAlias aliasPath targetPath r =
     (if \<not> isVhdAlias aliasPath then Inl (JsError ''Alias must be named *.alias.vhd'')
      else if isVhdAlias targetPath then Inl (JsError ''Chaining alias is forbidden'')
      else
        let aliasDir = resolve_segments [] (dirname (absolute (resolve_segments [] aliasPath)));
            relativePathToTarget = join_path (relative_segments aliasDir (resolve_segments [] targetPath))
        in if length relativePathToTarget > ALIAS_MAX_PATH_LENGTH
           then Inl (JsError ''Alias relative path is too long'')
           else Inr (r(aliasPath := Some (AliasFile relativePathToTarget))))"

section \<open>An alias leads back to its target\<close>

lemma is_suffix_append: "length suf \<le> length w \<Longrightarrow> is_suffix suf (p @ w) \<longleftrightarrow> is_suffix suf w"
proof -
  assume le: "length suf \<le> length w"
  then have "length (p @ w) - length suf = length p + (length w - length suf)" by simp
  then have "drop (length (p @ w) - length suf) (p @ w) = drop (length w - length suf) w" by simp
  with le show ?thesis by (simp add: is_suffix_def)
qed

lemma relative_last:
  "relative_segments as bs = [] \<or> last (relative_segments as bs) = ''..'' \<or>
   (bs \<noteq> [] \<and> last (relative_segments as bs) = last bs)"
  by (induction as bs rule: relative_segments.induct) (auto, metis last_replicate length_0_conv)

lemma suffix_last:
  assumes "ws \<noteq> []" "CHR ''/'' \<notin> set suf"
  shows "is_suffix suf (join_path ws) \<longleftrightarrow> is_suffix suf (last ws)"
proof -
  obtain us w where ws: "ws = us @ [w]" using assms(1) by (cases ws rule: rev_cases) auto
  have "is_suffix suf (d @ CHR ''/'' # w) \<longleftrightarrow> is_suffix suf w" for d
  proof
    assume a: "is_suffix suf (d @ CHR ''/'' # w)"
    show "is_suffix suf w"
    proof (cases "length suf \<le> length w")
      case True
      with a is_suffix_append [of suf w "d @ ''/''"] show ?thesis by simp
    next
      case False
      then have "drop (length (d @ CHR ''/'' # w) - length suf) (d @ CHR ''/'' # w) =
          drop (length (d @ CHR ''/'' # w) - length suf) d @ CHR ''/'' # w"
        by simp
      with a have "suf = drop (length (d @ CHR ''/'' # w) - length suf) d @ CHR ''/'' # w"
        by (metis is_suffix_def)
      then have "CHR ''/'' \<in> set suf" by (metis in_set_conv_decomp)
      with assms(2) show ?thesis by simp
    qed
  next
    assume w: "is_suffix suf w"
    then have "length suf \<le> length w" by (simp add: is_suffix_def)
    with is_suffix_append [of suf w "d @ ''/''"] w show "is_suffix suf (d @ CHR ''/'' # w)" by simp
  qed
  then show ?thesis by (simp add: ws join_snoc)
qed

lemma alias_absolute: "ws \<noteq> [] \<Longrightarrow> isVhdAlias (absolute ws) \<longleftrightarrow> isVhdAlias (last ws)"
proof -
  assume "ws \<noteq> []"
  then have "isVhdAlias (join_path ([] # ws)) \<longleftrightarrow> isVhdAlias (last ([] # ws))"
    unfolding isVhdAlias_def by (intro suffix_last) simp_all
  with \<open>ws \<noteq> []\<close> show ?thesis by (cases ws) (simp_all add: absolute_def)
qed

lemma createAlias_resolve:
  assumes dir: "\<forall>w \<in> set (dir @ [name]). plain_segment w" and target: "\<forall>w \<in> set ts. plain_segment w"
    and c: "createAlias (absolute (dir @ [name])) (absolute ts) r = Inr r'"
    and trim: "js_trim (join_path (relative_segments dir ts)) = join_path (relative_segments dir ts)"
  shows "resolveVhdAlias isEncrypted r' (absolute (dir @ [name])) = Inr (absolute ts)"
proof -
  let ?rel = "join_path (relative_segments dir ts)"
  have dn: "dirname (absolute (dir @ [name])) = absolute dir" using dir by (intro dirname_absolute) simp
  have ra: "resolve_segments [] (absolute (dir @ [name])) = dir @ [name]" by (rule resolve_absolute [OF dir])
  have rt: "resolve_segments [] (absolute ts) = ts" by (rule resolve_absolute [OF target])
  have rd: "resolve_segments b (absolute dir) = dir" for b using dir by (intro resolve_absolute) simp
  have ok: "isVhdAlias (absolute (dir @ [name]))" "\<not> isVhdAlias (absolute ts)" "length ?rel \<le> ALIAS_MAX_PATH_LENGTH"
    and r': "r' = r(absolute (dir @ [name]) \<mapsto> AliasFile ?rel)"
    using c by (simp_all add: createAlias_def ra dn rt rd Let_def split: if_splits)
  have plain: "\<forall>w \<in> set (relative_segments dir ts). CHR ''/'' \<notin> set w \<and> w \<noteq> []"
    using relative_no_slash [OF target] by blast
  have no_alias: "\<not> isVhdAlias ?rel"
  proof (cases "relative_segments dir ts = []")
    case True
    then show ?thesis by (simp add: isVhdAlias_def is_suffix_def)
  next
    case False
    then have "isVhdAlias ?rel \<longleftrightarrow> isVhdAlias (last (relative_segments dir ts))"
      unfolding isVhdAlias_def by (intro suffix_last) simp_all
    moreover have "\<not> isVhdAlias ''..''" by (simp add: isVhdAlias_def is_suffix_def)
    ultimately show ?thesis
      using relative_last [of dir ts] False ok(2) alias_absolute [of ts] by auto
  qed
  have "resolve_segments (absolute dir) ?rel = ts"
    using norm_relative [of dir ts "[]"] join_relative [OF plain] dir target plain
    by (simp add: resolve_segments_def norm_segments_def split_absolute_fold norm_join)
  then have "resolveRelativeFromFile (absolute (dir @ [name])) ?rel = absolute ts"
    by (simp add: resolveRelativeFromFile_def dn Let_def) (simp add: is_absolute_def absolute_def)
  then show ?thesis
    using ok(1,3) no_alias trim by (simp add: resolveVhdAlias_def r' Let_def)
qed

end
