(* ===== verification/Vhd_Merge.thy ===== *)
theory Vhd_Merge
  imports Vhd_Aliases
begin

text \<open>
  \<open>packages/vhd-lib/merge.js\<close>: merging the blocks of a child (or of a chain of children) into its
  ancestor, with a state file that lets an interrupted merge be resumed, then the renaming and the
  removal of what is no longer used.
\<close>

section \<open>The parent of a merge\<close>

record 's merge_parent =
  mp_header :: "'s \<Rightarrow> vhd_header"
  mp_footer :: "'s \<Rightarrow> vhd_footer"
  mp_set_footer :: "vhd_footer \<Rightarrow> 's \<Rightarrow> 's"
  mp_ensureBatSize :: "nat \<Rightarrow> 's \<Rightarrow> js_error + 's"
  mp_mergeBlock :: "nat \<Rightarrow> bool \<Rightarrow> 's \<Rightarrow> js_error + (int \<times> 's)"
  mp_writeBlockAllocationTable :: "'s \<Rightarrow> js_error + 's"
  mp_writeFooter :: "'s \<Rightarrow> js_error + 's"
  mp_vhdSize :: "'s \<Rightarrow> js_error + nat"

text \<open>\<open>getSize\<close> for a file; a directory has none, the size of its stream is taken instead.\<close>

definition file_parent :: "struct_fu \<Rightarrow> vhd_view \<Rightarrow> vhd_file merge_parent" where
  "file_parent fu child = \<lparr>
     mp_header = vf_header,
     mp_footer = vf_footer,
     mp_set_footer = (\<lambda>f s. s\<lparr>vf_footer := f\<rparr>),
     mp_ensureBatSize = ensureBatSize fu,
     mp_mergeBlock = (\<lambda>blockId _ s.
       res_bind (abs_mergeBlock (file_writer fu) child blockId s) (\<lambda>(n, s). Inr (int n, s))),
     mp_writeBlockAllocationTable = writeBlockAllocationTable,
     mp_writeFooter = writeFooter fu False,
     mp_vhdSize = (\<lambda>s. Inr (length (vf_content s)))\<rparr>"

definition dir_parent :: "struct_fu \<Rightarrow> (buffer \<Rightarrow> int) \<Rightarrow> merge_child \<Rightarrow> vhd_dir merge_parent" where
  "dir_parent fu onDisk child = \<lparr>
     mp_header = dir_header,
     mp_footer = vd_footer,
     mp_set_footer = (\<lambda>f d. d\<lparr>vd_footer := f\<rparr>),
     mp_ensureBatSize = vd_ensureBatSize,
     mp_mergeBlock = vd_mergeBlock onDisk child,
     mp_writeBlockAllocationTable = vd_writeBlockAllocationTable [],
     mp_writeFooter = vd_writeFooter fu,
     mp_vhdSize = (\<lambda>d. streamSize (dir_view (dir_header d) d))\<rparr>"

section \<open>Merging the blocks\<close>

record merge_state =
  st_childHeader :: nat
  st_parentHeader :: nat
  st_currentBlock :: nat
  st_mergedDataSize :: int
  st_step :: string
  st_vhdSize :: "nat option"

text \<open>
  The checks of \<open>#openVhds\<close>: along a chain for a new merge, on the checksums of the headers when
  resuming.
\<close>

definition merge_checks :: "merge_state option \<Rightarrow> vhd_header \<Rightarrow> vhd_footer \<Rightarrow> vhd_view \<Rightarrow> js_error + unit" where
  "merge_checks state ph pf child =
     (case state of
        None \<Rightarrow>
          res_bind (js_assert (parentUuid (v_header child) = uuid pf)) (\<lambda>_.
          res_bind (js_assert (diskType pf = DISK_TYPE_DIFFERENCING \<or> diskType pf = DISK_TYPE_DYNAMIC)) (\<lambda>_.
          res_bind (js_assert (diskType (v_footer child) = DISK_TYPE_DIFFERENCING)) (\<lambda>_.
          js_assert (blockSize (v_header child) = blockSize ph))))
      | Some st \<Rightarrow>
          res_bind (js_assert (h_checksum ph = st_parentHeader st)) (\<lambda>_.
          js_assert (h_checksum (v_header child) = st_childHeader st)))"

function first_block :: "vhd_view \<Rightarrow> nat \<Rightarrow> nat \<Rightarrow> js_error + nat" where
  "first_block child n current =
     (if current < n then
        res_bind (v_contains child current) (\<lambda>c. if c then Inr current else first_block child n (current + 1))
      else Inr current)"
  by pat_completeness auto
termination by (relation "measure (\<lambda>(_, n, i). n - i)") auto

declare first_block.simps [simp del]

definition toMerge :: "vhd_view \<Rightarrow> nat \<Rightarrow> js_error + nat list" where
  "toMerge child from =
     res_fold (\<lambda>block acc. res_bind (v_contains child block) (\<lambda>c. Inr (if c then acc @ [block] else acc)))
       [from..<maxTableEntries (v_header child)] []"

text \<open>One block after the other, as for VHD files: \<open>merging\<close> then holds the current block only.\<close>

definition merge_blocks ::
  "'s merge_parent \<Rightarrow> bool \<Rightarrow> nat list \<Rightarrow> merge_state \<times> 's \<Rightarrow> js_error + (merge_state \<times> 's)" where
  "merge_blocks mp isResuming blocks =
     res_fold (\<lambda>blockId (st, s).
       res_bind (mp_mergeBlock mp blockId isResuming s) (\<lambda>(n, s).
       Inr (st\<lparr>st_mergedDataSize := st_mergedDataSize st + n, st_currentBlock := blockId\<rparr>, s))) blocks"

definition step_mergeAllBlocks ::
  "'s merge_parent \<Rightarrow> vhd_view \<Rightarrow> bool \<Rightarrow> merge_state \<times> 's \<Rightarrow> js_error + (merge_state \<times> 's)" where
  "step_mergeAllBlocks mp child isResuming =
     (\<lambda>(st, s).
       res_bind (toMerge child (st_currentBlock st)) (\<lambda>blocks.
       res_bind (merge_blocks mp isResuming blocks (st, s)) (\<lambda>(st, s).
       res_bind (mp_vhdSize mp s) (\<lambda>n. Inr (st\<lparr>st_vhdSize := Some n\<rparr>, s)))))"

definition updateHeaders :: "'s merge_parent \<Rightarrow> vhd_view \<Rightarrow> 's \<Rightarrow> js_error + 's" where
  "updateHeaders mp child s =
     res_bind (mp_writeBlockAllocationTable mp s) (\<lambda>s.
     let cFooter = v_footer child
     in mp_writeFooter mp (mp_set_footer mp ((mp_footer mp s)\<lparr>
          currentSize := currentSize cFooter,
          diskGeometry := diskGeometry cFooter,
          originalSize := originalSize cFooter,
          timestamp := timestamp cFooter,
          uuid := uuid cFooter\<rparr>) s))"

definition step_mergeBlocks ::
  "'s merge_parent \<Rightarrow> vhd_view \<Rightarrow> merge_state option \<Rightarrow> 's \<Rightarrow> js_error + (merge_state \<times> 's)" where
  "step_mergeBlocks mp child state s =
     res_bind (merge_checks state (mp_header mp s) (mp_footer mp s) child) (\<lambda>_.
     res_bind (case state of
         Some st \<Rightarrow> Inr (st, s)
       | None \<Rightarrow>
           res_bind (mp_ensureBatSize mp (maxTableEntries (v_header child)) s) (\<lambda>s.
           res_bind (first_block child (maxTableEntries (v_header child)) 0) (\<lambda>current.
           Inr (\<lparr>st_childHeader = h_checksum (v_header child),
                  st_parentHeader = h_checksum (mp_header mp s),
                  st_currentBlock = current,
                  st_mergedDataSize = 0,
                  st_step = ''mergeBlocks'',
                  st_vhdSize = None\<rparr>, s)))) (\<lambda>(st, s).
     res_bind (step_mergeAllBlocks mp child (state \<noteq> None) (st, s)) (\<lambda>(st, s).
     res_bind (updateHeaders mp child s) (\<lambda>s. Inr (st, s)))))"

section \<open>Cleaning up\<close>

text \<open>
  \<open>#step_cleanVhds\<close> on the remote. The check on an already renamed parent is started but never waited
  for, so it has no effect on the result. The deletions of \<open>asyncMap\<close> all run; the first failure is
  the result.
\<close>

definition remote_rename :: "string \<Rightarrow> string \<Rightarrow> 's remote \<Rightarrow> js_error + 's remote" where
  "remote_rename p q r = (case r p of None \<Rightarrow> Inl (Errno ''ENOENT'') | Some e \<Rightarrow> Inr (r(p := None, q := Some e)))"

definition unlink_quietly :: "bool \<Rightarrow> string \<Rightarrow> 's remote \<Rightarrow> 's remote" where
  "unlink_quietly isEncrypted p r = (case vhd_unlink isEncrypted p r of Inl _ \<Rightarrow> r | Inr r \<Rightarrow> r)"

fun unlink_all :: "bool \<Rightarrow> string list \<Rightarrow> 's remote \<Rightarrow> js_error option \<times> 's remote" where
  "unlink_all isEncrypted [] r = (None, r)"
| "unlink_all isEncrypted (p # ps) r =
     (case vhd_unlink isEncrypted p r of
        Inl e \<Rightarrow> (Some e, snd (unlink_all isEncrypted ps r))
      | Inr r' \<Rightarrow> unlink_all isEncrypted ps r')"

definition step_cleanVhds ::
  "bool \<Rightarrow> bool \<Rightarrow> bool \<Rightarrow> string list \<Rightarrow> 's remote \<Rightarrow> js_error + 's remote" where
  "step_cleanVhds isEncrypted isResuming removeUnused chain r =
     (let parent = hd chain; children = butlast (tl chain); mergeTargetChild = last chain
      in res_bind (if isVhdAlias mergeTargetChild
           then res_bind (resolveVhdAlias isEncrypted r mergeTargetChild) (\<lambda>p. Inr (Some p))
           else Inr None) (\<lambda>oldTarget.
         res_bind (case remote_rename parent mergeTargetChild r of
             Inr r \<Rightarrow> Inr (case oldTarget of None \<Rightarrow> r | Some p \<Rightarrow> unlink_quietly isEncrypted p r)
           | Inl e \<Rightarrow> if e = Errno ''ENOENT'' \<and> isResuming then Inr r else Inl e) (\<lambda>r.
         if removeUnused then
           (case unlink_all isEncrypted children r of (None, r) \<Rightarrow> Inr r | (Some e, _) \<Rightarrow> Inl e)
         else Inr r)))"

section \<open>The merger\<close>

text \<open>
  What the merger needs of the outside: opening the parent and the children of a remote (the blocks
  table is then read) and what the writes of the parent object leave on the remote.
\<close>

record 's merge_env =
  me_openParent :: "bool \<Rightarrow> 's remote \<Rightarrow> string \<Rightarrow> js_error + 's"
  me_openChild :: "'s remote \<Rightarrow> string list \<Rightarrow> js_error + vhd_view"
  me_parent :: "vhd_view \<Rightarrow> 's merge_parent"
  me_isDirectory :: "'s \<Rightarrow> bool"
  me_save :: "string \<Rightarrow> 's \<Rightarrow> 's remote \<Rightarrow> 's remote"

text \<open>
  \<open>state\<close> is what the state file holds (\<open>None\<close> when there is none); the result is the remote, the
  state file removed, the merged size and the final size, or nothing for a step that is not known.
\<close>

definition openVhds :: "'s merge_env \<Rightarrow> bool \<Rightarrow> string list \<Rightarrow> 's remote \<Rightarrow> js_error + ('s \<times> vhd_view)" where
  "openVhds env isNew chain r =
     res_bind (me_openParent env isNew r (hd chain)) (\<lambda>parentVhd.
     res_bind (me_openChild env r (tl chain)) (\<lambda>childVhd.
     if me_isDirectory env parentVhd \<and> \<not> isVhdAlias (hd chain) then Inl (Errno ''NOT_SUPPORTED'')
     else Inr (parentVhd, childVhd)))"

definition merge ::
  "'s merge_env \<Rightarrow> bool \<Rightarrow> bool \<Rightarrow> string list \<Rightarrow> merge_state option \<Rightarrow> 's remote \<Rightarrow>
     js_error + ((int \<times> nat) option \<times> 's remote)" where
  "merge env isEncrypted removeUnused chain state r =
     (let step = (case state of None \<Rightarrow> ''mergeBlocks'' | Some st \<Rightarrow> st_step st)
      in res_bind
           (if step = ''mergeBlocks'' then
              res_bind (openVhds env (state = None) chain r) (\<lambda>(parentVhd, childVhd).
              res_bind (step_mergeBlocks (me_parent env childVhd) childVhd state parentVhd) (\<lambda>(st, s).
              Inr (Some (st, me_save env (hd chain) s r))))
            else if step = ''cleanupVhds'' then Inr (map_option (\<lambda>st. (st, r)) state)
            else Inr None) (\<lambda>merged.
         case merged of
           None \<Rightarrow> Inr (None, r)
         | Some (st, r) \<Rightarrow>
             res_bind (step_cleanVhds isEncrypted (state \<noteq> None) removeUnused chain r) (\<lambda>r.
             Inr (Some (st_mergedDataSize st, case st_vhdSize st of None \<Rightarrow> 0 | Some n \<Rightarrow> n), r))))"

section \<open>Several blocks at a time\<close>

text \<open>
  For directories, \<open>asyncEach\<close> merges up to \<open>concurrency\<close> blocks at a time: a state has the blocks still
  to be started, those in progress, those merged, and the \<open>currentBlock\<close> that a resumed merge starts
  from. A block that ends sets it to the least block in progress, itself included.
\<close>

record merging =
  mg_todo :: "nat list"
  mg_merging :: "nat set"
  mg_merged :: "nat set"
  mg_currentBlock :: nat

inductive merging_step :: "nat \<Rightarrow> merging \<Rightarrow> merging \<Rightarrow> bool" for concurrency where
  start: "mg_todo m = b # bs \<Longrightarrow> card (mg_merging m) < concurrency \<Longrightarrow>
    merging_step concurrency m (m\<lparr>mg_todo := bs, mg_merging := insert b (mg_merging m)\<rparr>)"
| finish: "b \<in> mg_merging m \<Longrightarrow>
    merging_step concurrency m (m\<lparr>mg_merging := mg_merging m - {b}, mg_merged := insert b (mg_merged m),
      mg_currentBlock := Min (mg_merging m)\<rparr>)"

inductive_cases merging_stepE: "merging_step concurrency m m'"

definition merging_start :: "nat list \<Rightarrow> nat \<Rightarrow> merging" where
  "merging_start blocks current =
     \<lparr>mg_todo = blocks, mg_merging = {}, mg_merged = {}, mg_currentBlock = current\<rparr>"

definition merging_inv :: "nat list \<Rightarrow> merging \<Rightarrow> bool" where
  "merging_inv blocks m \<longleftrightarrow>
     finite (mg_merging m) \<and> set blocks = set (mg_todo m) \<union> mg_merging m \<union> mg_merged m \<and>
     sorted (mg_todo m) \<and> (\<forall>a \<in> mg_merging m \<union> mg_merged m. \<forall>b \<in> set (mg_todo m). a \<le> b) \<and>
     (\<forall>b \<in> set blocks. b < mg_currentBlock m \<longrightarrow> b \<in> mg_merged m)"

lemma merging_inv_start:
  "sorted blocks \<Longrightarrow> \<forall>b \<in> set blocks. current \<le> b \<Longrightarrow> merging_inv blocks (merging_start blocks current)"
  by (auto simp: merging_inv_def merging_start_def)

lemma merging_inv_step:
  assumes "merging_inv blocks m" "merging_step concurrency m m'"
  shows "merging_inv blocks m'"
  using assms(2)
proof (cases rule: merging_step.cases)
  case (start b bs)
  with assms(1) show ?thesis by (auto simp: merging_inv_def)
next
  case (finish b)
  let ?min = "Min (mg_merging m)"
  have fin: "finite (mg_merging m)" and ne: "mg_merging m \<noteq> {}"
    using assms(1) finish(2) by (auto simp: merging_inv_def)
  have "c \<in> insert b (mg_merged m)" if c: "c \<in> set blocks" "c < ?min" for c
  proof -
    have "c \<notin> mg_merging m" using c(2) Min_le [OF fin, of c] by auto
    moreover have "c \<notin> set (mg_todo m)"
    proof
      assume "c \<in> set (mg_todo m)"
      then have "?min \<le> c" using assms(1) Min_in [OF fin ne] by (auto simp: merging_inv_def)
      with c(2) show False by simp
    qed
    ultimately show ?thesis using assms(1) c(1) by (auto simp: merging_inv_def)
  qed
  then show ?thesis
    using assms(1) finish by (auto simp: merging_inv_def)
qed

lemma merging_safe:
  assumes "(merging_step concurrency)\<^sup>*\<^sup>* (merging_start blocks current) m"
    "sorted blocks" "\<forall>b \<in> set blocks. current \<le> b"
  shows "merging_inv blocks m"
  using assms(1)
proof (induction rule: rtranclp_induct)
  case base
  show ?case by (rule merging_inv_start [OF assms(2,3)])
next
  case (step m m')
  show ?case by (rule merging_inv_step [OF step(3,2)])
qed

end
