(* ===== verification/Vhd_Merge_Props.thy ===== *)
theory Vhd_Merge_Props
  imports Vhd_Merge
begin

text \<open>
  What a merge promises, for a parent that is a file or a directory: the parent then shows the blocks
  of the child over its own, also when the merge was interrupted and resumed.
\<close>

section \<open>The contract of \<open>mergeBlock\<close>\<close>

text \<open>
  \<open>pending s k\<close>: the block \<open>k\<close> of the child has not been moved away. A block that is no longer pending
  is in the parent, and merging it again when resuming changes nothing.
\<close>

locale vhd_merge =
  fixes inv :: "'s \<Rightarrow> bool"
    and room :: "'s \<Rightarrow> nat"
    and shown :: "'s \<Rightarrow> nat \<Rightarrow> buffer option"
    and accepts :: "'s \<Rightarrow> nat \<Rightarrow> bool"
    and src :: "nat \<Rightarrow> buffer option"
    and pending :: "'s \<Rightarrow> nat \<Rightarrow> bool"
    and merge_op :: "nat \<Rightarrow> bool \<Rightarrow> 's \<Rightarrow> js_error + (int \<times> 's)"
  assumes merge_law: "inv s \<Longrightarrow> accepts s k \<Longrightarrow> src k = Some b \<Longrightarrow> 0 < room s \<Longrightarrow> pending s k \<Longrightarrow>
      \<exists>n s'. merge_op k r s = Inr (n, s') \<and> inv s' \<and> accepts s' = accepts s \<and> room s \<le> Suc (room s') \<and>
        shown s' = (shown s)(k \<mapsto> b) \<and> (\<forall>j. j \<noteq> k \<longrightarrow> pending s j \<longrightarrow> pending s' j)"
    and resume_law: "inv s \<Longrightarrow> accepts s k \<Longrightarrow> src k = Some b \<Longrightarrow> 0 < room s \<Longrightarrow> \<not> pending s k \<Longrightarrow>
      shown s k = Some b \<Longrightarrow>
      \<exists>n s'. merge_op k True s = Inr (n, s') \<and> inv s' \<and> accepts s' = accepts s \<and> room s \<le> Suc (room s') \<and>
        shown s' = shown s \<and> (\<forall>j. j \<noteq> k \<longrightarrow> pending s j \<longrightarrow> pending s' j)"
begin

text \<open>One block, pending or already merged.\<close>

lemma merge_one:
  assumes "inv s" "accepts s k" "src k = Some b" "0 < room s"
    "pending s k \<or> r \<and> shown s k = Some b"
  shows "\<exists>n s'. merge_op k r s = Inr (n, s') \<and> inv s' \<and> accepts s' = accepts s \<and> room s \<le> Suc (room s') \<and>
    shown s' = (shown s)(k \<mapsto> b) \<and> (\<forall>j. j \<noteq> k \<longrightarrow> pending s j \<longrightarrow> pending s' j)"
proof (cases "pending s k")
  case True
  with merge_law [OF assms(1-4)] show ?thesis by simp
next
  case False
  with assms(5) have "r" "shown s k = Some b" by simp_all
  moreover from this have "(shown s)(k \<mapsto> b) = shown s" by auto
  ultimately show ?thesis using resume_law [OF assms(1-4) False] by simp
qed

lemma merge_all:
  assumes "inv s" "length ks \<le> room s" "distinct ks"
    "\<And>k. k \<in> set ks \<Longrightarrow> accepts s k \<and> (\<exists>b. src k = Some b) \<and> (pending s k \<or> r \<and> shown s k = src k)"
  shows "\<exists>st' s'. res_fold (\<lambda>blockId (st, s).
       res_bind (merge_op blockId r s) (\<lambda>(n, s).
       Inr (st\<lparr>st_mergedDataSize := st_mergedDataSize st + n, st_currentBlock := blockId\<rparr>, s))) ks (st, s) =
      Inr (st', s') \<and> inv s' \<and> shown s' = shown s ++ (src |` set ks) \<and> st_step st' = st_step st \<and>
      room s \<le> length ks + room s'"
  using assms
proof (induction ks arbitrary: st s)
  case (Cons k ks)
  obtain b where b: "src k = Some b" using Cons.prems(4) [of k] by auto
  have room: "0 < room s" using Cons.prems(2) by simp
  have k: "accepts s k" "pending s k \<or> r \<and> shown s k = Some b" using Cons.prems(4) [of k] b by auto
  from merge_one [OF Cons.prems(1) k(1) b room k(2)] obtain n s1 where
    s1: "merge_op k r s = Inr (n, s1)" "inv s1" "accepts s1 = accepts s" "room s \<le> Suc (room s1)"
      "shown s1 = (shown s)(k \<mapsto> b)" "\<forall>j. j \<noteq> k \<longrightarrow> pending s j \<longrightarrow> pending s1 j"
    by blast
  let ?st = "st\<lparr>st_mergedDataSize := st_mergedDataSize st + n, st_currentBlock := k\<rparr>"
  have len: "length ks \<le> room s1" and dis: "distinct ks" using s1(4) Cons.prems(2,3) by auto
  have each: "accepts s1 j \<and> (\<exists>b. src j = Some b) \<and> (pending s1 j \<or> r \<and> shown s1 j = src j)"
    if "j \<in> set ks" for j
  proof -
    have "j \<noteq> k" using that Cons.prems(3) by auto
    with Cons.prems(4) [of j] that s1(3,5,6) show ?thesis by auto
  qed
  from Cons.IH [OF s1(2) len dis each, of ?st] obtain st' s' where
    rest: "res_fold (\<lambda>blockId (st, s).
       res_bind (merge_op blockId r s) (\<lambda>(n, s).
       Inr (st\<lparr>st_mergedDataSize := st_mergedDataSize st + n, st_currentBlock := blockId\<rparr>, s))) ks (?st, s1) =
      Inr (st', s')" "inv s'" "shown s' = shown s1 ++ (src |` set ks)" "st_step st' = st_step ?st"
      "room s1 \<le> length ks + room s'"
    by auto
  have "shown s1 ++ (src |` set ks) = shown s ++ (src |` set (k # ks))"
    using Cons.prems(3) b by (auto simp: s1(5) map_add_def restrict_map_def fun_eq_iff split: option.split)
  with rest s1 show ?case by simp
qed simp

end

text \<open>
  A store into which blocks are copied gives the contract: nothing is moved away, every block stays
  pending.
\<close>

locale vhd_copy = vhd_store +
  fixes src :: "nat \<Rightarrow> buffer option"
    and merge_op :: "nat \<Rightarrow> bool \<Rightarrow> 'a \<Rightarrow> js_error + (int \<times> 'a)"
  assumes copy_law: "inv s \<Longrightarrow> src k = Some b \<Longrightarrow> write_op k b s = Inr s' \<Longrightarrow> \<exists>n. merge_op k r s = Inr (n, s')"
begin

definition copy_accepts :: "'a \<Rightarrow> nat \<Rightarrow> bool" where
  "copy_accepts s k \<longleftrightarrow> k < entries s \<and> (\<forall>b. src k = Some b \<longrightarrow> length b = bytes_per_block s)"

end

sublocale vhd_copy \<subseteq> copy: vhd_merge inv room shown copy_accepts src "\<lambda>_ _. True" merge_op
proof (unfold_locales, goal_cases)
  case (1 s k b r)
  then have k: "k < entries s" "length b = bytes_per_block s" by (auto simp: copy_accepts_def)
  from write_law [OF 1(1) k 1(4)] obtain s' where
    s': "write_op k b s = Inr s'" "inv s'" "entries s' = entries s" "bytes_per_block s' = bytes_per_block s"
      "room s \<le> Suc (room s')" "shown s' = (shown s)(k \<mapsto> b)" by blast
  then have "copy_accepts s' = copy_accepts s" by (simp add: copy_accepts_def fun_eq_iff)
  with s' copy_law [OF 1(1,3) s'(1), of r] show ?case by blast
qed simp

section \<open>The blocks to merge\<close>

lemma toMerge_eq:
  assumes "readable v"
  shows "toMerge v from = Inr (filter (\<lambda>i. view_block v i \<noteq> None) [from..<maxTableEntries (v_header v)])"
proof -
  have "res_fold (\<lambda>block acc. res_bind (v_contains v block) (\<lambda>c. Inr (if c then acc @ [block] else acc))) xs acc =
      Inr (acc @ filter (\<lambda>i. view_block v i \<noteq> None) xs)" for xs acc
    by (induction xs arbitrary: acc) (auto simp: view_block_readable(1) [OF assms])
  then show ?thesis by (simp add: toMerge_def)
qed

lemma first_block_spec:
  assumes "readable v" "i \<le> n"
  shows "\<exists>j. first_block v n i = Inr j \<and> i \<le> j \<and> (\<forall>k. i \<le> k \<longrightarrow> k < j \<longrightarrow> view_block v k = None)"
  using assms(2)
proof (induction "n - i" arbitrary: i)
  case 0
  then show ?case by (subst first_block.simps) auto
next
  case (Suc m)
  show ?case
  proof (cases "view_block v i = None")
    case True
    have "m = n - (i + 1)" "i + 1 \<le> n" using Suc(2,3) by auto
    from Suc(1) [OF this] obtain j where
      j: "first_block v n (i + 1) = Inr j" "i + 1 \<le> j" "\<forall>k. i + 1 \<le> k \<longrightarrow> k < j \<longrightarrow> view_block v k = None" by blast
    have "i < n" using Suc(2) by linarith
    then have "first_block v n i = Inr j"
      using j(1) True view_block_readable(1) [OF assms(1), of i] by (subst first_block.simps) simp
    moreover have "view_block v k = None" if "i \<le> k" "k < j" for k
      using that j(3) True by (cases "k = i") auto
    ultimately show ?thesis using j(2) by auto
  next
    case False
    then show ?thesis
      using Suc(2) view_block_readable(1) [OF assms(1), of i] by (intro exI [of _ i]) (subst first_block.simps, auto)
  qed
qed

text \<open>The bytes of the blocks of a child, as far as its own table goes.\<close>

definition child_bytes :: "vhd_view \<Rightarrow> nat \<Rightarrow> buffer option" where
  "child_bytes v i = (if i < maxTableEntries (v_header v) then map_option blk_buffer (view_block v i) else None)"

lemma child_bytes_merged:
  assumes "readable v"
  shows "child_bytes v |` set (filter (\<lambda>i. view_block v i \<noteq> None) [k..<maxTableEntries (v_header v)]) =
    child_bytes v |` {k..}"
  by (auto simp: child_bytes_def restrict_map_def fun_eq_iff)

section \<open>Merging into a file\<close>

lemma file_mergeBlock:
  assumes "vf_inv s" "readable v" "child_bytes v k = Some b" "writeEntireBlock k b s = Inr s'"
  shows "\<exists>n. mp_mergeBlock (file_parent fu v) k r s = Inr (n, s')"
proof -
  obtain blk where blk: "view_block v k = Some blk" "b = blk_buffer blk"
    using assms(3) by (auto simp: child_bytes_def split: if_splits)
  show ?thesis
    using assms(4) view_block_readable(2,3) [OF assms(2) blk(1)] blk(2) containsBlock_eq [OF assms(1), of k]
    by (simp add: file_parent_def abs_mergeBlock_def file_writer_def)
qed

text \<open>A view that cannot be read shows nothing to merge: the contract is about readable children.\<close>

definition readable_bytes :: "vhd_view \<Rightarrow> nat \<Rightarrow> buffer option" where
  "readable_bytes v i = (if readable v then child_bytes v i else None)"

text \<open>
  The state of a file while blocks are merged into it: its header is on the disk, its table may not be
  there yet (\<open>ensureBatSize\<close> does not write all of the entries it adds).
\<close>

definition header_synced :: "struct_fu \<Rightarrow> vhd_file \<Rightarrow> bool" where
  "header_synced fu s \<longleftrightarrow>
     (let h = vf_header s
      in wf_header h \<and> header_with_checksum fu h = h \<and> FOOTER_SIZE + HEADER_SIZE \<le> length (vf_content s) \<and>
         file_read (vf_content s) FOOTER_SIZE HEADER_SIZE = fuHeader_pack fu h)"

definition file_merging :: "struct_fu \<Rightarrow> vhd_header \<Rightarrow> vhd_footer \<Rightarrow> vhd_file \<Rightarrow> bool" where
  "file_merging fu h f s \<longleftrightarrow> vf_inv s \<and> header_synced fu s \<and> vf_header s = h \<and> vf_footer s = f"

lemma disk_header_synced:
  assumes "disk_synced fu s" and "vf_inv s"
  shows "header_synced fu s"
proof -
  have "FOOTER_SIZE + HEADER_SIZE \<le> tableOffset (vf_header s)"
    using vf_invD(1) [OF assms(2)] by (simp add: wf_layout_def)
  then show ?thesis using assms(1) by (auto simp: disk_synced_def header_synced_def Let_def split: option.splits)
qed

lemma header_synced_write:
  assumes "header_synced fu s" and "vf_header s' = vf_header s" and "vf_content s' = file_write (vf_content s) d off"
    and "FOOTER_SIZE + HEADER_SIZE \<le> off \<or> off + length d \<le> FOOTER_SIZE"
  shows "header_synced fu s'"
proof -
  have "file_read (vf_content s') FOOTER_SIZE HEADER_SIZE = file_read (vf_content s) FOOTER_SIZE HEADER_SIZE"
    unfolding assms(3) by (rule file_read_write_disjoint) (use assms(1,4) in \<open>auto simp: header_synced_def Let_def\<close>)
  then show ?thesis using assms by (auto simp: header_synced_def Let_def)
qed

lemma writeEntireBlock_header_synced:
  assumes inv: "vf_inv s" and k: "k < maxTableEntries (vf_header s)" and e: "vf_end s < BLOCK_UNUSED"
    and sync: "header_synced fu s" and w: "writeEntireBlock k buf s = Inr s'"
  shows "header_synced fu s'"
proof -
  obtain t where t: "vf_blockTable s = Some t" "wf_table (vf_header s) t" by (rule vf_inv_table [OF inv])
  have heads: "FOOTER_SIZE + HEADER_SIZE \<le> tableOffset (vf_header s)"
    using vf_invD(1) [OF inv] by (simp add: wf_layout_def)
  have ends: "tableOffset (vf_header s) \<le> getEndOfHeaders (vf_header s)"
    using getEndOfHeaders_ge(2) [of "vf_header s"] by linarith
  show ?thesis
  proof (cases "allocated s k")
    case True
    then have "s' = vf_write buf (vf_entry s k * SECTOR_SIZE) s"
      using w inv by (simp add: writeEntireBlock_def getOrCreateBlock_def getBatEntry_eq sectorsToBytes_def)
    then show ?thesis
      using heads ends vf_invD(3) [OF inv True]
      by (intro header_synced_write [OF sync, where d = buf and off = "vf_entry s k * SECTOR_SIZE"])
        (simp_all add: vf_write_def)
  next
    case False
    define s1 where "s1 = s\<lparr>vf_blockTable := Some (buf_copy (be 4 (vf_end s)) t (4 * k)),
      vf_content := file_write (vf_content s) (be 4 (vf_end s)) (tableOffset (vf_header s) + 4 * k)\<rparr>"
    have s': "s' = vf_write buf (vf_end s * SECTOR_SIZE) s1"
      using w False inv createBlock_eq [OF inv k e False t(1)]
      by (simp add: writeEntireBlock_def getOrCreateBlock_def getBatEntry_eq sectorsToBytes_def s1_def)
    have "header_synced fu s1"
      by (rule header_synced_write [OF sync, of _ "be 4 (vf_end s)" "tableOffset (vf_header s) + 4 * k"])
        (use heads in \<open>simp_all add: s1_def\<close>)
    then show ?thesis
      by (rule header_synced_write [where d = buf and off = "vf_end s * SECTOR_SIZE"])
        (use heads ends vf_end_headers [of s] in \<open>simp_all add: s' vf_write_def s1_def\<close>)
  qed
qed

lemma file_merging_write:
  assumes "file_merging fu h f s" and "k < maxTableEntries (vf_header s)"
    and "length b = fullBlockSize (vf_header s)" and "0 < file_room s" and "writeEntireBlock k b s = Inr s'"
  shows "file_merging fu h f s'"
proof -
  have inv: "vf_inv s" and sync: "header_synced fu s" and fields: "vf_header s = h" "vf_footer s = f"
    using assms(1) by (simp_all add: file_merging_def)
  have room: "vf_end s < BLOCK_UNUSED" using assms(4) by (simp add: file_room_def split: if_splits)
  obtain s1 where "writeEntireBlock k b s = Inr s1" "placed s k (write_addr s k) b s1" "vf_inv s1"
    "vf_footer s1 = vf_footer s" by (rule writeEntireBlock_placed [OF inv assms(2) room assms(3)])
  then show ?thesis
    using writeEntireBlock_header_synced [OF inv assms(2) room sync assms(5)] assms(5) fields
    by (simp add: file_merging_def placed_def)
qed

interpretation file_merge: vhd_copy "file_merging fu h f" "\<lambda>s. maxTableEntries (vf_header s)"
  "\<lambda>s. fullBlockSize (vf_header s)" file_room file_blocks "\<lambda>i s. containsBlock s i" writeEntireBlock
  "readable_bytes v" "mp_mergeBlock (file_parent fu v)"
  for fu h f v
proof (unfold_locales, goal_cases)
  case (1 s k)
  then show ?case using file_store.contains_law by (simp add: file_merging_def)
next
  case (2 s k b)
  then have "vf_inv s" by (simp add: file_merging_def)
  from file_store.write_law [OF this 2(2,3,4)] show ?case using file_merging_write [OF 2(1,2,3,4)] by blast
next
  case (3 s k b s' r)
  then show ?case by (auto simp: readable_bytes_def file_merging_def split: if_splits intro: file_mergeBlock)
qed

text \<open>The blocks of the child can be read and have the size of those of the parent.\<close>

definition mergeable :: "vhd_view \<Rightarrow> vhd_file \<Rightarrow> bool" where
  "mergeable v s \<longleftrightarrow> readable v \<and>
     (\<forall>k b. child_bytes v k = Some b \<longrightarrow> length b = fullBlockSize (vf_header s))"

text \<open>
  From any \<open>currentBlock\<close> below which every block of the child is already in the parent, the merge ends
  with all of them in the parent: a first merge starts from 0, a resumed one from the saved state.
\<close>

lemma merge_file_blocks:
  assumes inv: "file_merging fu h f s" and m: "mergeable v s"
    and table: "maxTableEntries (v_header v) \<le> maxTableEntries (vf_header s)"
    and room: "maxTableEntries (v_header v) \<le> file_room s"
    and before: "\<And>k b. k < st_currentBlock st \<Longrightarrow> child_bytes v k = Some b \<Longrightarrow> file_blocks s k = Some b"
  shows "\<exists>st' s'. step_mergeAllBlocks (file_parent fu v) v resuming (st, s) = Inr (st', s') \<and> file_merging fu h f s' \<and>
    file_blocks s' = file_blocks s ++ child_bytes v \<and> st_step st' = st_step st \<and>
    st_vhdSize st' = Some (length (vf_content s'))"
proof -
  let ?ks = "filter (\<lambda>i. view_block v i \<noteq> None) [st_currentBlock st..<maxTableEntries (v_header v)]"
  have rd: "readable v" using m by (simp add: mergeable_def)
  have src: "readable_bytes v = child_bytes v" by (simp add: readable_bytes_def rd fun_eq_iff)
  have "length ?ks \<le> maxTableEntries (v_header v)"
    by (rule order.trans [OF length_filter_le]) simp
  then have len: "length ?ks \<le> file_room s" using room by linarith
  have each: "file_merge.copy_accepts v s k \<and> (\<exists>b. readable_bytes v k = Some b) \<and>
      (True \<or> resuming \<and> file_blocks s k = readable_bytes v k)" if "k \<in> set ?ks" for k
  proof -
    have k: "k < maxTableEntries (v_header v)" "view_block v k \<noteq> None" using that by auto
    then obtain b where b: "child_bytes v k = Some b" by (auto simp: child_bytes_def)
    with m table k(1) have "k < maxTableEntries (vf_header s)" "length b = fullBlockSize (vf_header s)"
      by (auto simp: mergeable_def)
    with b show ?thesis unfolding file_merge.copy_accepts_def unfolding src by simp
  qed
  have dis: "distinct ?ks" by simp
  from file_merge.copy.merge_all [where st = st and fu = fu, OF inv len dis each] obtain st' s' where
    loop: "merge_blocks (file_parent fu v) resuming ?ks (st, s) = Inr (st', s')" and s': "file_merging fu h f s'"
      "file_blocks s' = file_blocks s ++ (child_bytes v |` set ?ks)" "st_step st' = st_step st"
    by (auto simp: merge_blocks_def src)
  have "file_blocks s ++ (child_bytes v |` set ?ks) = file_blocks s ++ child_bytes v"
  proof
    fix k
    show "(file_blocks s ++ (child_bytes v |` set ?ks)) k = (file_blocks s ++ child_bytes v) k"
      using before [of k] unfolding child_bytes_merged [OF rd]
      by (cases "k < st_currentBlock st"; cases "child_bytes v k") (simp_all add: map_add_def)
  qed
  with loop s' show ?thesis
    by (simp add: step_mergeAllBlocks_def toMerge_eq [OF rd] file_parent_def)
qed

lemma writeBAT_keeps:
  assumes inv: "vf_inv s"
  obtains s' where "writeBlockAllocationTable s = Inr s'" "vf_inv s'" "same_blocks s s'"
    "vf_header s' = vf_header s" "vf_footer s' = vf_footer s"
    "header_synced fu s \<Longrightarrow> disk_synced fu s'"
proof -
  obtain t where t: "vf_blockTable s = Some t" "wf_table (vf_header s) t" by (rule vf_inv_table [OF inv])
  define s' where "s' = vf_write t (tableOffset (vf_header s)) s"
  have "tableOffset (vf_header s) + length t \<le> getEndOfHeaders (vf_header s)"
    using t(2) getEndOfHeaders_ge(2) [of "vf_header s"] by (simp add: wf_table_def)
  then have "vf_inv s'" "same_blocks s s'"
    using write_outside [OF inv, of "tableOffset (vf_header s)" t s'] by (simp_all add: s'_def vf_write_def)
  moreover have "writeBlockAllocationTable s = Inr s'" using t(1) by (simp add: writeBlockAllocationTable_def vf_table_def s'_def)
  moreover have fields: "vf_header s' = vf_header s" "vf_footer s' = vf_footer s" "vf_blockTable s' = Some t"
    "vf_content s' = file_write (vf_content s) t (tableOffset (vf_header s))"
    using t(1) by (simp_all add: s'_def vf_write_def)
  moreover have "disk_synced fu s'" if sync: "header_synced fu s"
  proof -
    let ?n = "4 * maxTableEntries (vf_header s)"
    have "FOOTER_SIZE + HEADER_SIZE \<le> tableOffset (vf_header s)"
      using vf_invD(1) [OF inv] by (simp add: wf_layout_def)
    then have "header_synced fu s'" using header_synced_write [OF sync fields(1,4)] by simp
    moreover have "?n \<le> length t" using t(2) by (simp add: wf_table_def)
    moreover from this have "file_read (vf_content s') (tableOffset (vf_header s)) ?n = take ?n t"
      unfolding fields(4) by (subst take_file_read [symmetric, where n = "length t"]) (simp_all add: file_read_write_same)
    ultimately show ?thesis using fields by (simp add: disk_synced_def header_synced_def Let_def)
  qed
  ultimately show thesis by (intro that [of s']) simp_all
qed

lemma same_blocks_file: "vf_header s' = vf_header s \<Longrightarrow> same_blocks s s' \<Longrightarrow> file_blocks s' = file_blocks s"
  by (auto simp: same_blocks_def file_blocks_def fun_eq_iff)

definition merged_footer :: "vhd_footer \<Rightarrow> vhd_footer \<Rightarrow> vhd_footer" where
  "merged_footer pf cf = pf\<lparr>currentSize := currentSize cf, diskGeometry := diskGeometry cf,
     originalSize := originalSize cf, timestamp := timestamp cf, uuid := uuid cf\<rparr>"

lemma inv_set_footer: "vf_inv s \<Longrightarrow> vf_inv (s\<lparr>vf_footer := f\<rparr>) \<and> same_blocks s (s\<lparr>vf_footer := f\<rparr>)"
  using keeps_by_content [of s "s\<lparr>vf_footer := f\<rparr>"] by (simp add: block_bytes_def vf_entry_def)

text \<open>With the table and the footer written again, all of the file is on the disk.\<close>

lemma updateHeaders_file:
  assumes codec: "struct_fu_codec fu" and inv: "vf_inv s" and sync: "header_synced fu s"
    and wf: "wf_footer (merged_footer (vf_footer s) (v_footer v))"
  shows "\<exists>s'. updateHeaders (file_parent fu v) v s = Inr s' \<and> vf_inv s' \<and> file_blocks s' = file_blocks s \<and>
    vf_header s' = vf_header s \<and> vf_footer s' = with_checksum fu (merged_footer (vf_footer s) (v_footer v)) \<and>
    disk_synced fu s' \<and> footer_synced fu s'"
proof -
  let ?f = "merged_footer (vf_footer s) (v_footer v)"
  obtain s1 where s1: "writeBlockAllocationTable s = Inr s1" "vf_inv s1" "same_blocks s s1"
    "vf_header s1 = vf_header s" "vf_footer s1 = vf_footer s" "disk_synced fu s1"
    using writeBAT_keeps [OF inv, where fu = fu] sync by metis
  let ?s2 = "s1\<lparr>vf_footer := ?f\<rparr>"
  have s2: "vf_inv ?s2" "same_blocks s1 ?s2" using inv_set_footer [OF s1(2)] by simp_all
  have "disk_synced fu ?s2" using s1(6) by (simp add: disk_synced_def Let_def split: option.splits)
  then obtain s3 where s3: "writeFooter fu False ?s2 = Inr s3" "vf_inv s3" "same_blocks ?s2 s3"
    "vf_header s3 = vf_header ?s2" "vf_footer s3 = with_checksum fu ?f" "disk_synced fu s3" "footer_synced fu s3"
    using struct_fu_codec.writeFooter_synced [OF codec s2(1)] wf by auto
  have "file_blocks s3 = file_blocks s"
    using same_blocks_file [OF s1(4,3)] same_blocks_file [OF _ s2(2)] same_blocks_file [OF s3(4,3)] by simp
  moreover have "updateHeaders (file_parent fu v) v s = Inr s3"
    using s1(1,5) s3(1) by (simp add: updateHeaders_def file_parent_def Let_def merged_footer_def)
  ultimately show ?thesis using s3 s1(4) by auto
qed

text \<open>
  The room a merge of \<open>n\<close> entries asks for: sectors that an entry can number for as many new blocks; when
  the table has to grow, for the blocks that are moved too, in a table as it is on the disk that grows by
  at most one block (more than that is the defect of \<open>freeFirstBlockSpace\<close>).
\<close>

definition merge_room :: "nat \<Rightarrow> vhd_file \<Rightarrow> bool" where
  "merge_room n s \<longleftrightarrow>
     (let h = vf_header s; grown = computeBatSize n - batSize h
      in if n \<le> maxTableEntries h then n \<le> file_room s
         else (\<exists>t. vf_blockTable s = Some t \<and> length t = 4 * maxTableEntries h) \<and>
           grown \<le> fullBlockSize h \<and> free_bound s grown + (n + 1) * full_sectors h < BLOCK_UNUSED)"

definition grown_header :: "nat \<Rightarrow> vhd_header \<Rightarrow> vhd_header" where
  "grown_header n h = h\<lparr>maxTableEntries := max n (maxTableEntries h)\<rparr>"

lemma grown_header_fields [simp]:
  "maxTableEntries (grown_header n h) = max n (maxTableEntries h)" "fullBlockSize (grown_header n h) = fullBlockSize h"
  "blockSize (grown_header n h) = blockSize h"
  by (simp_all add: grown_header_def fullBlockSize_def)

definition same_header :: "vhd_header \<Rightarrow> vhd_header \<Rightarrow> bool" where
  "same_header g h \<longleftrightarrow> (\<exists>c. h = g\<lparr>h_checksum := c\<rparr>)"

lemma ensureBatSize_merging:
  assumes codec: "struct_fu_codec fu" and inv: "vf_inv s" and sync: "disk_synced fu s"
    and wf: "wf_header (grown_header n (vf_header s))" and room: "merge_room n s"
  shows "\<exists>s'. ensureBatSize fu n s = Inr s' \<and> file_merging fu (vf_header s') (vf_footer s') s' \<and>
    file_blocks s' = file_blocks s \<and> same_header (grown_header n (vf_header s)) (vf_header s') \<and>
    same_footer (vf_footer s) (vf_footer s') \<and> n \<le> file_room s'"
proof (cases "n \<le> maxTableEntries (vf_header s)")
  case True
  then have "grown_header n (vf_header s) = vf_header s" by (simp add: grown_header_def max_def)
  then have "same_header (grown_header n (vf_header s)) (vf_header s)"
    unfolding same_header_def by (intro exI [of _ "h_checksum (vf_header s)"]) simp
  then show ?thesis
    using True room inv disk_header_synced [OF sync inv]
    by (simp add: ensureBatSize_def merge_room_def Let_def file_merging_def same_footer_def)
next
  case False
  let ?h = "vf_header s" and ?grown = "computeBatSize n - batSize (vf_header s)"
  let ?h' = "(vf_header s)\<lparr>maxTableEntries := n\<rparr>"
  have h': "grown_header n ?h = ?h'" using False by (simp add: grown_header_def max_def)
  have wf': "wf_header ?h'" using wf by (simp add: h')
  then have uid: "length (parentUuid ?h') = 16" and locs: "length (parentLocatorEntry ?h') = PARENT_LOCATOR_ENTRIES"
    by (simp_all add: wf_header_def)
  have r: "\<And>t. vf_blockTable s = Some t \<Longrightarrow> length t = 4 * maxTableEntries ?h" "?grown \<le> fullBlockSize ?h"
    "free_bound s ?grown + (n + 1) * full_sectors ?h < BLOCK_UNUSED"
    using room False by (auto simp: merge_room_def Let_def)
  have hlen: "length (fuHeader_pack fu ?h') = HEADER_SIZE"
    using struct_fu_codec.fuHeader_size [OF codec uid locs] .
  have "maxTableEntries ?h < n" "free_bound s ?grown < BLOCK_UNUSED" "length (fuHeader_pack fu ?h') \<le> HEADER_SIZE"
    using False r(3) hlen by simp_all
  from ensureBatSize_keeps [OF inv r(1) this(1) r(2) this(2,3)] obtain s' c where s':
    "ensureBatSize fu n s = Inr s'" "vf_inv s'" "same_blocks s s'" "vf_header s' = header_with_checksum fu ?h'"
    "same_footer (vf_footer s) (vf_footer s')"
    "vf_content s' = file_write c (snd (checksumStruct fu (fuHeader_pack fu ?h') FuHeader)) FOOTER_SIZE"
    "vf_end s' \<le> free_bound s ?grown + full_sectors ?h"
    by (auto simp: header_with_checksum_def)
  have pack: "snd (checksumStruct fu (fuHeader_pack fu ?h') FuHeader) = fuHeader_pack fu (vf_header s')"
    using struct_fu_codec.snd_checksum_header [OF codec uid] s'(4) by simp
  have plen: "length (fuHeader_pack fu (vf_header s')) = HEADER_SIZE"
    using struct_fu_codec.fuHeader_size [OF codec, of "vf_header s'"] uid locs s'(4) by (simp add: header_with_checksum_def)
  have "file_read (vf_content s') FOOTER_SIZE HEADER_SIZE = fuHeader_pack fu (vf_header s')"
    using file_read_write_same [of c "fuHeader_pack fu (vf_header s')" FOOTER_SIZE] plen s'(6) pack by simp
  moreover have "FOOTER_SIZE + HEADER_SIZE \<le> length (vf_content s')" using s'(6) pack plen by simp
  ultimately have "header_synced fu s'"
    using struct_fu_codec.header_checksum_idem [OF codec wf'] struct_fu_codec.wf_header_with_checksum [OF codec wf'] s'(4)
    by (simp add: header_synced_def Let_def)
  moreover have hd: "same_header (grown_header n ?h) (vf_header s')"
    unfolding h' s'(4) same_header_def header_with_checksum_def by blast
  moreover have "file_blocks s' = file_blocks s"
  proof -
    have "fullBlockSize (vf_header s') = fullBlockSize ?h" by (simp add: s'(4) header_with_checksum_def fullBlockSize_def)
    then show ?thesis using s'(3) by (auto simp: same_blocks_def file_blocks_def fun_eq_iff)
  qed
  moreover have "n \<le> file_room s'"
  proof -
    have fs: "full_sectors (vf_header s') = full_sectors ?h"
      by (simp add: s'(4) header_with_checksum_def full_sectors_def sectorsOfBitmap_def sectorsPerBlock_def)
    have "vf_end s' + n * full_sectors ?h < BLOCK_UNUSED" using s'(7) r(3) by simp
    then have "n * full_sectors ?h \<le> BLOCK_UNUSED - 1 - vf_end s'" and e: "vf_end s' < BLOCK_UNUSED" by linarith+
    then have "n \<le> (BLOCK_UNUSED - 1 - vf_end s') div full_sectors ?h"
      using full_sectors_pos [of ?h] by (simp add: less_eq_div_iff_mult_less_eq)
    then show ?thesis using e fs by (simp add: file_room_def)
  qed
  ultimately show ?thesis using s'(1,2,5) by (auto simp: file_merging_def)
qed

text \<open>
  The whole block step for a file, new (\<open>None\<close>) or resumed. A resumed merge finds the table large enough
  and the blocks below \<open>currentBlock\<close> already merged. In the end the file is on the disk as it is in
  memory, whence it can be opened again.
\<close>

lemma merged_footer_same: "same_footer f g \<Longrightarrow> same_footer (merged_footer f cf) (merged_footer g cf)"
proof -
  have "merged_footer (f\<lparr>f_checksum := c\<rparr>) cf = (merged_footer f cf)\<lparr>f_checksum := c\<rparr>" for c
    by (simp add: merged_footer_def)
  then show "same_footer f g \<Longrightarrow> same_footer (merged_footer f cf) (merged_footer g cf)"
    unfolding same_footer_def by metis
qed

lemma merged_footer_fields:
  assumes "same_footer (merged_footer f cf) g"
  shows "uuid g = uuid cf \<and> currentSize g = currentSize cf \<and> originalSize g = originalSize cf \<and>
    diskGeometry g = diskGeometry cf \<and> timestamp g = timestamp cf"
proof -
  from assms consider "g = merged_footer f cf" | c where "g = (merged_footer f cf)\<lparr>f_checksum := c\<rparr>"
    unfolding same_footer_def by blast
  then show ?thesis by cases (simp_all add: merged_footer_def)
qed

lemma same_footer_wf: "same_footer f g \<Longrightarrow> wf_footer f \<Longrightarrow> wf_footer g"
  using fst_checksumStruct_bound by (auto simp: same_footer_def wf_footer_def)

lemma step_mergeBlocks_file:
  assumes codec: "struct_fu_codec fu" and inv: "vf_inv s" and sync: "disk_synced fu s"
    and m: "mergeable v s" and room: "merge_room (maxTableEntries (v_header v)) s"
    and checks: "merge_checks state (vf_header s) (vf_footer s) v = Inr ()"
    and resumed: "state \<noteq> None \<Longrightarrow> maxTableEntries (v_header v) \<le> maxTableEntries (vf_header s)"
    and before: "\<And>st k b. state = Some st \<Longrightarrow> k < st_currentBlock st \<Longrightarrow> child_bytes v k = Some b \<Longrightarrow>
      file_blocks s k = Some b"
    and wf: "wf_header (grown_header (maxTableEntries (v_header v)) (vf_header s))"
      "wf_footer (merged_footer (vf_footer s) (v_footer v))"
  shows "\<exists>st' s'. step_mergeBlocks (file_parent fu v) v state s = Inr (st', s') \<and> vf_inv s' \<and>
    file_blocks s' = file_blocks s ++ child_bytes v \<and> disk_synced fu s' \<and> footer_synced fu s' \<and>
    same_header (grown_header (maxTableEntries (v_header v)) (vf_header s)) (vf_header s') \<and>
    same_footer (merged_footer (vf_footer s) (v_footer v)) (vf_footer s')"
proof -
  let ?n = "maxTableEntries (v_header v)"
  have rd: "readable v" using m by (simp add: mergeable_def)
  have mp: "mp_header (file_parent fu v) = vf_header" "mp_footer (file_parent fu v) = vf_footer"
    "mp_ensureBatSize (file_parent fu v) = ensureBatSize fu" by (simp_all add: file_parent_def)
  have "\<exists>st s0. (case state of
         Some st \<Rightarrow> Inr (st, s)
       | None \<Rightarrow>
           res_bind (mp_ensureBatSize (file_parent fu v) (maxTableEntries (v_header v)) s) (\<lambda>s.
           res_bind (first_block v (maxTableEntries (v_header v)) 0) (\<lambda>current.
           Inr (\<lparr>st_childHeader = h_checksum (v_header v),
                  st_parentHeader = h_checksum (mp_header (file_parent fu v) s),
                  st_currentBlock = current, st_mergedDataSize = 0,
                  st_step = ''mergeBlocks'', st_vhdSize = None\<rparr>, s)))) = Inr (st, s0) \<and>
      file_merging fu (vf_header s0) (vf_footer s0) s0 \<and> file_blocks s0 = file_blocks s \<and>
      same_header (grown_header ?n (vf_header s)) (vf_header s0) \<and> same_footer (vf_footer s) (vf_footer s0) \<and>
      ?n \<le> file_room s0 \<and>
      (\<forall>k b. k < st_currentBlock st \<longrightarrow> child_bytes v k = Some b \<longrightarrow> file_blocks s k = Some b)"
  proof (cases state)
    case None
    obtain j where j: "first_block v ?n 0 = Inr j" "\<forall>k. k < j \<longrightarrow> view_block v k = None"
      using first_block_spec [OF rd, of 0] by auto
    then have "child_bytes v k = None" if "k < j" for k using that by (simp add: child_bytes_def)
    with j(1) None ensureBatSize_merging [OF codec inv sync wf(1) room] show ?thesis by (auto simp: mp)
  next
    case (Some st)
    have "ensureBatSize fu ?n s = Inr s" using resumed Some by (simp add: ensureBatSize_def)
    then show ?thesis using Some before ensureBatSize_merging [OF codec inv sync wf(1) room] by auto
  qed
  then obtain st s0 where st: "(case state of
         Some st \<Rightarrow> Inr (st, s)
       | None \<Rightarrow>
           res_bind (mp_ensureBatSize (file_parent fu v) (maxTableEntries (v_header v)) s) (\<lambda>s.
           res_bind (first_block v (maxTableEntries (v_header v)) 0) (\<lambda>current.
           Inr (\<lparr>st_childHeader = h_checksum (v_header v),
                  st_parentHeader = h_checksum (mp_header (file_parent fu v) s),
                  st_currentBlock = current, st_mergedDataSize = 0,
                  st_step = ''mergeBlocks'', st_vhdSize = None\<rparr>, s)))) = Inr (st, s0)"
    and s0: "file_merging fu (vf_header s0) (vf_footer s0) s0" "file_blocks s0 = file_blocks s"
      "same_header (grown_header ?n (vf_header s)) (vf_header s0)" "same_footer (vf_footer s) (vf_footer s0)"
      "?n \<le> file_room s0"
    and below: "\<And>k b. k < st_currentBlock st \<Longrightarrow> child_bytes v k = Some b \<Longrightarrow> file_blocks s0 k = Some b"
    by auto
  have table: "?n \<le> maxTableEntries (vf_header s0)" and full: "fullBlockSize (vf_header s0) = fullBlockSize (vf_header s)"
    using s0(3) by (auto simp: same_header_def fullBlockSize_def)
  have m0: "mergeable v s0" using m full by (simp add: mergeable_def)
  from merge_file_blocks [where resuming = "state \<noteq> None", OF s0(1) m0 table s0(5) below] obtain st1 s1 where
    s1: "step_mergeAllBlocks (file_parent fu v) v (state \<noteq> None) (st, s0) = Inr (st1, s1)"
      "file_merging fu (vf_header s0) (vf_footer s0) s1" "file_blocks s1 = file_blocks s0 ++ child_bytes v" by blast
  have foot: "same_footer (merged_footer (vf_footer s) (v_footer v)) (merged_footer (vf_footer s1) (v_footer v))"
    using merged_footer_same [OF s0(4)] s1(2) by (simp add: file_merging_def)
  have inv1: "vf_inv s1" "header_synced fu s1" "vf_header s1 = vf_header s0" using s1(2) by (simp_all add: file_merging_def)
  from updateHeaders_file [OF codec inv1(1,2) same_footer_wf [OF foot wf(2)]] obtain s2 where
    s2: "updateHeaders (file_parent fu v) v s1 = Inr s2" "vf_inv s2" "file_blocks s2 = file_blocks s1"
      "vf_header s2 = vf_header s1" "vf_footer s2 = with_checksum fu (merged_footer (vf_footer s1) (v_footer v))"
      "disk_synced fu s2" "footer_synced fu s2" by blast
  have "same_footer (merged_footer (vf_footer s1) (v_footer v)) (vf_footer s2)"
    unfolding s2(5) same_footer_def with_checksum_def by blast
  then have "same_footer (merged_footer (vf_footer s) (v_footer v)) (vf_footer s2)" by (rule same_footer_trans [OF foot])
  moreover have "step_mergeBlocks (file_parent fu v) v state s = Inr (st1, s2)"
    unfolding step_mergeBlocks_def using checks st s1(1) s2(1) by (simp only: mp(1,2) res_bind_simps prod.case)
  ultimately show ?thesis using s2 s1(3) s0(2,3) inv1(3) by auto
qed

lemma same_checks:
  "same_footer f g \<Longrightarrow> checkFooter g = checkFooter f"
  "same_header h h' \<Longrightarrow> same_footer f g \<Longrightarrow> checkHeader h' (Some g) = checkHeader h (Some f)"
  by (auto simp: same_footer_def same_header_def checkFooter_def checkHeader_def)

section \<open>Merging directories by renaming\<close>

text \<open>
  The child is a directory of the same handler, with the same compression: \<open>cp\<close> is its path and \<open>m\<close>
  the blocks it had when the merge began. Its files are the blocks of \<open>m\<close> that have not been moved.
\<close>

definition dir_merge_inv :: "string \<Rightarrow> string \<Rightarrow> (nat \<Rightarrow> buffer option) \<Rightarrow> vhd_dir \<Rightarrow> bool" where
  "dir_merge_inv cp c m d \<longleftrightarrow>
     dir_inv d \<and> cp \<noteq> vd_path d \<and> comp_id (vd_compressor d) = c \<and>
     (\<forall>t. vd_blockTable d = Some t \<longrightarrow> length t < 2 ^ 32) \<and>
     (\<forall>k z. vd_files d (cp, getBlockPath k) = Some z \<longrightarrow>
        (\<exists>b. m k = Some b \<and> decompress (vd_compressor d) z = Inr b))"

definition dir_pending :: "string \<Rightarrow> vhd_dir \<Rightarrow> nat \<Rightarrow> bool" where
  "dir_pending cp d k \<longleftrightarrow> vd_files d (cp, getBlockPath k) \<noteq> None"

definition dir_accepts :: "(nat \<Rightarrow> buffer option) \<Rightarrow> vhd_dir \<Rightarrow> nat \<Rightarrow> bool" where
  "dir_accepts m d k \<longleftrightarrow> k < maxTableEntries (dir_header d) \<and>
     (\<forall>b. m k = Some b \<longrightarrow> length b = fullBlockSize (dir_header d))"

lemma getBlockPath_not_bat: "getBlockPath k \<noteq> BatChunk"
  by (simp add: getBlockPath_def Let_def)

lemma full_minus_bitmap: "fullBlockSize h - bitmapSize h = blockSize h"
  by (simp add: fullBlockSize_def bitmapSize_def computeFullBlockSize_def sectorsOfBitmap_def sectorsToBytes_def)

lemma bitmap_set_twice:
  "b div 8 < length m \<Longrightarrow> bitmap_test (bitmap_set (bitmap_set m b) b) c = bitmap_test (bitmap_set m b) c"
  by (simp add: bitmap_test_set)

text \<open>The state after a move, whichever branch wrote it.\<close>

definition moved :: "string \<Rightarrow> nat \<Rightarrow> buffer \<Rightarrow> vhd_dir \<Rightarrow> vhd_dir \<Rightarrow> bool" where
  "moved cp k z d d' \<longleftrightarrow>
     vd_header d' = vd_header d \<and> vd_compressor d' = vd_compressor d \<and> vd_path d' = vd_path d \<and>
     vd_flags d' = vd_flags d \<and>
     (\<exists>t t'. vd_blockTable d = Some t \<and> vd_blockTable d' = Some t' \<and> length t' = length t \<and>
        (\<forall>i. bitmap_test t' i \<longleftrightarrow> i = k \<or> bitmap_test t i)) \<and>
     (\<forall>i. vd_files d' (vd_path d, getBlockPath i) =
        (if i = k then Some z else vd_files d (vd_path d, getBlockPath i))) \<and>
     (\<forall>i. vd_files d' (cp, getBlockPath i) = (if i = k then None else vd_files d (cp, getBlockPath i)))"

lemma moved_keeps:
  assumes mv: "moved cp k z d d'" and inv: "dir_merge_inv cp c m d" and z: "decompress (vd_compressor d) z = Inr b"
    and len: "length b = fullBlockSize (dir_header d)"
  shows "dir_merge_inv cp c m d'" "dir_blocks d' = (dir_blocks d)(k \<mapsto> b)" "dir_accepts m d' = dir_accepts m d"
    "\<forall>j. j \<noteq> k \<longrightarrow> dir_pending cp d j \<longrightarrow> dir_pending cp d' j"
proof -
  from mv obtain t t' where same: "vd_header d' = vd_header d" "vd_compressor d' = vd_compressor d"
    "vd_path d' = vd_path d" "vd_flags d' = vd_flags d"
    and t: "vd_blockTable d = Some t" "vd_blockTable d' = Some t'" "length t' = length t"
      "\<And>i. bitmap_test t' i \<longleftrightarrow> i = k \<or> bitmap_test t i"
    and files: "\<And>i. vd_files d' (vd_path d, getBlockPath i) =
        (if i = k then Some z else vd_files d (vd_path d, getBlockPath i))"
      "\<And>i. vd_files d' (cp, getBlockPath i) = (if i = k then None else vd_files d (cp, getBlockPath i))"
    unfolding moved_def by auto
  have read: "readChunk d' (getBlockPath i) = (if i = k then Inr b else readChunk d (getBlockPath i))" for i
    using z by (simp add: readChunk_def same files split: option.split)
  obtain h where h: "vd_header d = Some h" and d: "dir_inv d"
    using inv by (auto simp: dir_merge_inv_def dir_inv_def)
  have hd: "dir_header d = h" "dir_header d' = h" by (simp_all add: dir_header_def same h)
  have "dir_inv d'"
    using d len unfolding dir_inv_def same h t hd by (auto simp: t(4) read t(3))
  then show "dir_merge_inv cp c m d'"
    using inv t(1) unfolding dir_merge_inv_def same t(2) by (auto simp: files(2) t(3) split: if_splits)
  show "dir_blocks d' = (dir_blocks d)(k \<mapsto> b)"
  proof
    fix i
    show "dir_blocks d' i = ((dir_blocks d)(k \<mapsto> b)) i"
      using read [of i] by (cases "i = k") (simp_all add: dir_blocks_def t)
  qed
  show "dir_accepts m d' = dir_accepts m d" by (simp add: dir_accepts_def hd fun_eq_iff)
  show "\<forall>j. j \<noteq> k \<longrightarrow> dir_pending cp d j \<longrightarrow> dir_pending cp d' j" by (simp add: dir_pending_def files(2))
qed

lemma dir_merge_move:
  assumes inv: "dir_merge_inv cp c m d" and k: "k < maxTableEntries (dir_header d)"
    and p: "vd_files d (cp, getBlockPath k) = Some z"
  shows "\<exists>n d'. vd_mergeBlock onDisk (SameHandlerDirectory cp c v) k r d = Inr (n, d') \<and> moved cp k z d d'"
proof -
  obtain h t where h: "vd_header d = Some h" and t: "vd_blockTable d = Some t" and room: "maxTableEntries h \<le> 8 * length t"
    and fl: "vd_flags d \<in> {''r+'', ''w''}" and lc: "lossless (vd_compressor d)" and tl: "length t < 2 ^ 32"
    and cp: "cp \<noteq> vd_path d" "comp_id (vd_compressor d) = c"
    and blocks: "\<And>i. bitmap_test t i \<Longrightarrow> \<exists>b. readChunk d (getBlockPath i) = Inr b"
    using inv unfolding dir_merge_inv_def dir_inv_def by blast
  have k8: "k div 8 < length t" using k room by (simp add: dir_header_def h)
  define d1 where "d1 = d\<lparr>vd_files := (vd_files d)((cp, getBlockPath k) := None, (vd_path d, getBlockPath k) := Some z)\<rparr>"
  have rn: "dir_rename cp k d = Inr d1" by (simp add: dir_rename_def p d1_def)
  show ?thesis
  proof (cases "bitmap_test t k")
    case True
    obtain b where "readChunk d (getBlockPath k) = Inr b" using blocks [OF True] by blast
    then obtain z0 where z0: "vd_files d (vd_path d, getBlockPath k) = Some z0"
      by (auto simp: readChunk_def split: option.splits)
    let ?d = "d1\<lparr>vd_blockTable := Some (bitmap_set t k)\<rparr>"
    have "vd_mergeBlock onDisk (SameHandlerDirectory cp c v) k r d = Inr (onDisk z - onDisk z0, ?d)"
      using True z0 rn cp
      by (simp add: vd_mergeBlock_def vd_containsBlock_def vd_table_def t dir_fileSize_def mark_block_def Let_def)
        (simp add: d1_def t)
    moreover have "moved cp k z d ?d"
      using True k8 cp by (auto simp: moved_def d1_def t bitmap_test_set getBlockPath_inj)
    ultimately show ?thesis by blast
  next
    case False
    let ?t = "bitmap_set t k"
    have ne: "?t \<noteq> []" using k8 by (metis length_bitmap_set length_greater_0_conv less_nat_zero_code list.size(3))
    obtain zt where zt: "compress (vd_compressor d) ?t = Inr zt"
      using lc tl unfolding lossless_def by (metis length_bitmap_set)
    let ?d = "d1\<lparr>vd_files := (vd_files d1)((vd_path d, BatChunk) \<mapsto> zt), vd_blockTable := Some (bitmap_set ?t k)\<rparr>"
    have "vd_mergeBlock onDisk (SameHandlerDirectory cp c v) k r d = Inr (onDisk z - 0, ?d)"
      using False rn cp ne zt fl
      by (simp add: vd_mergeBlock_def vd_containsBlock_def vd_table_def t dir_fileSize_def mark_block_def Let_def
          vd_writeBlockAllocationTable_def writeChunk_def outputChunk_def)
        (auto simp add: d1_def t getBlockPath_not_bat getBlockPath_not_bat [symmetric] outputChunk_def)
    moreover have "moved cp k z d ?d"
      using k8 cp by (auto simp: moved_def d1_def t bitmap_test_set getBlockPath_inj getBlockPath_not_bat)
    ultimately show ?thesis by blast
  qed
qed

lemma dir_merge_resume:
  assumes inv: "dir_merge_inv cp c m d" and k: "k < maxTableEntries (dir_header d)"
    and p: "vd_files d (cp, getBlockPath k) = None" and shown: "dir_blocks d k = Some b"
  shows "\<exists>n d'. vd_mergeBlock onDisk (SameHandlerDirectory cp c v) k True d = Inr (n, d') \<and>
    dir_merge_inv cp c m d' \<and> dir_blocks d' = dir_blocks d \<and> dir_accepts m d' = dir_accepts m d \<and>
    dir_pending cp d' = dir_pending cp d"
proof -
  obtain h t where h: "vd_header d = Some h" and t: "vd_blockTable d = Some t" and room: "maxTableEntries h \<le> 8 * length t"
    and cp: "cp \<noteq> vd_path d" "comp_id (vd_compressor d) = c"
    and blocks: "\<And>i. bitmap_test t i \<Longrightarrow> \<exists>b. readChunk d (getBlockPath i) = Inr b \<and> length b = fullBlockSize h"
    using inv unfolding dir_merge_inv_def dir_inv_def by blast
  have k8: "k div 8 < length t" using k room by (simp add: dir_header_def h)
  have test: "bitmap_test t k" using shown by (simp add: dir_blocks_def t split: if_splits)
  obtain b0 where b0: "readChunk d (getBlockPath k) = Inr b0" "length b0 = fullBlockSize h" using blocks [OF test] by blast
  then obtain z0 where z0: "vd_files d (vd_path d, getBlockPath k) = Some z0"
    by (auto simp: readChunk_def split: option.splits)
  have rn: "dir_rename cp k d = Inl (Errno ''ENOENT'')" by (simp add: dir_rename_def p)
  let ?d = "d\<lparr>vd_blockTable := Some (bitmap_set t k)\<rparr>"
  have eq: "vd_mergeBlock onDisk (SameHandlerDirectory cp c v) k True d = Inr (0, ?d)"
    using test z0 rn cp b0 full_minus_bitmap [of h]
    by (simp add: vd_mergeBlock_def vd_containsBlock_def vd_table_def t dir_fileSize_def mark_block_def Let_def
        vd_readBlock_def vd_theHeader_def h)
  have same: "bitmap_test (bitmap_set t k) i = bitmap_test t i" for i
    using test by (auto simp: bitmap_test_set [OF k8])
  have read: "readChunk ?d = readChunk d" by (simp add: readChunk_def fun_eq_iff split: option.split)
  have "dir_inv ?d"
    using inv unfolding dir_merge_inv_def dir_inv_def read by (auto simp: h t same)
  then have "dir_merge_inv cp c m ?d" using inv t by (simp add: dir_merge_inv_def)
  moreover have "dir_blocks ?d = dir_blocks d" by (simp add: dir_blocks_def fun_eq_iff read t same)
  ultimately show ?thesis
    using eq by (intro exI [of _ 0] exI [of _ ?d])
      (simp add: dir_accepts_def dir_pending_def dir_header_def fun_eq_iff)
qed

interpretation dir_merge: vhd_merge "dir_merge_inv cp c m" "\<lambda>_. n" dir_blocks "dir_accepts m" m "dir_pending cp"
  "mp_mergeBlock (dir_parent fu onDisk (SameHandlerDirectory cp c v))"
  for cp c m n fu onDisk v
proof (unfold_locales, goal_cases)
  case (1 d k b r)
  have k: "k < maxTableEntries (dir_header d)" "length b = fullBlockSize (dir_header d)"
    using 1(2,3) by (simp_all add: dir_accepts_def)
  obtain z where z: "vd_files d (cp, getBlockPath k) = Some z" using 1(5) by (auto simp: dir_pending_def)
  have "decompress (vd_compressor d) z = Inr b"
    using 1(1,3) z unfolding dir_merge_inv_def by fastforce
  from dir_merge_move [OF 1(1) k(1) z, of onDisk v r] moved_keeps [OF _ 1(1) this k(2)]
  show ?case by (fastforce simp: dir_parent_def)
next
  case (2 d k b)
  have k: "k < maxTableEntries (dir_header d)" using 2(2) by (simp add: dir_accepts_def)
  have "vd_files d (cp, getBlockPath k) = None" using 2(5) by (simp add: dir_pending_def)
  from dir_merge_resume [OF 2(1) k this 2(6), of onDisk v] show ?case
    by (fastforce simp: dir_parent_def)
qed

end
