(* ===== verification/Vhd_Examples.thy ===== *)
theory Vhd_Examples
  imports Vhd_Merge_Props
begin

text \<open>
  Small VHDs at which the properties of vhd-lib are applied: a header of 128 blocks of one sector, a
  differencing footer, the empty file and directory that have them.
\<close>

section \<open>Header and footer\<close>

definition ex_footer :: vhd_footer where
  "ex_footer = \<lparr>f_cookie = FOOTER_COOKIE, features = 2, fileFormatVersion = FILE_FORMAT_VERSION,
     f_dataOffset = Some FOOTER_SIZE, timestamp = 0, creatorApplication = CREATOR_APPLICATION,
     creatorVersion = 0, creatorHostOs = PLATFORM_WI2K, originalSize = 65536, currentSize = 65536,
     diskGeometry = \<lparr>cylinders = 4, heads = 4, sectorsPerTrackCylinder = 17\<rparr>,
     diskType = DISK_TYPE_DIFFERENCING, f_checksum = 0, uuid = replicate 16 7,
     saved = [], hidden = [], f_reserved = []\<rparr>"

definition ex_raw_header :: vhd_header where
  "ex_raw_header = \<lparr>h_cookie = HEADER_COOKIE, h_dataOffset = None, tableOffset = 1536,
     headerVersion = HEADER_VERSION, maxTableEntries = 128, blockSize = 512, h_checksum = 0,
     parentUuid = replicate 16 7, parentTimestamp = 0, reserved1 = 0, parentUnicodeName = [],
     parentLocatorEntry = replicate PARENT_LOCATOR_ENTRIES empty_locator, reserved2 = []\<rparr>"

definition ex_header :: vhd_header where
  "ex_header = header_with_checksum fu_reference ex_raw_header"

lemmas ex_defs = ex_footer_def ex_raw_header_def empty_locator_def vhd_sizes FOOTER_COOKIE_def HEADER_COOKIE_def
  FILE_FORMAT_VERSION_def HEADER_VERSION_def CREATOR_APPLICATION_def PLATFORM_WI2K_def
  DISK_TYPE_DIFFERENCING_def DISK_TYPE_DYNAMIC_def

lemma ex_wf: "wf_footer ex_footer" "wf_header ex_header"
proof -
  have "wf_footer ex_footer \<and> wf_header ex_raw_header"
  by (simp add: ex_defs wf_footer_def wf_header_def wf_geometry_def wf_locator_def char_fits_def
      wf_u64_undefinable_def)
  then show "wf_footer ex_footer" "wf_header ex_header"
    by (simp_all add: ex_header_def fu_ref.wf_header_with_checksum)
qed

lemma ex_header_fields [simp]:
  "maxTableEntries ex_header = 128" "blockSize ex_header = 512" "tableOffset ex_header = 1536"
  "parentLocatorEntry ex_header = replicate PARENT_LOCATOR_ENTRIES empty_locator"
  "h_cookie ex_header = HEADER_COOKIE" "h_dataOffset ex_header = None"
  "headerVersion ex_header = HEADER_VERSION" "parentUuid ex_header = replicate 16 7"
  by (simp_all add: ex_header_def header_with_checksum_def ex_raw_header_def)

lemma ex_checksum: "header_with_checksum fu_reference ex_header = ex_header"
  unfolding ex_header_def
  by (rule fu_ref.header_checksum_idem)
    (simp add: ex_defs wf_header_def wf_locator_def char_fits_def wf_u64_undefinable_def)

lemma ex_check: "checkFooter ex_footer = Inr ()" "checkHeader ex_header (Some ex_footer) = Inr ()"
  by (simp_all add: checkFooter_def checkHeader_def is_pow2.simps) (simp_all add: ex_defs)

lemma ex_sizes [simp]:
  "batSize ex_header = 512" "fullBlockSize ex_header = 1024"
  "bitmapSize ex_header = 512" "full_sectors ex_header = 2"
  by (simp_all add: batSize_def fullBlockSize_def bitmapSize_def sectorsOfBitmap_def
      full_sectors_def sectorsPerBlock_def layout_defs ceil_div_def SECTOR_SIZE_def Let_def)

lemma funpow_same: "((\<lambda>x. x) ^^ n) y = y"
  by (induction n) simp_all

lemma ex_end_headers: "getEndOfHeaders ex_header = 2048"
  by (simp add: getEndOfHeaders_def) (simp add: ex_defs PLATFORM_NONE_def funpow_same)

section \<open>A file without blocks\<close>

definition empty_file :: "buffer \<Rightarrow> vhd_file" where
  "empty_file content = \<lparr>vf_content = content, vf_header = ex_header, vf_footer = ex_footer,
     vf_blockTable = Some (replicate 512 0xff)\<rparr>"

lemma empty_file_simps [simp]:
  "vf_header (empty_file c) = ex_header" "vf_footer (empty_file c) = ex_footer"
  "vf_blockTable (empty_file c) = Some (replicate 512 0xff)" "vf_content (empty_file c) = c"
  by (simp_all add: empty_file_def)

lemma unused_entry: "4 * i + 4 \<le> n \<Longrightarrow> bat_entry (replicate n 0xff) i = BLOCK_UNUSED"
proof -
  assume "4 * i + 4 \<le> n"
  then have "buf_slice (replicate n 0xff) (4 * i) (4 * i + 4) = replicate 4 (0xff :: byte)"
    by (simp add: buf_slice_def min_def)
  moreover have "replicate 4 (0xff :: byte) = [0xff, 0xff, 0xff, 0xff]"
    by (simp add: numeral_eq_Suc replicate_Suc)
  moreover have "of_be [0xff, 0xff, 0xff, 0xff] = BLOCK_UNUSED"
    by (simp add: of_be_def BLOCK_UNUSED_def)
  ultimately show ?thesis by (simp add: bat_entry_def)
qed

lemma empty_file_unallocated: "\<not> allocated (empty_file c) i"
  by (simp add: vf_entry_def unused_entry)

lemma empty_file_inv: "vf_inv (empty_file c)"
  using empty_file_unallocated [of c]
  by (simp add: vf_inv_def wf_table_def wf_layout_def) (simp add: vhd_sizes)

lemma empty_file_end: "vf_end (empty_file c) = 4"
proof -
  have "fold (\<lambda>i e. if allocated (empty_file c) i
      then max e (vf_entry (empty_file c) i + full_sectors (vf_header (empty_file c))) else e) xs e = e" for xs e
    using empty_file_unallocated [of c] by (induction xs) auto
  then show ?thesis unfolding vf_end_def by (simp add: ex_end_headers ceil_div_def SECTOR_SIZE_def)
qed

lemma empty_file_blocks: "file_blocks (empty_file c) = Map.empty"
  using empty_file_unallocated [of c] by (simp add: file_blocks_def fun_eq_iff)

text \<open>The same file with its header and its table on the disk.\<close>

definition ex_content :: buffer where
  "ex_content = replicate 512 0 @ fuHeader_pack fu_reference ex_header @ replicate 512 0xff"

definition ex_file :: vhd_file where
  "ex_file = empty_file ex_content"

lemma ex_file_synced: "disk_synced fu_reference ex_file"
proof -
  have len: "length (fuHeader_pack fu_reference ex_header) = 1024"
    using fu_ref.fuHeader_size [of ex_header] by (simp add: HEADER_SIZE_def)
  then show ?thesis
    using ex_wf(2) ex_checksum
    by (simp add: disk_synced_def ex_file_def Let_def ex_content_def file_read_def vhd_sizes)
qed

section \<open>A file with one block\<close>

definition one_block_table :: buffer where
  "one_block_table = [0, 0, 0, 4] @ replicate 508 0xff"

definition one_block_file :: vhd_file where
  "one_block_file = (empty_file (replicate 3072 0))\<lparr>vf_blockTable := Some one_block_table\<rparr>"

lemma one_block_fields [simp]:
  "vf_header one_block_file = ex_header" "vf_footer one_block_file = ex_footer"
  "vf_blockTable one_block_file = Some one_block_table" "vf_content one_block_file = replicate 3072 0"
  by (simp_all add: one_block_file_def)

lemma one_block_length [simp]: "length one_block_table = 512"
  by (simp add: one_block_table_def)

lemma one_block_entry: "vf_entry one_block_file i = (if i = 0 then 4 else BLOCK_UNUSED)"
proof (cases i)
  case 0
  have "bat_entry one_block_table 0 = 4"
    by (simp add: bat_entry_def buf_slice_def one_block_table_def of_be_def)
  with 0 show ?thesis by (simp add: vf_entry_def)
next
  case (Suc j)
  have "drop (4 + n) (0 # 0 # 0 # 4 # bs) = drop n bs" for n and bs :: buffer
    by (simp add: numeral_eq_Suc)
  then have "bat_entry one_block_table (Suc j) = bat_entry (replicate 508 0xff) j"
    by (simp add: bat_entry_def buf_slice_def one_block_table_def)
  with Suc show ?thesis by (auto simp: vf_entry_def unused_entry)
qed

lemma one_block_allocated: "allocated one_block_file i \<longleftrightarrow> i = 0"
  by (simp add: one_block_entry BLOCK_UNUSED_def)

lemma one_block_inv: "vf_inv one_block_file"
  unfolding vf_inv_def one_block_allocated
  by (simp add: one_block_entry wf_table_def wf_layout_def ex_end_headers) (simp add: vhd_sizes)

lemma one_block_end: "vf_end one_block_file = 6"
proof -
  have "vf_end one_block_file = fold (\<lambda>i e. if i = 0 then max e 6 else e) [0..<128] 4"
    unfolding vf_end_def one_block_allocated
    by (rule fold_cong) (simp_all add: one_block_entry ex_end_headers ceil_div_def SECTOR_SIZE_def fun_eq_iff)
  also have "\<dots> = fold (\<lambda>i e. if i = 0 then max e 6 else e) [1..<128] (max 4 6)"
    by (simp add: upt_conv_Cons)
  also have "\<dots> = max 4 6"
  proof -
    have "fold (\<lambda>i e. if i = 0 then max e 6 else e) xs x = x" if "0 \<notin> set xs" for xs :: "nat list" and x :: nat
      using that by (induction xs) auto
    then show ?thesis by simp
  qed
  finally show ?thesis by simp
qed

section \<open>Directories\<close>

definition ex_dir :: vhd_dir where
  "ex_dir = \<lparr>vd_files = Map.empty, vd_filters = (\<lambda>_. None), vd_path = ''/parent'', vd_flags = ''r+'',
     vd_compressor = zeros_compressor (\<lambda>n. replicate n 0), vd_header = Some ex_header, vd_footer = ex_footer,
     vd_blockTable = Some (replicate 16 0)\<rparr>"

lemma ex_dir_fields [simp]: "dir_header ex_dir = ex_header" "vd_footer ex_dir = ex_footer"
  by (simp_all add: dir_header_def ex_dir_def)

lemma bitmap_test_zeros: "\<not> bitmap_test (replicate n 0) i"
  by (simp add: bitmap_test_def Let_def cong: conj_cong)

lemma ex_dir_blocks: "dir_blocks ex_dir = Map.empty"
  by (simp add: dir_blocks_def ex_dir_def bitmap_test_zeros fun_eq_iff)

lemma ex_dir_inv: "dir_inv ex_dir"
  using lossless_zeros [of "\<lambda>n. replicate n 0"] by (simp add: dir_inv_def ex_dir_def bitmap_test_zeros)

text \<open>A directory with a child directory on the same remote that holds one block.\<close>

definition ex_pair :: vhd_dir where
  "ex_pair = ex_dir\<lparr>vd_compressor := NULL_COMPRESSOR,
     vd_files := [(''/child'', getBlockPath 3) \<mapsto> replicate 1024 5]\<rparr>"

definition ex_child_blocks :: "nat \<Rightarrow> buffer option" where
  "ex_child_blocks = [3 \<mapsto> replicate 1024 5]"

lemma ex_pair_inv: "dir_merge_inv ''/child'' (comp_id NULL_COMPRESSOR) ex_child_blocks ex_pair"
  using lossless_none
  by (auto simp: dir_merge_inv_def ex_pair_def ex_dir_def dir_inv_def bitmap_test_zeros
      ex_child_blocks_def getBlockPath_inj split: if_splits) (simp add: NULL_COMPRESSOR_def)

lemma ex_pair_pending: "dir_pending ''/child'' ex_pair 3"
  by (simp add: dir_pending_def ex_pair_def)

lemma ex_pair_header [simp]: "dir_header ex_pair = ex_header"
  by (simp add: ex_pair_def ex_dir_def dir_header_def)

section \<open>Merging a file\<close>

text \<open>A child with a table of 256 blocks that has the block 200, which the table of \<open>ex_file\<close> has no entry for.\<close>

definition wide_file :: vhd_file where
  "wide_file = \<lparr>vf_content = replicate 3584 0, vf_header = ex_header\<lparr>maxTableEntries := 256\<rparr>,
     vf_footer = ex_footer, vf_blockTable = Some (buf_copy (be 4 5) (replicate 1024 0xff) (4 * 200))\<rparr>"

lemma wide_fields [simp]:
  "vf_header wide_file = ex_header\<lparr>maxTableEntries := 256\<rparr>" "vf_footer wide_file = ex_footer"
  "length (vf_content wide_file) = 3584"
  by (simp_all add: wide_file_def)

lemma wide_sizes [simp]:
  "fullBlockSize (ex_header\<lparr>maxTableEntries := n\<rparr>) = 1024" "full_sectors (ex_header\<lparr>maxTableEntries := n\<rparr>) = 2"
  "batSize (ex_header\<lparr>maxTableEntries := 256\<rparr>) = 1024"
  by (simp_all add: batSize_def fullBlockSize_def sectorsOfBitmap_def full_sectors_def sectorsPerBlock_def layout_defs
      ceil_div_def SECTOR_SIZE_def Let_def)

lemma wide_entry: "vf_entry wide_file i = (if i = 200 then 5 else BLOCK_UNUSED)"
  using bat_entry_copy [of 200 "replicate 1024 (0xff :: byte)" i 5]
  by (auto simp: vf_entry_def wide_file_def unused_entry)

lemma wide_allocated: "allocated wide_file i \<longleftrightarrow> i = 200"
  by (simp add: wide_entry BLOCK_UNUSED_def)

lemma wide_end_headers: "getEndOfHeaders (ex_header\<lparr>maxTableEntries := 256\<rparr>) = 2560"
  by (simp add: getEndOfHeaders_def batSize_def) (simp add: ex_defs PLATFORM_NONE_def funpow_same layout_defs ceil_div_def Let_def)

lemma wide_inv: "vf_inv wide_file"
  unfolding vf_inv_def wide_allocated
  by (simp add: wide_entry wf_table_def wf_layout_def wide_end_headers) (simp add: wide_file_def vhd_sizes)

lemma ex_mergeable: "mergeable (file_view wide_file) ex_file"
proof -
  have "length b = 1024" if "child_bytes (file_view wide_file) k = Some b" for k b
    using that length_block_bytes [OF wide_inv, of k]
    by (simp add: child_bytes_def file_view_blocks [OF wide_inv] file_blocks_def wide_allocated
        mk_block_def split: if_splits)
  then show ?thesis
    using file_view_readable [OF wide_inv] unfolding mergeable_def ex_file_def by simp
qed

lemma ex_merge_room: "merge_room 256 ex_file"
  by (simp add: merge_room_def Let_def ex_file_def free_bound_def empty_file_end layout_defs ceil_div_def
      SECTOR_SIZE_def BLOCK_UNUSED_def)

lemma ex_grown_wf: "wf_header (grown_header 256 ex_header)"
  using ex_wf(2) by (simp add: grown_header_def wf_header_def)

end
