(* ===== verification/Vhd_Properties.thy ===== *)
theory Vhd_Properties
  imports Vhd_Examples
begin

text \<open>
  The properties of vhd-lib and of the VHD part of the backups: the file and directory formats, the
  synthetic and negative disks, the aliases, the zero filter and the merge, each applied at a small VHD.
\<close>

section \<open>VHD files\<close>

text \<open>
  C2: Writing a block into a VHD file succeeds as long as a sector number is left for it, keeps the
  invariant of the file (every allocated block has its own sectors, behind the headers and inside the
  file), and afterwards that block reads as the bytes written, every other block as before.
\<close>

theorem write_read:
  assumes "vf_inv s" and "k < maxTableEntries (vf_header s)" and "vf_end s < BLOCK_UNUSED"
    and "length buf = fullBlockSize (vf_header s)"
  shows "\<exists>s'. writeEntireBlock k buf s = Inr s' \<and> vf_inv s' \<and> vf_header s' = vf_header s \<and>
    readBlock s' k False = Inr (FullBlock k (take (bitmapSize (vf_header s)) buf)
      (drop (bitmapSize (vf_header s)) buf) buf) \<and>
    (\<forall>i onlyBitmap. i \<noteq> k \<longrightarrow> readBlock s' i onlyBitmap = readBlock s i onlyBitmap)"
proof -
  obtain s' where s': "writeEntireBlock k buf s = Inr s'" "placed s k (write_addr s k) buf s'" "vf_inv s'"
    using writeEntireBlock_placed [OF assms] by metis
  have h: "vf_header s' = vf_header s" using s'(2) by (simp add: placed_def)
  have "write_addr s k \<noteq> BLOCK_UNUSED" using assms(3) by (simp add: write_addr_def)
  then show ?thesis
    using s' h placed_blocks [OF s'(2)]
    by (auto simp: readBlock_eq [OF s'(3)] readBlock_eq [OF assms(1)] mk_block_def buf_slice_def)
qed

theorem write_read_witness:
  "\<exists>s'. writeEntireBlock 3 (replicate 1024 9) ex_file = Inr s' \<and> vf_inv s' \<and> vf_header s' = vf_header ex_file \<and>
    readBlock s' 3 False = Inr (FullBlock 3 (take (bitmapSize (vf_header ex_file)) (replicate 1024 9))
      (drop (bitmapSize (vf_header ex_file)) (replicate 1024 9)) (replicate 1024 9)) \<and>
    (\<forall>i onlyBitmap. i \<noteq> 3 \<longrightarrow> readBlock s' i onlyBitmap = readBlock ex_file i onlyBitmap)"
  by (rule write_read) (simp_all add: ex_file_def empty_file_inv empty_file_end BLOCK_UNUSED_def)

text \<open>
  C1: A block written into a VHD file is durable: after the block and the footer are written, opening
  the content of the file again (headers with their checksums, then the allocation table) shows exactly
  the blocks of the file with this one added or replaced.
\<close>

theorem write_durable:
  assumes codec: "struct_fu_codec fu" and inv: "vf_inv s" and sync: "disk_synced fu s"
    and k: "k < maxTableEntries (vf_header s)" and room: "vf_end s < BLOCK_UNUSED"
    and len: "length buf = fullBlockSize (vf_header s)"
    and footer: "wf_footer (vf_footer s)" "checkFooter (vf_footer s) = Inr ()"
    and header: "checkHeader (vf_header s) (Some (vf_footer s)) = Inr ()"
  shows "\<exists>s1 s2 s3 s4. writeEntireBlock k buf s = Inr s1 \<and> writeFooter fu False s1 = Inr s2 \<and>
    vf_open fu True blank (vf_content s2) = Inr s3 \<and> readBlockAllocationTable s3 = Inr s4 \<and>
    vf_inv s4 \<and> file_blocks s4 = (file_blocks s)(k \<mapsto> buf)"
proof -
  obtain s1 where s1: "writeEntireBlock k buf s = Inr s1" "placed s k (write_addr s k) buf s1" "vf_inv s1"
      "vf_footer s1 = vf_footer s"
    using writeEntireBlock_placed [OF inv k room len] by metis
  have h1: "vf_header s1 = vf_header s" using s1(2) by (simp add: placed_def)
  have used: "write_addr s k \<noteq> BLOCK_UNUSED" using room by (simp add: write_addr_def)
  have blocks1: "file_blocks s1 = (file_blocks s)(k \<mapsto> buf)"
    using placed_blocks [OF s1(2)] used by (auto simp: file_blocks_def fun_eq_iff)
  have sync1: "disk_synced fu s1"
    using writeEntireBlock_synced [OF inv k room sync s1(1)] .
  obtain s2 where s2: "writeFooter fu False s1 = Inr s2" "vf_inv s2" "same_blocks s1 s2" "vf_header s2 = vf_header s1"
      "vf_footer s2 = with_checksum fu (vf_footer s1)" "disk_synced fu s2" "footer_synced fu s2"
    using struct_fu_codec.writeFooter_synced [OF codec s1(3) sync1] footer(1) s1(4) by metis
  have checks: "checkFooter (vf_footer s2) = Inr ()" "checkHeader (vf_header s2) (Some (vf_footer s2)) = Inr ()"
    using footer(2) header s2(4,5) h1 s1(4) by (simp_all add: with_checksum_def checkFooter_def checkHeader_def)
  obtain s3 s4 where s34: "vf_open fu True blank (vf_content s2) = Inr s3" "readBlockAllocationTable s3 = Inr s4"
      "vf_inv s4" "same_blocks s2 s4" "vf_header s4 = vf_header s2"
    using struct_fu_codec.reopen [OF codec s2(2,6,7) checks] by metis
  have "file_blocks s4 = file_blocks s1"
    using same_blocks_file [OF s2(4) s2(3)] same_blocks_file [OF s34(5,4)] by simp
  with s1(1) s2(1) s34(1-3) blocks1 show ?thesis by auto
qed

theorem write_durable_witness:
  "\<exists>s1 s2 s3 s4. writeEntireBlock 3 (replicate 1024 9) ex_file = Inr s1 \<and> writeFooter fu_reference False s1 = Inr s2 \<and>
    vf_open fu_reference True ex_file (vf_content s2) = Inr s3 \<and> readBlockAllocationTable s3 = Inr s4 \<and>
    vf_inv s4 \<and> file_blocks s4 = (file_blocks ex_file)(3 \<mapsto> replicate 1024 9)"
  by (rule write_durable [OF fu_ref.struct_fu_codec_axioms])
    (simp_all add: ex_file_synced [unfolded ex_file_def] ex_file_def empty_file_inv empty_file_end BLOCK_UNUSED_def
       ex_wf ex_check)

text \<open>
  C26: Making room behind the headers moves blocks to the end of the file and loses none: every allocated
  block keeps its bytes, and when at most one block of room is asked for, that room is free afterwards.
\<close>

theorem freeFirstBlockSpace_safe:
  assumes "vf_inv s" and "free_bound s n < BLOCK_UNUSED"
  shows "\<exists>s'. freeFirstBlockSpace fu n s = Inr s' \<and> vf_inv s' \<and> file_blocks s' = file_blocks s \<and>
    (n \<le> fullBlockSize (vf_header s) \<longrightarrow> (\<forall>i. allocated s' i \<longrightarrow>
       tableOffset (vf_header s) + batSize (vf_header s) + n \<le> vf_entry s' i * SECTOR_SIZE))"
  using freeFirstBlockSpace_keeps [OF assms, of fu] same_blocks_file by metis

theorem freeFirstBlockSpace_safe_witness:
  "\<exists>s'. freeFirstBlockSpace fu_reference 1024 one_block_file = Inr s' \<and> vf_inv s' \<and> file_blocks s' = file_blocks one_block_file \<and>
    (1024 \<le> fullBlockSize (vf_header one_block_file) \<longrightarrow> (\<forall>i. allocated s' i \<longrightarrow>
       tableOffset (vf_header one_block_file) + batSize (vf_header one_block_file) + 1024 \<le> vf_entry s' i * SECTOR_SIZE))"
  by (rule freeFirstBlockSpace_safe)
    (simp_all add: one_block_inv free_bound_def one_block_end ceil_div_def SECTOR_SIZE_def BLOCK_UNUSED_def)

text \<open>
  Growing the allocation table keeps the invariant and the bytes of every block, with the number of
  entries asked for, when the table grows by no more than the size of one block.
\<close>

theorem ensureBatSize_safe:
  assumes "vf_inv s" and "\<And>t. vf_blockTable s = Some t \<Longrightarrow> length t = 4 * maxTableEntries (vf_header s)"
    and "maxTableEntries (vf_header s) < entries"
    and "computeBatSize entries - batSize (vf_header s) \<le> fullBlockSize (vf_header s)"
    and "free_bound s (computeBatSize entries - batSize (vf_header s)) < BLOCK_UNUSED"
    and "length (fuHeader_pack fu ((vf_header s)\<lparr>maxTableEntries := entries\<rparr>)) \<le> HEADER_SIZE"
  shows "\<exists>s'. ensureBatSize fu entries s = Inr s' \<and> vf_inv s' \<and> same_blocks s s' \<and>
    maxTableEntries (vf_header s') = entries"
  using ensureBatSize_keeps [OF assms] by auto

theorem ensureBatSize_safe_witness:
  "\<exists>s'. ensureBatSize fu_reference 256 one_block_file = Inr s' \<and> vf_inv s' \<and> same_blocks one_block_file s' \<and>
    maxTableEntries (vf_header s') = 256"
  by (rule ensureBatSize_safe)
    (simp_all add: one_block_inv free_bound_def one_block_end fu_ref.fuHeader_size layout_defs
      ceil_div_def Let_def SECTOR_SIZE_def BLOCK_UNUSED_def)

text \<open>
  C29: A footer or a header that passes its check is read back unchanged, checksum included, from the
  bytes that are written for it.
\<close>

theorem headers_roundtrip:
  assumes "struct_fu_codec fu" and "wf_footer f" and "checkFooter f = Inr ()"
    and "wf_header h" and "checkHeader h (Some f) = Inr ()"
  shows "unpackFooter fu (fuFooter_pack fu (with_checksum fu f)) = Inr (with_checksum fu f) \<and>
    unpackHeader fu (fuHeader_pack fu (header_with_checksum fu h)) (Some f) = Inr (header_with_checksum fu h)"
  using struct_fu_codec.unpackFooter_pack [OF assms(1-3)] struct_fu_codec.unpackHeader_pack [OF assms(1,4,5)] by simp

theorem headers_roundtrip_witness:
  "unpackFooter fu_reference (fuFooter_pack fu_reference (with_checksum fu_reference ex_footer)) =
     Inr (with_checksum fu_reference ex_footer) \<and>
   unpackHeader fu_reference (fuHeader_pack fu_reference (header_with_checksum fu_reference ex_header)) (Some ex_footer) =
     Inr (header_with_checksum fu_reference ex_header)"
  by (rule headers_roundtrip [OF fu_ref.struct_fu_codec_axioms ex_wf(1) ex_check(1) ex_wf(2) ex_check(2)])

text \<open>C30: A footer with any one byte changed, the checksum included, is refused with an assertion error.\<close>

theorem corruption_rejected:
  assumes "struct_fu_codec fu" and "wf_footer f" and "checkFooter f = Inr ()" and "i < FOOTER_SIZE"
    and "v \<noteq> fuFooter_pack fu (with_checksum fu f) ! i"
  shows "unpackFooter fu ((fuFooter_pack fu (with_checksum fu f))[i := v]) = Inl AssertionError"
proof -
  let ?b = "fuFooter_pack fu (with_checksum fu f)"
  have "wf_footer (with_checksum fu f)" using struct_fu_codec.wf_with_checksum [OF assms(1,2)] .
  then have len: "length ?b = struct_size FuFooter"
    using struct_fu_codec.fuFooter_size [OF assms(1)] by (simp add: wf_footer_def)
  obtain b0 where b0: "assertChecksum fu ?b FuFooter = Inr b0"
    using struct_fu_codec.unpackFooter_pack [OF assms(1-3)]
    by (cases "assertChecksum fu ?b FuFooter") (simp_all add: unpackFooter_def)
  have "assertChecksum fu (?b[i := v]) FuFooter = Inl AssertionError"
    using struct_fu_codec.assertChecksum_corrupted [OF assms(1) len b0 _ assms(5)] assms(4) by simp
  then show ?thesis by (simp add: unpackFooter_def)
qed

theorem corruption_rejected_witness:
  "unpackFooter fu_reference ((fuFooter_pack fu_reference (with_checksum fu_reference ex_footer))
     [100 := fuFooter_pack fu_reference (with_checksum fu_reference ex_footer) ! 100 + 1]) = Inl AssertionError"
  by (rule corruption_rejected [OF fu_ref.struct_fu_codec_axioms ex_wf(1) ex_check(1)])
    (simp_all add: FOOTER_SIZE_def)

text \<open>
  C40: The geometry computed for any disk size fits the fields of the footer (16 bits of cylinders, 8 bits
  of sectors per track, at most 16 heads), and the size it describes covers the disk, up to the largest
  size that CHS addressing can express, with less than one cylinder of excess.
\<close>

theorem computeGeometry_fits:
  "case computeGeometryForSize d of (g, actual) \<Rightarrow>
     cylinders g \<le> 65535 \<and> 0 < heads g \<and> heads g \<le> 16 \<and>
     0 < sectorsPerTrackCylinder g \<and> sectorsPerTrackCylinder g \<le> 255 \<and>
     actual = cylinders g * heads g * sectorsPerTrackCylinder g * SECTOR_SIZE \<and>
     min d (65535 * 16 * 255 * SECTOR_SIZE) \<le> actual \<and>
     actual < d + heads g * sectorsPerTrackCylinder g * SECTOR_SIZE"
proof -
  define t where "t = min (ceil_div d 512) (65535 * 16 * 255)"
  obtain spt hds where g: "computeGeometryForSize d =
      (\<lparr>cylinders = ceil_div t (spt * hds), heads = hds, sectorsPerTrackCylinder = spt\<rparr>,
       ceil_div t (spt * hds) * hds * spt * SECTOR_SIZE)"
      and b: "0 < hds" "hds \<le> 16" "0 < spt" "spt \<le> 255" "t \<le> 65535 * (spt * hds)"
    using computeGeometry_spec [OF t_def] by blast
  let ?m = "spt * hds"
  have m: "0 < ?m" using b by simp
  have cyl: "ceil_div t ?m \<le> 65535" using ceil_div_le_iff [OF m] b(5) by simp
  have "t \<le> ceil_div t ?m * ?m" using ceil_div_le_iff [OF m, of t "ceil_div t ?m"] by simp
  moreover have "ceil_div t ?m * ?m < t + ?m"
  proof (rule ccontr)
    assume *: "\<not> ?thesis"
    then have "t \<le> (ceil_div t ?m - 1) * ?m" by (simp add: diff_mult_distrib)
    then have "ceil_div t ?m \<le> ceil_div t ?m - 1" using ceil_div_le_iff [OF m, of t "ceil_div t ?m - 1"] by simp
    then have "ceil_div t ?m = 0" by simp
    with * m show False by simp
  qed
  moreover have "min d (65535 * 16 * 255 * 512) \<le> t * 512"
  proof -
    have "d \<le> ceil_div d 512 * 512" using ceil_div_le_iff [of 512 d "ceil_div d 512"] by simp
    then show ?thesis by (simp add: t_def min_def)
  qed
  moreover have "t * 512 < d + 512"
  proof -
    have "ceil_div d 512 * 512 < d + 512" by (simp add: ceil_div_def)
    then show ?thesis by (simp add: t_def min_def)
  qed
  moreover have "ceil_div t ?m * hds * spt = ceil_div t ?m * ?m" by (simp add: mult.commute mult.left_commute)
  ultimately show ?thesis using b cyl
    by (simp only: g case_prod_conv disk_geometry.select_convs SECTOR_SIZE_def)
      (simp add: min_def mult.commute [of hds spt] split: if_splits)
qed

text \<open>
  Assigning the header of a VHD file allocates a table whose padding is filled with zeros instead of
  the unused mark, so that the file claims to contain a block right after its last one.
\<close>

theorem header_setter_phantom:
  assumes "4 * maxTableEntries h + 4 \<le> batSize h"
  shows "\<exists>s'. set_header h s = Inr s' \<and> containsBlock s' (maxTableEntries h) = Inr True \<and>
    (\<forall>i < maxTableEntries h. containsBlock s' i = Inr False)"
proof -
  obtain t where t: "set_header h s = Inr (s\<lparr>vf_header := h, vf_blockTable := Some t\<rparr>)" "length t = batSize h"
      "\<And>i. 4 * i + 4 \<le> batSize h \<Longrightarrow> bat_entry t i = (if i < maxTableEntries h then BLOCK_UNUSED else 0)"
    using set_header_table [of h s] by blast
  have entry: "getBatEntry (s\<lparr>vf_header := h, vf_blockTable := Some t\<rparr>) i = Inr (bat_entry t i)"
    if "4 * i + 4 \<le> batSize h" for i
    using that t(2) by (simp add: getBatEntry_def vf_table_def readUInt32BE_def bat_entry_def mult.commute)
  have "4 * i + 4 \<le> batSize h" if "i < maxTableEntries h" for i using that assms by linarith
  then show ?thesis using assms t entry by (simp add: containsBlock_def BLOCK_UNUSED_def)
qed

theorem header_setter_phantom_witness:
  "\<exists>s'. set_header (ex_header\<lparr>maxTableEntries := 100\<rparr>) ex_file = Inr s' \<and>
    containsBlock s' (maxTableEntries (ex_header\<lparr>maxTableEntries := 100\<rparr>)) = Inr True \<and>
    (\<forall>i < maxTableEntries (ex_header\<lparr>maxTableEntries := 100\<rparr>). containsBlock s' i = Inr False)"
  by (rule header_setter_phantom) (simp add: batSize_def layout_defs ceil_div_def SECTOR_SIZE_def Let_def)

section \<open>VHD directories\<close>

text \<open>
  A block written into a VHD directory is read back through the compressor of the directory as the
  bytes written, the directory then contains it, and every other block is kept.
\<close>

theorem directory_write_read:
  assumes "dir_inv d" and "k < maxTableEntries (dir_header d)" and "length b = fullBlockSize (dir_header d)"
  shows "\<exists>d'. vd_writeEntireBlock k b d = Inr d' \<and> dir_inv d' \<and> vd_containsBlock d' k = Inr True \<and>
    vd_readBlock d' k False = Inr (FullBlock k (take (bitmapSize (dir_header d)) b)
      (drop (bitmapSize (dir_header d)) b) b) \<and>
    (\<forall>i. i \<noteq> k \<longrightarrow> vd_containsBlock d' i = vd_containsBlock d i \<and> dir_blocks d' i = dir_blocks d i)"
proof -
  obtain d' where d': "vd_writeEntireBlock k b d = Inr d'" "dir_inv d'" "dir_header d' = dir_header d"
      "dir_blocks d' = (dir_blocks d)(k \<mapsto> b)"
    using dir_write [OF assms] by blast
  then show ?thesis
    using dir_readBlock [OF d'(2), of k b]
    by (auto simp: dir_contains assms(1) mk_block_def buf_slice_def)
qed

theorem directory_write_read_witness:
  "\<exists>d'. vd_writeEntireBlock 3 (replicate 1024 9) ex_dir = Inr d' \<and> dir_inv d' \<and> vd_containsBlock d' 3 = Inr True \<and>
    vd_readBlock d' 3 False = Inr (FullBlock 3 (take (bitmapSize (dir_header ex_dir)) (replicate 1024 9))
      (drop (bitmapSize (dir_header ex_dir)) (replicate 1024 9)) (replicate 1024 9)) \<and>
    (\<forall>i. i \<noteq> 3 \<longrightarrow> vd_containsBlock d' i = vd_containsBlock ex_dir i \<and> dir_blocks d' i = dir_blocks ex_dir i)"
  by (rule directory_write_read) (simp_all add: ex_dir_inv)

text \<open>
  C4: The two formats agree: the same sequence of block writes, applied to a file and to a directory that
  show the same blocks, succeeds on both and leaves them showing the same blocks again, the last write
  to each number being the one that counts.
\<close>

theorem formats_agree:
  assumes "vf_inv s" and "dir_inv d" and "file_blocks s = dir_blocks d" and "length bs \<le> file_room s"
    and "\<And>k b. (k, b) \<in> set bs \<Longrightarrow> k < maxTableEntries (vf_header s) \<and> k < maxTableEntries (dir_header d) \<and>
      length b = fullBlockSize (vf_header s) \<and> length b = fullBlockSize (dir_header d)"
  shows "\<exists>s' d'. res_fold (\<lambda>(k, b). writeEntireBlock k b) bs s = Inr s' \<and>
    res_fold (\<lambda>(k, b). vd_writeEntireBlock k b) bs d = Inr d' \<and> vf_inv s' \<and> dir_inv d' \<and>
    file_blocks s' = dir_blocks d' \<and> file_blocks s' = file_blocks s ++ map_of (rev bs)"
proof -
  have each: "k < maxTableEntries (vf_header s) \<and> length b = fullBlockSize (vf_header s)"
      "k < maxTableEntries (dir_header d) \<and> length b = fullBlockSize (dir_header d)" if "(k, b) \<in> set bs" for k b
    using assms(5) [OF that] by blast+
  show ?thesis
    using file_store.write_all [OF assms(1,4) each(1)] dir_store.write_all [OF assms(2) order_refl each(2)] assms(3)
    by fastforce
qed

theorem formats_agree_witness:
  "\<exists>s' d'. res_fold (\<lambda>(k, b). writeEntireBlock k b) [(3, replicate 1024 9), (3, replicate 1024 8)] ex_file = Inr s' \<and>
    res_fold (\<lambda>(k, b). vd_writeEntireBlock k b) [(3, replicate 1024 9), (3, replicate 1024 8)] ex_dir = Inr d' \<and>
    vf_inv s' \<and> dir_inv d' \<and> file_blocks s' = dir_blocks d' \<and>
    file_blocks s' = file_blocks ex_file ++ map_of (rev [(3, replicate 1024 9), (3, replicate 1024 8)])"
proof (rule formats_agree)
  show "length [(3 :: nat, replicate 1024 9), (3, replicate 1024 (8 :: byte))] \<le> file_room ex_file"
    by (simp add: ex_file_def file_room_def empty_file_end BLOCK_UNUSED_def)
qed (auto simp: ex_file_def empty_file_inv ex_dir_inv empty_file_blocks ex_dir_blocks)

section \<open>Chains\<close>

text \<open>
  C28: A synthetic VHD shows, for each block, what the most recent VHD of its chain that contains the
  block shows, and contains no other block. The chain is given from the root to the most recent VHD, as the code takes it
  (the comment of the constructor has it the other way round).
\<close>

theorem synthetic_overlay:
  assumes "VhdSynthetic vhds = Inr v" and "\<forall>w \<in> set vhds. readable w"
  shows "readable v \<and> view_block v = chain_blocks vhds \<and>
    (\<forall>i. v_contains v i = Inr (\<exists>w \<in> set vhds. view_block w i \<noteq> None))"
proof -
  have v: "v = syn_view vhds" using assms(1) by (auto simp: VhdSynthetic_def res_bind_Inr_iff)
  have "chain_blocks vhds i \<noteq> None \<longleftrightarrow> (\<exists>w \<in> set vhds. view_block w i \<noteq> None)" for i
  proof (induction vhds)
    case Nil
    then show ?case by (simp add: chain_blocks_def)
  next
    case (Cons w ws)
    then show ?case by (simp add: chain_blocks_Cons del: not_None_eq) blast
  qed
  then show ?thesis
    using syn_view_blocks [OF assms(2)] view_block_readable(1) unfolding v by simp
qed

theorem synthetic_overlay_witness:
  "readable (syn_view [file_view one_block_file, file_view one_block_file]) \<and>
   view_block (syn_view [file_view one_block_file, file_view one_block_file]) =
     chain_blocks [file_view one_block_file, file_view one_block_file] \<and>
   (\<forall>i. v_contains (syn_view [file_view one_block_file, file_view one_block_file]) i =
     Inr (\<exists>w \<in> set [file_view one_block_file, file_view one_block_file]. view_block w i \<noteq> None))"
  by (rule synthetic_overlay)
    (simp_all add: file_view_readable one_block_inv VhdSynthetic_def js_assert_def ex_footer_def)

text \<open>
  The negative of a child reverts it: a chain made of the parent, the child and their negative shows
  the data of the parent, on every block.
\<close>

theorem negative_reverts:
  assumes "VhdNegative parent child = Inr v" and "readable parent" and "readable child"
  shows "readable v \<and> disk_data (blockSize (v_header parent)) (chain_blocks [parent, child, v]) =
    disk_data (blockSize (v_header parent)) (view_block parent)"
proof -
  have v: "v = neg_view parent child" using assms(1) by (auto simp: VhdNegative_def res_bind_Inr_iff)
  have "readable v"
    using assms(2,3) neg_view_blocks [OF assms(2,3)] unfolding v readable_def
    by (auto simp: neg_view_def neg_readBlock_def Let_def split: option.splits if_splits)
  then show ?thesis
    using neg_reverts [OF assms(2,3)] by (simp add: v chain_blocks_def)
qed

theorem negative_reverts_witness:
  "readable (neg_view (file_view one_block_file) (file_view one_block_file)) \<and>
   disk_data (blockSize (v_header (file_view one_block_file)))
     (chain_blocks [file_view one_block_file, file_view one_block_file,
        neg_view (file_view one_block_file) (file_view one_block_file)]) =
   disk_data (blockSize (v_header (file_view one_block_file))) (view_block (file_view one_block_file))"
  by (rule negative_reverts)
    (simp_all add: file_view_readable one_block_inv VhdNegative_def js_assert_def ex_footer_def)

text \<open>
  Opening a chain of VHDs ends: when the parent paths get strictly smaller in some measure, the loop
  that follows them returns, with the synthetic VHD or with an error.
\<close>

theorem chain_ends:
  fixes rank :: "'p \<Rightarrow> nat"
  assumes "\<And>p v. openVhd p = Inr v \<Longrightarrow> diskType (v_footer v) \<noteq> DISK_TYPE_DYNAMIC \<Longrightarrow>
      rank (resolve p (parentUnicodeName (v_header v))) < rank p"
  shows "\<exists>r. fromVhdChain openVhd resolve until childPath = Some r"
proof -
  obtain r where "chain_from openVhd resolve until childPath [] = Some r"
    using chain_from_returns [of openVhd rank resolve] assms by blast
  then show ?thesis by (simp add: fromVhdChain_def)
qed

theorem chain_ends_witness:
  "\<exists>r. fromVhdChain (\<lambda>p. if p = 0 then Inl (Errno ''ENOENT'') else Inr (file_view one_block_file))
     (\<lambda>p _. p - 1) None (5 :: nat) = Some r"
  by (rule chain_ends [of _ id]) (simp split: if_splits)

section \<open>Aliases\<close>

text \<open>
  An alias that is created for a target resolves to that target, from any directory to any other.
\<close>

theorem alias_roundtrip:
  assumes "\<forall>w \<in> set (dir @ [name]). plain_segment w" and "\<forall>w \<in> set ts. plain_segment w"
    and "createAlias (absolute (dir @ [name])) (absolute ts) r = Inr r'"
    and "js_trim (join_path (relative_segments dir ts)) = join_path (relative_segments dir ts)"
  shows "resolveVhdAlias isEncrypted r' (absolute (dir @ [name])) = Inr (absolute ts)"
  by (rule createAlias_resolve [OF assms])

theorem alias_roundtrip_witness:
  "resolveVhdAlias False ((Map.empty :: unit remote)(absolute ([''a''] @ [''x.alias.vhd'']) := Some (AliasFile ''../b/y.vhd'')))
     (absolute ([''a''] @ [''x.alias.vhd''])) = Inr (absolute [''b'', ''y.vhd''])"
  by (rule alias_roundtrip [where r = Map.empty])
    (simp_all add: plain_segment_def createAlias_def isVhdAlias_def is_suffix_def absolute_def dirname_def
      resolve_segments_def norm_segments_def push_segment_def is_absolute_def js_trim_def is_space_def
      ALIAS_MAX_PATH_LENGTH_def Let_def)

text \<open>
  Whatever an alias file holds, the path it resolves to is normalised: it has no empty segment, no
  \<open>.\<close> and no \<open>..\<close>, so that it stays under the root of the remote.
\<close>

theorem alias_confined:
  assumes "resolveVhdAlias isEncrypted r filename = Inr p" and "isVhdAlias filename" and "is_absolute filename"
  shows "\<exists>ws. p = absolute ws \<and> (\<forall>w \<in> set ws. plain_segment w)"
proof -
  obtain content where "p = absolute (resolve_segments (dirname filename) (js_trim content))"
    using assms by (auto simp: resolveVhdAlias_def resolveRelativeFromFile_def Let_def
        split: option.splits remote_entry.splits if_splits)
  then show ?thesis using resolve_plain by blast
qed

theorem alias_confined_witness:
  "\<exists>ws. ''/etc/passwd'' = absolute ws \<and> (\<forall>w \<in> set ws. plain_segment w)"
  by (rule alias_confined [of False "(Map.empty :: unit remote)(''/a/x.alias.vhd'' := Some (AliasFile ''../../../etc/passwd''))"
        "''/a/x.alias.vhd''"])
    (simp_all add: resolveVhdAlias_def resolveRelativeFromFile_def isVhdAlias_def is_suffix_def absolute_def dirname_def
      resolve_segments_def norm_segments_def push_segment_def is_absolute_def js_trim_def is_space_def
      ALIAS_MAX_PATH_LENGTH_def Let_def)

section \<open>The zero filter\<close>

text \<open>
  C27: Removing the zero pages of a stream of less than 4 GiB and restoring them gives the stream back,
  whatever the chunks it comes in and whatever the memory of the restored buffer held.
\<close>

theorem zero_filter_roundtrip:
  assumes "length (concat parts) \<le> 0xffffffff" and "\<And>n. length (allocUnsafe n) = n"
  shows "\<exists>out. removeZeroPages parts = Inr out \<and> restoreZeroPages allocUnsafe (concat out) = Inr (concat parts)"
proof -
  obtain h rest where "removeZeroPages parts = Inr (h # rest)"
    using removeZeroPages_spec [OF assms(1)] by metis
  then show ?thesis using restoreZeroPages_removed [OF _ assms(2)] by blast
qed

theorem zero_filter_roundtrip_witness:
  "\<exists>out. removeZeroPages [[0, 0], [1, 2]] = Inr out \<and>
     restoreZeroPages (\<lambda>n. replicate n 7) (concat out) = Inr (concat [[0, 0], [1, 2]])"
  by (rule zero_filter_roundtrip) simp_all

text \<open>
  What the filter writes is the length of the stream, one bit per page, and the pages that have a
  non-zero byte, and nothing else.
\<close>

theorem zero_filter_stores:
  assumes "length (concat parts) \<le> 0xffffffff"
  shows "\<exists>h rest. removeZeroPages parts = Inr (h # rest) \<and> filter_header (concat parts) h \<and>
    concat rest = stored_pages (concat parts) (ceil_pages (length (concat parts)))"
  using removeZeroPages_spec [OF assms] by metis

theorem zero_filter_stores_witness:
  "\<exists>h rest. removeZeroPages [[0, 0], [1, 2]] = Inr (h # rest) \<and> filter_header (concat [[0, 0], [1, 2]]) h \<and>
    concat rest = stored_pages (concat [[0, 0], [1, 2]]) (ceil_pages (length (concat [[0, 0], [1, 2 :: byte]])))"
  by (rule zero_filter_stores) simp

section \<open>Merging\<close>

text \<open>
  C3: Merging a child into a VHD file, from the start or resumed from a state whose blocks are already
  merged, leaves a file on the disk that, opened again with both footers checked, has the blocks of the
  child over those of the parent, a table as large as the larger of the two, and in its footer the
  identity, sizes, geometry and time of the child. The table of the parent may have to grow, by at most the size of
  one block and from a table of just its entries, as it is when it was read; a merge that is resumed finds
  it grown. The file that is merged into has its header and its table on the disk, the blocks of the child
  can be read and have the size of those of the parent, their sectors fit the entries of the table, and the merged
  footer passes its checks.
\<close>

theorem merge_file:
  assumes codec: "struct_fu_codec fu" and inv: "vf_inv s" and sync: "disk_synced fu s"
    and "mergeable v s" and "merge_room (maxTableEntries (v_header v)) s"
    and "merge_checks state (vf_header s) (vf_footer s) v = Inr ()"
    and "state \<noteq> None \<Longrightarrow> maxTableEntries (v_header v) \<le> maxTableEntries (vf_header s)"
    and "\<And>st k b. state = Some st \<Longrightarrow> k < st_currentBlock st \<Longrightarrow> child_bytes v k = Some b \<Longrightarrow>
      file_blocks s k = Some b"
    and "wf_header (grown_header (maxTableEntries (v_header v)) (vf_header s))"
    and "wf_footer (merged_footer (vf_footer s) (v_footer v))"
    and checks: "checkFooter (merged_footer (vf_footer s) (v_footer v)) = Inr ()"
      "checkHeader (grown_header (maxTableEntries (v_header v)) (vf_header s)) (Some (merged_footer (vf_footer s) (v_footer v))) =
        Inr ()"
  shows "\<exists>st' s' s3 s4. step_mergeBlocks (file_parent fu v) v state s = Inr (st', s') \<and> vf_inv s' \<and>
    file_blocks s' = file_blocks s ++ child_bytes v \<and>
    vf_open fu True blank (vf_content s') = Inr s3 \<and> readBlockAllocationTable s3 = Inr s4 \<and> vf_inv s4 \<and>
    file_blocks s4 = file_blocks s ++ child_bytes v \<and>
    maxTableEntries (vf_header s4) = max (maxTableEntries (v_header v)) (maxTableEntries (vf_header s)) \<and>
    uuid (vf_footer s4) = uuid (v_footer v) \<and> currentSize (vf_footer s4) = currentSize (v_footer v) \<and>
    originalSize (vf_footer s4) = originalSize (v_footer v) \<and> diskGeometry (vf_footer s4) = diskGeometry (v_footer v) \<and>
    timestamp (vf_footer s4) = timestamp (v_footer v)"
proof -
  obtain st' s' where s': "step_mergeBlocks (file_parent fu v) v state s = Inr (st', s')" "vf_inv s'"
      "file_blocks s' = file_blocks s ++ child_bytes v" "disk_synced fu s'" "footer_synced fu s'"
      "same_header (grown_header (maxTableEntries (v_header v)) (vf_header s)) (vf_header s')"
      "same_footer (merged_footer (vf_footer s) (v_footer v)) (vf_footer s')"
  proof -
    have "\<exists>st' s'. step_mergeBlocks (file_parent fu v) v state s = Inr (st', s') \<and> vf_inv s' \<and>
      file_blocks s' = file_blocks s ++ child_bytes v \<and> disk_synced fu s' \<and> footer_synced fu s' \<and>
      same_header (grown_header (maxTableEntries (v_header v)) (vf_header s)) (vf_header s') \<and>
      same_footer (merged_footer (vf_footer s) (v_footer v)) (vf_footer s')"
      by (rule step_mergeBlocks_file) (fact assms)+
    then show thesis using that by blast
  qed
  obtain s3 s4 where s4: "vf_open fu True blank (vf_content s') = Inr s3" "readBlockAllocationTable s3 = Inr s4"
      "vf_inv s4" "same_blocks s' s4" "vf_header s4 = vf_header s'" "vf_footer s4 = vf_footer s'"
    using struct_fu_codec.reopen [OF codec s'(2,4,5)] checks same_checks(1) [OF s'(7)] same_checks(2) [OF s'(6,7)] by metis
  have "maxTableEntries (vf_header s') = max (maxTableEntries (v_header v)) (maxTableEntries (vf_header s))"
    using s'(6) by (auto simp: same_header_def)
  moreover have "uuid (vf_footer s') = uuid (v_footer v) \<and> currentSize (vf_footer s') = currentSize (v_footer v) \<and>
      originalSize (vf_footer s') = originalSize (v_footer v) \<and> diskGeometry (vf_footer s') = diskGeometry (v_footer v) \<and>
      timestamp (vf_footer s') = timestamp (v_footer v)"
    by (rule merged_footer_fields [OF s'(7)])
  ultimately show ?thesis
    using s'(1-3) s4 same_blocks_file [OF s4(5,4)] by (intro exI [of _ st'] exI [of _ s'] exI [of _ s3] exI [of _ s4]) simp
qed

theorem merge_file_witness:
  "\<exists>st' s' s3 s4. step_mergeBlocks (file_parent fu_reference (file_view wide_file)) (file_view wide_file) None ex_file =
       Inr (st', s') \<and>
     vf_open fu_reference True ex_file (vf_content s') = Inr s3 \<and> readBlockAllocationTable s3 = Inr s4 \<and>
     file_blocks s4 = file_blocks ex_file ++ child_bytes (file_view wide_file) \<and> maxTableEntries (vf_header s4) = 256"
proof -
  have fields: "vf_header ex_file = ex_header" "vf_footer ex_file = ex_footer" "vf_inv ex_file"
    by (simp_all add: ex_file_def empty_file_inv)
  have view: "v_header (file_view wide_file) = ex_header\<lparr>maxTableEntries := 256\<rparr>" "v_footer (file_view wide_file) = ex_footer"
    by simp_all
  have same: "merged_footer ex_footer ex_footer = ex_footer" by (simp add: merged_footer_def)
  have "checkHeader (grown_header 256 ex_header) (Some ex_footer) = Inr ()"
    using ex_check(2) by (simp add: checkHeader_def grown_header_def ex_footer_def)
  then show ?thesis
    using merge_file [OF fu_ref.struct_fu_codec_axioms fields(3) ex_file_synced ex_mergeable, of None ex_file]
      ex_merge_room ex_grown_wf ex_wf(1) ex_check(1)
    by (simp add: fields same merge_checks_def js_assert_def) (auto simp: ex_footer_def)
qed

text \<open>
  C25: Merging a child directory into a directory of the same remote moves each block file, or, in a merge
  that is resumed, recognises the blocks that were already moved; the parent then shows the blocks of
  the child over its own.
\<close>

theorem merge_directory:
  assumes "dir_merge_inv cp c m d" and "distinct ks"
    and "\<And>k. k \<in> set ks \<Longrightarrow> dir_accepts m d k \<and> (\<exists>b. m k = Some b) \<and>
      (dir_pending cp d k \<or> isResuming \<and> dir_blocks d k = m k)"
  shows "\<exists>st' d'. merge_blocks (dir_parent fu onDisk (SameHandlerDirectory cp c v)) isResuming ks (st, d) = Inr (st', d') \<and>
    dir_merge_inv cp c m d' \<and> dir_blocks d' = dir_blocks d ++ (m |` set ks)"
  using dir_merge.merge_all [OF assms(1) order_refl assms(2,3), where fu = fu and onDisk = onDisk and v = v and st = st]
  unfolding merge_blocks_def by blast

theorem merge_directory_witness:
  "\<exists>st' d'. merge_blocks (dir_parent fu_reference (\<lambda>b. 0) (SameHandlerDirectory ''/child'' (comp_id NULL_COMPRESSOR)
        (dir_view ex_header ex_dir))) False [3]
       (\<lparr>st_childHeader = 0, st_parentHeader = 0, st_currentBlock = 3, st_mergedDataSize = 0,
          st_step = ''mergeBlocks'', st_vhdSize = None\<rparr>, ex_pair) = Inr (st', d') \<and>
     dir_merge_inv ''/child'' (comp_id NULL_COMPRESSOR) ex_child_blocks d' \<and>
     dir_blocks d' = dir_blocks ex_pair ++ (ex_child_blocks |` set [3])"
  by (rule merge_directory [OF ex_pair_inv])
    (simp_all add: ex_pair_pending dir_accepts_def ex_child_blocks_def)

text \<open>
  C13: With several blocks merged at the same time, in any interleaving, the block recorded in the state
  file is a safe place to resume from: every block before it is merged, and no block is forgotten.
\<close>

theorem merge_resumable:
  assumes "(merging_step concurrency)\<^sup>*\<^sup>* (merging_start blocks current) m"
    and "sorted blocks" and "\<forall>b \<in> set blocks. current \<le> b"
  shows "(\<forall>b \<in> set blocks. b < mg_currentBlock m \<longrightarrow> b \<in> mg_merged m) \<and>
    set blocks = set (mg_todo m) \<union> mg_merging m \<union> mg_merged m"
  using merging_safe [OF assms] by (simp add: merging_inv_def)

text \<open>Two blocks are merged at the same time, the first one ends, then the second one.\<close>

definition ex_merging :: merging where
  "ex_merging = \<lparr>mg_todo = [3], mg_merging = {}, mg_merged = {2, 1}, mg_currentBlock = 2\<rparr>"

lemma ex_merging_steps: "(merging_step 2)\<^sup>*\<^sup>* (merging_start [1, 2, 3] 1) ex_merging"
proof -
  let ?m0 = "merging_start [1, 2, 3] 1"
  let ?m1 = "\<lparr>mg_todo = [2, 3], mg_merging = {1}, mg_merged = {}, mg_currentBlock = 1\<rparr>"
  let ?m2 = "\<lparr>mg_todo = [3], mg_merging = {2, 1}, mg_merged = {}, mg_currentBlock = 1\<rparr>"
  let ?m3 = "\<lparr>mg_todo = [3], mg_merging = {2}, mg_merged = {1}, mg_currentBlock = 1\<rparr>"
  have s1: "merging_step 2 ?m0 ?m1" using merging_step.start [of ?m0 1 "[2, 3]" 2] by (simp add: merging_start_def)
  have s2: "merging_step 2 ?m1 ?m2" using merging_step.start [of ?m1 2 "[3]" 2] by simp
  have "{2, 1} - {1} = {2 :: nat}" by auto
  then have s3: "merging_step 2 ?m2 ?m3" using merging_step.finish [of 1 ?m2 2] by simp
  have s4: "merging_step 2 ?m3 ex_merging" using merging_step.finish [of 2 ?m3 2] by (simp add: ex_merging_def)
  show ?thesis
    by (rule rtranclp.rtrancl_into_rtrancl [OF rtranclp.rtrancl_into_rtrancl
          [OF rtranclp.rtrancl_into_rtrancl [OF r_into_rtranclp [of "merging_step 2", OF s1] s2] s3] s4])
qed

theorem merge_resumable_witness:
  "1 \<in> mg_merged ex_merging \<and>
   set [1, 2, 3] = set (mg_todo ex_merging) \<union> mg_merging ex_merging \<union> mg_merged ex_merging"
proof -
  have "sorted [1, 2, 3 :: nat]" "\<forall>b \<in> set [1, 2, 3 :: nat]. 1 \<le> b" by simp_all
  from merge_resumable [OF ex_merging_steps this] show ?thesis by (simp add: ex_merging_def)
qed

end
