(* ===== verification/Vhd_Stream.thy ===== *)
theory Vhd_Stream
  imports Vhd_File
begin

text \<open>
  VHDs as streams: the reading of Node streams (\<open>@vates/read-chunk\<close>, \<open>@vates/stream-reader\<close>), the
  parser \<open>parseVhdStream.js\<close> with its consumer \<open>parseVhdToBlocks.js\<close>, \<open>vhdStreamValidator.js\<close>,
  \<open>createVhdStreamWithLength.js\<close> and \<open>peekFooterFromVhdStream.js\<close>.

  A readable stream that does not fail is the list of the chunks it still has to deliver; the borders of
  the chunks are the network's. An async generator gives the values it yielded and the exception or
  the state it ends with. The properties put on the error objects are left out.
\<close>

section \<open>Readable streams\<close>

type_synonym byte_stream = "buffer list"

text \<open>What is left when \<open>n\<close> bytes are consumed: \<open>read(n)\<close> cuts a chunk and keeps its end.\<close>

fun stream_drop :: "nat \<Rightarrow> byte_stream \<Rightarrow> byte_stream" where
  "stream_drop n [] = []"
| "stream_drop n (c # cs) = (if length c \<le> n then stream_drop (n - length c) cs else drop n c # cs)"

text \<open>
  \<open>readChunk\<close>: \<open>None\<close> (\<open>null\<close>) when the stream has ended, else at most the size asked for, fewer bytes
  only at the end.
\<close>

definition stream_readChunk :: "int \<Rightarrow> byte_stream \<Rightarrow> js_error + (buffer option \<times> byte_stream)" where
  "stream_readChunk sz stream =
     (if concat stream = [] then Inr (None, [])
      else
        res_bind (js_assert (sz > 0)) (\<lambda>_.
        res_bind (js_assert (sz < 1073741824)) (\<lambda>_.
        Inr (Some (take (nat sz) (concat stream)), stream_drop (nat sz) stream))))"

definition stream_readChunkStrict :: "int \<Rightarrow> byte_stream \<Rightarrow> js_error + (buffer \<times> byte_stream)" where
  "stream_readChunkStrict sz stream =
     res_bind (stream_readChunk sz stream) (\<lambda>(chunk, stream).
     case chunk of
       None \<Rightarrow> Inl (JsError ''stream has ended without data'')
     | Some chunk \<Rightarrow>
         if int (length chunk) \<noteq> sz then Inl (JsError ''stream has ended with not enough data'')
         else Inr (chunk, stream))"

text \<open>\<open>skip\<close> consumes whole chunks and gives back the end of the last one.\<close>

fun skip_chunks :: "int \<Rightarrow> byte_stream \<Rightarrow> int \<times> byte_stream" where
  "skip_chunks left [] = (left, [])"
| "skip_chunks left (data # stream) =
     (let left = left - int (length data)
      in if left > 0 then skip_chunks left stream
         else if left < 0 then (0, drop (length data - nat (- left)) data # stream)
         else (0, stream))"

definition skip :: "nat \<Rightarrow> byte_stream \<Rightarrow> nat \<times> byte_stream" where
  "skip sz stream =
     (if sz = 0 then (0, stream)
      else let (left, stream) = skip_chunks (int sz) stream in (nat (int sz - left), stream))"

definition skipStrict :: "nat \<Rightarrow> byte_stream \<Rightarrow> js_error + byte_stream" where
  "skipStrict sz stream =
     (let (bytesSkipped, stream) = skip sz stream
      in if bytesSkipped \<noteq> sz then Inl (JsError ''stream has ended with not enough data'') else Inr stream)"

text \<open>The \<open>read\<close> and \<open>readStrict\<close> of \<open>StreamReader\<close>, which have no upper limit.\<close>

definition reader_read :: "nat \<Rightarrow> byte_stream \<Rightarrow> js_error + (buffer option \<times> byte_stream)" where
  "reader_read sz stream =
     res_bind (js_assert (sz > 0)) (\<lambda>_.
     if concat stream = [] then Inr (None, [])
     else Inr (Some (take sz (concat stream)), stream_drop sz stream))"

definition reader_readStrict :: "nat \<Rightarrow> byte_stream \<Rightarrow> js_error + (buffer \<times> byte_stream)" where
  "reader_readStrict sz stream =
     res_bind (reader_read sz stream) (\<lambda>(chunk, stream).
     case chunk of
       None \<Rightarrow> Inl (JsError ''stream has ended without data'')
     | Some chunk \<Rightarrow>
         if length chunk \<noteq> sz then Inl (JsError ''stream has ended with not enough data'')
         else Inr (chunk, stream))"

section \<open>Generators\<close>

type_synonym ('y, 's) generated = "'y list \<times> (js_error + 's)"

definition gen_bind :: "('y, 's) generated \<Rightarrow> ('s \<Rightarrow> ('y, 't) generated) \<Rightarrow> ('y, 't) generated" where
  "gen_bind m f = (case snd m of Inl e \<Rightarrow> (fst m, Inl e) | Inr s \<Rightarrow> (fst m @ fst (f s), snd (f s)))"

definition gen_await :: "js_error + 's \<Rightarrow> ('y, 's) generated" where
  "gen_await r = ([], r)"

definition gen_yield :: "'y \<Rightarrow> ('y, unit) generated" where
  "gen_yield y = ([y], Inr ())"

lemma gen_bind_simps [simp]:
  "gen_bind (ys, Inl e) f = (ys, Inl e)"
  "gen_bind (ys, Inr s) f = (ys @ fst (f s), snd (f s))"
  by (simp_all add: gen_bind_def)

lemma gen_await_bind [simp]:
  "gen_bind (gen_await (Inl e)) f = ([], Inl e)"
  "gen_bind (gen_await (Inr s)) f = f s"
  by (simp_all add: gen_await_def)

lemma gen_yield_bind [simp]: "gen_bind (gen_yield y) f = (y # fst (f ()), snd (f ()))"
  by (simp add: gen_yield_def)

section \<open>\<open>parseVhdStream\<close>\<close>

datatype index_type = TypeParentLocator | TypeBat | TypeBlock

text \<open>
  An entry of \<open>_index\<close>. The other fields of a parent locator are those of the entry of the header with
  the same id; the table has no id, 0 here.
\<close>

record index_item =
  it_type :: index_type
  it_id :: nat
  it_offset :: nat
  it_size :: nat

text \<open>
  What the parser yields. A \<open>ContentItem\<close> has the bytes read, the number of blocks when it is the table,
  and \<open>bitmap\<close> and \<open>data\<close> when it comes after the table.
\<close>

datatype stream_item =
    FooterItem vhd_footer
  | HeaderItem vhd_header
  | ContentItem (ci_index: index_item) (ci_buffer: buffer) (ci_blockCount: "nat option")
      (ci_parts: "(buffer \<times> buffer) option")

record stream_parser =
  sp_stream :: byte_stream
  sp_bytesRead :: nat
  sp_bufFooter :: buffer
  sp_bitmapSize :: nat
  sp_index :: "index_item list"

definition new_StreamParser :: "byte_stream \<Rightarrow> stream_parser" where
  "new_StreamParser stream =
     \<lparr>sp_stream = stream, sp_bytesRead = 0, sp_bufFooter = [], sp_bitmapSize = 0, sp_index = []\<rparr>"

text \<open>\<open>_read\<close>: the space before \<open>offset\<close> is skipped, going back is refused.\<close>

definition sp_read :: "nat \<Rightarrow> nat \<Rightarrow> stream_parser \<Rightarrow> js_error + (buffer \<times> stream_parser)" where
  "sp_read offset sz p =
     res_bind (js_assert (sp_bytesRead p \<le> offset)) (\<lambda>_.
     res_bind
       (if sp_bytesRead p < offset then
          res_bind (skipStrict (offset - sp_bytesRead p) (sp_stream p)) (\<lambda>stream.
          Inr (p\<lparr>sp_stream := stream, sp_bytesRead := offset\<rparr>))
        else Inr p) (\<lambda>p.
     res_bind (stream_readChunkStrict (int sz) (sp_stream p)) (\<lambda>(buf, stream).
     Inr (buf, p\<lparr>sp_stream := stream, sp_bytesRead := sp_bytesRead p + sz\<rparr>))))"

definition locator_index :: "vhd_header \<Rightarrow> index_item list" where
  "locator_index header =
     map (\<lambda>i. let e = parentLocatorEntry header ! i
              in \<lparr>it_type = TypeParentLocator, it_id = i, it_offset = platformDataOffset e,
                  it_size = platformDataLength e\<rparr>)
       (filter (\<lambda>i. platformDataSpace (parentLocatorEntry header ! i) \<noteq> 0)
         [0..<length (parentLocatorEntry header)])"

text \<open>Once the table is read, the blocks it allocates join the index; none may start before its end.\<close>

definition block_index ::
  "vhd_header \<Rightarrow> nat \<Rightarrow> nat \<Rightarrow> buffer \<Rightarrow> index_item list \<Rightarrow> js_error + (index_item list \<times> nat)" where
  "block_index header batOffset batBytes buffer index =
     res_fold (\<lambda>blockCounter (index, blockCount).
         res_bind (readUInt32BE buffer (blockCounter * 4)) (\<lambda>batEntrySector.
         if batEntrySector \<noteq> BLOCK_UNUSED then
           let batEntryBytes = batEntrySector * SECTOR_SIZE
           in res_bind (js_assert (batEntryBytes \<ge> batOffset + batBytes)) (\<lambda>_.
              Inr (index @ [\<lparr>it_type = TypeBlock, it_id = blockCounter, it_offset = batEntryBytes,
                             it_size = computeFullBlockSize (blockSize header)\<rparr>],
                   blockCount + 1))
         else Inr (index, blockCount)))
       [0..<maxTableEntries header] (index, 0)"

text \<open>The loop up to the table; \<open>Array.prototype.sort\<close> is stable, as \<open>sort_key\<close>.\<close>

fun headers_loop ::
  "vhd_header \<Rightarrow> nat \<Rightarrow> nat \<Rightarrow> index_item list \<Rightarrow> stream_parser \<Rightarrow> (stream_item, stream_parser) generated" where
  "headers_loop header batOffset batBytes [] p = gen_await (Inl TypeError)"
| "headers_loop header batOffset batBytes (item # index) p =
     gen_bind (gen_await (sp_read (it_offset item) (it_size item) p)) (\<lambda>(buffer, p).
     if it_type item = TypeBat then
       gen_bind (gen_await (block_index header batOffset batBytes buffer index)) (\<lambda>(index, blockCount).
       gen_bind (gen_yield (ContentItem item buffer (Some blockCount) None)) (\<lambda>_.
       gen_await (Inr (p\<lparr>sp_index := sort_key it_offset index\<rparr>))))
     else
       gen_bind (gen_yield (ContentItem item buffer None None)) (\<lambda>_.
       headers_loop header batOffset batBytes index p))"

definition sp_headers :: "struct_fu \<Rightarrow> stream_parser \<Rightarrow> (stream_item, stream_parser) generated" where
  "sp_headers fu p =
     gen_bind (gen_await (sp_read 0 FOOTER_SIZE p)) (\<lambda>(bufFooter, p).
     let p = p\<lparr>sp_bufFooter := bufFooter\<rparr>
     in gen_bind (gen_await (unpackFooter fu bufFooter)) (\<lambda>footer.
        gen_bind (gen_yield (FooterItem footer)) (\<lambda>_.
        gen_bind (gen_await (sp_read FOOTER_SIZE HEADER_SIZE p)) (\<lambda>(bufHeader, p).
        gen_bind (gen_await (unpackHeader fu bufHeader (Some footer))) (\<lambda>header.
        gen_bind (gen_yield (HeaderItem header)) (\<lambda>_.
        gen_bind (gen_await (js_assert (blockSize header mod SECTOR_SIZE = 0))) (\<lambda>_.
        let fullBytes = computeFullBlockSize (blockSize header);
            batOffset = tableOffset header;
            batBytes = max 1 (ceil_div (maxTableEntries header * 4) SECTOR_SIZE) * SECTOR_SIZE;
            bat = \<lparr>it_type = TypeBat, it_id = 0, it_offset = batOffset, it_size = batBytes\<rparr>
        in headers_loop header batOffset batBytes (sort_key it_offset (locator_index header @ [bat]))
             (p\<lparr>sp_bitmapSize := fullBytes - blockSize header\<rparr>))))))))"

fun blocks_loop :: "index_item list \<Rightarrow> stream_parser \<Rightarrow> (stream_item, stream_parser) generated" where
  "blocks_loop [] p = gen_await (Inr p)"
| "blocks_loop (item # index) p =
     gen_bind (gen_await (sp_read (it_offset item) (it_size item) p)) (\<lambda>(buffer, p).
     gen_bind (gen_yield (ContentItem item buffer None
       (Some (buf_slice buffer 0 (sp_bitmapSize p), drop (sp_bitmapSize p) buffer)))) (\<lambda>_.
     blocks_loop index p))"

text \<open>\<open>readLastSector\<close>: the last bytes of the rest of the stream, whatever its chunks.\<close>

definition cappedBufferConcat :: "buffer list \<Rightarrow> nat \<Rightarrow> buffer" where
  "cappedBufferConcat buffers maxSize =
     (let buffer = concat buffers
      in if length buffer > maxSize then drop (length buffer - maxSize) buffer else buffer)"

definition readLastSector :: "byte_stream \<Rightarrow> buffer" where
  "readLastSector stream =
     foldl (\<lambda>bufFooterEnd chunk.
         if length chunk > 0 then cappedBufferConcat [bufFooterEnd, chunk] SECTOR_SIZE else bufFooterEnd)
       [] stream"

definition sp_blocks :: "stream_parser \<Rightarrow> (stream_item, unit) generated" where
  "sp_blocks p =
     gen_bind (blocks_loop (sp_index p) p) (\<lambda>p.
     gen_await (js_assert (sp_bufFooter p = readLastSector (sp_stream p))))"

definition parseVhdStream :: "struct_fu \<Rightarrow> byte_stream \<Rightarrow> (stream_item, unit) generated" where
  "parseVhdStream fu stream = gen_bind (sp_headers fu (new_StreamParser stream)) sp_blocks"

section \<open>\<open>parseVhdToBlocks\<close>\<close>

text \<open>
  The consumer takes the items of the generator one at a time; \<open>next_item\<close> gives the first one that is
  not skipped and what the generator has left.
\<close>

fun next_item ::
  "(stream_item \<Rightarrow> bool) \<Rightarrow> stream_item list \<Rightarrow> js_error + unit \<Rightarrow> js_error + (stream_item \<times> stream_item list)" where
  "next_item skipable [] end = res_bind end (\<lambda>_. Inl AssertionError)"
| "next_item skipable (item # items) end =
     (if skipable item then next_item skipable items end else Inr (item, items))"

definition is_locator :: "stream_item \<Rightarrow> bool" where
  "is_locator item = (case item of ContentItem i _ _ _ \<Rightarrow> it_type i = TypeParentLocator | _ \<Rightarrow> False)"

record vhd_blocks =
  vb_blockSize :: nat
  vb_blockCount :: nat
  vb_diskSize :: nat
  vb_geometry :: disk_geometry
  vb_blocks :: "(nat \<times> buffer, unit) generated"

definition onlyBlocks :: "(stream_item, unit) generated \<Rightarrow> nat \<Rightarrow> (nat \<times> buffer, unit) generated" where
  "onlyBlocks iterable bSize =
     (List.map_filter (\<lambda>item. case item of
          ContentItem i _ _ (Some (_, data)) \<Rightarrow>
            if it_type i = TypeBlock then Some (it_id i * bSize, data) else None
        | _ \<Rightarrow> None) (fst iterable),
      snd iterable)"

definition parseVhdToBlocks :: "struct_fu \<Rightarrow> byte_stream \<Rightarrow> js_error + vhd_blocks" where
  "parseVhdToBlocks fu vhdStream =
     (let (items, end) = parseVhdStream fu vhdStream
      in res_bind (next_item (\<lambda>_. False) items end) (\<lambda>(item, items).
         case item of
           FooterItem footer \<Rightarrow>
             res_bind (next_item (\<lambda>_. False) items end) (\<lambda>(item, items).
             case item of
               HeaderItem header \<Rightarrow>
                 res_bind (next_item is_locator items end) (\<lambda>(item, items).
                 case item of
                   ContentItem _ _ (Some blockCount) _ \<Rightarrow>
                     Inr \<lparr>vb_blockSize = blockSize header, vb_blockCount = blockCount,
                          vb_diskSize = currentSize footer, vb_geometry = diskGeometry footer,
                          vb_blocks = onlyBlocks (items, end) (blockSize header)\<rparr>
                 | _ \<Rightarrow> Inl AssertionError)
             | _ \<Rightarrow> Inl AssertionError)
         | _ \<Rightarrow> Inl AssertionError))"

section \<open>\<open>vhdStreamValidator\<close>\<close>

lemma stream_drop_concat [simp]: "concat (stream_drop n cs) = drop n (concat cs)"
  by (induction n cs rule: stream_drop.induct) auto

text \<open>
  The chunks after the header, each yielded; \<open>last\<close> is undefined (\<open>None\<close>) before the first one, and
  reading a property of it throws.
\<close>

function validate_loop :: "buffer option \<Rightarrow> byte_stream \<Rightarrow> (buffer, buffer) generated" where
  "validate_loop lastChunk reader =
     (if concat reader = [] then
        gen_await (case lastChunk of None \<Rightarrow> Inl TypeError | Some lastChunk \<Rightarrow> Inr lastChunk)
      else
        let chunk = take FOOTER_SIZE (concat reader)
        in gen_bind (gen_yield chunk) (\<lambda>_.
           if length chunk < FOOTER_SIZE then
             gen_await (case lastChunk of None \<Rightarrow> Inl TypeError
               | Some lastChunk \<Rightarrow> Inr (drop (length lastChunk - (FOOTER_SIZE - length chunk)) lastChunk @ chunk))
           else validate_loop (Some chunk) (stream_drop FOOTER_SIZE reader)))"
  by pat_completeness auto
termination
  by (relation "measure (\<lambda>(lastChunk, reader). length (concat reader))") (auto simp: FOOTER_SIZE_def)

declare validate_loop.simps [simp del]

definition vhdStreamValidator :: "struct_fu \<Rightarrow> byte_stream \<Rightarrow> (buffer, unit) generated" where
  "vhdStreamValidator fu source =
     gen_bind (gen_await (reader_readStrict FOOTER_SIZE source)) (\<lambda>(footer1, reader).
     gen_bind (gen_yield footer1) (\<lambda>_.
     gen_bind (gen_await (unpackFooter fu footer1)) (\<lambda>_.
     gen_bind (gen_await (reader_readStrict HEADER_SIZE reader)) (\<lambda>(header, reader).
     gen_bind (gen_yield header) (\<lambda>_.
     gen_bind (gen_await (unpackHeader fu header None)) (\<lambda>_.
     gen_bind (validate_loop None reader) (\<lambda>lastChunk.
     if lastChunk \<noteq> footer1 then gen_await (Inl (JsError ''footer1 !== footer2'')) else gen_await (Inr ()))))))))"

section \<open>\<open>createVhdStreamWithLength\<close>\<close>

record end_cutter =
  ec_position :: nat
  ec_done :: bool
  ec_pushed :: "buffer list"

definition ec_transform :: "nat \<Rightarrow> buffer \<Rightarrow> buffer \<Rightarrow> end_cutter \<Rightarrow> end_cutter" where
  "ec_transform footerOffset footerBuffer data c =
     (if \<not> ec_done c then
        if ec_position c + length data \<ge> footerOffset then
          let data = buf_slice data 0 (footerOffset - ec_position c)
          in c\<lparr>ec_done := True, ec_pushed := ec_pushed c @ [data, footerBuffer],
               ec_position := ec_position c + length data\<rparr>
        else c\<lparr>ec_pushed := ec_pushed c @ [data], ec_position := ec_position c + length data\<rparr>
      else c)"

definition EndCutterStream :: "nat \<Rightarrow> buffer \<Rightarrow> byte_stream \<Rightarrow> byte_stream" where
  "EndCutterStream footerOffset footerBuffer stream =
     ec_pushed (fold (ec_transform footerOffset footerBuffer) stream
       \<lparr>ec_position = 0, ec_done = False, ec_pushed = []\<rparr>)"

record length_reader =
  lr_stream :: byte_stream
  lr_position :: nat
  lr_buffers :: "buffer list"

definition lr_readStream :: "int \<Rightarrow> length_reader \<Rightarrow> js_error + (buffer \<times> length_reader)" where
  "lr_readStream len r =
     (if len = 0 then Inr ([], r)
      else res_bind (stream_readChunkStrict len (lr_stream r)) (\<lambda>(chunk, stream).
        Inr (chunk, r\<lparr>lr_stream := stream, lr_position := lr_position r + nat len,
          lr_buffers := lr_buffers r @ [chunk]\<rparr>)))"

text \<open>The new stream and the length it announces.\<close>

definition createVhdStreamWithLength :: "struct_fu \<Rightarrow> byte_stream \<Rightarrow> js_error + (byte_stream \<times> nat)" where
  "createVhdStreamWithLength fu stream =
     res_bind (lr_readStream (int FOOTER_SIZE) \<lparr>lr_stream = stream, lr_position = 0, lr_buffers = []\<rparr>) (\<lambda>(footerBuffer, r).
     let footer = fuFooter_unpack fu footerBuffer
     in res_bind (checkFooter footer) (\<lambda>_.
        res_bind (lr_readStream (int HEADER_SIZE) r) (\<lambda>(headerBuffer, r).
        let header = fuHeader_unpack fu headerBuffer
        in res_bind (checkHeader header (Some footer)) (\<lambda>_.
           res_bind (lr_readStream (int (tableOffset header) - int (lr_position r)) r) (\<lambda>(_, r).
           res_bind (lr_readStream (int (maxTableEntries header * 4)) r) (\<lambda>(table, r).
           let stream = fold (\<lambda>buf stream. buf # stream) (rev (lr_buffers r)) (lr_stream r)
           in res_bind (getFirstAndLastBlocks table) (\<lambda>firstAndLastBlocks.
              let footerOffset = (case firstAndLastBlocks of
                    Some fl \<Rightarrow> lastSector fl * SECTOR_SIZE +
                      ceil_div (blockSize header) (SECTOR_SIZE * 8 * SECTOR_SIZE) * SECTOR_SIZE +
                      blockSize header
                  | None \<Rightarrow> ceil_div (lr_position r) SECTOR_SIZE * SECTOR_SIZE)
              in Inr (EndCutterStream footerOffset footerBuffer stream, footerOffset + FOOTER_SIZE))))))))"

section \<open>\<open>peekFooterFromVhdStream\<close>\<close>

text \<open>The footer and the stream with the bytes put back; \<open>unpackFooter(null)\<close> throws.\<close>

definition peekFooterFromStream :: "struct_fu \<Rightarrow> byte_stream \<Rightarrow> (js_error + vhd_footer) \<times> byte_stream" where
  "peekFooterFromStream fu stream =
     (case stream_readChunk (int FOOTER_SIZE) stream of
       Inl e \<Rightarrow> (Inl e, stream)
     | Inr (None, stream) \<Rightarrow> (Inl TypeError, stream)
     | Inr (Some buffer, stream) \<Rightarrow> (unpackFooter fu buffer, buffer # stream))"

end
