(* ===== verification/Vhd_Stream_Props.thy ===== *)
theory Vhd_Stream_Props
  imports Vhd_Stream Vhd_Durable "HOL-Library.Multiset"
begin

text \<open>
  What the parser of VHD streams yields: on the content of a VHD, whatever the chunks it comes in, the
  headers and every item of its index, in the order of the file, with the bytes at their offsets. The
  conditions of \<open>parse_iff\<close> are those under which the parser does not throw, and no others.
\<close>

section \<open>Reading a stream of a given content\<close>

lemma stream_readChunkStrict_eq:
  "stream_readChunkStrict n cs =
     (if concat cs = [] then Inl (JsError ''stream has ended without data'')
      else if \<not> (0 < n \<and> n < 1073741824) then Inl AssertionError
      else if nat n \<le> length (concat cs) then Inr (take (nat n) (concat cs), stream_drop (nat n) cs)
      else Inl (JsError ''stream has ended with not enough data''))"
proof -
  have "int (length (take (nat n) d)) = n \<longleftrightarrow> nat n \<le> length d" if "0 < n" for d :: buffer
    using that by auto
  then show ?thesis
    by (simp add: stream_readChunkStrict_def stream_readChunk_def js_assert_def del: length_concat concat_eq_Nil_conv length_take)
qed

lemma stream_readChunkStrict_reads:
  assumes "0 < n" "n < 1073741824" "n \<le> length d" "concat cs = d"
  shows "stream_readChunkStrict (int n) cs = Inr (take n d, stream_drop n cs)"
  using assms by (auto simp: stream_readChunkStrict_eq simp del: length_concat concat_eq_Nil_conv)

lemma stream_readChunkStrict_Inr:
  assumes "stream_readChunkStrict n cs = Inr (b, cs')"
  shows "0 < n" "n < 1073741824" "nat n \<le> length (concat cs)" "b = take (nat n) (concat cs)"
    "concat cs' = drop (nat n) (concat cs)" "length b = nat n"
  using assms
  by (auto simp: stream_readChunkStrict_eq split: if_splits simp del: length_concat concat_eq_Nil_conv)

lemma skip_chunks_spec:
  assumes "0 < left" "skip_chunks left cs = (left', cs')"
  shows "left' = max 0 (left - int (length (concat cs))) \<and> concat cs' = drop (nat left) (concat cs)"
  using assms
proof (induction left cs rule: skip_chunks.induct)
  case (2 left data cs)
  let ?left = "left - int (length data)"
  consider (more) "0 < ?left" | (cut) "?left < 0" | (exact) "?left = 0" by linarith
  then show ?case
  proof cases
    case more
    then have "skip_chunks ?left cs = (left', cs')" using 2 by (simp add: Let_def)
    with 2(1) [OF refl more more] more show ?thesis by (simp add: nat_diff_distrib)
  next
    case cut
    have n: "length data - nat (- ?left) = nat left" using cut 2 by (simp add: nat_minus_as_int)
    have "nat left \<le> length data" using cut by linarith
    then show ?thesis using 2(2-3) cut n by (auto simp: Let_def)
  next
    case exact
    then have "left = int (length data)" by simp
    then show ?thesis using 2 by (auto simp: Let_def)
  qed
qed simp

lemma skipStrict_skips:
  assumes "n \<le> length (concat cs)"
  shows "\<exists>cs'. skipStrict n cs = Inr cs' \<and> concat cs' = drop n (concat cs)"
proof (cases "n = 0")
  case False
  obtain l s where ls: "skip_chunks (int n) cs = (l, s)" by fastforce
  with skip_chunks_spec [OF _ ls] False assms
  have "l = 0" "concat s = drop n (concat cs)" by auto
  then show ?thesis using ls False by (simp add: skipStrict_def skip_def)
qed (simp add: skipStrict_def skip_def)

lemma skipStrict_Inr:
  assumes "skipStrict n cs = Inr cs'"
  shows "n \<le> length (concat cs)"
proof (cases "n = 0")
  case False
  obtain l s where ls: "skip_chunks (int n) cs = (l, s)" by fastforce
  with skip_chunks_spec [OF _ ls] False assms
  show ?thesis by (auto simp: skipStrict_def skip_def split: if_splits simp del: length_concat)
qed simp

text \<open>The parser at its position in the content \<open>c\<close>, and the reads it can make from there.\<close>

definition at_pos :: "buffer \<Rightarrow> stream_parser \<Rightarrow> bool" where
  "at_pos c p \<longleftrightarrow> sp_bytesRead p \<le> length c \<and> concat (sp_stream p) = drop (sp_bytesRead p) c"

definition fits :: "nat \<Rightarrow> nat \<Rightarrow> nat \<Rightarrow> nat \<Rightarrow> bool" where
  "fits pos len offset n \<longleftrightarrow> pos \<le> offset \<and> 0 < n \<and> n < 1073741824 \<and> offset + n \<le> len"

abbreviation moved :: "stream_parser \<Rightarrow> byte_stream \<Rightarrow> nat \<Rightarrow> stream_parser" where
  "moved p cs pos \<equiv> p\<lparr>sp_stream := cs, sp_bytesRead := pos\<rparr>"

lemma sp_read_reads:
  assumes p: "at_pos c p" and f: "fits (sp_bytesRead p) (length c) offset n"
  shows "\<exists>cs. sp_read offset n p = Inr (file_read c offset n, moved p cs (offset + n)) \<and>
    at_pos c (moved p cs (offset + n))"
proof -
  have "\<exists>s. (if sp_bytesRead p < offset then
          res_bind (skipStrict (offset - sp_bytesRead p) (sp_stream p)) (\<lambda>cs. Inr (moved p cs offset))
        else Inr p) = Inr (moved p s offset) \<and> concat s = drop offset c"
  proof (cases "sp_bytesRead p < offset")
    case True
    have "offset - sp_bytesRead p \<le> length (concat (sp_stream p))"
      using p f True diff_le_mono [of offset "length c" "sp_bytesRead p"]
      unfolding at_pos_def fits_def by (simp del: length_concat)
    from skipStrict_skips [OF this] p True show ?thesis by (auto simp: at_pos_def)
  next
    case False
    then have "sp_bytesRead p = offset" using f by (simp add: fits_def)
    then show ?thesis using p by (intro exI [of _ "sp_stream p"]) (simp add: at_pos_def)
  qed
  then obtain s where s: "(if sp_bytesRead p < offset then
          res_bind (skipStrict (offset - sp_bytesRead p) (sp_stream p)) (\<lambda>cs. Inr (moved p cs offset))
        else Inr p) = Inr (moved p s offset)" and d: "concat s = drop offset c" by blast
  have "stream_readChunkStrict (int n) s = Inr (file_read c offset n, stream_drop n s)"
    using stream_readChunkStrict_reads [of n "drop offset c" s] f d by (auto simp: fits_def file_read_def)
  then have "sp_read offset n p = Inr (file_read c offset n, moved p (stream_drop n s) (offset + n))"
    unfolding sp_read_def s using f by (simp add: fits_def)
  moreover have "at_pos c (moved p (stream_drop n s) (offset + n))"
    using f d by (simp add: at_pos_def fits_def add.commute)
  ultimately show ?thesis by blast
qed

lemma sp_read_fits:
  assumes p: "at_pos c p" and r: "sp_read offset n p = Inr x"
  shows "fits (sp_bytesRead p) (length c) offset n"
proof -
  obtain q where le: "sp_bytesRead p \<le> offset"
    and q: "(if sp_bytesRead p < offset then
          res_bind (skipStrict (offset - sp_bytesRead p) (sp_stream p)) (\<lambda>cs. Inr (moved p cs offset))
        else Inr p) = Inr q"
    and rd: "\<exists>y. stream_readChunkStrict (int n) (sp_stream q) = Inr y"
    using r unfolding sp_read_def by (auto simp: res_bind_Inr_iff)
  have cq: "concat (sp_stream q) = drop offset c \<and> offset \<le> length c"
  proof (cases "sp_bytesRead p < offset")
    case True
    then obtain s where s: "skipStrict (offset - sp_bytesRead p) (sp_stream p) = Inr s" "q = moved p s offset"
      using q by (auto simp: res_bind_Inr_iff)
    have "offset - sp_bytesRead p \<le> length (concat (sp_stream p))" by (rule skipStrict_Inr [OF s(1)])
    from skipStrict_skips [OF this] s p True this show ?thesis by (auto simp: at_pos_def)
  next
    case False
    then show ?thesis using q p le by (auto simp: at_pos_def)
  qed
  from rd obtain b s where "stream_readChunkStrict (int n) (sp_stream q) = Inr (b, s)" by fastforce
  from stream_readChunkStrict_Inr [OF this] cq le show ?thesis by (auto simp: fits_def simp del: length_concat)
qed

section \<open>The items of the index\<close>

fun readable :: "nat \<Rightarrow> nat \<Rightarrow> index_item list \<Rightarrow> bool" where
  "readable pos len [] \<longleftrightarrow> True"
| "readable pos len (i # is) \<longleftrightarrow>
     fits pos len (it_offset i) (it_size i) \<and> readable (it_offset i + it_size i) len is"

definition end_of :: "nat \<Rightarrow> index_item list \<Rightarrow> nat" where
  "end_of pos is = foldl (\<lambda>_ i. it_offset i + it_size i) pos is"

lemma end_of_simps [simp]:
  "end_of pos [] = pos"
  "end_of pos (i # is) = end_of (it_offset i + it_size i) is"
  by (simp_all add: end_of_def)

lemma readable_append:
  "readable pos len (xs @ ys) \<longleftrightarrow> readable pos len xs \<and> readable (end_of pos xs) len ys"
  by (induction xs arbitrary: pos) auto

lemma end_of_append: "end_of pos (xs @ ys) = end_of (end_of pos xs) ys"
  by (simp add: end_of_def)

definition bytes_of :: "buffer \<Rightarrow> index_item \<Rightarrow> buffer" where
  "bytes_of c i = file_read c (it_offset i) (it_size i)"

definition header_item :: "buffer \<Rightarrow> index_item \<Rightarrow> stream_item" where
  "header_item c i = ContentItem i (bytes_of c i) None None"

definition content_item :: "buffer \<Rightarrow> nat \<Rightarrow> index_item \<Rightarrow> stream_item" where
  "content_item c n i =
     ContentItem i (bytes_of c i) None (Some (take n (bytes_of c i), drop n (bytes_of c i)))"

lemma blocks_loop_reads:
  assumes "at_pos c p" and "readable (sp_bytesRead p) (length c) is"
  shows "\<exists>cs. blocks_loop is p = (map (content_item c (sp_bitmapSize p)) is,
      Inr (moved p cs (end_of (sp_bytesRead p) is))) \<and> at_pos c (moved p cs (end_of (sp_bytesRead p) is))"
  using assms
proof (induction "is" arbitrary: p)
  case Nil
  then show ?case by (intro exI [of _ "sp_stream p"]) (simp add: gen_await_def)
next
  case (Cons i "is")
  let ?e = "it_offset i + it_size i"
  obtain cs where cs: "sp_read (it_offset i) (it_size i) p = Inr (bytes_of c i, moved p cs ?e)"
    "at_pos c (moved p cs ?e)"
    using sp_read_reads [OF Cons.prems(1), of "it_offset i" "it_size i"] Cons.prems(2) by (auto simp: bytes_of_def)
  with Cons.IH [OF cs(2)] Cons.prems(2) show ?case
    by (auto simp: content_item_def buf_slice_def)
qed

lemma blocks_loop_Inr:
  assumes "at_pos c p" and "snd (blocks_loop is p) = Inr p'"
  shows "readable (sp_bytesRead p) (length c) is"
  using assms
proof (induction "is" arbitrary: p)
  case (Cons i "is")
  let ?e = "it_offset i + it_size i"
  obtain b q where r: "sp_read (it_offset i) (it_size i) p = Inr (b, q)"
    using Cons.prems(2) by (cases "sp_read (it_offset i) (it_size i) p") auto
  have f: "fits (sp_bytesRead p) (length c) (it_offset i) (it_size i)" by (rule sp_read_fits [OF Cons.prems(1) r])
  obtain cs where cs: "q = moved p cs ?e" "at_pos c (moved p cs ?e)"
    using sp_read_reads [OF Cons.prems(1) f] r by auto
  have "snd (blocks_loop is q) = Inr p'" using Cons.prems(2) r by simp
  from Cons.IH [OF cs(2) this [unfolded cs(1)]] f show ?case by simp
qed simp

lemma headers_loop_reads:
  assumes "at_pos c p" and "readable (sp_bytesRead p) (length c) (pre @ [bat])"
    and "it_type bat = TypeBat" and "\<And>i. i \<in> set pre \<Longrightarrow> it_type i \<noteq> TypeBat"
    and "block_index h bo bb (bytes_of c bat) post = Inr (index, n)"
  shows "\<exists>cs. headers_loop h bo bb (pre @ bat # post) p =
      (map (header_item c) pre @ [ContentItem bat (bytes_of c bat) (Some n) None],
       Inr (moved p cs (end_of (sp_bytesRead p) (pre @ [bat]))\<lparr>sp_index := sort_key it_offset index\<rparr>)) \<and>
    at_pos c (moved p cs (end_of (sp_bytesRead p) (pre @ [bat])))"
  using assms(1,2,4)
proof (induction pre arbitrary: p)
  case Nil
  let ?e = "it_offset bat + it_size bat"
  obtain cs where cs: "sp_read (it_offset bat) (it_size bat) p = Inr (bytes_of c bat, moved p cs ?e)"
    "at_pos c (moved p cs ?e)"
    using sp_read_reads [OF Nil(1), of "it_offset bat" "it_size bat"] Nil(2) by (auto simp: bytes_of_def)
  then show ?case using assms(3,5) by (intro exI [of _ cs]) (simp add: gen_await_def)
next
  case (Cons i pre)
  let ?e = "it_offset i + it_size i"
  obtain cs where cs: "sp_read (it_offset i) (it_size i) p = Inr (bytes_of c i, moved p cs ?e)"
    "at_pos c (moved p cs ?e)"
    using sp_read_reads [OF Cons.prems(1), of "it_offset i" "it_size i"] Cons.prems(2) by (auto simp: bytes_of_def)
  have "it_type i \<noteq> TypeBat" using Cons.prems(3) by simp
  with cs Cons.IH [OF cs(2)] Cons.prems(2,3) show ?case
    by (auto simp: header_item_def)
qed

lemma headers_loop_Inr:
  assumes "at_pos c p" and "snd (headers_loop h bo bb (pre @ bat # post) p) = Inr p'"
    and "it_type bat = TypeBat" and "\<And>i. i \<in> set pre \<Longrightarrow> it_type i \<noteq> TypeBat"
  shows "readable (sp_bytesRead p) (length c) (pre @ [bat]) \<and>
    (\<exists>x. block_index h bo bb (bytes_of c bat) post = Inr x)"
  using assms(1,2,4)
proof (induction pre arbitrary: p)
  case Nil
  obtain b q where r: "sp_read (it_offset bat) (it_size bat) p = Inr (b, q)"
    using Nil(2) by (cases "sp_read (it_offset bat) (it_size bat) p") auto
  have f: "fits (sp_bytesRead p) (length c) (it_offset bat) (it_size bat)" by (rule sp_read_fits [OF Nil(1) r])
  then have "b = bytes_of c bat" using sp_read_reads [OF Nil(1) f] r by (auto simp: bytes_of_def)
  with f r Nil(2) assms(3) show ?case by (cases "block_index h bo bb b post") auto
next
  case (Cons i pre)
  let ?e = "it_offset i + it_size i"
  obtain b q where r: "sp_read (it_offset i) (it_size i) p = Inr (b, q)"
    using Cons.prems(2) by (cases "sp_read (it_offset i) (it_size i) p") auto
  have f: "fits (sp_bytesRead p) (length c) (it_offset i) (it_size i)" by (rule sp_read_fits [OF Cons.prems(1) r])
  obtain cs where cs: "q = moved p cs ?e" "at_pos c (moved p cs ?e)"
    using sp_read_reads [OF Cons.prems(1) f] r by auto
  have "it_type i \<noteq> TypeBat" using Cons.prems(3) by simp
  then have "snd (headers_loop h bo bb (pre @ bat # post) q) = Inr p'" using Cons.prems(2) r by simp
  from Cons.IH [OF cs(2) this [unfolded cs(1)]] Cons.prems(3) f show ?case by simp
qed

text \<open>The items of the blocks of a table.\<close>

definition block_items :: "vhd_header \<Rightarrow> buffer \<Rightarrow> index_item list" where
  "block_items h bat =
     map (\<lambda>i. \<lparr>it_type = TypeBlock, it_id = i, it_offset = bat_entry bat i * SECTOR_SIZE,
             it_size = computeFullBlockSize (blockSize h)\<rparr>)
       (filter (\<lambda>i. bat_entry bat i \<noteq> BLOCK_UNUSED) [0..<maxTableEntries h])"

definition blocks_after :: "vhd_header \<Rightarrow> nat \<Rightarrow> buffer \<Rightarrow> bool" where
  "blocks_after h pos bat \<longleftrightarrow>
     (\<forall>i < maxTableEntries h. bat_entry bat i \<noteq> BLOCK_UNUSED \<longrightarrow> pos \<le> bat_entry bat i * SECTOR_SIZE)"

lemma block_index_eq:
  assumes "4 * maxTableEntries h \<le> length bat"
  shows "block_index h bo bb bat index =
    (if blocks_after h (bo + bb) bat then Inr (index @ block_items h bat, length (block_items h bat))
     else Inl AssertionError)"
proof -
  let ?new = "\<lambda>n. map (\<lambda>i. \<lparr>it_type = TypeBlock, it_id = i, it_offset = bat_entry bat i * SECTOR_SIZE,
             it_size = computeFullBlockSize (blockSize h)\<rparr>)
       (filter (\<lambda>i. bat_entry bat i \<noteq> BLOCK_UNUSED) [0..<n])"
  have "res_fold (\<lambda>blockCounter (index, blockCount).
         res_bind (readUInt32BE bat (blockCounter * 4)) (\<lambda>batEntrySector.
         if batEntrySector \<noteq> BLOCK_UNUSED then
           let batEntryBytes = batEntrySector * SECTOR_SIZE
           in res_bind (js_assert (batEntryBytes \<ge> bo + bb)) (\<lambda>_.
              Inr (index @ [\<lparr>it_type = TypeBlock, it_id = blockCounter, it_offset = batEntryBytes,
                             it_size = computeFullBlockSize (blockSize h)\<rparr>],
                   blockCount + 1))
         else Inr (index, blockCount)))
       [0..<n] (index, 0) =
     (if \<forall>i < n. bat_entry bat i \<noteq> BLOCK_UNUSED \<longrightarrow> bo + bb \<le> bat_entry bat i * SECTOR_SIZE
      then Inr (index @ ?new n, length (?new n)) else Inl AssertionError)" if "n \<le> maxTableEntries h" for n
    using that
  proof (induction n)
    case (Suc n)
    have "readUInt32BE bat (n * 4) = Inr (bat_entry bat n)"
      using readUInt32BE_bat_entry [of n bat] Suc.prems assms by (simp add: mult.commute)
    with Suc show ?case
      by (auto simp: res_fold_append less_Suc_eq Let_def js_assert_def)
  qed simp
  from this [OF order_refl] show ?thesis
    by (simp only: block_index_def block_items_def blocks_after_def)
qed

section \<open>The whole stream\<close>

lemma readLastSector_eq: "readLastSector cs = drop (length (concat cs) - SECTOR_SIZE) (concat cs)"
proof (induction cs rule: rev_induct)
  case (snoc chunk cs)
  let ?d = "concat cs"
  have "cappedBufferConcat [drop (length ?d - SECTOR_SIZE) ?d, chunk] SECTOR_SIZE =
      drop (length (?d @ chunk) - SECTOR_SIZE) (?d @ chunk)" for chunk :: buffer
  proof (cases "length ?d \<le> SECTOR_SIZE")
    case True
    then show ?thesis by (simp add: cappedBufferConcat_def Let_def del: length_concat)
  next
    case False
    then show ?thesis by (simp add: cappedBufferConcat_def Let_def add.commute del: length_concat)
  qed
  from this [of chunk] snoc show ?case
    by (simp add: readLastSector_def cappedBufferConcat_def del: length_concat)
qed (simp add: readLastSector_def)

definition bat_item :: "vhd_header \<Rightarrow> index_item" where
  "bat_item h = \<lparr>it_type = TypeBat, it_id = 0, it_offset = tableOffset h,
     it_size = computeBatSize (maxTableEntries h)\<rparr>"

definition table_of :: "buffer \<Rightarrow> vhd_header \<Rightarrow> buffer" where
  "table_of c h = bytes_of c (bat_item h)"

text \<open>Everything the headers and the table say the content holds, in the order of the file.\<close>

definition stream_index :: "vhd_header \<Rightarrow> buffer \<Rightarrow> index_item list" where
  "stream_index h bat = sort_key it_offset (locator_index h @ [bat_item h] @ block_items h bat)"

definition parsed_item :: "vhd_header \<Rightarrow> buffer \<Rightarrow> index_item \<Rightarrow> stream_item" where
  "parsed_item h c i = ContentItem i (bytes_of c i)
     (if it_type i = TypeBat then Some (length (block_items h (table_of c h))) else None)
     (if tableOffset h < it_offset i
      then Some (take (bitmapSize h) (bytes_of c i), drop (bitmapSize h) (bytes_of c i)) else None)"

text \<open>
  The content of a VHD as a stream can be read: valid headers, items that neither overlap nor reach into
  the footer at the end, which is a copy of the first one.
\<close>

definition streamable :: "struct_fu \<Rightarrow> buffer \<Rightarrow> vhd_footer \<Rightarrow> vhd_header \<Rightarrow> bool" where
  "streamable fu c f h \<longleftrightarrow>
     FOOTER_SIZE \<le> length c \<and>
     unpackFooter fu (file_read c 0 FOOTER_SIZE) = Inr f \<and>
     unpackHeader fu (file_read c FOOTER_SIZE HEADER_SIZE) (Some f) = Inr h \<and>
     blockSize h mod SECTOR_SIZE = 0 \<and>
     blocks_after h (tableOffset h + computeBatSize (maxTableEntries h)) (table_of c h) \<and>
     readable (FOOTER_SIZE + HEADER_SIZE) (length c - FOOTER_SIZE) (stream_index h (table_of c h)) \<and>
     drop (length c - FOOTER_SIZE) c = file_read c 0 FOOTER_SIZE"

lemma bat_bytes: "max (Suc 0) (ceil_div (n * 4) SECTOR_SIZE) * SECTOR_SIZE = computeBatSize n"
  by (simp add: layout_defs Let_def max_def)

lemma bitmap_bytes: "computeFullBlockSize (blockSize h) - blockSize h = bitmapSize h"
  by (simp add: computeFullBlockSize_def bitmapSize_def sectorsOfBitmap_def sectorsToBytes_def mult.commute)

lemma locator_type: "i \<in> set (locator_index h) \<Longrightarrow> it_type i = TypeParentLocator"
  by (auto simp: locator_index_def Let_def)

lemma block_type: "i \<in> set (block_items h bat) \<Longrightarrow> it_type i = TypeBlock"
  by (auto simp: block_items_def)

lemma stream_index_split:
  obtains pre post where
    "sort_key it_offset (locator_index h @ [bat_item h]) = pre @ bat_item h # post"
    "\<And>i. i \<in> set pre \<Longrightarrow> it_type i = TypeParentLocator \<and> it_offset i \<le> tableOffset h"
    "\<And>i. i \<in> set post \<Longrightarrow> it_type i = TypeParentLocator"
    "\<And>bat. blocks_after h (tableOffset h + n) bat \<Longrightarrow>
      stream_index h bat = pre @ bat_item h # sort_key it_offset (post @ block_items h bat)"
proof -
  let ?all = "sort_key it_offset (locator_index h @ [bat_item h])"
  have "bat_item h \<in> set ?all" by simp
  then obtain pre post where sp: "?all = pre @ bat_item h # post" by (meson split_list)
  have so: "sorted (map it_offset (pre @ bat_item h # post))" unfolding sp [symmetric] by (rule sorted_sort_key)
  have "mset (pre @ bat_item h # post) = mset (locator_index h @ [bat_item h])"
    unfolding sp [symmetric] by (rule mset_sort)
  then have "mset (pre @ post) = mset (locator_index h)" by simp
  then have "set (pre @ post) = set (locator_index h)" by (metis set_mset_mset)
  then have loc: "it_type i = TypeParentLocator" if "i \<in> set pre \<union> set post" for i
    using locator_type [of i h] that by auto
  have pre: "it_type i = TypeParentLocator \<and> it_offset i \<le> tableOffset h" if "i \<in> set pre" for i
    using so loc [of i] that by (auto simp: sorted_append bat_item_def)
  have "stream_index h bat = pre @ bat_item h # sort_key it_offset (post @ block_items h bat)"
    if after: "blocks_after h (tableOffset h + n) bat" for bat
    unfolding stream_index_def
  proof (rule properties_for_sort_key, goal_cases)
    case 1
    show ?case using \<open>mset (pre @ post) = mset (locator_index h)\<close>
      by (simp add: ac_simps)
  next
    case (2 k)
    have stable: "filter (\<lambda>x. v = it_offset x) (sort_key it_offset xs) = filter (\<lambda>x. v = it_offset x) xs" for v xs
      using sort_key_stable [of it_offset v xs] by (simp add: eq_commute)
    have "filter (\<lambda>x. it_offset k = it_offset x) (pre @ bat_item h # post) =
        filter (\<lambda>x. it_offset k = it_offset x) (locator_index h @ [bat_item h])"
      unfolding sp [symmetric] by (rule stable)
    then have "filter (\<lambda>x. it_offset k = it_offset x) (pre @ bat_item h # post) @
          filter (\<lambda>x. it_offset k = it_offset x) (block_items h bat) =
        filter (\<lambda>x. it_offset k = it_offset x) (locator_index h @ [bat_item h]) @
          filter (\<lambda>x. it_offset k = it_offset x) (block_items h bat)" by (rule arg_cong)
    then show ?case
      by (cases "it_offset k = it_offset (bat_item h)") (simp_all add: stable)
  next
    case 3
    have "tableOffset h \<le> it_offset i" if "i \<in> set (block_items h bat)" for i
      using after that by (auto simp: block_items_def blocks_after_def)
    then show ?case using so by (auto simp: sorted_append bat_item_def intro: order.trans)
  qed
  with that [OF sp pre] loc show thesis by blast
qed

lemma readable_ge: "readable pos len is \<Longrightarrow> i \<in> set is \<Longrightarrow> pos \<le> it_offset i"
proof (induction "is" arbitrary: pos)
  case (Cons j "is")
  then show ?case by (fastforce simp: fits_def)
qed simp

lemma readable_end: "readable pos len is \<Longrightarrow> pos \<le> end_of pos is"
proof (induction "is" arbitrary: pos)
  case (Cons i "is")
  then have "it_offset i + it_size i \<le> end_of (it_offset i + it_size i) is" and "pos \<le> it_offset i"
    by (simp_all add: fits_def)
  then show ?case by simp
qed simp

lemma readable_len: "readable pos len is \<Longrightarrow> pos \<le> len \<Longrightarrow> end_of pos is \<le> len"
  by (induction "is" arbitrary: pos) (auto simp: fits_def)

lemma readable_limit: "readable pos len is \<Longrightarrow> end_of pos is \<le> len' \<Longrightarrow> readable pos len' is"
proof (induction "is" arbitrary: pos)
  case (Cons i "is")
  have "it_offset i + it_size i \<le> end_of (it_offset i + it_size i) is"
    by (rule readable_end [where len = len]) (use Cons.prems in simp)
  then show ?case using Cons by (simp add: fits_def)
qed simp

lemma readable_mono: "readable pos len is \<Longrightarrow> len \<le> len' \<Longrightarrow> readable pos len' is"
  by (induction "is" arbitrary: pos) (auto simp: fits_def)

lemma new_parser_at: "at_pos (concat cs) (new_StreamParser cs)"
  by (simp add: at_pos_def new_StreamParser_def del: length_concat)

lemma at_pos_update [simp]:
  "at_pos c (p\<lparr>sp_bufFooter := b\<rparr>) = at_pos c p"
  "at_pos c (p\<lparr>sp_bitmapSize := n\<rparr>) = at_pos c p"
  "at_pos c (p\<lparr>sp_index := is\<rparr>) = at_pos c p"
  by (simp_all add: at_pos_def)

lemma bat_item_simps [simp]:
  "it_type (bat_item h) = TypeBat" "it_offset (bat_item h) = tableOffset h"
  "it_size (bat_item h) = computeBatSize (maxTableEntries h)"
  by (simp_all add: bat_item_def)

lemma table_of_length:
  "tableOffset h + computeBatSize (maxTableEntries h) \<le> length c \<Longrightarrow> 4 * maxTableEntries h \<le> length (table_of c h)"
  using computeBatSize_ge [of "maxTableEntries h"] by (simp add: table_of_def bytes_of_def)

text \<open>The part of the parser after the header, at the point where the index is built.\<close>

definition parse_rest :: "vhd_header \<Rightarrow> stream_parser \<Rightarrow> (stream_item, unit) generated" where
  "parse_rest h p =
     gen_bind (headers_loop h (tableOffset h) (computeBatSize (maxTableEntries h))
       (sort_key it_offset (locator_index h @ [bat_item h])) (p\<lparr>sp_bitmapSize := bitmapSize h\<rparr>)) sp_blocks"

lemma gen_bind_assoc: "gen_bind (gen_bind m f) g = gen_bind m (\<lambda>x. gen_bind (f x) g)"
  by (cases m; cases "snd m") (auto simp: gen_bind_def split: sum.splits)

lemma gen_bind_Inr:
  "gen_bind m f = (ys, Inr x) \<longleftrightarrow> (\<exists>ys1 s ys2. m = (ys1, Inr s) \<and> f s = (ys2, Inr x) \<and> ys = ys1 @ ys2)"
  by (cases m; cases "snd m") (auto simp: gen_bind_def prod_eq_iff)

lemma gen_bind_snd: "snd (gen_bind m f) = Inr x \<longleftrightarrow> (\<exists>s. snd m = Inr s \<and> snd (f s) = Inr x)"
  by (cases m; cases "snd m") auto

lemma parse_rest_reads:
  assumes p: "at_pos c p" and len: "sp_bytesRead p \<le> length c - FOOTER_SIZE" "FOOTER_SIZE \<le> length c"
    and after: "blocks_after h (tableOffset h + computeBatSize (maxTableEntries h)) (table_of c h)"
    and rd: "readable (sp_bytesRead p) (length c - FOOTER_SIZE) (stream_index h (table_of c h))"
    and foot: "drop (length c - FOOTER_SIZE) c = sp_bufFooter p"
  shows "parse_rest h p = (map (parsed_item h c) (stream_index h (table_of c h)), Inr ())"
proof -
  let ?bat = "bat_item h" and ?B = "table_of c h" and ?k = "length (block_items h (table_of c h))"
  obtain pre post where split: "sort_key it_offset (locator_index h @ [?bat]) = pre @ ?bat # post"
    and pre: "\<And>i. i \<in> set pre \<Longrightarrow> it_type i = TypeParentLocator \<and> it_offset i \<le> tableOffset h"
    and post: "\<And>i. i \<in> set post \<Longrightarrow> it_type i = TypeParentLocator"
    and all: "stream_index h ?B = pre @ ?bat # sort_key it_offset (post @ block_items h ?B)"
    using stream_index_split [of h "computeBatSize (maxTableEntries h)"] after by metis
  let ?rest = "sort_key it_offset (post @ block_items h ?B)"
  define q where "q = p\<lparr>sp_bitmapSize := bitmapSize h\<rparr>"
  have q: "at_pos c q" "sp_bytesRead q = sp_bytesRead p" "sp_bitmapSize q = bitmapSize h"
    "sp_bufFooter q = sp_bufFooter p" using p by (simp_all add: q_def)
  let ?e1 = "end_of (sp_bytesRead p) (pre @ [?bat])"
  have whole: "readable (sp_bytesRead p) (length c - FOOTER_SIZE) (pre @ [?bat] @ ?rest)"
    using rd by (simp add: all)
  have rd1: "readable (sp_bytesRead q) (length c) (pre @ [?bat])"
    using readable_mono [OF whole, of "length c"] by (simp add: readable_append q)
  have rd2: "readable ?e1 (length c - FOOTER_SIZE) ?rest"
    using whole by (simp add: readable_append end_of_append)
  have "tableOffset h + computeBatSize (maxTableEntries h) \<le> length c"
    using rd1 by (simp add: readable_append fits_def)
  from block_index_eq [OF table_of_length [OF this]] after
  have bi: "block_index h (tableOffset h) (computeBatSize (maxTableEntries h)) (bytes_of c ?bat) post =
      Inr (post @ block_items h ?B, ?k)"
    by (simp add: table_of_def)
  obtain cs where h1: "headers_loop h (tableOffset h) (computeBatSize (maxTableEntries h)) (pre @ ?bat # post) q =
      (map (header_item c) pre @ [ContentItem ?bat (bytes_of c ?bat) (Some ?k) None],
       Inr (moved q cs ?e1\<lparr>sp_index := ?rest\<rparr>))" and at1: "at_pos c (moved q cs ?e1)"
    using headers_loop_reads [OF q(1) rd1 _ _ bi] pre q(2) by fastforce
  define r where "r = moved q cs ?e1\<lparr>sp_index := ?rest\<rparr>"
  have r: "at_pos c r" "sp_bytesRead r = ?e1" "sp_bitmapSize r = bitmapSize h" "sp_index r = ?rest"
    "sp_bufFooter r = sp_bufFooter p" using at1 q by (simp_all add: r_def)
  let ?e2 = "end_of ?e1 ?rest"
  have rd2': "readable (sp_bytesRead r) (length c) ?rest"
    using readable_mono [OF rd2] by (simp add: r)
  obtain ds where b1: "blocks_loop ?rest r = (map (content_item c (bitmapSize h)) ?rest, Inr (moved r ds ?e2))"
    and at2: "at_pos c (moved r ds ?e2)"
    using blocks_loop_reads [OF r(1) rd2'] by (auto simp: r(2,3))
  have e1: "?e1 \<le> length c - FOOTER_SIZE"
    by (rule readable_len) (use whole len(1) in \<open>simp_all add: readable_append\<close>)
  have e2: "?e2 \<le> length c - FOOTER_SIZE" by (rule readable_len [OF rd2 e1])
  have "concat ds = drop ?e2 c" using at2 by (simp add: at_pos_def)
  then have "readLastSector ds = drop (length c - FOOTER_SIZE) c"
    using e2 len(2) by (simp add: readLastSector_eq SECTOR_SIZE_def FOOTER_SIZE_def del: length_concat)
  then have b2: "sp_blocks r = (map (content_item c (bitmapSize h)) ?rest, Inr ())"
    by (simp add: sp_blocks_def r b1 foot gen_await_def)
  have "header_item c i = parsed_item h c i" if "i \<in> set pre" for i
    using pre [OF that] by (simp add: header_item_def parsed_item_def)
  moreover have "content_item c (bitmapSize h) i = parsed_item h c i" if i: "i \<in> set ?rest" for i
  proof -
    have "it_type i \<noteq> TypeBat" using i post block_type [of i h ?B] by auto
    moreover have "?e1 \<le> it_offset i" by (rule readable_ge [OF rd2 i])
    then have "tableOffset h < it_offset i" 
      using rd1 by (simp add: end_of_append readable_append fits_def)
    ultimately show ?thesis by (simp add: content_item_def parsed_item_def)
  qed
  moreover have "parsed_item h c ?bat = ContentItem ?bat (bytes_of c ?bat) (Some ?k) None"
    by (simp add: parsed_item_def)
  ultimately have "map (parsed_item h c) (stream_index h ?B) =
      map (header_item c) pre @ [ContentItem ?bat (bytes_of c ?bat) (Some ?k) None] @
      map (content_item c (bitmapSize h)) ?rest"
    by (simp add: all)
  then show ?thesis
    using h1 b2 by (simp add: parse_rest_def split q_def [symmetric] r_def [symmetric])
qed

lemma parse_rest_Inr:
  assumes p: "at_pos c p" and ok: "snd (parse_rest h p) = Inr ()" and foot: "length (sp_bufFooter p) = FOOTER_SIZE"
  shows "FOOTER_SIZE \<le> length c" "blocks_after h (tableOffset h + computeBatSize (maxTableEntries h)) (table_of c h)"
    "readable (sp_bytesRead p) (length c - FOOTER_SIZE) (stream_index h (table_of c h))"
    "drop (length c - FOOTER_SIZE) c = sp_bufFooter p"
proof -
  let ?bat = "bat_item h" and ?B = "table_of c h" and ?k = "length (block_items h (table_of c h))"
  let ?s = "computeBatSize (maxTableEntries h)"
  obtain pre post where split: "sort_key it_offset (locator_index h @ [?bat]) = pre @ ?bat # post"
    and pre: "\<And>i. i \<in> set pre \<Longrightarrow> it_type i = TypeParentLocator \<and> it_offset i \<le> tableOffset h"
    and all: "\<And>bat. blocks_after h (tableOffset h + ?s) bat \<Longrightarrow>
      stream_index h bat = pre @ bat_item h # sort_key it_offset (post @ block_items h bat)"
    using stream_index_split [of h "computeBatSize (maxTableEntries h)"] by metis
  let ?rest = "sort_key it_offset (post @ block_items h ?B)"
  define q where "q = p\<lparr>sp_bitmapSize := bitmapSize h\<rparr>"
  have q: "at_pos c q" "sp_bytesRead q = sp_bytesRead p" "sp_bufFooter q = sp_bufFooter p"
    using p by (simp_all add: q_def)
  obtain r where h1: "snd (headers_loop h (tableOffset h) ?s (pre @ ?bat # post) q) = Inr r"
    and b1: "snd (sp_blocks r) = Inr ()"
    using ok unfolding parse_rest_def split q_def [symmetric] gen_bind_snd by blast
  have types: "it_type i \<noteq> TypeBat" if "i \<in> set pre" for i using pre [OF that] by simp
  have rd1: "readable (sp_bytesRead q) (length c) (pre @ [?bat])"
    and bi: "\<exists>x. block_index h (tableOffset h) ?s (bytes_of c ?bat) post = Inr x"
    using headers_loop_Inr [OF q(1), of h "tableOffset h" ?s pre ?bat post r] h1 types by simp_all
  have "tableOffset h + ?s \<le> length c"
    using rd1 by (simp add: readable_append fits_def)
  note bix = block_index_eq [OF table_of_length [OF this], of "tableOffset h" ?s post]
  show after: "blocks_after h (tableOffset h + ?s) ?B"
    using bi bix by (auto simp: table_of_def split: if_splits)
  let ?e1 = "end_of (sp_bytesRead p) (pre @ [?bat])"
  have bi': "block_index h (tableOffset h) ?s (bytes_of c ?bat) post = Inr (post @ block_items h ?B, ?k)"
    using bix after by (simp add: table_of_def)
  obtain cs where r: "r = moved q cs ?e1\<lparr>sp_index := ?rest\<rparr>" and at1: "at_pos c (moved q cs ?e1)"
    using headers_loop_reads [OF q(1) rd1 _ _ bi'] types h1 q(2) by fastforce
  have r': "at_pos c r" "sp_bytesRead r = ?e1" "sp_index r = ?rest" "sp_bufFooter r = sp_bufFooter p"
    using at1 q by (simp_all add: r)
  obtain r2 where b2: "snd (blocks_loop ?rest r) = Inr r2" and last: "sp_bufFooter r2 = readLastSector (sp_stream r2)"
    using b1 [unfolded sp_blocks_def r'(3) gen_bind_snd] by (auto simp: gen_await_def)
  have rd2: "readable ?e1 (length c) ?rest"
    using blocks_loop_Inr [OF r'(1) b2] by (simp add: r')
  obtain ds where b3: "blocks_loop ?rest r = (map (content_item c (sp_bitmapSize r)) ?rest, Inr (moved r ds (end_of ?e1 ?rest)))"
    and at2: "at_pos c (moved r ds (end_of ?e1 ?rest))"
    using blocks_loop_reads [OF r'(1)] rd2 by (auto simp: r'(2))
  let ?e2 = "end_of ?e1 ?rest"
  have "sp_bufFooter p = drop (length c - ?e2 - SECTOR_SIZE) (drop ?e2 c)"
    using last b2 b3 at2 r'(4) by (auto simp: readLastSector_eq at_pos_def simp del: length_concat)
  then have "length (drop (length c - ?e2 - SECTOR_SIZE) (drop ?e2 c)) = FOOTER_SIZE" and eq: "sp_bufFooter p = drop (length c - ?e2 - SECTOR_SIZE + ?e2) c"
    using foot by (simp_all add: add.commute)
  then have e2: "?e2 + FOOTER_SIZE \<le> length c" by (simp add: SECTOR_SIZE_def FOOTER_SIZE_def)
  then show "FOOTER_SIZE \<le> length c" by simp
  have "length c - ?e2 - SECTOR_SIZE + ?e2 = length c - FOOTER_SIZE"
    using e2 by (simp add: SECTOR_SIZE_def FOOTER_SIZE_def)
  then show "drop (length c - FOOTER_SIZE) c = sp_bufFooter p" using eq by simp
  have whole: "readable (sp_bytesRead p) (length c) (pre @ [?bat] @ ?rest)"
    using rd1 rd2 by (simp add: readable_append q end_of_append)
  have "end_of (sp_bytesRead p) (pre @ [?bat] @ ?rest) \<le> length c - FOOTER_SIZE"
    using e2 by (simp add: end_of_append)
  from readable_limit [OF whole this]
  show "readable (sp_bytesRead p) (length c - FOOTER_SIZE) (stream_index h ?B)"
    by (simp add: all [OF after])
qed

lemma parse_unfold:
  "parseVhdStream fu cs =
     gen_bind (gen_await (sp_read 0 FOOTER_SIZE (new_StreamParser cs))) (\<lambda>(bufFooter, p).
     gen_bind (gen_await (unpackFooter fu bufFooter)) (\<lambda>footer.
     gen_bind (gen_yield (FooterItem footer)) (\<lambda>_.
     gen_bind (gen_await (sp_read FOOTER_SIZE HEADER_SIZE (p\<lparr>sp_bufFooter := bufFooter\<rparr>))) (\<lambda>(bufHeader, p).
     gen_bind (gen_await (unpackHeader fu bufHeader (Some footer))) (\<lambda>header.
     gen_bind (gen_yield (HeaderItem header)) (\<lambda>_.
     gen_bind (gen_await (js_assert (blockSize header mod SECTOR_SIZE = 0))) (\<lambda>_.
     parse_rest header p)))))))"
  by (simp add: parseVhdStream_def sp_headers_def parse_rest_def gen_bind_assoc Let_def bat_bytes bitmap_bytes
      bat_item_def case_prod_unfold del: gen_yield_bind)

lemma at_moved: "at_pos c (moved p cs e) \<Longrightarrow> at_pos c (moved (p\<lparr>sp_bufFooter := b\<rparr>) cs e)"
  by (simp add: at_pos_def)

lemma gen_await_Inr: "gen_bind (gen_await r) f = (ys, Inr x) \<longleftrightarrow> (\<exists>y. r = Inr y \<and> f y = (ys, Inr x))"
  by (cases r) (auto simp: prod_eq_iff)

lemma gen_yield_Inr:
  "gen_bind (gen_yield y) f = (ys, Inr x) \<longleftrightarrow> (\<exists>zs. ys = y # zs \<and> f () = (zs, Inr x))"
  by (auto simp: prod_eq_iff)

lemma bat_item_within: "readable pos len (stream_index h bat) \<Longrightarrow> pos \<le> len"
proof -
  assume r: "readable pos len (stream_index h bat)"
  have "bat_item h \<in> set (stream_index h bat)" by (simp add: stream_index_def)
  then have "stream_index h bat \<noteq> []" by auto
  then show "pos \<le> len" using r by (auto simp: neq_Nil_conv fits_def)
qed

lemma parse_iff:
  assumes c: "concat cs = c"
  shows "parseVhdStream fu cs = (ys, Inr ()) \<longleftrightarrow>
    (\<exists>f h. streamable fu c f h \<and>
      ys = FooterItem f # HeaderItem h # map (parsed_item h c) (stream_index h (table_of c h)))"
proof -
  let ?p0 = "new_StreamParser cs"
  have at0: "at_pos c ?p0" and pos0: "sp_bytesRead ?p0 = 0" 
    using new_parser_at [of cs] c by (simp_all add: new_StreamParser_def)
  let ?F = "file_read c 0 FOOTER_SIZE" and ?H = "file_read c FOOTER_SIZE HEADER_SIZE"
  have run: "parseVhdStream fu cs = (ys, Inr ()) \<longleftrightarrow>
      (\<exists>f h. unpackFooter fu ?F = Inr f \<and> unpackHeader fu ?H (Some f) = Inr h \<and> blockSize h mod SECTOR_SIZE = 0 \<and>
        (\<exists>zs. parse_rest h p2 = (zs, Inr ()) \<and> ys = FooterItem f # HeaderItem h # zs))"
    if "sp_read 0 FOOTER_SIZE ?p0 = Inr (?F, p1)" "sp_read FOOTER_SIZE HEADER_SIZE (p1\<lparr>sp_bufFooter := ?F\<rparr>) = Inr (?H, p2)"
    for p1 p2
    using that by (auto simp: parse_unfold gen_await_Inr gen_yield_Inr simp del: gen_yield_bind)
  show ?thesis
  proof (cases "FOOTER_SIZE + HEADER_SIZE \<le> length c")
    case True
    obtain s1 where s1: "sp_read 0 FOOTER_SIZE ?p0 = Inr (?F, moved ?p0 s1 FOOTER_SIZE)"
      "at_pos c (moved ?p0 s1 FOOTER_SIZE)"
      using sp_read_reads [OF at0, of 0 FOOTER_SIZE] True pos0 by (auto simp: fits_def FOOTER_SIZE_def)
    let ?p1 = "moved ?p0 s1 FOOTER_SIZE"
    obtain s2 where s2: "sp_read FOOTER_SIZE HEADER_SIZE (?p1\<lparr>sp_bufFooter := ?F\<rparr>) =
        Inr (?H, moved (?p1\<lparr>sp_bufFooter := ?F\<rparr>) s2 (FOOTER_SIZE + HEADER_SIZE))"
      "at_pos c (moved (?p1\<lparr>sp_bufFooter := ?F\<rparr>) s2 (FOOTER_SIZE + HEADER_SIZE))"
      using sp_read_reads [of c "?p1\<lparr>sp_bufFooter := ?F\<rparr>" FOOTER_SIZE HEADER_SIZE] s1(2) True
      by (auto simp: fits_def HEADER_SIZE_def)
    let ?p2 = "moved (?p1\<lparr>sp_bufFooter := ?F\<rparr>) s2 (FOOTER_SIZE + HEADER_SIZE)"
    have p2: "sp_bytesRead ?p2 = FOOTER_SIZE + HEADER_SIZE" "sp_bufFooter ?p2 = ?F" by simp_all
    have len: "length ?F = FOOTER_SIZE" using True by simp
    have rest: "(\<exists>zs. parse_rest h ?p2 = (zs, Inr ()) \<and> P zs) \<longleftrightarrow>
        FOOTER_SIZE \<le> length c \<and>
        blocks_after h (tableOffset h + computeBatSize (maxTableEntries h)) (table_of c h) \<and>
        readable (FOOTER_SIZE + HEADER_SIZE) (length c - FOOTER_SIZE) (stream_index h (table_of c h)) \<and>
        drop (length c - FOOTER_SIZE) c = ?F \<and> P (map (parsed_item h c) (stream_index h (table_of c h)))" for h P
    proof (intro iffI; (elim exE conjE)?)
      fix zs assume z: "parse_rest h ?p2 = (zs, Inr ())" "P zs"
      then have "snd (parse_rest h ?p2) = Inr ()" by simp
      note c4 = parse_rest_Inr [OF s2(2) this, unfolded p2, OF len]
      have "parse_rest h ?p2 = (map (parsed_item h c) (stream_index h (table_of c h)), Inr ())"
        by (rule parse_rest_reads [OF s2(2)]) (use c4 bat_item_within [OF c4(3)] in simp_all)
      then show "FOOTER_SIZE \<le> length c \<and>
          blocks_after h (tableOffset h + computeBatSize (maxTableEntries h)) (table_of c h) \<and>
          readable (FOOTER_SIZE + HEADER_SIZE) (length c - FOOTER_SIZE) (stream_index h (table_of c h)) \<and>
          drop (length c - FOOTER_SIZE) c = ?F \<and> P (map (parsed_item h c) (stream_index h (table_of c h)))"
        using c4 z by simp
    next
      assume "FOOTER_SIZE \<le> length c"
        "blocks_after h (tableOffset h + computeBatSize (maxTableEntries h)) (table_of c h)"
        "readable (FOOTER_SIZE + HEADER_SIZE) (length c - FOOTER_SIZE) (stream_index h (table_of c h))"
        "drop (length c - FOOTER_SIZE) c = ?F" "P (map (parsed_item h c) (stream_index h (table_of c h)))"
      moreover have "FOOTER_SIZE + HEADER_SIZE \<le> length c - FOOTER_SIZE" if "readable (FOOTER_SIZE + HEADER_SIZE) (length c - FOOTER_SIZE) (stream_index h (table_of c h))"
        using that bat_item_within by blast
      ultimately show "\<exists>zs. parse_rest h ?p2 = (zs, Inr ()) \<and> P zs"
        using parse_rest_reads [OF s2(2)] by simp
    qed
    show ?thesis
      unfolding run [OF s1(1) s2(1)] rest streamable_def by (intro iff_exI) blast
  next
    case False
    then have "\<not> streamable fu c f h" for f h
      using bat_item_within [of "FOOTER_SIZE + HEADER_SIZE" "length c - FOOTER_SIZE" h "table_of c h"]
      unfolding streamable_def by linarith
    moreover have "parseVhdStream fu cs \<noteq> (ys, Inr ())"
    proof
      assume "parseVhdStream fu cs = (ys, Inr ())"
      then obtain b p1 f x where r1: "sp_read 0 FOOTER_SIZE ?p0 = Inr (b, p1)"
        and r2: "sp_read FOOTER_SIZE HEADER_SIZE (p1\<lparr>sp_bufFooter := b\<rparr>) = Inr x"
        by (auto simp: parse_unfold gen_await_Inr gen_yield_Inr simp del: gen_yield_bind)
      have f1: "fits 0 (length c) 0 FOOTER_SIZE" using sp_read_fits [OF at0 r1] pos0 by simp
      then obtain s1 where "p1 = moved ?p0 s1 FOOTER_SIZE" "at_pos c p1"
        using sp_read_reads [OF at0, of 0 FOOTER_SIZE] r1 pos0 by auto
      then have "fits FOOTER_SIZE (length c) FOOTER_SIZE HEADER_SIZE"
        using sp_read_fits [OF _ r2, of c] by simp
      then show False using False by (simp add: fits_def)
    qed
    ultimately show ?thesis by blast
  qed
qed

end
