(* ===== verification/Vhd_Stream_Tools.thy ===== *)
theory Vhd_Stream_Tools
  imports Vhd_Stream_Props
begin

text \<open>
  The tools on VHD streams: what the validator accepts and lets through, what the cutter of
  \<open>createVhdStreamWithLength\<close> delivers whatever the chunks, and when the result is still a VHD.
\<close>

section \<open>The validator\<close>

lemma validate_loop_spec:
  assumes "case lastChunk of None \<Rightarrow> True | Some l \<Rightarrow> length l = FOOTER_SIZE" and "concat reader = d"
  shows "concat (fst (validate_loop lastChunk reader)) = d \<and>
    snd (validate_loop lastChunk reader) =
      (if lastChunk = None \<and> length d < FOOTER_SIZE then Inl TypeError
       else Inr (drop (length (case_option [] (\<lambda>l. l) lastChunk @ d) - FOOTER_SIZE)
              (case_option [] (\<lambda>l. l) lastChunk @ d)))"
  using assms
proof (induction lastChunk reader arbitrary: d rule: validate_loop.induct)
  case (1 lastChunk reader)
  show ?case
  proof (cases "d = []")
    case True
    then have "validate_loop lastChunk reader =
        gen_await (case lastChunk of None \<Rightarrow> Inl TypeError | Some lastChunk \<Rightarrow> Inr lastChunk)"
      using "1.prems"(2) by (subst validate_loop.simps) simp
    then show ?thesis
      using "1.prems" True by (auto simp: gen_await_def FOOTER_SIZE_def split: option.splits)
  next
    case ne: False
    show ?thesis
    proof (cases "length d < FOOTER_SIZE")
      case True
      then have "validate_loop lastChunk reader = ([d], case lastChunk of None \<Rightarrow> Inl TypeError
          | Some l \<Rightarrow> Inr (drop (length l - (FOOTER_SIZE - length d)) l @ d))"
        using "1.prems"(2) ne by (subst validate_loop.simps) (simp add: gen_await_def Let_def del: concat_eq_Nil_conv)
      then show ?thesis
        using "1.prems" True by (auto split: option.splits)
    next
      case False
      let ?next = "stream_drop FOOTER_SIZE reader" and ?chunk = "take FOOTER_SIZE d"
      have step: "validate_loop lastChunk reader =
          (?chunk # fst (validate_loop (Some ?chunk) ?next), snd (validate_loop (Some ?chunk) ?next))"
        using "1.prems"(2) ne False by (subst validate_loop.simps) (simp add: Let_def)
      have "concat (fst (validate_loop (Some ?chunk) ?next)) = drop FOOTER_SIZE d \<and>
          snd (validate_loop (Some ?chunk) ?next) = Inr (drop (length (?chunk @ drop FOOTER_SIZE d) - FOOTER_SIZE)
            (?chunk @ drop FOOTER_SIZE d))"
        using "1.IH" [of ?chunk "drop FOOTER_SIZE d"] "1.prems"(2) ne False by simp
      then show ?thesis
        unfolding step using False "1.prems"(1)
        by (auto split: option.splits simp: FOOTER_SIZE_def)
    qed
  qed
qed

lemma reader_readStrict_eq:
  assumes "0 < n" "concat cs = d"
  shows "n \<le> length d \<Longrightarrow> reader_readStrict n cs = Inr (take n d, stream_drop n cs)"
    and "length d < n \<Longrightarrow> \<exists>e. reader_readStrict n cs = Inl e"
proof -
  assume n: "n \<le> length d"
  then have "d \<noteq> []" using assms(1) by auto
  then show "reader_readStrict n cs = Inr (take n d, stream_drop n cs)"
    using assms n by (simp add: reader_readStrict_def reader_read_def del: concat_eq_Nil_conv)
next
  assume "length d < n"
  then show "\<exists>e. reader_readStrict n cs = Inl e"
    using assms by (cases "d = []") (simp_all add: reader_readStrict_def reader_read_def del: concat_eq_Nil_conv)
qed

text \<open>Whatever happens, the bytes that went through are the first ones of the stream.\<close>

lemma validator_unfold:
  assumes "concat cs = c"
  shows "concat (fst (vhdStreamValidator fu cs)) = take (length (concat (fst (vhdStreamValidator fu cs)))) c"
    and "snd (vhdStreamValidator fu cs) = Inr () \<longleftrightarrow>
      FOOTER_SIZE + HEADER_SIZE + FOOTER_SIZE \<le> length c \<and>
      (\<exists>f. unpackFooter fu (file_read c 0 FOOTER_SIZE) = Inr f) \<and>
      (\<exists>h. unpackHeader fu (file_read c FOOTER_SIZE HEADER_SIZE) None = Inr h) \<and>
      drop (length c - FOOTER_SIZE) c = file_read c 0 FOOTER_SIZE"
    and "snd (vhdStreamValidator fu cs) = Inr () \<Longrightarrow> concat (fst (vhdStreamValidator fu cs)) = c"
proof -
  let ?V = "vhdStreamValidator fu cs"
  let ?F = "file_read c 0 FOOTER_SIZE" and ?H = "file_read c FOOTER_SIZE HEADER_SIZE"
  let ?r1 = "stream_drop FOOTER_SIZE cs"
  let ?r2 = "stream_drop HEADER_SIZE ?r1"
  have pos: "0 < FOOTER_SIZE" "0 < HEADER_SIZE" by (simp_all add: vhd_sizes)
  have "(concat (fst ?V) = take (length (concat (fst ?V))) c) \<and>
    (snd ?V = Inr () \<longleftrightarrow> FOOTER_SIZE + HEADER_SIZE + FOOTER_SIZE \<le> length c \<and>
      (\<exists>f. unpackFooter fu ?F = Inr f) \<and> (\<exists>h. unpackHeader fu ?H None = Inr h) \<and>
      drop (length c - FOOTER_SIZE) c = ?F) \<and> (snd ?V = Inr () \<longrightarrow> concat (fst ?V) = c)"
  proof (cases "FOOTER_SIZE \<le> length c")
    case False
    then obtain e where "reader_readStrict FOOTER_SIZE cs = Inl e"
      using reader_readStrict_eq(2) [OF pos(1) assms] by auto
    then show ?thesis using False by (auto simp: vhdStreamValidator_def)
  next
    case t1: True
    have r1: "reader_readStrict FOOTER_SIZE cs = Inr (?F, ?r1)"
      using reader_readStrict_eq(1) [OF pos(1) assms t1] by (simp add: file_read_def)
    have c1: "concat ?r1 = drop FOOTER_SIZE c" using assms by simp
    show ?thesis
    proof (cases "unpackFooter fu ?F")
      case (Inl e)
      then show ?thesis using t1 by (simp add: vhdStreamValidator_def r1) (simp add: file_read_def)
    next
      case f: (Inr f)
      show ?thesis
      proof (cases "FOOTER_SIZE + HEADER_SIZE \<le> length c")
        case False
        then have "length (drop FOOTER_SIZE c) < HEADER_SIZE" using t1 by (simp add: less_diff_conv2 add.commute)
        then obtain e where "reader_readStrict HEADER_SIZE ?r1 = Inl e"
          using reader_readStrict_eq(2) [OF pos(2) c1] by auto
        then show ?thesis using t1 f False by (simp add: vhdStreamValidator_def r1) (simp add: file_read_def)
      next
        case t2: True
        have r2: "reader_readStrict HEADER_SIZE ?r1 = Inr (?H, ?r2)"
          using reader_readStrict_eq(1) [OF pos(2) c1] t2 by (simp add: file_read_def)
        have FH: "?F @ ?H = take (FOOTER_SIZE + HEADER_SIZE) c"
          by (simp add: file_read_def take_add)
        show ?thesis
        proof (cases "unpackHeader fu ?H None")
          case (Inl e)
          then show ?thesis using t2 f FH by (simp add: vhdStreamValidator_def r1 r2)
        next
          case h: (Inr h)
          let ?d = "drop (FOOTER_SIZE + HEADER_SIZE) c"
          have "concat ?r2 = ?d" using assms by (simp add: add.commute)
          from validate_loop_spec [of None, OF _ this]
          have l: "concat (fst (validate_loop None ?r2)) = ?d"
            "snd (validate_loop None ?r2) = (if length ?d < FOOTER_SIZE then Inl TypeError
              else Inr (drop (length ?d - FOOTER_SIZE) ?d))" by simp_all
          obtain ys r where v: "validate_loop None ?r2 = (ys, r)" by fastforce
          have all: "?F @ ?H @ concat ys = c" using FH l(1) v by (metis append_assoc append_take_drop_id fst_conv)
          have len: "FOOTER_SIZE + (HEADER_SIZE + length (concat ys)) = length c"
            using l(1) v t2 by (simp del: length_concat)
          show ?thesis
          proof (cases "length ?d < FOOTER_SIZE")
            case True
            then show ?thesis
              using all v l f h t2 len by (auto simp: vhdStreamValidator_def r1 r2 simp del: length_concat)
          next
            case False
            then have "length c - (FOOTER_SIZE + HEADER_SIZE + FOOTER_SIZE) + (FOOTER_SIZE + HEADER_SIZE) =
                length c - FOOTER_SIZE" by (simp add: vhd_sizes)
            then have "r = Inr (drop (length c - FOOTER_SIZE) c)" using False v l(2) by simp
            moreover have "?F @ ?H @ concat ys = c" by fact
            ultimately show ?thesis
              using False v f h t2 len
              by (auto simp: vhdStreamValidator_def r1 r2 gen_await_def simp del: length_concat)
          qed
        qed
      qed
    qed
  qed
  then show "concat (fst ?V) = take (length (concat (fst ?V))) c"
    and "snd ?V = Inr () \<longleftrightarrow> FOOTER_SIZE + HEADER_SIZE + FOOTER_SIZE \<le> length c \<and>
      (\<exists>f. unpackFooter fu ?F = Inr f) \<and> (\<exists>h. unpackHeader fu ?H None = Inr h) \<and>
      drop (length c - FOOTER_SIZE) c = ?F" and "snd ?V = Inr () \<Longrightarrow> concat (fst ?V) = c" by blast+
qed

text \<open>Every stream the parser reads to its end passes the validator.\<close>

lemma streamable_validates:
  assumes s: "streamable fu (concat cs) f h"
  shows "snd (vhdStreamValidator fu cs) = Inr ()"
proof -
  have "FOOTER_SIZE + HEADER_SIZE \<le> length (concat cs) - FOOTER_SIZE"
    using s bat_item_within unfolding streamable_def by blast
  moreover obtain b where "assertChecksum fu (file_read (concat cs) FOOTER_SIZE HEADER_SIZE) FuHeader = Inr b"
    "checkHeader (fuHeader_unpack fu b) (Some f) = Inr ()"
    using s by (auto simp: streamable_def unpackHeader_def Let_def res_bind_Inr_iff)
  then have "unpackHeader fu (file_read (concat cs) FOOTER_SIZE HEADER_SIZE) None = Inr (fuHeader_unpack fu b)"
    by (simp add: unpackHeader_def Let_def checkHeader_def res_bind_Inr_iff)
  ultimately show ?thesis
    unfolding validator_unfold(2) [OF refl] using s by (auto simp: streamable_def)
qed

section \<open>Cutting the stream\<close>

lemma ec_fold:
  fixes footerOffset :: nat and footer :: buffer
  defines "st s \<equiv> fold (ec_transform footerOffset footer) s \<lparr>ec_position = 0, ec_done = False, ec_pushed = []\<rparr>"
  shows "(ec_done (st s) \<longleftrightarrow> s \<noteq> [] \<and> footerOffset \<le> length (concat s)) \<and>
    concat (ec_pushed (st s)) = (if s \<noteq> [] \<and> footerOffset \<le> length (concat s)
      then take footerOffset (concat s) @ footer else concat s) \<and>
    (\<not> ec_done (st s) \<longrightarrow> ec_position (st s) = length (concat s))"
proof (induction s rule: rev_induct)
  case Nil
  then show ?case by (simp add: st_def)
next
  case (snoc d s)
  have step: "st (s @ [d]) = ec_transform footerOffset footer d (st s)" by (simp add: st_def)
  show ?case
  proof (cases "ec_done (st s)")
    case True
    then have "footerOffset \<le> length (concat s)" "s \<noteq> []" using snoc by blast+
    then show ?thesis using snoc True unfolding step by (simp add: ec_transform_def del: length_concat)
  next
    case False
    then have pos: "ec_position (st s) = length (concat s)"
      and old: "concat (ec_pushed (st s)) = concat s" and lt: "s \<noteq> [] \<Longrightarrow> length (concat s) < footerOffset"
      using snoc by auto
    show ?thesis
    proof (cases "footerOffset \<le> length (concat s) + length d")
      case True
      have "length (concat s) \<le> footerOffset" using lt by (cases "s = []") simp_all
      then have "take footerOffset (concat s @ d) = concat s @ take (footerOffset - length (concat s)) d"
        by (simp del: length_concat)
      then show ?thesis
        using True False pos old unfolding step
        by (simp add: ec_transform_def Let_def buf_slice_def del: length_concat)
    next
      case 2: False
      then show ?thesis
        using False pos old unfolding step by (simp add: ec_transform_def Let_def del: length_concat)
    qed
  qed
qed

lemma EndCutterStream_concat:
  assumes "concat cs = c" "0 < footerOffset"
  shows "concat (EndCutterStream footerOffset footer cs) =
    (if footerOffset \<le> length c then take footerOffset c @ footer else c)"
proof -
  have "cs \<noteq> []" if "footerOffset \<le> length c" using that assms by auto
  then show ?thesis using ec_fold [of footerOffset footer cs] assms(1) unfolding EndCutterStream_def by auto
qed

text \<open>\<open>readStream\<close> keeps what it reads.\<close>

definition lr_at :: "buffer \<Rightarrow> length_reader \<Rightarrow> bool" where
  "lr_at c r \<longleftrightarrow> concat (lr_buffers r) @ concat (lr_stream r) = c \<and> lr_position r = length (concat (lr_buffers r))"

lemma lr_readStream_Inr:
  assumes r: "lr_at c r" and ok: "lr_readStream n r = Inr (b, r')"
  shows "lr_at c r'" "0 \<le> n" "lr_position r' = lr_position r + nat n" "b = file_read c (lr_position r) (nat n)"
    "length b = nat n"
proof -
  have "lr_at c r' \<and> 0 \<le> n \<and> lr_position r' = lr_position r + nat n \<and> b = file_read c (lr_position r) (nat n) \<and>
    length b = nat n"
  proof (cases "n = 0")
    case True
    then show ?thesis using ok r by (auto simp: lr_readStream_def file_read_def)
  next
    case False
    then obtain cs where rd: "stream_readChunkStrict n (lr_stream r) = Inr (b, cs)"
      and r': "r' = r\<lparr>lr_stream := cs, lr_position := lr_position r + nat n, lr_buffers := lr_buffers r @ [b]\<rparr>"
      using ok by (auto simp: lr_readStream_def res_bind_Inr_iff)
    note q = stream_readChunkStrict_Inr [OF rd]
    have "drop (lr_position r) c = concat (lr_stream r)" using r by (auto simp: lr_at_def simp del: length_concat)
    then show ?thesis
      using q r by (auto simp: lr_at_def r' file_read_def simp del: length_concat)
  qed
  then show "lr_at c r'" "0 \<le> n" "lr_position r' = lr_position r + nat n" "b = file_read c (lr_position r) (nat n)"
    "length b = nat n" by blast+
qed

text \<open>Where the stream is cut, from the header and the table.\<close>

definition cut_offset :: "vhd_header \<Rightarrow> buffer \<Rightarrow> js_error + nat" where
  "cut_offset h table =
     res_bind (getFirstAndLastBlocks table) (\<lambda>fl. Inr (case fl of
       Some fl \<Rightarrow> lastSector fl * SECTOR_SIZE +
         ceil_div (blockSize h) (SECTOR_SIZE * 8 * SECTOR_SIZE) * SECTOR_SIZE + blockSize h
     | None \<Rightarrow> ceil_div (tableOffset h + maxTableEntries h * 4) SECTOR_SIZE * SECTOR_SIZE))"

lemma createVhdStreamWithLength_Inr:
  assumes c: "concat cs = c" and ok: "createVhdStreamWithLength fu cs = Inr (out, n)"
  defines "h \<equiv> fuHeader_unpack fu (file_read c FOOTER_SIZE HEADER_SIZE)"
  shows "is_pow2 (blockSize h)" "FOOTER_SIZE + HEADER_SIZE \<le> tableOffset h"
    "\<exists>p. cut_offset h (file_read c (tableOffset h) (maxTableEntries h * 4)) = Inr p \<and> n = p + FOOTER_SIZE \<and>
      (0 < p \<longrightarrow> concat out = (if p \<le> length c then take p c @ file_read c 0 FOOTER_SIZE else c))"
proof -
  let ?r0 = "\<lparr>lr_stream = cs, lr_position = 0, lr_buffers = []\<rparr>"
  obtain fb r1 hb r2 x r3 t r4 fl
    where q1: "lr_readStream (int FOOTER_SIZE) ?r0 = Inr (fb, r1)"
      and q2: "lr_readStream (int HEADER_SIZE) r1 = Inr (hb, r2)"
      and ch: "checkHeader (fuHeader_unpack fu hb) (Some (fuFooter_unpack fu fb)) = Inr ()"
      and q3: "lr_readStream (int (tableOffset (fuHeader_unpack fu hb)) - int (lr_position r2)) r2 = Inr (x, r3)"
      and q4: "lr_readStream (int (maxTableEntries (fuHeader_unpack fu hb) * 4)) r3 = Inr (t, r4)"
      and fl: "getFirstAndLastBlocks t = Inr fl"
      and out: "(out, n) = (let footerOffset = (case fl of
                    Some fl \<Rightarrow> lastSector fl * SECTOR_SIZE +
                      ceil_div (blockSize (fuHeader_unpack fu hb)) (SECTOR_SIZE * 8 * SECTOR_SIZE) * SECTOR_SIZE +
                      blockSize (fuHeader_unpack fu hb)
                  | None \<Rightarrow> ceil_div (lr_position r4) SECTOR_SIZE * SECTOR_SIZE)
              in (EndCutterStream footerOffset fb (fold (\<lambda>buf stream. buf # stream) (rev (lr_buffers r4)) (lr_stream r4)),
                  footerOffset + FOOTER_SIZE))"
    using ok unfolding createVhdStreamWithLength_def Let_def by (auto simp: res_bind_Inr_iff)
  have a0: "lr_at c ?r0" using c by (simp add: lr_at_def)
  note a1 = lr_readStream_Inr [OF a0 q1]
  note a2 = lr_readStream_Inr [OF a1(1) q2]
  note a3 = lr_readStream_Inr [OF a2(1) q3]
  note a4 = lr_readStream_Inr [OF a3(1) q4]
  have fb: "fb = file_read c 0 FOOTER_SIZE" using a1(4) by simp
  have h: "fuHeader_unpack fu hb = h" using a2(4) a1(3) by (simp add: h_def)
  have p2: "lr_position r2 = FOOTER_SIZE + HEADER_SIZE" using a1(3) a2(3) by simp
  then show to: "FOOTER_SIZE + HEADER_SIZE \<le> tableOffset h" using a3(2) h by simp
  have p3: "lr_position r3 = tableOffset h" using a3(3) p2 to h by simp
  have t: "t = file_read c (tableOffset h) (maxTableEntries h * 4)" using a4(4) unfolding p3 h nat_int .
  have p4: "lr_position r4 = tableOffset h + maxTableEntries h * 4" using a4(3) unfolding p3 h nat_int .
  have stream: "concat (fold (\<lambda>buf stream. buf # stream) (rev (lr_buffers r4)) (lr_stream r4)) = c"
    using a4(1) by (simp add: fold_Cons_rev lr_at_def)
  show "is_pow2 (blockSize h)" using ch h by (simp add: checkHeader_def res_bind_Inr_iff)
  let ?p = "(case fl of
       Some fl \<Rightarrow> lastSector fl * SECTOR_SIZE +
         ceil_div (blockSize h) (SECTOR_SIZE * 8 * SECTOR_SIZE) * SECTOR_SIZE + blockSize h
     | None \<Rightarrow> ceil_div (tableOffset h + maxTableEntries h * 4) SECTOR_SIZE * SECTOR_SIZE)"
  have "cut_offset h (file_read c (tableOffset h) (maxTableEntries h * 4)) = Inr ?p"
    using fl t by (simp add: cut_offset_def)
  moreover have "n = ?p + FOOTER_SIZE"
    and "out = EndCutterStream ?p (file_read c 0 FOOTER_SIZE)
      (fold (\<lambda>buf stream. buf # stream) (rev (lr_buffers r4)) (lr_stream r4))"
    using out unfolding Let_def h p4 fb by simp_all
  ultimately show "\<exists>p. cut_offset h (file_read c (tableOffset h) (maxTableEntries h * 4)) = Inr p \<and> n = p + FOOTER_SIZE \<and>
      (0 < p \<longrightarrow> concat out = (if p \<le> length c then take p c @ file_read c 0 FOOTER_SIZE else c))"
    using EndCutterStream_concat [OF stream] by blast
qed

text \<open>The block sizes the header check lets through, where the two ways of computing a bitmap agree.\<close>

lemma is_pow2_ex: "is_pow2 n \<Longrightarrow> \<exists>k. n = 2 ^ k"
proof (induction n rule: is_pow2.induct)
  case (1 n)
  show ?case
  proof (cases "n \<le> 1")
    case True
    then have "n = 2 ^ 0" using 1(2) by (subst (asm) is_pow2.simps) simp
    then show ?thesis by blast
  next
    case False
    then have "even n" "is_pow2 (n div 2)" using 1(2) by (subst (asm) is_pow2.simps, simp)+
    with 1(1) False obtain k where "n div 2 = 2 ^ k" by auto
    then have "n = 2 ^ Suc k" using \<open>even n\<close> by auto
    then show ?thesis by blast
  qed
qed

lemma cut_block_size:
  assumes "is_pow2 b" "b mod SECTOR_SIZE = 0"
  shows "ceil_div b (SECTOR_SIZE * 8 * SECTOR_SIZE) * SECTOR_SIZE + b = computeFullBlockSize b"
proof -
  obtain k where k: "b = 2 ^ k" using is_pow2_ex [OF assms(1)] by blast
  have "9 \<le> k"
  proof (rule ccontr)
    assume "\<not> 9 \<le> k"
    then have "k \<in> {0, 1, 2, 3, 4, 5, 6, 7, 8}" by auto
    then show False using assms(2) k by (auto simp: SECTOR_SIZE_def)
  qed
  show ?thesis
  proof (cases "k < 21")
    case True
    then have "k = 9 \<or> k = 10 \<or> k = 11 \<or> k = 12 \<or> k = 13 \<or> k = 14 \<or> k = 15 \<or> k = 16 \<or> k = 17 \<or> k = 18 \<or>
        k = 19 \<or> k = 20" using \<open>9 \<le> k\<close> by presburger
    then show ?thesis using k by (auto simp: layout_defs ceil_div_def Let_def SECTOR_SIZE_def)
  next
    case False
    define j :: nat where "j = 2 ^ (k - 21)"
    have "k = (k - 21) + 21" using False by simp
    then have b: "b = j * 2 ^ 21" unfolding k j_def by (metis power_add)
    have "0 < j" by (simp add: j_def)
    have "ceil_div b (SECTOR_SIZE * 8 * SECTOR_SIZE) = j"
      using ceil_div_mult [of "2 ^ 21" j] by (simp add: b SECTOR_SIZE_def)
    moreover have "b div SECTOR_SIZE div 8 = j * 512" by (simp add: b SECTOR_SIZE_def)
    then have "ceil_div (b div SECTOR_SIZE div 8) SECTOR_SIZE = j"
      using ceil_div_mult [of 512 j] by (simp add: SECTOR_SIZE_def)
    ultimately show ?thesis using \<open>0 < j\<close> by (simp add: layout_defs Let_def)
  qed
qed

lemma assertChecksum_same:
  assumes "struct_fu_codec fu" "assertChecksum fu b st = Inr b'" "length b = struct_size st"
  shows "b' = b"
proof -
  let ?off = "checksum_offset st"
  have "unpack_checksum fu b st = fst (checksumStruct fu b st)" and b': "b' = snd (checksumStruct fu b st)"
    using assms(2) by (auto simp: assertChecksum_def case_prod_beta res_bind_Inr_iff)
  then have "pack_uint fu 4 (fst (checksumStruct fu b st)) = buf_slice b ?off (?off + 4)"
    using struct_fu_codec.uint_inverse [OF assms(1), of "buf_slice b ?off (?off + 4)" 4]
      assms(3) checksum_field_inside [of st] by (simp add: unpack_checksum_def length_slice)
  then show ?thesis
    using buf_copy_self [of ?off b] assms(3) checksum_field_inside [of st] by (simp add: b' snd_checksumStruct)
qed

lemma streamable_header:
  assumes "struct_fu_codec fu" "streamable fu c f h"
  shows "h = fuHeader_unpack fu (file_read c FOOTER_SIZE HEADER_SIZE)" "is_pow2 (blockSize h)"
proof -
  have "FOOTER_SIZE + HEADER_SIZE \<le> length c - FOOTER_SIZE"
    using assms(2) bat_item_within unfolding streamable_def by blast
  then have len: "length (file_read c FOOTER_SIZE HEADER_SIZE) = struct_size FuHeader" by simp
  obtain b where b: "assertChecksum fu (file_read c FOOTER_SIZE HEADER_SIZE) FuHeader = Inr b"
    "h = fuHeader_unpack fu b" "checkHeader h (Some f) = Inr ()"
    using assms(2) by (auto simp: streamable_def unpackHeader_def Let_def res_bind_Inr_iff)
  from assertChecksum_same [OF assms(1) b(1) len] b(2)
  show "h = fuHeader_unpack fu (file_read c FOOTER_SIZE HEADER_SIZE)" by simp
  show "is_pow2 (blockSize h)" using b(3) by (simp add: checkHeader_def res_bind_Inr_iff)
qed

lemma file_read_take: "a + n \<le> p \<Longrightarrow> file_read (take p c @ d) a n = file_read c a n \<or> length c < a + n"
  by (cases "a + n \<le> length c") (auto simp: file_read_def take_drop min_def)

text \<open>A stream cut where every item ends before is read as the stream it comes from.\<close>

lemma streamable_cut:
  assumes s: "streamable fu c f h" and p: "p \<le> length c" "FOOTER_SIZE + HEADER_SIZE \<le> p"
    and c': "c' = take p c @ file_read c 0 FOOTER_SIZE"
    and items: "\<forall>i \<in> set (stream_index h (table_of c h)). it_offset i + it_size i \<le> p"
  shows "streamable fu c' f h \<and>
    map (parsed_item h c') (stream_index h (table_of c' h)) = map (parsed_item h c) (stream_index h (table_of c h))"
proof -
  have same: "file_read c' a n = file_read c a n" if "a + n \<le> p" for a n
    using file_read_take [OF that, of c "file_read c 0 FOOTER_SIZE"] that p(1) c' by auto
  have bytes: "bytes_of c' i = bytes_of c i" if "it_offset i + it_size i \<le> p" for i
    using same [OF that] by (simp add: bytes_of_def)
  have "bat_item h \<in> set (stream_index h (table_of c h))" by (simp add: stream_index_def)
  then have "it_offset (bat_item h) + it_size (bat_item h) \<le> p" using items by blast
  then have table: "table_of c' h = table_of c h" by (simp only: table_of_def bytes)
  have len: "length c' = p + FOOTER_SIZE" using p c' by simp
  have "end_of q xs \<le> max q p" if "\<forall>i \<in> set xs. it_offset i + it_size i \<le> p" for q xs
    using that by (induction xs rule: rev_induct) (auto simp: end_of_append max_def)
  then have "end_of (FOOTER_SIZE + HEADER_SIZE) (stream_index h (table_of c h)) \<le> p"
    using items p(2) by (metis max_def)
  then have "readable (FOOTER_SIZE + HEADER_SIZE) p (stream_index h (table_of c h))"
    using s readable_limit unfolding streamable_def by blast
  moreover have "drop (length c' - FOOTER_SIZE) c' = file_read c 0 FOOTER_SIZE"
    using p c' len by simp
  moreover have "file_read c' 0 FOOTER_SIZE = file_read c 0 FOOTER_SIZE"
      "file_read c' FOOTER_SIZE HEADER_SIZE = file_read c FOOTER_SIZE HEADER_SIZE"
    using p(2) by (simp_all add: same)
  ultimately have "streamable fu c' f h"
    using s len unfolding streamable_def table by simp
  then show ?thesis using items by (auto simp: table parsed_item_def bytes)
qed

lemma streamable_unique:
  "streamable fu c f h \<Longrightarrow> streamable fu c' f' h' \<Longrightarrow>
   file_read c' 0 FOOTER_SIZE = file_read c 0 FOOTER_SIZE \<Longrightarrow>
   file_read c' FOOTER_SIZE HEADER_SIZE = file_read c FOOTER_SIZE HEADER_SIZE \<Longrightarrow> f' = f \<and> h' = h"
  unfolding streamable_def by auto

lemma readable_le: "readable pos len is \<Longrightarrow> i \<in> set is \<Longrightarrow> it_offset i + it_size i \<le> len"
  by (induction "is" arbitrary: pos) (auto simp: fits_def)

text \<open>The cut is behind the blocks and the entries of the table, inside the file.\<close>

lemma cut_offset_bounds:
  assumes s: "streamable fu c f h" and h: "is_pow2 (blockSize h)" "FOOTER_SIZE + HEADER_SIZE \<le> tableOffset h"
    and p: "cut_offset h (file_read c (tableOffset h) (maxTableEntries h * 4)) = Inr p"
  shows "FOOTER_SIZE + HEADER_SIZE \<le> p" "p \<le> length c"
    "\<And>i. i \<in> set (block_items h (table_of c h)) \<Longrightarrow> it_offset i + it_size i \<le> p"
proof -
  let ?B = "table_of c h" and ?m = "maxTableEntries h" and ?t = "file_read c (tableOffset h) (maxTableEntries h * 4)"
  let ?bs = "computeBatSize (maxTableEntries h)"
  have items: "it_offset i + it_size i \<le> length c - FOOTER_SIZE" if "i \<in> set (stream_index h ?B)" for i
    using s readable_le that unfolding streamable_def by blast
  have tab: "tableOffset h + ?bs \<le> length c - FOOTER_SIZE" and c: "FOOTER_SIZE \<le> length c"
    using items [of "bat_item h"] s by (simp_all add: stream_index_def streamable_def)
  have m: "4 * ?m \<le> ?bs" by (rule computeBatSize_ge)
  then have lt: "length ?t = ?m * 4" using tab by simp
  have ent: "bat_entry ?t i = bat_entry ?B i" if "i < ?m" for i
  proof -
    have "?t = take (?m * 4) ?B" using m by (simp add: table_of_def bytes_of_def take_file_read mult.commute)
    then show ?thesis using that by (simp add: bat_entry_def buf_slice_def drop_take)
  qed
  have blk: "\<exists>k < ?m. bat_entry ?B k \<noteq> BLOCK_UNUSED \<and> it_offset i = bat_entry ?B k * SECTOR_SIZE \<and>
      it_size i = computeFullBlockSize (blockSize h)" if "i \<in> set (block_items h ?B)" for i
    using that by (auto simp: block_items_def)
  have item: "\<lparr>it_type = TypeBlock, it_id = k, it_offset = bat_entry ?B k * SECTOR_SIZE,
      it_size = computeFullBlockSize (blockSize h)\<rparr> \<in> set (block_items h ?B)"
    if "k < ?m" "bat_entry ?B k \<noteq> BLOCK_UNUSED" for k
    using that by (auto simp: block_items_def)
  obtain fl where fl: "getFirstAndLastBlocks ?t = Inr fl" and pv: "p = (case fl of
       Some fl \<Rightarrow> lastSector fl * SECTOR_SIZE +
         ceil_div (blockSize h) (SECTOR_SIZE * 8 * SECTOR_SIZE) * SECTOR_SIZE + blockSize h
     | None \<Rightarrow> ceil_div (tableOffset h + ?m * 4) SECTOR_SIZE * SECTOR_SIZE)"
    using p by (auto simp: cut_offset_def res_bind_Inr_iff)
  have "4 dvd length ?t" using lt by simp
  note spec = getFirstAndLastBlocks_spec [OF this, unfolded fl]
  have "FOOTER_SIZE + HEADER_SIZE \<le> p \<and> p \<le> length c \<and>
    (\<forall>i \<in> set (block_items h ?B). it_offset i + it_size i \<le> p)"
  proof (cases fl)
    case None
    have "bat_entry ?B k = BLOCK_UNUSED" if "k < ?m" for k
    proof -
      have "bat_entries ?t ! k \<in> set (bat_entries ?t)" using that lt by (intro nth_mem) simp
      then show ?thesis using spec None that lt ent by simp
    qed
    then have "block_items h ?B = []" by (simp add: block_items_def)
    moreover have "tableOffset h + ?m * 4 \<le> p"
      unfolding pv None option.case by (rule le_ceil_div_mult) (simp add: SECTOR_SIZE_def)
    moreover have "ceil_div a SECTOR_SIZE * SECTOR_SIZE \<le> a + SECTOR_SIZE" for a
      by (simp add: ceil_div_def SECTOR_SIZE_def)
    from this [of "tableOffset h + ?m * 4"] have "p \<le> tableOffset h + ?m * 4 + SECTOR_SIZE" by (simp add: pv None)
    ultimately show ?thesis using h(2) tab m c by (simp add: vhd_sizes)
  next
    case (Some r)
    have r: "first_last_of (bat_entries ?t) (length (bat_entries ?t)) r" using spec Some by simp
    have pr: "p = lastSector r * SECTOR_SIZE + computeFullBlockSize (blockSize h)"
      using cut_block_size [OF h(1)] s by (simp add: pv Some streamable_def)
    let ?l = "fl_last r"
    have l: "?l < ?m" "bat_entry ?B ?l = lastSector r" "lastSector r \<noteq> BLOCK_UNUSED"
      using r lt ent by (auto simp: first_last_of_def)
    from item [of ?l] l items have "p \<le> length c - FOOTER_SIZE" unfolding pr stream_index_def by fastforce
    moreover have "it_offset i + it_size i \<le> p" if i: "i \<in> set (block_items h ?B)" for i
    proof -
      obtain k where k: "k < ?m" "bat_entry ?B k \<noteq> BLOCK_UNUSED" "it_offset i = bat_entry ?B k * SECTOR_SIZE"
        "it_size i = computeFullBlockSize (blockSize h)" using blk [OF i] by blast
      then have "bat_entry ?B k \<le> lastSector r" using r lt ent by (auto simp: first_last_of_def)
      then show ?thesis by (simp add: pr k)
    qed
    moreover have "tableOffset h + ?bs \<le> lastSector r * SECTOR_SIZE"
      using s l by (auto simp: streamable_def blocks_after_def)
    ultimately show ?thesis using h(2) c pr by simp
  qed
  then show "FOOTER_SIZE + HEADER_SIZE \<le> p" "p \<le> length c"
    "\<And>i. i \<in> set (block_items h ?B) \<Longrightarrow> it_offset i + it_size i \<le> p" by blast+
qed

lemma cut_stream:
  assumes codec: "struct_fu_codec fu" and s: "streamable fu (concat cs) f h"
    and ok: "createVhdStreamWithLength fu cs = Inr (out, n)"
  shows "length (concat out) = n"
    and "\<forall>i \<in> set (bat_item h # locator_index h). it_offset i + it_size i \<le> n - FOOTER_SIZE \<Longrightarrow>
      parseVhdStream fu out = parseVhdStream fu cs"
    and "\<not> (\<forall>i \<in> set (bat_item h # locator_index h). it_offset i + it_size i \<le> n - FOOTER_SIZE) \<Longrightarrow>
      parseVhdStream fu out \<noteq> (ys, Inr ())"
proof -
  define c where "c = concat cs"
  note s' = s [folded c_def]
  have hu: "h = fuHeader_unpack fu (file_read c FOOTER_SIZE HEADER_SIZE)"
    by (rule streamable_header [OF codec s'])
  note made = createVhdStreamWithLength_Inr [OF c_def [symmetric] ok, folded hu]
  obtain p where p: "cut_offset h (file_read c (tableOffset h) (maxTableEntries h * 4)) = Inr p" "n = p + FOOTER_SIZE"
    and out: "0 < p \<longrightarrow> concat out = (if p \<le> length c then take p c @ file_read c 0 FOOTER_SIZE else c)"
    using made(3) by blast
  note b = cut_offset_bounds [OF s' made(1,2) p(1)]
  have out: "concat out = take p c @ file_read c 0 FOOTER_SIZE" using out b(1,2) by (simp add: vhd_sizes)
  have F: "FOOTER_SIZE \<le> length c" using s' by (simp add: streamable_def)
  show "length (concat out) = n" using b(2) F p(2) unfolding out by simp
  {
    assume "\<forall>i \<in> set (bat_item h # locator_index h). it_offset i + it_size i \<le> n - FOOTER_SIZE"
    then have items: "\<forall>i \<in> set (stream_index h (table_of c h)). it_offset i + it_size i \<le> p"
      using b(3) p(2) by (auto simp: stream_index_def)
    from streamable_cut [OF s' b(2,1) out items]
    have "parseVhdStream fu out = (FooterItem f # HeaderItem h # map (parsed_item h c) (stream_index h (table_of c h)), Inr ())"
      using parse_iff [of out] by metis
    moreover have "parseVhdStream fu cs = (FooterItem f # HeaderItem h # map (parsed_item h c) (stream_index h (table_of c h)), Inr ())"
      using parse_iff [of cs] c_def s' by metis
    ultimately show "parseVhdStream fu out = parseVhdStream fu cs" by simp
  next
    assume n: "\<not> (\<forall>i \<in> set (bat_item h # locator_index h). it_offset i + it_size i \<le> n - FOOTER_SIZE)"
    show "parseVhdStream fu out \<noteq> (ys, Inr ())"
    proof
      assume "parseVhdStream fu out = (ys, Inr ())"
      then obtain f' h' where s2: "streamable fu (concat out) f' h'" using parse_iff [of out] by blast
      have same: "file_read (concat out) a m = file_read c a m" if "a + m \<le> p" for a m
        using file_read_take [OF that, of c "file_read c 0 FOOTER_SIZE"] that b(2) out by auto
      have "h' = h" using streamable_unique [OF s' s2] b(1) by (simp add: same)
      moreover have "length (concat out) - FOOTER_SIZE = p" using b(2) F unfolding out by simp
      ultimately have "it_offset i + it_size i \<le> p" if "i \<in> set (bat_item h # locator_index h)" for i
        using s2 that readable_le [of _ p "stream_index h (table_of (concat out) h)" i]
        by (auto simp: streamable_def stream_index_def simp del: length_concat)
      then show False using n p(2) by simp
    qed
  }
qed

end
