(* ===== verification/Vhd_Stream_File.thy ===== *)
theory Vhd_Stream_File
  imports Vhd_Stream_Tools Vhd_Store
begin

text \<open>
  The stream parser and \<open>VhdFile\<close> read the same disk: the content of a file in use can be streamed, and
  the blocks the parser yields are those the file shows.
\<close>

section \<open>Items that do not overlap\<close>

abbreviation apart :: "index_item \<Rightarrow> index_item \<Rightarrow> bool" where
  "apart i j \<equiv> it_offset i + it_size i \<le> it_offset j \<or> it_offset j + it_size j \<le> it_offset i"

abbreviation placed_in :: "nat \<Rightarrow> nat \<Rightarrow> index_item \<Rightarrow> bool" where
  "placed_in pos len i \<equiv> fits pos len (it_offset i) (it_size i)"

lemma readable_sorted:
  assumes "sorted (map it_offset is)" "distinct is" "\<forall>i \<in> set is. placed_in pos len i"
    and "\<forall>i \<in> set is. \<forall>j \<in> set is. i \<noteq> j \<longrightarrow> apart i j"
  shows "readable pos len is"
  using assms
proof (induction "is" arbitrary: pos)
  case (Cons i "is")
  have "it_offset i + it_size i \<le> it_offset j" if j: "j \<in> set is" for j
  proof -
    have "i \<noteq> j" "it_offset i \<le> it_offset j" "apart i j" "0 < it_size j"
      using Cons.prems j by (auto simp: fits_def)
    then show ?thesis by auto
  qed
  then have "\<forall>j \<in> set is. placed_in (it_offset i + it_size i) len j"
    using Cons.prems(3) by (auto simp: fits_def)
  with Cons show ?case by simp
qed simp

lemma distinct_items: "distinct (locator_index h @ [bat_item h] @ block_items h bat)"
proof -
  have "distinct (locator_index h)" and "distinct (block_items h bat)"
    by (auto simp: locator_index_def block_items_def distinct_map Let_def inj_on_def)
  moreover have "it_type i = TypeParentLocator" if "i \<in> set (locator_index h)" for i by (rule locator_type) fact
  moreover have "it_type i = TypeBlock" if "i \<in> set (block_items h bat)" for i by (rule block_type) fact
  ultimately show ?thesis by (fastforce dest: arg_cong [where f = it_type])
qed

lemma streamableI:
  assumes "FOOTER_SIZE \<le> length c" "unpackFooter fu (file_read c 0 FOOTER_SIZE) = Inr f"
    "unpackHeader fu (file_read c FOOTER_SIZE HEADER_SIZE) (Some f) = Inr h"
    "blockSize h mod SECTOR_SIZE = 0"
    "drop (length c - FOOTER_SIZE) c = file_read c 0 FOOTER_SIZE"
  defines "len \<equiv> length c - FOOTER_SIZE" and "B \<equiv> block_items h (table_of c h)"
  assumes bat: "placed_in (FOOTER_SIZE + HEADER_SIZE) len (bat_item h)"
    and loc: "\<And>i. i \<in> set (locator_index h) \<Longrightarrow> placed_in (FOOTER_SIZE + HEADER_SIZE) len i \<and> apart i (bat_item h)"
    and locs: "\<And>i j. i \<in> set (locator_index h) \<Longrightarrow> j \<in> set (locator_index h) \<Longrightarrow> i \<noteq> j \<Longrightarrow> apart i j"
    and blk: "\<And>i. i \<in> set B \<Longrightarrow> placed_in (tableOffset h + computeBatSize (maxTableEntries h)) len i"
    and blks: "\<And>i j. i \<in> set B \<Longrightarrow> j \<in> set B \<Longrightarrow> i \<noteq> j \<Longrightarrow> apart i j"
    and both: "\<And>i j. i \<in> set (locator_index h) \<Longrightarrow> j \<in> set B \<Longrightarrow> apart i j"
  shows "streamable fu c f h"
proof -
  let ?all = "locator_index h @ [bat_item h] @ B"
  have place: "\<forall>i \<in> set ?all. placed_in (FOOTER_SIZE + HEADER_SIZE) len i"
    using bat loc blk by (fastforce simp: fits_def)
  have "apart (bat_item h) i" if "i \<in> set B" for i
    using blk [OF that] by (simp add: fits_def)
  then have ap: "\<forall>i \<in> set ?all. \<forall>j \<in> set ?all. i \<noteq> j \<longrightarrow> apart i j"
    using loc locs blks both by (simp add: ball_Un) blast
  have "readable (FOOTER_SIZE + HEADER_SIZE) len (sort_key it_offset ?all)"
    by (rule readable_sorted) (use place ap distinct_items [of h "table_of c h"] in \<open>simp_all add: B_def\<close>)
  moreover have "blocks_after h (tableOffset h + computeBatSize (maxTableEntries h)) (table_of c h)"
    using blk by (fastforce simp: blocks_after_def B_def block_items_def fits_def)
  ultimately show ?thesis
    using assms(1-5) by (simp add: streamable_def stream_index_def B_def len_def)
qed

section \<open>The blocks among the items\<close>

definition item_blocks :: "stream_item list \<Rightarrow> (nat \<times> buffer) list" where
  "item_blocks items = List.map_filter (\<lambda>item. case item of
       ContentItem i b _ _ \<Rightarrow> if it_type i = TypeBlock then Some (it_id i, b) else None
     | _ \<Rightarrow> None) items"

lemma item_blocks_index:
  "item_blocks (map (parsed_item h c) is) =
    map (\<lambda>i. (it_id i, bytes_of c i)) (filter (\<lambda>i. it_type i = TypeBlock) is)"
  by (induction "is") (auto simp: item_blocks_def parsed_item_def map_filter_simps)

lemma blocks_of_index:
  "filter (\<lambda>i. it_type i = TypeBlock) (stream_index h bat) = sort_key it_offset (block_items h bat)"
proof -
  have "filter (\<lambda>i. it_type i = TypeBlock) (locator_index h @ [bat_item h] @ block_items h bat) = block_items h bat"
    using locator_type [of _ h] block_type [of _ h bat] by (auto simp: filter_empty_conv filter_id_conv)
  then show ?thesis unfolding stream_index_def filter_sort by simp
qed

lemma item_blocks_map:
  "map_of (item_blocks (map (parsed_item h c) (stream_index h bat))) i =
     (if i < maxTableEntries h \<and> bat_entry bat i \<noteq> BLOCK_UNUSED
      then Some (file_read c (bat_entry bat i * SECTOR_SIZE) (computeFullBlockSize (blockSize h))) else None)"
  "distinct (map fst (item_blocks (map (parsed_item h c) (stream_index h bat))))"
proof -
  let ?bs = "item_blocks (map (parsed_item h c) (stream_index h bat))"
  have ids: "distinct (map it_id (block_items h bat))" by (simp add: block_items_def comp_def distinct_map)
  have "mset (map it_id (sort_key it_offset (block_items h bat))) = mset (map it_id (block_items h bat))" by simp
  then have "distinct (map it_id (sort_key it_offset (block_items h bat)))" using ids mset_eq_imp_distinct_iff by blast
  then show d: "distinct (map fst ?bs)" by (simp add: item_blocks_index blocks_of_index comp_def)
  have "set ?bs = {(i, file_read c (bat_entry bat i * SECTOR_SIZE) (computeFullBlockSize (blockSize h))) |
      i. i < maxTableEntries h \<and> bat_entry bat i \<noteq> BLOCK_UNUSED}"
    by (auto simp: item_blocks_index blocks_of_index block_items_def bytes_of_def image_image)
  then show "map_of ?bs i =
     (if i < maxTableEntries h \<and> bat_entry bat i \<noteq> BLOCK_UNUSED
      then Some (file_read c (bat_entry bat i * SECTOR_SIZE) (computeFullBlockSize (blockSize h))) else None)"
    using d by (auto simp: map_of_eq_None_iff image_iff)
qed

section \<open>The content of a file\<close>

text \<open>The parent locators of the header: in the file, away from the table and from each other.\<close>

definition locators_placed :: "vhd_header \<Rightarrow> bool" where
  "locators_placed h \<longleftrightarrow>
     (\<forall>i < PARENT_LOCATOR_ENTRIES. let e = parentLocatorEntry h ! i in platformDataSpace e \<noteq> 0 \<longrightarrow>
        platformCode e \<noteq> PLATFORM_NONE \<and> 0 < platformDataLength e \<and> platformDataLength e < 2 ^ 30 \<and>
        platformDataLength e \<le> platformDataSpace e * SECTOR_SIZE \<and>
        FOOTER_SIZE + HEADER_SIZE \<le> platformDataOffset e) \<and>
     (\<forall>i \<in> set (locator_index h). apart i (bat_item h)) \<and>
     (\<forall>i \<in> set (locator_index h). \<forall>j \<in> set (locator_index h). i \<noteq> j \<longrightarrow> apart i j)"

lemma getEndOfHeaders_locator:
  assumes "i < PARENT_LOCATOR_ENTRIES" "length (parentLocatorEntry h) = PARENT_LOCATOR_ENTRIES"
    and "platformCode (parentLocatorEntry h ! i) \<noteq> PLATFORM_NONE"
  shows "platformDataOffset (parentLocatorEntry h ! i) + platformDataSpace (parentLocatorEntry h ! i) * SECTOR_SIZE \<le>
    getEndOfHeaders h"
  unfolding getEndOfHeaders_def sectorsToBytes_def
  by (rule fold_max_in) (use assms in \<open>simp_all add: in_set_conv_nth, blast?\<close>)

lemma fullBlockSize_alt: "computeFullBlockSize (blockSize h) = fullBlockSize h"
  by (simp add: fullBlockSize_def)

context struct_fu_codec
begin

lemma file_streamable:
  assumes inv: "vf_inv s" and sync: "disk_synced fu s" and fsync: "footer_synced fu s"
    and check: "checkFooter (vf_footer s) = Inr ()" "checkHeader (vf_header s) (Some (vf_footer s)) = Inr ()"
    and room: "vf_end s * SECTOR_SIZE + FOOTER_SIZE \<le> length (vf_content s)"
    and loc: "locators_placed (vf_header s)"
    and small: "batSize (vf_header s) < 2 ^ 30" "fullBlockSize (vf_header s) < 2 ^ 30"
  shows "streamable fu (vf_content s) (vf_footer s) (vf_header s)"
    "\<And>i. bat_entry (table_of (vf_content s) (vf_header s)) i = vf_entry s i \<or> \<not> i < maxTableEntries (vf_header s)"
proof -
  let ?h = "vf_header s" and ?f = "vf_footer s" and ?c = "vf_content s"
  let ?B = "table_of ?c ?h" and ?len = "length ?c - FOOTER_SIZE"
  obtain t where t: "vf_blockTable s = Some t" "wf_table ?h t" by (rule vf_inv_table [OF inv])
  have wf: "wf_header ?h" "wf_footer ?f" and same: "header_with_checksum fu ?h = ?h" "with_checksum fu ?f = ?f"
    and front: "file_read ?c FOOTER_SIZE HEADER_SIZE = fuHeader_pack fu ?h"
      "file_read ?c 0 FOOTER_SIZE = fuFooter_pack fu ?f"
    and rear: "file_read ?c (length ?c - FOOTER_SIZE) FOOTER_SIZE = fuFooter_pack fu ?f"
    and tab: "file_read ?c (tableOffset ?h) (4 * maxTableEntries ?h) = take (4 * maxTableEntries ?h) t"
    using sync fsync t(1) by (simp_all add: disk_synced_def footer_synced_def Let_def)
  have uf: "unpackFooter fu (fuFooter_pack fu ?f) = Inr ?f"
    using unpackFooter_pack [OF wf(2) check(1)] same by simp
  have uh: "unpackHeader fu (fuHeader_pack fu ?h) (Some ?f) = Inr ?h"
    using unpackHeader_pack [OF wf(1) check(2)] same by simp
  have lay: "wf_layout ?h" by (rule vf_invD(1) [OF inv])
  have eoh: "getEndOfHeaders ?h \<le> ?len" using vf_end_headers [of s] room by simp
  have ent: "bat_entry ?B i = vf_entry s i" if i: "i < maxTableEntries ?h" for i
  proof -
    have "take (4 * maxTableEntries ?h) ?B = take (4 * maxTableEntries ?h) t"
      using tab computeBatSize_ge [of "maxTableEntries ?h"] by (simp add: table_of_def bytes_of_def take_file_read)
    moreover have "bat_entry (take (4 * maxTableEntries ?h) b) i = bat_entry b i" for b
      using i by (simp add: bat_entry_def buf_slice_def drop_take)
    ultimately have "bat_entry ?B i = bat_entry t i" by metis
    then show ?thesis using t i by (simp add: vf_entry_def wf_table_def)
  qed
  then show "bat_entry ?B i = vf_entry s i \<or> \<not> i < maxTableEntries ?h" for i by blast
  have blk: "\<exists>k. allocated s k \<and> it_id i = k \<and> it_offset i = vf_entry s k * SECTOR_SIZE \<and> it_size i = full_sectors ?h * SECTOR_SIZE \<and> it_type i = TypeBlock"
    if "i \<in> set (block_items ?h ?B)" for i
    using that by (auto simp: block_items_def ent fullBlockSize_alt fullBlockSize_sectors [OF lay])
  have full: "0 < full_sectors ?h * SECTOR_SIZE" "full_sectors ?h * SECTOR_SIZE < 1073741824"
    using small(2) full_sectors_pos [of ?h] fullBlockSize_sectors [OF lay] by (simp_all add: SECTOR_SIZE_def)
  have locator: "\<exists>k < PARENT_LOCATOR_ENTRIES. let e = parentLocatorEntry ?h ! k in platformDataSpace e \<noteq> 0 \<and>
      it_offset i = platformDataOffset e \<and> it_size i = platformDataLength e"
    if "i \<in> set (locator_index ?h)" for i
    using that wf(1) by (auto simp: locator_index_def Let_def wf_header_def)
  have nloc: "length (parentLocatorEntry ?h) = PARENT_LOCATOR_ENTRIES" using wf(1) by (simp add: wf_header_def)
  have loc': "FOOTER_SIZE + HEADER_SIZE \<le> it_offset i \<and> 0 < it_size i \<and> it_size i < 1073741824 \<and>
      it_offset i + it_size i \<le> getEndOfHeaders ?h" if i: "i \<in> set (locator_index ?h)" for i
  proof -
    obtain k where k: "k < PARENT_LOCATOR_ENTRIES" "platformDataSpace (parentLocatorEntry ?h ! k) \<noteq> 0"
      "it_offset i = platformDataOffset (parentLocatorEntry ?h ! k)" "it_size i = platformDataLength (parentLocatorEntry ?h ! k)"
      using locator [OF i] by (auto simp: Let_def)
    then show ?thesis using loc getEndOfHeaders_locator [OF k(1) nloc] by (fastforce simp: locators_placed_def Let_def)
  qed
  show "streamable fu ?c ?f ?h"
  proof (rule streamableI, goal_cases)
    case 1 show ?case using room by simp
  next
    case 2 show ?case using uf front by simp
  next
    case 3 show ?case using uh front by simp
  next
    case 4 show ?case using lay by (auto simp: wf_layout_def)
  next
    case 5 show ?case using rear front by (simp add: file_read_def)
  next
    case 6
    then show ?case
      using small(1) lay eoh getEndOfHeaders_ge(2) [of ?h] 
      by (simp add: fits_def batSize_def wf_layout_def) (simp add: layout_defs Let_def SECTOR_SIZE_def)
  next
    case (7 i) then show ?case using loc' [OF 7] loc eoh by (auto simp: fits_def locators_placed_def)
  next
    case (8 i j) then show ?case using loc by (auto simp: locators_placed_def)
  next
    case (9 i)
    then obtain k where k: "allocated s k" "it_offset i = vf_entry s k * SECTOR_SIZE" "it_size i = full_sectors ?h * SECTOR_SIZE"
      using blk by blast
    have "(vf_entry s k + full_sectors ?h) * SECTOR_SIZE \<le> vf_end s * SECTOR_SIZE"
      by (intro mult_le_mono1 vf_end_blocks inv k)
    then show ?case
      using k full vf_invD(3) [OF inv k(1)] getEndOfHeaders_ge(2) [of ?h] room
      by (simp add: fits_def batSize_def algebra_simps)
  next
    case (10 i j)
    then obtain k l where k: "allocated s k" "it_id i = k" "it_offset i = vf_entry s k * SECTOR_SIZE"
        "it_size i = full_sectors ?h * SECTOR_SIZE" "it_type i = TypeBlock"
      and l: "allocated s l" "it_id j = l" "it_offset j = vf_entry s l * SECTOR_SIZE"
        "it_size j = full_sectors ?h * SECTOR_SIZE" "it_type j = TypeBlock"
      using blk by metis
    then have "k \<noteq> l" using 10(3) by auto
    from vf_invD(5) [OF inv this k(1) l(1)] show ?case
      unfolding k l by (metis add_mult_distrib mult_le_mono1)
  next
    case (11 i j)
    then obtain k where k: "allocated s k" "it_offset j = vf_entry s k * SECTOR_SIZE" using blk by blast
    then show ?case using loc' [OF 11(1)] vf_invD(3) [OF inv k(1)] by simp
  qed
qed

end

section \<open>Images written block after block\<close>

text \<open>
  The layout of the generators of VHD streams: the headers, the table, the blocks without a gap in the
  order of \<open>ids\<close>, and the footer again.
\<close>

definition block_image :: "buffer \<Rightarrow> buffer \<Rightarrow> buffer \<Rightarrow> buffer list \<Rightarrow> buffer" where
  "block_image F H bat blocks = F @ H @ bat @ concat blocks @ F"

definition table_for :: "buffer \<Rightarrow> nat \<Rightarrow> nat \<Rightarrow> nat \<Rightarrow> nat list \<Rightarrow> bool" where
  "table_for bat n base step ids \<longleftrightarrow>
     (\<forall>j < length ids. bat_entry bat (ids ! j) = base + j * step) \<and>
     (\<forall>i < n. i \<notin> set ids \<longrightarrow> bat_entry bat i = BLOCK_UNUSED)"

lemma concat_const_nth:
  "\<forall>b \<in> set bs. length b = k \<Longrightarrow> j < length bs \<Longrightarrow> take k (drop (j * k) (concat bs)) = bs ! j"
proof (induction bs arbitrary: j)
  case (Cons b bs)
  then show ?case by (cases j) (simp_all add: add.commute)
qed simp

lemma concat_const_length: "\<forall>b \<in> set bs. length b = k \<Longrightarrow> length (concat bs) = length bs * k"
  by (induction bs) simp_all

lemma block_image_streamable:
  assumes F: "length F = FOOTER_SIZE" "unpackFooter fu F = Inr f"
    and H: "length H = HEADER_SIZE" "unpackHeader fu H (Some f) = Inr h"
    and h: "tableOffset h = FOOTER_SIZE + HEADER_SIZE" "blockSize h mod SECTOR_SIZE = 0" "locator_index h = []"
    and bat: "length bat = batSize h" "batSize h < 2 ^ 30"
    and blocks: "\<forall>b \<in> set blocks. length b = fullBlockSize h" "fullBlockSize h < 2 ^ 30"
    and ids: "length ids = length blocks" "distinct ids" "\<forall>i \<in> set ids. i < maxTableEntries h"
    and step: "step * SECTOR_SIZE = fullBlockSize h" and base: "base * SECTOR_SIZE = FOOTER_SIZE + HEADER_SIZE + batSize h"
    and tab: "table_for bat (maxTableEntries h) base step ids"
    and room: "base + length ids * step < BLOCK_UNUSED"
  defines "c \<equiv> block_image F H bat blocks"
  shows "streamable fu c f h"
    and "map_of (item_blocks (map (parsed_item h c) (stream_index h (table_of c h)))) = map_of (zip ids blocks)"
proof -
  let ?full = "fullBlockSize h" and ?start = "FOOTER_SIZE + HEADER_SIZE + batSize h"
  have len: "length c = ?start + length ids * ?full + FOOTER_SIZE"
    using F(1) H(1) bat(1) concat_const_length [OF blocks(1)] ids(1) by (simp add: c_def block_image_def del: length_concat)
  have table: "table_of c h = bat"
    using F(1) H(1) bat(1) h(1)
    by (simp add: table_of_def bytes_of_def c_def block_image_def file_read_def batSize_def)
  have read: "file_read c (?start + j * ?full) ?full = blocks ! j" if "j < length ids" for j
  proof -
    have "drop (?start + j * ?full) c = drop (j * ?full) (concat blocks @ F)"
      using F(1) H(1) bat(1) by (simp add: c_def block_image_def)
    moreover have "j * ?full + ?full \<le> length blocks * ?full"
      using that ids(1) by (metis Suc_leI add.commute mult_Suc mult_le_mono1)
    ultimately show ?thesis
      using concat_const_nth [OF blocks(1), of j] concat_const_length [OF blocks(1)] that ids(1)
      by (simp add: file_read_def del: length_concat)
  qed
  have full: "0 < ?full" by (simp add: fullBlockSize_def computeFullBlockSize_pos)
  have entry: "bat_entry bat (ids ! j) = base + j * step" if "j < length ids" for j
    using tab that by (simp add: table_for_def)
  have used: "bat_entry bat (ids ! j) \<noteq> BLOCK_UNUSED" if "j < length ids" for j
  proof -
    have "base + j * step \<le> base + length ids * step" using that by simp
    also note room
    finally show ?thesis using entry [OF that] by simp
  qed
  have addr: "(base + j * step) * SECTOR_SIZE = ?start + j * ?full" for j
    using base step by (simp add: algebra_simps)
  have blk: "\<exists>j < length ids. it_id i = ids ! j \<and> it_offset i = ?start + j * ?full \<and> it_size i = ?full \<and> it_type i = TypeBlock"
    if i: "i \<in> set (block_items h bat)" for i
  proof -
    obtain k where k: "k < maxTableEntries h" "bat_entry bat k \<noteq> BLOCK_UNUSED"
      and i: "i = \<lparr>it_type = TypeBlock, it_id = k, it_offset = bat_entry bat k * SECTOR_SIZE,
             it_size = computeFullBlockSize (blockSize h)\<rparr>"
      using i by (auto simp: block_items_def)
    then have "k \<in> set ids" using tab by (auto simp: table_for_def)
    then obtain j where "j < length ids" "k = ids ! j" by (metis in_set_conv_nth)
    then show ?thesis using entry addr by (intro exI [of _ j]) (simp add: i fullBlockSize_def)
  qed
  have Fc: "file_read c 0 FOOTER_SIZE = F" and Hc: "file_read c FOOTER_SIZE HEADER_SIZE = H"
    using F(1) H(1) by (simp_all add: c_def block_image_def file_read_def)
  have below: "j * ?full + ?full \<le> k * ?full" if "j < k" for j k
    using that by (metis Suc_leI add.commute mult_Suc mult_le_mono1)
  show "streamable fu c f h"
  proof (rule streamableI, goal_cases)
    case 5
    have "drop (length c - FOOTER_SIZE) c = F" using F(1) by (simp add: c_def block_image_def)
    then show ?case by (simp only: Fc)
  next
    case 6
    show ?case using bat(2) len h(1)
      by (simp add: fits_def batSize_def) (simp add: layout_defs Let_def SECTOR_SIZE_def)
  next
    case (9 i)
    then obtain j where "j < length ids" "it_offset i = ?start + j * ?full" "it_size i = ?full"
      using blk table by auto
    then show ?case using below [of j "length ids"] len h(1) full blocks(2) by (simp add: fits_def batSize_def)
  next
    case (10 i j)
    then obtain k l where k: "it_id i = ids ! k" "it_offset i = ?start + k * ?full" "it_size i = ?full" "it_type i = TypeBlock"
      and l: "it_id j = ids ! l" "it_offset j = ?start + l * ?full" "it_size j = ?full" "it_type j = TypeBlock"
      using blk table by metis
    then have "k \<noteq> l" using 10(3) by auto
    then show ?case using below [of k l] below [of l k] k l by (cases "k < l") simp_all
  qed (use F H h Fc Hc len in simp_all)
  show "map_of (item_blocks (map (parsed_item h c) (stream_index h (table_of c h)))) = map_of (zip ids blocks)"
  proof
    fix i
    show "map_of (item_blocks (map (parsed_item h c) (stream_index h (table_of c h)))) i = map_of (zip ids blocks) i"
    proof (cases "i \<in> set ids")
      case True
      then obtain j where j: "j < length ids" "i = ids ! j" by (metis in_set_conv_nth)
      have "map_of (zip ids blocks) i = Some (blocks ! j)"
        using j ids(1,2) by (simp add: map_of_zip_nth)
      moreover have "i < maxTableEntries h" using True ids(3) by blast
      ultimately show ?thesis
        using used [OF j(1)] entry [OF j(1)] read [OF j(1)] addr j
        by (simp add: item_blocks_map(1) table fullBlockSize_alt)
    next
      case False
      then have "map_of (zip ids blocks) i = None" using ids(1) by (simp add: map_of_zip_is_None)
      moreover have "i < maxTableEntries h \<Longrightarrow> bat_entry bat i = BLOCK_UNUSED"
        using False tab by (simp add: table_for_def)
      ultimately show ?thesis by (simp add: item_blocks_map(1) table)
    qed
  qed
qed

end
