(* ===== verification/Vhd_Stream_Blocks.thy ===== *)
theory Vhd_Stream_Blocks
  imports Vhd_Stream_Tools Vhd_Stream_File
begin

text \<open>
  What is made of a VHD stream that can be parsed: \<open>parseVhdToBlocks\<close> gives its blocks without their
  bitmaps, and \<open>createVhdStreamWithLength\<close> returns.
\<close>

section \<open>\<open>parseVhdToBlocks\<close>\<close>

lemma next_item_skips:
  "\<forall>x \<in> set xs. skipable x \<Longrightarrow> \<not> skipable y \<Longrightarrow> next_item skipable (xs @ y # ys) end = Inr (y, ys)"
  by (induction xs) auto

lemma is_locator_parsed: "is_locator (parsed_item h c i) \<longleftrightarrow> it_type i = TypeParentLocator"
  by (simp add: is_locator_def parsed_item_def)

lemma onlyBlocks_items:
  assumes "\<And>i. i \<in> set is \<Longrightarrow> it_type i = TypeBlock \<Longrightarrow> tableOffset h < it_offset i"
  shows "onlyBlocks (map (parsed_item h c) is, end) n =
    (map (\<lambda>(i, b). (i * n, drop (bitmapSize h) b)) (item_blocks (map (parsed_item h c) is)), end)"
  using assms
  by (induction "is") (auto simp: onlyBlocks_def item_blocks_def parsed_item_def map_filter_simps)

lemma length_blocks:
  "length (item_blocks (map (parsed_item h c) (stream_index h bat))) = length (block_items h bat)"
  by (simp add: item_blocks_index blocks_of_index)

lemma streamable_to_blocks:
  assumes s: "streamable fu (concat cs) f h"
  defines "blocks \<equiv> item_blocks (map (parsed_item h (concat cs)) (stream_index h (table_of (concat cs) h)))"
  shows "parseVhdToBlocks fu cs = Inr \<lparr>vb_blockSize = blockSize h, vb_blockCount = length blocks,
    vb_diskSize = currentSize f, vb_geometry = diskGeometry f,
    vb_blocks = (map (\<lambda>(i, b). (i * blockSize h, drop (bitmapSize h) b)) blocks, Inr ())\<rparr>"
proof -
  define c where "c = concat cs"
  let ?bat = "table_of c h"
  have after: "blocks_after h (tableOffset h + computeBatSize (maxTableEntries h)) ?bat"
    using s by (simp add: streamable_def c_def)
  obtain pre post where pre: "\<And>i. i \<in> set pre \<Longrightarrow> it_type i = TypeParentLocator \<and> it_offset i \<le> tableOffset h"
    and post: "\<And>i. i \<in> set post \<Longrightarrow> it_type i = TypeParentLocator"
    and split: "\<And>bat. blocks_after h (tableOffset h + computeBatSize (maxTableEntries h)) bat \<Longrightarrow>
      stream_index h bat = pre @ bat_item h # sort_key it_offset (post @ block_items h bat)"
    by (rule stream_index_split [of h "computeBatSize (maxTableEntries h)"]) blast
  let ?rest = "sort_key it_offset (post @ block_items h ?bat)"
  have ix: "stream_index h ?bat = pre @ bat_item h # ?rest" by (rule split [OF after])
  have run: "parseVhdStream fu cs = (FooterItem f # HeaderItem h # map (parsed_item h c) pre @
      parsed_item h c (bat_item h) # map (parsed_item h c) ?rest, Inr ())"
    using s parse_iff [OF refl, of fu cs] ix unfolding c_def [symmetric] by auto
  have nxt: "next_item is_locator (map (parsed_item h c) pre @ parsed_item h c (bat_item h) # map (parsed_item h c) ?rest) (Inr ()) =
      Inr (parsed_item h c (bat_item h), map (parsed_item h c) ?rest)"
    by (rule next_item_skips) (auto simp: is_locator_parsed pre)
  have "tableOffset h < it_offset i" if "i \<in> set ?rest" "it_type i = TypeBlock" for i
  proof -
    have "0 < computeBatSize (maxTableEntries h)" by (simp add: layout_defs Let_def SECTOR_SIZE_def)
    moreover have "tableOffset h + computeBatSize (maxTableEntries h) \<le> it_offset i"
      using that post after by (auto simp: block_items_def blocks_after_def)
    ultimately show ?thesis by simp
  qed
  then have only: "onlyBlocks (map (parsed_item h c) ?rest, Inr ()) (blockSize h) =
      (map (\<lambda>(i, b). (i * blockSize h, drop (bitmapSize h) b)) (item_blocks (map (parsed_item h c) ?rest)), Inr ())"
    by (rule onlyBlocks_items)
  have blocks: "item_blocks (map (parsed_item h c) ?rest) = blocks"
  proof -
    have "filter (\<lambda>i. it_type i = TypeBlock) (pre @ bat_item h # ?rest) = filter (\<lambda>i. it_type i = TypeBlock) ?rest"
      using pre by (auto simp: filter_empty_conv)
    then show ?thesis unfolding blocks_def c_def [symmetric] ix item_blocks_index by (rule arg_cong [OF sym])
  qed
  have n: "length (block_items h ?bat) = length blocks" unfolding blocks_def c_def [symmetric] length_blocks ..
  show ?thesis
    unfolding parseVhdToBlocks_def Let_def run
    using nxt only by (simp add: parsed_item_def [of h c "bat_item h"] n blocks)
qed

section \<open>\<open>createVhdStreamWithLength\<close> returns\<close>

lemma readable_small: "readable pos len is \<Longrightarrow> i \<in> set is \<Longrightarrow> it_size i < 1073741824"
  by (induction "is" arbitrary: pos) (auto simp: fits_def)

lemma lr_readStream_ok:
  assumes "lr_at c r" "lr_position r + n \<le> length c" "n < 2 ^ 30"
  shows "\<exists>r'. lr_readStream (int n) r = Inr (file_read c (lr_position r) n, r') \<and> lr_at c r' \<and>
    lr_position r' = lr_position r + n"
proof -
  have d: "concat (lr_stream r) = drop (lr_position r) c" using assms(1) by (auto simp: lr_at_def simp del: length_concat)
  have "\<exists>x. lr_readStream (int n) r = Inr x"
  proof (cases "n = 0")
    case True
    then show ?thesis by (simp add: lr_readStream_def)
  next
    case False
    then show ?thesis
      using stream_readChunkStrict_reads [OF _ _ _ d, of n] assms(2,3) by (simp add: lr_readStream_def)
  qed
  then obtain b r' where x: "lr_readStream (int n) r = Inr (b, r')" by fastforce
  show ?thesis using lr_readStream_Inr [OF assms(1) x] x by simp
qed

lemma streamable_footer:
  assumes "struct_fu_codec fu" "streamable fu c f h"
  shows "f = fuFooter_unpack fu (file_read c 0 FOOTER_SIZE)" "checkFooter f = Inr ()"
proof -
  have len: "length (file_read c 0 FOOTER_SIZE) = struct_size FuFooter" using assms(2) by (simp add: streamable_def)
  obtain b where b: "assertChecksum fu (file_read c 0 FOOTER_SIZE) FuFooter = Inr b"
    "f = fuFooter_unpack fu b" "checkFooter f = Inr ()"
    using assms(2) by (auto simp: streamable_def unpackFooter_def Let_def res_bind_Inr_iff)
  from assertChecksum_same [OF assms(1) b(1) len] b(2,3)
  show "f = fuFooter_unpack fu (file_read c 0 FOOTER_SIZE)" "checkFooter f = Inr ()" by simp_all
qed

lemma streamable_checkHeader: "streamable fu c f h \<Longrightarrow> checkHeader h (Some f) = Inr ()"
  by (auto simp: streamable_def unpackHeader_def Let_def res_bind_Inr_iff)

lemma streamable_with_length:
  assumes codec: "struct_fu_codec fu" and s: "streamable fu (concat cs) f h" and near: "tableOffset h < 2 ^ 30"
  shows "\<exists>out n. createVhdStreamWithLength fu cs = Inr (out, n)"
proof -
  define c where "c = concat cs"
  note s' = s [folded c_def]
  have hu: "h = fuHeader_unpack fu (file_read c FOOTER_SIZE HEADER_SIZE)" by (rule streamable_header [OF codec s'])
  note fu = streamable_footer [OF codec s'] and ch = streamable_checkHeader [OF s']
  have bat: "bat_item h \<in> set (stream_index h (table_of c h))" by (simp add: stream_index_def)
  have r: "readable (FOOTER_SIZE + HEADER_SIZE) (length c - FOOTER_SIZE) (stream_index h (table_of c h))"
    using s' by (simp add: streamable_def)
  have lo: "FOOTER_SIZE + HEADER_SIZE \<le> tableOffset h" using readable_ge [OF r bat] by simp
  have hi: "tableOffset h + computeBatSize (maxTableEntries h) \<le> length c - FOOTER_SIZE" using readable_le [OF r bat] by simp
  have inside: "tableOffset h + computeBatSize (maxTableEntries h) \<le> length c" "1536 \<le> length c"
    using lo hi by (simp_all add: vhd_sizes)
  have "computeBatSize (maxTableEntries h) < 2 ^ 30" using readable_small [OF r bat] by simp
  then have m: "maxTableEntries h * 4 \<le> computeBatSize (maxTableEntries h)" "maxTableEntries h * 4 < 2 ^ 30"
    using computeBatSize_ge [of "maxTableEntries h"] by linarith+
  let ?r0 = "\<lparr>lr_stream = cs, lr_position = 0, lr_buffers = []\<rparr>"
  have a0: "lr_at c ?r0" by (simp add: lr_at_def c_def)
  obtain r1 where r1: "lr_readStream (int FOOTER_SIZE) ?r0 = Inr (file_read c 0 FOOTER_SIZE, r1)" "lr_at c r1"
      "lr_position r1 = FOOTER_SIZE"
    using lr_readStream_ok [OF a0, of FOOTER_SIZE] inside by (auto simp: vhd_sizes)
  obtain r2 where r2: "lr_readStream (int HEADER_SIZE) r1 = Inr (file_read c FOOTER_SIZE HEADER_SIZE, r2)" "lr_at c r2"
      "lr_position r2 = FOOTER_SIZE + HEADER_SIZE"
    using lr_readStream_ok [OF r1(2), of HEADER_SIZE] r1(3) inside by (auto simp: vhd_sizes)
  obtain b r3 where r3: "lr_readStream (int (tableOffset h) - int (lr_position r2)) r2 = Inr (b, r3)" "lr_at c r3"
      "lr_position r3 = tableOffset h"
  proof -
    let ?gap = "tableOffset h - (FOOTER_SIZE + HEADER_SIZE)"
    have "int (tableOffset h) - int (lr_position r2) = int ?gap" using r2(3) lo by (simp add: of_nat_diff)
    moreover have "lr_position r2 + ?gap \<le> length c" "?gap < 2 ^ 30" using r2(3) lo inside near by linarith+
    ultimately show thesis using lr_readStream_ok [OF r2(2), of ?gap] r2(3) lo that by auto
  qed
  obtain r4 where r4: "lr_readStream (int (maxTableEntries h * 4)) r3 =
      Inr (file_read c (tableOffset h) (maxTableEntries h * 4), r4)"
    using lr_readStream_ok [OF r3(2), of "maxTableEntries h * 4"] r3(3) m inside by auto
  have "4 dvd length (file_read c (tableOffset h) (maxTableEntries h * 4))" using m(1) inside by (simp add: min_def)
  from getFirstAndLastBlocks_spec [OF this] obtain fl where
    fl: "getFirstAndLastBlocks (file_read c (tableOffset h) (maxTableEntries h * 4)) = Inr fl"
    by (cases "getFirstAndLastBlocks (file_read c (tableOffset h) (maxTableEntries h * 4))") auto
  show ?thesis
    unfolding createVhdStreamWithLength_def Let_def
    using r1(1) r2(1) r3(1) r4 fl fu(2) ch by (simp add: fu(1) [symmetric] hu [symmetric])
qed

end
