(* ===== verification/Vhd_Consumer.thy ===== *)
theory Vhd_Consumer
  imports Vhd_Stream Vhd_Aliases Vhd_Directory
begin

text \<open>
  The producers of VHDs: the disk consumers of \<open>vhd-lib/disk-consumer\<close> (\<open>BaseVhd.mjs\<close>,
  \<open>DiskConsumerVhdStream.mjs\<close>, \<open>DiskConsumerVhdDirectory.mjs\<close>, \<open>compressedBlock.mjs\<close>), which turn a
  disk into a VHD stream or a VHD directory, and \<open>createReadableSparseStream.js\<close>, which assembles the
  fragments of an imported disk into blocks.

  The \<open>Disk\<close> a consumer reads is a record of what it asks of it; its generator of blocks gives the blocks
  it yields and how it ends. The clock and the generator of UUIDs are arguments. No abort signal is given.
\<close>

section \<open>Disks\<close>

record disk_block =
  db_index :: nat
  db_data :: buffer
  db_compression :: "string option"

definition isCompressedBlock :: "disk_block \<Rightarrow> bool" where
  "isCompressedBlock block \<longleftrightarrow> db_compression block \<noteq> None"

record source_disk =
  getVirtualSize :: nat
  isDifferencing :: bool
  getBlockIndexes :: "nat list"
  diskBlocks :: "(disk_block, unit) generated"

section \<open>\<open>BaseVhd\<close>\<close>

definition FULL_BLOCK_BITMAP :: buffer where
  "FULL_BLOCK_BITMAP = replicate SECTOR_SIZE 255"

definition nbTotalBlocks :: "source_disk \<Rightarrow> nat" where
  "nbTotalBlocks source = ceil_div (getVirtualSize source) DEFAULT_BLOCK_SIZE"

definition computeVhdHeader :: "struct_fu \<Rightarrow> source_disk \<Rightarrow> buffer" where
  "computeVhdHeader fu source =
     createHeader fu (nbTotalBlocks source) (HEADER_SIZE + FOOTER_SIZE) DEFAULT_BLOCK_SIZE"

definition computeVhdFooter :: "struct_fu \<Rightarrow> buffer \<Rightarrow> nat \<Rightarrow> source_disk \<Rightarrow> buffer" where
  "computeVhdFooter fu generatedUuid now source =
     createFooter fu generatedUuid (getVirtualSize source) now
       (fst (computeGeometryForSize (getVirtualSize source))) (Some FOOTER_SIZE)
       (if isDifferencing source then DISK_TYPE_DIFFERENCING else DISK_TYPE_DYNAMIC)"

definition computeVhdBatAndFileSize :: "source_disk \<Rightarrow> js_error + (buffer \<times> nat)" where
  "computeVhdBatAndFileSize source =
     (let bytes = ceil_div (nbTotalBlocks source * 4) SECTOR_SIZE * SECTOR_SIZE;
          bat = replicate bytes 255;
          dataOffset = FOOTER_SIZE + HEADER_SIZE + bytes;
          offsetSector = dataOffset div SECTOR_SIZE;
          FULL_BLOCK_SIZE = SECTOR_SIZE + DEFAULT_BLOCK_SIZE;
          blockSizeInSectors = FULL_BLOCK_SIZE div SECTOR_SIZE;
          fileSize = offsetSector * SECTOR_SIZE + FOOTER_SIZE
      in res_bind (res_fold (\<lambda>index (bat, offsetSector, fileSize).
             res_bind (writeUInt32BE bat offsetSector (index * 4)) (\<lambda>bat.
             Inr (bat, offsetSector + blockSizeInSectors, fileSize + FULL_BLOCK_SIZE)))
           (getBlockIndexes source) (bat, offsetSector, fileSize)) (\<lambda>(bat, _, fileSize).
         Inr (bat, fileSize)))"

definition vhdblockGenerator :: "source_disk \<Rightarrow> (buffer, unit) generated" where
  "vhdblockGenerator source =
     (map (\<lambda>b. FULL_BLOCK_BITMAP @ db_data b) (fst (diskBlocks source)), snd (diskBlocks source))"

text \<open>\<open>Buffer.concat([data], n)\<close>: padded with zeros, or cut.\<close>

definition concat_to :: "buffer \<Rightarrow> nat \<Rightarrow> buffer" where
  "concat_to data n = take n (data @ replicate n 0)"

definition full_data :: "buffer \<Rightarrow> buffer" where
  "full_data data = (if length data < DEFAULT_BLOCK_SIZE then concat_to data DEFAULT_BLOCK_SIZE else data)"

section \<open>\<open>DiskConsumerVhdStream\<close>\<close>

record vhd_target =
  t_uuid :: "buffer option"
  t_parentUuid :: "buffer option"
  t_parentPath :: "string option"

definition target_footer :: "vhd_target \<Rightarrow> vhd_footer \<Rightarrow> vhd_footer" where
  "target_footer target footer = (case t_uuid target of None \<Rightarrow> footer | Some u \<Rightarrow> footer\<lparr>uuid := u\<rparr>)"

text \<open>An empty path is falsy in JavaScript.\<close>

definition target_header :: "vhd_target \<Rightarrow> vhd_header \<Rightarrow> vhd_header" where
  "target_header target header =
     (let header = (case t_parentUuid target of None \<Rightarrow> header | Some u \<Rightarrow> header\<lparr>parentUuid := u\<rparr>)
      in case t_parentPath target of None \<Rightarrow> header
         | Some p \<Rightarrow> if p = [] then header else header\<lparr>parentUnicodeName := p\<rparr>)"

text \<open>The loop over the blocks; \<open>truncated\<close> tells that a shorter block came, which must be the last one.\<close>

fun stream_disk_blocks :: "bool \<Rightarrow> disk_block list \<Rightarrow> js_error + unit \<Rightarrow> (buffer, unit) generated" where
  "stream_disk_blocks truncated [] end = gen_await end"
| "stream_disk_blocks truncated (block # blocks) end =
     gen_bind (gen_await (js_assert (\<not> isCompressedBlock block))) (\<lambda>_.
     if truncated then gen_await (Inl (JsError ''Expecting a full block''))
     else
       gen_bind (gen_yield FULL_BLOCK_BITMAP) (\<lambda>_.
       gen_bind (gen_yield (full_data (db_data block))) (\<lambda>_.
       stream_disk_blocks (length (db_data block) < DEFAULT_BLOCK_SIZE) blocks end)))"

text \<open>The content of the stream, as generated, and the length it announces.\<close>

definition toStream ::
  "struct_fu \<Rightarrow> buffer \<Rightarrow> nat \<Rightarrow> vhd_target \<Rightarrow> source_disk \<Rightarrow> js_error + ((buffer, unit) generated \<times> nat)" where
  "toStream fu generatedUuid now target source =
     res_bind (unpackFooter fu (computeVhdFooter fu generatedUuid now source)) (\<lambda>footerObj.
     let footer = snd (checksumStruct fu (fuFooter_pack fu (target_footer target footerObj)) FuFooter)
     in res_bind (unpackHeader fu (computeVhdHeader fu source) None) (\<lambda>headerObj.
        let header = snd (checksumStruct fu (fuHeader_pack fu (target_header target headerObj)) FuHeader)
        in res_bind (computeVhdBatAndFileSize source) (\<lambda>(bat, fileSize).
           Inr (gen_bind (gen_yield footer) (\<lambda>_.
                gen_bind (gen_yield header) (\<lambda>_.
                gen_bind (gen_yield bat) (\<lambda>_.
                gen_bind (stream_disk_blocks False (fst (diskBlocks source)) (snd (diskBlocks source))) (\<lambda>_.
                gen_yield footer)))),
                fileSize))))"

section \<open>\<open>DiskConsumerVhdDirectory\<close>\<close>

text \<open>
  The handler: the chunks and filters of its VHD directories, and its aliases. The callback of \<open>asyncEach\<close>
  checks a block and writes it; its calls are taken one after the other.
\<close>

record consumer_remote =
  cr_files :: "string \<times> vhd_chunk \<Rightarrow> buffer option"
  cr_filters :: "string \<Rightarrow> string list option"
  cr_aliases :: "unit remote"

record directory_target = vhd_target +
  t_path :: string
  t_compression :: "string option"
  t_flags :: "string option"
  t_validator :: "string \<Rightarrow> consumer_remote \<Rightarrow> js_error + unit"

definition write_disk_block ::
  "string option \<Rightarrow> disk_block \<Rightarrow> bool \<times> vhd_dir \<Rightarrow> js_error + (bool \<times> vhd_dir)" where
  "write_disk_block compression block st =
     (let (truncated, vhd) = st
      in case db_compression block of
           Some c \<Rightarrow>
             res_bind (js_assert (Some c = compression)) (\<lambda>_.
             res_bind (writeCompressedBlock (db_index block) (db_data block) vhd) (\<lambda>vhd.
             Inr (truncated, vhd)))
         | None \<Rightarrow>
             if truncated then Inl (JsError ''Expecting a full block'')
             else
               res_bind (vd_writeBlockData (db_index block) (full_data (db_data block)) vhd) (\<lambda>vhd.
               Inr (length (db_data block) < DEFAULT_BLOCK_SIZE, vhd)))"

definition data_path :: "string \<Rightarrow> string" where
  "data_path path =
     (let base = basename path
      in dirname path @ ''/data/'' @ take (length base - length ''.alias.vhd'') base @ ''.vhd'')"

text \<open>The body of the \<open>try\<close>; \<open>blank\<close> holds the fields of the object before they are set.\<close>

definition write_directory ::
  "struct_fu \<Rightarrow> zlib \<Rightarrow> (nat \<Rightarrow> buffer) \<Rightarrow> vhd_dir \<Rightarrow> buffer \<Rightarrow> nat \<Rightarrow> directory_target \<Rightarrow> source_disk \<Rightarrow>
   consumer_remote \<Rightarrow> js_error + (vhd_dir \<times> consumer_remote)" where
  "write_directory fu zl allocUnsafe blank generatedUuid now target source r =
     res_bind (getCompressor zl allocUnsafe (t_compression target)) (\<lambda>comp.
     let vhd = blank\<lparr>vd_files := cr_files r, vd_filters := cr_filters r, vd_path := data_path (t_path target),
           vd_flags := (case t_flags target of None \<Rightarrow> ''w'' | Some flags \<Rightarrow> flags), vd_compressor := comp,
           vd_header := None, vd_blockTable := None\<rparr>
     in res_bind (unpackFooter fu (computeVhdFooter fu generatedUuid now source)) (\<lambda>footer.
        let vhd = vhd\<lparr>vd_footer := target_footer (vhd_target.truncate target) footer\<rparr>
        in res_bind (unpackHeader fu (computeVhdHeader fu source) None) (\<lambda>header.
           let vhd = vd_set_header (target_header (vhd_target.truncate target) header) vhd
           in res_bind (res_fold (write_disk_block (t_compression target)) (fst (diskBlocks source)) (False, vhd)) (\<lambda>(_, vhd).
              res_bind (snd (diskBlocks source)) (\<lambda>_.
              res_bind (vd_writeFooter fu vhd) (\<lambda>vhd.
              res_bind (vd_writeHeader fu vhd) (\<lambda>vhd.
              res_bind (vd_writeBlockAllocationTable [] vhd) (\<lambda>vhd.
              res_bind (createAlias (t_path target) (data_path (t_path target)) (cr_aliases r)) (\<lambda>aliases.
              let r = \<lparr>cr_files = vd_files vhd, cr_filters = vd_filters vhd, cr_aliases = aliases\<rparr>
              in res_bind (t_validator target (t_path target) r) (\<lambda>_. Inr (vhd, r)))))))))))"

text \<open>
  What a failed attempt leaves is removed: the alias and every chunk of the directory. The chunks written
  before the failure are in that directory, so the removal gives the same whatever they were.
\<close>

definition remove_directory :: "string \<Rightarrow> consumer_remote \<Rightarrow> consumer_remote" where
  "remove_directory path r =
     r\<lparr>cr_files := (\<lambda>(p, c). if p = data_path path then None else cr_files r (p, c)),
       cr_filters := (cr_filters r)(data_path path := None),
       cr_aliases := (cr_aliases r)(path := None)\<rparr>"

definition consumer_write ::
  "struct_fu \<Rightarrow> zlib \<Rightarrow> (nat \<Rightarrow> buffer) \<Rightarrow> vhd_dir \<Rightarrow> buffer \<Rightarrow> nat \<Rightarrow> directory_target \<Rightarrow> source_disk \<Rightarrow>
   consumer_remote \<Rightarrow> (js_error + nat) \<times> consumer_remote" where
  "consumer_write fu zl allocUnsafe blank generatedUuid now target source r =
     (if \<not> is_suffix ''.alias.vhd'' (t_path target) then (Inl AssertionError, r)
      else
        let attempt =
          res_bind (write_directory fu zl allocUnsafe blank generatedUuid now target source r) (\<lambda>(vhd, r).
          res_bind (streamSize (dir_view (the (vd_header vhd)) vhd)) (\<lambda>n. Inr (n, r)))
        in case attempt of
             Inl e \<Rightarrow> (Inl e, remove_directory (t_path target) r)
           | Inr (n, r) \<Rightarrow> (Inr n, r))"

section \<open>\<open>createReadableSparseStream\<close>\<close>

definition VHD_BLOCK_SIZE_SECTORS :: nat where
  "VHD_BLOCK_SIZE_SECTORS = DEFAULT_BLOCK_SIZE div SECTOR_SIZE"

text \<open>
  The last fragment of each block, in the order of their first occurrence from the end; \<open>Map\<close> keeps the
  order of insertion.
\<close>

definition lastFragments :: "nat list \<Rightarrow> nat \<Rightarrow> js_error + (nat \<times> nat) list" where
  "lastFragments fragmentLogicAddressList fragmentSize =
     res_fold (\<lambda>fragmentLogicAddress m.
         res_bind (js_assert (fragmentLogicAddress * fragmentSize mod SECTOR_SIZE = 0)) (\<lambda>_.
         let vhdTableIndex = fragmentLogicAddress * fragmentSize div DEFAULT_BLOCK_SIZE
         in Inr (if map_of m vhdTableIndex = None then m @ [(vhdTableIndex, fragmentLogicAddress * fragmentSize)]
                 else m)))
       (rev fragmentLogicAddressList) []"

definition createBAT ::
  "nat \<Rightarrow> nat list \<Rightarrow> nat \<Rightarrow> buffer \<Rightarrow> nat \<Rightarrow> js_error + (nat \<times> (nat \<times> nat) list \<times> buffer)" where
  "createBAT firstBlockPosition fragmentLogicAddressList fragmentSize bat bitmapBytes =
     res_bind (lastFragments fragmentLogicAddressList fragmentSize) (\<lambda>lastFragmentPerBlock.
     res_bind (res_fold (\<lambda>(vhdTableIndex, _) (currentVhdPositionSector, bat).
           res_bind (readUInt32BE bat (vhdTableIndex * 4)) (\<lambda>e.
           if e = BLOCK_UNUSED then
             res_bind (writeUInt32BE bat currentVhdPositionSector (vhdTableIndex * 4)) (\<lambda>bat.
             Inr (currentVhdPositionSector + (bitmapBytes + DEFAULT_BLOCK_SIZE) div SECTOR_SIZE, bat))
           else Inr (currentVhdPositionSector, bat)))
         (rev lastFragmentPerBlock) (firstBlockPosition div SECTOR_SIZE, bat)) (\<lambda>(position, bat).
     Inr (position, lastFragmentPerBlock, bat)))"

record fragment =
  logicalAddressBytes :: nat
  fr_data :: buffer

definition insertFragmentInBlock :: "nat \<Rightarrow> nat \<Rightarrow> fragment \<Rightarrow> buffer \<Rightarrow> buffer" where
  "insertFragmentInBlock ratio bitmapBytes fragment blockWithBitmap =
     (let fragmentOffsetInBlock = logicalAddressBytes fragment div SECTOR_SIZE mod VHD_BLOCK_SIZE_SECTORS;
          blockWithBitmap = fold (\<lambda>bitPos b. bitmap_set b (fragmentOffsetInBlock + bitPos))
            [0..<VHD_BLOCK_SIZE_SECTORS div ratio] blockWithBitmap
      in buf_copy (fr_data fragment) blockWithBitmap
           (bitmapBytes + logicalAddressBytes fragment mod DEFAULT_BLOCK_SIZE))"

definition yieldAndTrack :: "buffer \<Rightarrow> nat option \<Rightarrow> nat \<Rightarrow> (buffer, nat) generated" where
  "yieldAndTrack buffer expectedPosition position =
     gen_bind (gen_await (js_assert (case expectedPosition of None \<Rightarrow> True | Some e \<Rightarrow> position = e))) (\<lambda>_.
     if length buffer > 0 then
       gen_bind (gen_yield buffer) (\<lambda>_. gen_await (Inr (position + length buffer)))
     else gen_await (Inr position))"

text \<open>
  The blocks waiting for fragments are a map from the index of a block to its bytes; the position is the
  number of bytes sent.
\<close>

fun generateBlocks ::
  "nat \<Rightarrow> nat \<Rightarrow> buffer \<Rightarrow> (nat \<times> nat) list \<Rightarrow> fragment list \<Rightarrow> js_error + unit \<Rightarrow> (nat \<Rightarrow> buffer option) \<Rightarrow> nat \<Rightarrow>
   (buffer, nat) generated" where
  "generateBlocks ratio bitmapBytes bat lastFragmentPerBlock [] end m position =
     gen_await (res_bind end (\<lambda>_. Inr position))"
| "generateBlocks ratio bitmapBytes bat lastFragmentPerBlock (fragment # fragments) end m position =
     (let batIndex = logicalAddressBytes fragment div DEFAULT_BLOCK_SIZE;
          currentBlockWithBitmap = (case m batIndex of
              None \<Rightarrow> replicate (bitmapBytes + DEFAULT_BLOCK_SIZE) 0 | Some b \<Rightarrow> b);
          currentBlockWithBitmap = insertFragmentInBlock ratio bitmapBytes fragment currentBlockWithBitmap;
          m = m(batIndex \<mapsto> currentBlockWithBitmap)
      in gen_bind (gen_await (readUInt32BE bat (batIndex * 4))) (\<lambda>batEntry.
         gen_bind (gen_await (js_assert (batEntry \<noteq> BLOCK_UNUSED))) (\<lambda>_.
         if map_of lastFragmentPerBlock batIndex = Some (logicalAddressBytes fragment) then
           gen_bind (yieldAndTrack currentBlockWithBitmap (Some (batEntry * SECTOR_SIZE)) position) (\<lambda>position.
           generateBlocks ratio bitmapBytes bat lastFragmentPerBlock fragments end (m(batIndex := None)) position)
         else generateBlocks ratio bitmapBytes bat lastFragmentPerBlock fragments end m position)))"

text \<open>
  The checks on the ratio of the sizes, a quotient of JavaScript numbers: an integer, at most 53. The stream
  is given by what it will yield, and its announced length.
\<close>

definition createReadableStream ::
  "struct_fu \<Rightarrow> buffer \<Rightarrow> nat \<Rightarrow> nat \<Rightarrow> nat \<Rightarrow> nat list \<Rightarrow> (fragment, unit) generated \<Rightarrow>
   js_error + ((buffer, nat) generated \<times> nat)" where
  "createReadableStream fu generatedUuid now diskSize fragmentSize fragmentLogicAddressList fragmentIterator =
     (if fragmentSize = 0 \<or> DEFAULT_BLOCK_SIZE mod fragmentSize \<noteq> 0 then
        Inl (JsError ''grain size is not a divider of VHD block size'')
      else if DEFAULT_BLOCK_SIZE div fragmentSize > 53 then
        Inl (JsError ''grain size / block size ratio is > 53'')
      else
        let ratio = DEFAULT_BLOCK_SIZE div fragmentSize;
            entries = ceil_div diskSize DEFAULT_BLOCK_SIZE + 1;
            tablePhysicalSizeBytes = ceil_div (entries * 4) SECTOR_SIZE * SECTOR_SIZE;
            batPosition = FOOTER_SIZE + HEADER_SIZE;
            firstBlockPosition = batPosition + tablePhysicalSizeBytes;
            (geometry, actualSize) = computeGeometryForSize diskSize;
            footer = createFooter fu generatedUuid actualSize now geometry (Some FOOTER_SIZE) DISK_TYPE_DYNAMIC;
            header = createHeader fu entries batPosition DEFAULT_BLOCK_SIZE;
            bitmapBytes = ceil_div VHD_BLOCK_SIZE_SECTORS (8 * SECTOR_SIZE) * SECTOR_SIZE
        in res_bind (createBAT firstBlockPosition fragmentLogicAddressList fragmentSize
               (replicate tablePhysicalSizeBytes 0xff) bitmapBytes) (\<lambda>(endOfData, lastFragmentPerBlock, bat).
           Inr (gen_bind (yieldAndTrack footer (Some 0) 0) (\<lambda>position.
                gen_bind (yieldAndTrack header (Some FOOTER_SIZE) position) (\<lambda>position.
                gen_bind (yieldAndTrack bat (Some (FOOTER_SIZE + HEADER_SIZE)) position) (\<lambda>position.
                gen_bind (generateBlocks ratio bitmapBytes bat lastFragmentPerBlock (fst fragmentIterator)
                    (snd fragmentIterator) Map.empty position) (\<lambda>position.
                yieldAndTrack footer None position)))),
                endOfData * SECTOR_SIZE + FOOTER_SIZE)))"

end
