(* ===== verification/Vhd_Consumer_Props.thy ===== *)
theory Vhd_Consumer_Props
  imports Vhd_Consumer Vhd_Stream_File
begin

text \<open>
  What the disk consumers produce: the stream of a disk is a VHD the parser reads to its end, with one
  block for each block of the disk; the directory of a disk shows the same blocks.
\<close>

section \<open>Created headers\<close>

lemma geometry_wf: "wf_geometry (fst (computeGeometryForSize d))"
proof -
  define t where "t = min (ceil_div d 512) (65535 * 16 * 255)"
  obtain spt hds where g: "computeGeometryForSize d =
      (\<lparr>cylinders = ceil_div t (spt * hds), heads = hds, sectorsPerTrackCylinder = spt\<rparr>,
       ceil_div t (spt * hds) * hds * spt * SECTOR_SIZE)"
    and b: "0 < hds" "hds \<le> 16" "0 < spt" "spt \<le> 255" "t \<le> 65535 * (spt * hds)"
    using computeGeometry_spec [OF t_def] by blast
  have "ceil_div t (spt * hds) \<le> 65535" using b by (simp add: ceil_div_le_iff)
  then show ?thesis using b by (simp add: g wf_geometry_def)
qed

lemma char_fits_consts:
  "char_fits 8 FOOTER_COOKIE" "char_fits 8 HEADER_COOKIE" "char_fits 4 CREATOR_APPLICATION" "char_fits n []"
  by (simp_all add: char_fits_def FOOTER_COOKIE_def HEADER_COOKIE_def CREATOR_APPLICATION_def)

context struct_fu_codec
begin

lemma createFooter_packs:
  assumes "length u = 16" "sz < 2 ^ 64" "now < 2 ^ 32" "wf_geometry g"
    "type = DISK_TYPE_DIFFERENCING \<or> type = DISK_TYPE_DYNAMIC"
  shows "\<exists>f. createFooter fu u sz now g (Some FOOTER_SIZE) type = fuFooter_pack fu (with_checksum fu f) \<and>
    wf_footer f \<and> checkFooter f = Inr () \<and> currentSize f = sz \<and> diskType f = type \<and> uuid f = u"
proof -
  define f where "f = \<lparr>
       f_cookie = FOOTER_COOKIE, features = 2, fileFormatVersion = FILE_FORMAT_VERSION,
       f_dataOffset = Some FOOTER_SIZE, timestamp = now, creatorApplication = CREATOR_APPLICATION,
       creatorVersion = 0, creatorHostOs = PLATFORM_WI2K, originalSize = sz, currentSize = sz,
       diskGeometry = g, diskType = type, f_checksum = 0, uuid = u, saved = [], hidden = [], f_reserved = []\<rparr>"
  have "createFooter fu u sz now g (Some FOOTER_SIZE) type = fuFooter_pack fu (with_checksum fu f)"
    using snd_checksum_footer [of f] assms(1) by (simp add: createFooter_def f_def)
  moreover have "wf_footer f"
    using assms by (auto simp: wf_footer_def f_def char_fits_consts wf_u64_undefinable_def FILE_FORMAT_VERSION_def
        FOOTER_SIZE_def PLATFORM_WI2K_def DISK_TYPE_DIFFERENCING_def DISK_TYPE_DYNAMIC_def)
  moreover have "checkFooter f = Inr ()" using assms(5) by (simp add: checkFooter_def f_def)
  ultimately show ?thesis by (intro exI [of _ f]) (simp add: f_def)
qed

lemma createHeader_packs:
  assumes "n < 2 ^ 32" "pos < 2 ^ 64"
  shows "\<exists>h. createHeader fu n pos DEFAULT_BLOCK_SIZE = fuHeader_pack fu (header_with_checksum fu h) \<and>
    wf_header h \<and> checkHeader h None = Inr () \<and> maxTableEntries h = n \<and> tableOffset h = pos \<and>
    blockSize h = DEFAULT_BLOCK_SIZE \<and> parentLocatorEntry h = replicate PARENT_LOCATOR_ENTRIES empty_locator"
proof -
  define h where "h = \<lparr>
       h_cookie = HEADER_COOKIE, h_dataOffset = None, tableOffset = pos, headerVersion = HEADER_VERSION,
       maxTableEntries = n, blockSize = DEFAULT_BLOCK_SIZE, h_checksum = 0, parentUuid = replicate 16 0,
       parentTimestamp = 0, reserved1 = 0, parentUnicodeName = [],
       parentLocatorEntry = replicate PARENT_LOCATOR_ENTRIES empty_locator, reserved2 = []\<rparr>"
  have pow: "is_pow2 DEFAULT_BLOCK_SIZE" by (simp add: DEFAULT_BLOCK_SIZE_def is_pow2.simps)
  have "createHeader fu n pos DEFAULT_BLOCK_SIZE = fuHeader_pack fu (header_with_checksum fu h)"
    using snd_checksum_header [of h] by (simp add: createHeader_def h_def)
  moreover have "wf_header h"
    using assms by (simp add: wf_header_def h_def char_fits_consts wf_u64_undefinable_def HEADER_VERSION_def
        DEFAULT_BLOCK_SIZE_def wf_locator_def empty_locator_def)
  moreover have "checkHeader h None = Inr ()" by (simp add: checkHeader_def h_def pow)
  ultimately show ?thesis by (intro exI [of _ h]) (simp add: h_def)
qed

end

section \<open>Filling a table\<close>

lemma fill_table:
  assumes "\<forall>i \<in> set ids. 4 * i + 4 \<le> length bat" "off + length ids * step < 2 ^ 32" "distinct ids"
  shows "\<exists>bat'. res_fold (\<lambda>index (bat, offsetSector, fileSize).
             res_bind (writeUInt32BE bat offsetSector (index * 4)) (\<lambda>bat.
             Inr (bat, offsetSector + step, fileSize + full))) ids (bat, off, n) =
      Inr (bat', off + length ids * step, n + length ids * full) \<and> length bat' = length bat \<and>
    (\<forall>j < length ids. bat_entry bat' (ids ! j) = off + j * step) \<and>
    (\<forall>i. 4 * i + 4 \<le> length bat \<longrightarrow> i \<notin> set ids \<longrightarrow> bat_entry bat' i = bat_entry bat i)"
  using assms
proof (induction ids arbitrary: bat off n)
  case (Cons k ids)
  have "4 * k + 4 \<le> length bat" "off < 2 ^ 32" using Cons.prems by simp_all
  from writeUInt32BE_entry [OF this] obtain b1 where
    w: "writeUInt32BE bat off (k * 4) = Inr b1" "length b1 = length bat"
      "\<forall>i. 4 * i + 4 \<le> length bat \<longrightarrow> bat_entry b1 i = (if i = k then off else bat_entry bat i)" by blast
  have each: "\<forall>i \<in> set ids. 4 * i + 4 \<le> length b1" and sum: "off + step + length ids * step < 2 ^ 32"
    and d: "distinct ids" "k \<notin> set ids"
    using Cons.prems w(2) by (simp_all add: algebra_simps)
  from Cons.IH [OF each sum d(1), of "n + full"] obtain b2 where
    b2: "res_fold (\<lambda>index (bat, offsetSector, fileSize).
             res_bind (writeUInt32BE bat offsetSector (index * 4)) (\<lambda>bat.
             Inr (bat, offsetSector + step, fileSize + full))) ids (b1, off + step, n + full) =
      Inr (b2, off + step + length ids * step, n + full + length ids * full)" "length b2 = length b1"
    "\<forall>j < length ids. bat_entry b2 (ids ! j) = off + step + j * step"
    "\<forall>i. 4 * i + 4 \<le> length b1 \<longrightarrow> i \<notin> set ids \<longrightarrow> bat_entry b2 i = bat_entry b1 i" by blast
  have "bat_entry b2 ((k # ids) ! j) = off + j * step" if "j < length (k # ids)" for j
    using that b2(3,4) w(2,3) Cons.prems(1) d(2) by (cases j) (simp_all add: algebra_simps)
  then show ?case
    using w b2 by (intro exI [of _ b2]) (simp add: algebra_simps)
qed simp

section \<open>The stream of a disk\<close>

text \<open>What a disk promises: each block once, in the order of its indexes, full but for the last one.\<close>

definition disk_ok :: "source_disk \<Rightarrow> bool" where
  "disk_ok source \<longleftrightarrow>
     (let blocks = fst (diskBlocks source)
      in snd (diskBlocks source) = Inr () \<and> map db_index blocks = getBlockIndexes source \<and>
         distinct (getBlockIndexes source) \<and> (\<forall>i \<in> set (getBlockIndexes source). i < nbTotalBlocks source) \<and>
         (\<forall>b \<in> set blocks. \<not> isCompressedBlock b \<and> length (db_data b) \<le> DEFAULT_BLOCK_SIZE) \<and>
         (\<forall>b \<in> set (butlast blocks). length (db_data b) = DEFAULT_BLOCK_SIZE))"

text \<open>The block of a VHD made of a block of a disk.\<close>

definition vhd_image :: "disk_block \<Rightarrow> buffer" where
  "vhd_image b = FULL_BLOCK_BITMAP @ full_data (db_data b)"

definition disk_content :: "source_disk \<Rightarrow> nat \<Rightarrow> buffer option" where
  "disk_content source = map_of (map (\<lambda>b. (db_index b, vhd_image b)) (fst (diskBlocks source)))"

definition target_ok :: "'a vhd_target_scheme \<Rightarrow> bool" where
  "target_ok target \<longleftrightarrow>
     (case t_uuid target of None \<Rightarrow> True | Some u \<Rightarrow> length u = 16) \<and>
     (case t_parentUuid target of None \<Rightarrow> True | Some u \<Rightarrow> length u = 16) \<and>
     (case t_parentPath target of None \<Rightarrow> True | Some p \<Rightarrow> char_fits 256 p)"

lemma target_footer_keeps:
  assumes "target_ok target" "wf_footer f" "checkFooter f = Inr ()"
  shows "wf_footer (target_footer target f)" "checkFooter (target_footer target f) = Inr ()"
    "currentSize (target_footer target f) = currentSize f" "diskType (target_footer target f) = diskType f"
    "uuid (target_footer target f) = (case t_uuid target of None \<Rightarrow> uuid f | Some u \<Rightarrow> u)"
  using assms
  by (auto simp: target_footer_def target_ok_def wf_footer_def checkFooter_def split: option.splits)

lemma target_header_keeps:
  assumes "target_ok target" "wf_header h" "checkHeader h None = Inr ()"
  shows "wf_header (target_header target h)" "checkHeader (target_header target h) None = Inr ()"
    "maxTableEntries (target_header target h) = maxTableEntries h" "tableOffset (target_header target h) = tableOffset h"
    "blockSize (target_header target h) = blockSize h" "parentLocatorEntry (target_header target h) = parentLocatorEntry h"
    "parentUuid (target_header target h) = (case t_parentUuid target of None \<Rightarrow> parentUuid h | Some u \<Rightarrow> u)"
  using assms
  by (auto simp: target_header_def target_ok_def wf_header_def checkHeader_def Let_def split: option.splits)

lemma full_data_length: "length d \<le> DEFAULT_BLOCK_SIZE \<Longrightarrow> length (full_data d) = DEFAULT_BLOCK_SIZE"
  by (simp add: full_data_def concat_to_def)

lemma stream_disk_blocks_eq:
  assumes "\<forall>b \<in> set blocks. \<not> isCompressedBlock b" "\<forall>b \<in> set (butlast blocks). length (db_data b) = DEFAULT_BLOCK_SIZE"
  shows "stream_disk_blocks False blocks end =
    (concat (map (\<lambda>b. [FULL_BLOCK_BITMAP, full_data (db_data b)]) blocks), end)"
  using assms
proof (induction blocks)
  case (Cons b blocks)
  show ?case
  proof (cases "blocks = []")
    case True
    then show ?thesis using Cons.prems by (simp add: gen_await_def)
  next
    case False
    then have "length (db_data b) = DEFAULT_BLOCK_SIZE" using Cons.prems by simp
    with Cons False show ?thesis by simp
  qed
qed (simp add: gen_await_def)

lemma default_full: "computeFullBlockSize DEFAULT_BLOCK_SIZE = 2097664"
  by (simp add: layout_defs ceil_div_def Let_def DEFAULT_BLOCK_SIZE_def SECTOR_SIZE_def)

lemma computeBatSize_pos: "0 < n \<Longrightarrow> computeBatSize n = ceil_div (n * 4) SECTOR_SIZE * SECTOR_SIZE"
proof -
  assume "0 < n"
  then have "ceil_div (n * 4) SECTOR_SIZE \<noteq> 0" by (simp add: ceil_div_def SECTOR_SIZE_def)
  then show ?thesis by (simp add: layout_defs Let_def)
qed

lemma computeBatSize_le: "computeBatSize n \<le> 4 * n + 512"
proof -
  have "(n * 4 + 511) div 512 * 512 \<le> n * 4 + 511" by (rule div_times_less_eq_dividend)
  then show ?thesis by (auto simp: layout_defs Let_def ceil_div_def SECTOR_SIZE_def)
qed

lemma unused_bytes: "4 * i + 4 \<le> n \<Longrightarrow> bat_entry (replicate n 255) i = BLOCK_UNUSED"
proof -
  assume "4 * i + 4 \<le> n"
  then have "buf_slice (replicate n 255) (4 * i) (4 * i + 4) = replicate 4 (255 :: byte)"
    by (simp add: buf_slice_def min_def)
  then show ?thesis by (simp add: bat_entry_def replicate_four of_be_def BLOCK_UNUSED_def)
qed

lemma batAndFileSize:
  assumes nb: "0 < nbTotalBlocks source" and ids: "distinct (getBlockIndexes source)"
    "\<forall>i \<in> set (getBlockIndexes source). i < nbTotalBlocks source"
    and room: "(FOOTER_SIZE + HEADER_SIZE + computeBatSize (nbTotalBlocks source)) div SECTOR_SIZE +
      length (getBlockIndexes source) * 4097 < BLOCK_UNUSED"
  shows "\<exists>bat. computeVhdBatAndFileSize source = Inr (bat, FOOTER_SIZE + HEADER_SIZE +
      computeBatSize (nbTotalBlocks source) + length (getBlockIndexes source) * 2097664 + FOOTER_SIZE) \<and>
    length bat = computeBatSize (nbTotalBlocks source) \<and>
    table_for bat (nbTotalBlocks source)
      ((FOOTER_SIZE + HEADER_SIZE + computeBatSize (nbTotalBlocks source)) div SECTOR_SIZE) 4097 (getBlockIndexes source)"
proof -
  let ?n = "nbTotalBlocks source" and ?ids = "getBlockIndexes source"
  let ?s = "computeBatSize (nbTotalBlocks source)"
  let ?base = "(FOOTER_SIZE + HEADER_SIZE + ?s) div SECTOR_SIZE"
  have s: "ceil_div (?n * 4) SECTOR_SIZE * SECTOR_SIZE = ?s" using computeBatSize_pos [OF nb] by simp
  have inside: "4 * i + 4 \<le> ?s" if "i < ?n" for i using computeBatSize_ge [of ?n] that by linarith
  have base: "?base * SECTOR_SIZE = FOOTER_SIZE + HEADER_SIZE + ?s"
  proof -
    have "SECTOR_SIZE dvd FOOTER_SIZE + HEADER_SIZE + ?s"
      using computeBatSize_sectors [of ?n] by (intro dvd_add) (simp_all add: vhd_sizes)
    then show ?thesis by simp
  qed
  have each: "\<forall>i \<in> set ?ids. 4 * i + 4 \<le> length (replicate ?s (255 :: byte))" using ids(2) inside by simp
  have sum: "?base + length ?ids * 4097 < 2 ^ 32" using room by (simp add: BLOCK_UNUSED_def)
  obtain bat where bat: "res_fold (\<lambda>index (bat, offsetSector, fileSize).
             res_bind (writeUInt32BE bat offsetSector (index * 4)) (\<lambda>bat.
             Inr (bat, offsetSector + 4097, fileSize + 2097664))) ?ids (replicate ?s 255, ?base, ?base * SECTOR_SIZE + FOOTER_SIZE) =
      Inr (bat, ?base + length ?ids * 4097, ?base * SECTOR_SIZE + FOOTER_SIZE + length ?ids * 2097664)"
    "length bat = length (replicate ?s (255 :: byte))"
    "\<forall>j < length ?ids. bat_entry bat (?ids ! j) = ?base + j * 4097"
    "\<forall>i. 4 * i + 4 \<le> length (replicate ?s (255 :: byte)) \<longrightarrow> i \<notin> set ?ids \<longrightarrow>
       bat_entry bat i = bat_entry (replicate ?s 255) i"
    using fill_table [OF each sum ids(1), of 2097664 "?base * SECTOR_SIZE + FOOTER_SIZE"] by blast
  have "SECTOR_SIZE + DEFAULT_BLOCK_SIZE = 2097664" "(2097664 :: nat) div SECTOR_SIZE = 4097"
    by (simp_all add: SECTOR_SIZE_def DEFAULT_BLOCK_SIZE_def)
  then have "computeVhdBatAndFileSize source =
      Inr (bat, FOOTER_SIZE + HEADER_SIZE + ?s + length ?ids * 2097664 + FOOTER_SIZE)"
    using bat(1) by (simp add: computeVhdBatAndFileSize_def Let_def s base add.commute add.left_commute)
  moreover have "table_for bat ?n ?base 4097 ?ids"
    using bat(3,4) inside unused_bytes [of _ ?s] by (simp add: table_for_def)
  ultimately show ?thesis using bat(2) by (intro exI [of _ bat]) simp
qed

lemma image_chunks: "concat (concat (map (\<lambda>b. [FULL_BLOCK_BITMAP, full_data (db_data b)]) bs)) = concat (map vhd_image bs)"
  by (induction bs) (simp_all add: vhd_image_def)

definition disk_fits :: "source_disk \<Rightarrow> bool" where
  "disk_fits source \<longleftrightarrow> 0 < getVirtualSize source \<and> getVirtualSize source \<le> 2 ^ 48 \<and>
     (FOOTER_SIZE + HEADER_SIZE + computeBatSize (nbTotalBlocks source)) div SECTOR_SIZE +
       length (getBlockIndexes source) * 4097 < BLOCK_UNUSED"

lemma nbTotalBlocks_bounds:
  assumes "disk_fits source"
  shows "0 < nbTotalBlocks source" "nbTotalBlocks source \<le> 2 ^ 27" "getVirtualSize source \<le> nbTotalBlocks source * DEFAULT_BLOCK_SIZE"
proof -
  show le: "getVirtualSize source \<le> nbTotalBlocks source * DEFAULT_BLOCK_SIZE"
    unfolding nbTotalBlocks_def by (rule le_ceil_div_mult) (simp add: DEFAULT_BLOCK_SIZE_def)
  show "0 < nbTotalBlocks source" using le assms by (cases "nbTotalBlocks source") (simp_all add: disk_fits_def)
  show "nbTotalBlocks source \<le> 2 ^ 27"
    unfolding nbTotalBlocks_def using assms by (simp add: ceil_div_le_iff DEFAULT_BLOCK_SIZE_def disk_fits_def)
qed

lemma no_locators:
  "parentLocatorEntry h = replicate PARENT_LOCATOR_ENTRIES empty_locator \<Longrightarrow> locator_index h = []"
  by (simp add: locator_index_def filter_empty_conv empty_locator_def)

context struct_fu_codec
begin

lemma target_headers:
  assumes fits: "disk_fits source" and target: "target_ok target" and env: "length u = 16" "now < 2 ^ 32"
  shows "\<exists>f0 h0 f h. unpackFooter fu (computeVhdFooter fu u now source) = Inr f0 \<and>
    unpackHeader fu (computeVhdHeader fu source) None = Inr h0 \<and>
    snd (checksumStruct fu (fuFooter_pack fu (target_footer target f0)) FuFooter) = fuFooter_pack fu f \<and>
    snd (checksumStruct fu (fuHeader_pack fu (target_header target h0)) FuHeader) = fuHeader_pack fu h \<and>
    wf_footer (target_footer target f0) \<and> wf_header (target_header target h0) \<and>
    f = with_checksum fu (target_footer target f0) \<and> h = header_with_checksum fu (target_header target h0) \<and>
    length (fuFooter_pack fu f) = FOOTER_SIZE \<and> length (fuHeader_pack fu h) = HEADER_SIZE \<and>
    unpackFooter fu (fuFooter_pack fu f) = Inr f \<and> unpackHeader fu (fuHeader_pack fu h) (Some f) = Inr h \<and>
    currentSize f = getVirtualSize source \<and>
    diskType f = (if isDifferencing source then DISK_TYPE_DIFFERENCING else DISK_TYPE_DYNAMIC) \<and>
    uuid f = (case t_uuid target of None \<Rightarrow> u | Some v \<Rightarrow> v) \<and>
    tableOffset h = FOOTER_SIZE + HEADER_SIZE \<and> maxTableEntries h = nbTotalBlocks source \<and>
    blockSize h = DEFAULT_BLOCK_SIZE \<and> locator_index h = []"
proof -
  note nb = nbTotalBlocks_bounds [OF fits]
  let ?type = "if isDifferencing source then DISK_TYPE_DIFFERENCING else DISK_TYPE_DYNAMIC"
  have type: "?type = DISK_TYPE_DIFFERENCING \<or> ?type = DISK_TYPE_DYNAMIC" by simp
  have size: "getVirtualSize source < 2 ^ 64" using fits by (simp add: disk_fits_def)
  obtain f1 where f1: "computeVhdFooter fu u now source = fuFooter_pack fu (with_checksum fu f1)" "wf_footer f1"
    "checkFooter f1 = Inr ()" "currentSize f1 = getVirtualSize source" "diskType f1 = ?type" "uuid f1 = u"
    using createFooter_packs [OF env(1) size env(2) geometry_wf type, of "getVirtualSize source"]
    unfolding computeVhdFooter_def by blast
  obtain h1 where h1: "computeVhdHeader fu source = fuHeader_pack fu (header_with_checksum fu h1)" "wf_header h1"
    "checkHeader h1 None = Inr ()" "maxTableEntries h1 = nbTotalBlocks source" "tableOffset h1 = HEADER_SIZE + FOOTER_SIZE"
    "blockSize h1 = DEFAULT_BLOCK_SIZE" "parentLocatorEntry h1 = replicate PARENT_LOCATOR_ENTRIES empty_locator"
    using createHeader_packs [of "nbTotalBlocks source" "HEADER_SIZE + FOOTER_SIZE"] nb(2)
    by (auto simp: computeVhdHeader_def vhd_sizes)
  let ?f0 = "with_checksum fu f1" and ?h0 = "header_with_checksum fu h1"
  have uf0: "unpackFooter fu (computeVhdFooter fu u now source) = Inr ?f0"
    using unpackFooter_pack [OF f1(2,3)] f1(1) by simp
  have uh0: "unpackHeader fu (computeVhdHeader fu source) None = Inr ?h0"
    using unpackHeader_pack [OF h1(2,3)] h1(1) by simp
  have wf0: "wf_footer ?f0" "checkFooter ?f0 = Inr ()" "wf_header ?h0" "checkHeader ?h0 None = Inr ()"
    using f1(2,3) h1(2,3) wf_with_checksum wf_header_with_checksum
    by (simp_all add: with_checksum_def header_with_checksum_def checkFooter_def checkHeader_def)
  note tf = target_footer_keeps [OF target wf0(1,2)] and th = target_header_keeps [OF target wf0(3,4)]
  let ?f2 = "target_footer target ?f0" and ?h2 = "target_header target ?h0"
  let ?f = "with_checksum fu ?f2" and ?h = "header_with_checksum fu ?h2"
  have uid: "length (uuid ?f2) = 16" "length (parentUuid ?h2) = 16"
    "length (parentLocatorEntry ?h2) = PARENT_LOCATOR_ENTRIES"
    using tf(1) th(1) by (simp_all add: wf_footer_def wf_header_def)
  have ch: "checkHeader ?h2 (Some ?f2) = Inr ()"
    using th(2) nb(3) tf(3) th(3,5) f1(4) h1(4,6)
    by (simp add: checkHeader_def with_checksum_def header_with_checksum_def res_bind_Inr_iff)
  have uf: "unpackFooter fu (fuFooter_pack fu ?f) = Inr ?f" by (rule unpackFooter_pack [OF tf(1,2)])
  have "checkHeader ?h2 (Some ?f) = Inr ()" using ch by (simp add: checkHeader_def with_checksum_def)
  then have uh: "unpackHeader fu (fuHeader_pack fu ?h) (Some ?f) = Inr ?h" by (rule unpackHeader_pack [OF th(1)])
  have len: "length (fuFooter_pack fu ?f) = FOOTER_SIZE" "length (fuHeader_pack fu ?h) = HEADER_SIZE"
    using uid by (simp_all add: fuFooter_size fuHeader_size with_checksum_def header_with_checksum_def)
  have "locator_index ?h = []"
    using th(6) h1(7) by (intro no_locators) (simp add: header_with_checksum_def)
  moreover have "currentSize ?f = getVirtualSize source" "diskType ?f = ?type"
      "uuid ?f = (case t_uuid target of None \<Rightarrow> u | Some v \<Rightarrow> v)"
    using tf(3-5) f1(4-6) by (simp_all add: with_checksum_def split: option.split)
  moreover have "tableOffset ?h = FOOTER_SIZE + HEADER_SIZE" "maxTableEntries ?h = nbTotalBlocks source"
      "blockSize ?h = DEFAULT_BLOCK_SIZE"
    using th(3-5) h1(4-6) by (simp_all add: header_with_checksum_def)
  ultimately show ?thesis
    using uf0 uh0 snd_checksum_footer [OF uid(1)] snd_checksum_header [OF uid(2)] tf(1) th(1) uf uh len by blast
qed

end

context struct_fu_codec
begin

lemma toStream_parses:
  assumes ok: "disk_ok source" and fits: "disk_fits source" and target: "target_ok target"
    and env: "length u = 16" "now < 2 ^ 32"
  shows "\<exists>chunks n f h. toStream fu u now target source = Inr ((chunks, Inr ()), n) \<and>
    n = length (concat chunks) \<and> streamable fu (concat chunks) f h \<and>
    map_of (item_blocks (map (parsed_item h (concat chunks)) (stream_index h (table_of (concat chunks) h)))) =
      disk_content source \<and>
    currentSize f = getVirtualSize source \<and> uuid f = (case t_uuid target of None \<Rightarrow> u | Some v \<Rightarrow> v) \<and>
    diskType f = (if isDifferencing source then DISK_TYPE_DIFFERENCING else DISK_TYPE_DYNAMIC)"
proof -
  obtain f0 h0 f h where hd: "unpackFooter fu (computeVhdFooter fu u now source) = Inr f0"
    "unpackHeader fu (computeVhdHeader fu source) None = Inr h0"
    "snd (checksumStruct fu (fuFooter_pack fu (target_footer target f0)) FuFooter) = fuFooter_pack fu f"
    "snd (checksumStruct fu (fuHeader_pack fu (target_header target h0)) FuHeader) = fuHeader_pack fu h"
    and len: "length (fuFooter_pack fu f) = FOOTER_SIZE" "length (fuHeader_pack fu h) = HEADER_SIZE"
    and un: "unpackFooter fu (fuFooter_pack fu f) = Inr f" "unpackHeader fu (fuHeader_pack fu h) (Some f) = Inr h"
    and f: "currentSize f = getVirtualSize source"
      "diskType f = (if isDifferencing source then DISK_TYPE_DIFFERENCING else DISK_TYPE_DYNAMIC)"
      "uuid f = (case t_uuid target of None \<Rightarrow> u | Some v \<Rightarrow> v)"
    and h: "tableOffset h = FOOTER_SIZE + HEADER_SIZE" "maxTableEntries h = nbTotalBlocks source"
      "blockSize h = DEFAULT_BLOCK_SIZE" "locator_index h = []"
    using target_headers [OF fits target env] by blast
  let ?F = "fuFooter_pack fu f" and ?H = "fuHeader_pack fu h" and ?n = "nbTotalBlocks source"
  let ?bs = "fst (diskBlocks source)" and ?ids = "getBlockIndexes source" and ?s = "computeBatSize (nbTotalBlocks source)"
  let ?base = "(FOOTER_SIZE + HEADER_SIZE + ?s) div SECTOR_SIZE"
  note nb = nbTotalBlocks_bounds [OF fits]
  have ids: "distinct ?ids" "\<forall>i \<in> set ?ids. i < ?n" and mids: "map db_index ?bs = ?ids" "snd (diskBlocks source) = Inr ()"
    and blocks: "\<forall>b \<in> set ?bs. \<not> isCompressedBlock b" "\<forall>b \<in> set (butlast ?bs). length (db_data b) = DEFAULT_BLOCK_SIZE"
    and small: "\<forall>b \<in> set ?bs. length (db_data b) \<le> DEFAULT_BLOCK_SIZE"
    using ok by (simp_all add: disk_ok_def Let_def)
  have room: "?base + length ?ids * 4097 < BLOCK_UNUSED" using fits by (simp add: disk_fits_def)
  obtain bat where bat: "computeVhdBatAndFileSize source = Inr (bat, FOOTER_SIZE + HEADER_SIZE + ?s + length ?ids * 2097664 + FOOTER_SIZE)"
    "length bat = ?s" "table_for bat ?n ?base 4097 ?ids"
    using batAndFileSize [OF nb(1) ids room] by blast
  let ?chunks = "?F # ?H # bat # concat (map (\<lambda>b. [FULL_BLOCK_BITMAP, full_data (db_data b)]) ?bs) @ [?F]"
  let ?imgs = "map vhd_image ?bs"
  have run: "toStream fu u now target source = Inr ((?chunks, Inr ()), FOOTER_SIZE + HEADER_SIZE + ?s + length ?ids * 2097664 + FOOTER_SIZE)"
    using hd bat(1) stream_disk_blocks_eq [OF blocks, of "Inr ()"] mids(2)
    by (simp add: toStream_def Let_def gen_yield_def)
  have c: "concat ?chunks = block_image ?F ?H bat ?imgs"
    by (simp add: block_image_def image_chunks)
  have full: "fullBlockSize h = 2097664" by (simp add: fullBlockSize_def h default_full)
  have imgs: "\<forall>b \<in> set ?imgs. length b = fullBlockSize h"
    using small full_data_length unfolding full
    by (auto simp: vhd_image_def FULL_BLOCK_BITMAP_def SECTOR_SIZE_def DEFAULT_BLOCK_SIZE_def)
  have lids: "length ?ids = length ?imgs" using arg_cong [OF mids(1), of length] by simp
  have base: "?base * SECTOR_SIZE = FOOTER_SIZE + HEADER_SIZE + batSize h"
  proof -
    have "SECTOR_SIZE dvd FOOTER_SIZE + HEADER_SIZE + ?s"
      using computeBatSize_sectors [of ?n] by (intro dvd_add) (simp_all add: vhd_sizes)
    then show ?thesis by (simp add: batSize_def h)
  qed
  have bs: "batSize h < 2 ^ 30"
    using computeBatSize_le [of ?n] nb(2) by (simp add: batSize_def h)
  note img = block_image_streamable [OF len(1) un(1) len(2) un(2) h(1) _ h(4) _ bs imgs _ lids ids(1), of bat 4097 ?base]
  have zip: "map_of (zip ?ids ?imgs) = disk_content source"
    unfolding disk_content_def mids(1) [symmetric] zip_map_map zip_same_conv_map by (simp add: comp_def)
  have st: "streamable fu (concat ?chunks) f h"
    and bl: "map_of (item_blocks (map (parsed_item h (concat ?chunks)) (stream_index h (table_of (concat ?chunks) h)))) =
      disk_content source"
    unfolding c zip [symmetric]
    by (rule img; use bat ids base room full in \<open>simp add: h batSize_def SECTOR_SIZE_def DEFAULT_BLOCK_SIZE_def\<close>)+
  have "length (concat ?chunks) = FOOTER_SIZE + HEADER_SIZE + ?s + length ?ids * 2097664 + FOOTER_SIZE"
    using len bat(2) concat_const_length [OF imgs] lids full unfolding c block_image_def by simp
  then have "toStream fu u now target source = Inr ((?chunks, Inr ()), length (concat ?chunks))"
    using run by (simp only:)
  then show ?thesis using st bl f by blast
qed

end

end
