(* ===== verification/Vhd_Consumer_Dir.thy ===== *)
theory Vhd_Consumer_Dir
  imports Vhd_Consumer_Props
begin

text \<open>
  The directory consumer: the directory it writes, opened again with the filters it recorded, shows the
  blocks of the disk, and the size it returns is the one the stream consumer announces.
\<close>

section \<open>Writing the blocks\<close>

lemma vd_writeEntireBlock_frame:
  assumes "vd_writeEntireBlock k b d = Inr d'"
  shows "vd_path d' = vd_path d" "vd_flags d' = vd_flags d" "vd_compressor d' = vd_compressor d"
    "vd_header d' = vd_header d" "vd_footer d' = vd_footer d" "vd_filters d' = vd_filters d"
    "map_option length (vd_blockTable d') = map_option length (vd_blockTable d)"
  using assms
  by (auto simp: vd_writeEntireBlock_def writeChunk_def outputChunk_def mark_block_def vd_table_def res_bind_Inr_iff
      Let_def split: if_splits option.splits)

lemma default_bitmap: "blockSize h = DEFAULT_BLOCK_SIZE \<Longrightarrow> bitmapSize h = SECTOR_SIZE"
  by (simp add: bitmapSize_def sectorsOfBitmap_def layout_defs ceil_div_def Let_def DEFAULT_BLOCK_SIZE_def SECTOR_SIZE_def)

lemma default_fullBlockSize: "blockSize h = DEFAULT_BLOCK_SIZE \<Longrightarrow> fullBlockSize h = 2097664"
  by (simp add: fullBlockSize_def default_full)

lemma vhd_image_length: "length (db_data b) \<le> DEFAULT_BLOCK_SIZE \<Longrightarrow> length (vhd_image b) = 2097664"
  by (simp add: vhd_image_def full_data_length FULL_BLOCK_BITMAP_def) (simp add: SECTOR_SIZE_def DEFAULT_BLOCK_SIZE_def)

lemma write_disk_block_eq:
  assumes "vd_header d = Some h" "blockSize h = DEFAULT_BLOCK_SIZE" "\<not> isCompressedBlock b"
    and "length (db_data b) \<le> DEFAULT_BLOCK_SIZE"
  shows "write_disk_block ct b (False, d) =
    res_bind (vd_writeEntireBlock (db_index b) (vhd_image b) d) (\<lambda>d. Inr (length (db_data b) < DEFAULT_BLOCK_SIZE, d))"
  using assms vhd_image_length [OF assms(4)] default_bitmap [OF assms(2)] default_fullBlockSize [OF assms(2)]
  by (simp add: write_disk_block_def isCompressedBlock_def vd_writeBlockData_def vd_writeEntireBlock_def
      vd_theHeader_def full_data_length vhd_image_def FULL_BLOCK_BITMAP_def res_bind_assoc)

lemma write_disk_blocks:
  assumes "dir_inv d" "vd_header d = Some h" "blockSize h = DEFAULT_BLOCK_SIZE"
    and "\<forall>b \<in> set bs. \<not> isCompressedBlock b \<and> length (db_data b) \<le> DEFAULT_BLOCK_SIZE \<and> db_index b < maxTableEntries h"
    and "\<forall>b \<in> set (butlast bs). length (db_data b) = DEFAULT_BLOCK_SIZE"
  shows "\<exists>t d'. res_fold (write_disk_block ct) bs (False, d) = Inr (t, d') \<and> dir_inv d' \<and>
    dir_blocks d' = dir_blocks d ++ map_of (rev (map (\<lambda>b. (db_index b, vhd_image b)) bs)) \<and>
    vd_path d' = vd_path d \<and> vd_flags d' = vd_flags d \<and> vd_compressor d' = vd_compressor d \<and>
    vd_header d' = vd_header d \<and> vd_footer d' = vd_footer d \<and>
    map_option length (vd_blockTable d') = map_option length (vd_blockTable d)"
  using assms
proof (induction bs arbitrary: d)
  case (Cons b bs)
  have h: "dir_header d = h" using Cons.prems(2) by (simp add: dir_header_def)
  have b: "\<not> isCompressedBlock b" "length (db_data b) \<le> DEFAULT_BLOCK_SIZE" "db_index b < maxTableEntries h"
    using Cons.prems(4) by simp_all
  obtain d1 where d1: "vd_writeEntireBlock (db_index b) (vhd_image b) d = Inr d1" "dir_inv d1"
    "dir_blocks d1 = (dir_blocks d)(db_index b \<mapsto> vhd_image b)"
    using dir_write [OF Cons.prems(1), of "db_index b" "vhd_image b"] b(3)
      vhd_image_length [OF b(2)] default_fullBlockSize [OF Cons.prems(3)] by (auto simp: h)
  note frame = vd_writeEntireBlock_frame [OF d1(1)]
  have step: "write_disk_block ct b (False, d) = Inr (length (db_data b) < DEFAULT_BLOCK_SIZE, d1)"
    using write_disk_block_eq [OF Cons.prems(2,3) b(1,2)] d1(1) by simp
  have app: "dir_blocks d ++ map_of (rev (map (\<lambda>b. (db_index b, vhd_image b)) (b # bs))) =
      dir_blocks d1 ++ map_of (rev (map (\<lambda>b. (db_index b, vhd_image b)) bs))"
    by (simp add: d1(3) map_add_def fun_eq_iff split: option.split)
  show ?case
  proof (cases "bs = []")
    case True
    then show ?thesis using step d1(2) frame unfolding app by simp
  next
    case False
    then have "length (db_data b) = DEFAULT_BLOCK_SIZE" using Cons.prems(5) by simp
    moreover have "\<forall>b \<in> set (butlast bs). length (db_data b) = DEFAULT_BLOCK_SIZE" using Cons.prems(5) False by simp
    ultimately show ?thesis
      using Cons.IH [of d1] d1(2) frame Cons.prems(2,3,4) step unfolding app by auto
  qed
qed auto

section \<open>Writing the chunks around them\<close>

lemma writeChunk_ok:
  assumes "lossless (vd_compressor d)" "vd_flags d \<in> {''r+'', ''w''}" "length b < 2 ^ 32"
  shows "\<exists>z. writeChunk part b d = Inr (d\<lparr>vd_files := (vd_files d)((vd_path d, part) \<mapsto> z)\<rparr>) \<and>
    decompress (vd_compressor d) z = Inr b"
proof -
  obtain z where "compress (vd_compressor d) b = Inr z" "decompress (vd_compressor d) z = Inr b"
    using assms(1,3) unfolding lossless_def by blast
  then show ?thesis using assms(2) by (intro exI [of _ z]) (auto simp: writeChunk_def outputChunk_def)
qed

lemma COMPRESSORS_id: "COMPRESSORS zl al i = Some c \<Longrightarrow> comp_id c = i"
  by (auto simp: COMPRESSORS_def NULL_COMPRESSOR_def zeros_compressor_def split: if_splits)

lemma getCompressor_again:
  assumes "getCompressor zl al ct = Inr c"
  shows "getCompressor zl al (Some (comp_id c)) = Inr c"
proof (cases ct)
  case None
  then have "c = NULL_COMPRESSOR" using assms by (simp add: getCompressor_def)
  moreover have "COMPRESSORS zl al (comp_id NULL_COMPRESSOR) = Some NULL_COMPRESSOR"
    by (simp add: COMPRESSORS_def NULL_COMPRESSOR_def)
  ultimately show ?thesis by (simp add: getCompressor_def)
next
  case (Some i)
  then have "COMPRESSORS zl al i = Some c" using assms by (simp add: getCompressor_def split: option.splits)
  then show ?thesis using COMPRESSORS_id by (simp add: getCompressor_def)
qed

text \<open>A directory on the handler, as a new object of the class finds it.\<close>

definition dir_at :: "vhd_dir \<Rightarrow> string \<Rightarrow> consumer_remote \<Rightarrow> vhd_dir" where
  "dir_at blank path r = blank\<lparr>vd_files := cr_files r, vd_filters := cr_filters r, vd_path := path\<rparr>"

definition vd_open :: "struct_fu \<Rightarrow> zlib \<Rightarrow> (nat \<Rightarrow> buffer) \<Rightarrow> vhd_dir \<Rightarrow> js_error + vhd_dir" where
  "vd_open fu zl al d = res_bind (vd_readHeaderAndFooter fu zl al d) vd_readBlockAllocationTable"

context struct_fu_codec
begin

lemma closing_chunks:
  assumes inv: "dir_inv d" and h: "vd_header d = Some h" and t: "vd_blockTable d = Some t" "t \<noteq> []" "length t < 2 ^ 32"
    and wf: "wf_footer (vd_footer d)" "wf_header h"
    and cmp: "getCompressor zl al ct = Inr (vd_compressor d)"
    and un: "unpackFooter fu (fuFooter_pack fu (with_checksum fu (vd_footer d))) = Inr (with_checksum fu (vd_footer d))"
      "unpackHeader fu (fuHeader_pack fu (header_with_checksum fu h)) (Some (with_checksum fu (vd_footer d))) =
        Inr (header_with_checksum fu h)"
  shows "\<exists>d1 d2 d3. vd_writeFooter fu d = Inr d1 \<and> vd_writeHeader fu d1 = Inr d2 \<and>
    vd_writeBlockAllocationTable [] d2 = Inr d3 \<and> vd_header d3 = Some (header_with_checksum fu h) \<and>
    vd_footer d3 = with_checksum fu (vd_footer d) \<and> vd_blockTable d3 = Some t \<and>
    (\<forall>blank al'. \<exists>d4. vd_open fu zl al (dir_at blank (vd_path d) \<lparr>cr_files = vd_files d3, cr_filters = vd_filters d3, cr_aliases = al'\<rparr>) = Inr d4 \<and>
       vd_footer d4 = with_checksum fu (vd_footer d) \<and> dir_blocks d4 = dir_blocks d)"
proof -
  let ?f = "with_checksum fu (vd_footer d)" and ?h = "header_with_checksum fu h"
  let ?c = "vd_compressor d" and ?p = "vd_path d"
  have lc: "lossless ?c" and fl: "vd_flags d \<in> {''r+'', ''w''}" using inv by (auto simp: dir_inv_def)
  have uid: "length (uuid (vd_footer d)) = 16" "length (parentUuid h) = 16" "length (parentLocatorEntry h) = PARENT_LOCATOR_ENTRIES"
    using wf by (simp_all add: wf_footer_def wf_header_def)
  have len: "length (fuFooter_pack fu ?f) < 2 ^ 32" "length (fuHeader_pack fu ?h) < 2 ^ 32"
    using uid by (simp_all add: fuFooter_size fuHeader_size with_checksum_def header_with_checksum_def) (simp_all add: vhd_sizes)
  define e0 where "e0 = d\<lparr>vd_footer := ?f\<rparr>"
  obtain zf where zf: "writeChunk FooterChunk (fuFooter_pack fu ?f) e0 = Inr (e0\<lparr>vd_files := (vd_files d)((?p, FooterChunk) \<mapsto> zf)\<rparr>)"
    "decompress ?c zf = Inr (fuFooter_pack fu ?f)"
    using writeChunk_ok [of e0 "fuFooter_pack fu ?f" FooterChunk] lc fl len by (auto simp: e0_def)
  define d1 where "d1 = e0\<lparr>vd_files := (vd_files d)((?p, FooterChunk) \<mapsto> zf)\<rparr>"
  have w1: "vd_writeFooter fu d = Inr d1"
    using zf(1) snd_checksum_footer [OF uid(1)]
    by (simp add: vd_writeFooter_def case_prod_beta e0_def d1_def with_checksum_def)
  define e1 where "e1 = d1\<lparr>vd_header := Some ?h\<rparr>"
  have e1: "vd_compressor e1 = ?c" "vd_path e1 = ?p" "vd_flags e1 = vd_flags d" "vd_files e1 = vd_files d1"
    by (simp_all add: e1_def d1_def e0_def)
  obtain zh where zh: "writeChunk HeaderChunk (fuHeader_pack fu ?h) e1 = Inr (e1\<lparr>vd_files := (vd_files d1)((?p, HeaderChunk) \<mapsto> zh)\<rparr>)"
    "decompress ?c zh = Inr (fuHeader_pack fu ?h)"
    using writeChunk_ok [of e1 "fuHeader_pack fu ?h" HeaderChunk] lc fl len unfolding e1 by metis
  define d2 where "d2 = writeChunkFilters (e1\<lparr>vd_files := (vd_files d1)((?p, HeaderChunk) \<mapsto> zh)\<rparr>)"
  have "vd_header d1 = Some h" using h by (simp add: d1_def e0_def)
  then have w2: "vd_writeHeader fu d1 = Inr d2"
    using zh(1) snd_checksum_header [OF uid(2)]
    by (simp add: vd_writeHeader_def vd_theHeader_def case_prod_beta e1_def d2_def header_with_checksum_def)
  have d2: "vd_compressor d2 = ?c" "vd_path d2 = ?p" "vd_flags d2 = vd_flags d" "vd_blockTable d2 = Some t"
    "vd_header d2 = Some ?h" "vd_footer d2 = ?f" "vd_filters d2 ?p = Some [comp_id ?c]"
    "vd_files d2 = (vd_files d)((?p, FooterChunk) \<mapsto> zf, (?p, HeaderChunk) \<mapsto> zh)"
    using t(1) by (simp_all add: d2_def writeChunkFilters_def e1_def d1_def e0_def)
  obtain zt where zt: "writeChunk BatChunk t d2 = Inr (d2\<lparr>vd_files := (vd_files d2)((?p, BatChunk) \<mapsto> zt)\<rparr>)"
    "decompress ?c zt = Inr t"
    using writeChunk_ok [of d2 t BatChunk] lc fl t(3) unfolding d2(1-3) by metis
  define d3 where "d3 = d2\<lparr>vd_files := (vd_files d2)((?p, BatChunk) \<mapsto> zt)\<rparr>"
  have w3: "vd_writeBlockAllocationTable [] d2 = Inr d3"
    using zt(1) t(2) d2(4) by (simp add: vd_writeBlockAllocationTable_def vd_table_def d3_def)
  have d3: "vd_header d3 = Some ?h" "vd_footer d3 = ?f" "vd_blockTable d3 = Some t" "vd_filters d3 ?p = Some [comp_id ?c]"
    using d2 by (simp_all add: d3_def)
  have chunks: "vd_files d3 (?p, FooterChunk) = Some zf" "vd_files d3 (?p, HeaderChunk) = Some zh"
    "vd_files d3 (?p, BatChunk) = Some zt" "vd_files d3 (?p, getBlockPath i) = vd_files d (?p, getBlockPath i)" for i
    by (simp_all add: d3_def d2(8) getBlockPath_def Let_def)
  have "\<exists>d4. vd_open fu zl al (dir_at blank ?p \<lparr>cr_files = vd_files d3, cr_filters = vd_filters d3, cr_aliases = al'\<rparr>) = Inr d4 \<and>
       vd_footer d4 = ?f \<and> dir_blocks d4 = dir_blocks d" for blank al'
  proof -
    define b0 where "b0 = (dir_at blank ?p \<lparr>cr_files = vd_files d3, cr_filters = vd_filters d3, cr_aliases = al'\<rparr>)\<lparr>vd_compressor := ?c\<rparr>"
    define b4 where "b4 = (vd_set_header ?h (b0\<lparr>vd_footer := ?f\<rparr>))\<lparr>vd_blockTable := Some t\<rparr>"
    have filters: "readChunkFilters zl al (dir_at blank ?p \<lparr>cr_files = vd_files d3, cr_filters = vd_filters d3, cr_aliases = al'\<rparr>) = Inr b0"
      using d3(4) getCompressor_again [OF cmp] by (simp add: readChunkFilters_def dir_at_def b0_def)
    have reads: "readChunk b0 HeaderChunk = Inr (fuHeader_pack fu ?h)" "readChunk b0 FooterChunk = Inr (fuFooter_pack fu ?f)"
      using chunks zf(2) zh(2) by (simp_all add: readChunk_def b0_def dir_at_def)
    have rb: "readChunk (vd_set_header ?h (b0\<lparr>vd_footer := ?f\<rparr>)) BatChunk = Inr t"
      using chunks zt(2) by (simp add: readChunk_def b0_def dir_at_def vd_set_header_def)
    have "vd_open fu zl al (dir_at blank ?p \<lparr>cr_files = vd_files d3, cr_filters = vd_filters d3, cr_aliases = al'\<rparr>) = Inr b4"
      using filters reads rb un
      by (simp add: vd_open_def vd_readHeaderAndFooter_def vd_readBlockAllocationTable_def b4_def)
    moreover have "vd_footer b4 = ?f" by (simp add: b4_def vd_set_header_def)
    moreover have "readChunk b4 (getBlockPath i) = readChunk d (getBlockPath i)" for i
      using chunks(4) [of i] by (simp add: readChunk_def b4_def b0_def dir_at_def vd_set_header_def split: option.split)
    then have "dir_blocks b4 = dir_blocks d"
      by (simp add: dir_blocks_def fun_eq_iff t(1)) (simp add: b4_def)
    ultimately show ?thesis by blast
  qed
  then show ?thesis using w1 w2 w3 d3 by blast
qed

end

section \<open>The size of the directory as a stream\<close>

lemma res_fold_sizes:
  assumes "\<And>i. f i = Inr (P i)"
  shows "res_fold (\<lambda>i n. res_bind (f i) (\<lambda>c. Inr (if c then n + k else n))) xs a =
    Inr (a + length (filter P xs) * k)"
proof (induction xs arbitrary: a)
  case (Cons x xs)
  then show ?case using assms [of x] by (cases "P x") simp_all
qed simp

lemma fold_spaces:
  "(\<And>i. i < n \<Longrightarrow> f i = (0 :: nat)) \<Longrightarrow> fold (\<lambda>i a. a + f i * SECTOR_SIZE) [0..<n] a = a"
  by (induction n arbitrary: a) simp_all

lemma streamSize_dir:
  assumes "\<And>i. vd_containsBlock d i = Inr (i \<in> S)" "S \<subseteq> {..<maxTableEntries h}"
    and "\<forall>i < PARENT_LOCATOR_ENTRIES. platformDataSpace (parentLocatorEntry h ! i) = 0"
    and "blockSize h = DEFAULT_BLOCK_SIZE"
  shows "streamSize (dir_view h d) =
    Inr (FOOTER_SIZE + HEADER_SIZE + computeBatSize (maxTableEntries h) + card S * 2097664 + FOOTER_SIZE)"
proof -
  let ?start = "FOOTER_SIZE + HEADER_SIZE + computeBatSize (maxTableEntries h) + FOOTER_SIZE"
  have "length (filter (\<lambda>i. i \<in> S) [0..<maxTableEntries h]) = card (set (filter (\<lambda>i. i \<in> S) [0..<maxTableEntries h]))"
    by (rule distinct_card [symmetric]) simp
  also have "set (filter (\<lambda>i. i \<in> S) [0..<maxTableEntries h]) = S" using assms(2) by auto
  finally have n: "length (filter (\<lambda>i. i \<in> S) [0..<maxTableEntries h]) = card S" .
  have "fold (\<lambda>i a. a + platformDataSpace (parentLocatorEntry h ! i) * SECTOR_SIZE) [0..<PARENT_LOCATOR_ENTRIES] ?start = ?start"
    by (rule fold_spaces) (use assms(3) in blast)
  moreover have "res_fold (\<lambda>i n. res_bind (vd_containsBlock d i) (\<lambda>c. Inr (if c then n + fullBlockSize h else n)))
      [0..<maxTableEntries h] ?start = Inr (?start + card S * 2097664)"
    using res_fold_sizes [of "vd_containsBlock d" "\<lambda>i. i \<in> S" "fullBlockSize h"] assms(1) n
      default_fullBlockSize [OF assms(4)] by simp
  moreover have "(?start + card S * 2097664) mod SECTOR_SIZE = 0"
  proof -
    have "SECTOR_SIZE dvd ?start + card S * 2097664"
      using computeBatSize_sectors [of "maxTableEntries h"] by (intro dvd_add) (simp_all add: vhd_sizes)
    then show ?thesis by simp
  qed
  ultimately show ?thesis
    by (simp add: streamSize_def dir_view_def Let_def batSize_def)
qed

section \<open>The whole consumer\<close>

lemma target_ok_truncate [simp]: "target_ok (vhd_target.truncate t) = target_ok t"
  by (simp add: target_ok_def vhd_target.truncate_def)

lemma disk_content_dom:
  assumes "disk_ok source"
  shows "dom (disk_content source) = set (getBlockIndexes source)"
    "card (dom (disk_content source)) = length (getBlockIndexes source)"
proof -
  have "dom (disk_content source) = set (map db_index (fst (diskBlocks source)))"
    by (simp add: disk_content_def dom_map_of_conv_image_fst image_image)
  also have "map db_index (fst (diskBlocks source)) = getBlockIndexes source"
    using assms by (simp add: disk_ok_def Let_def)
  finally show d: "dom (disk_content source) = set (getBlockIndexes source)" .
  show "card (dom (disk_content source)) = length (getBlockIndexes source)"
    unfolding d using assms by (simp add: disk_ok_def Let_def distinct_card)
qed

context struct_fu_codec
begin

lemma consumer_write_ok:
  assumes ok: "disk_ok source" and fits: "disk_fits source" and target: "target_ok target"
    and env: "length u = 16" "now < 2 ^ 32"
    and cmp: "getCompressor zl al (t_compression target) = Inr c" "lossless c"
    and flags: "t_flags target \<in> {None, Some ''w'', Some ''r+''}"
    and named: "is_suffix ''.alias.vhd'' (t_path target)"
      "createAlias (t_path target) (data_path (t_path target)) (cr_aliases r) = Inr aliases"
    and valid: "\<And>r. t_validator target (t_path target) r = Inr ()"
  shows "\<exists>r' f. consumer_write fu zl al blank u now target source r =
      (Inr (FOOTER_SIZE + HEADER_SIZE + computeBatSize (nbTotalBlocks source) +
        length (getBlockIndexes source) * 2097664 + FOOTER_SIZE), r') \<and> cr_aliases r' = aliases \<and>
    (\<forall>blank'. \<exists>d. vd_open fu zl al (dir_at blank' (data_path (t_path target)) r') = Inr d \<and>
      dir_blocks d = disk_content source \<and> vd_footer d = f) \<and>
    currentSize f = getVirtualSize source \<and> uuid f = (case t_uuid target of None \<Rightarrow> u | Some v \<Rightarrow> v)"
proof -
  let ?t = "vhd_target.truncate target" and ?n = "nbTotalBlocks source" and ?p = "data_path (t_path target)"
  let ?bs = "fst (diskBlocks source)" and ?ids = "getBlockIndexes source"
  obtain f0 h0 f h where hd: "unpackFooter fu (computeVhdFooter fu u now source) = Inr f0"
    "unpackHeader fu (computeVhdHeader fu source) None = Inr h0"
    and wf: "wf_footer (target_footer ?t f0)" "wf_header (target_header ?t h0)"
    and fh: "f = with_checksum fu (target_footer ?t f0)" "h = header_with_checksum fu (target_header ?t h0)"
    and un: "unpackFooter fu (fuFooter_pack fu f) = Inr f" "unpackHeader fu (fuHeader_pack fu h) (Some f) = Inr h"
    and f: "currentSize f = getVirtualSize source" "uuid f = (case t_uuid ?t of None \<Rightarrow> u | Some v \<Rightarrow> v)"
    and h: "maxTableEntries h = ?n" "blockSize h = DEFAULT_BLOCK_SIZE" "locator_index h = []"
    using target_headers [OF fits _ env, of ?t] target by auto
  let ?h1 = "target_header ?t h0"
  have h1: "maxTableEntries ?h1 = ?n" "blockSize ?h1 = DEFAULT_BLOCK_SIZE" "parentLocatorEntry ?h1 = parentLocatorEntry h"
    using h fh(2) by (simp_all add: header_with_checksum_def)
  note nb = nbTotalBlocks_bounds [OF fits]
  have ids: "distinct ?ids" "\<forall>i \<in> set ?ids. i < ?n" and mids: "map db_index ?bs = ?ids" "snd (diskBlocks source) = Inr ()"
    and blocks: "\<forall>b \<in> set ?bs. \<not> isCompressedBlock b \<and> length (db_data b) \<le> DEFAULT_BLOCK_SIZE"
      "\<forall>b \<in> set (butlast ?bs). length (db_data b) = DEFAULT_BLOCK_SIZE"
    using ok by (simp_all add: disk_ok_def Let_def)
  define v0 where "v0 = vd_set_header ?h1 (blank\<lparr>vd_files := cr_files r, vd_filters := cr_filters r, vd_path := ?p,
           vd_flags := (case t_flags target of None \<Rightarrow> ''w'' | Some flags \<Rightarrow> flags), vd_compressor := c,
           vd_header := None, vd_blockTable := None, vd_footer := target_footer ?t f0\<rparr>)"
  have v0: "vd_header v0 = Some ?h1" "vd_footer v0 = target_footer ?t f0" "vd_compressor v0 = c" "vd_path v0 = ?p"
    "vd_blockTable v0 = Some (replicate ?n 0)" "vd_flags v0 \<in> {''r+'', ''w''}"
    using flags h1 by (auto simp: v0_def vd_set_header_def)
  have zeros: "\<not> bitmap_test (replicate ?n 0) i" for i by (simp add: bitmap_test_bit)
  have inv0: "dir_inv v0"
    unfolding dir_inv_def using v0 zeros cmp(2) default_fullBlockSize [OF h1(2)] h1(1)
    by (intro conjI exI [of _ ?h1] exI [of _ "replicate ?n 0"]) simp_all
  have empty: "dir_blocks v0 = Map.empty" using zeros by (simp add: dir_blocks_def v0 fun_eq_iff)
  have inside: "\<forall>b \<in> set ?bs. \<not> isCompressedBlock b \<and> length (db_data b) \<le> DEFAULT_BLOCK_SIZE \<and> db_index b < maxTableEntries ?h1"
    using blocks(1) ids(2) mids(1) h1(1) by (metis imageI list.set_map)
  obtain tr v1 where v1: "res_fold (write_disk_block (t_compression target)) ?bs (False, v0) = Inr (tr, v1)" "dir_inv v1"
    "dir_blocks v1 = dir_blocks v0 ++ map_of (rev (map (\<lambda>b. (db_index b, vhd_image b)) ?bs))"
    "vd_path v1 = ?p" "vd_flags v1 = vd_flags v0" "vd_compressor v1 = c" "vd_header v1 = Some ?h1" "vd_footer v1 = target_footer ?t f0"
    "map_option length (vd_blockTable v1) = map_option length (vd_blockTable v0)"
    using write_disk_blocks [OF inv0 v0(1) h1(2) inside blocks(2), of "t_compression target"] v0 by auto
  have "distinct (map fst (map (\<lambda>b. (db_index b, vhd_image b)) ?bs))" using ids(1) mids(1) by (simp add: comp_def)
  then have "map_of (rev (map (\<lambda>b. (db_index b, vhd_image b)) ?bs)) = map_of (map (\<lambda>b. (db_index b, vhd_image b)) ?bs)"
    by (subst map_of_inject_set) (simp_all only: rev_map [symmetric] distinct_rev set_rev)
  then have blk: "dir_blocks v1 = disk_content source" by (simp add: v1(3) empty disk_content_def)
  obtain t where t: "vd_blockTable v1 = Some t" "maxTableEntries ?h1 \<le> 8 * length t"
    using v1(2,7) by (auto simp: dir_inv_def)
  have "t \<noteq> []" using t(2) nb(1) h1(1) by auto
  moreover have tl: "length t < 2 ^ 32" using v1(9) v0(5) t(1) nb(2) by simp
  ultimately obtain d1 d2 d3 where d: "vd_writeFooter fu v1 = Inr d1" "vd_writeHeader fu d1 = Inr d2"
    "vd_writeBlockAllocationTable [] d2 = Inr d3" "vd_header d3 = Some h" "vd_footer d3 = f" "vd_blockTable d3 = Some t"
    and reopen: "\<forall>blank al'. \<exists>d4. vd_open fu zl al (dir_at blank ?p \<lparr>cr_files = vd_files d3, cr_filters = vd_filters d3, cr_aliases = al'\<rparr>) = Inr d4 \<and>
       vd_footer d4 = f \<and> dir_blocks d4 = dir_blocks v1"
    using closing_chunks [OF v1(2,7) t(1), of zl al "t_compression target"] wf cmp(1) un v1(4,6,8) fh tl by auto
  define r' where "r' = \<lparr>cr_files = vd_files d3, cr_filters = vd_filters d3, cr_aliases = aliases\<rparr>"
  have run: "write_directory fu zl al blank u now target source r = Inr (d3, r')"
    using cmp(1) hd v1(1) mids(2) d(1-3) named(2) valid
    by (simp add: write_directory_def Let_def v0_def r'_def)
  have con: "vd_containsBlock d3 i = Inr (i \<in> dom (disk_content source))" for i
    using dir_contains [OF v1(2), of i] d(6) t(1) blk by (auto simp: vd_containsBlock_def vd_table_def)
  have sp: "\<forall>i < PARENT_LOCATOR_ENTRIES. platformDataSpace (parentLocatorEntry h ! i) = 0"
    using h(3) wf(2) h1(3) by (auto simp: locator_index_def filter_empty_conv wf_header_def)
  have "streamSize (dir_view h d3) = Inr (FOOTER_SIZE + HEADER_SIZE + computeBatSize ?n +
        length ?ids * 2097664 + FOOTER_SIZE)"
    using streamSize_dir [of d3 "dom (disk_content source)" h, OF con _ sp h(2)] ids(2) h(1) disk_content_dom [OF ok] by auto
  then have "consumer_write fu zl al blank u now target source r =
      (Inr (FOOTER_SIZE + HEADER_SIZE + computeBatSize ?n + length ?ids * 2097664 + FOOTER_SIZE), r')"
    using run named(1) d(4) by (simp add: consumer_write_def)
  moreover have "\<exists>d. vd_open fu zl al (dir_at blank' ?p r') = Inr d \<and> dir_blocks d = disk_content source \<and> vd_footer d = f" for blank'
    using reopen blk by (auto simp: r'_def)
  moreover have "uuid f = (case t_uuid target of None \<Rightarrow> u | Some v \<Rightarrow> v)" using f(2) by (simp add: vhd_target.truncate_def)
  moreover have "cr_aliases r' = aliases" by (simp add: r'_def)
  ultimately show ?thesis using f(1) by blast
qed

end

end
