(* ===== verification/Vhd_Sparse_Props.thy ===== *)
theory Vhd_Sparse_Props
  imports Vhd_Consumer_Props
begin

text \<open>
  \<open>createReadableSparseStream\<close>: the blocks are placed in the order of their last fragments, each one is
  sent when its last fragment came, so the stream goes forward; the parser finds every fragment at its
  address.
\<close>

section \<open>The last fragment of each block\<close>

abbreviation block_of :: "nat \<Rightarrow> nat" where
  "block_of a \<equiv> a div DEFAULT_BLOCK_SIZE"

fun lasts :: "nat list \<Rightarrow> (nat \<times> nat) list" where
  "lasts [] = []"
| "lasts (a # as) = (if block_of a \<in> block_of ` set as then lasts as else (block_of a, a) # lasts as)"

lemma lasts_keys: "fst ` set (lasts as) = block_of ` set as"
  by (induction as) auto

lemma lasts_distinct: "distinct (map fst (lasts as))"
proof (induction as)
  case (Cons a as)
  then show ?case using lasts_keys [of as] by auto
qed simp

lemma lasts_of:
  "distinct (a # as) \<Longrightarrow> map_of (lasts (a # as)) (block_of a) = Some a \<longleftrightarrow> block_of a \<notin> block_of ` set as"
proof -
  assume d: "distinct (a # as)"
  have vals: "snd ` set (lasts as) \<subseteq> set as" by (induction as) auto
  have "map_of (lasts as) (block_of a) \<noteq> Some a" using d vals by (auto dest!: map_of_SomeD)
  then show ?thesis by simp
qed

lemma lastFragments_eq:
  assumes "\<forall>a \<in> set A. a * fs mod SECTOR_SIZE = 0"
  shows "lastFragments A fs = Inr (rev (lasts (map (\<lambda>a. a * fs) A)))"
  using assms
proof (induction A)
  case (Cons a A)
  let ?l = "lasts (map (\<lambda>a. a * fs) A)"
  have "map_of (rev ?l) (block_of (a * fs)) = None \<longleftrightarrow> block_of (a * fs) \<notin> block_of ` set (map (\<lambda>a. a * fs) A)"
    using lasts_keys [of "map (\<lambda>a. a * fs) A"] by (simp add: map_of_eq_None_iff)
  with Cons show ?case
    by (simp add: lastFragments_def res_fold_append)
qed (simp add: lastFragments_def)

lemma createBAT_fill:
  assumes "\<forall>k \<in> fst ` set L. 4 * k + 4 \<le> length bat \<and> bat_entry bat k = BLOCK_UNUSED" "distinct (map fst L)"
    and "off + length L * step < BLOCK_UNUSED"
  shows "\<exists>bat'. res_fold (\<lambda>(vhdTableIndex, _) (currentVhdPositionSector, bat).
           res_bind (readUInt32BE bat (vhdTableIndex * 4)) (\<lambda>e.
           if e = BLOCK_UNUSED then
             res_bind (writeUInt32BE bat currentVhdPositionSector (vhdTableIndex * 4)) (\<lambda>bat.
             Inr (currentVhdPositionSector + step, bat))
           else Inr (currentVhdPositionSector, bat))) L (off, bat) = Inr (off + length L * step, bat') \<and>
    length bat' = length bat \<and> (\<forall>j < length L. bat_entry bat' (fst (L ! j)) = off + j * step) \<and>
    (\<forall>i. 4 * i + 4 \<le> length bat \<longrightarrow> i \<notin> fst ` set L \<longrightarrow> bat_entry bat' i = bat_entry bat i)"
  using assms
proof (induction L arbitrary: bat off)
  case (Cons x L)
  obtain k a where x: "x = (k, a)" by fastforce
  have k: "4 * k + 4 \<le> length bat" "bat_entry bat k = BLOCK_UNUSED" using Cons.prems(1) by (simp_all add: x)
  have "off < 2 ^ 32" using Cons.prems(3) by (simp add: BLOCK_UNUSED_def)
  from writeUInt32BE_entry [OF k(1) this] obtain b1 where
    w: "writeUInt32BE bat off (k * 4) = Inr b1" "length b1 = length bat"
      "\<forall>i. 4 * i + 4 \<le> length bat \<longrightarrow> bat_entry b1 i = (if i = k then off else bat_entry bat i)" by blast
  have rd: "readUInt32BE bat (k * 4) = Inr BLOCK_UNUSED"
    using readUInt32BE_bat_entry [OF k(1)] k(2) by (simp add: mult.commute)
  have d: "distinct (map fst L)" "k \<notin> fst ` set L" using Cons.prems(2) by (auto simp: x)
  have each: "\<forall>i \<in> fst ` set L. 4 * i + 4 \<le> length b1 \<and> bat_entry b1 i = BLOCK_UNUSED"
  proof
    fix i assume i: "i \<in> fst ` set L"
    then have "4 * i + 4 \<le> length bat \<and> bat_entry bat i = BLOCK_UNUSED" using Cons.prems(1) by auto
    moreover have "i \<noteq> k" using i d(2) by blast
    ultimately show "4 * i + 4 \<le> length b1 \<and> bat_entry b1 i = BLOCK_UNUSED" using w(2,3) by simp
  qed
  have sum: "off + step + length L * step < BLOCK_UNUSED" using Cons.prems(3) by (simp add: algebra_simps)
  from Cons.IH [OF each d(1) sum] obtain b2 where
    b2: "res_fold (\<lambda>(vhdTableIndex, _) (currentVhdPositionSector, bat).
           res_bind (readUInt32BE bat (vhdTableIndex * 4)) (\<lambda>e.
           if e = BLOCK_UNUSED then
             res_bind (writeUInt32BE bat currentVhdPositionSector (vhdTableIndex * 4)) (\<lambda>bat.
             Inr (currentVhdPositionSector + step, bat))
           else Inr (currentVhdPositionSector, bat))) L (off + step, b1) = Inr (off + step + length L * step, b2)"
      "length b2 = length b1" "\<forall>j < length L. bat_entry b2 (fst (L ! j)) = off + step + j * step"
      "\<forall>i. 4 * i + 4 \<le> length b1 \<longrightarrow> i \<notin> fst ` set L \<longrightarrow> bat_entry b2 i = bat_entry b1 i" by blast
  have "bat_entry b2 (fst ((x # L) ! j)) = off + j * step" if "j < length (x # L)" for j
    using that b2(3,4) w(2,3) k(1) d(2) by (cases j) (simp_all add: x algebra_simps)
  then show ?case
    using w b2 rd by (intro exI [of _ b2]) (simp add: x algebra_simps)
qed simp

section \<open>Assembling the blocks\<close>

text \<open>A block from what is waiting for it and the fragments to come.\<close>

definition assemble :: "nat \<Rightarrow> nat \<Rightarrow> (nat \<Rightarrow> buffer option) \<Rightarrow> fragment list \<Rightarrow> nat \<Rightarrow> buffer" where
  "assemble ratio bb m frs k =
     fold (insertFragmentInBlock ratio bb) (filter (\<lambda>f. block_of (logicalAddressBytes f) = k) frs)
       (case m k of None \<Rightarrow> replicate (bb + DEFAULT_BLOCK_SIZE) 0 | Some b \<Rightarrow> b)"

lemma length_bitmap_fold: "length (fold (\<lambda>i b. bitmap_set b (g i)) xs b) = length b"
  by (induction xs arbitrary: b) simp_all

lemma insertFragment_length: "length (insertFragmentInBlock ratio bb f b) = length b"
  by (simp add: insertFragmentInBlock_def length_bitmap_fold Let_def)

lemma fold_insert_length: "length (fold (insertFragmentInBlock ratio bb) frs b) = length b"
  by (induction frs arbitrary: b) (simp_all add: insertFragment_length)

lemma generateBlocks_eq:
  assumes "distinct (map logicalAddressBytes frs)"
    and "\<And>f. f \<in> set frs \<Longrightarrow> map_of M (block_of (logicalAddressBytes f)) = Some (logicalAddressBytes f) \<longleftrightarrow>
      map_of (lasts (map logicalAddressBytes frs)) (block_of (logicalAddressBytes f)) = Some (logicalAddressBytes f)"
    and "\<And>j. j < length (lasts (map logicalAddressBytes frs)) \<Longrightarrow>
      readUInt32BE bat (fst (lasts (map logicalAddressBytes frs) ! j) * 4) = Inr (off + j * step)"
    and "off + length (lasts (map logicalAddressBytes frs)) * step < BLOCK_UNUSED"
    and "\<And>k b. m k = Some b \<Longrightarrow> length b = bb + DEFAULT_BLOCK_SIZE" and "step * SECTOR_SIZE = bb + DEFAULT_BLOCK_SIZE"
  shows "generateBlocks ratio bb bat M frs end m (off * SECTOR_SIZE) =
    (map (\<lambda>(k, _). assemble ratio bb m frs k) (lasts (map logicalAddressBytes frs)),
     res_bind end (\<lambda>_. Inr ((off + length (lasts (map logicalAddressBytes frs)) * step) * SECTOR_SIZE)))"
  using assms
proof (induction frs arbitrary: m off)
  case Nil
  then show ?case by (simp add: gen_await_def)
next
  case (Cons f frs)
  let ?a = "logicalAddressBytes f" and ?as = "map logicalAddressBytes frs"
  let ?k = "block_of ?a"
  let ?cur = "insertFragmentInBlock ratio bb f (case m ?k of None \<Rightarrow> replicate (bb + DEFAULT_BLOCK_SIZE) 0 | Some b \<Rightarrow> b)"
  let ?m1 = "m(?k \<mapsto> ?cur)"
  have curlen: "length ?cur = bb + DEFAULT_BLOCK_SIZE"
    using Cons.prems(5) by (simp add: insertFragment_length split: option.split)
  have pos: "0 < DEFAULT_BLOCK_SIZE" by (simp add: DEFAULT_BLOCK_SIZE_def)
  have d: "distinct (?a # ?as)" "distinct ?as" using Cons.prems(1) by simp_all
  have keep: "map_of M (block_of (logicalAddressBytes g)) = Some (logicalAddressBytes g) \<longleftrightarrow>
      map_of (lasts ?as) (block_of (logicalAddressBytes g)) = Some (logicalAddressBytes g)" if "g \<in> set frs" for g
  proof -
    have "logicalAddressBytes g \<in> logicalAddressBytes ` set frs" using that by simp
    then have "logicalAddressBytes g \<noteq> ?a" using d(1) by (metis distinct.simps(2) list.set_map)
    then have "map_of (lasts (?a # ?as)) (block_of (logicalAddressBytes g)) = Some (logicalAddressBytes g) \<longleftrightarrow>
        map_of (lasts ?as) (block_of (logicalAddressBytes g)) = Some (logicalAddressBytes g)"
    proof (cases "?k \<in> block_of ` set ?as")
      case False
      moreover have "block_of (logicalAddressBytes g) \<in> block_of ` set ?as" using that by simp
      ultimately have "block_of (logicalAddressBytes g) \<noteq> ?k" by metis
      then show ?thesis by simp
    qed simp
    then show ?thesis using Cons.prems(2) [of g] that by simp
  qed
  have used: "off + j * step \<noteq> BLOCK_UNUSED" if "j < length (lasts (?a # ?as))" for j
  proof -
    have "j * step \<le> length (lasts (?a # ?as)) * step" by (rule mult_le_mono1 [OF less_imp_le [OF that]])
    then show ?thesis using Cons.prems(4) unfolding list.map by linarith
  qed
  have isLast: "map_of M ?k = Some ?a \<longleftrightarrow> ?k \<notin> block_of ` set ?as"
    using Cons.prems(2) [of f] lasts_of [OF d(1)] by simp
  show ?case
  proof (cases "?k \<in> block_of ` set ?as")
    case True
    then have L: "lasts (map logicalAddressBytes (f # frs)) = lasts ?as" by simp
    have "?k \<in> fst ` set (lasts ?as)" using True lasts_keys by simp
    then obtain j where j: "j < length (lasts ?as)" "fst (lasts ?as ! j) = ?k" by (metis imageE in_set_conv_nth)
    then have rd: "readUInt32BE bat (?k * 4) = Inr (off + j * step)" using Cons.prems(3) [of j] L by simp
    have asm: "assemble ratio bb ?m1 frs k = assemble ratio bb m (f # frs) k" for k
      by (simp add: assemble_def)
    have lens: "length b = bb + DEFAULT_BLOCK_SIZE" if "?m1 k = Some b" for k b
    proof (cases "k = ?k")
      case True
      then have "b = ?cur" using that by simp
      then show ?thesis using curlen by (simp only:)
    next
      case False
      then show ?thesis using that Cons.prems(5) [of k b] by simp
    qed
    have "generateBlocks ratio bb bat M frs end ?m1 (off * SECTOR_SIZE) =
      (map (\<lambda>(k, _). assemble ratio bb ?m1 frs k) (lasts ?as),
       res_bind end (\<lambda>_. Inr ((off + length (lasts ?as) * step) * SECTOR_SIZE)))"
      by (rule Cons.IH [OF d(2) keep _ _ lens Cons.prems(6)]) (use Cons.prems(3,4) in \<open>simp_all only: L\<close>)
    then show ?thesis
      using rd used [of j] j isLast True by (simp add: L asm Let_def)
  next
    case False
    then have L: "lasts (map logicalAddressBytes (f # frs)) = (?k, ?a) # lasts ?as" by simp
    have rd: "readUInt32BE bat (?k * 4) = Inr off" using Cons.prems(3) [of 0] unfolding L by simp
    have none: "filter (\<lambda>g. block_of (logicalAddressBytes g) = ?k) frs = []"
    proof (rule filter_False, rule ballI)
      fix g assume "g \<in> set frs"
      then have "block_of (logicalAddressBytes g) \<in> block_of ` set ?as" by simp
      then show "block_of (logicalAddressBytes g) \<noteq> ?k" using False by metis
    qed
    have mine: "assemble ratio bb m (f # frs) ?k = ?cur" by (simp add: assemble_def none)
    let ?m2 = "?m1(?k := None)"
    have asm: "assemble ratio bb ?m2 frs k = assemble ratio bb m (f # frs) k" if "k \<noteq> ?k" for k
      using that by (simp add: assemble_def)
    have others: "k \<noteq> ?k" if "(k, b) \<in> set (lasts ?as)" for k b
      using that lasts_keys [of ?as] False by force
    have nxt: "(off + step) * SECTOR_SIZE = off * SECTOR_SIZE + length ?cur"
      using Cons.prems(6) curlen by (simp add: algebra_simps)
    have rds: "readUInt32BE bat (fst (lasts ?as ! j) * 4) = Inr (off + step + j * step)" if "j < length (lasts ?as)" for j
      using Cons.prems(3) [of "Suc j"] that unfolding L by (simp add: algebra_simps)
    have room: "off + step + length (lasts ?as) * step < BLOCK_UNUSED"
      using Cons.prems(4) unfolding L by (simp add: algebra_simps)
    have lens: "length b = bb + DEFAULT_BLOCK_SIZE" if "?m2 k = Some b" for k b
      using that Cons.prems(5) by (auto split: if_splits)
    have rest: "generateBlocks ratio bb bat M frs end ?m2 (off * SECTOR_SIZE + length ?cur) =
      (map (\<lambda>(k, _). assemble ratio bb ?m2 frs k) (lasts ?as),
       res_bind end (\<lambda>_. Inr ((off + step + length (lasts ?as) * step) * SECTOR_SIZE)))"
      unfolding nxt [symmetric] by (rule Cons.IH [OF d(2) keep rds room lens Cons.prems(6)])
    have blocks: "map (\<lambda>(k, _). assemble ratio bb ?m2 frs k) (lasts ?as) =
        map (\<lambda>(k, _). assemble ratio bb m (f # frs) k) (lasts ?as)"
      using asm others by (intro map_cong refl) auto
    have "off \<noteq> BLOCK_UNUSED" using Cons.prems(4) by linarith
    moreover have "0 < length ?cur" using curlen pos by simp
    ultimately show ?thesis
      using rd isLast False rest blocks unfolding L
      by (simp add: Let_def yieldAndTrack_def gen_await_def mine add.assoc del: fun_upd_apply fun_upd_upd)
  qed
qed

section \<open>The content of the blocks\<close>

text \<open>
  The grain an address of the disk is in, if it was sent; the byte of the disk there is that of the grain,
  or 0.
\<close>

definition grain_at :: "nat \<Rightarrow> fragment list \<Rightarrow> nat \<Rightarrow> buffer option" where
  "grain_at fs frs a = map_of (map (\<lambda>f. (logicalAddressBytes f, fr_data f)) frs) (a div fs * fs)"

definition sparse_byte :: "nat \<Rightarrow> fragment list \<Rightarrow> nat \<Rightarrow> byte" where
  "sparse_byte fs frs a = (case grain_at fs frs a of None \<Rightarrow> 0 | Some d \<Rightarrow> d ! (a mod fs))"

lemma bitmap_fold_test:
  "\<forall>i \<in> set xs. (off + i) div 8 < length b \<Longrightarrow>
   bitmap_test (fold (\<lambda>i b. bitmap_set b (off + i)) xs b) c \<longleftrightarrow> c \<in> (+) off ` set xs \<or> bitmap_test b c"
  by (induction xs arbitrary: b) (auto simp: bitmap_test_set)

lemma bitmap_fold_nth:
  "\<forall>i \<in> set xs. (off + i) div 8 \<noteq> j \<Longrightarrow> fold (\<lambda>i b. bitmap_set b (off + i)) xs b ! j = b ! j"
  by (induction xs arbitrary: b) (auto simp: bitmap_set_def Let_def)

lemma bitmap_test_copy:
  "s div 8 < off \<Longrightarrow> off + length d \<le> length b \<Longrightarrow> bitmap_test (buf_copy d b off) s = bitmap_test b s"
  by (simp add: bitmap_test_bit nth_buf_copy)

lemma grain_of_block:
  assumes "r * fs = 2097152" "x < 2097152" "0 < (fs :: nat)"
  shows "(k * 2097152 + x) div fs = k * r + x div fs" "(k * 2097152 + x) mod fs = x mod fs" "x div fs < r"
proof -
  have a: "k * 2097152 + x = x + k * r * fs" using assms(1) by (simp add: mult.assoc)
  show "(k * 2097152 + x) div fs = k * r + x div fs" unfolding a using assms(3) by simp
  show "(k * 2097152 + x) mod fs = x mod fs" unfolding a by simp
  show "x div fs < r" using assms by (simp add: div_less_iff_less_mult)
qed

lemma in_grain: "0 < (fs :: nat) \<Longrightarrow> x div fs = p \<longleftrightarrow> p * fs \<le> x \<and> x < p * fs + fs"
  by (metis add.commute div_less_iff_less_mult less_eq_div_iff_mult_less_eq less_Suc_eq_le mult_Suc order_antisym_conv order_refl)

text \<open>One grain put in its block.\<close>

lemma insert_grain:
  assumes q: "r * q = 4096" and fs: "fs = 512 * q" and p: "p < r"
    and f: "logicalAddressBytes f = (k * r + p) * fs" "length (fr_data f) = fs"
    and b: "length b = 512 + 2097152"
  shows "x < 2097152 \<Longrightarrow> insertFragmentInBlock r 512 f b ! (512 + x) =
      (if x div fs = p then fr_data f ! (x mod fs) else b ! (512 + x))"
    and "s < 4096 \<Longrightarrow> bitmap_test (insertFragmentInBlock r 512 f b) s \<longleftrightarrow> s * 512 div fs = p \<or> bitmap_test b s"
proof -
  have q0: "0 < q" "0 < r" using q by (cases q; simp; cases r; simp)+
  have rfs: "r * fs = 2097152" using q fs by (simp add: mult.commute)
  have top: "p * fs + fs \<le> 2097152"
    using mult_le_mono1 [of "Suc p" r fs] p rfs by simp
  have addr: "logicalAddressBytes f = p * fs + k * 2097152"
    using f(1) rfs by (simp add: algebra_simps)
  have md: "logicalAddressBytes f mod DEFAULT_BLOCK_SIZE = p * fs"
    using top q0 fs by (simp add: addr DEFAULT_BLOCK_SIZE_def)
  have "logicalAddressBytes f div 512 = p * q + k * 4096" by (simp add: addr fs)
  moreover have "p * q + q \<le> 4096" using top by (simp add: fs)
  ultimately have sec: "logicalAddressBytes f div SECTOR_SIZE mod VHD_BLOCK_SIZE_SECTORS = p * q"
    using q0 by (simp add: VHD_BLOCK_SIZE_SECTORS_def SECTOR_SIZE_def DEFAULT_BLOCK_SIZE_def)
  have cnt: "VHD_BLOCK_SIZE_SECTORS div r = q"
    using q q0 by (simp add: VHD_BLOCK_SIZE_SECTORS_def SECTOR_SIZE_def DEFAULT_BLOCK_SIZE_def flip: q)
  let ?b = "fold (\<lambda>i b. bitmap_set b (p * q + i)) [0..<q] b"
  have ins: "insertFragmentInBlock r 512 f b = buf_copy (fr_data f) ?b (512 + p * fs)"
    by (simp add: insertFragmentInBlock_def Let_def md sec cnt)
  have len: "length ?b = 512 + 2097152" using b length_bitmap_fold by metis
  have low: "(p * q + i) div 8 < 512" if "i < q" for i
    using that \<open>p * q + q \<le> 4096\<close> by simp
  show "insertFragmentInBlock r 512 f b ! (512 + x) = (if x div fs = p then fr_data f ! (x mod fs) else b ! (512 + x))"
    if x: "x < 2097152"
  proof -
    have "?b ! (512 + x) = b ! (512 + x)" by (rule bitmap_fold_nth) (use low in fastforce)
    moreover have "x mod fs = x - p * fs" if "x div fs = p" using that by (metis minus_div_mult_eq_mod)
    ultimately show ?thesis
      using x top f(2) len in_grain [of fs x p] q0 fs unfolding ins
      by (subst nth_buf_copy) (auto simp del: fold_simps)
  qed
  show "bitmap_test (insertFragmentInBlock r 512 f b) s \<longleftrightarrow> s * 512 div fs = p \<or> bitmap_test b s" if s: "s < 4096"
  proof -
    have "s * 512 div fs = s div q" by (simp add: fs)
    moreover have "s \<in> (+) (p * q) ` set [0..<q] \<longleftrightarrow> s div q = p"
      using in_grain [of q s p] q0 by (auto simp: image_iff)
    moreover have "bitmap_test ?b s \<longleftrightarrow> s \<in> (+) (p * q) ` set [0..<q] \<or> bitmap_test b s"
      by (rule bitmap_fold_test) (use low b in fastforce)
    moreover have "bitmap_test (insertFragmentInBlock r 512 f b) s = bitmap_test ?b s"
      unfolding ins using s top f(2) len by (intro bitmap_test_copy) auto
    ultimately show ?thesis by simp
  qed
qed

text \<open>The grains of the disk: aligned, each once, all of the same size.\<close>

definition grains_ok :: "nat \<Rightarrow> fragment list \<Rightarrow> bool" where
  "grains_ok fs frs \<longleftrightarrow> distinct (map logicalAddressBytes frs) \<and>
     (\<forall>f \<in> set frs. logicalAddressBytes f mod fs = 0 \<and> length (fr_data f) = fs)"

lemma grain_at_Cons:
  "grain_at fs (f # frs) a = (if a div fs * fs = logicalAddressBytes f then Some (fr_data f) else grain_at fs frs a)"
  by (simp add: grain_at_def)

lemma grain_at_None: "a div fs * fs \<notin> logicalAddressBytes ` set frs \<Longrightarrow> grain_at fs frs a = None"
  by (auto simp: grain_at_def map_of_eq_None_iff image_image)

lemma block_of_grain: "r * fs = 2097152 \<Longrightarrow> 0 < fs \<Longrightarrow> block_of (n * fs) = n div r"
  by (metis DEFAULT_BLOCK_SIZE_def div_mult_mult2 less_irrefl)

lemma fold_grains:
  assumes q: "r * q = 4096" and fs: "fs = 512 * q" and x: "x < 2097152" and s: "s < 4096"
    and ok: "grains_ok fs frs" and b: "length b = 512 + 2097152"
  shows "fold (insertFragmentInBlock r 512) (filter (\<lambda>f. block_of (logicalAddressBytes f) = k) frs) b ! (512 + x) =
      (case grain_at fs frs (k * 2097152 + x) of None \<Rightarrow> b ! (512 + x) | Some d \<Rightarrow> d ! (x mod fs)) \<and>
    (bitmap_test (fold (insertFragmentInBlock r 512) (filter (\<lambda>f. block_of (logicalAddressBytes f) = k) frs) b) s \<longleftrightarrow>
      grain_at fs frs (k * 2097152 + s * 512) \<noteq> None \<or> bitmap_test b s)"
  using ok b
proof (induction frs arbitrary: b)
  case Nil
  then show ?case by (simp add: grain_at_def)
next
  case (Cons f frs)
  have q0: "0 < q" "0 < r" using q by (cases q; simp; cases r; simp)+
  have fs0: "0 < fs" using q0 fs by simp
  have rfs: "r * fs = 2097152" using q fs by (simp add: mult.commute)
  have s512: "s * 512 < 2097152" using s by simp
  note gx = grain_of_block [OF rfs x fs0] and gs = grain_of_block [OF rfs s512 fs0]
  have ok: "grains_ok fs frs" and new: "logicalAddressBytes f \<notin> logicalAddressBytes ` set frs"
    using Cons.prems(1) by (auto simp: grains_ok_def)
  have len: "length (fr_data f) = fs" and "logicalAddressBytes f mod fs = 0"
    using Cons.prems(1) by (simp_all add: grains_ok_def)
  then obtain n where n: "logicalAddressBytes f = n * fs" by (metis dvdE mod_0_imp_dvd mult.commute)
  have key: "m * fs = logicalAddressBytes f \<longleftrightarrow> m = n" for m using n fs0 by simp
  have blk: "block_of (logicalAddressBytes f) = n div r" unfolding n by (rule block_of_grain [OF rfs fs0])
  show ?case
  proof (cases "n div r = k")
    case True
    define p where "p = n mod r"
    have p: "p < r" "n = k * r + p" using q0(2) True by (auto simp: p_def)
    have addr: "logicalAddressBytes f = (k * r + p) * fs" using n p(2) by simp
    note ins = insert_grain [OF q fs p(1) addr len Cons.prems(2)]
    have ilen: "length (insertFragmentInBlock r 512 f b) = 512 + 2097152"
      using Cons.prems(2) by (simp only: insertFragment_length)
    have none: "grain_at fs frs a = None" if "a div fs = n" for a
      using new n that by (intro grain_at_None) simp
    have gAx: "grain_at fs (f # frs) (k * 2097152 + x) =
        (if x div fs = p then Some (fr_data f) else grain_at fs frs (k * 2097152 + x))"
      and nx: "x div fs = p \<Longrightarrow> grain_at fs frs (k * 2097152 + x) = None"
      using none gx(1) [of k] by (simp_all add: grain_at_Cons key p(2))
    have gAs: "grain_at fs (f # frs) (k * 2097152 + s * 512) =
        (if s * 512 div fs = p then Some (fr_data f) else grain_at fs frs (k * 2097152 + s * 512))"
      using gs(1) [of k] by (simp add: grain_at_Cons key p(2))
    have flt: "filter (\<lambda>f. block_of (logicalAddressBytes f) = k) (f # frs) =
        f # filter (\<lambda>f. block_of (logicalAddressBytes f) = k) frs"
      using True blk by simp
    show ?thesis
      unfolding flt gAx gAs fold.simps comp_apply
      using Cons.IH [OF ok ilen] unfolding ins(1) [OF x] ins(2) [OF s] using nx by auto
  next
    case False
    have "k * r + x div fs \<noteq> n" "k * r + s * 512 div fs \<noteq> n"
      using False gx(3) gs(3) q0(2) by auto
    then show ?thesis
      using Cons.IH [OF ok Cons.prems(2)] False gx(1,2) [of k] gs(1,2) [of k] by (simp add: grain_at_Cons blk key)
  qed
qed

section \<open>The stream\<close>

lemma ratio_sectors:
  assumes "r * fs = (2097152 :: nat)" "r \<le> 53"
  shows "\<exists>q. r * q = 4096 \<and> fs = 512 * q"
proof -
  have "list_all (\<lambda>r. (2097152 :: nat) mod r = 0 \<longrightarrow> (4096 :: nat) mod r = 0) [2..<54]" by simp
  moreover have "r = 1 \<or> r \<in> set [2..<54]"
  proof -
    have "r \<noteq> 0" using assms(1) by (intro notI) simp
    then show ?thesis using assms(2) unfolding set_upt atLeastLessThan_iff by linarith
  qed
  moreover have "2097152 mod r = 0" unfolding assms(1) [symmetric] by simp
  ultimately have "4096 mod r = 0" unfolding list_all_iff by auto
  then have "r dvd 4096" by (rule mod_0_imp_dvd)
  then obtain q where q: "4096 = r * q" by (rule dvdE)
  have r: "r \<noteq> 0" using assms(1) by (intro notI) simp
  have "r * fs = 4096 * 512" using assms(1) by simp
  also have "\<dots> = r * (512 * q)" unfolding q by simp
  finally have "fs = 512 * q" using r by simp
  then show ?thesis using q by metis
qed

lemma ceil_div_mult_less: "0 < b \<Longrightarrow> ceil_div a b * b < a + b"
proof -
  assume "0 < b"
  moreover have "(a + b - 1) div b * b \<le> a + b - 1" by (rule div_times_less_eq_dividend)
  ultimately show ?thesis unfolding ceil_div_def by linarith
qed

lemma geometry_below: "snd (computeGeometryForSize d) < d + 2097152"
proof -
  define t where "t = min (ceil_div d 512) (65535 * 16 * 255)"
  obtain spt hds where g: "snd (computeGeometryForSize d) = ceil_div t (spt * hds) * hds * spt * SECTOR_SIZE"
    and b: "0 < hds" "hds \<le> 16" "0 < spt" "spt \<le> 255"
    using computeGeometry_spec [OF t_def] by (metis snd_conv)
  have m: "0 < spt * hds" "spt * hds \<le> 255 * 16" using b by (simp, intro mult_le_mono) auto
  have "ceil_div t (spt * hds) * (spt * hds) < t + spt * hds" by (rule ceil_div_mult_less [OF m(1)])
  moreover have "t * 512 < d + 512"
    using ceil_div_mult_less [of 512 d] by (simp add: t_def min_def)
  moreover have "snd (computeGeometryForSize d) = ceil_div t (spt * hds) * (spt * hds) * 512"
    by (simp add: g SECTOR_SIZE_def mult.commute mult.left_commute)
  ultimately show ?thesis using m(2) by linarith
qed

text \<open>What a block of the stream holds of the grains.\<close>

definition sparse_block :: "nat \<Rightarrow> fragment list \<Rightarrow> nat \<Rightarrow> buffer \<Rightarrow> bool" where
  "sparse_block fs frs k b \<longleftrightarrow> length b = SECTOR_SIZE + DEFAULT_BLOCK_SIZE \<and>
     (\<forall>x < DEFAULT_BLOCK_SIZE. b ! (SECTOR_SIZE + x) = sparse_byte fs frs (k * DEFAULT_BLOCK_SIZE + x)) \<and>
     (\<forall>s < VHD_BLOCK_SIZE_SECTORS. bitmap_test b s \<longleftrightarrow> grain_at fs frs (k * DEFAULT_BLOCK_SIZE + s * SECTOR_SIZE) \<noteq> None)"

lemma assemble_block:
  assumes q: "r * q = 4096" "fs = 512 * q" and ok: "grains_ok fs frs"
  shows "sparse_block fs frs k (assemble r 512 Map.empty frs k)"
proof -
  let ?b = "assemble r 512 Map.empty frs k"
  have len: "length (replicate (512 + 2097152) (0 :: byte)) = 512 + 2097152" by (simp only: length_replicate)
  have b: "?b = fold (insertFragmentInBlock r 512) (filter (\<lambda>f. block_of (logicalAddressBytes f) = k) frs)
      (replicate (512 + 2097152) 0)"
    by (simp add: assemble_def DEFAULT_BLOCK_SIZE_def)
  have rfs: "r * fs = 2097152" "0 < fs" using q by (auto simp: mult.commute intro: Nat.gr0I)
  have no_bits: "\<not> bitmap_test (replicate n 0) s" for n s by (simp add: bitmap_test_bit)
  have zero: "replicate (512 + 2097152) (0 :: byte) ! (512 + x) = 0" if "x < 2097152" for x
    using that by (intro nth_replicate) simp
  have "?b ! (512 + x) = sparse_byte fs frs (k * 2097152 + x)" if x: "x < 2097152" for x
    using fold_grains [OF q x, of 0 frs "replicate (512 + 2097152) 0" k] ok len zero [OF x] grain_of_block(2) [OF rfs(1) x rfs(2), of k]
    unfolding b sparse_byte_def by (simp split: option.split)
  moreover have "bitmap_test ?b s \<longleftrightarrow> grain_at fs frs (k * 2097152 + s * 512) \<noteq> None" if s: "s < 4096" for s
    using fold_grains [OF q zero_less_numeral s ok len, of k] no_bits unfolding b by blast
  moreover have "length ?b = 512 + 2097152" unfolding b by (simp only: fold_insert_length length_replicate)
  ultimately show ?thesis
    by (simp add: sparse_block_def SECTOR_SIZE_def DEFAULT_BLOCK_SIZE_def VHD_BLOCK_SIZE_SECTORS_def)
qed

lemma lasts_count:
  assumes "\<forall>a \<in> set as. a < d"
  shows "length (lasts as) \<le> ceil_div d DEFAULT_BLOCK_SIZE" and "\<forall>k \<in> fst ` set (lasts as). k < ceil_div d DEFAULT_BLOCK_SIZE"
proof -
  have "a div DEFAULT_BLOCK_SIZE < ceil_div d DEFAULT_BLOCK_SIZE" if "a < d" for a
    using that le_ceil_div_mult [of DEFAULT_BLOCK_SIZE d]
    by (simp add: DEFAULT_BLOCK_SIZE_def div_less_iff_less_mult)
  then have each: "\<forall>k \<in> fst ` set (lasts as). k < ceil_div d DEFAULT_BLOCK_SIZE"
    unfolding lasts_keys using assms by blast
  have "card (fst ` set (lasts as)) = length (lasts as)"
    using distinct_card [OF lasts_distinct [of as]] by simp
  moreover have "card (fst ` set (lasts as)) \<le> card {..<ceil_div d DEFAULT_BLOCK_SIZE}"
    using each by (intro card_mono) auto
  ultimately show "length (lasts as) \<le> ceil_div d DEFAULT_BLOCK_SIZE" by simp
  show "\<forall>k \<in> fst ` set (lasts as). k < ceil_div d DEFAULT_BLOCK_SIZE" by (rule each)
qed

lemma createBAT_table:
  assumes al: "\<forall>a \<in> set A. a * fs mod SECTOR_SIZE = 0" and L: "L = lasts (map (\<lambda>a. a * fs) A)"
    and inside: "\<forall>k \<in> fst ` set L. k < n" and room: "first div SECTOR_SIZE + length L * 4097 < BLOCK_UNUSED"
  shows "\<exists>bat. createBAT first A fs (replicate (computeBatSize n) 255) 512 =
      Inr (first div SECTOR_SIZE + length L * 4097, rev L, bat) \<and>
    length bat = computeBatSize n \<and> table_for bat n (first div SECTOR_SIZE) 4097 (map fst L)"
proof -
  let ?bat = "replicate (computeBatSize n) (255 :: byte)"
  have ge: "4 * i + 4 \<le> computeBatSize n" if "i < n" for i using computeBatSize_ge [of n] that by linarith
  have each: "\<forall>k \<in> fst ` set L. 4 * k + 4 \<le> length ?bat \<and> bat_entry ?bat k = BLOCK_UNUSED"
    using inside ge unused_bytes by simp
  have step: "(512 + DEFAULT_BLOCK_SIZE) div SECTOR_SIZE = 4097" by (simp add: DEFAULT_BLOCK_SIZE_def SECTOR_SIZE_def)
  from createBAT_fill [OF each _ room] lasts_distinct [of "map (\<lambda>a. a * fs) A"] L obtain bat where
    bat: "res_fold (\<lambda>(vhdTableIndex, _) (currentVhdPositionSector, bat).
           res_bind (readUInt32BE bat (vhdTableIndex * 4)) (\<lambda>e.
           if e = BLOCK_UNUSED then
             res_bind (writeUInt32BE bat currentVhdPositionSector (vhdTableIndex * 4)) (\<lambda>bat.
             Inr (currentVhdPositionSector + 4097, bat))
           else Inr (currentVhdPositionSector, bat))) L (first div SECTOR_SIZE, ?bat) =
       Inr (first div SECTOR_SIZE + length L * 4097, bat)" "length bat = length ?bat"
      "\<forall>j < length L. bat_entry bat (fst (L ! j)) = first div SECTOR_SIZE + j * 4097"
      "\<forall>i. 4 * i + 4 \<le> length ?bat \<longrightarrow> i \<notin> fst ` set L \<longrightarrow> bat_entry bat i = bat_entry ?bat i" by blast
  have "createBAT first A fs ?bat 512 = Inr (first div SECTOR_SIZE + length L * 4097, rev L, bat)"
    using lastFragments_eq [OF al] bat(1) unfolding createBAT_def step by (simp add: L)
  moreover have "table_for bat n (first div SECTOR_SIZE) 4097 (map fst L)"
    using bat(3,4) ge unused_bytes by (simp add: table_for_def)
  ultimately show ?thesis using bat(2) by (intro exI [of _ bat]) simp
qed

lemma map_of_rev_distinct: "distinct (map fst L) \<Longrightarrow> map_of (rev L) = map_of L"
  by (subst map_of_inject_set) (simp_all flip: rev_map)

lemma blocks_of_lasts:
  "map_of (zip (map fst (lasts as)) (map (\<lambda>(k, _). g k) (lasts as))) k =
   (if k \<in> block_of ` set as then Some (g k) else None)"
proof -
  have "zip (map fst (lasts as)) (map (\<lambda>(k, _). g k) (lasts as)) = map (\<lambda>k. (k, g k)) (map fst (lasts as))"
    by (simp add: zip_map_map zip_same_conv_map case_prod_unfold comp_def)
  then show ?thesis by (simp only: map_of_map_restrict set_map lasts_keys restrict_map_def comp_apply)
qed

context struct_fu_codec
begin

lemma sparse_headers:
  assumes d: "d \<le> 2040 * 2 ^ 30" and env: "length u = 16" "now < 2 ^ 32"
    and n: "n = ceil_div d DEFAULT_BLOCK_SIZE + 1"
  shows "\<exists>f h. createFooter fu u (snd (computeGeometryForSize d)) now (fst (computeGeometryForSize d))
        (Some FOOTER_SIZE) DISK_TYPE_DYNAMIC = fuFooter_pack fu f \<and>
    createHeader fu n (FOOTER_SIZE + HEADER_SIZE) DEFAULT_BLOCK_SIZE = fuHeader_pack fu h \<and>
    length (fuFooter_pack fu f) = FOOTER_SIZE \<and> length (fuHeader_pack fu h) = HEADER_SIZE \<and>
    unpackFooter fu (fuFooter_pack fu f) = Inr f \<and> unpackHeader fu (fuHeader_pack fu h) (Some f) = Inr h \<and>
    currentSize f = snd (computeGeometryForSize d) \<and> diskType f = DISK_TYPE_DYNAMIC \<and> uuid f = u \<and>
    tableOffset h = FOOTER_SIZE + HEADER_SIZE \<and> maxTableEntries h = n \<and> blockSize h = DEFAULT_BLOCK_SIZE \<and>
    locator_index h = []"
proof -
  let ?size = "snd (computeGeometryForSize d)"
  have size: "?size < 2 ^ 64" using geometry_below [of d] d by simp
  have "d \<le> ceil_div d DEFAULT_BLOCK_SIZE * DEFAULT_BLOCK_SIZE"
    by (rule le_ceil_div_mult) (simp add: DEFAULT_BLOCK_SIZE_def)
  then have fit: "?size \<le> n * DEFAULT_BLOCK_SIZE"
    using geometry_below [of d] by (simp add: n DEFAULT_BLOCK_SIZE_def)
  have n32: "n < 2 ^ 32"
  proof -
    have "ceil_div d DEFAULT_BLOCK_SIZE \<le> 2 ^ 21" using d by (simp add: ceil_div_le_iff DEFAULT_BLOCK_SIZE_def)
    then show ?thesis by (simp add: n)
  qed
  obtain f1 where f1: "createFooter fu u ?size now (fst (computeGeometryForSize d)) (Some FOOTER_SIZE) DISK_TYPE_DYNAMIC =
      fuFooter_pack fu (with_checksum fu f1)" "wf_footer f1" "checkFooter f1 = Inr ()" "currentSize f1 = ?size"
      "diskType f1 = DISK_TYPE_DYNAMIC" "uuid f1 = u"
    using createFooter_packs [OF env(1) size env(2) geometry_wf, of DISK_TYPE_DYNAMIC d] by blast
  obtain h1 where h1: "createHeader fu n (FOOTER_SIZE + HEADER_SIZE) DEFAULT_BLOCK_SIZE =
      fuHeader_pack fu (header_with_checksum fu h1)" "wf_header h1" "checkHeader h1 None = Inr ()" "maxTableEntries h1 = n"
      "tableOffset h1 = FOOTER_SIZE + HEADER_SIZE" "blockSize h1 = DEFAULT_BLOCK_SIZE"
      "parentLocatorEntry h1 = replicate PARENT_LOCATOR_ENTRIES empty_locator"
    using createHeader_packs [OF n32, of "FOOTER_SIZE + HEADER_SIZE"] by (auto simp: vhd_sizes)
  let ?f = "with_checksum fu f1" and ?h = "header_with_checksum fu h1"
  have uid: "length (uuid f1) = 16" "length (parentUuid h1) = 16" "length (parentLocatorEntry h1) = PARENT_LOCATOR_ENTRIES"
    using f1(2) h1(2) by (simp_all add: wf_footer_def wf_header_def)
  have "checkHeader h1 (Some ?f) = Inr ()"
    using h1(3,4,6) fit f1(4) by (simp add: checkHeader_def with_checksum_def res_bind_Inr_iff)
  then have "unpackHeader fu (fuHeader_pack fu ?h) (Some ?f) = Inr ?h" by (rule unpackHeader_pack [OF h1(2)])
  moreover have "unpackFooter fu (fuFooter_pack fu ?f) = Inr ?f" by (rule unpackFooter_pack [OF f1(2,3)])
  moreover have "length (fuFooter_pack fu ?f) = FOOTER_SIZE" "length (fuHeader_pack fu ?h) = HEADER_SIZE"
    using uid by (simp_all add: fuFooter_size fuHeader_size with_checksum_def header_with_checksum_def)
  moreover have "locator_index ?h = []"
    using h1(7) by (intro no_locators) (simp add: header_with_checksum_def)
  moreover have "currentSize ?f = ?size" "diskType ?f = DISK_TYPE_DYNAMIC" "uuid ?f = u"
      "tableOffset ?h = FOOTER_SIZE + HEADER_SIZE" "maxTableEntries ?h = n" "blockSize ?h = DEFAULT_BLOCK_SIZE"
    using f1 h1 by (simp_all add: with_checksum_def header_with_checksum_def)
  ultimately show ?thesis using f1(1) h1(1) by blast
qed

end

context struct_fu_codec
begin

lemma sparse_streamable:
  assumes fs: "0 < fs" "DEFAULT_BLOCK_SIZE mod fs = 0" "DEFAULT_BLOCK_SIZE div fs \<le> 53"
    and frs: "grains_ok fs frs" "map logicalAddressBytes frs = map (\<lambda>a. a * fs) A" "\<forall>a \<in> set A. a * fs < d"
    and d: "d \<le> 2040 * 2 ^ 30" and env: "length u = 16" "now < 2 ^ 32"
  shows "\<exists>chunks n f h bs. createReadableStream fu u now d fs A (frs, Inr ()) = Inr ((chunks, Inr n), n) \<and>
    n = length (concat chunks) \<and> streamable fu (concat chunks) f h \<and>
    map_of (item_blocks (map (parsed_item h (concat chunks)) (stream_index h (table_of (concat chunks) h)))) = bs \<and>
    dom bs = (\<lambda>f. logicalAddressBytes f div DEFAULT_BLOCK_SIZE) ` set frs \<and>
    (\<forall>k b. bs k = Some b \<longrightarrow> sparse_block fs frs k b) \<and>
    currentSize f = snd (computeGeometryForSize d) \<and> uuid f = u \<and> diskType f = DISK_TYPE_DYNAMIC"
proof -
  define n where "n = ceil_div d DEFAULT_BLOCK_SIZE + 1"
  let ?F = "createFooter fu u (snd (computeGeometryForSize d)) now (fst (computeGeometryForSize d)) (Some FOOTER_SIZE) DISK_TYPE_DYNAMIC"
  let ?H = "createHeader fu n (FOOTER_SIZE + HEADER_SIZE) DEFAULT_BLOCK_SIZE"
  obtain f h where hd: "?F = fuFooter_pack fu f" "?H = fuHeader_pack fu h" "length (fuFooter_pack fu f) = FOOTER_SIZE"
      "length (fuHeader_pack fu h) = HEADER_SIZE" "unpackFooter fu (fuFooter_pack fu f) = Inr f"
      "unpackHeader fu (fuHeader_pack fu h) (Some f) = Inr h"
    and f: "currentSize f = snd (computeGeometryForSize d)" "diskType f = DISK_TYPE_DYNAMIC" "uuid f = u"
    and h: "tableOffset h = FOOTER_SIZE + HEADER_SIZE" "maxTableEntries h = n" "blockSize h = DEFAULT_BLOCK_SIZE"
      "locator_index h = []"
    using sparse_headers [OF d env n_def] by blast
  let ?r = "DEFAULT_BLOCK_SIZE div fs" and ?as = "map logicalAddressBytes frs"
  have rfs: "?r * fs = 2097152" using fs(2) by (simp add: DEFAULT_BLOCK_SIZE_def mod_0_imp_dvd)
  obtain q where q: "?r * q = 4096" "fs = 512 * q" using ratio_sectors [OF rfs fs(3)] by blast
  let ?L = "lasts ?as" and ?s = "computeBatSize n"
  let ?first = "FOOTER_SIZE + HEADER_SIZE + ?s"
  have below: "\<forall>a \<in> set ?as. a < d" using frs(2,3) by simp
  have al: "\<forall>a \<in> set A. a * fs mod SECTOR_SIZE = 0" by (simp add: q(2) SECTOR_SIZE_def mod_0_imp_dvd mult.left_commute)
  note cnt = lasts_count [OF below]
  have inside: "\<forall>k \<in> fst ` set ?L. k < n" using cnt(2) by (simp add: n_def less_SucI)
  have nb: "ceil_div d DEFAULT_BLOCK_SIZE \<le> 1044480" using d by (simp add: ceil_div_le_iff DEFAULT_BLOCK_SIZE_def)
  have base: "?first div SECTOR_SIZE * SECTOR_SIZE = ?first"
  proof -
    have "SECTOR_SIZE dvd ?first"
      using computeBatSize_sectors [of n] by (intro dvd_add) (simp_all add: vhd_sizes)
    then show ?thesis by simp
  qed
  have sle: "?s \<le> 4178436" using computeBatSize_le [of n] nb by (simp add: n_def)
  have room: "?first div SECTOR_SIZE + length ?L * 4097 < BLOCK_UNUSED"
  proof -
    have "?first div SECTOR_SIZE \<le> 10000" using sle by (simp add: vhd_sizes SECTOR_SIZE_def)
    moreover have "length ?L * 4097 \<le> 1044480 * 4097" using cnt(1) nb by (intro mult_le_mono1) linarith
    ultimately show ?thesis by (simp add: BLOCK_UNUSED_def)
  qed
  obtain bat where bat: "createBAT ?first A fs (replicate ?s 255) 512 =
      Inr (?first div SECTOR_SIZE + length ?L * 4097, rev ?L, bat)" "length bat = ?s"
      "table_for bat n (?first div SECTOR_SIZE) 4097 (map fst ?L)"
    using createBAT_table [OF al arg_cong [OF frs(2), of lasts] inside room] by blast
  let ?base = "?first div SECTOR_SIZE" and ?imgs = "map (\<lambda>(k, _). assemble ?r 512 Map.empty frs k) ?L"
  let ?stop = "(?base + length ?L * 4097) * SECTOR_SIZE"
  have small: "(512 :: nat) + DEFAULT_BLOCK_SIZE = 4097 * SECTOR_SIZE" by (simp add: DEFAULT_BLOCK_SIZE_def SECTOR_SIZE_def)
  have dist: "distinct ?as" using frs(1) by (simp add: grains_ok_def)
  have reads: "readUInt32BE bat (fst (?L ! j) * 4) = Inr (?base + j * 4097)" if j: "j < length ?L" for j
  proof -
    have "fst (?L ! j) < n" using inside j by simp
    then have "4 * fst (?L ! j) + 4 \<le> length bat" using computeBatSize_ge [of n] bat(2) by linarith
    from readUInt32BE_bat_entry [OF this] show ?thesis using bat(3) j by (simp add: table_for_def mult.commute)
  qed
  have gen: "generateBlocks ?r 512 bat (rev ?L) frs (Inr ()) Map.empty (?base * SECTOR_SIZE) = (?imgs, Inr ?stop)"
  proof -
    have same: "map_of (rev ?L) = map_of ?L" by (rule map_of_rev_distinct [OF lasts_distinct])
    have "generateBlocks ?r 512 bat (rev ?L) frs (Inr ()) Map.empty (?base * SECTOR_SIZE) =
      (?imgs, res_bind (Inr ()) (\<lambda>_. Inr ?stop))"
      by (rule generateBlocks_eq [OF dist _ reads room _ small [symmetric]]) (simp_all only: same option.distinct)
    then show ?thesis by (simp only: res_bind_simps)
  qed
  have bits: "ceil_div VHD_BLOCK_SIZE_SECTORS (8 * SECTOR_SIZE) * SECTOR_SIZE = 512"
    by (simp add: ceil_div_def VHD_BLOCK_SIZE_SECTORS_def DEFAULT_BLOCK_SIZE_def SECTOR_SIZE_def)
  have table: "ceil_div (n * 4) SECTOR_SIZE * SECTOR_SIZE = ?s" using computeBatSize_pos [of n] by (simp add: n_def)
  let ?chunks = "fuFooter_pack fu f # fuHeader_pack fu h # bat # ?imgs @ [fuFooter_pack fu f]"
  have pos: "0 < ?s" using computeBatSize_ge [of n] by (simp add: n_def)
  have run: "createReadableStream fu u now d fs A (frs, Inr ()) = Inr ((?chunks, Inr (?stop + FOOTER_SIZE)), ?stop + FOOTER_SIZE)"
  proof -
    have y1: "yieldAndTrack (fuFooter_pack fu f) (Some 0) 0 = ([fuFooter_pack fu f], Inr FOOTER_SIZE)"
      by (simp add: yieldAndTrack_def gen_await_def gen_yield_def hd(3) vhd_sizes del: length_greater_0_conv)
    have y2: "yieldAndTrack (fuHeader_pack fu h) (Some FOOTER_SIZE) FOOTER_SIZE =
        ([fuHeader_pack fu h], Inr (FOOTER_SIZE + HEADER_SIZE))"
      by (simp add: yieldAndTrack_def gen_await_def gen_yield_def hd(4) vhd_sizes del: length_greater_0_conv)
    have y3: "yieldAndTrack bat (Some (FOOTER_SIZE + HEADER_SIZE)) (FOOTER_SIZE + HEADER_SIZE) =
        ([bat], Inr (?base * SECTOR_SIZE))"
      by (simp add: yieldAndTrack_def gen_await_def gen_yield_def bat(2) pos base del: length_greater_0_conv)
    have y4: "yieldAndTrack (fuFooter_pack fu f) None ?stop = ([fuFooter_pack fu f], Inr (?stop + FOOTER_SIZE))"
      by (simp add: yieldAndTrack_def gen_await_def gen_yield_def hd(3) vhd_sizes del: length_greater_0_conv)
    have "\<not> (fs = 0 \<or> DEFAULT_BLOCK_SIZE mod fs \<noteq> 0)" "\<not> 53 < DEFAULT_BLOCK_SIZE div fs" using fs by simp_all
    then show ?thesis
      unfolding createReadableStream_def Let_def n_def [symmetric] table bits case_prod_unfold hd(1,2)
      by (simp only: if_False bat(1) res_bind_simps fst_conv snd_conv y1 y2 y3 y4 gen gen_bind_simps append.simps case_prod_unfold)
  qed
  have c: "concat ?chunks = block_image (fuFooter_pack fu f) (fuHeader_pack fu h) bat ?imgs"
    by (simp add: block_image_def del: concat_map_singleton)
  have full: "fullBlockSize h = 2097664" by (simp add: fullBlockSize_def h default_full)
  have good: "sparse_block fs frs k (assemble ?r 512 Map.empty frs k)" for k by (rule assemble_block [OF q frs(1)])
  then have imgs: "\<forall>b \<in> set ?imgs. length b = fullBlockSize h"
    by (auto simp: full sparse_block_def SECTOR_SIZE_def DEFAULT_BLOCK_SIZE_def)
  have lids: "length (map fst ?L) = length ?imgs" by simp
  have bs: "batSize h < 2 ^ 30" using sle by (simp add: batSize_def h)
  have hbase: "?base * SECTOR_SIZE = FOOTER_SIZE + HEADER_SIZE + batSize h" by (simp only: base batSize_def h)
  have ids: "\<forall>i \<in> set (map fst ?L). i < maxTableEntries h" using inside by (simp add: h)
  note img = block_image_streamable [OF hd(3,5,4,6) h(1) _ h(4) _ bs imgs _ lids lasts_distinct ids _ hbase, of bat 4097]
  have st: "streamable fu (concat ?chunks) f h"
    and bl: "map_of (item_blocks (map (parsed_item h (concat ?chunks)) (stream_index h (table_of (concat ?chunks) h)))) =
      map_of (zip (map fst ?L) ?imgs)"
    unfolding c
    by (rule img; use bat(2,3) room full in \<open>simp add: h batSize_def SECTOR_SIZE_def DEFAULT_BLOCK_SIZE_def\<close>)+
  have len: "length (concat ?chunks) = ?stop + FOOTER_SIZE"
    using hd(3,4) bat(2) concat_const_length [OF imgs] full base unfolding c block_image_def
    by (simp add: SECTOR_SIZE_def add_mult_distrib)
  have dom: "dom (map_of (zip (map fst ?L) ?imgs)) = block_of ` logicalAddressBytes ` set frs"
    by (auto simp: dom_def blocks_of_lasts split: if_splits)
  have all: "\<forall>k b. map_of (zip (map fst ?L) ?imgs) k = Some b \<longrightarrow> sparse_block fs frs k b"
    using good by (simp add: blocks_of_lasts)
  show ?thesis
    by (rule exI [of _ ?chunks], rule exI [of _ "?stop + FOOTER_SIZE"], rule exI [of _ f], rule exI [of _ h],
        rule exI [of _ "map_of (zip (map fst ?L) ?imgs)"], intro conjI run st bl len [symmetric] all f)
      (simp only: dom image_image)
qed

end

end
