(* ===== verification/Vhd_Stream_Properties.thy ===== *)
theory Vhd_Stream_Properties
  imports Vhd_Examples Vhd_Stream_Blocks Vhd_Consumer_Dir Vhd_Sparse_Props
begin

text \<open>
  The properties of the VHD streams: what the parser, the validator and the cut of a stream do, and that
  what the disk consumers and the import of sparse disks produce is read back as the disk. Each one is
  applied at a small disk.
\<close>

section \<open>Reading a file as a stream\<close>

text \<open>
  C8: Reading the content of a VHD file as a stream, in whatever chunks it comes, gives its footer, its header
  and its blocks, each allocated block once with its bytes and no other; and the importer that is fed with
  that stream gets the data of those blocks at their addresses, without the bitmaps.
\<close>

theorem parse_file:
  assumes codec: "struct_fu_codec fu" and inv: "vf_inv s" and sync: "disk_synced fu s" and fsync: "footer_synced fu s"
    and check: "checkFooter (vf_footer s) = Inr ()" "checkHeader (vf_header s) (Some (vf_footer s)) = Inr ()"
    and room: "vf_end s * SECTOR_SIZE + FOOTER_SIZE \<le> length (vf_content s)"
    and loc: "locators_placed (vf_header s)"
    and small: "batSize (vf_header s) < 2 ^ 30" "fullBlockSize (vf_header s) < 2 ^ 30"
    and cs: "concat cs = vf_content s"
  shows "\<exists>items. parseVhdStream fu cs = (FooterItem (vf_footer s) # HeaderItem (vf_header s) # items, Inr ()) \<and>
    map_of (item_blocks items) = file_blocks s \<and> distinct (map fst (item_blocks items)) \<and>
    parseVhdToBlocks fu cs = Inr \<lparr>vb_blockSize = blockSize (vf_header s), vb_blockCount = length (item_blocks items),
      vb_diskSize = currentSize (vf_footer s), vb_geometry = diskGeometry (vf_footer s),
      vb_blocks = (map (\<lambda>(i, b). (i * blockSize (vf_header s), drop (bitmapSize (vf_header s)) b)) (item_blocks items),
        Inr ())\<rparr>"
proof -
  let ?h = "vf_header s" and ?c = "concat cs"
  note st = struct_fu_codec.file_streamable [OF codec inv sync fsync check room loc small, folded cs]
  let ?items = "map (parsed_item ?h ?c) (stream_index ?h (table_of ?c ?h))"
  have run: "parseVhdStream fu cs = (FooterItem (vf_footer s) # HeaderItem ?h # ?items, Inr ())"
    using st(1) parse_iff [OF refl, of fu cs] by blast
  have "map_of (item_blocks ?items) i = file_blocks s i" for i
  proof (cases "i < maxTableEntries ?h")
    case True
    then show ?thesis
      using st(2) [of i] by (simp add: item_blocks_map(1) file_blocks_def block_bytes_def cs fullBlockSize_def)
  next
    case False
    then show ?thesis using vf_invD(2) [OF inv, of i] by (auto simp: item_blocks_map(1) file_blocks_def)
  qed
  then have "map_of (item_blocks ?items) = file_blocks s" by blast
  then show ?thesis using run item_blocks_map(2) streamable_to_blocks [OF st(1)] by blast
qed

text \<open>A file with one block, complete with its footers.\<close>

definition ex_foot :: buffer where
  "ex_foot = fuFooter_pack fu_reference (with_checksum fu_reference ex_footer)"

definition ex_front :: buffer where
  "ex_front = ex_foot @ fuHeader_pack fu_reference ex_header @ one_block_table"

definition ex_image :: buffer where
  "ex_image = ex_front @ replicate 1024 9 @ ex_foot"

definition full_file :: vhd_file where
  "full_file = \<lparr>vf_content = ex_image, vf_header = ex_header,
     vf_footer = with_checksum fu_reference ex_footer, vf_blockTable = Some one_block_table\<rparr>"

lemma ex_lengths [simp]: "length ex_foot = 512" "length (fuHeader_pack fu_reference ex_header) = 1024" "length ex_front = 2048"
  "length ex_image = 3584"
proof -
  show f: "length ex_foot = 512"
    using fu_ref.fuFooter_size [of "with_checksum fu_reference ex_footer"]
    by (simp add: ex_foot_def with_checksum_def ex_footer_def vhd_sizes)
  show h: "length (fuHeader_pack fu_reference ex_header) = 1024"
    using fu_ref.fuHeader_size [of ex_header] by (simp add: HEADER_SIZE_def)
  show "length ex_front = 2048" "length ex_image = 3584" using f h by (simp_all add: ex_front_def ex_image_def)
qed

lemma full_file_simps [simp]:
  "vf_header full_file = ex_header" "vf_footer full_file = with_checksum fu_reference ex_footer"
  "vf_content full_file = ex_image" "vf_blockTable full_file = Some one_block_table"
  by (simp_all add: full_file_def)

lemma full_file_entry: "vf_entry full_file i = (if i = 0 then 4 else BLOCK_UNUSED)"
  using one_block_entry [of i] by (simp add: vf_entry_def)

lemma full_file_same: "vf_entry full_file = vf_entry one_block_file"
  by (simp add: fun_eq_iff full_file_entry one_block_entry)

lemma full_file_inv: "vf_inv full_file"
  unfolding vf_inv_def full_file_same one_block_allocated
  by (simp add: one_block_entry wf_table_def wf_layout_def ex_end_headers) (simp add: vhd_sizes)

lemma full_file_end: "vf_end full_file = 6"
  using one_block_end unfolding vf_end_def full_file_same full_file_simps one_block_fields .

lemma ex_reads: "file_read ex_image 0 FOOTER_SIZE = ex_foot"
  "file_read ex_image FOOTER_SIZE HEADER_SIZE = fuHeader_pack fu_reference ex_header"
  "file_read ex_image 1536 512 = one_block_table" "file_read ex_image 3072 FOOTER_SIZE = ex_foot"
  by (simp_all add: file_read_def ex_image_def ex_front_def vhd_sizes)

lemma full_file_synced: "disk_synced fu_reference full_file" "footer_synced fu_reference full_file"
proof -
  show "disk_synced fu_reference full_file"
    using ex_wf ex_checksum ex_reads by (simp add: disk_synced_def Let_def)
  have "3584 - FOOTER_SIZE = 3072" "FOOTER_SIZE \<le> 3584" by (simp_all add: vhd_sizes)
  then show "footer_synced fu_reference full_file"
    using ex_reads fu_ref.wf_with_checksum [OF ex_wf(1)] fu_ref.footer_checksum_idem [OF ex_wf(1)]
    by (simp add: footer_synced_def Let_def flip: ex_foot_def)
qed

lemma ex_placed: "locators_placed ex_header"
  by (simp add: locators_placed_def no_locators empty_locator_def)

lemma ex_checks: "checkFooter (with_checksum fu_reference ex_footer) = Inr ()"
  "checkHeader ex_header (Some (with_checksum fu_reference ex_footer)) = Inr ()"
  using ex_check by (simp_all add: checkFooter_def checkHeader_def with_checksum_def)

lemma ex_streamable: "streamable fu_reference ex_image (with_checksum fu_reference ex_footer) ex_header"
  using struct_fu_codec.file_streamable(1) [OF fu_ref.struct_fu_codec_axioms full_file_inv full_file_synced]
    ex_checks full_file_end ex_placed
  by (simp add: vhd_sizes SECTOR_SIZE_def)

lemma ex_parsed:
  obtains items where "parseVhdStream fu_reference [ex_image] =
    (FooterItem (with_checksum fu_reference ex_footer) # HeaderItem ex_header # items, Inr ())"
  using ex_streamable parse_iff [of "[ex_image]" ex_image fu_reference] by auto

theorem parse_file_witness:
  "\<exists>items. parseVhdStream fu_reference [take 1000 ex_image, drop 1000 ex_image] =
      (FooterItem (vf_footer full_file) # HeaderItem (vf_header full_file) # items, Inr ()) \<and>
    map_of (item_blocks items) = file_blocks full_file \<and> distinct (map fst (item_blocks items)) \<and>
    parseVhdToBlocks fu_reference [take 1000 ex_image, drop 1000 ex_image] = Inr \<lparr>vb_blockSize = blockSize (vf_header full_file),
      vb_blockCount = length (item_blocks items), vb_diskSize = currentSize (vf_footer full_file),
      vb_geometry = diskGeometry (vf_footer full_file),
      vb_blocks = (map (\<lambda>(i, b). (i * blockSize (vf_header full_file), drop (bitmapSize (vf_header full_file)) b))
        (item_blocks items), Inr ())\<rparr>"
  by (rule parse_file [OF fu_ref.struct_fu_codec_axioms full_file_inv full_file_synced])
    (simp_all add: full_file_end ex_placed ex_checks vhd_sizes SECTOR_SIZE_def)

section \<open>Checking a stream\<close>

text \<open>
  C15: The validator changes nothing of a stream: what it lets out is the beginning of what it gets, all of
  it when it accepts; it accepts exactly the streams that begin with a valid footer and a valid header and end
  with the same footer, so it accepts every stream that the parser reads to its end.
\<close>

theorem stream_validator:
  "\<exists>out end rest. vhdStreamValidator fu cs = (out, end) \<and> concat cs = concat out @ rest \<and> (end = Inr () \<longrightarrow> rest = []) \<and>
     (end = Inr () \<longleftrightarrow> FOOTER_SIZE + HEADER_SIZE + FOOTER_SIZE \<le> length (concat cs) \<and>
       (\<exists>f. unpackFooter fu (file_read (concat cs) 0 FOOTER_SIZE) = Inr f) \<and>
       (\<exists>h. unpackHeader fu (file_read (concat cs) FOOTER_SIZE HEADER_SIZE) None = Inr h) \<and>
       drop (length (concat cs) - FOOTER_SIZE) (concat cs) = file_read (concat cs) 0 FOOTER_SIZE) \<and>
     (snd (parseVhdStream fu cs) = Inr () \<longrightarrow> end = Inr ())"
proof -
  obtain out e where v: "vhdStreamValidator fu cs = (out, e)" by fastforce
  note u = validator_unfold [OF refl, of fu cs, unfolded v fst_conv snd_conv]
  have "concat cs = concat out @ drop (length (concat out)) (concat cs)" using u(1) by (metis append_take_drop_id)
  moreover have "drop (length (concat out)) (concat cs) = []" if "e = Inr ()" using u(3) that by simp
  moreover have "e = Inr ()" if ok: "snd (parseVhdStream fu cs) = Inr ()"
  proof -
    have "parseVhdStream fu cs = (fst (parseVhdStream fu cs), Inr ())" using ok by (metis prod.collapse)
    then obtain f h where "streamable fu (concat cs) f h" using parse_iff [OF refl] by blast
    then show ?thesis using streamable_validates v by fastforce
  qed
  ultimately show ?thesis using v u(2) by blast
qed

theorem stream_validator_witness:
  "snd (vhdStreamValidator fu_reference [ex_image]) = Inr () \<and>
   concat (fst (vhdStreamValidator fu_reference [ex_image])) = ex_image"
proof -
  have "snd (parseVhdStream fu_reference [ex_image]) = Inr ()"
    by (rule ex_parsed) simp
  then show ?thesis using stream_validator [of fu_reference "[ex_image]"] by auto
qed

section \<open>Streams with a length\<close>

lemma parsed_contents:
  "(\<exists>b count parts. ContentItem i b count parts \<in> set (map (parsed_item h c) is)) \<longleftrightarrow> i \<in> set is"
proof
  assume "i \<in> set is"
  then have "parsed_item h c i \<in> set (map (parsed_item h c) is)" by simp
  then show "\<exists>b count parts. ContentItem i b count parts \<in> set (map (parsed_item h c) is)"
    unfolding parsed_item_def [of h c i] by blast
qed (auto simp: parsed_item_def)

text \<open>
  C14: A stream that can be parsed is given a length, whose stream has exactly that length. When the allocation
  table and the parent locators end before the cut, which is behind the last block, it is parsed to the same
  items as the original; otherwise what is left cannot be parsed. The table is before the first GiB of the stream,
  which is as far as one read goes.
\<close>

theorem stream_with_length:
  assumes codec: "struct_fu_codec fu"
    and parsed: "parseVhdStream fu cs = (FooterItem f # HeaderItem h # items, Inr ())"
    and near: "tableOffset h < 2 ^ 30"
  shows "\<exists>out n. createVhdStreamWithLength fu cs = Inr (out, n) \<and> length (concat out) = n \<and>
    (if \<forall>i b count parts. ContentItem i b count parts \<in> set items \<and> it_type i \<noteq> TypeBlock \<longrightarrow>
          it_offset i + it_size i \<le> n - FOOTER_SIZE
     then parseVhdStream fu out = parseVhdStream fu cs
     else \<forall>ys. parseVhdStream fu out \<noteq> (ys, Inr ()))"
proof -
  have s: "streamable fu (concat cs) f h"
    and items: "items = map (parsed_item h (concat cs)) (stream_index h (table_of (concat cs) h))"
    using parsed parse_iff [OF refl, of fu cs] by auto
  obtain out n where ok: "createVhdStreamWithLength fu cs = Inr (out, n)"
    using streamable_with_length [OF codec s near] by blast
  have "(\<forall>i b count parts. ContentItem i b count parts \<in> set items \<and> it_type i \<noteq> TypeBlock \<longrightarrow>
          it_offset i + it_size i \<le> n - FOOTER_SIZE) \<longleftrightarrow>
      (\<forall>i \<in> set (stream_index h (table_of (concat cs) h)). it_type i \<noteq> TypeBlock \<longrightarrow>
          it_offset i + it_size i \<le> n - FOOTER_SIZE)"
    using parsed_contents [of _ h "concat cs" "stream_index h (table_of (concat cs) h)"] unfolding items by blast
  also have "\<dots> \<longleftrightarrow> (\<forall>i \<in> set (bat_item h # locator_index h). it_offset i + it_size i \<le> n - FOOTER_SIZE)"
    using block_type [of _ h] locator_type [of _ h] by (auto simp: stream_index_def)
  finally show ?thesis using ok cut_stream [OF codec s ok] by auto
qed

theorem stream_with_length_witness:
  "\<exists>items out n. parseVhdStream fu_reference [ex_image] =
      (FooterItem (with_checksum fu_reference ex_footer) # HeaderItem ex_header # items, Inr ()) \<and>
    createVhdStreamWithLength fu_reference [ex_image] = Inr (out, n) \<and> length (concat out) = n \<and>
    (if \<forall>i b count parts. ContentItem i b count parts \<in> set items \<and> it_type i \<noteq> TypeBlock \<longrightarrow>
          it_offset i + it_size i \<le> n - FOOTER_SIZE
     then parseVhdStream fu_reference out = parseVhdStream fu_reference [ex_image]
     else \<forall>ys. parseVhdStream fu_reference out \<noteq> (ys, Inr ()))"
proof -
  obtain items where p: "parseVhdStream fu_reference [ex_image] =
    (FooterItem (with_checksum fu_reference ex_footer) # HeaderItem ex_header # items, Inr ())" by (rule ex_parsed)
  show ?thesis using stream_with_length [OF fu_ref.struct_fu_codec_axioms p] p by simp
qed

section \<open>Disks as VHDs\<close>

text \<open>
  C6: The stream made of a disk is a VHD of exactly the announced length that is parsed to its end, with the
  identifier, the type and the size of the disk and, for each block of the disk and no other, its data behind a
  bitmap that marks every sector, the last block padded with zeros.
\<close>

theorem disk_stream:
  assumes codec: "struct_fu_codec fu" and ok: "disk_ok source" and fits: "disk_fits source" and target: "target_ok target"
    and env: "length u = 16" "now < 2 ^ 32"
  shows "\<exists>chunks n f h items. toStream fu u now target source = Inr ((chunks, Inr ()), n) \<and> n = length (concat chunks) \<and>
    parseVhdStream fu chunks = (FooterItem f # HeaderItem h # items, Inr ()) \<and>
    map_of (item_blocks items) = disk_content source \<and> distinct (map fst (item_blocks items)) \<and>
    currentSize f = getVirtualSize source \<and> uuid f = (case t_uuid target of None \<Rightarrow> u | Some v \<Rightarrow> v) \<and>
    diskType f = (if isDifferencing source then DISK_TYPE_DIFFERENCING else DISK_TYPE_DYNAMIC)"
proof -
  obtain chunks n f h where t: "toStream fu u now target source = Inr ((chunks, Inr ()), n)" "n = length (concat chunks)"
    and s: "streamable fu (concat chunks) f h"
    and b: "map_of (item_blocks (map (parsed_item h (concat chunks)) (stream_index h (table_of (concat chunks) h)))) =
      disk_content source"
    and f: "currentSize f = getVirtualSize source" "uuid f = (case t_uuid target of None \<Rightarrow> u | Some v \<Rightarrow> v)"
      "diskType f = (if isDifferencing source then DISK_TYPE_DIFFERENCING else DISK_TYPE_DYNAMIC)"
    using struct_fu_codec.toStream_parses [OF codec ok fits target env] by blast
  have "parseVhdStream fu chunks = (FooterItem f # HeaderItem h #
      map (parsed_item h (concat chunks)) (stream_index h (table_of (concat chunks) h)), Inr ())"
    using s parse_iff [OF refl] by blast
  then show ?thesis using t b f item_blocks_map(2) by blast
qed

text \<open>A disk of 3 MiB with two blocks, the second one incomplete.\<close>

definition ex_disk :: source_disk where
  "ex_disk = \<lparr>getVirtualSize = 3145728, isDifferencing = False, getBlockIndexes = [1, 0],
     diskBlocks = ([\<lparr>db_index = 1, db_data = replicate DEFAULT_BLOCK_SIZE 5, db_compression = None\<rparr>,
       \<lparr>db_index = 0, db_data = replicate 100 6, db_compression = None\<rparr>], Inr ())\<rparr>"

definition ex_target :: vhd_target where
  "ex_target = \<lparr>t_uuid = Some (replicate 16 1), t_parentUuid = None, t_parentPath = None\<rparr>"

lemma ex_disk_blocks: "nbTotalBlocks ex_disk = 2"
  by (simp add: nbTotalBlocks_def ex_disk_def ceil_div_def DEFAULT_BLOCK_SIZE_def)

lemma ex_disk_ok: "disk_ok ex_disk" "disk_fits ex_disk"
proof -
  show "disk_ok ex_disk"
    using ex_disk_blocks by (simp add: disk_ok_def ex_disk_def isCompressedBlock_def) (simp add: DEFAULT_BLOCK_SIZE_def)
  have "computeBatSize 2 = 512" by (simp add: layout_defs Let_def ceil_div_def SECTOR_SIZE_def)
  then show "disk_fits ex_disk"
    unfolding disk_fits_def ex_disk_blocks by (simp add: ex_disk_def vhd_sizes SECTOR_SIZE_def BLOCK_UNUSED_def)
qed

lemma ex_target_ok: "target_ok ex_target"
  by (simp add: target_ok_def ex_target_def)

theorem disk_stream_witness:
  "\<exists>chunks n f h items. toStream fu_reference (replicate 16 2) 0 ex_target ex_disk = Inr ((chunks, Inr ()), n) \<and>
    n = length (concat chunks) \<and>
    parseVhdStream fu_reference chunks = (FooterItem f # HeaderItem h # items, Inr ()) \<and>
    map_of (item_blocks items) = disk_content ex_disk \<and> distinct (map fst (item_blocks items)) \<and>
    currentSize f = getVirtualSize ex_disk \<and> uuid f = (case t_uuid ex_target of None \<Rightarrow> replicate 16 2 | Some v \<Rightarrow> v) \<and>
    diskType f = (if isDifferencing ex_disk then DISK_TYPE_DIFFERENCING else DISK_TYPE_DYNAMIC)"
  by (rule disk_stream [OF fu_ref.struct_fu_codec_axioms ex_disk_ok ex_target_ok]) simp_all

lemma toStream_size:
  assumes ok: "disk_ok source" and fits: "disk_fits source" and run: "toStream fu u now target source = Inr (g, n)"
  shows "n = FOOTER_SIZE + HEADER_SIZE + computeBatSize (nbTotalBlocks source) +
    length (getBlockIndexes source) * 2097664 + FOOTER_SIZE"
proof -
  have "distinct (getBlockIndexes source)" "\<forall>i \<in> set (getBlockIndexes source). i < nbTotalBlocks source"
    "(FOOTER_SIZE + HEADER_SIZE + computeBatSize (nbTotalBlocks source)) div SECTOR_SIZE +
      length (getBlockIndexes source) * 4097 < BLOCK_UNUSED"
    using ok fits by (simp_all add: disk_ok_def disk_fits_def Let_def)
  from batAndFileSize [OF nbTotalBlocks_bounds(1) [OF fits] this] show ?thesis
    using run by (auto simp: toStream_def Let_def res_bind_Inr_iff)
qed

text \<open>
  C5: Written as a VHD directory, a disk takes the space that the stream of the same disk announces, and the
  directory, when it is opened again, shows the same blocks as that stream, with the same size and identifier;
  its alias is in place.
\<close>

theorem disk_directory:
  assumes codec: "struct_fu_codec fu" and ok: "disk_ok source" and fits: "disk_fits source" and target: "target_ok target"
    and env: "length u = 16" "now < 2 ^ 32"
    and cmp: "getCompressor zl al (t_compression target) = Inr c" "lossless c"
    and flags: "t_flags target \<in> {None, Some ''w'', Some ''r+''}"
    and named: "is_suffix ''.alias.vhd'' (t_path target)"
      "createAlias (t_path target) (data_path (t_path target)) (cr_aliases r) = Inr aliases"
    and valid: "\<forall>r. t_validator target (t_path target) r = Inr ()"
  shows "\<exists>n r' f chunks items fs h. consumer_write fu zl al blank u now target source r = (Inr n, r') \<and> cr_aliases r' = aliases \<and>
    (\<forall>blank'. \<exists>d. vd_open fu zl al (dir_at blank' (data_path (t_path target)) r') = Inr d \<and>
      dir_blocks d = map_of (item_blocks items) \<and> vd_footer d = f) \<and>
    toStream fu u now (vhd_target.truncate target) source = Inr ((chunks, Inr ()), n) \<and> length (concat chunks) = n \<and>
    parseVhdStream fu chunks = (FooterItem fs # HeaderItem h # items, Inr ()) \<and>
    currentSize f = currentSize fs \<and> uuid f = uuid fs"
proof -
  let ?t = "vhd_target.truncate target"
  obtain chunks n f h where t: "toStream fu u now ?t source = Inr ((chunks, Inr ()), n)" "n = length (concat chunks)"
    and s: "streamable fu (concat chunks) f h"
    and b: "map_of (item_blocks (map (parsed_item h (concat chunks)) (stream_index h (table_of (concat chunks) h)))) =
      disk_content source"
    and f: "currentSize f = getVirtualSize source" "uuid f = (case t_uuid ?t of None \<Rightarrow> u | Some v \<Rightarrow> v)"
    using struct_fu_codec.toStream_parses [OF codec ok fits _ env, of ?t] target by auto
  have p: "parseVhdStream fu chunks = (FooterItem f # HeaderItem h #
      map (parsed_item h (concat chunks)) (stream_index h (table_of (concat chunks) h)), Inr ())"
    using s parse_iff [OF refl] by blast
  let ?n = "FOOTER_SIZE + HEADER_SIZE + computeBatSize (nbTotalBlocks source) +
        length (getBlockIndexes source) * 2097664 + FOOTER_SIZE"
  have n: "n = ?n" by (rule toStream_size [OF ok fits t(1)])
  obtain r' g where w: "consumer_write fu zl al blank u now target source r = (Inr ?n, r')" "cr_aliases r' = aliases"
    "\<forall>blank'. \<exists>d. vd_open fu zl al (dir_at blank' (data_path (t_path target)) r') = Inr d \<and>
      dir_blocks d = disk_content source \<and> vd_footer d = g"
    "currentSize g = getVirtualSize source" "uuid g = (case t_uuid target of None \<Rightarrow> u | Some v \<Rightarrow> v)"
    using struct_fu_codec.consumer_write_ok [OF codec ok fits target env cmp flags named, of blank] valid by blast
  have "uuid g = uuid f" using w(5) f(2) by (simp add: vhd_target.truncate_def)
  then show ?thesis using w(1-4) t p b f(1) n by metis
qed

definition ex_directory_target :: directory_target where
  "ex_directory_target = \<lparr>t_uuid = Some (replicate 16 1), t_parentUuid = None, t_parentPath = None,
     t_path = ''/vm/a.alias.vhd'', t_compression = None, t_flags = None, t_validator = (\<lambda>_ _. Inr ())\<rparr>"

definition ex_remote :: consumer_remote where
  "ex_remote = \<lparr>cr_files = Map.empty, cr_filters = (\<lambda>_. None), cr_aliases = Map.empty\<rparr>"

definition ex_zlib :: zlib where
  "ex_zlib = (\<lambda>_. (Inr, Inr))"

lemma ex_directory_alias:
  "is_suffix ''.alias.vhd'' (t_path ex_directory_target)"
  "createAlias (t_path ex_directory_target) (data_path (t_path ex_directory_target)) (cr_aliases ex_remote) =
    Inr [''/vm/a.alias.vhd'' \<mapsto> AliasFile ''data/a.vhd'']"
proof -
  show "is_suffix ''.alias.vhd'' (t_path ex_directory_target)"
    by (simp add: is_suffix_def ex_directory_target_def)
  have "data_path ''/vm/a.alias.vhd'' = ''/vm/data/a.vhd''"
    by (simp add: data_path_def dirname_def basename_def Let_def)
  then show "createAlias (t_path ex_directory_target) (data_path (t_path ex_directory_target)) (cr_aliases ex_remote) =
    Inr [''/vm/a.alias.vhd'' \<mapsto> AliasFile ''data/a.vhd'']"
    by (simp add: createAlias_def isVhdAlias_def is_suffix_def ex_directory_target_def ex_remote_def absolute_def dirname_def
        resolve_segments_def norm_segments_def push_segment_def is_absolute_def ALIAS_MAX_PATH_LENGTH_def Let_def)
qed

theorem disk_directory_witness:
  "\<exists>n r' f chunks items fs h. consumer_write fu_reference ex_zlib (\<lambda>n. replicate n 0) ex_dir (replicate 16 2) 0
      ex_directory_target ex_disk ex_remote = (Inr n, r') \<and>
    cr_aliases r' = [''/vm/a.alias.vhd'' \<mapsto> AliasFile ''data/a.vhd''] \<and>
    (\<forall>blank'. \<exists>d. vd_open fu_reference ex_zlib (\<lambda>n. replicate n 0)
        (dir_at blank' (data_path (t_path ex_directory_target)) r') = Inr d \<and>
      dir_blocks d = map_of (item_blocks items) \<and> vd_footer d = f) \<and>
    toStream fu_reference (replicate 16 2) 0 (vhd_target.truncate ex_directory_target) ex_disk = Inr ((chunks, Inr ()), n) \<and>
    length (concat chunks) = n \<and>
    parseVhdStream fu_reference chunks = (FooterItem fs # HeaderItem h # items, Inr ()) \<and>
    currentSize f = currentSize fs \<and> uuid f = uuid fs"
  by (rule disk_directory [OF fu_ref.struct_fu_codec_axioms ex_disk_ok _ _ _ _ lossless_none _ ex_directory_alias])
    (simp_all add: target_ok_def ex_directory_target_def getCompressor_def)

section \<open>Sparse disks\<close>

text \<open>
  C7: From the addresses of its grains and then the grains in that order, the import of a disk makes a VHD stream of
  exactly the announced length that is parsed to its end: it has the blocks the grains are in and no other, each
  one with the bytes of its grains at their addresses, zeros elsewhere, and a bitmap that marks the sectors of
  its grains.
\<close>

theorem sparse_stream:
  assumes codec: "struct_fu_codec fu"
    and fs: "0 < fs" "DEFAULT_BLOCK_SIZE mod fs = 0" "DEFAULT_BLOCK_SIZE div fs \<le> 53"
    and frs: "grains_ok fs frs" "map logicalAddressBytes frs = map (\<lambda>a. a * fs) A" "\<forall>a \<in> set A. a * fs < d"
    and d: "d \<le> 2040 * 2 ^ 30" and env: "length u = 16" "now < 2 ^ 32"
  shows "\<exists>chunks n f h items. createReadableStream fu u now d fs A (frs, Inr ()) = Inr ((chunks, Inr n), n) \<and>
    n = length (concat chunks) \<and> parseVhdStream fu chunks = (FooterItem f # HeaderItem h # items, Inr ()) \<and>
    fst ` set (item_blocks items) = (\<lambda>f. logicalAddressBytes f div DEFAULT_BLOCK_SIZE) ` set frs \<and>
    distinct (map fst (item_blocks items)) \<and> (\<forall>(k, b) \<in> set (item_blocks items). sparse_block fs frs k b) \<and>
    currentSize f = snd (computeGeometryForSize d) \<and> uuid f = u \<and> diskType f = DISK_TYPE_DYNAMIC"
proof -
  obtain chunks n f h bs where t: "createReadableStream fu u now d fs A (frs, Inr ()) = Inr ((chunks, Inr n), n)"
      "n = length (concat chunks)"
    and s: "streamable fu (concat chunks) f h"
    and b: "map_of (item_blocks (map (parsed_item h (concat chunks)) (stream_index h (table_of (concat chunks) h)))) = bs"
      "dom bs = (\<lambda>f. logicalAddressBytes f div DEFAULT_BLOCK_SIZE) ` set frs"
      "\<forall>k b. bs k = Some b \<longrightarrow> sparse_block fs frs k b"
    and f: "currentSize f = snd (computeGeometryForSize d)" "uuid f = u" "diskType f = DISK_TYPE_DYNAMIC"
    using struct_fu_codec.sparse_streamable [OF codec fs frs d env] by blast
  let ?items = "map (parsed_item h (concat chunks)) (stream_index h (table_of (concat chunks) h))"
  have "parseVhdStream fu chunks = (FooterItem f # HeaderItem h # ?items, Inr ())"
    using s parse_iff [OF refl] by blast
  moreover have "fst ` set (item_blocks ?items) = (\<lambda>f. logicalAddressBytes f div DEFAULT_BLOCK_SIZE) ` set frs"
    using b(1,2) by (metis dom_map_of_conv_image_fst)
  moreover have "\<forall>(k, b) \<in> set (item_blocks ?items). sparse_block fs frs k b"
    using b(1,3) item_blocks_map(2) by (auto dest: map_of_is_SomeI)
  ultimately show ?thesis using t f item_blocks_map(2) by blast
qed

text \<open>Two grains of 64 KiB in different blocks, the later one first.\<close>

definition ex_grains :: "fragment list" where
  "ex_grains = [\<lparr>logicalAddressBytes = 2621440, fr_data = replicate 65536 3\<rparr>,
     \<lparr>logicalAddressBytes = 65536, fr_data = replicate 65536 4\<rparr>]"

theorem sparse_stream_witness:
  "\<exists>chunks n f h items. createReadableStream fu_reference (replicate 16 2) 0 4194304 65536 [40, 1] (ex_grains, Inr ()) =
      Inr ((chunks, Inr n), n) \<and>
    n = length (concat chunks) \<and> parseVhdStream fu_reference chunks = (FooterItem f # HeaderItem h # items, Inr ()) \<and>
    fst ` set (item_blocks items) = {0, 1} \<and> distinct (map fst (item_blocks items)) \<and>
    list_all (\<lambda>(k, b). sparse_block 65536 ex_grains k b) (item_blocks items) \<and>
    currentSize f = snd (computeGeometryForSize 4194304) \<and> uuid f = replicate 16 2 \<and> diskType f = DISK_TYPE_DYNAMIC"
proof -
  have "(\<lambda>f. logicalAddressBytes f div DEFAULT_BLOCK_SIZE) ` set ex_grains = {0, 1}"
    by (auto simp: ex_grains_def DEFAULT_BLOCK_SIZE_def)
  then show ?thesis
    using sparse_stream [OF fu_ref.struct_fu_codec_axioms, of 65536 ex_grains "[40, 1]" 4194304 "replicate 16 2" 0]
    by (simp add: grains_ok_def ex_grains_def DEFAULT_BLOCK_SIZE_def list_all_iff)
qed

end
