(* ===== verification/Retention.thy ===== *)
theory Retention
  imports Prelude "HOL-Library.AList"
begin

text \<open>
  \<open>@xen-orchestra/backups/_getOldEntries.mjs\<close>: which backups are too old to be kept.

  The entries are given oldest first. The calendar is moment-timezone's: a parameter gives the date of
  a timestamp in a timezone, or fails, and the name of the bucket a date falls in. An entry is an
  object of JavaScript, known by its identity: the entries of a list are pairwise different.
\<close>

section \<open>Buckets\<close>

record ltr_config =
  ltr_retention :: nat
  ltr_firstUnit :: "int option"

record 'e ltr_entry =
  en_timestamp :: "int option"
  en_id :: string
  en_data :: 'e

text \<open>The parts of moment-timezone that are used.\<close>

record 'd calendar =
  cal_date :: "string \<Rightarrow> int \<Rightarrow> 'd option"
  cal_subHours :: "int \<Rightarrow> 'd \<Rightarrow> 'd"
  cal_subDays :: "int \<Rightarrow> 'd \<Rightarrow> 'd"
  cal_format :: "string \<Rightarrow> 'd \<Rightarrow> string"

record 'e date_bucket =
  remaining :: nat
  lastMatchingBucket :: "string option"
  bk_entries :: "(string \<times> 'e ltr_entry) list"

text \<open>\<open>LTR_DEFINITIONS\<close>: the name of the bucket of a date, by the settings of a duration.\<close>

definition LTR_DEFINITIONS :: "'d calendar \<Rightarrow> string \<Rightarrow> (int option \<Rightarrow> 'd \<Rightarrow> string) option" where
  "LTR_DEFINITIONS cal duration =
     (let first = (\<lambda>u. case u of None \<Rightarrow> 0 | Some n \<Rightarrow> n)
      in if duration = ''daily'' then
           Some (\<lambda>u d. cal_format cal ''YYYY-MM-DD'' (cal_subHours cal (first u) d))
         else if duration = ''weekly'' then
           Some (\<lambda>u d. cal_format cal ''gggg-ww'' (cal_subDays cal (first u) d))
         else if duration = ''monthly'' then
           Some (\<lambda>u d. cal_format cal ''YYYY-MM'' (cal_subDays cal (first u) d))
         else if duration = ''yearly'' then
           Some (\<lambda>u d. cal_format cal ''YYYY'' (cal_subDays cal (first u) d))
         else None)"

definition dateCreator :: "'d calendar \<Rightarrow> string \<Rightarrow> int \<Rightarrow> js_error + 'd" where
  "dateCreator cal tz t = (case cal_date cal tz t of None \<Rightarrow> Inl AssertionError | Some d \<Rightarrow> Inr d)"

text \<open>The object \<open>entries\<close> of a bucket is an association list.\<close>

definition fill_bucket :: "string \<Rightarrow> 'e ltr_entry \<Rightarrow> 'e date_bucket \<Rightarrow> 'e date_bucket" where
  "fill_bucket bucket entry b =
     (if lastMatchingBucket b \<noteq> Some bucket then
        if remaining b = 0 then b
        else b\<lparr>lastMatchingBucket := Some bucket, remaining := remaining b - 1,
               bk_entries := AList.update bucket entry (bk_entries b)\<rparr>
      else b\<lparr>bk_entries := AList.update bucket entry (bk_entries b)\<rparr>)"

type_synonym ('d, 'e) buckets = "(string \<times> ('d \<Rightarrow> string) \<times> 'e date_bucket) list"

definition init_bucket :: "'d calendar \<Rightarrow> string option \<Rightarrow> string \<times> ltr_config \<Rightarrow>
    js_error + (string \<times> ('d \<Rightarrow> string) \<times> 'e date_bucket)" where
  "init_bucket cal timezone = (\<lambda>(duration, config).
     case LTR_DEFINITIONS cal duration of
       None \<Rightarrow> Inl AssertionError
     | Some makeDateFormatter \<Rightarrow>
         res_bind (js_assert (timezone \<noteq> None)) (\<lambda>_.
         res_bind (js_assert (ltr_retention config > 0)) (\<lambda>_.
         Inr (duration, makeDateFormatter (ltr_firstUnit config),
           \<lparr>remaining = ltr_retention config, lastMatchingBucket = None, bk_entries = []\<rparr>))))"

text \<open>One iteration of the loop over the entries, from the last one to the first one.\<close>

definition visit_entry :: "(int \<Rightarrow> js_error + 'd) \<Rightarrow> 'e ltr_entry \<Rightarrow> int option \<times> ('d, 'e) buckets \<Rightarrow>
    js_error + (int option \<times> ('d, 'e) buckets)" where
  "visit_entry creator entry st =
     (case st of (previous, bs) \<Rightarrow>
      case en_timestamp entry of
        None \<Rightarrow> Inl AssertionError
      | Some t \<Rightarrow>
          res_bind (js_assert (case previous of None \<Rightarrow> True | Some p \<Rightarrow> t < p)) (\<lambda>_.
          res_bind (creator t) (\<lambda>entryDate.
          Inr (Some t, map (\<lambda>(duration, formatter, b).
            (duration, formatter, fill_bucket (formatter entryDate) entry b)) bs))))"

definition getLtrEntries :: "'d calendar \<Rightarrow> 'e ltr_entry list \<Rightarrow> (string \<times> ltr_config) list \<Rightarrow> string option \<Rightarrow>
    js_error + ('d, 'e) buckets" where
  "getLtrEntries cal entries longTermRetention timezone =
     (if longTermRetention = [] then Inr []
      else
        res_bind (res_map (init_bucket cal timezone) longTermRetention) (\<lambda>bs.
        res_bind (res_fold (visit_entry (dateCreator cal (the timezone))) (rev entries) (None, bs)) (\<lambda>(_, bs).
        Inr bs)))"

definition getEntryStatus :: "'d calendar \<Rightarrow> 'e ltr_entry list \<Rightarrow> 'e ltr_entry \<Rightarrow> (string \<times> ltr_config) list \<Rightarrow>
    string option \<Rightarrow> js_error + (string \<times> string) list" where
  "getEntryStatus cal entries entry longTermRetention timezone =
     res_bind (getLtrEntries cal entries longTermRetention timezone) (\<lambda>bs.
     Inr (concat (map (\<lambda>(duration, _, b).
       map (\<lambda>(dateBucket, _). (duration, dateBucket))
         (filter (\<lambda>(_, bucketEntry). en_id entry = en_id bucketEntry) (bk_entries b))) bs)))"

definition getOldEntries :: "'d calendar \<Rightarrow> nat \<Rightarrow> 'e ltr_entry list \<Rightarrow> (string \<times> ltr_config) list \<Rightarrow>
    string option \<Rightarrow> js_error + 'e ltr_entry list" where
  "getOldEntries cal minRetentionCount entries longTermRetention timezone =
     res_bind (getLtrEntries cal entries longTermRetention timezone) (\<lambda>bs.
     let kept = set (drop (length entries - minRetentionCount) entries) \<union>
           (\<Union>(_, _, b) \<in> set bs. snd ` set (bk_entries b))
     in Inr (filter (\<lambda>e. e \<notin> kept) entries))"

section \<open>What a bucket ends up with\<close>

text \<open>
  The specification: the names of the buckets the entries fall in, from the most recent on; the first
  \<open>n\<close> of them are filled, each with the last entry met that falls in it, the oldest one.
\<close>

definition bucket_names :: "('e ltr_entry \<Rightarrow> string) \<Rightarrow> 'e ltr_entry list \<Rightarrow> string list" where
  "bucket_names f es = remdups_adj (map f es)"

definition oldest_in :: "('e ltr_entry \<Rightarrow> string) \<Rightarrow> 'e ltr_entry list \<Rightarrow> string \<Rightarrow> 'e ltr_entry" where
  "oldest_in f es b = last (filter (\<lambda>e. f e = b) es)"

lemma bucket_names_snoc:
  "bucket_names f (es @ [e]) =
     (if es \<noteq> [] \<and> f (last es) = f e then bucket_names f es else bucket_names f es @ [f e])"
  by (cases es rule: rev_cases) (simp_all add: bucket_names_def remdups_adj_append_two)

lemma bucket_names_last: "es \<noteq> [] \<Longrightarrow> bucket_names f es \<noteq> [] \<and> last (bucket_names f es) = f (last es)"
  by (cases es rule: rev_cases) (auto simp: bucket_names_snoc bucket_names_def last_remdups_adj last_map)

lemma set_bucket_names: "set (bucket_names f es) = f ` set es"
  by (simp add: bucket_names_def)

lemma oldest_in_snoc: "oldest_in f (es @ [e]) b = (if f e = b then e else oldest_in f es b)"
  by (simp add: oldest_in_def)

definition bucket_spec :: "nat \<Rightarrow> ('e ltr_entry \<Rightarrow> string) \<Rightarrow> 'e ltr_entry list \<Rightarrow> 'e date_bucket \<Rightarrow> bool" where
  "bucket_spec n f es b \<longleftrightarrow>
     (let names = bucket_names f es; filled = take n names
      in remaining b = n - length names \<and>
         lastMatchingBucket b = (if filled = [] then None else Some (last filled)) \<and>
         distinct (map fst (bk_entries b)) \<and>
         map_of (bk_entries b) = (\<lambda>k. if k \<in> set filled then Some (oldest_in f es k) else None))"

lemma bucket_spec_init: "bucket_spec n f [] \<lparr>remaining = n, lastMatchingBucket = None, bk_entries = []\<rparr>"
  by (simp add: bucket_spec_def bucket_names_def fun_eq_iff)

lemma bucket_spec_fill:
  assumes spec: "bucket_spec n f es b" and dis: "distinct (bucket_names f (es @ [e]))" and n: "0 < n"
  shows "bucket_spec n f (es @ [e]) (fill_bucket (f e) e b)"
proof -
  let ?names = "bucket_names f es"
  have rem: "remaining b = n - length ?names"
    and last: "lastMatchingBucket b = (if take n ?names = [] then None else Some (last (take n ?names)))"
    and db: "distinct (map fst (bk_entries b))"
    and ent: "map_of (bk_entries b) = (\<lambda>k. if k \<in> set (take n ?names) then Some (oldest_in f es k) else None)"
    using spec by (simp_all add: bucket_spec_def Let_def)
  show ?thesis
  proof (cases "es \<noteq> [] \<and> f (last es) = f e")
    case True
    then have names: "bucket_names f (es @ [e]) = ?names" by (simp add: bucket_names_snoc)
    have ne: "?names \<noteq> []" and lastn: "List.last ?names = f e" using bucket_names_last [of es f] True by auto
    show ?thesis
    proof (cases "length ?names \<le> n")
      case le: True
      then have "lastMatchingBucket b = Some (f e)" using last ne lastn by simp
      moreover have "f e \<in> set ?names" using last_in_set [OF ne] lastn by simp
      ultimately show ?thesis
        using rem last db ent le n by (auto simp: bucket_spec_def Let_def names fill_bucket_def update_conv'
            distinct_update oldest_in_snoc fun_eq_iff)
    next
      case gt: False
      have "f e \<notin> set (take n ?names)"
      proof
        assume "f e \<in> set (take n ?names)"
        moreover have "f e \<in> set (drop n ?names)" using gt lastn by (metis last_drop last_in_set drop_eq_Nil not_le_imp_less)
        ultimately show False
          using dis unfolding names by (metis append_take_drop_id disjoint_iff distinct_append)
      qed
      moreover have "take n ?names \<noteq> []" using n ne by simp
      ultimately have "lastMatchingBucket b \<noteq> Some (f e)" using last by (metis last_in_set option.inject)
      with \<open>f e \<notin> set (take n ?names)\<close> gt rem last db ent show ?thesis
        by (auto simp: bucket_spec_def Let_def names fill_bucket_def oldest_in_snoc fun_eq_iff)
    qed
  next
    case False
    then have names: "bucket_names f (es @ [e]) = ?names @ [f e]" by (auto simp: bucket_names_snoc)
    then have new: "f e \<notin> set ?names" using dis by simp
    then have nl: "lastMatchingBucket b \<noteq> Some (f e)" using last by (metis in_set_takeD last_in_set option.inject option.distinct(1))
    show ?thesis
    proof (cases "length ?names < n")
      case True
      with rem last db ent nl new show ?thesis
        by (auto simp: bucket_spec_def Let_def names fill_bucket_def update_conv' distinct_update oldest_in_snoc
            fun_eq_iff)
    next
      case full: False
      with new have "f e \<notin> set (take n ?names)" by (auto dest: in_set_takeD)
      with full rem last db ent nl show ?thesis
        by (auto simp: bucket_spec_def Let_def names fill_bucket_def oldest_in_snoc fun_eq_iff)
    qed
  qed
qed

section \<open>The whole loop\<close>

text \<open>The bucket of an entry, and the entries a retention can work on, most recent first.\<close>

definition bucket_of :: "'d calendar \<Rightarrow> string \<Rightarrow> ('d \<Rightarrow> string) \<Rightarrow> 'e ltr_entry \<Rightarrow> string" where
  "bucket_of cal tz formatter e = formatter (the (cal_date cal tz (the (en_timestamp e))))"

definition datable :: "'d calendar \<Rightarrow> string \<Rightarrow> 'e ltr_entry list \<Rightarrow> bool" where
  "datable cal tz es \<longleftrightarrow>
     (\<forall>e \<in> set es. en_timestamp e \<noteq> None \<and> cal_date cal tz (the (en_timestamp e)) \<noteq> None) \<and>
     sorted_wrt (\<lambda>a b. the (en_timestamp a) > the (en_timestamp b)) es"

definition fill_all :: "'d calendar \<Rightarrow> string \<Rightarrow> ('d \<Rightarrow> string) \<Rightarrow> 'e ltr_entry list \<Rightarrow> 'e date_bucket \<Rightarrow> 'e date_bucket" where
  "fill_all cal tz formatter es b = fold (\<lambda>e. fill_bucket (bucket_of cal tz formatter e) e) es b"

lemma visit_all:
  assumes "datable cal tz es" "\<And>e p. e \<in> set es \<Longrightarrow> prev = Some p \<Longrightarrow> the (en_timestamp e) < p"
  shows "\<exists>t. res_fold (visit_entry (dateCreator cal tz)) es (prev, bs) =
    Inr (t, map (\<lambda>(d, f, b). (d, f, fill_all cal tz f es b)) bs)"
  using assms
proof (induction es arbitrary: prev bs)
  case Nil
  have "map (\<lambda>(d, f, b). (d, f, fill_all cal tz f [] b)) bs = bs" by (simp add: fill_all_def case_prod_beta)
  then show ?case by simp
next
  case (Cons e es)
  obtain t where t: "en_timestamp e = Some t" using Cons.prems(1) by (auto simp: datable_def)
  obtain d where d: "cal_date cal tz t = Some d" using Cons.prems(1) t by (auto simp: datable_def)
  have ok: "case prev of None \<Rightarrow> True | Some p \<Rightarrow> t < p"
    using Cons.prems(2) [of e] t by (auto split: option.split)
  have dat: "datable cal tz es" using Cons.prems(1) by (simp add: datable_def)
  let ?bs = "map (\<lambda>(d', f, b). (d', f, fill_bucket (f d) e b)) bs"
  have step: "visit_entry (dateCreator cal tz) e (prev, bs) = Inr (Some t, ?bs)"
    using ok by (simp add: visit_entry_def t dateCreator_def d)
  have "the (en_timestamp x) < p" if "x \<in> set es" "Some t = Some p" for x p
    using Cons.prems(1) that t by (simp add: datable_def)
  from Cons.IH [where bs = ?bs and prev = "Some t", OF dat this] obtain t' where
    "res_fold (visit_entry (dateCreator cal tz)) es (Some t, ?bs) =
      Inr (t', map (\<lambda>(d, f, b). (d, f, fill_all cal tz f es b)) ?bs)" by blast
  moreover have "map (\<lambda>(d, f, b). (d, f, fill_all cal tz f es b)) ?bs =
      map (\<lambda>(d, f, b). (d, f, fill_all cal tz f (e # es) b)) bs"
    by (simp add: fill_all_def bucket_of_def t d case_prod_beta comp_def)
  ultimately show ?case using step by simp
qed

lemma distinct_names_prefix:
  "distinct (bucket_names f (es @ [e])) \<Longrightarrow> distinct (bucket_names f es)"
  by (simp add: bucket_names_snoc split: if_splits)

lemma fill_all_spec:
  assumes "0 < n" "distinct (bucket_names (bucket_of cal tz f) es)"
  shows "bucket_spec n (bucket_of cal tz f) es
    (fill_all cal tz f es \<lparr>remaining = n, lastMatchingBucket = None, bk_entries = []\<rparr>)"
  using assms(2)
proof (induction es rule: rev_induct)
  case Nil
  show ?case by (simp add: fill_all_def bucket_spec_init)
next
  case (snoc e es)
  from bucket_spec_fill [OF snoc.IH [OF distinct_names_prefix [OF snoc.prems]] snoc.prems assms(1)]
  show ?case by (simp add: fill_all_def)
qed

text \<open>A configuration that is accepted, and the bucket function of each duration.\<close>

definition ltr_ok :: "(string \<times> ltr_config) list \<Rightarrow> bool" where
  "ltr_ok ltr \<longleftrightarrow> (\<forall>(duration, config) \<in> set ltr.
     duration \<in> {''daily'', ''weekly'', ''monthly'', ''yearly''} \<and> 0 < ltr_retention config)"

definition ltr_formatter :: "'d calendar \<Rightarrow> string \<times> ltr_config \<Rightarrow> 'd \<Rightarrow> string" where
  "ltr_formatter cal = (\<lambda>(duration, config). the (LTR_DEFINITIONS cal duration) (ltr_firstUnit config))"

lemma init_buckets:
  assumes "ltr_ok ltr"
  shows "res_map (init_bucket cal (Some tz)) ltr =
    Inr (map (\<lambda>(d, c). (d, ltr_formatter cal (d, c),
      \<lparr>remaining = ltr_retention c, lastMatchingBucket = None, bk_entries = []\<rparr>)) ltr)"
proof (rule res_map_Inr)
  fix x
  assume "x \<in> set ltr"
  with assms obtain d c where x: "x = (d, c)" "d \<in> {''daily'', ''weekly'', ''monthly'', ''yearly''}" "0 < ltr_retention c"
    by (auto simp: ltr_ok_def)
  then obtain g where "LTR_DEFINITIONS cal d = Some g" by (auto simp: LTR_DEFINITIONS_def Let_def)
  with x show "init_bucket cal (Some tz) x = Inr (case x of (d, c) \<Rightarrow> (d, ltr_formatter cal (d, c),
      \<lparr>remaining = ltr_retention c, lastMatchingBucket = None, bk_entries = []\<rparr>))"
    by (simp add: init_bucket_def ltr_formatter_def)
qed

definition kept_by :: "'d calendar \<Rightarrow> string \<Rightarrow> 'e ltr_entry list \<Rightarrow> string \<times> ltr_config \<Rightarrow> 'e ltr_entry \<Rightarrow> bool" where
  "kept_by cal tz es dc e \<longleftrightarrow>
     (let f = bucket_of cal tz (ltr_formatter cal dc)
      in \<exists>b \<in> set (take (ltr_retention (snd dc)) (bucket_names f (rev es))). e = oldest_in f (rev es) b)"

lemma snd_map_of: "distinct (map fst xs) \<Longrightarrow> snd ` set xs = {v. \<exists>k. map_of xs k = Some v}"
  by (force simp: image_iff)

lemma getOldEntries_spec:
  assumes ok: "ltr_ok ltr" "datable cal tz (rev es)"
    and dis: "\<And>dc. dc \<in> set ltr \<Longrightarrow> distinct (bucket_names (bucket_of cal tz (ltr_formatter cal dc)) (rev es))"
  shows "getOldEntries cal n es ltr (Some tz) =
    Inr (filter (\<lambda>e. e \<notin> set (drop (length es - n) es) \<and> (\<forall>dc \<in> set ltr. \<not> kept_by cal tz es dc e)) es)"
proof -
  let ?init = "\<lambda>c. \<lparr>remaining = ltr_retention c, lastMatchingBucket = None, bk_entries = []\<rparr>"
  let ?bs = "map (\<lambda>(d, c). (d, ltr_formatter cal (d, c), ?init c)) ltr"
  let ?done = "map (\<lambda>(d, f, b). (d, f, fill_all cal tz f (rev es) b)) ?bs"
  from visit_all [OF ok(2), of None ?bs] obtain t where
    loop: "res_fold (visit_entry (dateCreator cal tz)) (rev es) (None, ?bs) = Inr (t, ?done)" by auto
  have entries: "snd ` set (bk_entries (fill_all cal tz (ltr_formatter cal (d, c)) (rev es) (?init c))) =
      {e. kept_by cal tz es (d, c) e}" if dc: "(d, c) \<in> set ltr" for d c
  proof -
    have n: "0 < ltr_retention c" using ok(1) dc by (auto simp: ltr_ok_def)
    let ?b = "fill_all cal tz (ltr_formatter cal (d, c)) (rev es) (?init c)"
    have spec: "bucket_spec (ltr_retention c) (bucket_of cal tz (ltr_formatter cal (d, c))) (rev es) ?b"
      by (rule fill_all_spec [OF n dis [OF dc]])
    then have "distinct (map fst (bk_entries ?b))" by (simp add: bucket_spec_def Let_def)
    from snd_map_of [OF this] spec show ?thesis
      by (auto simp: bucket_spec_def Let_def kept_by_def split: if_splits)
  qed
  define dn where "dn = ?done"
  have kept: "(\<Union>(_, _, b) \<in> set dn. snd ` set (bk_entries b)) = {e. \<exists>dc \<in> set ltr. kept_by cal tz es dc e}"
    unfolding dn_def using entries by (fastforce simp: image_iff)
  have "getLtrEntries cal es ltr (Some tz) = Inr (if ltr = [] then [] else dn)"
    unfolding dn_def using loop by (simp add: getLtrEntries_def init_buckets [OF ok(1)])
  moreover have "dn = []" if "ltr = []" using that by (simp add: dn_def)
  ultimately have "getLtrEntries cal es ltr (Some tz) = Inr dn" by (cases "ltr = []") simp_all
  then show ?thesis
    unfolding getOldEntries_def Let_def by (simp only: kept res_bind_simps) simp
qed

end
