(* ===== verification/Acl_Resolver.thy ===== *)
theory Acl_Resolver
  imports Prelude
begin

text \<open>
  \<open>packages/xo-acl-resolver/index.js\<close>: whether a user has a permission on an object, from the
  permissions set on the objects and the relations between the objects; what it is to decide, as the least
  set of granted objects; and the proof that its checkers decide it.

  The checkers follow the relations without remembering the objects they have seen, so a cycle of
  relations is a recursion that does not end: a check is given the depth it may reach, and its result
  is \<open>None\<close> when the depth does not suffice. The global variables of the module are arguments.
\<close>

section \<open>Definitions\<close>

text \<open>A property that an object does not have is \<open>undefined\<close>: \<open>None\<close> for a member.\<close>

record xo_object =
  xo_id :: string
  xo_type :: string
  xo_member :: "string \<Rightarrow> string option"
  xo_members :: "string \<Rightarrow> string list"

type_synonym objects = "string \<Rightarrow> xo_object option"
type_synonym permissions = "string \<Rightarrow> (string \<Rightarrow> bool) option"
type_synonym checker = "xo_object \<Rightarrow> string \<Rightarrow> bool option"
type_synonym authorization = "string option \<Rightarrow> string \<Rightarrow> bool option"

definition authorized :: checker where "authorized = (\<lambda>_ _. Some True)"
definition forbidden :: checker where "forbidden = (\<lambda>_ _. Some False)"

fun and_checkers :: "checker list \<Rightarrow> checker" where
  "and_checkers [] obj permission = Some True"
| "and_checkers (c # cs) obj permission =
     (case c obj permission of None \<Rightarrow> None | Some b \<Rightarrow>
        if \<not> b then Some False else and_checkers cs obj permission)"

fun or_checkers :: "checker list \<Rightarrow> checker" where
  "or_checkers [] obj permission = Some False"
| "or_checkers (c # cs) obj permission =
     (case c obj permission of None \<Rightarrow> None | Some b \<Rightarrow>
        if b then Some True else or_checkers cs obj permission)"

definition checkMember :: "authorization \<Rightarrow> string \<Rightarrow> checker" where
  "checkMember check memberName obj permission =
     (let member = xo_member obj memberName
      in if member \<noteq> Some (xo_id obj) then check member permission else Some False)"

fun every_member :: "authorization \<Rightarrow> string list \<Rightarrow> string \<Rightarrow> bool option" where
  "every_member check [] permission = Some True"
| "every_member check (m # ms) permission =
     (case check (Some m) permission of None \<Rightarrow> None | Some b \<Rightarrow>
        if b then every_member check ms permission else Some False)"

definition checkMembers :: "authorization \<Rightarrow> string \<Rightarrow> checker" where
  "checkMembers check memberName obj permission =
     (let members = xo_members obj memberName
      in if length members > 0 then every_member check members permission else Some False)"

definition checkSelf :: "permissions \<Rightarrow> checker" where
  "checkSelf perms obj permission =
     (case perms (xo_id obj) of None \<Rightarrow> Some False | Some p \<Rightarrow> Some (p permission))"

fun any_vm :: "objects \<Rightarrow> authorization \<Rightarrow> string list \<Rightarrow> string \<Rightarrow> bool option" where
  "any_vm getObject check [] permission = Some False"
| "any_vm getObject check (vbdId # ids) permission =
     (case getObject vbdId of
        None \<Rightarrow> any_vm getObject check ids permission
      | Some vbd \<Rightarrow>
          (case check (xo_member vbd ''VM'') permission of None \<Rightarrow> None | Some b \<Rightarrow>
             if b then Some True else any_vm getObject check ids permission))"

definition checkVdi :: "objects \<Rightarrow> authorization \<Rightarrow> checker" where
  "checkVdi getObject check vdi permission =
     (case check (xo_member vdi ''$SR'') permission of None \<Rightarrow> None | Some b \<Rightarrow>
        if b then Some True else any_vm getObject check (xo_members vdi ''$VBDs'') permission)"

definition checkAuthorizationByTypes ::
  "objects \<Rightarrow> permissions \<Rightarrow> authorization \<Rightarrow> string \<Rightarrow> checker option" where
  "checkAuthorizationByTypes getObject perms check =
     (let self = checkSelf perms; member = checkMember check
      in map_of [
        (''host'', or_checkers [self, member ''$pool'']),
        (''message'', member ''$object''),
        (''network'', or_checkers [self, member ''$pool'']),
        (''PBD'', or_checkers [member ''host'', member ''SR'']),
        (''PCI'', member ''$host''),
        (''PIF'', member ''$host''),
        (''PUSB'', member ''host''),
        (''SR'', or_checkers [self, member ''$container'']),
        (''task'', member ''$host''),
        (''USB_group'', checkMembers check ''PUSBs''),
        (''VBD'', member ''VDI''),
        (''VDI'', checkVdi getObject check),
        (''VDI-snapshot'', member ''$snapshot_of''),
        (''VDI-unmanaged'', checkVdi getObject check),
        (''VIF'', or_checkers [member ''$network'', member ''$VM'']),
        (''VM'', or_checkers [self, member ''$container'']),
        (''VM-controller'', member ''$container''),
        (''VM-snapshot'', or_checkers [self, member ''$snapshot_of'']),
        (''VM-template'', or_checkers [self, member ''$pool'']),
        (''VUSB'', member ''vm'')])"

fun checkAuthorization :: "nat \<Rightarrow> objects \<Rightarrow> permissions \<Rightarrow> string option \<Rightarrow> string \<Rightarrow> bool option" where
  "checkAuthorization 0 getObject perms objectId permission = None"
| "checkAuthorization (Suc depth) getObject perms objectId permission =
     (case Option.bind objectId getObject of
        None \<Rightarrow> Some False
      | Some obj \<Rightarrow>
          (case checkAuthorizationByTypes getObject perms (checkAuthorization depth getObject perms) (xo_type obj) of
             None \<Rightarrow> checkSelf perms obj permission
           | Some checker \<Rightarrow> checker obj permission))"

text \<open>
  \<open>assert\<close> throws the error \<open>unauthorized\<close> of the first object that is refused; its first form, with one
  object, is a list of one pair.
\<close>

fun assertPermissions :: "nat \<Rightarrow> objects \<Rightarrow> permissions \<Rightarrow> (string \<times> string) list \<Rightarrow>
    ((string \<times> string) + unit) option" where
  "assertPermissions depth getObject perms [] = Some (Inr ())"
| "assertPermissions depth getObject perms ((objectId, permission) # ps) =
     (case checkAuthorization depth getObject perms (Some objectId) permission of
        None \<Rightarrow> None
      | Some b \<Rightarrow> if b then assertPermissions depth getObject perms ps else Some (Inl (permission, objectId)))"

definition checkPermissions :: "nat \<Rightarrow> objects \<Rightarrow> permissions \<Rightarrow> (string \<times> string) list \<Rightarrow> bool option" where
  "checkPermissions depth getObject perms ps =
     map_option (\<lambda>r. case r of Inl _ \<Rightarrow> False | Inr _ \<Rightarrow> True) (assertPermissions depth getObject perms ps)"

definition testPermission :: "nat \<Rightarrow> objects \<Rightarrow> permissions \<Rightarrow> string \<Rightarrow> string \<Rightarrow> bool option" where
  "testPermission depth getObject perms objectId permission =
     checkAuthorization depth getObject perms (Some objectId) permission"

section \<open>The permissions a user has\<close>

text \<open>
  What the resolver is to decide, without its recursion: the types on whose objects a permission may be
  set, the members whose access suffices for an object of a type, and the least set of objects that these
  two close. The types that are not listed, like the pool, have their own permissions only.
\<close>

definition has_own :: "string \<Rightarrow> bool" where
  "has_own ty \<longleftrightarrow> ty \<notin> {''message'', ''PBD'', ''PCI'', ''PIF'', ''PUSB'', ''task'', ''USB_group'', ''VBD'', ''VDI'',
     ''VDI-snapshot'', ''VDI-unmanaged'', ''VIF'', ''VM-controller'', ''VUSB''}"

definition followed :: "string \<Rightarrow> string list" where
  "followed ty =
     (if ty \<in> {''host'', ''network'', ''VM-template''} then [''$pool'']
      else if ty \<in> {''SR'', ''VM'', ''VM-controller''} then [''$container'']
      else if ty \<in> {''VM-snapshot'', ''VDI-snapshot''} then [''$snapshot_of'']
      else if ty \<in> {''PCI'', ''PIF'', ''task''} then [''$host'']
      else if ty = ''PUSB'' then [''host'']
      else if ty = ''PBD'' then [''host'', ''SR'']
      else if ty = ''VIF'' then [''$network'', ''$VM'']
      else if ty = ''VBD'' then [''VDI'']
      else if ty = ''VUSB'' then [''vm'']
      else if ty = ''message'' then [''$object''] else [])"

definition is_disk :: "string \<Rightarrow> bool" where
  "is_disk ty \<longleftrightarrow> ty = ''VDI'' \<or> ty = ''VDI-unmanaged''"

text \<open>The machines a disk is plugged to.\<close>

definition plugged :: "objects \<Rightarrow> xo_object \<Rightarrow> string \<Rightarrow> bool" where
  "plugged g vdi vm \<longleftrightarrow> (\<exists>v \<in> set (xo_members vdi ''$VBDs''). \<exists>vbd. g v = Some vbd \<and> xo_member vbd ''VM'' = Some vm)"

inductive granted :: "objects \<Rightarrow> permissions \<Rightarrow> string \<Rightarrow> string \<Rightarrow> bool" for g perms p where
  granted_own: "g i = Some obj \<Longrightarrow> has_own (xo_type obj) \<Longrightarrow> perms (xo_id obj) = Some ps \<Longrightarrow> ps p \<Longrightarrow>
    granted g perms p i"
| granted_member: "g i = Some obj \<Longrightarrow> n \<in> set (followed (xo_type obj)) \<Longrightarrow> xo_member obj n = Some j \<Longrightarrow>
    j \<noteq> xo_id obj \<Longrightarrow> granted g perms p j \<Longrightarrow> granted g perms p i"
| granted_sr: "g i = Some obj \<Longrightarrow> is_disk (xo_type obj) \<Longrightarrow> xo_member obj ''$SR'' = Some j \<Longrightarrow>
    granted g perms p j \<Longrightarrow> granted g perms p i"
| granted_vm: "g i = Some obj \<Longrightarrow> is_disk (xo_type obj) \<Longrightarrow> plugged g obj j \<Longrightarrow>
    granted g perms p j \<Longrightarrow> granted g perms p i"
| granted_group: "g i = Some obj \<Longrightarrow> xo_type obj = ''USB_group'' \<Longrightarrow> xo_members obj ''PUSBs'' \<noteq> [] \<Longrightarrow>
    (\<And>j. j \<in> set (xo_members obj ''PUSBs'') \<Longrightarrow> granted g perms p j) \<Longrightarrow> granted g perms p i"

inductive_cases grantedE: "granted g perms p i"

text \<open>The objects a check of \<open>obj\<close> may go to.\<close>

definition follows :: "objects \<Rightarrow> xo_object \<Rightarrow> string \<Rightarrow> bool" where
  "follows g obj j \<longleftrightarrow>
     (\<exists>n \<in> set (followed (xo_type obj)). xo_member obj n = Some j \<and> j \<noteq> xo_id obj) \<or>
     is_disk (xo_type obj) \<and> (xo_member obj ''$SR'' = Some j \<or> plugged g obj j) \<or>
     xo_type obj = ''USB_group'' \<and> j \<in> set (xo_members obj ''PUSBs'')"

section \<open>The checkers decide them\<close>

text \<open>
  \<open>decides c obj p E X\<close>: an answer of the checker is \<open>X\<close>, and there is one when \<open>E\<close> holds. \<open>G\<close> is what
  the recursive check decides, \<open>E j\<close> that it has an answer for \<open>j\<close>, and \<open>e\<close> that it has one for \<open>undefined\<close>.
\<close>

definition decides :: "checker \<Rightarrow> xo_object \<Rightarrow> string \<Rightarrow> bool \<Rightarrow> bool \<Rightarrow> bool" where
  "decides c obj p e x \<longleftrightarrow> (\<forall>b. c obj p = Some b \<longrightarrow> b = x) \<and> (e \<longrightarrow> c obj p \<noteq> None)"

definition check_decides :: "authorization \<Rightarrow> string \<Rightarrow> bool \<Rightarrow> (string \<Rightarrow> bool) \<Rightarrow> (string \<Rightarrow> bool) \<Rightarrow> bool" where
  "check_decides check p e E G \<longleftrightarrow>
     (\<forall>i b. check i p = Some b \<longrightarrow> b = (\<exists>j. i = Some j \<and> G j)) \<and>
     (e \<longrightarrow> check None p \<noteq> None) \<and> (\<forall>j. E j \<longrightarrow> check (Some j) p \<noteq> None)"

lemma decides_self: "decides (checkSelf perms) obj p True (\<exists>ps. perms (xo_id obj) = Some ps \<and> ps p)"
  by (cases "perms (xo_id obj)") (simp_all add: decides_def checkSelf_def)

lemma decides_or: "decides c obj p e x \<Longrightarrow> decides d obj p e' y \<Longrightarrow> decides (or_checkers [c, d]) obj p (e \<and> e') (x \<or> y)"
  by (auto simp: decides_def split: option.splits)

lemma decides_member:
  assumes "check_decides check p e E G"
  shows "decides (checkMember check n) obj p (e \<and> (\<forall>j. xo_member obj n = Some j \<and> j \<noteq> xo_id obj \<longrightarrow> E j))
    (\<exists>j. xo_member obj n = Some j \<and> j \<noteq> xo_id obj \<and> G j)"
  using assms by (cases "xo_member obj n") (auto simp: decides_def check_decides_def checkMember_def Let_def)

lemma decides_every:
  assumes "check_decides check p e E G"
  shows "(\<forall>b. every_member check ms p = Some b \<longrightarrow> b = (\<forall>m \<in> set ms. G m)) \<and>
    ((\<forall>m \<in> set ms. E m) \<longrightarrow> every_member check ms p \<noteq> None)"
proof (induction ms)
  case (Cons m ms)
  have "check (Some m) p = Some b \<Longrightarrow> b = G m" and "E m \<Longrightarrow> check (Some m) p \<noteq> None" for b
    using assms by (auto simp: check_decides_def)
  then show ?case using Cons by (cases "check (Some m) p") auto
qed simp

lemma decides_members:
  assumes "check_decides check p e E G"
  shows "decides (checkMembers check n) obj p (\<forall>j \<in> set (xo_members obj n). E j)
    (xo_members obj n \<noteq> [] \<and> (\<forall>j \<in> set (xo_members obj n). G j))"
  using decides_every [OF assms, of "xo_members obj n"] by (auto simp: decides_def checkMembers_def Let_def)

lemma decides_any:
  fixes g :: objects
  assumes "check_decides check p e E G"
  defines "vm \<equiv> \<lambda>j v. \<exists>vbd. g v = Some vbd \<and> xo_member vbd ''VM'' = Some j"
  shows "(\<forall>b. any_vm g check ids p = Some b \<longrightarrow> b = (\<exists>v \<in> set ids. \<exists>j. vm j v \<and> G j)) \<and>
    (e \<and> (\<forall>v \<in> set ids. \<forall>j. vm j v \<longrightarrow> E j) \<longrightarrow> any_vm g check ids p \<noteq> None)"
proof (induction ids)
  case (Cons v ids)
  have c: "check i p = Some b \<Longrightarrow> b = (\<exists>j. i = Some j \<and> G j)" "e \<Longrightarrow> check None p \<noteq> None" "E j \<Longrightarrow> check (Some j) p \<noteq> None"
    for i b j using assms(1) by (auto simp: check_decides_def)
  show ?case
  proof (cases "g v")
    case None
    then show ?thesis using Cons by (auto simp: vm_def)
  next
    case (Some vbd)
    have ends: "check (xo_member vbd ''VM'') p \<noteq> None" if "e" "\<forall>j. vm j v \<longrightarrow> E j"
      using that c(2,3) Some by (cases "xo_member vbd ''VM''") (auto simp: vm_def)
    show ?thesis
    proof (cases "check (xo_member vbd ''VM'') p")
      case None
      then show ?thesis using ends Some by auto
    next
      case (Some b)
      then have "b = (\<exists>j. vm j v \<and> G j)" using c(1) \<open>g v = Some vbd\<close> by (auto simp: vm_def)
      then show ?thesis using Cons Some \<open>g v = Some vbd\<close> by auto
    qed
  qed
qed simp

lemma decides_vdi:
  assumes "check_decides check p e E G"
  shows "decides (checkVdi g check) obj p
    (e \<and> (\<forall>j. xo_member obj ''$SR'' = Some j \<or> plugged g obj j \<longrightarrow> E j))
    (\<exists>j. (xo_member obj ''$SR'' = Some j \<or> plugged g obj j) \<and> G j)"
proof -
  have c: "check i p = Some b \<Longrightarrow> b = (\<exists>j. i = Some j \<and> G j)" "e \<Longrightarrow> check None p \<noteq> None" "E j \<Longrightarrow> check (Some j) p \<noteq> None"
    for i b j using assms(1) by (auto simp: check_decides_def)
  have "check (xo_member obj ''$SR'') p \<noteq> None" if "e" "\<forall>j. xo_member obj ''$SR'' = Some j \<longrightarrow> E j"
    using that c(2,3) by (cases "xo_member obj ''$SR''") auto
  then show ?thesis
    using decides_any [OF assms, of g "xo_members obj ''$VBDs''"] c(1) [of "xo_member obj ''$SR''"]
    unfolding decides_def checkVdi_def plugged_def
    by (cases "check (xo_member obj ''$SR'') p") (simp_all, blast+)
qed

text \<open>What an object is granted for, in one formula.\<close>

definition reason :: "objects \<Rightarrow> permissions \<Rightarrow> string \<Rightarrow> (string \<Rightarrow> bool) \<Rightarrow> xo_object \<Rightarrow> bool" where
  "reason g perms p G obj \<longleftrightarrow>
     has_own (xo_type obj) \<and> (\<exists>ps. perms (xo_id obj) = Some ps \<and> ps p) \<or>
     (\<exists>n \<in> set (followed (xo_type obj)). \<exists>j. xo_member obj n = Some j \<and> j \<noteq> xo_id obj \<and> G j) \<or>
     is_disk (xo_type obj) \<and> (\<exists>j. (xo_member obj ''$SR'' = Some j \<or> plugged g obj j) \<and> G j) \<or>
     xo_type obj = ''USB_group'' \<and> xo_members obj ''PUSBs'' \<noteq> [] \<and> (\<forall>j \<in> set (xo_members obj ''PUSBs''). G j)"

lemma granted_reason: "granted g perms p i \<longleftrightarrow> (\<exists>obj. g i = Some obj \<and> reason g perms p (granted g perms p) obj)"
proof
  assume "granted g perms p i"
  then show "\<exists>obj. g i = Some obj \<and> reason g perms p (granted g perms p) obj"
    by (rule grantedE) (auto simp: reason_def)
next
  assume "\<exists>obj. g i = Some obj \<and> reason g perms p (granted g perms p) obj"
  then show "granted g perms p i"
    unfolding reason_def
    by (elim exE conjE disjE bexE) (auto intro: granted.intros)
qed

lemma decides_mono: "decides c obj p e x \<Longrightarrow> (e' \<Longrightarrow> e) \<Longrightarrow> x = x' \<Longrightarrow> decides c obj p e' x'"
  by (simp add: decides_def)

lemma decides_types:
  assumes check: "check_decides check p e E G"
  shows "decides (case checkAuthorizationByTypes g perms check (xo_type obj) of None \<Rightarrow> checkSelf perms | Some c \<Rightarrow> c)
    obj p (e \<and> (\<forall>j. follows g obj j \<longrightarrow> E j)) (reason g perms p G obj)"
proof -
  note member = decides_member [OF check, of _ obj] and members = decides_members [OF check, of _ obj]
    and vdi = decides_vdi [OF check, of g obj] and self = decides_self [of perms obj p]
  note rules = self member members vdi decides_or [OF self member] decides_or [OF member member]
  show ?thesis
  proof (cases "checkAuthorizationByTypes g perms check (xo_type obj)")
    case None
    then have ty: "has_own (xo_type obj) \<and> followed (xo_type obj) = [] \<and> \<not> is_disk (xo_type obj) \<and> xo_type obj \<noteq> ''USB_group''"
      by (simp add: checkAuthorizationByTypes_def Let_def has_own_def followed_def is_disk_def split: if_splits)
    show ?thesis using None ty by (auto intro!: decides_mono [OF self] simp: reason_def)
  next
    case (Some c)
    note table = map_of_SomeD [OF Some [unfolded checkAuthorizationByTypes_def Let_def]]
    have "decides c obj p (e \<and> (\<forall>j. follows g obj j \<longrightarrow> E j)) (reason g perms p G obj)"
      using table
      by (simp only: list.set insert_iff prod.inject empty_iff simp_thms)
        (elim disjE conjE; hypsubst; rule decides_mono, rule rules,
          simp add: follows_def followed_def is_disk_def,
          simp add: reason_def has_own_def followed_def is_disk_def conj_disj_distribR ex_disj_distrib)
    then show ?thesis using Some by simp
  qed
qed
section \<open>The resolver decides what is granted\<close>

text \<open>An answer is right whatever the depth, on relations with cycles too.\<close>

lemma check_decides_Suc:
  assumes "check_decides (checkAuthorization d g perms) p e E (granted g perms p)"
  shows "check_decides (checkAuthorization (Suc d) g perms) p True
    (\<lambda>i. \<forall>obj. g i = Some obj \<longrightarrow> e \<and> (\<forall>j. follows g obj j \<longrightarrow> E j)) (granted g perms p)"
proof -
  have "(\<forall>b. checkAuthorization (Suc d) g perms (Some i) p = Some b \<longrightarrow> b = granted g perms p i) \<and>
      ((\<forall>obj. g i = Some obj \<longrightarrow> e \<and> (\<forall>j. follows g obj j \<longrightarrow> E j)) \<longrightarrow>
        checkAuthorization (Suc d) g perms (Some i) p \<noteq> None)" for i
  proof (cases "g i")
    case None
    then show ?thesis by (simp add: granted_reason [of g perms p i])
  next
    case (Some obj)
    then have "granted g perms p i = reason g perms p (granted g perms p) obj"
      by (simp add: granted_reason [of g perms p i])
    then show ?thesis
      using decides_types [OF assms, where g = g and perms = perms and obj = obj] Some
      by (cases "checkAuthorizationByTypes g perms (checkAuthorization d g perms) (xo_type obj)")
        (simp_all add: decides_def)
  qed
  note some = this
  have none: "checkAuthorization (Suc d) g perms None p = Some False" by simp
  have "\<forall>b. checkAuthorization (Suc d) g perms i p = Some b \<longrightarrow> b = (\<exists>j. i = Some j \<and> granted g perms p j)" for i
    using some none by (cases i) (simp_all del: checkAuthorization.simps)
  then show ?thesis
    using some none by (simp add: check_decides_def del: checkAuthorization.simps)
qed

lemma check_decides_granted:
  "\<exists>e. check_decides (checkAuthorization d g perms) p e (\<lambda>_. False) (granted g perms p)"
proof (induction d)
  case 0
  then show ?case by (intro exI [of _ False]) (simp add: check_decides_def)
next
  case (Suc d)
  then obtain e where "check_decides (checkAuthorization d g perms) p e (\<lambda>_. False) (granted g perms p)" by blast
  from check_decides_Suc [OF this] show ?case by (intro exI [of _ True]) (simp add: check_decides_def)
qed

lemma answer_granted: "checkAuthorization d g perms (Some i) p = Some b \<Longrightarrow> b = granted g perms p i"
  using check_decides_granted [of d g perms p] by (auto simp: check_decides_def)

text \<open>When the relations that are followed go down a rank, the rank is depth enough.\<close>

lemma ranked_decides:
  assumes "\<And>i obj j. g i = Some obj \<Longrightarrow> follows g obj j \<Longrightarrow> g j \<noteq> None \<Longrightarrow> rank j < rank i"
  shows "check_decides (checkAuthorization (Suc d) g perms) p True (\<lambda>i. g i = None \<or> rank i < d) (granted g perms p)"
proof (induction d)
  case 0
  obtain e where "check_decides (checkAuthorization 0 g perms) p e (\<lambda>_. False) (granted g perms p)"
    using check_decides_granted by blast
  from check_decides_Suc [OF this] show ?case by (auto simp: check_decides_def)
next
  case (Suc d)
  have "g i = None \<or> rank i < Suc d \<Longrightarrow> g i = Some obj \<Longrightarrow> follows g obj j \<Longrightarrow> g j = None \<or> rank j < d" for i obj j
    using assms [of i obj j] by fastforce
  then show ?case using check_decides_Suc [OF Suc] unfolding check_decides_def by blast
qed

lemma check_granted:
  assumes "\<And>i obj j. g i = Some obj \<Longrightarrow> follows g obj j \<Longrightarrow> g j \<noteq> None \<Longrightarrow> rank j < rank i" and "rank i < d"
  shows "checkAuthorization (Suc d) g perms (Some i) p = Some (granted g perms p i)"
proof -
  have "checkAuthorization (Suc d) g perms (Some i) p \<noteq> None"
    using ranked_decides [of g rank d perms p, OF assms(1)] assms(2) by (auto simp: check_decides_def)
  then show ?thesis using answer_granted by fastforce
qed

lemma assert_granted:
  assumes "\<And>i p. (i, p) \<in> set ps \<Longrightarrow> checkAuthorization d g perms (Some i) p = Some (granted g perms p i)"
  shows "assertPermissions d g perms ps =
    Some (case find (\<lambda>(i, p). \<not> granted g perms p i) ps of None \<Rightarrow> Inr () | Some (i, p) \<Rightarrow> Inl (p, i))"
  using assms
proof (induction ps)
  case (Cons x ps)
  obtain i p where x: "x = (i, p)" by fastforce
  show ?case using Cons.IH Cons.prems [of i p] Cons.prems x by (cases "granted g perms p i") simp_all
qed simp

lemma find_granted:
  "(case find (\<lambda>(i, p). \<not> granted g perms p i) ps of None \<Rightarrow> True | Some (i, p) \<Rightarrow> False) \<longleftrightarrow>
   (\<forall>(i, p) \<in> set ps. granted g perms p i)"
  by (induction ps) auto

section \<open>More permissions\<close>

text \<open>Giving a user more permissions on objects never takes away what was granted through the relations.\<close>

lemma granted_mono:
  assumes "granted g perms p i"
    and "\<And>k ps. perms k = Some ps \<Longrightarrow> ps p \<Longrightarrow> \<exists>ps'. perms' k = Some ps' \<and> ps' p"
  shows "granted g perms' p i"
  using assms(1) by (induction rule: granted.induct) (auto intro: granted.intros dest: assms(2))

end
