(* ===== verification/Collection.thy ===== *)
theory Collection
  imports Prelude "HOL-Library.AList"
begin

text \<open>
  \<open>packages/xo-collection/src\<close>: the observable collection of the XO objects (\<open>collection.js\<close>), its
  indexes (\<open>index.js\<close>, \<open>unique-index.js\<close>) and its filtered views (\<open>view.js\<close>).

  An object used as a map is an association list, \<open>undefined\<close> as a value is \<open>None\<close>. The functions that
  \<open>bufferEvents\<close> returns are numbered in the order they were created; those passed to
  \<open>process.nextTick\<close> are listed.
\<close>

section \<open>Collections\<close>

datatype action = ActionAdd | ActionUpdate | ActionRemove

type_synonym 'v dict = "(string \<times> 'v option) list"

datatype 'v event = Emit action "'v dict" | Finish

record 'v collection =
  cl_items :: "'v dict"
  cl_buffer :: "(string \<times> action) list"
  cl_buffering :: nat
  cl_size :: int
  cl_called :: "bool list"
  cl_nextTick :: "nat list"

definition empty_collection :: "'v collection" where
  "empty_collection = \<lparr>cl_items = [], cl_buffer = [], cl_buffering = 0, cl_size = 0,
     cl_called = [], cl_nextTick = []\<rparr>"

datatype collection_error =
    BufferAlreadyFlushed | DuplicateItem string | IllegalTouch | InvalidKey | NoSuchItem string

text \<open>The first argument of the methods: a valid key, or any other value.\<close>

datatype 'v item_arg = KeyArg string | ObjectArg 'v

definition resolveItem :: "('v \<Rightarrow> string option) \<Rightarrow> 'v item_arg \<Rightarrow> 'v option \<Rightarrow>
    collection_error + (string \<times> 'v option)" where
  "resolveItem getKey a valueIfKey =
     (case valueIfKey of
        Some v \<Rightarrow> (case a of KeyArg k \<Rightarrow> Inr (k, Some v) | ObjectArg _ \<Rightarrow> Inl InvalidKey)
      | None \<Rightarrow> (case a of
            KeyArg k \<Rightarrow> Inr (k, None)
          | ObjectArg v \<Rightarrow> (case getKey v of None \<Rightarrow> Inl InvalidKey | Some k \<Rightarrow> Inr (k, Some v))))"

definition has :: "'v collection \<Rightarrow> string \<Rightarrow> bool" where
  "has c key \<longleftrightarrow> map_of (cl_items c) key \<noteq> None"

definition assertHas :: "'v collection \<Rightarrow> string \<Rightarrow> collection_error + unit" where
  "assertHas c key = (if has c key then Inr () else Inl (NoSuchItem key))"

definition assertHasNot :: "'v collection \<Rightarrow> string \<Rightarrow> collection_error + unit" where
  "assertHasNot c key = (if has c key then Inl (DuplicateItem key) else Inr ())"

definition collection_get :: "'v collection \<Rightarrow> string \<Rightarrow> 'v option option \<Rightarrow> collection_error + 'v option" where
  "collection_get c key defaultValue =
     (case map_of (cl_items c) key of
        Some v \<Rightarrow> Inr v
      | None \<Rightarrow> (case defaultValue of Some d \<Rightarrow> Inr d | None \<Rightarrow> Inl (NoSuchItem key)))"

section \<open>Buffering of events\<close>

definition bufferEvents :: "'v collection \<Rightarrow> nat \<times> 'v collection" where
  "bufferEvents c =
     (length (cl_called c), c\<lparr>cl_buffering := cl_buffering c + 1, cl_called := cl_called c @ [False]\<rparr>)"

definition touch_buffer :: "action \<Rightarrow> string \<Rightarrow> (string \<times> action) list \<Rightarrow> (string \<times> action) list" where
  "touch_buffer action key buffer =
     (case action of
        ActionAdd \<Rightarrow> AList.update key (if map_of buffer key \<noteq> None then ActionUpdate else ActionAdd) buffer
      | ActionRemove \<Rightarrow>
          if map_of buffer key = Some ActionAdd then AList.delete key buffer
          else AList.update key ActionRemove buffer
      | ActionUpdate \<Rightarrow>
          if map_of buffer key = None then AList.update key ActionUpdate buffer else buffer)"

definition touch_item :: "action \<Rightarrow> string \<Rightarrow> 'v collection \<Rightarrow> 'v collection" where
  "touch_item action key c =
     (let c = (if cl_buffering c = 0 then
                 (let (flush, c) = bufferEvents c in c\<lparr>cl_nextTick := cl_nextTick c @ [flush]\<rparr>)
               else c)
      in c\<lparr>cl_buffer := touch_buffer action key (cl_buffer c)\<rparr>)"

text \<open>The value an event carries: \<open>undefined\<close> when the item is no longer there.\<close>

definition item_value :: "'v dict \<Rightarrow> string \<Rightarrow> 'v option" where
  "item_value items key = (case map_of items key of None \<Rightarrow> None | Some v \<Rightarrow> v)"

definition event_data :: "'v collection \<Rightarrow> action \<Rightarrow> 'v dict" where
  "event_data c action =
     map (\<lambda>(key, _). (key, item_value (cl_items c) key)) (filter (\<lambda>(_, a). a = action) (cl_buffer c))"

definition flush_events :: "'v collection \<Rightarrow> 'v event list" where
  "flush_events c =
     map (\<lambda>a. Emit a (event_data c a))
       (filter (\<lambda>a. event_data c a \<noteq> []) [ActionAdd, ActionRemove, ActionUpdate]) @ [Finish]"

text \<open>
  The function \<open>bufferEvents\<close> has returned. \<open>react\<close> is what the listeners of an event do to the
  collection itself while the events are emitted; the data of all the events is computed before.
\<close>

definition flush :: "('v event \<Rightarrow> 'v collection \<Rightarrow> 'v collection) \<Rightarrow> nat \<Rightarrow> 'v collection \<Rightarrow>
    collection_error + ('v event list \<times> 'v collection)" where
  "flush react i c =
     (if cl_called c ! i then Inl BufferAlreadyFlushed
      else
        let c = c\<lparr>cl_called := (cl_called c)[i := True], cl_buffering := cl_buffering c - 1\<rparr>
        in if cl_buffering c \<noteq> 0 then Inr ([], c)
           else if cl_buffer c = [] then Inr ([], c)
           else
             let events = flush_events c
             in Inr (events, (fold react events c)\<lparr>cl_buffer := []\<rparr>))"

section \<open>Manipulation\<close>

definition remove_item :: "string \<Rightarrow> 'v collection \<Rightarrow> 'v collection" where
  "remove_item key c =
     touch_item ActionRemove key (c\<lparr>cl_items := AList.delete key (cl_items c), cl_size := cl_size c - 1\<rparr>)"

definition collection_add :: "('v \<Rightarrow> string option) \<Rightarrow> 'v item_arg \<Rightarrow> 'v option \<Rightarrow> 'v collection \<Rightarrow>
    collection_error + 'v collection" where
  "collection_add getKey a v c =
     res_bind (resolveItem getKey a v) (\<lambda>(key, value).
     res_bind (assertHasNot c key) (\<lambda>_.
     Inr (touch_item ActionAdd key (c\<lparr>cl_items := AList.update key value (cl_items c), cl_size := cl_size c + 1\<rparr>))))"

definition collection_clear :: "'v collection \<Rightarrow> 'v collection" where
  "collection_clear c = fold remove_item (map fst (cl_items c)) c"

definition collection_remove :: "('v \<Rightarrow> string option) \<Rightarrow> 'v item_arg \<Rightarrow> 'v collection \<Rightarrow>
    collection_error + 'v collection" where
  "collection_remove getKey a c =
     res_bind (resolveItem getKey a None) (\<lambda>(key, _).
     res_bind (assertHas c key) (\<lambda>_. Inr (remove_item key c)))"

definition collection_set :: "('v \<Rightarrow> string option) \<Rightarrow> 'v item_arg \<Rightarrow> 'v option \<Rightarrow> 'v collection \<Rightarrow>
    collection_error + 'v collection" where
  "collection_set getKey a v c =
     res_bind (resolveItem getKey a v) (\<lambda>(key, value).
     let action = (if has c key then ActionUpdate else ActionAdd);
         c = c\<lparr>cl_items := AList.update key value (cl_items c)\<rparr>;
         c = (if action = ActionAdd then c\<lparr>cl_size := cl_size c + 1\<rparr> else c)
     in Inr (touch_item action key c))"

text \<open>
  \<open>touch\<close> announces that the item, an object, has been modified in place; the caller gets the item.
\<close>

definition collection_touch :: "('v \<Rightarrow> string option) \<Rightarrow> ('v option \<Rightarrow> bool) \<Rightarrow> 'v item_arg \<Rightarrow>
    'v collection \<Rightarrow> collection_error + ('v option \<times> 'v collection)" where
  "collection_touch getKey isObject a c =
     res_bind (resolveItem getKey a None) (\<lambda>(key, _).
     res_bind (assertHas c key) (\<lambda>_.
     res_bind (collection_get c key None) (\<lambda>value.
     if \<not> isObject value then Inl IllegalTouch
     else let c = touch_item ActionUpdate key c
          in res_bind (collection_get c key None) (\<lambda>value. Inr (value, c)))))"

definition collection_unset :: "('v \<Rightarrow> string option) \<Rightarrow> 'v item_arg \<Rightarrow> 'v collection \<Rightarrow>
    collection_error + 'v collection" where
  "collection_unset getKey a c =
     res_bind (resolveItem getKey a None) (\<lambda>(key, _). Inr (if has c key then remove_item key c else c))"

definition collection_update :: "('v \<Rightarrow> string option) \<Rightarrow> 'v item_arg \<Rightarrow> 'v option \<Rightarrow> 'v collection \<Rightarrow>
    collection_error + 'v collection" where
  "collection_update getKey a v c =
     res_bind (resolveItem getKey a v) (\<lambda>(key, value).
     res_bind (assertHas c key) (\<lambda>_.
     Inr (touch_item ActionUpdate key (c\<lparr>cl_items := AList.update key value (cl_items c)\<rparr>))))"

section \<open>Indexes\<close>

text \<open>
  \<open>typeOf\<close> is the function of the index; \<open>None\<close> is \<open>null\<close> or \<open>undefined\<close>. The events for a type are kept
  in the order they are emitted: type, event, value, previous value.
\<close>

record 'v index =
  itemsByType :: "(string \<times> 'v dict) list"
  keysToType :: "(string \<times> string) list"
  ix_emitted :: "(string \<times> action \<times> 'v option \<times> 'v option) list"

definition empty_index :: "'v index" where
  "empty_index = \<lparr>itemsByType = [], keysToType = [], ix_emitted = []\<rparr>"

definition type_items :: "'v index \<Rightarrow> string \<Rightarrow> 'v dict" where
  "type_items ix t = (case map_of (itemsByType ix) t of None \<Rightarrow> [] | Some m \<Rightarrow> m)"

definition insert_typed :: "string \<Rightarrow> string \<Rightarrow> 'v option \<Rightarrow> 'v index \<Rightarrow> 'v index" where
  "insert_typed t key value ix =
     ix\<lparr>itemsByType := AList.update t (AList.update key value (type_items ix t)) (itemsByType ix),
        keysToType := AList.update key t (keysToType ix)\<rparr>"

definition delete_typed :: "string \<Rightarrow> string \<Rightarrow> 'v index \<Rightarrow> 'v index" where
  "delete_typed t key ix =
     ix\<lparr>itemsByType := AList.update t (AList.delete key (type_items ix t)) (itemsByType ix)\<rparr>"

definition emit_typed :: "string \<Rightarrow> action \<Rightarrow> 'v option \<Rightarrow> 'v option \<Rightarrow> 'v index \<Rightarrow> 'v index" where
  "emit_typed t a value previous ix = ix\<lparr>ix_emitted := ix_emitted ix @ [(t, a, value, previous)]\<rparr>"

definition index_onAdd :: "('v option \<Rightarrow> string option) \<Rightarrow> 'v dict \<Rightarrow> 'v index \<Rightarrow> 'v index" where
  "index_onAdd typeOf =
     fold (\<lambda>(key, value) ix.
       case typeOf value of
         None \<Rightarrow> ix
       | Some t \<Rightarrow> emit_typed t ActionAdd value None (insert_typed t key value ix))"

definition index_onUpdate :: "('v option \<Rightarrow> string option) \<Rightarrow> 'v dict \<Rightarrow> 'v index \<Rightarrow> 'v index" where
  "index_onUpdate typeOf =
     fold (\<lambda>(key, value) ix.
       let prevType = map_of (keysToType ix) key;
           previousObj = (case prevType of None \<Rightarrow> None | Some p \<Rightarrow> item_value (type_items ix p) key);
           ix = (case prevType of None \<Rightarrow> ix | Some p \<Rightarrow> delete_typed p key ix)
       in case typeOf value of
            Some t \<Rightarrow> emit_typed t ActionUpdate value previousObj (insert_typed t key value ix)
          | None \<Rightarrow> ix\<lparr>keysToType := AList.delete key (keysToType ix)\<rparr>)"

definition index_onRemove :: "'v dict \<Rightarrow> 'v index \<Rightarrow> 'v index" where
  "index_onRemove =
     fold (\<lambda>(key, _) ix.
       case map_of (keysToType ix) key of
         None \<Rightarrow> ix
       | Some prev \<Rightarrow>
           let ix = delete_typed prev key
                 (emit_typed prev ActionRemove None (item_value (type_items ix prev) key) ix)
           in ix\<lparr>keysToType := AList.delete key (keysToType ix)\<rparr>)"

definition index_on :: "('v option \<Rightarrow> string option) \<Rightarrow> 'v event \<Rightarrow> 'v index \<Rightarrow> 'v index" where
  "index_on typeOf event ix =
     (case event of
        Emit ActionAdd items \<Rightarrow> index_onAdd typeOf items ix
      | Emit ActionUpdate items \<Rightarrow> index_onUpdate typeOf items ix
      | Emit ActionRemove items \<Rightarrow> index_onRemove items ix
      | Finish \<Rightarrow> ix)"

definition index_attach :: "('v option \<Rightarrow> string option) \<Rightarrow> 'v collection \<Rightarrow> 'v index \<Rightarrow> 'v index" where
  "index_attach typeOf c = index_onAdd typeOf (cl_items c)"

definition index_detach :: "'v index \<Rightarrow> 'v index" where
  "index_detach ix = ix\<lparr>itemsByType := [], keysToType := []\<rparr>"

section \<open>Unique indexes\<close>

record 'v unique_index =
  itemByRef :: "'v dict"
  keysToRef :: "(string \<times> string) list"

definition empty_unique :: "'v unique_index" where
  "empty_unique = \<lparr>itemByRef = [], keysToRef = []\<rparr>"

definition insert_ref :: "string \<Rightarrow> string \<Rightarrow> 'v option \<Rightarrow> 'v unique_index \<Rightarrow> 'v unique_index" where
  "insert_ref ref key value ix =
     ix\<lparr>itemByRef := AList.update ref value (itemByRef ix), keysToRef := AList.update key ref (keysToRef ix)\<rparr>"

definition unique_onAdd :: "('v option \<Rightarrow> string option) \<Rightarrow> 'v dict \<Rightarrow> 'v unique_index \<Rightarrow> 'v unique_index" where
  "unique_onAdd refOf =
     fold (\<lambda>(key, value) ix. case refOf value of None \<Rightarrow> ix | Some ref \<Rightarrow> insert_ref ref key value ix)"

definition unique_onUpdate :: "('v option \<Rightarrow> string option) \<Rightarrow> 'v dict \<Rightarrow> 'v unique_index \<Rightarrow> 'v unique_index" where
  "unique_onUpdate refOf =
     fold (\<lambda>(key, value) ix.
       let ix = (case map_of (keysToRef ix) key of
                   None \<Rightarrow> ix | Some prevRef \<Rightarrow> ix\<lparr>itemByRef := AList.delete prevRef (itemByRef ix)\<rparr>)
       in case refOf value of
            Some ref \<Rightarrow> insert_ref ref key value ix
          | None \<Rightarrow> ix\<lparr>keysToRef := AList.delete key (keysToRef ix)\<rparr>)"

definition unique_onRemove :: "'v dict \<Rightarrow> 'v unique_index \<Rightarrow> 'v unique_index" where
  "unique_onRemove =
     fold (\<lambda>(key, _) ix.
       case map_of (keysToRef ix) key of
         None \<Rightarrow> ix
       | Some prevRef \<Rightarrow> ix\<lparr>itemByRef := AList.delete prevRef (itemByRef ix),
                            keysToRef := AList.delete key (keysToRef ix)\<rparr>)"

definition unique_on :: "('v option \<Rightarrow> string option) \<Rightarrow> 'v event \<Rightarrow> 'v unique_index \<Rightarrow> 'v unique_index" where
  "unique_on refOf event ix =
     (case event of
        Emit ActionAdd items \<Rightarrow> unique_onAdd refOf items ix
      | Emit ActionUpdate items \<Rightarrow> unique_onUpdate refOf items ix
      | Emit ActionRemove items \<Rightarrow> unique_onRemove items ix
      | Finish \<Rightarrow> ix)"

definition unique_attach :: "('v option \<Rightarrow> string option) \<Rightarrow> 'v collection \<Rightarrow> 'v unique_index \<Rightarrow> 'v unique_index" where
  "unique_attach refOf c = unique_onAdd refOf (cl_items c)"

definition unique_detach :: "'v unique_index \<Rightarrow> 'v unique_index" where
  "unique_detach ix = ix\<lparr>itemByRef := [], keysToRef := []\<rparr>"

section \<open>Views\<close>

text \<open>A view is a collection of its own, which follows the events of another one.\<close>

definition view_set :: "string \<Rightarrow> 'v option \<Rightarrow> 'v collection \<Rightarrow> 'v collection" where
  "view_set key value w =
     (case collection_set (\<lambda>_. None) (KeyArg key) value w of Inl _ \<Rightarrow> w | Inr w \<Rightarrow> w)"

definition view_onAdd :: "('v option \<Rightarrow> string \<Rightarrow> bool) \<Rightarrow> 'v dict \<Rightarrow> 'v collection \<Rightarrow> 'v collection" where
  "view_onAdd predicate = fold (\<lambda>(key, value) w. if predicate value key then view_set key value w else w)"

definition view_onUpdate :: "('v option \<Rightarrow> string \<Rightarrow> bool) \<Rightarrow> 'v dict \<Rightarrow> 'v collection \<Rightarrow> 'v collection" where
  "view_onUpdate predicate =
     fold (\<lambda>(key, value) w.
       if predicate value key then view_set key value w else if has w key then remove_item key w else w)"

definition view_onRemove :: "'v dict \<Rightarrow> 'v collection \<Rightarrow> 'v collection" where
  "view_onRemove = fold (\<lambda>(key, _) w. if has w key then remove_item key w else w)"

definition view_on :: "('v option \<Rightarrow> string \<Rightarrow> bool) \<Rightarrow> 'v event \<Rightarrow> 'v collection \<Rightarrow> 'v collection" where
  "view_on predicate event w =
     (case event of
        Emit ActionAdd items \<Rightarrow> view_onAdd predicate items w
      | Emit ActionUpdate items \<Rightarrow> view_onUpdate predicate items w
      | Emit ActionRemove items \<Rightarrow> view_onRemove items w
      | Finish \<Rightarrow> w)"

definition new_view :: "('v option \<Rightarrow> string \<Rightarrow> bool) \<Rightarrow> 'v collection \<Rightarrow> 'v collection" where
  "new_view predicate c = view_onAdd predicate (cl_items c) empty_collection"

end
