(* ===== verification/Collection_Props.thy ===== *)
theory Collection_Props
  imports Collection
begin

text \<open>
  What the events of a collection promise: whoever applies them to what he knew of the items has the
  items again, each time the buffer is flushed. The locale \<open>follower\<close> states what a listener has to do
  on each event to stay in sync; the indexes and the views are shown to do it.
\<close>

section \<open>The items a listener knows\<close>

type_synonym 'v known = "string \<Rightarrow> 'v option option"

definition apply_event :: "'v event \<Rightarrow> 'v known \<Rightarrow> 'v known" where
  "apply_event e r =
     (case e of
        Emit ActionRemove items \<Rightarrow> r |` (- fst ` set items)
      | Emit _ items \<Rightarrow> r ++ map_of items
      | Finish \<Rightarrow> r)"

text \<open>What the action buffered for a key says of the item, then and now.\<close>

definition pending_ok :: "action option \<Rightarrow> 'v option option \<Rightarrow> 'v option option \<Rightarrow> bool" where
  "pending_ok a old new =
     (case a of
        None \<Rightarrow> old = new
      | Some ActionAdd \<Rightarrow> old = None \<and> new \<noteq> None
      | Some ActionUpdate \<Rightarrow> old \<noteq> None \<and> new \<noteq> None
      | Some ActionRemove \<Rightarrow> old \<noteq> None \<and> new = None)"

text \<open>What it says when the listener may have missed a change of the item: only how it is now.\<close>

definition pending_now :: "action option \<Rightarrow> 'v option option \<Rightarrow> bool" where
  "pending_now a new = (case a of None \<Rightarrow> True | Some ActionRemove \<Rightarrow> new = None | Some _ \<Rightarrow> new \<noteq> None)"

text \<open>\<open>lost\<close> holds the keys whose item may have changed without an event.\<close>

definition coll_inv :: "string set \<Rightarrow> 'v collection \<Rightarrow> 'v known \<Rightarrow> bool" where
  "coll_inv lost c r \<longleftrightarrow>
     distinct (map fst (cl_items c)) \<and> distinct (map fst (cl_buffer c)) \<and>
     cl_size c = int (length (cl_items c)) \<and>
     cl_buffering c = length (filter Not (cl_called c)) \<and>
     (\<forall>k. pending_now (map_of (cl_buffer c) k) (map_of (cl_items c) k)) \<and>
     (\<forall>k. k \<notin> lost \<longrightarrow> pending_ok (map_of (cl_buffer c) k) (r k) (map_of (cl_items c) k))"

lemma coll_invD:
  assumes "coll_inv lost c r"
  shows "distinct (map fst (cl_items c))" "distinct (map fst (cl_buffer c))"
    "cl_size c = int (length (cl_items c))" "cl_buffering c = length (filter Not (cl_called c))"
    "pending_now (map_of (cl_buffer c) k) (map_of (cl_items c) k)"
    "k \<notin> lost \<Longrightarrow> pending_ok (map_of (cl_buffer c) k) (r k) (map_of (cl_items c) k)"
  using assms by (simp_all add: coll_inv_def)

text \<open>Outside of a flush, nothing is buffered without a function that will flush it.\<close>

definition buffer_held :: "'v collection \<Rightarrow> bool" where
  "buffer_held c \<longleftrightarrow> (cl_buffering c = 0 \<longrightarrow> cl_buffer c = [])"

lemma coll_inv_empty: "coll_inv {} empty_collection Map.empty" "buffer_held empty_collection"
  by (simp_all add: coll_inv_def empty_collection_def pending_ok_def pending_now_def buffer_held_def)

section \<open>Every operation keeps the invariant\<close>

lemma distinct_keys_update: "distinct (map fst xs) \<Longrightarrow> distinct (map fst (AList.update k v xs))"
  by (rule distinct_update)

lemma length_update: "length (AList.update k v xs) = (if map_of xs k = None then Suc (length xs) else length xs)"
  by (induction xs) auto

lemma length_delete:
  "distinct (map fst xs) \<Longrightarrow> length (AList.delete k xs) = (if map_of xs k = None then length xs else length xs - 1)"
proof (induction xs)
  case (Cons x xs)
  show ?case
  proof (cases "fst x = k")
    case True
    then have "k \<notin> fst ` set xs" using Cons.prems by auto
    then have "AList.delete k xs = xs" by (simp add: delete_id)
    then show ?thesis using True by (cases x) simp
  next
    case False
    moreover have "map_of xs k \<noteq> None \<Longrightarrow> 0 < length xs" by (cases xs) auto
    ultimately show ?thesis using Cons by (cases x) auto
  qed
qed simp

lemma map_of_touch_buffer:
  "map_of (touch_buffer a key b) k =
     (if k \<noteq> key then map_of b k
      else case a of
        ActionAdd \<Rightarrow> Some (if map_of b key \<noteq> None then ActionUpdate else ActionAdd)
      | ActionRemove \<Rightarrow> if map_of b key = Some ActionAdd then None else Some ActionRemove
      | ActionUpdate \<Rightarrow> if map_of b key = None then Some ActionUpdate else map_of b key)"
  by (cases a) (simp_all add: touch_buffer_def update_conv' delete_conv')

lemma distinct_touch_buffer: "distinct (map fst b) \<Longrightarrow> distinct (map fst (touch_buffer a key b))"
  by (cases a) (simp_all add: touch_buffer_def distinct_update distinct_delete)

definition touch_ok :: "action \<Rightarrow> 'v option option \<Rightarrow> 'v option option \<Rightarrow> bool" where
  "touch_ok a before now =
     (case a of
        ActionAdd \<Rightarrow> before = None \<and> now \<noteq> None
      | ActionUpdate \<Rightarrow> before \<noteq> None \<and> now \<noteq> None
      | ActionRemove \<Rightarrow> before \<noteq> None \<and> now = None)"

lemma touch_item_fields:
  "cl_items (touch_item a key c) = cl_items c" "cl_size (touch_item a key c) = cl_size c"
  "cl_buffer (touch_item a key c) = touch_buffer a key (cl_buffer c)"
  "cl_buffering (touch_item a key c) = max 1 (cl_buffering c)"
  "cl_called (touch_item a key c) = cl_called c @ (if cl_buffering c = 0 then [False] else [])"
  by (simp_all add: touch_item_def bufferEvents_def Let_def)

lemma touch_inv:
  assumes inv: "coll_inv lost c r" and items: "distinct (map fst items)"
    and size: "n = int (length items)"
    and now: "\<And>k. k \<noteq> key \<Longrightarrow> map_of items k = map_of (cl_items c) k"
    and ok: "touch_ok a (map_of (cl_items c) key) (map_of items key)"
  shows "coll_inv lost (touch_item a key (c\<lparr>cl_items := items, cl_size := n\<rparr>)) r"
proof -
  have "pending_ok (map_of (touch_buffer a key (cl_buffer c)) k) (r k) (map_of items k)" if "k \<notin> lost" for k
    using coll_invD(6) [OF inv that] now [of k] ok
    by (cases "k = key"; cases a; cases "map_of (cl_buffer c) key")
       (auto simp: map_of_touch_buffer pending_ok_def touch_ok_def split: action.splits)
  moreover have "pending_now (map_of (touch_buffer a key (cl_buffer c)) k) (map_of items k)" for k
    using coll_invD(5) [OF inv, of k] now [of k] ok
    by (cases "k = key"; cases a; cases "map_of (cl_buffer c) key")
       (auto simp: map_of_touch_buffer pending_now_def touch_ok_def split: action.splits)
  ultimately show ?thesis
    using coll_invD(1-4) [OF inv] items size
    by (auto simp: coll_inv_def touch_item_fields distinct_touch_buffer max_def Suc_le_eq)
qed

lemma remove_item_inv:
  assumes "coll_inv lost c r" and "has c key"
  shows "coll_inv lost (remove_item key c) r"
proof -
  have "0 < length (cl_items c)" using assms(2) by (cases "cl_items c") (auto simp: has_def)
  then have "cl_size c - 1 = int (length (AList.delete key (cl_items c)))"
    using assms(2) coll_invD(1,3) [OF assms(1)] by (cases "length (cl_items c)") (auto simp: length_delete has_def)
  then show ?thesis
    unfolding remove_item_def using assms coll_invD(1) [OF assms(1)]
    by (intro touch_inv) (auto simp: distinct_delete delete_conv' has_def touch_ok_def)
qed

lemma add_item_inv:
  assumes inv: "coll_inv lost c r" and "\<not> has c key"
  shows "coll_inv lost (touch_item ActionAdd key
           (c\<lparr>cl_items := AList.update key value (cl_items c), cl_size := cl_size c + 1\<rparr>)) r"
proof -
  have "map_of (cl_items c) key = None" using assms(2) by (simp only: has_def) blast
  then show ?thesis
    using coll_invD(1,3) [OF inv]
    by (intro touch_inv [OF inv]) (simp_all add: distinct_update length_update update_conv' touch_ok_def)
qed

lemma change_item_inv:
  assumes inv: "coll_inv lost c r" and "has c key"
  shows "coll_inv lost (touch_item ActionUpdate key (c\<lparr>cl_items := AList.update key value (cl_items c)\<rparr>)) r"
proof -
  have "coll_inv lost (touch_item ActionUpdate key
      (c\<lparr>cl_items := AList.update key value (cl_items c), cl_size := cl_size c\<rparr>)) r"
    using assms coll_invD(1,3) [OF inv]
    by (intro touch_inv [OF inv]) (auto simp: distinct_update length_update update_conv' has_def touch_ok_def)
  then show ?thesis by simp
qed

lemma touched_inv:
  assumes inv: "coll_inv lost c r" and "has c key"
  shows "coll_inv lost (touch_item ActionUpdate key c) r"
proof -
  have "coll_inv lost (touch_item ActionUpdate key (c\<lparr>cl_items := cl_items c, cl_size := cl_size c\<rparr>)) r"
    using assms coll_invD(1,3) [OF inv] by (intro touch_inv [OF inv]) (auto simp: has_def touch_ok_def)
  then show ?thesis by simp
qed

text \<open>The methods that change a collection; a method that throws changes nothing.\<close>

datatype 'v coll_op =
    Add "'v item_arg" "'v option" | SetItem "'v item_arg" "'v option" | Update "'v item_arg" "'v option"
  | Remove "'v item_arg" | Unset "'v item_arg" | Touch "'v item_arg" | Clear

definition coll_call :: "('v \<Rightarrow> string option) \<Rightarrow> ('v option \<Rightarrow> bool) \<Rightarrow> 'v coll_op \<Rightarrow> 'v collection \<Rightarrow>
    collection_error + 'v collection" where
  "coll_call getKey isObject op c =
     (case op of
        Add a v \<Rightarrow> collection_add getKey a v c
      | SetItem a v \<Rightarrow> collection_set getKey a v c
      | Update a v \<Rightarrow> collection_update getKey a v c
      | Remove a \<Rightarrow> collection_remove getKey a c
      | Unset a \<Rightarrow> collection_unset getKey a c
      | Touch a \<Rightarrow> res_bind (collection_touch getKey isObject a c) (\<lambda>(_, c). Inr c)
      | Clear \<Rightarrow> Inr (collection_clear c))"

lemma items_remove_item: "cl_items (remove_item key c) = AList.delete key (cl_items c)"
  by (simp add: remove_item_def touch_item_fields)

lemma clear_inv:
  "coll_inv lost c r \<Longrightarrow> set ks \<subseteq> dom (map_of (cl_items c)) \<Longrightarrow> distinct ks \<Longrightarrow> coll_inv lost (fold remove_item ks c) r"
proof (induction ks arbitrary: c)
  case (Cons k ks)
  have "coll_inv lost (remove_item k c) r"
    using Cons.prems by (intro remove_item_inv) (auto simp: has_def)
  moreover have "set ks \<subseteq> dom (map_of (cl_items (remove_item k c)))"
    using Cons.prems by (auto simp: items_remove_item delete_conv')
  ultimately show ?case using Cons by simp
qed simp

lemma coll_call_inv:
  assumes inv: "coll_inv lost c r" and call: "coll_call getKey isObject op c = Inr c'"
  shows "coll_inv lost c' r"
proof (cases op)
  case Clear
  have "coll_inv lost (collection_clear c) r"
    unfolding collection_clear_def
    by (rule clear_inv [OF inv]) (use coll_invD(1) [OF inv] in \<open>auto simp: dom_map_of_conv_image_fst\<close>)
  then show ?thesis using call Clear by (simp add: coll_call_def)
next
  case (Touch a)
  then show ?thesis using call touched_inv [OF inv]
    by (auto simp: coll_call_def collection_touch_def res_bind_Inr_iff assertHas_def Let_def split: if_splits)
next
  case (Unset a)
  then show ?thesis using call inv remove_item_inv [OF inv]
    by (auto simp: coll_call_def collection_unset_def res_bind_Inr_iff simp del: not_None_eq split: if_splits)
next
  case (SetItem a v)
  obtain key val where key: "resolveItem getKey a v = Inr (key, val)"
    using call SetItem by (auto simp: coll_call_def collection_set_def res_bind_Inr_iff)
  have c': "c' =
      (if has c key then touch_item ActionUpdate key (c\<lparr>cl_items := AList.update key val (cl_items c)\<rparr>)
       else touch_item ActionAdd key
         (c\<lparr>cl_items := AList.update key val (cl_items c), cl_size := cl_size c + 1\<rparr>))"
    using call SetItem by (simp add: coll_call_def collection_set_def key Let_def split: if_splits)
  show ?thesis unfolding c' using add_item_inv [OF inv] change_item_inv [OF inv] by simp
qed (use call in \<open>auto simp: coll_call_def collection_add_def collection_update_def
    collection_remove_def res_bind_Inr_iff assertHas_def assertHasNot_def
    intro: remove_item_inv [OF inv] add_item_inv [OF inv] change_item_inv [OF inv]
    split: if_splits\<close>)

section \<open>Flushing the buffer\<close>

lemma map_of_event_data:
  "distinct (map fst (cl_buffer c)) \<Longrightarrow>
   map_of (event_data c a) k =
     (if map_of (cl_buffer c) k = Some a then Some (item_value (cl_items c) k) else None)"
proof -
  have "distinct (map fst b) \<Longrightarrow>
      map_of (map (\<lambda>(key, _). (key, item_value (cl_items c) key)) (filter (\<lambda>(_, x). x = a) b)) k =
      (if map_of b k = Some a then Some (item_value (cl_items c) k) else None)" for b
  proof (induction b)
    case (Cons x b)
    moreover have "(k, a) \<in> set b \<Longrightarrow> k \<in> fst ` set b" by force
    ultimately show ?case by (cases x) (auto simp: map_of_eq_None_iff dom_map_of_conv_image_fst)
  qed simp
  then show "distinct (map fst (cl_buffer c)) \<Longrightarrow> ?thesis" unfolding event_data_def .
qed

lemma keys_event_data:
  "distinct (map fst (cl_buffer c)) \<Longrightarrow>
   fst ` set (event_data c a) = {k. map_of (cl_buffer c) k = Some a}"
  using map_of_event_data [of c a] by (auto simp: dom_map_of_conv_image_fst [symmetric] split: if_splits)

lemma apply_event_key:
  "apply_event (Emit a items) r k =
     (if a = ActionRemove then if k \<in> fst ` set items then None else r k
      else case map_of items k of None \<Rightarrow> r k | Some v \<Rightarrow> Some v)"
  by (cases a) (auto simp: apply_event_def map_add_def restrict_map_def)

lemma apply_empty: "apply_event (Emit a []) r = r"
  by (cases a) (auto simp: apply_event_def)

text \<open>Events that are not emitted, since they would hold no item, change nothing.\<close>

lemma fold_flush_events:
  "fold apply_event (flush_events c) r =
     apply_event (Emit ActionUpdate (event_data c ActionUpdate))
       (apply_event (Emit ActionRemove (event_data c ActionRemove))
         (apply_event (Emit ActionAdd (event_data c ActionAdd)) r))"
  by (simp add: flush_events_def apply_empty) (simp add: apply_event_def)

text \<open>The events tell how each item they are about is now.\<close>

lemma flush_known:
  assumes inv: "coll_inv lost c r" and k: "k \<in> lost \<longrightarrow> map_of (cl_buffer c) k \<noteq> None"
  shows "fold apply_event (flush_events c) r k = map_of (cl_items c) k"
proof -
  have "pending_ok (map_of (cl_buffer c) k) (r k) (map_of (cl_items c) k)" if "map_of (cl_buffer c) k = None"
    using coll_invD(6) [OF inv, of k] k that by blast
  then show ?thesis
    using coll_invD(5) [OF inv, of k]
    by (cases "map_of (cl_buffer c) k"; cases "the (map_of (cl_buffer c) k)")
       (auto simp: fold_flush_events apply_event_key map_of_event_data [OF coll_invD(2) [OF inv]]
          keys_event_data [OF coll_invD(2) [OF inv]] pending_ok_def pending_now_def item_value_def)
qed

definition nobody :: "'v event \<Rightarrow> 'v collection \<Rightarrow> 'v collection" where
  "nobody _ c = c"

lemma fold_nobody: "fold nobody es c = c"
  by (induction es) (simp_all add: nobody_def)

text \<open>
  Listeners that change the collection themselves: the calls they make on each event. A call that throws
  changes nothing, and its listener catches the error.
\<close>

definition listeners ::
  "('v \<Rightarrow> string option) \<Rightarrow> ('v option \<Rightarrow> bool) \<Rightarrow> ('v event \<Rightarrow> 'v coll_op list) \<Rightarrow> 'v event \<Rightarrow> 'v collection \<Rightarrow> 'v collection" where
  "listeners getKey isObject ops e =
     fold (\<lambda>op c. case coll_call getKey isObject op c of Inl _ \<Rightarrow> c | Inr c' \<Rightarrow> c') (ops e)"

lemma listeners_none: "listeners getKey isObject (\<lambda>_. []) = nobody"
  by (simp add: fun_eq_iff listeners_def nobody_def)

lemma listeners_inv: "coll_inv lost c r \<Longrightarrow> coll_inv lost (listeners getKey isObject ops e c) r"
proof -
  have "coll_inv lost c r \<Longrightarrow>
      coll_inv lost (fold (\<lambda>op c. case coll_call getKey isObject op c of Inl _ \<Rightarrow> c | Inr c' \<Rightarrow> c') xs c) r" for xs
    by (induction xs arbitrary: c) (auto split: sum.split dest: coll_call_inv)
  then show "coll_inv lost c r \<Longrightarrow> ?thesis" by (simp add: listeners_def)
qed

lemma reactions_inv: "coll_inv lost c r \<Longrightarrow> coll_inv lost (fold (listeners getKey isObject ops) es c) r"
  by (induction es arbitrary: c) (auto intro: listeners_inv)

text \<open>A call that buffers an event also asks for its flush.\<close>

lemma touch_held: "buffer_held (touch_item a key c)"
  by (simp add: buffer_held_def touch_item_fields)

lemma coll_call_held:
  assumes "buffer_held c" and "coll_call getKey isObject op c = Inr c'"
  shows "buffer_held c'"
proof -
  have "buffer_held (fold remove_item ks c)" for ks
    using assms(1) by (induction ks arbitrary: c) (simp_all add: remove_item_def touch_held)
  then show ?thesis
    using assms
    by (cases op)
       (auto simp: coll_call_def collection_clear_def collection_touch_def collection_unset_def collection_set_def
          collection_add_def collection_update_def collection_remove_def remove_item_def res_bind_Inr_iff Let_def
          touch_held split: if_splits)
qed

lemma length_filter_flip:
  "i < length bs \<Longrightarrow> \<not> bs ! i \<Longrightarrow> length (filter Not (bs[i := True])) = length (filter Not bs) - 1 \<and> 0 < length (filter Not bs)"
proof (induction bs arbitrary: i)
  case (Cons b bs)
  then show ?case by (cases i) auto
qed simp

text \<open>
  The keys whose item may have changed without an event: those whose item a listener changed during the
  flush, until an event for the key is emitted.
\<close>

definition lost_after ::
  "string set \<Rightarrow> 'v collection \<Rightarrow> 'v event list \<Rightarrow> 'v collection \<Rightarrow> string set" where
  "lost_after lost c events c' =
     (if events = [] then lost
      else (lost - fst ` set (cl_buffer c)) \<union> {k. map_of (cl_items c') k \<noteq> map_of (cl_items c) k})"

lemma flush_inv:
  assumes inv: "coll_inv lost c r" and held: "buffer_held c" and i: "i < length (cl_called c)"
    and flush: "flush (listeners getKey isObject ops) i c = Inr (events, c')"
  shows "coll_inv (lost_after lost c events c') c' (fold apply_event events r)" and "buffer_held c'"
    and "events = [] \<or> events = flush_events c"
proof -
  note facts = coll_invD(1-4) [OF inv]
  have fresh: "\<not> cl_called c ! i" using flush by (auto simp: flush_def split: if_splits)
  have count: "length (filter Not ((cl_called c)[i := True])) = cl_buffering c - 1"
    using length_filter_flip [OF i fresh] facts(4) by simp
  let ?c = "c\<lparr>cl_called := (cl_called c)[i := True], cl_buffering := cl_buffering c - 1\<rparr>"
  have inv1: "coll_inv lost ?c r" using inv count by (simp add: coll_inv_def)
  consider (wait) "cl_buffering c - 1 \<noteq> 0 \<or> cl_buffer c = []" | (emit) "cl_buffering c - 1 = 0" "cl_buffer c \<noteq> []" by blast
  then have "coll_inv (lost_after lost c events c') c' (fold apply_event events r) \<and> buffer_held c' \<and>
    (events = [] \<or> events = flush_events c)"
  proof cases
    case wait
    then have "events = []" "c' = ?c" using flush fresh by (auto simp: flush_def Let_def split: if_splits)
    then show ?thesis using inv1 wait by (simp add: lost_after_def buffer_held_def)
  next
    case emit
    have ev: "flush_events (c\<lparr>cl_called := x, cl_buffering := y\<rparr>) = flush_events c" for x y
      by (simp add: flush_events_def event_data_def)
    let ?d = "fold (listeners getKey isObject ops) (flush_events c) ?c"
    have c': "events = flush_events c" "c' = ?d\<lparr>cl_buffer := []\<rparr>"
      using flush fresh emit by (auto simp: flush_def Let_def ev)
    have ne: "events \<noteq> []" by (simp add: c'(1) flush_events_def)
    have known: "fold apply_event events r k = map_of (cl_items c) k" if "k \<notin> lost - fst ` set (cl_buffer c)" for k
      using flush_known [OF inv, of k] that by (auto simp: c'(1) map_of_eq_None_iff)
    have "coll_inv lost ?d r" by (rule reactions_inv [OF inv1])
    moreover have "pending_ok None (fold apply_event events r k) (map_of (cl_items c') k)"
      if "k \<notin> lost_after lost c events c'" for k
      using known [of k] that ne by (auto simp: lost_after_def pending_ok_def)
    ultimately have "coll_inv (lost_after lost c events c') c' (fold apply_event events r)"
      by (simp add: c'(2) coll_inv_def pending_now_def)
    then show ?thesis using c' by (simp add: buffer_held_def)
  qed
  then show "coll_inv (lost_after lost c events c') c' (fold apply_event events r)" and "buffer_held c'"
    and "events = [] \<or> events = flush_events c" by simp_all
qed

section \<open>Runs of a collection\<close>

text \<open>
  The calls of the methods, of \<open>bufferEvents\<close> and of the flush functions (among which those run by
  \<open>process.nextTick\<close>), in any order. When \<open>busy\<close>, listeners may call the methods while the events are
  emitted, each time other ones. \<open>s\<close> is a listener attached when the collection was empty, \<open>r\<close> the items
  it has been told of and \<open>lost\<close> the keys for which an event was lost.
\<close>

inductive coll_run :: "bool \<Rightarrow> ('v \<Rightarrow> string option) \<Rightarrow> ('v option \<Rightarrow> bool) \<Rightarrow> ('v event \<Rightarrow> 's \<Rightarrow> 's) \<Rightarrow> 's \<Rightarrow>
    'v collection \<Rightarrow> 'v known \<Rightarrow> 's \<Rightarrow> string set \<Rightarrow> bool"
  for busy getKey isObject on s0
where
  run_start: "coll_run busy getKey isObject on s0 empty_collection Map.empty s0 {}"
| run_call: "coll_run busy getKey isObject on s0 c r s lost \<Longrightarrow> coll_call getKey isObject op c = Inr c' \<Longrightarrow>
    coll_run busy getKey isObject on s0 c' r s lost"
| run_buffer: "coll_run busy getKey isObject on s0 c r s lost \<Longrightarrow>
    coll_run busy getKey isObject on s0 (snd (bufferEvents c)) r s lost"
| run_flush: "coll_run busy getKey isObject on s0 c r s lost \<Longrightarrow> i < length (cl_called c) \<Longrightarrow>
    busy \<or> ops = (\<lambda>_. []) \<Longrightarrow> flush (listeners getKey isObject ops) i c = Inr (events, c') \<Longrightarrow>
    coll_run busy getKey isObject on s0 c' (fold apply_event events r) (fold on events s) (lost_after lost c events c')"

lemma buffer_inv: "coll_inv lost c r \<Longrightarrow> coll_inv lost (snd (bufferEvents c)) r" "buffer_held (snd (bufferEvents c))"
  by (auto simp: coll_inv_def bufferEvents_def buffer_held_def)

lemma run_inv: "coll_run busy getKey isObject on s0 c r s lost \<Longrightarrow> coll_inv lost c r \<and> buffer_held c"
  by (induction rule: coll_run.induct)
     (auto intro: coll_inv_empty coll_call_inv coll_call_held buffer_inv flush_inv(1,2))

text \<open>No event is lost when the listeners leave the collection alone while the events are emitted.\<close>

lemma flush_quiet:
  assumes "flush (listeners getKey isObject (\<lambda>_. [])) i c = Inr (events, c')"
  shows "cl_items c' = cl_items c" "lost_after {} c events c' = {}"
  using assms by (auto simp: listeners_none flush_def Let_def fold_nobody lost_after_def split: if_splits)

lemma run_quiet: "coll_run busy getKey isObject on s0 c r s lost \<Longrightarrow> \<not> busy \<Longrightarrow> lost = {}"
  by (induction rule: coll_run.induct) (auto simp: flush_quiet)

text \<open>What a listener has to do on each event to stay in sync.\<close>

locale follower =
  fixes on :: "'v event \<Rightarrow> 's \<Rightarrow> 's" and start :: 's and in_sync :: "'v known \<Rightarrow> 's \<Rightarrow> bool"
  assumes sync_start: "in_sync Map.empty start"
    and sync_add: "in_sync r s \<Longrightarrow> distinct (map fst items) \<Longrightarrow> fst ` set items \<inter> dom r = {} \<Longrightarrow>
      in_sync (r ++ map_of items) (on (Emit ActionAdd items) s)"
    and sync_update: "in_sync r s \<Longrightarrow> distinct (map fst items) \<Longrightarrow> fst ` set items \<subseteq> dom r \<Longrightarrow>
      in_sync (r ++ map_of items) (on (Emit ActionUpdate items) s)"
    and sync_remove: "in_sync r s \<Longrightarrow> distinct (map fst items) \<Longrightarrow> fst ` set items \<subseteq> dom r \<Longrightarrow>
      in_sync (r |` (- fst ` set items)) (on (Emit ActionRemove items) s)"
    and sync_finish: "in_sync r s \<Longrightarrow> in_sync r (on Finish s)"
begin

lemma sync_event:
  assumes sync: "in_sync r s" and dist: "distinct (map fst items)"
    and keys: "if a = ActionAdd then fst ` set items \<inter> dom r = {} else fst ` set items \<subseteq> dom r"
  shows "in_sync (apply_event (Emit a items) r) (on (Emit a items) s)"
  using keys sync_add [OF sync dist] sync_update [OF sync dist] sync_remove [OF sync dist]
  by (cases a) (simp_all add: apply_event_def)

lemma sync_flush:
  assumes inv: "coll_inv {} c r" and sync: "in_sync r s"
  shows "in_sync (fold apply_event (flush_events c) r) (fold on (flush_events c) s)"
proof -
  note dist = coll_invD(2) [OF inv] and pend = coll_invD(6) [OF inv]
  let ?D = "event_data c"
  have dd: "distinct (map fst (?D a))" for a
  proof -
    have "map fst (?D a) = map fst (filter (\<lambda>(_, x). x = a) (cl_buffer c))"
      by (simp add: event_data_def case_prod_unfold comp_def)
    then show ?thesis using dist by (simp add: distinct_map_filter)
  qed
  have emit: "in_sync (apply_event (Emit a (?D a)) r') (if ?D a \<noteq> [] then on (Emit a (?D a)) s' else s')"
    if "in_sync r' s'" and "if a = ActionAdd then fst ` set (?D a) \<inter> dom r' = {} else fst ` set (?D a) \<subseteq> dom r'"
    for r' s' a
    using sync_event [OF that(1) dd that(2)] that(1) by (simp add: apply_empty)
  let ?r1 = "apply_event (Emit ActionAdd (?D ActionAdd)) r"
  let ?r2 = "apply_event (Emit ActionRemove (?D ActionRemove)) ?r1"
  have old: "map_of (cl_buffer c) k = Some ActionAdd \<Longrightarrow> r k = None"
    "map_of (cl_buffer c) k = Some ActionRemove \<Longrightarrow> k \<in> dom r"
    "map_of (cl_buffer c) k = Some ActionUpdate \<Longrightarrow> k \<in> dom r" for k
    using pend [of k] by (auto simp: pending_ok_def)
  have "fst ` set (?D ActionAdd) \<inter> dom r = {}"
    using old(1) by (auto simp: keys_event_data [OF dist])
  with emit [OF sync, of ActionAdd] have e1: "in_sync ?r1 (if ?D ActionAdd \<noteq> [] then on (Emit ActionAdd (?D ActionAdd)) s else s)"
    by simp
  have k2: "fst ` set (?D ActionRemove) \<subseteq> dom ?r1"
    using old(2,3) by (auto simp: keys_event_data [OF dist] apply_event_key dom_def split: option.splits)
  have k3: "fst ` set (?D ActionUpdate) \<subseteq> dom ?r2"
    using old(2,3) by (auto simp: keys_event_data [OF dist] apply_event_key dom_def split: option.splits)
  from emit [OF emit [OF e1, of ActionRemove], of ActionUpdate] k2 k3
  have "in_sync (apply_event (Emit ActionUpdate (?D ActionUpdate)) ?r2)
     (fold on (map (\<lambda>a. Emit a (?D a)) (filter (\<lambda>a. ?D a \<noteq> []) [ActionAdd, ActionRemove, ActionUpdate])) s)"
    by (simp split: if_splits)
  then show ?thesis
    by (simp only: fold_flush_events) (simp only: flush_events_def fold_append comp_apply fold_simps id_apply sync_finish)
qed

lemma sync_run:
  assumes "coll_run False getKey isObject on start c r s lost"
  shows "in_sync r s"
  using assms
proof (induction rule: coll_run.induct)
  case (run_flush c r s lost i ops events c')
  have inv: "coll_inv {} c r" "buffer_held c" using run_inv [OF run_flush(1)] run_quiet [OF run_flush(1)] by simp_all
  show ?case
    using flush_inv(3) [OF inv run_flush(2) run_flush(4)] sync_flush [OF inv(1) run_flush.IH] run_flush.IH by auto
qed (simp_all add: sync_start)

text \<open>Each time the events have all been flushed, the listener is in sync with the items.\<close>

lemma sync_flushed:
  assumes "coll_run False getKey isObject on start c r s lost" and "cl_buffering c = 0"
  shows "in_sync (map_of (cl_items c)) s"
proof -
  have inv: "coll_inv {} c r" "buffer_held c" using run_inv [OF assms(1)] run_quiet [OF assms(1)] by simp_all
  have "r k = map_of (cl_items c) k" for k
    using inv(2) assms(2) coll_invD(6) [OF inv(1), of k] by (simp add: pending_ok_def buffer_held_def)
  then have "r = map_of (cl_items c)" by (rule ext)
  with sync_run [OF assms(1)] show ?thesis by simp
qed

end

section \<open>Indexes and views follow their collection\<close>

lemma put_first:
  "k \<notin> fst ` set items \<Longrightarrow> r ++ map_of ((k, v) # items) = r(k \<mapsto> v) ++ map_of items"
  by (rule ext) (auto simp: map_add_def map_of_eq_None_iff split: option.splits dest: map_of_SomeD
    intro: rev_image_eqI)

text \<open>A listener that handles the items of an event one by one.\<close>

lemma fold_puts:
  assumes "P r s" and "distinct (map fst items)" and "new \<longrightarrow> fst ` set items \<inter> dom r = {}"
    and step: "\<And>k v r s. P r s \<Longrightarrow> new \<longrightarrow> r k = None \<Longrightarrow> P (r(k \<mapsto> v)) (step (k, v) s)"
  shows "P (r ++ map_of items) (fold step items s)"
  using assms(1-3)
proof (induction items arbitrary: r s)
  case (Cons x items)
  obtain k v where x: "x = (k, v)" by fastforce
  have "P (r(k \<mapsto> v)) (step (k, v) s)" using Cons.prems x by (intro step) auto
  moreover have "new \<longrightarrow> fst ` set items \<inter> dom (r(k \<mapsto> v)) = {}" using Cons.prems x by auto
  moreover have "distinct (map fst items)" using Cons.prems(2) by simp
  ultimately have "P (r(k \<mapsto> v) ++ map_of items) (fold step items (step (k, v) s))"
    using Cons.IH by blast
  moreover have "r ++ map_of (x # items) = r(k \<mapsto> v) ++ map_of items"
    unfolding x by (rule put_first) (use Cons.prems(2) x in simp)
  ultimately show ?case using x by (simp only: fold_simps comp_apply)
qed simp

lemma fold_drops:
  assumes "P r s" and step: "\<And>k v r s. P r s \<Longrightarrow> P (r(k := None)) (step (k, v) s)"
  shows "P (r |` (- fst ` set items)) (fold step items s)"
  using assms(1)
proof (induction items arbitrary: r s)
  case (Cons x items)
  obtain k v where x: "x = (k, v)" by fastforce
  have "(r(k := None)) |` (- fst ` set items) = r |` (- fst ` set (x # items))"
    by (rule ext) (simp add: restrict_map_def x)
  with Cons.IH [OF step [OF Cons.prems, of k v]] show ?case by (simp only: fold_simps comp_apply x)
qed (simp add: restrict_map_def)

definition index_sync :: "('v option \<Rightarrow> string option) \<Rightarrow> 'v known \<Rightarrow> 'v index \<Rightarrow> bool" where
  "index_sync typeOf r ix \<longleftrightarrow>
     (\<forall>k. map_of (keysToType ix) k = Option.bind (r k) typeOf) \<and>
     (\<forall>t k. map_of (type_items ix t) k =
        (case r k of None \<Rightarrow> None | Some v \<Rightarrow> if typeOf v = Some t then Some v else None))"

lemma type_items_simps [simp]:
  "type_items (insert_typed t key v ix) u =
     (if u = t then AList.update key v (type_items ix t) else type_items ix u)"
  "type_items (delete_typed t key ix) u =
     (if u = t then AList.delete key (type_items ix t) else type_items ix u)"
  "type_items (emit_typed t a v p ix) u = type_items ix u"
  "type_items (ix\<lparr>keysToType := m\<rparr>) u = type_items ix u"
  "keysToType (insert_typed t key v ix) = AList.update key t (keysToType ix)"
  "keysToType (delete_typed t key ix) = keysToType ix"
  "keysToType (emit_typed t a v p ix) = keysToType ix"
  by (auto simp: type_items_def insert_typed_def delete_typed_def emit_typed_def update_conv')

lemma index_on_simps:
  "index_on typeOf (Emit ActionAdd items) ix = index_onAdd typeOf items ix"
  "index_on typeOf (Emit ActionUpdate items) ix = index_onUpdate typeOf items ix"
  "index_on typeOf (Emit ActionRemove items) ix = index_onRemove items ix"
  "index_on typeOf Finish ix = ix"
  by (simp_all add: index_on_def)

lemma index_syncI:
  assumes "\<And>k. map_of (keysToType ix) k = Option.bind (r k) typeOf"
    and "\<And>t k. map_of (type_items ix t) k =
        (case r k of None \<Rightarrow> None | Some v \<Rightarrow> if typeOf v = Some t then Some v else None)"
  shows "index_sync typeOf r ix"
  using assms by (simp add: index_sync_def)

lemma index_syncD:
  assumes "index_sync typeOf r ix"
  shows "map_of (keysToType ix) k = Option.bind (r k) typeOf"
    and "map_of (type_items ix t) k =
        (case r k of None \<Rightarrow> None | Some v \<Rightarrow> if typeOf v = Some t then Some v else None)"
  using assms by (simp_all add: index_sync_def)

lemma index_add_step:
  assumes sync: "index_sync typeOf r ix" and "r key = None"
  shows "index_sync typeOf (r(key \<mapsto> val))
     (case typeOf val of
        None \<Rightarrow> ix | Some t \<Rightarrow> emit_typed t ActionAdd val None (insert_typed t key val ix))"
  by (rule index_syncI; cases "typeOf val")
     (auto simp: index_syncD [OF sync] update_conv' assms(2) split: option.splits)

lemma index_remove_step:
  assumes sync: "index_sync typeOf r ix"
  shows "index_sync typeOf (r(key := None))
     (case map_of (keysToType ix) key of
        None \<Rightarrow> ix
      | Some prev \<Rightarrow>
          let ix = delete_typed prev key
                (emit_typed prev ActionRemove None (item_value (type_items ix prev) key) ix)
          in ix\<lparr>keysToType := AList.delete key (keysToType ix)\<rparr>)"
proof (cases "Option.bind (r key) typeOf")
  case None
  then have gone: "r key = Some w \<Longrightarrow> typeOf w = None" for w by simp
  show ?thesis
    unfolding Let_def index_syncD(1) [OF sync] None
    by (rule index_syncI; cases "r key") (auto simp: index_syncD [OF sync] gone)
next
  case (Some p)
  then obtain w where w: "r key = Some w" "typeOf w = Some p" by (cases "r key") auto
  show ?thesis
    unfolding Let_def index_syncD(1) [OF sync] Some
    by (rule index_syncI) (auto simp: index_syncD [OF sync] delete_conv' w split: option.splits)
qed

lemma index_update_step:
  assumes sync: "index_sync typeOf r ix"
  shows "index_sync typeOf (r(key \<mapsto> val))
     (let prevType = map_of (keysToType ix) key;
          previousObj = (case prevType of None \<Rightarrow> None | Some p \<Rightarrow> item_value (type_items ix p) key);
          ix = (case prevType of None \<Rightarrow> ix | Some p \<Rightarrow> delete_typed p key ix)
      in case typeOf val of
           Some t \<Rightarrow> emit_typed t ActionUpdate val previousObj (insert_typed t key val ix)
         | None \<Rightarrow> ix\<lparr>keysToType := AList.delete key (keysToType ix)\<rparr>)"
proof (cases "Option.bind (r key) typeOf")
  case None
  then have gone: "r key = Some w \<Longrightarrow> typeOf w = None" for w by simp
  show ?thesis
    unfolding Let_def index_syncD(1) [OF sync] None
    by (rule index_syncI; cases "typeOf val"; cases "r key")
       (simp_all add: index_syncD [OF sync] update_conv' delete_conv' gone)
next
  case (Some p)
  then obtain w where w: "r key = Some w" "typeOf w = Some p" by (cases "r key") auto
  show ?thesis
    unfolding Let_def index_syncD(1) [OF sync] Some
    by (rule index_syncI; cases "typeOf val")
       (auto simp: index_syncD [OF sync] update_conv' delete_conv' w split: option.splits)
qed

interpretation index_follower: follower "index_on typeOf" empty_index "index_sync typeOf"
proof
  show "index_sync typeOf Map.empty empty_index"
    by (simp add: index_sync_def empty_index_def type_items_def)
next
  fix r ix and items :: "'a dict"
  assume "index_sync typeOf r ix" and "distinct (map fst items)" and "fst ` set items \<inter> dom r = {}"
  then show "index_sync typeOf (r ++ map_of items) (index_on typeOf (Emit ActionAdd items) ix)"
    unfolding index_on_simps index_onAdd_def
    by (intro fold_puts [where P = "index_sync typeOf" and new = True])
       (simp_all only: case_prod_conv index_add_step simp_thms)
next
  fix r ix and items :: "'a dict"
  assume "index_sync typeOf r ix" and "distinct (map fst items)"
  then show "index_sync typeOf (r ++ map_of items) (index_on typeOf (Emit ActionUpdate items) ix)"
    unfolding index_on_simps index_onUpdate_def
    by (intro fold_puts [where P = "index_sync typeOf" and new = False])
       (simp_all only: case_prod_conv index_update_step not_False_eq_True simp_thms)
next
  fix r ix and items :: "'a dict"
  assume "index_sync typeOf r ix"
  then show "index_sync typeOf (r |` (- fst ` set items)) (index_on typeOf (Emit ActionRemove items) ix)"
    unfolding index_on_simps index_onRemove_def
    by (intro fold_drops [where P = "index_sync typeOf"]) (simp_all only: case_prod_conv index_remove_step)
qed (simp add: index_on_simps)

definition view_sync :: "('v option \<Rightarrow> string \<Rightarrow> bool) \<Rightarrow> 'v known \<Rightarrow> 'v collection \<Rightarrow> bool" where
  "view_sync predicate r w \<longleftrightarrow>
     (\<forall>k. map_of (cl_items w) k =
        (case r k of None \<Rightarrow> None | Some v \<Rightarrow> if predicate v k then Some v else None))"

lemma items_view_set: "cl_items (view_set key v w) = AList.update key v (cl_items w)"
  by (cases v) (simp_all add: view_set_def collection_set_def resolveItem_def Let_def touch_item_fields)

lemma view_on_simps:
  "view_on predicate (Emit ActionAdd items) w = view_onAdd predicate items w"
  "view_on predicate (Emit ActionUpdate items) w = view_onUpdate predicate items w"
  "view_on predicate (Emit ActionRemove items) w = view_onRemove items w"
  "view_on predicate Finish w = w"
  by (simp_all add: view_on_def)

lemma items_unset: "map_of (cl_items (if has w key then remove_item key w else w)) = (map_of (cl_items w))(key := None)"
  by (rule ext) (simp add: items_remove_item delete_conv' has_def del: not_None_eq)

lemma view_add_step:
  "view_sync predicate r w \<Longrightarrow> r key = None \<Longrightarrow>
   view_sync predicate (r(key \<mapsto> val)) (if predicate val key then view_set key val w else w)"
  by (cases "predicate val key") (simp_all add: view_sync_def items_view_set update_conv')

lemma view_update_step:
  "view_sync predicate r w \<Longrightarrow>
   view_sync predicate (r(key \<mapsto> val))
     (if predicate val key then view_set key val w else if has w key then remove_item key w else w)"
  by (cases "predicate val key") (simp_all add: view_sync_def items_view_set items_unset update_conv')

lemma view_remove_step:
  "view_sync predicate r w \<Longrightarrow>
   view_sync predicate (r(key := None)) (if has w key then remove_item key w else w)"
  by (simp only: view_sync_def items_unset) simp

interpretation view_follower: follower "view_on predicate" empty_collection "view_sync predicate"
proof
  show "view_sync predicate Map.empty empty_collection"
    by (simp add: view_sync_def empty_collection_def)
next
  fix r w and items :: "'a dict"
  assume "view_sync predicate r w" and "distinct (map fst items)" and "fst ` set items \<inter> dom r = {}"
  then show "view_sync predicate (r ++ map_of items) (view_on predicate (Emit ActionAdd items) w)"
    unfolding view_on_simps view_onAdd_def
    by (intro fold_puts [where P = "view_sync predicate" and new = True])
       (simp_all only: case_prod_conv view_add_step simp_thms)
next
  fix r w and items :: "'a dict"
  assume "view_sync predicate r w" and "distinct (map fst items)"
  then show "view_sync predicate (r ++ map_of items) (view_on predicate (Emit ActionUpdate items) w)"
    unfolding view_on_simps view_onUpdate_def
    by (intro fold_puts [where P = "view_sync predicate" and new = False])
       (simp_all only: case_prod_conv view_update_step simp_thms)
next
  fix r w and items :: "'a dict"
  assume "view_sync predicate r w"
  then show "view_sync predicate (r |` (- fst ` set items)) (view_on predicate (Emit ActionRemove items) w)"
    unfolding view_on_simps view_onRemove_def
    by (intro fold_drops [where P = "view_sync predicate"]) (simp_all only: case_prod_conv view_remove_step)
qed (simp add: view_on_simps)

section \<open>What followers miss\<close>

text \<open>The item \<open>v\<close> whose key, type or reference is itself.\<close>

definition itself :: "string option \<Rightarrow> string option" where "itself v = v"

definition coll_do :: "string coll_op \<Rightarrow> string collection \<Rightarrow> string collection" where
  "coll_do op c = (case coll_call Some (\<lambda>_. True) op c of Inl _ \<Rightarrow> c | Inr c \<Rightarrow> c)"

definition first_flush :: "string collection \<Rightarrow> string event list" where
  "first_flush c = (case flush nobody 0 c of Inl _ \<Rightarrow> [] | Inr (events, _) \<Rightarrow> events)"

lemmas coll_eval = coll_do_def coll_call_def collection_add_def collection_set_def collection_remove_def
  resolveItem_def assertHas_def assertHasNot_def has_def remove_item_def touch_item_def touch_buffer_def
  bufferEvents_def empty_collection_def Let_def

text \<open>
  A collection where an object was removed and another one with the same reference added, in one batch:
  the additions are emitted before the removals, and the removal deletes the new item.
\<close>

definition replaced_ref :: "string collection" where
  "replaced_ref = coll_do (Add (KeyArg ''new'') (Some ''ref'')) (coll_do (Remove (KeyArg ''old''))
     (empty_collection\<lparr>cl_items := [(''old'', Some ''ref'')], cl_size := 1\<rparr>))"

lemma replaced_ref_eq:
  "cl_items replaced_ref = [(''new'', Some ''ref'')]"
  "first_flush replaced_ref =
     [Emit ActionAdd [(''new'', Some ''ref'')], Emit ActionRemove [(''old'', None)], Finish]"
  by (simp_all add: replaced_ref_def first_flush_def flush_def flush_events_def event_data_def item_value_def
      coll_eval)

text \<open>Two objects exchange their references in one batch.\<close>

definition swapped_refs :: "string collection" where
  "swapped_refs = coll_do (SetItem (KeyArg ''b'') (Some ''1'')) (coll_do (SetItem (KeyArg ''a'') (Some ''2''))
     (empty_collection\<lparr>cl_items := [(''a'', Some ''1''), (''b'', Some ''2'')], cl_size := 2\<rparr>))"

lemma swapped_refs_eq:
  "cl_items swapped_refs = [(''a'', Some ''2''), (''b'', Some ''1'')]"
  "first_flush swapped_refs = [Emit ActionUpdate [(''a'', Some ''2''), (''b'', Some ''1'')], Finish]"
  by (simp_all add: swapped_refs_def first_flush_def flush_def flush_events_def event_data_def item_value_def
      coll_eval)

text \<open>An index attached between the addition of an item and its removal, before any flush.\<close>

definition added_item :: "string collection" where
  "added_item = coll_do (Add (KeyArg ''k'') (Some ''t'')) empty_collection"

lemma added_item_eq:
  "cl_items added_item = [(''k'', Some ''t'')]"
  "cl_items (coll_do (Remove (KeyArg ''k'')) added_item) = []"
  "first_flush (coll_do (Remove (KeyArg ''k'')) added_item) = []"
  by (simp_all add: added_item_def first_flush_def flush_def coll_eval)

end
