(* ===== verification/Multi_Key_Map.thy ===== *)
theory Multi_Key_Map
  imports Prelude "HOL-Library.AList"
begin

text \<open>
  \<open>@vates/multi-key-map/index.js\<close>: a map whose keys are lists, kept as a tree in which a node without
  children is the value itself. The functions of the file recurse on the position in the list of keys;
  here they recurse on the keys that remain. A JavaScript \<open>Map\<close> is an association list in insertion
  order; the nodes are owned by their parent only, so that a node changed in place is the new node.
\<close>

section \<open>Definitions\<close>

datatype ('k, 'v) mk_node =
    Undefined
  | Value 'v
  | Node "'v option" "('k \<times> ('k, 'v) mk_node) list"

definition value_node :: "'v option \<Rightarrow> ('k, 'v) mk_node" where
  "value_node v = (case v of None \<Rightarrow> Undefined | Some x \<Rightarrow> Value x)"

definition node_value :: "('k, 'v) mk_node \<Rightarrow> 'v option" where
  "node_value n = (case n of Undefined \<Rightarrow> None | Value v \<Rightarrow> Some v | Node v _ \<Rightarrow> v)"

definition child_of :: "('k \<times> ('k, 'v) mk_node) list \<Rightarrow> 'k \<Rightarrow> ('k, 'v) mk_node" where
  "child_of children key = (case map_of children key of None \<Rightarrow> Undefined | Some n \<Rightarrow> n)"

fun mk_del :: "('k, 'v) mk_node \<Rightarrow> 'k list \<Rightarrow> ('k, 'v) mk_node" where
  "mk_del node [] = (case node of Node _ children \<Rightarrow> Node None children | _ \<Rightarrow> Undefined)"
| "mk_del node (key # keys) =
     (case node of
        Node v children \<Rightarrow>
          (let child = child_of children key
           in if child = Undefined then node
              else let newChild = mk_del child keys
                   in if newChild = Undefined then
                        if length children = 1 then value_node v
                        else Node v (AList.delete key children)
                      else if newChild \<noteq> child then Node v (AList.update key newChild children)
                      else node)
      | _ \<Rightarrow> node)"

fun mk_get :: "('k, 'v) mk_node \<Rightarrow> 'k list \<Rightarrow> 'v option" where
  "mk_get node [] = node_value node"
| "mk_get node (key # keys) =
     (case node of Node _ children \<Rightarrow> mk_get (child_of children key) keys | _ \<Rightarrow> None)"

fun mk_set :: "('k, 'v) mk_node \<Rightarrow> 'k list \<Rightarrow> 'v option \<Rightarrow> ('k, 'v) mk_node" where
  "mk_set node [] val = (case node of Node _ children \<Rightarrow> Node val children | _ \<Rightarrow> value_node val)"
| "mk_set node (key # keys) val =
     (case node of
        Node v children \<Rightarrow>
          (let child = child_of children key; newChild = mk_set child keys val
           in if newChild \<noteq> child then Node v (AList.update key newChild children) else node)
      | _ \<Rightarrow> Node (node_value node) [(key, mk_set Undefined keys val)])"

text \<open>The generators \<open>entries\<close> and \<open>values\<close>, as the lists they yield.\<close>

function mk_entries :: "('k, 'v) mk_node \<Rightarrow> 'k list \<Rightarrow> ('k list \<times> 'v) list" where
  "mk_entries Undefined key = []"
| "mk_entries (Value v) key = [(key, v)]"
| "mk_entries (Node v children) key =
     (case v of None \<Rightarrow> [] | Some x \<Rightarrow> [(key, x)]) @
     concat (map (\<lambda>p. mk_entries (snd p) (key @ [fst p])) children)"
  by pat_completeness auto

lemma size_child: "p \<in> set children \<Longrightarrow> size (snd p) < size (Node v children)"
  by (induction children) auto

termination mk_entries
  by (relation "measure (size \<circ> fst)") (use size_child in auto)

function mk_values :: "('k, 'v) mk_node \<Rightarrow> 'v list" where
  "mk_values Undefined = []"
| "mk_values (Value v) = [v]"
| "mk_values (Node v children) =
     (case v of None \<Rightarrow> [] | Some x \<Rightarrow> [x]) @ concat (map (\<lambda>p. mk_values (snd p)) children)"
  by pat_completeness auto

termination mk_values
  by (relation "measure size") (use size_child in auto)

section \<open>The laws of a map\<close>

text \<open>The keys of the children of a node are distinct, as in a JavaScript \<open>Map\<close>.\<close>

inductive mk_wf :: "('k, 'v) mk_node \<Rightarrow> bool" where
  wf_undefined: "mk_wf Undefined"
| wf_value: "mk_wf (Value v)"
| wf_node: "distinct (map fst children) \<Longrightarrow> (\<And>p. p \<in> set children \<Longrightarrow> mk_wf (snd p)) \<Longrightarrow>
    mk_wf (Node v children)"

inductive_simps wf_node_iff [simp]: "mk_wf (Node v children)"

lemma wf_leaf [simp]: "mk_wf Undefined" "mk_wf (Value v)" "mk_wf (value_node x)"
  by (auto intro: mk_wf.intros simp: value_node_def split: option.split)

lemma node_value_simps [simp]:
  "node_value Undefined = None" "node_value (Value v) = Some v" "node_value (Node w children) = w"
  "node_value (value_node x) = x"
  by (auto simp: node_value_def value_node_def split: option.split)

lemma get_undefined [simp]: "mk_get Undefined keys = None"
  by (cases keys) auto

lemma get_value_node [simp]: "mk_get (value_node x) (key # keys) = None"
  by (cases x) (auto simp: value_node_def)

lemma child_of_simps [simp]:
  "child_of [] k = Undefined"
  "child_of ((k', n) # cs) k = (if k = k' then n else child_of cs k)"
  "child_of (AList.update k' n cs) k = (if k = k' then n else child_of cs k)"
  "child_of (AList.delete k' cs) k = (if k = k' then Undefined else child_of cs k)"
  by (auto simp: child_of_def update_conv' delete_conv')

lemma wf_child: "mk_wf (Node v children) \<Longrightarrow> mk_wf (child_of children key)"
  by (force simp: child_of_def split: option.split dest: map_of_SomeD)

lemma get_set:
  "mk_get (mk_set node keys val) keys' = (if keys' = keys then val else mk_get node keys')"
proof (induction keys arbitrary: node keys')
  case Nil
  then show ?case by (cases node; cases keys'; cases val) (auto simp: value_node_def)
next
  case (Cons key keys)
  show ?case
  proof (cases keys')
    case Nil
    then show ?thesis by (cases node) (auto simp: Let_def)
  next
    case (Cons k ks)
    have same: "mk_set child keys val = child \<Longrightarrow> mk_get child ks = (if ks = keys then val else mk_get child ks)"
      for child using Cons.IH [of child ks] by simp
    show ?thesis using Cons same [of "child_of c key" for c] Cons.IH
      by (cases node) (auto simp: Let_def)
  qed
qed

lemma set_update_children: "set (AList.update k n cs) \<subseteq> insert (k, n) (set cs)"
  by (induction cs) auto

lemma set_delete_children: "set (AList.delete k cs) \<subseteq> set cs"
  by (induction cs) auto

lemma wf_update:
  "mk_wf (Node v children) \<Longrightarrow> mk_wf n \<Longrightarrow> mk_wf (Node w (AList.update k n children))"
  using set_update_children [of k n children] by (auto simp: distinct_update)

lemma wf_delete: "mk_wf (Node v children) \<Longrightarrow> mk_wf (Node w (AList.delete k children))"
  using set_delete_children [of k children] by (auto simp: distinct_delete)

lemma wf_set: "mk_wf node \<Longrightarrow> mk_wf (mk_set node keys val)"
proof (induction keys arbitrary: node)
  case Nil
  then show ?case by (cases node) auto
next
  case (Cons key keys)
  show ?case
  proof (cases node)
    case (Node v children)
    have "mk_wf (mk_set (child_of children key) keys val)"
      using Cons.IH wf_child Cons.prems Node by metis
    then show ?thesis using Cons.prems Node wf_update by (auto simp: Let_def simp del: wf_node_iff)
  qed (use Cons.IH [of Undefined] in auto)
qed

lemma wf_del: "mk_wf node \<Longrightarrow> mk_wf (mk_del node keys)"
proof (induction keys arbitrary: node)
  case Nil
  then show ?case by (cases node) auto
next
  case (Cons key keys)
  show ?case
  proof (cases node)
    case (Node v children)
    have "mk_wf (mk_del (child_of children key) keys)"
      using Cons.IH wf_child Cons.prems Node by metis
    then show ?thesis using Cons.prems Node wf_update wf_delete
      by (auto simp: Let_def simp del: wf_node_iff)
  qed (use Cons.prems in auto)
qed

lemma single_child:
  "child_of children key \<noteq> Undefined \<Longrightarrow> length children = 1 \<Longrightarrow> k \<noteq> key \<Longrightarrow> child_of children k = Undefined"
  by (cases children) (auto simp: child_of_def split: if_splits)

lemma get_del: "mk_get (mk_del node keys) keys' = (if keys' = keys then None else mk_get node keys')"
proof (induction keys arbitrary: node keys')
  case Nil
  then show ?case by (cases node; cases keys') auto
next
  case (Cons key keys)
  show ?case
  proof (cases node)
    case (Node v children)
    let ?child = "child_of children key"
    let ?new = "mk_del ?child keys"
    have child: "mk_get ?new ks = (if ks = keys then None else mk_get ?child ks)" for ks
      by (rule Cons.IH)
    consider "?child = Undefined" | "?child \<noteq> Undefined" "?new = Undefined" "length children = 1"
      | "?child \<noteq> Undefined" "?new = Undefined" "length children \<noteq> 1"
      | "?child \<noteq> Undefined" "?new \<noteq> Undefined" by blast
    then show ?thesis
    proof cases
      case 2
      have gone: "mk_get (child_of children k) ks = None" if "k # ks \<noteq> key # keys" for k ks
        using child [of ks] single_child [OF 2(1,3), of k] 2(2) that by (cases "k = key") auto
      have none: "mk_get (Node v children) (k # ks) = None" if "k # ks \<noteq> key # keys" for k ks
        using gone [OF that] by simp
      have del: "mk_del node (key # keys) = value_node v" using 2 Node by (simp add: Let_def)
      show ?thesis
      proof (cases keys')
        case Nil
        then show ?thesis unfolding del using Node by simp
      next
        case (Cons k ks)
        then show ?thesis unfolding del using none [of k ks] Node by (simp del: mk_get.simps(2))
      qed
    next
      case 1
      then show ?thesis using Node by (cases keys') (auto simp: Let_def)
    next
      case 3
      have none: "mk_get ?child keys'' = None" if "keys'' \<noteq> keys" for keys''
        using child [of keys''] 3(2) that by simp
      have "mk_del node (key # keys) = Node v (AList.delete key children)" using 3 Node by (simp add: Let_def)
      then show ?thesis using none Node by (cases keys') auto
    next
      case 4
      have "mk_get (mk_del node (key # keys)) (k # ks) =
          mk_get (if k = key then ?new else child_of children k) ks" for k ks
        using 4 Node by (simp add: Let_def)
      moreover have "mk_get (mk_del node (key # keys)) [] = v" using 4 Node by (simp add: Let_def)
      ultimately show ?thesis using child Node by (cases keys') auto
    qed
  qed (cases keys'; auto simp: Let_def)+
qed

text \<open>
  No memory is kept for what has been deleted: as long as \<open>undefined\<close> is not set as a value, every node of
  the tree leads to a value.
\<close>

inductive mk_tight :: "('k, 'v) mk_node \<Rightarrow> bool" where
  tight_value: "mk_tight (Value v)"
| tight_node: "children \<noteq> [] \<Longrightarrow> (\<And>p. p \<in> set children \<Longrightarrow> mk_tight (snd p)) \<Longrightarrow> mk_tight (Node v children)"

inductive_simps tight_simps [simp]: "mk_tight Undefined" "mk_tight (Value v)" "mk_tight (Node v children)"

lemma tight_child:
  "mk_tight (Node v children) \<Longrightarrow> mk_tight (child_of children key) \<or> child_of children key = Undefined"
  by (auto simp: child_of_def split: option.split dest!: map_of_SomeD)

lemma tight_update: "mk_tight (Node v children) \<Longrightarrow> mk_tight n \<Longrightarrow> mk_tight (Node w (AList.update k n children))"
  using set_update_children [of k n children] by auto

lemma tight_set:
  "mk_tight node \<or> node = Undefined \<Longrightarrow> mk_tight (mk_set node keys (Some val))"
proof (induction keys arbitrary: node)
  case Nil
  then show ?case by (cases node) (auto simp: value_node_def)
next
  case (Cons key keys)
  show ?case
  proof (cases node)
    case (Node v children)
    have "mk_tight (mk_set (child_of children key) keys (Some val))"
      using Cons.IH tight_child [of v children key] Cons.prems Node by blast
    moreover have "mk_tight (Node v children)" using Cons.prems Node by simp
    ultimately show ?thesis using Node tight_update [of v children]
      by (simp add: Let_def del: tight_simps(3))
  qed (use Cons.IH [of Undefined] in simp_all)
qed

lemma delete_nonempty:
  assumes "distinct (map fst children)" and "length children \<noteq> 1" and "children \<noteq> []"
  shows "AList.delete k children \<noteq> []"
proof
  assume "AList.delete k children = []"
  then have "removeAll k (map fst children) = []" by (simp add: delete_keys [symmetric])
  then have "set (map fst children) \<subseteq> {k}" by (auto simp: removeAll_filter_not_eq filter_empty_conv)
  then have "card (set (map fst children)) \<le> 1" using card_mono [of "{k}"] by fastforce
  then have "length children \<le> 1" using distinct_card [OF assms(1)] by simp
  with assms(2,3) show False by (cases children) auto
qed

lemma tight_del:
  "mk_tight node \<Longrightarrow> mk_wf node \<Longrightarrow> mk_tight (mk_del node keys) \<or> mk_del node keys = Undefined"
proof (induction keys arbitrary: node)
  case Nil
  then show ?case by (cases node) auto
next
  case (Cons key keys)
  show ?case
  proof (cases node)
    case (Node v children)
    let ?child = "child_of children key"
    have new: "?child \<noteq> Undefined \<Longrightarrow> mk_tight (mk_del ?child keys) \<or> mk_del ?child keys = Undefined"
      using Cons.IH tight_child wf_child Cons.prems Node by metis
    have "length children \<noteq> 1 \<Longrightarrow> mk_tight (Node v (AList.delete key children))"
      using Cons.prems Node delete_nonempty [of children key] set_delete_children [of key children] by auto
    then show ?thesis using Cons.prems Node new tight_update
      by (cases v) (auto simp: Let_def value_node_def simp del: tight_simps(3))
  qed (use Cons.prems in auto)
qed

lemma tight_holds: "mk_tight node \<Longrightarrow> mk_wf node \<Longrightarrow> \<exists>keys. mk_get node keys \<noteq> None"
proof (induction rule: mk_tight.induct)
  case (tight_value v)
  then show ?case by (intro exI [of _ "[]"]) simp
next
  case (tight_node children v)
  then obtain k n cs where "children = (k, n) # cs" by (cases children) auto
  with tight_node.IH [of "(k, n)"] tight_node.prems obtain keys where "mk_get n keys \<noteq> None" by auto
  then show ?case using \<open>children = _\<close> by (intro exI [of _ "k # keys"]) auto
qed

section \<open>Iteration\<close>

lemma values_entries: "mk_values node = map snd (mk_entries node key)"
proof (induction node key rule: mk_entries.induct)
  case (3 v children key)
  then have "map (\<lambda>p. mk_values (snd p)) children =
      map (\<lambda>p. map snd (mk_entries (snd p) (key @ [fst p]))) children" by auto
  then show ?case by (cases v) (simp_all add: map_concat comp_def del: map_eq_conv)
qed auto

lemma child_of_mem:
  "distinct (map fst children) \<Longrightarrow> (k, n) \<in> set children \<Longrightarrow> child_of children k = n"
  by (simp add: child_of_def)

lemma bex_pair: "(\<exists>p\<in>S. Q (snd p) (fst p)) \<longleftrightarrow> (\<exists>k n. (k, n) \<in> S \<and> Q n k)"
  by force

lemma get_child_iff:
  assumes "distinct (map fst children)"
  shows "mk_get (child_of children k) keys = Some v \<longleftrightarrow> (\<exists>n. (k, n) \<in> set children \<and> mk_get n keys = Some v)"
proof (cases "map_of children k")
  case None
  then have "(k, n) \<notin> set children" for n by (force simp: map_of_eq_None_iff)
  with None show ?thesis by (simp add: child_of_def)
next
  case (Some n)
  then have "(k, m) \<in> set children \<longleftrightarrow> m = n" for m
    using assms by (auto dest: map_of_SomeD eq_key_imp_eq_value)
  with Some show ?thesis by (simp add: child_of_def)
qed

lemma ex_list: "(\<exists>xs. P xs) \<longleftrightarrow> P [] \<or> (\<exists>x xs. P (x # xs))"
  by (metis list.exhaust)

lemma entries_get:
  "mk_wf node \<Longrightarrow>
   (ks, v) \<in> set (mk_entries node key) \<longleftrightarrow> (\<exists>keys. ks = key @ keys \<and> mk_get node keys = Some v)"
proof (induction node key arbitrary: ks rule: mk_entries.induct)
  case (2 w key)
  then show ?case
    by (auto simp: neq_Nil_conv intro: exI [of _ "[]"] elim!: mk_get.elims)
next
  case (3 w children key)
  have "(ks, v) \<in> set (mk_entries (Node w children) key) \<longleftrightarrow>
      (ks = key \<and> w = Some v) \<or> (\<exists>k n. (k, n) \<in> set children \<and> (ks, v) \<in> set (mk_entries n (key @ [k])))"
    using bex_pair [of "set children" "\<lambda>n k. (ks, v) \<in> set (mk_entries n (key @ [k]))"]
    by (cases w) auto
  also have "\<dots> \<longleftrightarrow> (ks = key \<and> w = Some v) \<or>
      (\<exists>k n. (k, n) \<in> set children \<and> (\<exists>keys. ks = (key @ [k]) @ keys \<and> mk_get n keys = Some v))"
    using 3 by fastforce
  also have "\<dots> \<longleftrightarrow> (ks = key \<and> w = Some v) \<or>
      (\<exists>k keys. ks = key @ k # keys \<and> mk_get (child_of children k) keys = Some v)"
    using get_child_iff [of children] 3(2) by (simp, blast)
  also have "\<dots> \<longleftrightarrow> (\<exists>keys. ks = key @ keys \<and> mk_get (Node w children) keys = Some v)"
    by (simp add: ex_list [of "\<lambda>keys. ks = key @ keys \<and> mk_get (Node w children) keys = Some v"])
  finally show ?case .
qed simp

end
