(* ===== verification/Cron.thy ===== *)
theory Cron
  imports Prelude "HOL-Library.Sublist"
begin

text \<open>
  \<open>@xen-orchestra/cron\<close>: the parser of the schedules (\<open>parse.js\<close>) and the jobs that run them
  (\<open>Job\<close> of \<open>index.js\<close>). The date arithmetic of \<open>next.js\<close> is moment's: the next run is an argument of
  the jobs, which may be that there is none. The parser's position in the pattern is the part of the pattern that remains; a loop that
  does not end is \<open>None\<close>.
\<close>

section \<open>Parsing schedules\<close>

record cron_field =
  fd_name :: string
  fd_range :: "nat \<times> nat"
  fd_aliases :: "(string \<times> nat) list option"
  fd_post :: "(nat \<Rightarrow> nat) option"

type_synonym schedule = "string \<Rightarrow> nat list option"
type_synonym 'a parse_result = "(js_error + 'a) option"

definition isDigit :: "char \<Rightarrow> bool" where
  "isDigit c \<longleftrightarrow> of_char c \<ge> (48 :: nat) \<and> of_char c \<le> (57 :: nat)"

definition match_char :: "char \<Rightarrow> string \<Rightarrow> string option" where
  "match_char c p = (case p of [] \<Rightarrow> None | x # rest \<Rightarrow> if x = c then Some rest else None)"

definition consumeWhitespaces :: "string \<Rightarrow> string" where
  "consumeWhitespaces p = dropWhile (\<lambda>c. c = CHR '' '' \<or> c = CHR 0x09) p"

definition digits_value :: "string \<Rightarrow> nat" where
  "digits_value ds = foldl (\<lambda>a c. 10 * a + (of_char c - 48)) 0 ds"

definition parseInteger :: "string \<Rightarrow> js_error + (nat \<times> string)" where
  "parseInteger p =
     (let digits = takeWhile isDigit p
      in if digits = [] then Inl SyntaxError else Inr (digits_value digits, dropWhile isDigit p))"

text \<open>The sticky expression \<open>a1|a2|...\<close> matches the first alias the pattern goes on with.\<close>

definition match_alias :: "(string \<times> nat) list \<Rightarrow> string \<Rightarrow> (string \<times> nat) option" where
  "match_alias aliases p = List.find (\<lambda>(alias, _). take (length alias) p = alias) aliases"

definition parseValue :: "cron_field \<Rightarrow> string \<Rightarrow> js_error + (nat \<times> string)" where
  "parseValue field p =
     res_bind
       (if fd_aliases field = None \<or> p \<noteq> [] \<and> isDigit (hd p) then
          res_bind (parseInteger p) (\<lambda>(val, p).
            Inr (case fd_post field of None \<Rightarrow> val | Some post \<Rightarrow> post val, p))
        else
          case match_alias (the (fd_aliases field)) p of
            None \<Rightarrow> Inl SyntaxError
          | Some (alias, val) \<Rightarrow> Inr (val, drop (length alias) p))
       (\<lambda>(val, p).
          if val < fst (fd_range field) \<or> val > snd (fd_range field) then Inl SyntaxError else Inr (val, p))"

definition set_add :: "'a \<Rightarrow> 'a list \<Rightarrow> 'a list" where
  "set_add x xs = (if x \<in> set xs then xs else xs @ [x])"

partial_function (option) add_range :: "nat \<Rightarrow> nat \<Rightarrow> nat \<Rightarrow> nat list \<Rightarrow> nat list option" where
  "add_range i stop step values =
     (if i \<le> stop then add_range (i + step) stop step (set_add i values) else Some values)"

declare add_range.simps [code]

definition parseRange :: "cron_field \<Rightarrow> string \<Rightarrow> nat list \<Rightarrow> (nat list \<times> string) parse_result" where
  "parseRange field p values =
     (let loop = (\<lambda>start stop step p.
            Option.bind (add_range start stop step values) (\<lambda>values. Some (Inr (values, p))))
      in case match_char CHR ''*'' p of
           Some p \<Rightarrow>
             (case match_char CHR ''/'' p of
                None \<Rightarrow> Some (Inr (values, p))
              | Some p \<Rightarrow>
                  (case parseInteger p of
                     Inl e \<Rightarrow> Some (Inl e)
                   | Inr (step, p) \<Rightarrow> loop (fst (fd_range field)) (snd (fd_range field)) step p))
         | None \<Rightarrow>
             (case parseValue field p of
                Inl e \<Rightarrow> Some (Inl e)
              | Inr (start, p) \<Rightarrow>
                  (case match_char CHR ''-'' p of
                     None \<Rightarrow> Some (Inr (set_add start values, p))
                   | Some p \<Rightarrow>
                       (case parseValue field p of
                          Inl e \<Rightarrow> Some (Inl e)
                        | Inr (stop, p) \<Rightarrow>
                            (case match_char CHR ''/'' p of
                               None \<Rightarrow> loop start stop 1 p
                             | Some p \<Rightarrow>
                                 (case parseInteger p of
                                    Inl e \<Rightarrow> Some (Inl e)
                                  | Inr (step, p) \<Rightarrow> loop start stop step p))))))"

partial_function (option) parseSequence :: "cron_field \<Rightarrow> string \<Rightarrow> nat list \<Rightarrow> (nat list \<times> string) parse_result" where
  "parseSequence field p values =
     Option.bind (parseRange field p values) (\<lambda>r.
       case r of
         Inl e \<Rightarrow> Some (Inl e)
       | Inr (values, p) \<Rightarrow>
           (case match_char CHR '','' p of
              None \<Rightarrow> Some (Inr (values, p))
            | Some p \<Rightarrow> parseSequence field p values))"

declare parseSequence.simps [code]

definition set_schedule :: "cron_field \<Rightarrow> nat list \<Rightarrow> schedule \<Rightarrow> schedule" where
  "set_schedule field values schedule =
     (if length values \<noteq> 0 then schedule(fd_name field \<mapsto> sort values) else schedule)"

fun parse_fields :: "cron_field list \<Rightarrow> string \<Rightarrow> schedule \<Rightarrow> schedule parse_result" where
  "parse_fields [] p schedule =
     (let p = consumeWhitespaces p in Some (if p \<noteq> [] then Inl SyntaxError else Inr schedule))"
| "parse_fields (field # fs) p schedule =
     Option.bind (parseSequence field (consumeWhitespaces p) []) (\<lambda>r.
       case r of
         Inl e \<Rightarrow> Some (Inl e)
       | Inr (values, p) \<Rightarrow> parse_fields fs p (set_schedule field values schedule))"

text \<open>
  A preset is the pattern it stands for; the code keeps its schedule once it is parsed, which is the same
  since parsing depends on nothing else.
\<close>

partial_function (option) parse_with :: "cron_field list \<Rightarrow> (string \<Rightarrow> string option) \<Rightarrow> string \<Rightarrow> schedule parse_result" where
  "parse_with fs presets p =
     (case presets p of
        Some pattern \<Rightarrow> parse_with fs presets pattern
      | None \<Rightarrow> parse_fields fs p Map.empty)"

declare parse_with.simps [code]

text \<open>Aliases given as a list are numbered from the start of the range.\<close>

definition number_aliases :: "nat \<Rightarrow> string list \<Rightarrow> (string \<times> nat) list" where
  "number_aliases start symbols = zip symbols [start..<start + length symbols]"

definition cron_fields :: "cron_field list" where
  "cron_fields =
     [\<lparr>fd_name = ''minute'', fd_range = (0, 59), fd_aliases = None, fd_post = None\<rparr>,
      \<lparr>fd_name = ''hour'', fd_range = (0, 23), fd_aliases = None, fd_post = None\<rparr>,
      \<lparr>fd_name = ''dayOfMonth'', fd_range = (1, 31), fd_aliases = None, fd_post = None\<rparr>,
      \<lparr>fd_name = ''month'', fd_range = (0, 11),
        fd_aliases = Some (number_aliases 0 [''jan'', ''feb'', ''mar'', ''apr'', ''may'', ''jun'',
          ''jul'', ''aug'', ''sep'', ''oct'', ''nov'', ''dec'']), fd_post = None\<rparr>,
      \<lparr>fd_name = ''dayOfWeek'', fd_range = (0, 6),
        fd_aliases = Some (number_aliases 0 [''sun'', ''mon'', ''tue'', ''wen'', ''thu'', ''fri'', ''sat'']),
        fd_post = Some (\<lambda>v. if v = 7 then 0 else v)\<rparr>]"

definition preset_patterns :: "(string \<times> string) list" where
  "preset_patterns =
     [(''@annually'', ''0 0 1 jan *''), (''@daily'', ''0 0 * * *''), (''@hourly'', ''0 * * * *''),
      (''@monthly'', ''0 0 1 * *''), (''@weekly'', ''0 0 * * sun''), (''@yearly'', ''0 0 1 jan *'')]"

text \<open>
  The names that the object of the presets inherits, such as \<open>constructor\<close>, are no presets here; the
  source takes them for one.
\<close>

definition cron_presets :: "string \<Rightarrow> string option" where
  "cron_presets = map_of preset_patterns"

definition parse :: "string \<Rightarrow> schedule parse_result" where
  "parse = parse_with cron_fields cron_presets"

section \<open>Jobs\<close>

text \<open>
  The timers of a job: \<open>TimerWrapper\<close> runs the function, \<open>TimerNext\<close> waits again when the next run is
  further than a timer can count. \<open>jb_pending\<close> is the list of the timers that have not fired nor been
  cleared; \<open>jb_timeout\<close> is the one \<open>_timeout\<close> holds (each timer has a number).
\<close>

datatype timer_kind = TimerWrapper | TimerNext

record job =
  jb_isEnabled :: bool
  jb_isRunning :: bool
  jb_timeout :: "nat option"
  jb_pending :: "(nat \<times> timer_kind) list"
  jb_timers :: nat
  jb_scheduled :: int
  jb_runs :: nat

definition MAX_DELAY :: int where "MAX_DELAY = 2 ^ 31 - 1"

definition setTimeout :: "timer_kind \<Rightarrow> job \<Rightarrow> job" where
  "setTimeout kind j =
     j\<lparr>jb_timeout := Some (jb_timers j), jb_pending := jb_pending j @ [(jb_timers j, kind)],
       jb_timers := jb_timers j + 1\<rparr>"

definition clearTimeout :: "nat option \<Rightarrow> job \<Rightarrow> job" where
  "clearTimeout t j = j\<lparr>jb_pending := filter (\<lambda>(i, _). Some i \<noteq> t) (jb_pending j)\<rparr>"

definition new_job :: job where
  "new_job = \<lparr>jb_isEnabled = False, jb_isRunning = False, jb_timeout = None, jb_pending = [],
     jb_timers = 0, jb_scheduled = 0, jb_runs = 0\<rparr>"

text \<open>
  \<open>next_run now\<close> is \<open>+next(schedule, now)\<close>, \<open>None\<close> when \<open>next\<close> throws because the schedule has no
  solution (\<open>0 0 30 feb *\<close>). The exception leaves \<open>scheduleNext\<close> before the timer is set; the operations
  below give it beside the state it leaves.
\<close>

datatype job_error = NoSolution

definition scheduleNext :: "(int \<Rightarrow> int option) \<Rightarrow> int \<Rightarrow> job \<Rightarrow> job_error option \<times> job" where
  "scheduleNext next_run now j =
     (let j = j\<lparr>jb_isRunning := False\<rparr>
      in if jb_isEnabled j then
           (case next_run now of
              None \<Rightarrow> (Some NoSolution, j)
            | Some date \<Rightarrow>
                let j = j\<lparr>jb_scheduled := date\<rparr>
                in (None, setTimeout (if jb_scheduled j - now < MAX_DELAY then TimerWrapper else TimerNext) j))
         else (None, j))"

text \<open>
  What the function of the job does to the job before it returns or throws, and whether it returns a
  promise. An exception of the function is dropped.
\<close>

definition wrapper ::
  "(int \<Rightarrow> int option) \<Rightarrow> int \<Rightarrow> (job \<Rightarrow> job) \<Rightarrow> bool \<Rightarrow> job \<Rightarrow> job_error option \<times> job" where
  "wrapper next_run now fn promise j =
     (if jb_scheduled j > now then (None, setTimeout TimerWrapper j)
      else
        let j = fn (j\<lparr>jb_isRunning := True, jb_runs := jb_runs j + 1\<rparr>)
        in if promise then (None, j) else scheduleNext next_run now j)"

definition job_stop :: "job \<Rightarrow> job" where
  "job_stop j = clearTimeout (jb_timeout j) (j\<lparr>jb_isEnabled := False\<rparr>)"

definition job_start :: "(int \<Rightarrow> int option) \<Rightarrow> int \<Rightarrow> job \<Rightarrow> job_error option \<times> job" where
  "job_start next_run now j =
     (let j = (job_stop j)\<lparr>jb_isEnabled := True\<rparr>
      in if \<not> jb_isRunning j then scheduleNext next_run now j else (None, j))"

text \<open>
  The steps of a job: calls of its methods, at any time, timers that fire and the promise of the function
  that settles. The function of the job may itself stop and start the job, and goes on or not when a call
  throws. The second argument of a step is what it throws: to the caller of \<open>start\<close>, as an uncaught
  exception of a timer, or as the rejection of the promise.
\<close>

datatype job_request = CallStart int | CallStop

definition job_call :: "(int \<Rightarrow> int option) \<Rightarrow> job_request \<Rightarrow> job \<Rightarrow> job_error option \<times> job" where
  "job_call next_run c j =
     (case c of CallStart now \<Rightarrow> job_start next_run now j | CallStop \<Rightarrow> (None, job_stop j))"

definition job_calls :: "(int \<Rightarrow> int option) \<Rightarrow> job_request list \<Rightarrow> job \<Rightarrow> job" where
  "job_calls next_run = fold (\<lambda>c j. snd (job_call next_run c j))"

inductive job_step :: "(int \<Rightarrow> int option) \<Rightarrow> job \<Rightarrow> job_error option \<Rightarrow> job \<Rightarrow> bool" for next_run where
  step_call: "job_call next_run c j = (e, j') \<Longrightarrow> job_step next_run j e j'"
| step_wrapper: "(t, TimerWrapper) \<in> set (jb_pending j) \<Longrightarrow>
    wrapper next_run now (job_calls next_run calls) promise (clearTimeout (Some t) j) = (e, j') \<Longrightarrow>
    job_step next_run j e j'"
| step_next: "(t, TimerNext) \<in> set (jb_pending j) \<Longrightarrow>
    scheduleNext next_run now (clearTimeout (Some t) j) = (e, j') \<Longrightarrow> job_step next_run j e j'"
| step_settle: "jb_isRunning j \<Longrightarrow> scheduleNext next_run now j = (e, j') \<Longrightarrow> job_step next_run j e j'"

text \<open>\<open>job_reachable next_run e j\<close>: the job is in the state \<open>j\<close> after a step that threw \<open>e\<close> or, \<open>None\<close>, nothing.\<close>

inductive job_reachable :: "(int \<Rightarrow> int option) \<Rightarrow> job_error option \<Rightarrow> job \<Rightarrow> bool" for next_run where
  reach_new: "job_reachable next_run None new_job"
| reach_step: "job_reachable next_run e j \<Longrightarrow> job_step next_run j e' j' \<Longrightarrow> job_reachable next_run e' j'"

inductive_cases job_stepE: "job_step next_run j e j'"

end
