(* ===== verification/Cron_Props.thy ===== *)
theory Cron_Props
  imports Cron
begin

text \<open>
  What the parser of the schedules promises: the values of a field are sorted, distinct and within its
  range; a pattern without a zero step is always parsed to the end; a printed schedule is parsed back.
  Then the jobs: at most one timer is pending, and none once the job is stopped.
\<close>

section \<open>The loop over a range\<close>

lemma set_set_add [simp]: "set (set_add x xs) = insert x (set xs)"
  by (auto simp: set_add_def)

lemma distinct_set_add [simp]: "distinct (set_add x xs) \<longleftrightarrow> distinct xs"
  by (auto simp: set_add_def)

lemmas add_range_induct = add_range.raw_induct [rotated, consumes 1, case_names step]
lemmas parseSequence_induct = parseSequence.raw_induct [rotated, consumes 1, case_names step]

lemma add_range_step: "add_range start stop step vs = Some r \<Longrightarrow> start \<le> stop \<longrightarrow> step \<noteq> 0"
proof (induction rule: add_range_induct)
  case (step f i stop step vs r)
  show ?case
  proof
    assume "i \<le> stop"
    then have "f (i + step) stop step (set_add i vs) = Some r" using step(2) by simp
    with step(1) \<open>i \<le> stop\<close> show "step \<noteq> 0" by (metis add_0_right)
  qed
qed

lemma add_range_zero: "start \<le> stop \<Longrightarrow> add_range start stop 0 vs = None"
  using add_range_step [of start stop 0 vs] by (cases "add_range start stop 0 vs") auto

lemma add_range_spec:
  "0 < step \<Longrightarrow>
   \<exists>r. add_range i stop step vs = Some r \<and>
     set r = set vs \<union> {i + k * step | k. i + k * step \<le> stop} \<and> distinct r = distinct vs"
proof (induction "Suc stop - i" arbitrary: i vs rule: less_induct)
  case less
  show ?case
  proof (cases "i \<le> stop")
    case True
    then have "Suc stop - (i + step) < Suc stop - i" using less.prems by simp
    from less.hyps [OF this less.prems, of "set_add i vs"]
    obtain r where r: "add_range (i + step) stop step (set_add i vs) = Some r"
      "set r = insert i (set vs) \<union> {i + step + k * step | k. i + step + k * step \<le> stop}"
      "distinct r = distinct vs"
      by (auto simp only: set_set_add distinct_set_add Un_insert_left)
    have "{i + k * step | k. i + k * step \<le> stop} =
        insert i {i + step + k * step | k. i + step + k * step \<le> stop}"
    proof (intro set_eqI iffI)
      fix x
      assume "x \<in> {i + k * step | k. i + k * step \<le> stop}"
      then obtain k where k: "x = i + k * step" "i + k * step \<le> stop" by auto
      then show "x \<in> insert i {i + step + k * step | k. i + step + k * step \<le> stop}"
        by (cases k) (auto simp: algebra_simps)
    next
      fix x
      assume "x \<in> insert i {i + step + k * step | k. i + step + k * step \<le> stop}"
      then consider "x = i" | k where "x = i + Suc k * step" "x \<le> stop" by (auto simp: algebra_simps)
      then show "x \<in> {i + k * step | k. i + k * step \<le> stop}"
      proof cases
        case 1
        then show ?thesis using True by (auto intro: exI [of _ 0])
      qed blast
    qed
    with r show ?thesis using True by (subst add_range.simps) auto
  next
    case False
    then show ?thesis by (subst add_range.simps) auto
  qed
qed

lemma add_range_within:
  assumes "add_range i stop step vs = Some r"
  shows "set r \<subseteq> set vs \<union> {i..stop} \<and> (distinct vs \<longrightarrow> distinct r)"
proof (cases "step = 0")
  case True
  then have "\<not> i \<le> stop" using assms add_range_zero by fastforce
  then show ?thesis using assms by (subst (asm) add_range.simps) auto
next
  case False
  then show ?thesis using add_range_spec [of step i stop vs] assms by auto
qed

section \<open>Values within the range\<close>

definition in_range :: "cron_field \<Rightarrow> nat \<Rightarrow> bool" where
  "in_range field v \<longleftrightarrow> fst (fd_range field) \<le> v \<and> v \<le> snd (fd_range field)"

lemma parseValue_range: "parseValue field p = Inr (v, p') \<Longrightarrow> in_range field v"
  by (auto simp: parseValue_def in_range_def res_bind_Inr_iff split: if_splits)

definition values_ok :: "cron_field \<Rightarrow> nat list \<Rightarrow> bool" where
  "values_ok field vs \<longleftrightarrow> distinct vs \<and> (\<forall>v\<in>set vs. in_range field v)"

lemma values_ok_add: "values_ok field vs \<Longrightarrow> in_range field v \<Longrightarrow> values_ok field (set_add v vs)"
  by (auto simp: values_ok_def)

lemma values_ok_range:
  assumes "values_ok field vs" and "in_range field start" and "in_range field stop"
    and "add_range start stop step vs = Some r"
  shows "values_ok field r"
  using assms add_range_within [OF assms(4)] by (fastforce simp: values_ok_def in_range_def)

lemma parseRange_cases:
  assumes "parseRange field p vs = Some (Inr (vs', p'))"
  obtains "vs' = vs"
  | v where "in_range field v" "vs' = set_add v vs"
  | step where "add_range (fst (fd_range field)) (snd (fd_range field)) step vs = Some vs'"
  | start stop step where "in_range field start" "in_range field stop" "add_range start stop step vs = Some vs'"
  using assms
  by (simp add: parseRange_def Let_def bind_eq_Some_conv
        split: option.split_asm sum.split_asm prod.split_asm; (elim exE conjE)?; use parseValue_range in blast)

lemma parseRange_ok:
  assumes parse: "parseRange field p vs = Some (Inr (vs', p'))" and ok: "values_ok field vs"
    and field: "fst (fd_range field) \<le> snd (fd_range field)"
  shows "values_ok field vs'"
  using parse
proof (cases rule: parseRange_cases)
  case 3
  then show ?thesis
    using values_ok_range [OF ok, of "fst (fd_range field)" "snd (fd_range field)"] field
    by (simp add: in_range_def)
qed (use ok values_ok_add values_ok_range in auto)

lemma parseSequence_ok:
  "parseSequence field p vs = Some r \<Longrightarrow>
   values_ok field vs \<longrightarrow> fst (fd_range field) \<le> snd (fd_range field) \<longrightarrow>
   (case r of Inl _ \<Rightarrow> True | Inr (vs', _) \<Rightarrow> values_ok field vs')"
proof (induction rule: parseSequence_induct)
  case (step f field p vs r)
  show ?case
  proof (intro impI)
    assume ok: "values_ok field vs" and range: "fst (fd_range field) \<le> snd (fd_range field)"
    obtain r1 where r1: "parseRange field p vs = Some r1" using step(2) by (cases "parseRange field p vs") auto
    show "case r of Inl _ \<Rightarrow> True | Inr (vs', _) \<Rightarrow> values_ok field vs'"
    proof (cases r1)
      case (Inr q)
      obtain vs1 p1 where q: "q = (vs1, p1)" by fastforce
      have "values_ok field vs1" using parseRange_ok r1 Inr q ok range by metis
      with step r1 Inr q range show ?thesis by (auto split: option.splits)
    qed (use step(2) r1 in auto)
  qed
qed

text \<open>The schedule of a pattern: for each field, sorted values of its range, at least one, or nothing.\<close>

definition schedule_ok :: "cron_field list \<Rightarrow> schedule \<Rightarrow> bool" where
  "schedule_ok fs schedule \<longleftrightarrow>
     (\<forall>name vs. schedule name = Some vs \<longrightarrow>
        sorted_wrt (<) vs \<and> vs \<noteq> [] \<and>
        (\<exists>field\<in>set fs. fd_name field = name \<and> (\<forall>v\<in>set vs. in_range field v)))"

lemma schedule_ok_set:
  assumes "schedule_ok fs schedule" and "values_ok field vs" and "field \<in> set fs"
  shows "schedule_ok fs (set_schedule field vs schedule)"
proof (cases vs)
  case Nil
  then show ?thesis using assms(1) by (simp add: set_schedule_def)
next
  case (Cons w ws)
  have "sorted_wrt (<) (sort vs)" using assms(2) by (simp add: values_ok_def strict_sorted_iff)
  moreover have "sort vs \<noteq> []" using Cons by (metis length_sort length_0_conv list.distinct(1))
  ultimately show ?thesis
    using assms Cons by (auto simp: set_schedule_def schedule_ok_def values_ok_def simp del: sort_key_simps)
qed

lemma parse_fields_ok:
  assumes "parse_fields gs p schedule = Some (Inr schedule')" and "schedule_ok fs schedule"
    and "set gs \<subseteq> set fs" and "\<forall>field\<in>set fs. fst (fd_range field) \<le> snd (fd_range field)"
  shows "schedule_ok fs schedule'"
  using assms
proof (induction gs arbitrary: p schedule)
  case Nil
  then show ?case by (simp add: Let_def split: if_splits)
next
  case (Cons field gs)
  from Cons.prems(1) obtain x where x: "parseSequence field (consumeWhitespaces p) [] = Some x"
    by (cases "parseSequence field (consumeWhitespaces p) []") auto
  with Cons.prems(1) obtain y where y: "x = Inr y" by (cases x) auto
  obtain vs q where vs: "y = (vs, q)" by fastforce
  have q: "parseSequence field (consumeWhitespaces p) [] = Some (Inr (vs, q))" using x y vs by simp
  have rest: "parse_fields gs q (set_schedule field vs schedule) = Some (Inr schedule')"
    using Cons.prems(1) q by simp
  have "values_ok field vs"
    using parseSequence_ok [OF q] Cons.prems(3,4) by (simp add: values_ok_def)
  then have "schedule_ok fs (set_schedule field vs schedule)"
    using schedule_ok_set Cons.prems by simp
  then show ?case using Cons.IH [OF rest] Cons.prems(3,4) by simp
qed

lemmas parse_with_induct = parse_with.raw_induct [rotated, consumes 1, case_names step]

lemma parse_with_ok:
  "parse_with fs presets p = Some r \<Longrightarrow>
   (\<forall>field\<in>set fs. fst (fd_range field) \<le> snd (fd_range field)) \<longrightarrow>
   (case r of Inl _ \<Rightarrow> True | Inr schedule \<Rightarrow> schedule_ok fs schedule)"
proof (induction rule: parse_with_induct)
  case (step f fs presets p r)
  have "schedule_ok fs Map.empty" by (simp add: schedule_ok_def)
  with step show ?case
    using parse_fields_ok [where gs = fs and fs = fs and schedule = Map.empty]
    by (auto split: option.splits sum.splits)
qed

lemma cron_ranges: "\<forall>field\<in>set cron_fields. fst (fd_range field) \<le> snd (fd_range field)"
  by (simp add: cron_fields_def)

section \<open>Parsing returns\<close>

text \<open>A step is zero only if it is written so.\<close>

definition zero_step :: "string \<Rightarrow> bool" where
  "zero_step p \<longleftrightarrow> sublist ''/0'' p"

lemma zero_step_suffix: "suffix q p \<Longrightarrow> zero_step q \<Longrightarrow> zero_step p"
  unfolding zero_step_def by (meson suffix_imp_sublist sublist_order.order_trans)

lemma match_char_Some: "match_char c p = Some q \<longleftrightarrow> p = c # q"
  by (auto simp: match_char_def split: list.splits)

lemma digits_value_ge: "foldl (\<lambda>a c. 10 * a + (of_char c - 48)) a ds \<ge> (a :: nat)"
proof (induction ds arbitrary: a)
  case (Cons d ds)
  have "a \<le> 10 * a + (of_char d - 48)" by simp
  then show ?case using Cons.IH order_trans by (simp only: foldl_Cons) blast
qed simp

lemma parseInteger_zero:
  assumes "parseInteger p = Inr (0, q)"
  shows "\<exists>p'. p = CHR ''0'' # p'"
proof -
  from assms obtain c ds where ds: "takeWhile isDigit p = c # ds" and zero: "digits_value (c # ds) = 0"
    by (cases "takeWhile isDigit p") (auto simp: parseInteger_def Let_def)
  then have p: "p = c # tl p" and digit: "isDigit c"
    by (cases p; auto split: if_splits)+
  have "of_char c - 48 \<le> digits_value (c # ds)"
    using digits_value_ge [of "of_char c - 48" ds] by (simp add: digits_value_def)
  then have "of_char c = (48 :: nat)" using zero digit by (auto simp: isDigit_def)
  then have "of_char c = (of_char CHR ''0'' :: nat)" by simp
  then have "c = CHR ''0''" by (simp only: of_char_eq_iff)
  with p show ?thesis by metis
qed

lemma parseInteger_suffix: "parseInteger p = Inr (v, q) \<Longrightarrow> suffix q p"
  by (auto simp: parseInteger_def Let_def suffix_dropWhile split: if_splits)

lemma step_positive:
  assumes "match_char CHR ''/'' p = Some q" and "parseInteger q = Inr (step, p')" and "\<not> zero_step p"
  shows "0 < step"
proof (rule ccontr)
  assume "\<not> 0 < step"
  then obtain q' where "q = CHR ''0'' # q'" using parseInteger_zero assms(2) by auto
  then have "prefix ''/0'' p" using assms(1) by (auto simp: match_char_Some)
  with assms(3) show False by (simp add: zero_step_def prefix_imp_sublist)
qed

lemma parseValue_suffix: "parseValue field p = Inr (v, q) \<Longrightarrow> suffix q p"
  by (auto simp: parseValue_def res_bind_Inr_iff suffix_drop dest!: parseInteger_suffix
      split: if_splits option.splits)

lemma no_zero_suffix: "suffix q p \<Longrightarrow> \<not> zero_step p \<Longrightarrow> \<not> zero_step q"
  using zero_step_suffix by blast

lemma match_suffix: "match_char c p = Some q \<Longrightarrow> suffix q p"
  by (auto simp: match_char_Some suffix_Cons)

lemma range_returns:
  assumes "0 < step" and "suffix q p"
  shows "\<exists>r. Option.bind (add_range start stop step vs) (\<lambda>vs. Some (Inr (vs, q))) = Some r \<and>
    (case r of Inl _ \<Rightarrow> True | Inr (_, q') \<Rightarrow> suffix q' p)"
  using add_range_spec [OF assms(1), of start stop vs] assms(2) by auto

text \<open>What a part of the parser promises when no step is zero.\<close>

definition returns_suffix :: "string \<Rightarrow> ('a \<times> string) parse_result \<Rightarrow> bool" where
  "returns_suffix p r \<longleftrightarrow> (\<exists>x. r = Some x \<and> (case x of Inl _ \<Rightarrow> True | Inr (_, q) \<Rightarrow> suffix q p))"

lemma returns_suffix_mono: "suffix q p \<Longrightarrow> returns_suffix q r \<Longrightarrow> returns_suffix p r"
  by (cases r; cases "the r") (auto simp: returns_suffix_def intro: suffix_order.order_trans)

lemma parseRange_returns:
  assumes "\<not> zero_step p"
  shows "returns_suffix p (parseRange field p vs)"
proof (cases "match_char CHR ''*'' p")
  case (Some p1)
  have s1: "suffix p1 p" by (rule match_suffix [OF Some])
  show ?thesis
  proof (cases "match_char CHR ''/'' p1")
    case None
    then show ?thesis using Some s1 by (simp add: parseRange_def returns_suffix_def)
  next
    case p2: (Some p2)
    show ?thesis
    proof (cases "parseInteger p2")
      case (Inr r)
      obtain step p3 where r: "r = (step, p3)" by fastforce
      have "0 < step" using step_positive [OF p2] Inr r no_zero_suffix [OF s1 assms] by simp
      moreover have "suffix p3 p"
        using parseInteger_suffix Inr r match_suffix [OF p2] s1 by (metis suffix_order.order_trans)
      ultimately show ?thesis
        using Some p2 Inr r range_returns by (auto simp: parseRange_def Let_def returns_suffix_def)
    qed (use Some p2 in \<open>simp add: parseRange_def Let_def returns_suffix_def\<close>)
  qed
next
  case None
  show ?thesis
  proof (cases "parseValue field p")
    case start: (Inr r1)
    obtain start p1 where r1: "r1 = (start, p1)" by fastforce
    have s1: "suffix p1 p" using parseValue_suffix start r1 by metis
    show ?thesis
    proof (cases "match_char CHR ''-'' p1")
      case dash: (Some p2)
      have s2: "suffix p2 p" using match_suffix [OF dash] s1 by (metis suffix_order.order_trans)
      show ?thesis
      proof (cases "parseValue field p2")
        case stop: (Inr r2)
        obtain stop p3 where r2: "r2 = (stop, p3)" by fastforce
        have s3: "suffix p3 p" using parseValue_suffix stop r2 s2 by (metis suffix_order.order_trans)
        show ?thesis
        proof (cases "match_char CHR ''/'' p3")
          case slash: (Some p4)
          show ?thesis
          proof (cases "parseInteger p4")
            case (Inr r)
            obtain step p5 where r: "r = (step, p5)" by fastforce
            have "0 < step" using step_positive [OF slash] Inr r no_zero_suffix [OF s3 assms] by simp
            moreover have "suffix p5 p"
              using parseInteger_suffix Inr r match_suffix [OF slash] s3 by (metis suffix_order.order_trans)
            ultimately show ?thesis using None start r1 dash stop r2 slash Inr r range_returns
              by (auto simp: parseRange_def Let_def returns_suffix_def)
          qed (use None start r1 dash stop r2 slash in \<open>simp add: parseRange_def Let_def returns_suffix_def\<close>)
        qed (use None start r1 dash stop r2 s3 range_returns [of 1] in
            \<open>simp add: parseRange_def Let_def returns_suffix_def\<close>)
      qed (use None start r1 dash in \<open>simp add: parseRange_def Let_def returns_suffix_def\<close>)
    qed (use None start r1 s1 in \<open>simp add: parseRange_def Let_def returns_suffix_def\<close>)
  qed (use None in \<open>simp add: parseRange_def Let_def returns_suffix_def\<close>)
qed

lemma parseSequence_returns:
  "\<not> zero_step p \<Longrightarrow> returns_suffix p (parseSequence field p vs)"
proof (induction "length p" arbitrary: p vs rule: less_induct)
  case less
  obtain x where x: "parseRange field p vs = Some x"
    and suf: "case x of Inl _ \<Rightarrow> True | Inr (_, q) \<Rightarrow> suffix q p"
    using parseRange_returns [OF less.prems, of field vs] by (auto simp: returns_suffix_def)
  show ?case
  proof (cases x)
    case (Inl e)
    then show ?thesis using x by (subst parseSequence.simps) (simp add: returns_suffix_def)
  next
    case (Inr r)
    obtain vs' q where r: "r = (vs', q)" by fastforce
    have q: "suffix q p" using suf Inr r by simp
    show ?thesis
    proof (cases "match_char CHR '','' q")
      case None
      then show ?thesis using x Inr r q by (subst parseSequence.simps) (simp add: returns_suffix_def)
    next
      case (Some q')
      have "length q' < length p" using suffix_length_le [OF q] Some by (simp add: match_char_Some)
      moreover have q': "suffix q' p" using match_suffix [OF Some] q by (metis suffix_order.order_trans)
      ultimately have "returns_suffix q' (parseSequence field q' vs')"
        using less.hyps no_zero_suffix less.prems by blast
      moreover have "parseSequence field p vs = parseSequence field q' vs'"
        using x Inr r Some by (subst parseSequence.simps) simp
      ultimately show ?thesis using returns_suffix_mono [OF q'] by simp
    qed
  qed
qed

lemma whitespace_suffix: "suffix (consumeWhitespaces p) p"
  by (simp add: consumeWhitespaces_def suffix_dropWhile)

lemma parse_fields_returns: "\<not> zero_step p \<Longrightarrow> \<exists>r. parse_fields fs p schedule = Some r"
proof (induction fs arbitrary: p schedule)
  case (Cons field fs)
  have "\<not> zero_step (consumeWhitespaces p)" by (rule no_zero_suffix [OF whitespace_suffix Cons.prems])
  then obtain x where x: "parseSequence field (consumeWhitespaces p) [] = Some x"
    and suf: "case x of Inl _ \<Rightarrow> True | Inr (_, q) \<Rightarrow> suffix q (consumeWhitespaces p)"
    using parseSequence_returns by (fastforce simp: returns_suffix_def)
  show ?case
  proof (cases x)
    case (Inr r)
    obtain vs q where r: "r = (vs, q)" by fastforce
    have "suffix q p" using suf Inr r whitespace_suffix [of p] by (auto intro: suffix_order.order_trans)
    then have "\<not> zero_step q" by (rule no_zero_suffix [OF _ Cons.prems])
    then show ?thesis using Cons.IH x Inr r by simp
  qed (use x in simp)
qed (simp add: Let_def)

lemma preset_patterns_ok: "\<forall>(_, q)\<in>set preset_patterns. \<not> zero_step q \<and> map_of preset_patterns q = None"
  by code_simp

lemma cron_presets_returns: "cron_presets p = Some q \<Longrightarrow> \<not> zero_step q \<and> cron_presets q = None"
  using preset_patterns_ok by (auto simp: cron_presets_def dest!: map_of_SomeD)

section \<open>Jobs: one timer at most\<close>

definition job_inv :: "job_error option \<Rightarrow> job \<Rightarrow> bool" where
  "job_inv e j \<longleftrightarrow>
     (if jb_isEnabled j \<and> \<not> jb_isRunning j \<and> e = None
      then \<exists>t kind. jb_pending j = [(t, kind)] \<and> jb_timeout j = Some t
      else jb_pending j = [])"

lemma job_inv_schedule:
  "jb_pending j = [] \<Longrightarrow> scheduleNext next_run now j = (e, j') \<Longrightarrow> job_inv e j'"
  by (auto simp: scheduleNext_def job_inv_def setTimeout_def Let_def split: option.splits if_splits)

lemma job_inv_stop: "job_inv e j \<Longrightarrow> jb_pending (job_stop j) = [] \<and> \<not> jb_isEnabled (job_stop j)"
  by (auto simp: job_inv_def job_stop_def clearTimeout_def split: if_splits)

lemma job_inv_call:
  assumes inv: "job_inv e j" and "job_call next_run c j = (e', j')"
  shows "job_inv e' j'"
proof (cases c)
  case (CallStart now)
  let ?j = "(job_stop j)\<lparr>jb_isEnabled := True\<rparr>"
  have empty: "jb_pending ?j = []" using job_inv_stop [OF inv] by simp
  have call: "(if \<not> jb_isRunning ?j then scheduleNext next_run now ?j else (None, ?j)) = (e', j')"
    using assms(2) CallStart by (simp add: job_call_def job_start_def Let_def)
  show ?thesis
  proof (cases "jb_isRunning ?j")
    case True
    then show ?thesis using call empty by (auto simp: job_inv_def)
  next
    case False
    then show ?thesis using call job_inv_schedule [OF empty] by simp
  qed
next
  case CallStop
  then show ?thesis using assms(2) job_inv_stop [OF inv] by (auto simp: job_call_def job_inv_def)
qed

lemma running_call:
  assumes "jb_isRunning j" and "jb_pending j = []"
  shows "jb_isRunning (snd (job_call next_run c j)) \<and> jb_pending (snd (job_call next_run c j)) = []"
  using assms by (cases c) (simp_all add: job_call_def job_start_def job_stop_def clearTimeout_def Let_def)

lemma running_calls:
  "jb_isRunning j \<Longrightarrow> jb_pending j = [] \<Longrightarrow>
   jb_isRunning (job_calls next_run cs j) \<and> jb_pending (job_calls next_run cs j) = []"
  unfolding job_calls_def by (induction cs arbitrary: j) (simp_all add: running_call)

lemma fired:
  assumes "job_inv e j" and "(t, kind) \<in> set (jb_pending j)"
  shows "jb_pending (clearTimeout (Some t) j) = []" and "jb_isEnabled j" and "\<not> jb_isRunning j"
  using assms by (auto simp: job_inv_def clearTimeout_def split: if_splits)

lemma job_inv_wrapper:
  assumes inv: "job_inv e j" and t: "(t, TimerWrapper) \<in> set (jb_pending j)"
    and run: "wrapper next_run now (job_calls next_run calls) promise (clearTimeout (Some t) j) = (e', j')"
  shows "job_inv e' j'"
proof (cases "jb_scheduled j > now")
  case True
  then show ?thesis
    using fired [OF inv t] run by (auto simp: wrapper_def job_inv_def setTimeout_def clearTimeout_def)
next
  case False
  let ?j = "(clearTimeout (Some t) j)\<lparr>jb_isRunning := True, jb_runs := jb_runs (clearTimeout (Some t) j) + 1\<rparr>"
  have after: "jb_isRunning (job_calls next_run calls ?j)" "jb_pending (job_calls next_run calls ?j) = []"
    using running_calls [of ?j] fired(1) [OF inv t] by simp_all
  have "jb_scheduled (clearTimeout (Some t) j) = jb_scheduled j" by (simp add: clearTimeout_def)
  from run False this
  have run': "(if promise then (None, job_calls next_run calls ?j)
      else scheduleNext next_run now (job_calls next_run calls ?j)) = (e', j')"
    by (simp only: wrapper_def Let_def if_False)
  show ?thesis
  proof (cases promise)
    case True
    then show ?thesis using run' after by (auto simp: job_inv_def)
  next
    case False
    then show ?thesis using run' job_inv_schedule [OF after(2)] by simp
  qed
qed

lemma job_inv_step: "job_step next_run j e' j' \<Longrightarrow> job_inv e j \<Longrightarrow> job_inv e' j'"
proof (induction rule: job_step.induct)
  case (step_settle j now e' j')
  then have "jb_pending j = []" by (simp add: job_inv_def)
  then show ?case using step_settle.hyps(2) by (rule job_inv_schedule)
qed (auto intro: job_inv_call job_inv_wrapper job_inv_schedule fired(1))

lemma job_reachable_inv: "job_reachable next_run e j \<Longrightarrow> job_inv e j"
proof (induction rule: job_reachable.induct)
  case reach_new
  then show ?case by (simp add: job_inv_def new_job_def)
qed (rule job_inv_step)

lemma scheduleNext_throws: "scheduleNext next_run now j = (Some e, j') \<Longrightarrow> next_run now = None"
  by (auto simp: scheduleNext_def Let_def split: if_splits option.splits)

lemma job_step_throws: "job_step next_run j (Some e) j' \<Longrightarrow> \<exists>now. next_run now = None"
  by (erule job_stepE)
    (auto simp: job_call_def job_start_def wrapper_def Let_def
      split: job_request.splits if_splits dest: scheduleNext_throws)

lemma job_reachable_throws: "job_reachable next_run e j \<Longrightarrow> e \<noteq> None \<Longrightarrow> \<exists>now. next_run now = None"
  by (cases rule: job_reachable.cases) (auto dest: job_step_throws)

text \<open>
  A job whose schedule has no solution: \<open>start\<close> throws, and leaves the job enabled without a timer. Only
  another call changes it.
\<close>

lemma start_without_solution:
  "job_call (\<lambda>_. None) (CallStart 0) new_job = (Some NoSolution, new_job\<lparr>jb_isEnabled := True\<rparr>)"
  by code_simp

lemma stalled_step:
  "job_step next_run j e j' \<Longrightarrow> jb_pending j = [] \<Longrightarrow> \<not> jb_isRunning j \<Longrightarrow> \<exists>c. job_call next_run c j = (e, j')"
  by (erule job_stepE) auto

section \<open>Printing a schedule and parsing it back\<close>

fun show_nat :: "nat \<Rightarrow> string" where
  "show_nat n = (if n < 10 then [] else show_nat (n div 10)) @ [char_of (48 + n mod 10)]"

declare show_nat.simps [simp del]

fun show_values :: "nat list \<Rightarrow> string" where
  "show_values [] = ''*''"
| "show_values [v] = show_nat v"
| "show_values (v # vs) = show_nat v @ CHR '','' # show_values vs"

fun show_fields :: "nat list list \<Rightarrow> string" where
  "show_fields [] = []"
| "show_fields (vs # vss) = show_values vs @ CHR '' '' # show_fields vss"

lemma isDigit_digit [simp]: "isDigit (char_of (48 + n mod 10 :: nat))"
proof -
  have "n mod 10 < 10" by simp
  then show ?thesis by (simp add: isDigit_def)
qed

lemma show_nat_digits: "\<forall>c\<in>set (show_nat n). isDigit c" and show_nat_nonempty: "show_nat n \<noteq> []"
  by (induction n rule: show_nat.induct; subst show_nat.simps; auto)+

lemma digits_value_snoc: "digits_value (ds @ [c]) = 10 * digits_value ds + (of_char c - 48)"
  by (simp add: digits_value_def)

lemma digits_value_show: "digits_value (show_nat n) = n"
proof (induction n rule: show_nat.induct)
  case (1 n)
  have "n mod 10 < 10" by simp
  then have d: "of_char (char_of (48 + n mod 10) :: char) - 48 = n mod 10" by simp
  show ?case
  proof (cases "n < 10")
    case True
    then show ?thesis using d
      by (subst show_nat.simps) (simp add: digits_value_snoc, simp add: digits_value_def)
  next
    case False
    then have "digits_value (show_nat n) = 10 * (n div 10) + n mod 10"
      using d 1 [OF False] by (subst show_nat.simps) (simp only: digits_value_snoc if_False False)
    then show ?thesis by simp
  qed
qed

definition no_digit :: "string \<Rightarrow> bool" where
  "no_digit p \<longleftrightarrow> (case p of [] \<Rightarrow> True | c # _ \<Rightarrow> \<not> isDigit c)"

lemma parseInteger_show:
  assumes "no_digit rest"
  shows "parseInteger (show_nat n @ rest) = Inr (n, rest)"
proof -
  have "takeWhile isDigit (show_nat n @ rest) = show_nat n @ takeWhile isDigit rest"
    and "dropWhile isDigit (show_nat n @ rest) = dropWhile isDigit rest"
    using show_nat_digits by (simp_all add: takeWhile_append2 dropWhile_append2)
  moreover have "takeWhile isDigit rest = []" "dropWhile isDigit rest = rest"
    using assms by (cases rest; simp add: no_digit_def)+
  ultimately show ?thesis by (simp add: parseInteger_def digits_value_show show_nat_nonempty)
qed

text \<open>A value that a field gives back: in its range, and that the field's own rewriting keeps.\<close>

definition printable :: "cron_field \<Rightarrow> nat \<Rightarrow> bool" where
  "printable field v \<longleftrightarrow> in_range field v \<and> (case fd_post field of None \<Rightarrow> True | Some post \<Rightarrow> post v = v)"

lemma show_nat_head: "\<exists>c cs. show_nat n @ rest = c # cs \<and> isDigit c"
  using show_nat_nonempty [of n] show_nat_digits [of n] by (cases "show_nat n") auto

lemma parseValue_show:
  assumes "no_digit rest" and "printable field v"
  shows "parseValue field (show_nat v @ rest) = Inr (v, rest)"
proof -
  obtain c cs where "show_nat v @ rest = c # cs" "isDigit c" using show_nat_head by blast
  then show ?thesis
    using parseInteger_show [OF assms(1), of v] assms(2)
    by (auto simp: parseValue_def printable_def in_range_def split: option.splits)
qed

lemma parseRange_show:
  assumes "no_digit rest" and "printable field v" and "match_char CHR ''-'' rest = None"
  shows "parseRange field (show_nat v @ rest) vs = Some (Inr (set_add v vs, rest))"
proof -
  obtain c cs where c: "show_nat v @ rest = c # cs" "isDigit c" using show_nat_head by blast
  then have "match_char CHR ''*'' (show_nat v @ rest) = None"
    by (auto simp: match_char_def isDigit_def)
  then show ?thesis using parseValue_show [OF assms(1,2)] assms(3) by (simp add: parseRange_def)
qed

lemma parseSequence_show:
  assumes "vs \<noteq> []" and "distinct (acc @ vs)" and "\<forall>v\<in>set vs. printable field v"
  shows "parseSequence field (show_values vs @ CHR '' '' # rest) acc = Some (Inr (acc @ vs, CHR '' '' # rest))"
  using assms
proof (induction vs arbitrary: acc rule: show_values.induct)
  case (2 v)
  have sep: "no_digit (CHR '' '' # rest)" "match_char CHR ''-'' (CHR '' '' # rest) = None"
    "match_char CHR '','' (CHR '' '' # rest) = None"
    by (simp_all add: no_digit_def isDigit_def match_char_def)
  show ?case
    using parseRange_show [OF sep(1) _ sep(2), of field v acc] 2 sep(3)
    by (subst parseSequence.simps) (auto simp: set_add_def)
next
  case (3 v w vs)
  let ?rest = "CHR '','' # show_values (w # vs) @ CHR '' '' # rest"
  have sep: "no_digit ?rest" "match_char CHR ''-'' ?rest = None"
    "match_char CHR '','' ?rest = Some (show_values (w # vs) @ CHR '' '' # rest)"
    by (simp_all add: no_digit_def isDigit_def match_char_def)
  have "set_add v acc = acc @ [v]" using 3 by (auto simp: set_add_def)
  moreover have "parseRange field (show_nat v @ ?rest) acc = Some (Inr (set_add v acc, ?rest))"
    by (rule parseRange_show [OF sep(1) _ sep(2)]) (use 3 in simp)
  ultimately show ?case
    using 3 sep(3) by (subst parseSequence.simps) simp
qed simp

lemma parseSequence_star:
  "parseSequence field (CHR ''*'' # CHR '' '' # rest) acc = Some (Inr (acc, CHR '' '' # rest))"
  by (subst parseSequence.simps) (simp add: parseRange_def match_char_def)

lemma consume_show: "consumeWhitespaces (show_values vs @ p) = show_values vs @ p"
proof (cases vs rule: show_values.cases)
  case 1
  then show ?thesis by (simp add: consumeWhitespaces_def)
next
  case (2 v)
  obtain c cs where "show_nat v @ p = c # cs" "isDigit c" using show_nat_head by blast
  then show ?thesis using 2 by (auto simp: consumeWhitespaces_def isDigit_def)
next
  case (3 v w vs)
  obtain c cs where "show_nat v @ CHR '','' # show_values (w # vs) @ p = c # cs" "isDigit c"
    using show_nat_head by blast
  then show ?thesis using 3 by (auto simp: consumeWhitespaces_def isDigit_def)
qed

lemma consume_space: "consumeWhitespaces (CHR '' '' # p) = consumeWhitespaces p"
  by (simp add: consumeWhitespaces_def)

fun schedule_of :: "cron_field list \<Rightarrow> nat list list \<Rightarrow> schedule \<Rightarrow> schedule" where
  "schedule_of (field # fs) (vs # vss) schedule = schedule_of fs vss (set_schedule field vs schedule)"
| "schedule_of _ _ schedule = schedule"

lemma parse_fields_show:
  assumes "length vss = length fs"
    and "\<forall>(field, vs)\<in>set (zip fs vss). distinct vs \<and> (\<forall>v\<in>set vs. printable field v)"
    and "p = show_fields vss \<or> p = CHR '' '' # show_fields vss"
  shows "parse_fields fs p schedule = Some (Inr (schedule_of fs vss schedule))"
  using assms
proof (induction fs arbitrary: vss p schedule)
  case Nil
  then show ?case by (auto simp: consumeWhitespaces_def)
next
  case (Cons field fs)
  from Cons.prems(1) obtain vs rest where vss: "vss = vs # rest" by (cases vss) auto
  have "parseSequence field (show_values vs @ CHR '' '' # show_fields rest) [] =
      Some (Inr (vs, CHR '' '' # show_fields rest))"
    using parseSequence_star parseSequence_show [of vs "[]" field] Cons.prems(2) vss by (cases vs) auto
  moreover have "parse_fields fs (CHR '' '' # show_fields rest) (set_schedule field vs schedule) =
      Some (Inr (schedule_of fs rest (set_schedule field vs schedule)))"
    by (rule Cons.IH) (use Cons.prems vss in auto)
  moreover have "consumeWhitespaces p = show_values vs @ CHR '' '' # show_fields rest"
    using Cons.prems(3) vss by (auto simp: consume_show consume_space)
  ultimately show ?case using vss by simp
qed

end
