(* ===== verification/Audit_Log.thy ===== *)
theory Audit_Log
  imports Prelude "HOL-Library.Finite_Map"
begin

text \<open>
  \<open>@xen-orchestra/audit-core/index.js\<close>, the chain of audit records in which each record holds the hash
  of the one before, and what \<open>packages/xo-server-audit/src/index.js\<close> builds on it: the store of the
  records, their import and export, the fingerprint of the chain.

  The library \<open>object-hash\<close> is the parameter \<open>hash\<close>, of the algorithm (\<open>None\<close> is \<open>undefined\<close>) and of
  the record without the keys that \<open>excludeKeys\<close> drops: every key \<open>id\<close>, that of the record and those of
  the objects in its data, at any depth. The data of a record is JSON already, which \<open>_addUnsafe\<close>
  normalises it to; the order of the keys of an object is not kept, since \<open>object-hash\<close> sorts them.
  The operations run one at a time, as the lock of \<open>Storage\<close> makes those that write do. A loop over the
  chain may not end when the chain is a cycle: its result is then \<open>None\<close>.
\<close>

section \<open>Records and their store\<close>

text \<open>JSON values, with the numbers as a parameter.\<close>

datatype 'd json =
    JNull
  | JBool bool
  | JNumber 'd
  | JString string
  | JArray "'d json list"
  | JObject "(string, 'd json) fmap"

record 'd audit_content =
  ar_data :: "'d json"
  ar_event :: string
  ar_subject :: "'d json"
  ar_time :: int
  ar_previousId :: string

record 'd audit_record =
  ar_id :: string
  ar_content :: "'d audit_content"

definition previousId :: "'d audit_record \<Rightarrow> string" where
  "previousId r = ar_previousId (ar_content r)"

text \<open>
  The entry \<open>lastId\<close> of the database is a field of its own here: the ids of the records are hashes, which
  start with a dollar sign.
\<close>

record 'd audit_db =
  db_records :: "string \<Rightarrow> 'd audit_record option"
  db_lastId :: "string option"

definition empty_db :: "'d audit_db" where
  "empty_db = \<lparr>db_records = Map.empty, db_lastId = None\<rparr>"

definition db_put :: "'d audit_record \<Rightarrow> 'd audit_db \<Rightarrow> 'd audit_db" where
  "db_put r db = db\<lparr>db_records := (db_records db)(ar_id r \<mapsto> r)\<rparr>"

definition db_del :: "string \<Rightarrow> 'd audit_db \<Rightarrow> 'd audit_db" where
  "db_del key db = db\<lparr>db_records := (db_records db)(key := None)\<rparr>"

definition db_get :: "'d audit_db \<Rightarrow> string \<Rightarrow> 'd audit_record option" where
  "db_get db key = db_records db key"

definition setLastId :: "string \<Rightarrow> 'd audit_db \<Rightarrow> 'd audit_db" where
  "setLastId key db = db\<lparr>db_lastId := Some key\<rparr>"

definition db_clean :: "'d audit_db \<Rightarrow> 'd audit_db" where
  "db_clean db = empty_db"

definition db_isEmpty :: "'d audit_db \<Rightarrow> bool" where
  "db_isEmpty db \<longleftrightarrow> db_records db = Map.empty \<and> db_lastId db = None"

section \<open>Hashes\<close>

type_synonym 'd hash_fn = "string option \<Rightarrow> 'd audit_content \<Rightarrow> string"

definition NULL_ID :: string where "NULL_ID = ''nullId''"
definition HASH_ALGORITHM_ID :: string where "HASH_ALGORITHM_ID = ''5''"

definition ID_TO_ALGORITHM :: "string \<Rightarrow> string option" where
  "ID_TO_ALGORITHM = map_of [(''5'', ''sha256'')]"

text \<open>\<open>excludeKeys: key => key === 'id'\<close>, which \<open>object-hash\<close> asks for the keys of every object it meets.\<close>

primrec exclude_json :: "'d json \<Rightarrow> 'd json" where
  "exclude_json JNull = JNull"
| "exclude_json (JBool b) = JBool b"
| "exclude_json (JNumber n) = JNumber n"
| "exclude_json (JString x) = JString x"
| "exclude_json (JArray xs) = JArray (map exclude_json xs)"
| "exclude_json (JObject m) = JObject (fmdrop ''id'' (fmmap exclude_json m))"

definition excludeKeys :: "'d audit_content \<Rightarrow> 'd audit_content" where
  "excludeKeys c = c\<lparr>ar_data := exclude_json (ar_data c), ar_subject := exclude_json (ar_subject c)\<rparr>"

definition createHash :: "'d hash_fn \<Rightarrow> 'd audit_record \<Rightarrow> string \<Rightarrow> string" where
  "createHash hash r algorithmId =
     ''$'' @ algorithmId @ ''$$'' @ hash (ID_TO_ALGORITHM algorithmId) (excludeKeys (ar_content r))"

text \<open>\<open>newest.slice(1, newest.indexOf('$', 1))\<close>, which drops the last character when there is no dollar.\<close>

definition algorithm_of :: "string \<Rightarrow> string" where
  "algorithm_of key =
     (if CHR ''$'' \<in> set (tl key) then takeWhile (\<lambda>c. c \<noteq> CHR ''$'') (tl key) else butlast (tl key))"

section \<open>The core\<close>

datatype 'd audit_error =
    MissingRecord string nat
  | AlteredRecord string nat "'d audit_record"
  | AuditAssertion
  | InvalidRecord
  | DatabaseNotEmpty
  | NoLastRecord

definition addUnsafe :: "'d hash_fn \<Rightarrow> 'd json \<Rightarrow> string \<Rightarrow> 'd json \<Rightarrow> int \<Rightarrow> 'd audit_db \<Rightarrow>
    'd audit_record \<times> 'd audit_db" where
  "addUnsafe hash data event subject time db =
     (let content = \<lparr>ar_data = data, ar_event = event, ar_subject = subject, ar_time = time,
                     ar_previousId = (case db_lastId db of None \<Rightarrow> NULL_ID | Some key \<Rightarrow> key)\<rparr>;
          r = \<lparr>ar_id = [], ar_content = content\<rparr>;
          r = r\<lparr>ar_id := createHash hash r HASH_ALGORITHM_ID\<rparr>
      in (r, setLastId (ar_id r) (db_put r db)))"

definition audit_add :: "'d hash_fn \<Rightarrow> int \<Rightarrow> 'd json \<Rightarrow> string \<Rightarrow> 'd json \<Rightarrow> 'd audit_db \<Rightarrow>
    'd audit_record \<times> 'd audit_db" where
  "audit_add hash now subject event data db = addUnsafe hash data event subject now db"

definition importRecord :: "'d hash_fn \<Rightarrow> 'd audit_record \<Rightarrow> 'd audit_db \<Rightarrow>
    'd audit_error + (string \<times> bool \<times> 'd audit_db)" where
  "importRecord hash r db =
     (if ar_id r = [] \<or> previousId r = [] then Inl InvalidRecord
      else Inr (ar_id r, ar_id r = createHash hash r HASH_ALGORITHM_ID, db_put r db))"

text \<open>The records that \<open>getFrom\<close> yields, when it is read to its end.\<close>

partial_function (option) get_from :: "'d audit_db \<Rightarrow> string \<Rightarrow> 'd audit_record list option" where
  "get_from db key =
     (case db_get db key of
        None \<Rightarrow> Some []
      | Some r \<Rightarrow> Option.bind (get_from db (previousId r)) (\<lambda>rs. Some (r # rs)))"

declare get_from.simps [code]

definition getFrom :: "'d audit_db \<Rightarrow> string option \<Rightarrow> 'd audit_record list option" where
  "getFrom db newest =
     (case (case newest of Some key \<Rightarrow> Some key | None \<Rightarrow> db_lastId db) of
        None \<Rightarrow> Some []
      | Some key \<Rightarrow> get_from db key)"

text \<open>The records that \<open>getFrom\<close> yields before the one that ends the loop over it, and whether there is one.\<close>

partial_function (option) get_until ::
    "('d audit_record \<Rightarrow> bool) \<Rightarrow> 'd audit_db \<Rightarrow> string \<Rightarrow> ('d audit_record list \<times> bool) option" where
  "get_until stop db key =
     (case db_get db key of
        None \<Rightarrow> Some ([], False)
      | Some r \<Rightarrow>
          if stop r then Some ([], True)
          else Option.bind (get_until stop db (previousId r)) (\<lambda>(rs, found). Some (r # rs, found)))"

declare get_until.simps [code]

partial_function (option) check_chain_from ::
    "'d hash_fn \<Rightarrow> 'd audit_db \<Rightarrow> string \<Rightarrow> string \<Rightarrow> nat \<Rightarrow> ('d audit_error + nat) option" where
  "check_chain_from hash db oldest newest nValid =
     (if newest = oldest then Some (Inr nValid)
      else case db_get db newest of
             None \<Rightarrow> Some (Inl (MissingRecord newest nValid))
           | Some r \<Rightarrow>
               if newest \<noteq> createHash hash r (algorithm_of newest)
               then Some (Inl (AlteredRecord newest nValid r))
               else check_chain_from hash db oldest (previousId r) (nValid + 1))"

declare check_chain_from.simps [code]

definition checkIntegrity :: "'d hash_fn \<Rightarrow> 'd audit_db \<Rightarrow> string \<Rightarrow> string \<Rightarrow> ('d audit_error + nat) option" where
  "checkIntegrity hash db oldest newest =
     (if Some newest \<noteq> db_lastId db then
        Option.bind
          (case db_lastId db of None \<Rightarrow> Some ([], False) | Some key \<Rightarrow> get_until (\<lambda>r. ar_id r = newest) db key)
          (\<lambda>(_, isNewestAccessible).
             if isNewestAccessible then check_chain_from hash db oldest newest 0
             else Some (Inl (MissingRecord newest 0)))
      else check_chain_from hash db oldest newest 0)"

text \<open>
  The loops that delete: the record a generator has yielded is known when it is deleted, so the walk goes
  on from what it holds.
\<close>

partial_function (option) delete_until ::
    "('d audit_record \<Rightarrow> bool) \<Rightarrow> string \<Rightarrow> 'd audit_db \<Rightarrow> 'd audit_db option" where
  "delete_until stop key db =
     (case db_get db key of
        None \<Rightarrow> Some db
      | Some r \<Rightarrow>
          (let db = db_del (ar_id r) db
           in if stop r then Some db else delete_until stop (previousId r) db))"

declare delete_until.simps [code]

definition deleteFrom :: "string \<Rightarrow> 'd audit_db \<Rightarrow> 'd audit_db option" where
  "deleteFrom newest db = delete_until (\<lambda>_. False) newest db"

definition rewrite_record :: "'d hash_fn \<Rightarrow> 'd audit_record \<Rightarrow> 'd audit_db \<Rightarrow> 'd audit_db" where
  "rewrite_record hash r db =
     (let c = ar_content r
      in db_del (ar_id r) (snd (addUnsafe hash (ar_data c) (ar_event c) (ar_subject c) (ar_time c) db)))"

definition deleteRangeAndRewrite :: "'d hash_fn \<Rightarrow> string \<Rightarrow> string \<Rightarrow> 'd audit_db \<Rightarrow>
    ('d audit_error + 'd audit_db) option" where
  "deleteRangeAndRewrite hash newest oldest db =
     (if db_get db newest = None then Some (Inl AuditAssertion)
      else case db_get db oldest of
        None \<Rightarrow> Some (Inl AuditAssertion)
      | Some oldestRecord \<Rightarrow>
          Option.bind
            (case db_lastId db of
               None \<Rightarrow> Some ([], False) | Some lastId \<Rightarrow> get_until (\<lambda>r. ar_id r = newest) db lastId)
            (\<lambda>(recentRecords, _).
          Option.bind (delete_until (\<lambda>r. ar_id r = oldest) newest db) (\<lambda>db.
          Some (Inr (fold (rewrite_record hash) recentRecords (setLastId (previousId oldestRecord) db))))))"

section \<open>The plugin\<close>

text \<open>The records of an import, from the newest one to the oldest one, and what it tells of them.\<close>

record 'd import_state =
  im_db :: "'d audit_db"
  im_nInvalid :: nat
  im_nMissing :: nat
  im_lastLogId :: "string option"
  im_lastId :: "string option"
  im_nextLog :: "'d audit_record option"

definition import_step :: "'d hash_fn \<Rightarrow> 'd audit_record \<Rightarrow> 'd import_state \<Rightarrow> 'd audit_error + 'd import_state" where
  "import_step hash r s =
     res_bind (importRecord hash r (im_db s)) (\<lambda>(key, isValid, db).
     let s = s\<lparr>im_db := db\<rparr>;
         s = (if im_lastId s = None then s\<lparr>im_lastId := Some key, im_db := setLastId key (im_db s)\<rparr> else s);
         s = (if \<not> isValid then s\<lparr>im_nInvalid := im_nInvalid s + 1\<rparr> else s);
         s = (case im_nextLog s of
                Some later \<Rightarrow>
                  if previousId later \<noteq> ar_id r
                  then s\<lparr>im_nMissing := im_nMissing s + 1,
                         im_lastLogId := (case im_lastLogId s of None \<Rightarrow> Some (ar_id later) | x \<Rightarrow> x)\<rparr>
                  else s
              | None \<Rightarrow> s)
     in Inr (s\<lparr>im_nextLog := Some r\<rparr>))"

definition import_start :: "'d audit_db \<Rightarrow> 'd import_state" where
  "import_start db = \<lparr>im_db = db, im_nInvalid = 0, im_nMissing = 0, im_lastLogId = None,
     im_lastId = None, im_nextLog = None\<rparr>"

text \<open>The result of an import and the database it leaves; when it fails the database is cleaned.\<close>

definition importRecords :: "'d hash_fn \<Rightarrow> 'd audit_record list \<Rightarrow> 'd audit_db \<Rightarrow>
    ('d audit_error + (string \<times> nat \<times> nat)) \<times> 'd audit_db" where
  "importRecords hash source db =
     (if \<not> db_isEmpty db then (Inl DatabaseNotEmpty, db)
      else case res_fold (import_step hash) source (import_start db) of
             Inl e \<Rightarrow> (Inl e, db_clean db)
           | Inr s \<Rightarrow>
               (case (case im_lastLogId s of Some key \<Rightarrow> Some key | None \<Rightarrow> map_option ar_id (im_nextLog s)) of
                  None \<Rightarrow> (Inl NoLastRecord, db_clean db)
                | Some lastLogId \<Rightarrow> (Inr (lastLogId, im_nInvalid s, im_nMissing s), im_db s)))"

definition exportRecords :: "'d audit_db \<Rightarrow> 'd audit_record list option" where
  "exportRecords db = getFrom db None"

record 'd fingerprint =
  fp_error :: "'d audit_error option"
  fp_fingerprint :: string
  fp_newest :: string
  fp_nValid :: nat
  fp_oldest :: string

definition generateFingerprint :: "'d hash_fn \<Rightarrow> 'd audit_db \<Rightarrow> string option \<Rightarrow> string option \<Rightarrow>
    ('d audit_error + 'd fingerprint) option" where
  "generateFingerprint hash db oldest newest =
     (let oldest = (case oldest of None \<Rightarrow> NULL_ID | Some key \<Rightarrow> key);
          newest = (case newest of Some key \<Rightarrow> key | None \<Rightarrow> (case db_lastId db of None \<Rightarrow> NULL_ID | Some key \<Rightarrow> key));
          failed = (\<lambda>e key nValid. Some (Inr
             \<lparr>fp_error = Some e, fp_fingerprint = key @ ''|'' @ newest, fp_newest = newest,
              fp_nValid = nValid, fp_oldest = key\<rparr>))
      in Option.bind (if newest \<noteq> NULL_ID then checkIntegrity hash db oldest newest else Some (Inr 0)) (\<lambda>r.
           case r of
             Inr nValid \<Rightarrow> Some (Inr
               \<lparr>fp_error = None, fp_fingerprint = oldest @ ''|'' @ newest, fp_newest = newest,
                fp_nValid = nValid, fp_oldest = oldest\<rparr>)
           | Inl (MissingRecord key nValid) \<Rightarrow> failed (MissingRecord key nValid) key nValid
           | Inl (AlteredRecord key nValid x) \<Rightarrow> failed (AlteredRecord key nValid x) key nValid
           | Inl e \<Rightarrow> Some (Inl e)))"

end
