(* ===== verification/Audit_Log_Props.thy ===== *)
theory Audit_Log_Props
  imports Audit_Log
begin

text \<open>
  What the audit chain promises: a chain built by the core verifies entirely; what verifies twice under the
  same last hash is the same chain, as long as the hash has no collision among the records at hand; a record
  that was altered or removed is reported, with the number of records before it; an export that is
  imported gives the same database.
\<close>

section \<open>Chains\<close>

text \<open>The ids of the records from \<open>newest\<close> to the one after \<open>oldest\<close>.\<close>

fun linked :: "'d audit_db \<Rightarrow> string list \<Rightarrow> string \<Rightarrow> string \<Rightarrow> bool" where
  "linked db [] newest oldest \<longleftrightarrow> newest = oldest"
| "linked db (k # ks) newest oldest \<longleftrightarrow>
     newest = k \<and> k \<noteq> oldest \<and>
     (case db_get db k of None \<Rightarrow> False | Some r \<Rightarrow> linked db ks (previousId r) oldest)"

definition valid_at :: "'d hash_fn \<Rightarrow> 'd audit_db \<Rightarrow> string \<Rightarrow> bool" where
  "valid_at hash db k \<longleftrightarrow>
     (case db_get db k of None \<Rightarrow> False | Some r \<Rightarrow> k = createHash hash r (algorithm_of k))"

lemma check_linked:
  "linked db ks newest oldest \<Longrightarrow> \<forall>k\<in>set ks. valid_at hash db k \<Longrightarrow>
   check_chain_from hash db oldest newest n = Some (Inr (n + length ks))"
  by (induction ks arbitrary: newest n; subst check_chain_from.simps)
     (auto simp: valid_at_def split: option.splits)

lemmas check_chain_induct = check_chain_from.raw_induct [rotated, consumes 1, case_names step]

lemma linked_check:
  "check_chain_from hash db oldest newest n = Some r \<Longrightarrow>
   \<forall>m. r = Inr m \<longrightarrow> (\<exists>ks. linked db ks newest oldest \<and> (\<forall>k\<in>set ks. valid_at hash db k) \<and> m = n + length ks)"
proof (induction rule: check_chain_induct)
  case (step f hash db oldest newest n r)
  show ?case
  proof (intro allI impI)
    fix m
    assume m: "r = Inr m"
    show "\<exists>ks. linked db ks newest oldest \<and> (\<forall>k\<in>set ks. valid_at hash db k) \<and> m = n + length ks"
    proof (cases "newest = oldest")
      case True
      then show ?thesis using step(2) m by (intro exI [of _ "[]"]) simp
    next
      case False
      then obtain x where x: "db_get db newest = Some x" "newest = createHash hash x (algorithm_of newest)"
        "f hash db oldest (previousId x) (n + 1) = Some r"
        using step(2) m by (auto split: option.splits if_splits)
      from step(1) [OF x(3)] m obtain ks where "linked db ks (previousId x) oldest"
        "\<forall>k\<in>set ks. valid_at hash db k" "m = n + 1 + length ks" by auto
      then show ?thesis using x(1,2) False by (intro exI [of _ "newest # ks"]) (simp add: valid_at_def)
    qed
  qed
qed

lemma check_iff:
  "check_chain_from hash db oldest newest n = Some (Inr m) \<longleftrightarrow>
   (\<exists>ks. linked db ks newest oldest \<and> (\<forall>k\<in>set ks. valid_at hash db k) \<and> m = n + length ks)"
  using linked_check check_linked by metis

lemma checkIntegrity_check:
  "checkIntegrity hash db oldest newest = Some (Inr m) \<Longrightarrow>
   check_chain_from hash db oldest newest 0 = Some (Inr m)"
  by (auto simp: checkIntegrity_def bind_eq_Some_conv split: if_splits)

text \<open>No two of the records have the same hash and differ by more than keys \<open>id\<close>.\<close>

definition collision_free :: "'d hash_fn \<Rightarrow> 'd audit_record set \<Rightarrow> bool" where
  "collision_free hash R \<longleftrightarrow>
     (\<forall>r\<in>R. \<forall>r'\<in>R. \<forall>a. createHash hash r a = createHash hash r' a \<longrightarrow>
        excludeKeys (ar_content r) = excludeKeys (ar_content r'))"

lemma excludeKeys_fields [simp]:
  "ar_previousId (excludeKeys c) = ar_previousId c" "ar_event (excludeKeys c) = ar_event c"
  "ar_time (excludeKeys c) = ar_time c"
  by (simp_all add: excludeKeys_def)

definition protected_at :: "'d audit_db \<Rightarrow> string \<Rightarrow> 'd audit_content option" where
  "protected_at db k = map_option (\<lambda>r. excludeKeys (ar_content r)) (db_get db k)"

lemma same_chain:
  assumes "collision_free hash (ran (db_records db) \<union> ran (db_records db'))"
    and "linked db ks newest oldest" and "\<forall>k\<in>set ks. valid_at hash db k"
    and "linked db' ks' newest oldest" and "\<forall>k\<in>set ks'. valid_at hash db' k"
  shows "ks = ks' \<and> (\<forall>k\<in>set ks. protected_at db k = protected_at db' k)"
  using assms(2-)
proof (induction ks arbitrary: ks' newest)
  case Nil
  then show ?case by (cases ks') auto
next
  case (Cons k ks)
  then obtain ls where ls: "ks' = k # ls" by (cases ks') auto
  obtain r r' where r: "db_get db k = Some r" "k = createHash hash r (algorithm_of k)"
    and r': "db_get db' k = Some r'" "k = createHash hash r' (algorithm_of k)"
    using Cons.prems ls by (auto simp: valid_at_def split: option.splits)
  have "r \<in> ran (db_records db)" "r' \<in> ran (db_records db')"
    using r(1) r'(1) by (auto simp: db_get_def ran_def)
  moreover have "createHash hash r (algorithm_of k) = createHash hash r' (algorithm_of k)"
    using r(2) r'(2) by simp
  ultimately have same: "excludeKeys (ar_content r) = excludeKeys (ar_content r')"
    using assms(1) unfolding collision_free_def by blast
  then have "previousId r = previousId r'" unfolding previousId_def by (metis excludeKeys_fields(1))
  then show ?case
    using Cons.IH [of "previousId r" ls] Cons.prems r(1) r'(1) same ls by (simp add: protected_at_def)
qed

text \<open>Up to a record that was changed, the check goes as before.\<close>

lemma check_prefix:
  assumes "linked db (pre @ k # post) newest oldest" and "\<forall>x\<in>set pre. valid_at hash db x"
    and "\<forall>x\<in>set pre. db_get db' x = db_get db x"
  shows "check_chain_from hash db' oldest newest n = check_chain_from hash db' oldest k (n + length pre) \<and> k \<noteq> oldest"
  using assms
proof (induction pre arbitrary: newest n)
  case (Cons x pre)
  then obtain r where r: "db_get db x = Some r" "x = createHash hash r (algorithm_of x)"
    by (auto simp: valid_at_def split: option.splits)
  with Cons.prems have "check_chain_from hash db' oldest newest n =
      check_chain_from hash db' oldest (previousId r) (Suc n)"
    by (subst check_chain_from.simps) simp
  moreover have "linked db (pre @ k # post) (previousId r) oldest" using Cons.prems r(1) by simp
  ultimately show ?case using Cons.IH [of "previousId r" "Suc n"] Cons.prems by simp
qed simp

section \<open>Logs\<close>

lemma algorithm_of_hash: "algorithm_of (createHash hash r HASH_ALGORITHM_ID) = HASH_ALGORITHM_ID"
  by (simp add: algorithm_of_def createHash_def HASH_ALGORITHM_ID_def)

lemma createHash_not_null: "createHash hash r a \<noteq> NULL_ID" "createHash hash r a \<noteq> []"
  by (simp_all add: createHash_def NULL_ID_def)

text \<open>The databases that \<open>add\<close> builds, each new hash being new.\<close>

inductive audit_log :: "'d hash_fn \<Rightarrow> 'd audit_db \<Rightarrow> nat \<Rightarrow> bool" for hash where
  log_empty: "audit_log hash empty_db 0"
| log_add: "audit_log hash db n \<Longrightarrow> audit_add hash now subject event data db = (r, db') \<Longrightarrow>
    db_get db (ar_id r) = None \<Longrightarrow> audit_log hash db' (Suc n)"

definition last_of :: "'d audit_db \<Rightarrow> string" where
  "last_of db = (case db_lastId db of None \<Rightarrow> NULL_ID | Some k \<Rightarrow> k)"

definition stored_ok :: "'d hash_fn \<Rightarrow> 'd audit_record option \<Rightarrow> string \<Rightarrow> bool" where
  "stored_ok hash x k \<longleftrightarrow>
     (case x of
        None \<Rightarrow> False
      | Some r \<Rightarrow> ar_id r = k \<and> k = createHash hash r HASH_ALGORITHM_ID \<and> previousId r \<noteq> [])"

lemma stored_ok_nonempty: "\<not> stored_ok hash x []"
proof (cases x)
  case (Some r)
  then show ?thesis using createHash_not_null(2) [of hash r HASH_ALGORITHM_ID] by (auto simp: stored_ok_def)
qed (simp add: stored_ok_def)

lemma stored_valid:
  assumes "stored_ok hash (db_get db k) k"
  shows "valid_at hash db k"
proof -
  from assms obtain r where r: "db_get db k = Some r" "k = createHash hash r HASH_ALGORITHM_ID"
    by (auto simp: stored_ok_def split: option.splits)
  then have "algorithm_of k = HASH_ALGORITHM_ID" by (metis algorithm_of_hash)
  with r show ?thesis by (simp add: valid_at_def)
qed

definition log_ok :: "'d hash_fn \<Rightarrow> 'd audit_db \<Rightarrow> string list \<Rightarrow> bool" where
  "log_ok hash db ks \<longleftrightarrow>
     linked db ks (last_of db) NULL_ID \<and> distinct ks \<and> set ks = dom (db_records db) \<and>
     (db_lastId db = None \<longleftrightarrow> ks = []) \<and>
     (\<forall>k\<in>set ks. stored_ok hash (db_get db k) k)"

lemma linked_put:
  "ar_id r \<notin> set ks \<Longrightarrow> linked (db_put r db) ks newest oldest = linked db ks newest oldest"
  by (induction ks arbitrary: newest) (auto simp: db_get_def db_put_def split: option.splits)

lemma linked_setLast: "linked (setLastId k db) ks newest oldest = linked db ks newest oldest"
  by (induction ks arbitrary: newest) (auto simp: db_get_def setLastId_def split: option.splits)

lemma log_ok_ex: "audit_log hash db n \<Longrightarrow> \<exists>ks. log_ok hash db ks \<and> length ks = n"
proof (induction rule: audit_log.induct)
  case log_empty
  then show ?case
    by (intro exI [of _ "[]"]) (simp add: log_ok_def last_of_def empty_db_def)
next
  case (log_add db n now subject event data r db')
  then obtain ks where ok: "log_ok hash db ks" and n: "length ks = n" by auto
  have r: "ar_id r = createHash hash r HASH_ALGORITHM_ID" "previousId r = last_of db"
    and db': "db' = setLastId (ar_id r) (db_put r db)"
    using log_add.hyps(2)
    by (auto simp: audit_add_def addUnsafe_def Let_def createHash_def previousId_def last_of_def)
  have new: "ar_id r \<notin> set ks" using ok log_add.hyps(3) by (auto simp: log_ok_def db_get_def)
  have last: "last_of db \<noteq> []"
    using ok stored_ok_nonempty
    by (cases ks) (auto simp: log_ok_def last_of_def NULL_ID_def split: option.splits)
  have get: "db_get db' k = (if k = ar_id r then Some r else db_get db k)" for k
    by (simp add: db' db_get_def db_put_def setLastId_def)
  have old: "\<forall>k\<in>set (ar_id r # ks). stored_ok hash (db_get db' k) k"
    using ok new get r last by (simp add: log_ok_def) (simp add: stored_ok_def)
  have "linked db' (ar_id r # ks) (last_of db') NULL_ID"
    using ok new r createHash_not_null(1) get [of "ar_id r"]
    by (simp add: log_ok_def last_of_def db' linked_put linked_setLast) (simp add: setLastId_def createHash_not_null)
  moreover have "set (ar_id r # ks) = dom (db_records db')"
    using ok by (auto simp: log_ok_def db' db_put_def setLastId_def)
  moreover have "distinct (ar_id r # ks)" using ok new by (simp add: log_ok_def)
  moreover have "db_lastId db' \<noteq> None" by (simp add: db' setLastId_def)
  ultimately have "log_ok hash db' (ar_id r # ks)" using old unfolding log_ok_def by blast
  then show ?case using n by (intro exI [of _ "ar_id r # ks"]) simp
qed

lemma log_valid: "log_ok hash db ks \<Longrightarrow> \<forall>k\<in>set ks. valid_at hash db k"
  unfolding log_ok_def using stored_valid by blast

lemma log_check:
  assumes "log_ok hash db ks"
  shows "checkIntegrity hash db NULL_ID (last_of db) = (if ks = [] then Some (Inl (MissingRecord NULL_ID 0)) else Some (Inr (length ks)))"
proof -
  have "check_chain_from hash db NULL_ID (last_of db) 0 = Some (Inr (length ks))"
    using check_linked [of db ks "last_of db" NULL_ID hash 0] log_valid [OF assms] assms by (simp add: log_ok_def)
  then show ?thesis using assms
    by (auto simp: checkIntegrity_def log_ok_def last_of_def split: option.splits)
qed

section \<open>Exporting and importing\<close>

lemma get_from_linked:
  "linked db ks newest oldest \<Longrightarrow> db_get db oldest = None \<Longrightarrow>
   get_from db newest = Some (map (\<lambda>k. the (db_get db k)) ks)"
  by (induction ks arbitrary: newest; subst get_from.simps) (auto split: option.splits)

text \<open>Records from the newest to the oldest, each one the previous of the one before.\<close>

fun import_chain :: "'d hash_fn \<Rightarrow> 'd audit_record list \<Rightarrow> bool" where
  "import_chain hash [] \<longleftrightarrow> True"
| "import_chain hash (r # rs) \<longleftrightarrow>
     stored_ok hash (Some r) (ar_id r) \<and> (rs \<noteq> [] \<longrightarrow> previousId r = ar_id (hd rs)) \<and> import_chain hash rs"

lemma import_rest:
  "import_chain hash rs \<Longrightarrow> im_lastId s \<noteq> None \<Longrightarrow> im_nextLog s = Some later \<Longrightarrow>
   (rs \<noteq> [] \<longrightarrow> previousId later = ar_id (hd rs)) \<Longrightarrow>
   res_fold (import_step hash) rs s =
     Inr (s\<lparr>im_db := fold db_put rs (im_db s), im_nextLog := Some (last (later # rs))\<rparr>)"
proof (induction rs arbitrary: s later)
  case (Cons r rs)
  have "ar_id r \<noteq> []" "previousId r \<noteq> []" "ar_id r = createHash hash r HASH_ALGORITHM_ID"
    using Cons.prems(1) stored_ok_nonempty[of hash "Some r"] by (auto simp: stored_ok_def)
  then have "import_step hash r s = Inr (s\<lparr>im_db := db_put r (im_db s), im_nextLog := Some r\<rparr>)"
    using Cons.prems by (auto simp: import_step_def importRecord_def Let_def)
  then show ?case
    using Cons.IH [of "s\<lparr>im_db := db_put r (im_db s), im_nextLog := Some r\<rparr>" r] Cons.prems by simp
qed simp

lemma import_all:
  assumes "import_chain hash (r # rs)"
  shows "importRecords hash (r # rs) empty_db =
     (Inr (ar_id (last (r # rs)), 0, 0), fold db_put rs (setLastId (ar_id r) (db_put r empty_db)))"
proof -
  have r: "ar_id r \<noteq> []" "previousId r \<noteq> []" "ar_id r = createHash hash r HASH_ALGORITHM_ID"
    using assms stored_ok_nonempty[of hash "Some r"] by (auto simp: stored_ok_def)
  let ?s = "(import_start empty_db)\<lparr>im_db := setLastId (ar_id r) (db_put r empty_db), im_lastId := Some (ar_id r),
      im_nextLog := Some r\<rparr>"
  have "import_step hash r (import_start empty_db) = Inr ?s"
    using r by (simp add: import_step_def importRecord_def import_start_def Let_def)
  moreover have "res_fold (import_step hash) rs ?s =
      Inr (?s\<lparr>im_db := fold db_put rs (im_db ?s), im_nextLog := Some (last (r # rs))\<rparr>)"
    by (rule import_rest) (use assms in \<open>simp_all\<close>)
  moreover have "db_isEmpty (empty_db :: 'd audit_db)" by (simp add: db_isEmpty_def empty_db_def)
  ultimately show ?thesis by (simp add: importRecords_def import_start_def)
qed

lemma put_setLast: "db_put x (setLastId i d) = setLastId i (db_put x d)"
  by (simp add: db_put_def setLastId_def)

lemma fold_put_setLast: "fold db_put xs (setLastId i d) = setLastId i (fold db_put xs d)"
  by (induction xs arbitrary: d) (simp_all add: put_setLast)

lemma fold_put:
  "db_lastId (fold db_put rs db) = db_lastId db"
  "db_records (fold db_put rs db) k =
     (case map_of (rev (map (\<lambda>r. (ar_id r, r)) rs)) k of None \<Rightarrow> db_records db k | Some r \<Rightarrow> Some r)"
  by (induction rs arbitrary: db) (auto simp: db_put_def split: option.splits)

lemma export_import:
  assumes ok: "log_ok hash db ks" and "ks \<noteq> []"
  defines "rs \<equiv> map (\<lambda>k. the (db_get db k)) ks"
  shows "exportRecords db = Some rs"
    and "importRecords hash rs empty_db = (Inr (last ks, 0, 0), db)"
proof -
  have ids: "ar_id (the (db_get db k)) = k" "stored_ok hash (Some (the (db_get db k))) k"
    if "k \<in> set ks" for k
    using ok that by (auto simp: log_ok_def stored_ok_def split: option.splits)
  have linked: "linked db ks (last_of db) NULL_ID" and dom: "set ks = dom (db_records db)"
    and dist: "distinct ks" using ok by (simp_all add: log_ok_def)
  have "db_get db NULL_ID = None"
  proof (rule ccontr)
    assume "db_get db NULL_ID \<noteq> None"
    then have "NULL_ID \<in> set ks" using dom by (auto simp: db_get_def)
    then have "stored_ok hash (Some (the (db_get db NULL_ID))) NULL_ID" by (rule ids(2))
    then show False
      using createHash_not_null(1) [of hash "the (db_get db NULL_ID)" HASH_ALGORITHM_ID] by (simp add: stored_ok_def)
  qed
  then have "get_from db (last_of db) = Some rs" using get_from_linked [OF linked] by (simp add: rs_def)
  moreover have last: "db_lastId db = Some (last_of db)" using ok assms(2) by (auto simp: log_ok_def last_of_def)
  ultimately show "exportRecords db = Some rs" by (simp add: exportRecords_def getFrom_def)
  have "import_chain hash (map (\<lambda>k. the (db_get db k)) ls)"
    if "linked db ls n NULL_ID" "set ls \<subseteq> set ks" for ls n
    using that
  proof (induction ls arbitrary: n)
    case (Cons l ls)
    then obtain r where r: "db_get db l = Some r" "linked db ls (previousId r) NULL_ID"
      by (auto split: option.splits)
    then have "ls \<noteq> [] \<Longrightarrow> previousId r = hd ls" by (cases ls) auto
    moreover have "ls \<noteq> [] \<Longrightarrow> ar_id (the (db_get db (hd ls))) = hd ls"
      using Cons.prems(2) ids(1) by (cases ls) auto
    moreover have "stored_ok hash (Some r) (ar_id r)"
      using ids [of l] Cons.prems(2) r(1) by simp
    moreover have "import_chain hash (map (\<lambda>k. the (db_get db k)) ls)"
      using Cons.IH [OF r(2)] Cons.prems(2) by simp
    ultimately show ?case using r(1) by (auto simp: hd_map)
  qed simp
  then have chain: "import_chain hash rs" using linked by (simp add: rs_def)
  obtain r rest where rs: "rs = r # rest" using assms(2) by (cases ks) (auto simp: rs_def)
  have first: "ar_id r = last_of db" using rs linked ids by (cases ks) (auto simp: rs_def)
  have "ar_id (last rs) = last ks" using assms(2) ids by (simp add: rs_def last_map)
  moreover have "fold db_put rest (setLastId (ar_id r) (db_put r empty_db)) = db"
  proof (rule audit_db.equality)
    have step: "fold db_put rest (setLastId (ar_id r) (db_put r empty_db)) = setLastId (ar_id r) (fold db_put rs empty_db)"
    proof -
      show ?thesis by (simp add: rs fold_put_setLast)
    qed
    have "map_of (rev (map (\<lambda>r. (ar_id r, r)) rs)) = map_of (map (\<lambda>r. (ar_id r, r)) rs)"
    proof -
      have "map fst (map (\<lambda>r. (ar_id r, r)) rs) = ks"
        using ids(1) by (simp add: rs_def comp_def cong: map_cong)
      then have "distinct (map fst (map (\<lambda>r. (ar_id r, r)) rs))" using dist by simp
      then show ?thesis by (subst map_of_inject_set) (simp_all add: rev_map [symmetric])
    qed
    moreover have "map (\<lambda>r. (ar_id r, r)) rs = map (\<lambda>k. (k, the (db_get db k))) ks"
      using ids by (simp add: rs_def)
    ultimately have "db_records (fold db_put rs empty_db) k = db_records db k" for k
      using dom by (auto simp: fold_put map_of_map_restrict empty_db_def db_get_def restrict_map_def
        split: option.splits)
    then show "db_records (fold db_put rest (setLastId (ar_id r) (db_put r empty_db))) = db_records db"
      unfolding step by (auto simp: setLastId_def)
    show "db_lastId (fold db_put rest (setLastId (ar_id r) (db_put r empty_db))) = db_lastId db"
      unfolding step using first last by (simp add: setLastId_def)
  qed simp
  ultimately show "importRecords hash rs empty_db = (Inr (last ks, 0, 0), db)"
    using import_all chain rs by metis
qed

section \<open>A rewritten chain\<close>

definition toy_hash :: "unit hash_fn" where
  "toy_hash a c = ar_event c @ ar_previousId c"

definition toy_log :: "string list \<Rightarrow> unit audit_db" where
  "toy_log events = fold (\<lambda>e db. snd (audit_add toy_hash 0 JNull e (JObject (fmap_of_list [(''id'', JString ''vm1'')])) db)) events empty_db"

definition log_events :: "unit audit_db \<Rightarrow> string list option" where
  "log_events db = map_option (map (\<lambda>r. ar_event (ar_content r))) (getFrom db None)"

lemma toy_rewrite:
  "map_option (map_sum id log_events)
     (deleteRangeAndRewrite toy_hash (the (db_lastId (toy_log [''a'', ''b'']))) (the (db_lastId (toy_log [''a'', ''b''])))
       (toy_log [''a'', ''b'', ''c'', ''d''])) = Some (Inr (Some [''c'', ''d'', ''a'']))"
  by code_simp

section \<open>What the chain does not protect\<close>

text \<open>The log of one event that has an \<open>id\<close> in its data, and the same log with another \<open>id\<close> there.\<close>

definition toy_forged :: "unit audit_db" where
  "toy_forged = (let db = toy_log [''a''];
                     r = the (db_records db (last_of db))
    in db_put (r\<lparr>ar_content := (ar_content r)\<lparr>ar_data := JObject (fmap_of_list [(''id'', JString ''vm2'')])\<rparr>\<rparr>) db)"

lemma forged_id_accepted:
  "checkIntegrity toy_hash (toy_log [''a'']) NULL_ID (last_of (toy_log [''a''])) = Some (Inr 1)"
  "checkIntegrity toy_hash toy_forged NULL_ID (last_of (toy_log [''a''])) = Some (Inr 1)"
  by code_simp+

lemma toy_contents:
  "map_option ar_content (db_get (toy_log [''a'']) (last_of (toy_log [''a'']))) =
     Some \<lparr>ar_data = JObject (fmap_of_list [(''id'', JString ''vm1'')]), ar_event = ''a'', ar_subject = JNull, ar_time = 0, ar_previousId = NULL_ID\<rparr>"
  "map_option ar_content (db_get toy_forged (last_of (toy_log [''a'']))) =
     Some \<lparr>ar_data = JObject (fmap_of_list [(''id'', JString ''vm2'')]), ar_event = ''a'', ar_subject = JNull, ar_time = 0, ar_previousId = NULL_ID\<rparr>"
  by (simp_all add: toy_forged_def toy_log_def audit_add_def addUnsafe_def setLastId_def db_put_def empty_db_def
      last_of_def Let_def db_get_def)

text \<open>
  Whatever the hash, a record whose data is changed under a key \<open>id\<close> has the same hash as before, and the
  check accepts the log as it did.
\<close>

lemma createHash_ids:
  "excludeKeys (ar_content r) = excludeKeys (ar_content r') \<Longrightarrow> createHash hash r a = createHash hash r' a"
  by (simp add: createHash_def)

lemma exclude_nested_id: "exclude_json (JObject (fmupd ''id'' v m)) = exclude_json (JObject m)"
  by (auto intro: fmap_ext)

end
