(* ===== verification/Service_Properties.thy ===== *)
theory Service_Properties
  imports Retention Acl_Resolver Collection_Props Multi_Key_Map Cron_Props Audit_Log_Props
begin

text \<open>
  The properties of the services: the retention of backups, the ACL resolver, the observable collection
  with its indexes and views, the multi-key map, the cron schedules and jobs, and the audit log.
\<close>

section \<open>Retention\<close>

text \<open>
  C31: The backups to delete are exactly those that are neither among the last \<open>n\<close> ones nor, for one of
  the long term settings, the oldest backup of one of its most recent time buckets.
\<close>

theorem retention_deletes:
  assumes "ltr_ok ltr" and "datable cal tz (rev es)"
    and "\<And>dc. dc \<in> set ltr \<Longrightarrow> distinct (bucket_names (bucket_of cal tz (ltr_formatter cal dc)) (rev es))"
  shows "getOldEntries cal n es ltr (Some tz) =
    Inr (filter (\<lambda>e. e \<notin> set (drop (length es - n) es) \<and> (\<forall>dc \<in> set ltr. \<not> kept_by cal tz es dc e)) es)"
  by (rule getOldEntries_spec [OF assms])

text \<open>A calendar with days as dates, named in unary, where a week has seven days.\<close>

definition toy_calendar :: "int calendar" where
  "toy_calendar = \<lparr>cal_date = (\<lambda>_ t. Some t), cal_subHours = (\<lambda>_ d. d), cal_subDays = (\<lambda>n d. d - n),
     cal_format = (\<lambda>f d. replicate (nat (if f = ''gggg-ww'' then d div 7 else d)) CHR ''i'')\<rparr>"

definition toy_entry :: "int \<Rightarrow> unit ltr_entry" where
  "toy_entry t = \<lparr>en_timestamp = Some t, en_id = [], en_data = ()\<rparr>"

definition toy_weekly :: "(string \<times> ltr_config) list" where
  "toy_weekly = [(''weekly'', \<lparr>ltr_retention = 1, ltr_firstUnit = None\<rparr>)]"

theorem retention_deletes_witness:
  "getOldEntries toy_calendar 1 (map toy_entry [1, 2, 8, 9]) toy_weekly (Some ''UTC'') =
     Inr (filter (\<lambda>e. e \<notin> set (drop (length (map toy_entry [1, 2, 8, 9]) - 1) (map toy_entry [1, 2, 8, 9])) \<and>
       (\<forall>dc \<in> set toy_weekly. \<not> kept_by toy_calendar ''UTC'' (map toy_entry [1, 2, 8, 9]) dc e))
       (map toy_entry [1, 2, 8, 9]))"
  by (rule retention_deletes)
    (auto simp: toy_weekly_def ltr_ok_def datable_def toy_calendar_def toy_entry_def bucket_names_def bucket_of_def
      ltr_formatter_def LTR_DEFINITIONS_def)

text \<open>
  With a long term retention, entries whose last two are not in ascending order are refused with an
  assertion error, although the documentation of the function asks for descending order.
\<close>

theorem retention_needs_ascending:
  fixes cal :: "'a calendar" and a :: "'b ltr_entry"
  assumes "ltr_ok ltr" and "ltr \<noteq> []" and "en_timestamp a = Some ta" and "en_timestamp b = Some tb" and "tb \<le> ta"
  shows "getOldEntries cal n (es @ [a, b]) ltr (Some tz) = Inl AssertionError"
proof -
  obtain bs :: "('a, 'b) buckets" where bs: "res_map (init_bucket cal (Some tz)) ltr = Inr bs"
    using init_buckets [OF assms(1)] by blast
  have "res_fold (visit_entry (dateCreator cal tz)) (rev (es @ [a, b])) (None, bs) = Inl AssertionError"
    using assms(3-5)
    by (cases "cal_date cal tz tb") (simp_all add: visit_entry_def dateCreator_def js_assert_def)
  then show ?thesis using bs assms(2) by (simp add: getOldEntries_def getLtrEntries_def)
qed

theorem retention_needs_ascending_witness:
  "getOldEntries toy_calendar 1 ([] @ [toy_entry 9, toy_entry 2]) toy_weekly (Some ''UTC'') = Inl AssertionError"
  by (rule retention_needs_ascending [where ta = 9 and tb = 2])
    (simp_all add: toy_weekly_def ltr_ok_def toy_entry_def)

section \<open>ACLs\<close>

text \<open>
  C35: The resolver decides exactly what is granted: the least set of objects that have the permission set
  on themselves, when their type allows it, or that are reached from such an object by the members their
  type follows, a disk by its storage or by any machine it is plugged to, a USB group by all its devices.
  This is for relations without a cycle among the members that are followed (a disk and its plugs refer to
  each other, but a disk does not follow its plugs, it asks for their machines) and a recursion as deep as
  they are long. \<open>assert\<close> names the first pair of its list that is not granted, \<open>check\<close> tells whether all
  are, and \<open>test\<close> whether one is.
\<close>

theorem acl_decides:
  assumes "\<And>i obj j. g i = Some obj \<Longrightarrow> follows g obj j \<Longrightarrow> g j \<noteq> None \<Longrightarrow> rank j < rank i"
    and "\<And>i p. (i, p) \<in> set ps \<Longrightarrow> rank i < d"
  shows "assertPermissions (Suc d) g perms ps =
      Some (case find (\<lambda>(i, p). \<not> granted g perms p i) ps of None \<Rightarrow> Inr () | Some (i, p) \<Rightarrow> Inl (p, i)) \<and>
    checkPermissions (Suc d) g perms ps = Some (\<forall>(i, p) \<in> set ps. granted g perms p i) \<and>
    (\<forall>(i, p) \<in> set ps. testPermission (Suc d) g perms i p = Some (granted g perms p i))"
proof -
  have check: "checkAuthorization (Suc d) g perms (Some i) p = Some (granted g perms p i)" if "(i, p) \<in> set ps" for i p
    by (rule check_granted [of g rank]) (use assms that in blast)+
  have asserted: "assertPermissions (Suc d) g perms ps =
      Some (case find (\<lambda>(i, p). \<not> granted g perms p i) ps of None \<Rightarrow> Inr () | Some (i, p) \<Rightarrow> Inl (p, i))"
    by (rule assert_granted) (rule check)
  have "checkPermissions (Suc d) g perms ps = Some (\<forall>(i, p) \<in> set ps. granted g perms p i)"
    unfolding find_granted [symmetric] checkPermissions_def asserted by (simp split: option.split)
  moreover have "\<forall>(i, p) \<in> set ps. testPermission (Suc d) g perms i p = Some (granted g perms p i)"
    using check by (auto simp: testPermission_def simp del: checkAuthorization.simps)
  ultimately show ?thesis using asserted by blast
qed

text \<open>A machine on a host of a pool, a disk of that machine in a storage of the pool, and their plug.\<close>

definition toy_object :: "string \<Rightarrow> string \<Rightarrow> (string \<times> string) list \<Rightarrow> (string \<times> string list) list \<Rightarrow> xo_object" where
  "toy_object i ty one many = \<lparr>xo_id = i, xo_type = ty, xo_member = map_of one,
     xo_members = (\<lambda>n. case map_of many n of None \<Rightarrow> [] | Some ms \<Rightarrow> ms)\<rparr>"

definition toy_rows :: "(string \<times> xo_object) list" where
  "toy_rows = [
     (''pool'', toy_object ''pool'' ''pool'' [] []),
     (''host'', toy_object ''host'' ''host'' [(''$pool'', ''pool'')] []),
     (''sr'', toy_object ''sr'' ''SR'' [(''$container'', ''pool'')] []),
     (''vm'', toy_object ''vm'' ''VM'' [(''$container'', ''host'')] [(''$VBDs'', [''vbd''])]),
     (''vdi'', toy_object ''vdi'' ''VDI'' [(''$SR'', ''sr'')] [(''$VBDs'', [''vbd''])]),
     (''vbd'', toy_object ''vbd'' ''VBD'' [(''VDI'', ''vdi''), (''VM'', ''vm'')] [])]"

definition toy_objects :: objects where
  "toy_objects = map_of toy_rows"

definition toy_rank :: "string \<Rightarrow> nat" where
  "toy_rank i = the (map_of [(''pool'', 0), (''host'', 1), (''sr'', 1), (''vm'', 2), (''vdi'', 3), (''vbd'', 4)] i)"

lemma toy_follows:
  "list_all (\<lambda>(i, obj). \<forall>j. follows toy_objects obj j \<longrightarrow> toy_rank j < toy_rank i) toy_rows"
proof -
  have "toy_objects ''vbd'' = Some (toy_object ''vbd'' ''VBD'' [(''VDI'', ''vdi''), (''VM'', ''vm'')] [])"
    by (simp add: toy_objects_def toy_rows_def)
  then show ?thesis
    by (simp add: toy_rows_def follows_def followed_def is_disk_def plugged_def toy_object_def toy_rank_def
        del: map_of.simps) (auto simp: toy_rank_def)
qed

lemma toy_acyclic:
  "toy_objects i = Some obj \<Longrightarrow> follows toy_objects obj j \<Longrightarrow> toy_objects j \<noteq> None \<Longrightarrow> toy_rank j < toy_rank i"
  using toy_follows by (auto simp: list_all_iff toy_objects_def dest!: map_of_SomeD)

definition toy_permissions :: permissions where
  "toy_permissions = [''vm'' \<mapsto> (\<lambda>p. p = ''view'')]"

theorem acl_decides_witness:
  "granted toy_objects toy_permissions ''view'' ''vbd'' \<and> \<not> granted toy_objects toy_permissions ''view'' ''sr'' \<and>
   assertPermissions (Suc 5) toy_objects toy_permissions [(''vbd'', ''view''), (''sr'', ''view'')] = Some (Inl (''view'', ''sr''))"
proof -
  let ?ps = "[(''vbd'', ''view''), (''sr'', ''view'')]"
  have "toy_rank i < 5" if "(i, p) \<in> set ?ps" for i p using that by (auto simp: toy_rank_def)
  note decided = acl_decides [of toy_objects toy_rank ?ps 5 toy_permissions, OF toy_acyclic this]
  have "testPermission (Suc 5) toy_objects toy_permissions ''vbd'' ''view'' = Some True"
    "testPermission (Suc 5) toy_objects toy_permissions ''sr'' ''view'' = Some False" by code_simp+
  then show ?thesis using decided by (simp del: assertPermissions.simps)
qed

section \<open>The collection and its followers\<close>

text \<open>A run of a collection: an item is added, then the events are flushed.\<close>

lemma toy_flush: "\<exists>c. flush nobody 0 added_item = Inr (first_flush added_item, c) \<and> cl_buffering c = 0 \<and>
    cl_items c = [(''k'', Some ''t'')]"
  by (simp add: added_item_def first_flush_def flush_def coll_eval flush_events_def event_data_def nobody_def)

definition toy_flushed :: "string collection" where
  "toy_flushed = (case flush nobody 0 added_item of Inr (_, c) \<Rightarrow> c | Inl _ \<Rightarrow> added_item)"

lemma toy_flushed_fields: "cl_buffering toy_flushed = 0" "cl_items toy_flushed = [(''k'', Some ''t'')]"
  using toy_flush by (auto simp: toy_flushed_def)

lemma toy_run:
  "coll_run busy Some (\<lambda>_. True) on s0 toy_flushed (fold apply_event (first_flush added_item) Map.empty)
     (fold on (first_flush added_item) s0) {}"
proof -
  have "coll_run busy Some (\<lambda>_. True) on s0 added_item Map.empty s0 {}"
    by (rule run_call [OF run_start, where op = "Add (KeyArg ''k'') (Some ''t'')"])
      (simp add: added_item_def coll_eval)
  moreover have "0 < length (cl_called added_item)" by (simp add: added_item_def coll_eval)
  moreover have f: "flush (listeners Some (\<lambda>_. True) (\<lambda>_. [])) 0 added_item = Inr (first_flush added_item, toy_flushed)"
    using toy_flush by (auto simp: toy_flushed_def listeners_none)
  ultimately have "coll_run busy Some (\<lambda>_. True) on s0 toy_flushed (fold apply_event (first_flush added_item) Map.empty)
     (fold on (first_flush added_item) s0) (lost_after {} added_item (first_flush added_item) toy_flushed)"
    by (intro run_flush) simp_all
  then show ?thesis by (simp only: flush_quiet(2) [OF f])
qed

text \<open>
  C9: In every run of a collection, its size is the number of its items, and whenever nothing is
  buffered, the events that were emitted since the start describe exactly its items, except those that a
  listener changed while events were emitted and for which no event was emitted since; when the listeners
  leave the collection alone there is no such item.
\<close>

theorem collection_events_complete:
  assumes "coll_run busy getKey isObject on s0 c r s lost"
  shows "cl_size c = int (length (cl_items c)) \<and> distinct (map fst (cl_items c)) \<and>
    (cl_buffering c = 0 \<longrightarrow> (\<forall>k. k \<notin> lost \<longrightarrow> r k = map_of (cl_items c) k)) \<and> (\<not> busy \<longrightarrow> lost = {})"
proof -
  have inv: "coll_inv lost c r" and held: "buffer_held c" using run_inv [OF assms] by simp_all
  then have "r k = map_of (cl_items c) k" if "cl_buffering c = 0" "k \<notin> lost" for k
    using that coll_invD(6) [OF inv, of k] by (simp add: pending_ok_def buffer_held_def)
  then show ?thesis using inv run_quiet [OF assms] by (auto simp: coll_inv_def)
qed

theorem collection_events_complete_witness:
  "cl_size toy_flushed = int (length (cl_items toy_flushed)) \<and> distinct (map fst (cl_items toy_flushed)) \<and>
   fold apply_event (first_flush added_item) Map.empty = map_of (cl_items toy_flushed)"
  using collection_events_complete [OF toy_run [of False "\<lambda>_. id" "()"]] toy_flushed_fields(1) by fastforce

text \<open>
  An item that a listener adds when the events are emitted is in the collection, but no event tells of it,
  although a flush is asked for.
\<close>

lemma listener_loses:
  "\<exists>c. flush (listeners Some (\<lambda>_. True) (\<lambda>e. if e = Finish then [Add (KeyArg ''l'') (Some ''u'')] else [])) 0 added_item =
      Inr (first_flush added_item, c) \<and>
    cl_items c = [(''k'', Some ''t''), (''l'', Some ''u'')] \<and> cl_buffer c = [] \<and> cl_buffering c = 1"
  by (simp add: added_item_def first_flush_def flush_def coll_eval flush_events_def event_data_def listeners_def nobody_def)

text \<open>
  C32: While the listeners of a collection leave it alone, an index that follows it from the start is,
  whenever nothing is buffered, the index of its items: the type recorded for a key is the type of its item,
  and the items filed under a type are the items of that type.
\<close>

theorem index_follows:
  assumes "coll_run False getKey isObject (index_on typeOf) empty_index c r ix lost" and "cl_buffering c = 0"
  shows "(\<forall>k. map_of (keysToType ix) k = Option.bind (map_of (cl_items c) k) typeOf) \<and>
    (\<forall>t k. map_of (type_items ix t) k =
       (case map_of (cl_items c) k of None \<Rightarrow> None | Some v \<Rightarrow> if typeOf v = Some t then Some v else None))"
  using index_follower.sync_flushed [OF assms] by (simp add: index_sync_def)

theorem index_follows_witness:
  "(\<forall>k. map_of (keysToType (fold (index_on itself) (first_flush added_item) empty_index)) k =
     Option.bind (map_of (cl_items toy_flushed) k) itself) \<and>
   (\<forall>t k. map_of (type_items (fold (index_on itself) (first_flush added_item) empty_index) t) k =
     (case map_of (cl_items toy_flushed) k of None \<Rightarrow> None | Some v \<Rightarrow> if itself v = Some t then Some v else None))"
  by (rule index_follows [OF toy_run toy_flushed_fields(1)])

text \<open>
  A view that follows a collection from the start holds, whenever nothing is buffered, exactly the
  items of the collection that its predicate accepts.
\<close>

theorem view_follows:
  assumes "coll_run False getKey isObject (view_on predicate) empty_collection c r w lost" and "cl_buffering c = 0"
  shows "map_of (cl_items w) k =
    (case map_of (cl_items c) k of None \<Rightarrow> None | Some v \<Rightarrow> if predicate v k then Some v else None)"
  using view_follower.sync_flushed [OF assms] by (simp add: view_sync_def)

theorem view_follows_witness:
  "map_of (cl_items (fold (view_on (\<lambda>v k. v = Some ''t'')) (first_flush added_item) empty_collection)) ''k'' =
    (case map_of (cl_items toy_flushed) ''k'' of None \<Rightarrow> None | Some v \<Rightarrow> if v = Some ''t'' then Some v else None)"
  by (rule view_follows [OF toy_run toy_flushed_fields(1)])

text \<open>
  A unique index does not follow its collection: when an object is removed and another one with the
  same reference is added in one batch, or when two objects exchange their references, it ends without
  an item that the collection has.
\<close>

theorem unique_index_loses:
  "cl_items replaced_ref = [(''new'', Some ''ref'')] \<and>
   map_of (itemByRef (fold (unique_on itself) (first_flush replaced_ref)
     (unique_onAdd itself [(''old'', Some ''ref'')] empty_unique))) ''ref'' = None \<and>
   cl_items swapped_refs = [(''a'', Some ''2''), (''b'', Some ''1'')] \<and>
   map_of (itemByRef (fold (unique_on itself) (first_flush swapped_refs)
     (unique_onAdd itself [(''a'', Some ''1''), (''b'', Some ''2'')] empty_unique))) ''2'' = None"
  by (simp add: replaced_ref_eq swapped_refs_eq unique_on_def unique_onAdd_def unique_onUpdate_def
      unique_onRemove_def insert_ref_def empty_unique_def itself_def)

section \<open>The multi-key map\<close>

text \<open>
  Reading a multi-key map after an assignment or a deletion at a list of keys gives the new value, or
  nothing, at that list, and what was there before at every other one, its prefixes and extensions
  included.
\<close>

theorem multi_key_map_laws:
  "mk_get (mk_set node keys val) keys' = (if keys' = keys then val else mk_get node keys') \<and>
   mk_get (mk_del node keys) keys' = (if keys' = keys then None else mk_get node keys')"
  by (simp add: get_set get_del)

text \<open>
  The nodes of a multi-key map stay tight: every branch leads to a value after any assignment of a
  value or deletion, so that a map whose values are all deleted keeps no node; the entries it lists are
  exactly the values that can be read, each with its keys.
\<close>

theorem multi_key_map_tight:
  assumes "mk_wf node" and "mk_tight node \<or> node = Undefined"
  shows "mk_wf (mk_set node keys (Some v)) \<and> mk_tight (mk_set node keys (Some v)) \<and>
    mk_wf (mk_del node keys) \<and>
    (mk_tight (mk_del node keys) \<and> (\<exists>ks. mk_get (mk_del node keys) ks \<noteq> None) \<or> mk_del node keys = Undefined) \<and>
    (\<forall>ks w. (ks, w) \<in> set (mk_entries node []) \<longleftrightarrow> mk_get node ks = Some w)"
proof -
  have wf: "mk_wf (mk_del node keys)" by (rule wf_del [OF assms(1)])
  have "mk_tight (mk_del node keys) \<or> mk_del node keys = Undefined"
  proof (cases "node = Undefined")
    case True
    then show ?thesis by (cases keys) simp_all
  next
    case False
    then show ?thesis using assms tight_del by blast
  qed
  then show ?thesis
    using wf tight_holds [OF _ wf] wf_set [OF assms(1)] tight_set [OF assms(2)] entries_get [OF assms(1), of _ _ "[]"]
    by auto
qed

theorem multi_key_map_tight_witness:
  "mk_wf (mk_set (Value (1 :: nat)) [''a'', ''b''] (Some 2)) \<and> mk_tight (mk_set (Value (1 :: nat)) [''a'', ''b''] (Some 2)) \<and>
   mk_wf (mk_del (Value (1 :: nat)) [''a'', ''b'']) \<and>
   (mk_tight (mk_del (Value (1 :: nat)) [''a'', ''b'']) \<and>
      (\<exists>ks. mk_get (mk_del (Value (1 :: nat)) [''a'', ''b'']) ks \<noteq> None) \<or>
      mk_del (Value (1 :: nat)) [''a'', ''b''] = Undefined) \<and>
   (\<forall>ks w. (ks, w) \<in> set (mk_entries (Value (1 :: nat)) ([] :: string list)) \<longleftrightarrow> mk_get (Value 1) ks = Some w)"
  by (rule multi_key_map_tight) (simp_all add: mk_wf.wf_value mk_tight.tight_value)

section \<open>Cron\<close>

lemma presets_at: "cron_presets p = Some q \<Longrightarrow> \<exists>p'. p = CHR ''@'' # p'"
  by (auto simp: cron_presets_def preset_patterns_def split: if_splits)

lemma parse_show:
  assumes "length vss = length cron_fields"
    and "\<forall>(field, vs) \<in> set (zip cron_fields vss). distinct vs \<and> (\<forall>v \<in> set vs. printable field v)"
  shows "parse (show_fields vss) = Some (Inr (schedule_of cron_fields vss Map.empty))"
proof -
  have nat: "\<exists>c s. show_nat n = c # s \<and> c \<noteq> CHR ''@''" for n
  proof (induction n rule: less_induct)
    case (less n)
    have "char_of (48 + n) \<noteq> CHR ''@''" if "n < 10" for n :: nat
    proof
      assume "char_of (48 + n) = CHR ''@''"
      then have "of_char (char_of (48 + n) :: char) = (64 :: nat)" by simp
      then show False using that by simp
    qed
    then show ?case using less [of "n div 10"] by (cases "n < 10") (auto simp: show_nat.simps [of n])
  qed
  obtain vs vss' where vss: "vss = vs # vss'" using assms(1) by (cases vss) (simp_all add: cron_fields_def)
  have "\<exists>c s. show_values vs = c # s \<and> c \<noteq> CHR ''@''"
    using nat [of "hd vs"] by (cases vs rule: show_values.cases) (auto simp del: show_nat.simps)
  then obtain c s where "show_fields vss = c # s" "c \<noteq> CHR ''@''" by (auto simp: vss)
  then have "cron_presets (show_fields vss) = None"
    using presets_at [of "show_fields vss"] by (cases "cron_presets (show_fields vss)") auto
  then show ?thesis
    unfolding parse_def by (subst parse_with.simps) (simp add: parse_fields_show [OF assms])
qed

text \<open>Five minutes past every hour, in January and March.\<close>

definition toy_cron :: "nat list list" where "toy_cron = [[5], [], [], [0, 2], []]"

lemma toy_cron_ok: "length toy_cron = length cron_fields"
    "\<forall>(field, vs) \<in> set (zip cron_fields toy_cron). distinct vs \<and> (\<forall>v \<in> set vs. printable field v)"
  by (simp_all add: toy_cron_def cron_fields_def printable_def in_range_def)

text \<open>
  C38: In a schedule that a pattern is parsed to, the values of every field are in ascending order, without
  duplicates, not empty and in the range of the field.
\<close>

theorem cron_values:
  assumes "parse p = Some (Inr schedule)"
  shows "schedule_ok cron_fields schedule"
  using parse_with_ok [OF assms [unfolded parse_def]] cron_ranges by simp

theorem cron_values_witness: "schedule_ok cron_fields (schedule_of cron_fields toy_cron Map.empty)"
  by (rule cron_values [OF parse_show [OF toy_cron_ok]])

text \<open>A list of values for each field, written as a pattern, is parsed back to the same values.\<close>

theorem cron_roundtrip:
  assumes "length vss = length cron_fields"
    and "\<forall>(field, vs) \<in> set (zip cron_fields vss). distinct vs \<and> (\<forall>v \<in> set vs. printable field v)"
  shows "parse (show_fields vss) = Some (Inr (schedule_of cron_fields vss Map.empty))"
  by (rule parse_show [OF assms])

theorem cron_roundtrip_witness:
  "parse (show_fields toy_cron) = Some (Inr (schedule_of cron_fields toy_cron Map.empty))"
  by (rule cron_roundtrip [OF toy_cron_ok])

text \<open>
  Parsing ends, with a schedule or an error, on every pattern in which no step is written with a
  leading zero; with the step 0 it does not end.
\<close>

theorem cron_parse_ends:
  "(\<not> zero_step p \<longrightarrow> (\<exists>r. parse p = Some r)) \<and> parse ''*/0 * * * *'' = None"
proof
  show "\<not> zero_step p \<longrightarrow> (\<exists>r. parse p = Some r)"
    unfolding parse_def using cron_presets_returns [of p] parse_fields_returns
    by (subst parse_with.simps, cases "cron_presets p") (simp_all, subst parse_with.simps, simp)
  have "parseRange (hd cron_fields) ''*/0 * * * *'' [] = None"
    by (simp add: parseRange_def cron_fields_def match_char_def parseInteger_def isDigit_def add_range_zero
        digits_value_def)
  then have "parseSequence (hd cron_fields) ''*/0 * * * *'' [] = None"
    by (subst parseSequence.simps) simp
  then have "parse_fields cron_fields ''*/0 * * * *'' Map.empty = None"
    by (simp add: cron_fields_def consumeWhitespaces_def)
  moreover have "cron_presets ''*/0 * * * *'' = None" by (simp add: cron_presets_def preset_patterns_def)
  ultimately show "parse ''*/0 * * * *'' = None"
    unfolding parse_def by (subst parse_with.simps) simp
qed

theorem cron_parse_ends_witness: "\<exists>r. parse ''*/2 * * * *'' = Some r"
proof -
  have "\<not> zero_step ''*/2 * * * *''" by code_simp
  then show ?thesis using cron_parse_ends [of "''*/2 * * * *''"] by blast
qed

text \<open>
  C39: However the methods of a job are called, its timers fire and its promises settle, in any order: after
  a step that threw nothing, an enabled job that is not running has exactly one timer pending, the one it
  would clear, and any other job has none. A step throws only when \<open>next\<close> finds no solution for the
  schedule, and then no timer is pending.
\<close>

theorem job_one_timer:
  assumes "job_reachable next_run e j"
  shows "(if jb_isEnabled j \<and> \<not> jb_isRunning j \<and> e = None
      then \<exists>t kind. jb_pending j = [(t, kind)] \<and> jb_timeout j = Some t else jb_pending j = [])
    \<and> (e \<noteq> None \<longrightarrow> (\<exists>now. next_run now = None))"
  using job_reachable_inv [OF assms] job_reachable_throws [OF assms] by (auto simp: job_inv_def)

theorem job_one_timer_witness:
  "(let j = snd (job_call (\<lambda>t. Some (t + 60000)) (CallStart 0) new_job)
    in jb_isEnabled j \<and> \<not> jb_isRunning j \<and> (\<exists>t kind. jb_pending j = [(t, kind)] \<and> jb_timeout j = Some t))"
proof -
  let ?next = "\<lambda>t. Some (t + 60000)" and ?j = "snd (job_call (\<lambda>t. Some (t + 60000)) (CallStart 0) new_job)"
  have idle: "jb_isEnabled ?j" "\<not> jb_isRunning ?j" by code_simp+
  have "job_call ?next (CallStart 0) new_job = (None, ?j)" by code_simp
  then show ?thesis
    using job_one_timer [OF reach_step [OF reach_new step_call], of ?next "CallStart 0" None ?j] idle
    by (simp add: Let_def)
qed

section \<open>The audit log\<close>

text \<open>
  C10: The chain is tamper-evident, except under the keys \<open>id\<close>: if two databases both pass the integrity
  check between the same two ids, they have the same number of records between them, in the same order, and
  each pair of records has the same event, time, previous id, subject and data once the keys \<open>id\<close> are
  dropped from their objects, at every depth, as \<open>createHash\<close> does; unless two of their records that
  differ by more than that have the same hash. A change of the data under a key \<open>id\<close> is not detected
  (lemma \<open>forged_id_accepted\<close>).
\<close>

theorem audit_tamper_evident:
  assumes "collision_free hash (ran (db_records db) \<union> ran (db_records db'))"
    and "checkIntegrity hash db oldest newest = Some (Inr n)"
    and "checkIntegrity hash db' oldest newest = Some (Inr m)"
  shows "n = m \<and> (\<exists>ks. length ks = n \<and> linked db ks newest oldest \<and> linked db' ks newest oldest \<and>
    (\<forall>k \<in> set ks. map_option (\<lambda>r. excludeKeys (ar_content r)) (db_get db k) =
       map_option (\<lambda>r. excludeKeys (ar_content r)) (db_get db' k)))"
proof -
  obtain ks where ks: "linked db ks newest oldest" "\<forall>k \<in> set ks. valid_at hash db k" "n = length ks"
    using checkIntegrity_check [OF assms(2)] by (auto simp: check_iff)
  obtain ks' where ks': "linked db' ks' newest oldest" "\<forall>k \<in> set ks'. valid_at hash db' k" "m = length ks'"
    using checkIntegrity_check [OF assms(3)] by (auto simp: check_iff)
  show ?thesis using same_chain [OF assms(1) ks(1,2) ks'(1,2)] ks ks' by (auto simp: protected_at_def)
qed

lemma toy_records: "ran (db_records (toy_log [''a''])) \<union> ran (db_records toy_forged) \<subseteq>
    {r. excludeKeys (ar_content r) = \<lparr>ar_data = JObject fmempty, ar_event = ''a'', ar_subject = JNull, ar_time = 0,
       ar_previousId = NULL_ID\<rparr>}"
  by (auto simp: toy_forged_def toy_log_def ran_def audit_add_def addUnsafe_def setLastId_def db_put_def empty_db_def
      last_of_def excludeKeys_def Let_def split: if_splits intro!: fmap_ext)

theorem audit_tamper_evident_witness:
  "(1 :: nat) = 1 \<and> (\<exists>ks. length ks = 1 \<and> linked (toy_log [''a'']) ks (last_of (toy_log [''a''])) NULL_ID \<and>
    linked toy_forged ks (last_of (toy_log [''a''])) NULL_ID \<and>
    (\<forall>k \<in> set ks. map_option (\<lambda>r. excludeKeys (ar_content r)) (db_get (toy_log [''a'']) k) =
       map_option (\<lambda>r. excludeKeys (ar_content r)) (db_get toy_forged k)))"
proof (rule audit_tamper_evident)
  show "collision_free toy_hash (ran (db_records (toy_log [''a''])) \<union> ran (db_records toy_forged))"
    using toy_records unfolding collision_free_def subset_iff mem_Collect_eq by metis
qed (rule forged_id_accepted)+

text \<open>
  C36: A log that was only ever added to, without a hash collision, passes the integrity check from its
  last record to the start, and the check counts every record that was added.
\<close>

theorem audit_log_verifies:
  assumes "audit_log hash db n" and "0 < n"
  shows "checkIntegrity hash db NULL_ID (last_of db) = Some (Inr n)"
proof -
  obtain ks where "log_ok hash db ks" "length ks = n" using log_ok_ex [OF assms(1)] by blast
  then show ?thesis using log_check [of hash db ks] assms(2) by auto
qed

lemma toy_audit_log: "audit_log toy_hash (toy_log [''a'']) (Suc 0)"
proof -
  let ?add = "audit_add toy_hash 0 JNull ''a'' (JObject (fmap_of_list [(''id'', JString ''vm1'')])) empty_db"
  have "?add = (fst ?add, toy_log [''a''])" by (simp add: toy_log_def)
  then show ?thesis by (rule log_add [OF log_empty]) (simp add: db_get_def empty_db_def)
qed

theorem audit_log_verifies_witness:
  "checkIntegrity toy_hash (toy_log [''a'']) NULL_ID (last_of (toy_log [''a''])) = Some (Inr (Suc 0))"
  by (rule audit_log_verifies [OF toy_audit_log]) simp

text \<open>
  A record that is missing or altered is reported, with its id and the number of records checked
  before it, when the records that follow it in time are intact.
\<close>

theorem audit_reports:
  assumes "linked db (pre @ k # post) newest oldest" and "\<forall>x \<in> set pre. valid_at hash db x"
    and "\<forall>x \<in> set pre. db_get db' x = db_get db x" and "db_lastId db' = Some newest"
    and "\<not> valid_at hash db' k"
  shows "checkIntegrity hash db' oldest newest = Some (Inl (case db_get db' k of
      None \<Rightarrow> MissingRecord k (length pre) | Some r \<Rightarrow> AlteredRecord k (length pre) r))"
proof -
  have *: "check_chain_from hash db' oldest newest 0 = check_chain_from hash db' oldest k (length pre)" "k \<noteq> oldest"
    using check_prefix [OF assms(1-3), of 0] by simp_all
  show ?thesis using assms(4,5) *(2)
    unfolding checkIntegrity_def *(1)
    by (subst check_chain_from.simps) (auto simp: checkIntegrity_def *(1) valid_at_def split: option.splits)
qed

theorem audit_reports_witness:
  "checkIntegrity toy_hash ((toy_log [''a''])\<lparr>db_records := Map.empty\<rparr>) NULL_ID (last_of (toy_log [''a''])) =
    Some (Inl (case db_get ((toy_log [''a''])\<lparr>db_records := Map.empty\<rparr>) (last_of (toy_log [''a''])) of
      None \<Rightarrow> MissingRecord (last_of (toy_log [''a''])) (length ([] :: string list))
    | Some r \<Rightarrow> AlteredRecord (last_of (toy_log [''a''])) (length ([] :: string list)) r))"
proof (rule audit_reports)
  show "linked (toy_log [''a'']) ([] @ last_of (toy_log [''a'']) # []) (last_of (toy_log [''a''])) NULL_ID"
    by code_simp
  show "db_lastId ((toy_log [''a''])\<lparr>db_records := Map.empty\<rparr>) = Some (last_of (toy_log [''a'']))"
    by code_simp
qed (simp_all add: valid_at_def db_get_def)

text \<open>
  C37: The export of a log, imported into an empty database, gives the same database, with no record
  reported as invalid or missing.
\<close>

theorem audit_export_import:
  assumes "audit_log hash db n" and "0 < n"
  shows "\<exists>rs. exportRecords db = Some rs \<and> length rs = n \<and>
    (\<exists>lastLogId. importRecords hash rs empty_db = (Inr (lastLogId, 0, 0), db))"
proof -
  obtain ks where ks: "log_ok hash db ks" "length ks = n" using log_ok_ex [OF assms(1)] by blast
  then have "ks \<noteq> []" using assms(2) by auto
  from export_import [OF ks(1) this] ks(2) show ?thesis by fastforce
qed

theorem audit_export_import_witness:
  "\<exists>rs. exportRecords (toy_log [''a'']) = Some rs \<and> length rs = Suc 0 \<and>
    (\<exists>lastLogId. importRecords toy_hash rs empty_db = (Inr (lastLogId, 0, 0), toy_log [''a'']))"
  by (rule audit_export_import [OF toy_audit_log]) simp

text \<open>
  Deleting a range of records and rewriting the later ones puts them back in the opposite order: of
  the events a, b, c, d, without b, the log then reads, from the newest, c, d, a.
\<close>

theorem audit_rewrite_reverses:
  "map_option (map_sum id log_events)
     (deleteRangeAndRewrite toy_hash (the (db_lastId (toy_log [''a'', ''b'']))) (the (db_lastId (toy_log [''a'', ''b''])))
       (toy_log [''a'', ''b'', ''c'', ''d''])) = Some (Inr (Some [''c'', ''d'', ''a'']))"
  by (rule toy_rewrite)

end
