(* ===== verification/Async_Each.thy ===== *)
theory Async_Each
  imports Prelude
begin

text \<open>
  \<open>@vates/async-each/index.js\<close>: calling a function on every item of an iterable with a bounded number
  of calls in progress.

  The code between two turns of the event loop is a function on the state; the interleavings are the
  relation \<open>each_step\<close>. The iterable is the list of what its \<open>next\<close> does: \<open>Inr x\<close> yields \<open>x\<close>, \<open>Inl e\<close>
  rejects. \<open>running\<close> is an integer since nothing in the code keeps it from going below zero.
\<close>

section \<open>State\<close>

datatype 'e settlement = Resolved | Rejected 'e | RejectedAll "'e list"

text \<open>What a call of \<open>iteratee\<close> does at once: return a value, throw, or return a promise.\<close>

datatype 'e call_result = Returned | Threw 'e | Pending

record each_options =
  eo_concurrency :: nat
  eo_stopOnError :: bool

record ('a, 'e) each =
  ae_it :: "('e + 'a) list"
  ae_running :: int
  ae_index :: nat
  ae_errors :: "'e list"
  ae_nextIsRunning :: bool
  ae_finished :: bool
  ae_settled :: "'e settlement option"
  ae_listening :: bool
  ae_calls :: "('a \<times> nat) list"
  ae_pending :: "nat set"

text \<open>
  \<open>ae_finished\<close>: \<open>next\<close> has been replaced by the function that only settles the promise. \<open>ae_listening\<close>:
  the abort listener is attached. \<open>ae_calls\<close> are the calls of \<open>iteratee\<close>, with their index, and
  \<open>ae_pending\<close> those whose promise is pending.
\<close>

definition below_concurrency :: "each_options \<Rightarrow> int \<Rightarrow> bool" where
  "below_concurrency o' running \<longleftrightarrow> eo_concurrency o' = 0 \<or> running < int (eo_concurrency o')"

section \<open>Operations\<close>

text \<open>
  \<open>resolve\<close> and \<open>reject\<close> settle the promise, the first time only, and clean: the handlers are then
  \<open>noop\<close> and the listener is removed.
\<close>

definition settle :: "'e settlement \<Rightarrow> ('a, 'e) each \<Rightarrow> ('a, 'e) each" where
  "settle v s = s\<lparr>ae_settled := (case ae_settled s of None \<Rightarrow> Some v | w \<Rightarrow> w), ae_listening := False\<rparr>"

text \<open>
  \<open>next\<close> up to its first \<open>await\<close>: \<open>ae_nextIsRunning\<close> stays set while it waits for the iterator.
\<close>

definition each_next :: "each_options \<Rightarrow> ('a, 'e) each \<Rightarrow> ('a, 'e) each" where
  "each_next o' s =
     (if ae_finished s then
        (if ae_running s = 0
         then settle (if ae_errors s = [] then Resolved else RejectedAll (ae_errors s)) s else s)
      else if ae_nextIsRunning s then s
      else s\<lparr>ae_nextIsRunning := below_concurrency o' (ae_running s)\<rparr>)"

definition onFulfilled :: "each_options \<Rightarrow> ('a, 'e) each \<Rightarrow> ('a, 'e) each" where
  "onFulfilled o' s =
     (if ae_settled s \<noteq> None then s else each_next o' (s\<lparr>ae_running := ae_running s - 1\<rparr>))"

definition onRejected :: "each_options \<Rightarrow> 'e \<Rightarrow> ('a, 'e) each \<Rightarrow> ('a, 'e) each" where
  "onRejected o' e s =
     (if ae_settled s \<noteq> None then s
      else if eo_stopOnError o' then settle (Rejected e) s
      else each_next o' (s\<lparr>ae_running := ae_running s - 1, ae_errors := ae_errors s @ [e]\<rparr>))"

text \<open>\<open>next\<close> from its \<open>await\<close> on, with what the call of \<open>iteratee\<close> does, when there is one.\<close>

definition each_call :: "each_options \<Rightarrow> 'e call_result \<Rightarrow> 'a \<Rightarrow> ('a, 'e) each \<Rightarrow> ('a, 'e) each" where
  "each_call o' r x s =
     (let i = ae_index s;
          s = s\<lparr>ae_running := ae_running s + 1, ae_index := i + 1, ae_calls := ae_calls s @ [(x, i)]\<rparr>
      in case r of
           Returned \<Rightarrow> onFulfilled o' s
         | Threw e \<Rightarrow> onRejected o' e s
         | Pending \<Rightarrow> s\<lparr>ae_pending := insert i (ae_pending s)\<rparr>)"

definition each_resume :: "each_options \<Rightarrow> 'e call_result \<Rightarrow> ('a, 'e) each \<Rightarrow> ('a, 'e) each" where
  "each_resume o' r s =
     each_next o' ((case ae_it s of
         [] \<Rightarrow> s\<lparr>ae_finished := True\<rparr>
       | Inl e # it \<Rightarrow> onRejected o' e (s\<lparr>ae_it := it\<rparr>)
       | Inr x # it \<Rightarrow> each_call o' r x (s\<lparr>ae_it := it\<rparr>))\<lparr>ae_nextIsRunning := False\<rparr>)"

definition asyncEach :: "each_options \<Rightarrow> bool \<Rightarrow> ('e + 'a) list \<Rightarrow> ('a, 'e) each" where
  "asyncEach o' signal it =
     each_next o' \<lparr>ae_it = it, ae_running = 0, ae_index = 0, ae_errors = [], ae_nextIsRunning = False,
       ae_finished = False, ae_settled = None, ae_listening = signal, ae_calls = [], ae_pending = {}\<rparr>"

text \<open>
  The listener of the abort signal, which fires at most once. \<open>resolve\<close> and \<open>reject\<close> remove it, which
  \<open>onRejected\<close> without \<open>stopOnError\<close> does not do.
\<close>

definition each_abort :: "each_options \<Rightarrow> 'e \<Rightarrow> ('a, 'e) each \<Rightarrow> ('a, 'e) each" where
  "each_abort o' aborted s =
     (if ae_listening s then onRejected o' aborted (s\<lparr>ae_listening := False\<rparr>) else s)"

section \<open>Interleavings\<close>

inductive each_step :: "each_options \<Rightarrow> ('a, 'e) each \<Rightarrow> ('a, 'e) each \<Rightarrow> bool" for o' where
  each_resumes: "ae_nextIsRunning s \<Longrightarrow> each_step o' s (each_resume o' r s)"
| each_fulfilled: "i \<in> ae_pending s \<Longrightarrow>
    each_step o' s (onFulfilled o' (s\<lparr>ae_pending := ae_pending s - {i}\<rparr>))"
| each_rejected: "i \<in> ae_pending s \<Longrightarrow>
    each_step o' s (onRejected o' e (s\<lparr>ae_pending := ae_pending s - {i}\<rparr>))"
| each_aborted: "ae_listening s \<Longrightarrow> each_step o' s (each_abort o' aborted s)"

inductive_cases each_stepE: "each_step o' s s'"

end
