(* ===== verification/Async_Each_Props.thy ===== *)
theory Async_Each_Props
  imports Async_Each
begin

text \<open>
  What \<open>asyncEach\<close> promises for an iterable that does not fail, without a signal or with \<open>stopOnError\<close>: the calls are made in order, once per
  item, never more at a time than the concurrency; the promise is always settled in the end, and, when
  no call fails, after every call has ended. Then two runs in which it does not keep its promises.
\<close>

section \<open>The invariant\<close>

text \<open>
  As long as the promise is not settled, \<open>running\<close> counts the pending calls; afterwards it may only be
  larger. \<open>xs\<close> are all the items. \<open>each_core\<close> holds within a turn, \<open>each_inv\<close> between two turns: something
  is always going on until the promise is settled.
\<close>

definition each_core :: "each_options \<Rightarrow> 'a list \<Rightarrow> ('a, 'e) each \<Rightarrow> bool" where
  "each_core o' xs s \<longleftrightarrow>
     finite (ae_pending s) \<and> (\<forall>i \<in> ae_pending s. i < ae_index s) \<and>
     ae_calls s = zip (take (ae_index s) xs) [0..<ae_index s] \<and> ae_index s \<le> length xs \<and>
     ae_it s = map Inr (drop (ae_index s) xs) \<and>
     int (card (ae_pending s)) \<le> ae_running s \<and>
     (eo_concurrency o' = 0 \<or> ae_running s \<le> int (eo_concurrency o')) \<and>
     (ae_nextIsRunning s \<longrightarrow> \<not> ae_finished s) \<and>
     (ae_finished s \<longrightarrow> ae_index s = length xs) \<and>
     (ae_listening s \<longrightarrow> eo_stopOnError o') \<and>
     (ae_settled s = None \<longrightarrow> int (card (ae_pending s)) = ae_running s \<and>
        (eo_stopOnError o' \<longrightarrow> ae_errors s = [])) \<and>
     (ae_settled s = Some Resolved \<longrightarrow> ae_errors s = [] \<and> ae_pending s = {} \<and> ae_finished s) \<and>
     (\<forall>es. ae_settled s = Some (RejectedAll es) \<longrightarrow>
        es = ae_errors s \<and> es \<noteq> [] \<and> ae_pending s = {} \<and> ae_finished s)"

definition each_inv :: "each_options \<Rightarrow> 'a list \<Rightarrow> ('a, 'e) each \<Rightarrow> bool" where
  "each_inv o' xs s \<longleftrightarrow> each_core o' xs s \<and>
     (ae_nextIsRunning s \<longrightarrow> below_concurrency o' (ae_running s)) \<and>
     (ae_settled s = None \<longrightarrow> ae_nextIsRunning s \<or> ae_running s \<noteq> 0)"

lemma each_invI_settled:
  "each_core o' xs s \<Longrightarrow> ae_settled s \<noteq> None \<Longrightarrow> (ae_nextIsRunning s \<Longrightarrow> below_concurrency o' (ae_running s)) \<Longrightarrow>
   each_inv o' xs s"
  by (auto simp: each_inv_def)

lemma core_settle:
  assumes core: "each_core o' xs s" and fin: "ae_finished s" and run: "ae_running s = 0"
  shows "each_core o' xs (settle (if ae_errors s = [] then Resolved else RejectedAll (ae_errors s)) s)"
proof -
  have "ae_pending s = {}" using core run by (auto simp: each_core_def)
  then show ?thesis using core fin by (auto simp: each_core_def settle_def split: option.splits)
qed

lemma next_inv:
  assumes core: "each_core o' xs s" and below: "ae_nextIsRunning s \<Longrightarrow> below_concurrency o' (ae_running s)"
  shows "each_inv o' xs (each_next o' s)"
proof (cases "ae_finished s")
  case True
  then have "\<not> ae_nextIsRunning s" using core by (simp add: each_core_def)
  then show ?thesis
    using True core core_settle [OF core True]
    by (auto simp: each_next_def each_inv_def settle_def split: option.splits)
next
  case False
  then show ?thesis
    using core below by (auto simp: each_next_def each_inv_def each_core_def below_concurrency_def
        split: option.splits)
qed

lemma next_running: "ae_nextIsRunning s \<Longrightarrow> \<not> ae_finished s \<Longrightarrow> each_next o' s = s"
  by (simp add: each_next_def)

lemma core_remove:
  assumes "each_core o' xs s" and "i \<in> ae_pending s"
  shows "each_core o' xs (s\<lparr>ae_pending := ae_pending s - {i}, ae_running := ae_running s - (if ae_settled s = None then 1 else 0)\<rparr>)"
proof -
  have "int (card (ae_pending s - {i})) = int (card (ae_pending s)) - 1"
    using assms card_Suc_Diff1 [of "ae_pending s" i] by (simp add: each_core_def)
  then show ?thesis using assms by (auto simp: each_core_def split: option.splits)
qed

lemma core_rejected:
  "each_core o' xs s \<Longrightarrow> ae_settled s = None \<Longrightarrow> each_core o' xs (settle (Rejected e) s)"
  by (auto simp: each_core_def settle_def)

lemma fulfilled_inv:
  assumes inv: "each_inv o' xs s" and i: "i \<in> ae_pending s"
  shows "each_inv o' xs (onFulfilled o' (s\<lparr>ae_pending := ae_pending s - {i}\<rparr>))"
proof (cases "ae_settled s")
  case None
  have "each_inv o' xs (each_next o' (s\<lparr>ae_pending := ae_pending s - {i}, ae_running := ae_running s - 1\<rparr>))"
    using core_remove [of o' xs s i] inv i None
    by (intro next_inv) (auto simp: each_inv_def below_concurrency_def)
  then show ?thesis using None by (simp add: onFulfilled_def)
next
  case (Some v)
  then show ?thesis using core_remove [of o' xs s i] inv i
    by (intro each_invI_settled) (simp_all add: onFulfilled_def each_inv_def)
qed

lemma rejected_inv:
  assumes inv: "each_inv o' xs s" and i: "i \<in> ae_pending s"
  shows "each_inv o' xs (onRejected o' e (s\<lparr>ae_pending := ae_pending s - {i}\<rparr>))"
proof (cases "ae_settled s")
  case None
  let ?s = "s\<lparr>ae_pending := ae_pending s - {i}, ae_running := ae_running s - 1\<rparr>"
  have core: "each_core o' xs ?s" using core_remove [of o' xs s i] inv i None by (simp add: each_inv_def)
  show ?thesis
  proof (cases "eo_stopOnError o'")
    case True
    have "each_core o' xs (settle (Rejected e) (s\<lparr>ae_pending := ae_pending s - {i}\<rparr>))"
      using core inv None by (auto simp: each_core_def each_inv_def settle_def)
    then show ?thesis using True None inv
      by (auto simp: onRejected_def settle_def each_inv_def)
  next
    case False
    then have "each_inv o' xs (each_next o' (?s\<lparr>ae_errors := ae_errors s @ [e]\<rparr>))"
      using core inv None by (intro next_inv) (auto simp: each_core_def each_inv_def below_concurrency_def)
    then show ?thesis using False None by (simp add: onRejected_def)
  qed
next
  case (Some v)
  then show ?thesis using core_remove [of o' xs s i] inv i
    by (intro each_invI_settled) (simp_all add: onRejected_def each_inv_def)
qed

lemma call_core:
  assumes inv: "each_inv o' xs s" and nx: "ae_nextIsRunning s" and it: "ae_it s = Inr x # it"
  shows "each_core o' xs ((each_call o' r x (s\<lparr>ae_it := it\<rparr>))\<lparr>ae_nextIsRunning := False\<rparr>)"
proof -
  let ?i = "ae_index s"
  have core: "each_core o' xs s" and below: "below_concurrency o' (ae_running s)" and fin: "\<not> ae_finished s"
    using inv nx by (auto simp: each_inv_def each_core_def)
  have rest: "map Inr (drop ?i xs) = Inr x # it" using core it by (simp add: each_core_def)
  have i: "?i < length xs" by (rule ccontr) (use rest in simp)
  have x: "x = xs ! ?i" "it = map Inr (drop (Suc ?i) xs)"
    using rest unfolding Cons_nth_drop_Suc [OF i, symmetric] by simp_all
  have calls: "zip (take (Suc ?i) xs) [0..<Suc ?i] = ae_calls s @ [(x, ?i)]"
    using core i x(1) by (simp add: each_core_def take_Suc_conv_app_nth)
  have fresh: "?i \<notin> ae_pending s" "finite (ae_pending s)" using core by (auto simp: each_core_def)
  have bound: "eo_concurrency o' = 0 \<or> ae_running s + 1 \<le> int (eo_concurrency o')"
    using below by (auto simp: below_concurrency_def)
  let ?called = "s\<lparr>ae_it := it, ae_index := Suc ?i, ae_calls := ae_calls s @ [(x, ?i)], ae_nextIsRunning := False\<rparr>"
  have called: "each_core o' xs ?called"
    using core i x(2) calls fin by (auto simp: each_core_def less_Suc_eq)
  then have running: "each_core o' xs (?called\<lparr>ae_running := ae_running s + 1\<rparr>)" if "ae_settled s \<noteq> None"
    using that bound by (auto simp: each_core_def)
  show ?thesis
  proof (cases r)
    case Returned
    then show ?thesis using called running nx fin
      by (cases "ae_settled s"; cases s) (simp_all add: each_call_def Let_def onFulfilled_def next_running)
  next
    case (Threw e)
    have "each_core o' xs (settle (Rejected e) (?called\<lparr>ae_running := ae_running s + 1\<rparr>))" if "ae_settled s = None"
      using called that bound by (auto simp: each_core_def settle_def)
    moreover have "each_core o' xs (?called\<lparr>ae_errors := ae_errors s @ [e]\<rparr>)"
      if "ae_settled s = None" "\<not> eo_stopOnError o'"
      using called that by (auto simp: each_core_def)
    ultimately show ?thesis using Threw running nx fin
      by (cases "ae_settled s"; cases "eo_stopOnError o'"; cases s)
        (simp_all add: each_call_def Let_def onRejected_def next_running settle_def)
  next
    case Pending
    have "each_core o' xs (?called\<lparr>ae_running := ae_running s + 1, ae_pending := insert ?i (ae_pending s)\<rparr>)"
      using called fresh bound fin by (simp add: each_core_def)
    then show ?thesis using Pending by (cases s) (simp add: each_call_def Let_def)
  qed
qed

lemma resume_inv:
  assumes inv: "each_inv o' xs s" and nx: "ae_nextIsRunning s"
  shows "each_inv o' xs (each_resume o' r s)"
proof (cases "ae_it s")
  case Nil
  then have "each_core o' xs (s\<lparr>ae_finished := True, ae_nextIsRunning := False\<rparr>)"
    using inv by (auto simp: each_inv_def each_core_def split: option.splits)
  then show ?thesis using Nil by (simp add: each_resume_def) (rule next_inv, simp_all)
next
  case (Cons y it)
  then obtain x where y: "y = Inr x" using inv by (auto simp: each_inv_def each_core_def)
  show ?thesis
    using call_core [OF inv nx, of x it r] Cons y by (simp add: each_resume_def) (rule next_inv, simp_all)
qed

lemma aborted_inv:
  assumes inv: "each_inv o' xs s" and "ae_listening s"
  shows "each_inv o' xs (each_abort o' e s)"
proof -
  have stop: "eo_stopOnError o'" using assms by (simp add: each_inv_def each_core_def)
  have "each_core o' xs (s\<lparr>ae_listening := False\<rparr>)" using inv by (simp add: each_inv_def each_core_def)
  then show ?thesis
    using inv stop \<open>ae_listening s\<close> core_rejected [of o' xs "s\<lparr>ae_listening := False\<rparr>" e]
    by (auto simp: each_abort_def onRejected_def settle_def each_inv_def)
qed

lemma start_inv: "\<not> signal \<or> eo_stopOnError o' \<Longrightarrow> each_inv o' xs (asyncEach o' signal (map Inr xs))"
  unfolding asyncEach_def by (rule next_inv) (auto simp: each_core_def)

lemma step_inv: "each_step o' s s' \<Longrightarrow> each_inv o' xs s \<Longrightarrow> each_inv o' xs s'"
  by (erule each_stepE) (auto intro: resume_inv fulfilled_inv rejected_inv aborted_inv)

interpretation each_kept: kept_by_steps "each_step o'" "each_inv o' xs"
  by unfold_locales (rule step_inv)

lemmas run_inv_each = each_kept.run

section \<open>Progress\<close>

text \<open>Every step decreases this: what is left to iterate, to await, to finish and to abort.\<close>

definition each_left :: "('a, 'e) each \<Rightarrow> nat" where
  "each_left s = 2 * length (ae_it s) + card (ae_pending s) + (if ae_finished s then 0 else 1) +
     (if ae_listening s then 1 else 0)"

lemma left_fields:
  "ae_it (each_next o' s) = ae_it s" "ae_pending (each_next o' s) = ae_pending s" "ae_finished (each_next o' s) = ae_finished s"
  "ae_it (onFulfilled o' s) = ae_it s" "ae_pending (onFulfilled o' s) = ae_pending s"
  "ae_finished (onFulfilled o' s) = ae_finished s"
  "ae_it (onRejected o' e s) = ae_it s" "ae_pending (onRejected o' e s) = ae_pending s"
  "ae_finished (onRejected o' e s) = ae_finished s"
  "ae_listening (each_next o' s) \<Longrightarrow> ae_listening s" "ae_listening (onFulfilled o' s) \<Longrightarrow> ae_listening s"
  "ae_listening (onRejected o' e s) \<Longrightarrow> ae_listening s"
  by (simp_all add: each_next_def onFulfilled_def onRejected_def settle_def split: if_splits)

lemma left_handlers:
  "each_left (each_next o' s) \<le> each_left s" "each_left (onFulfilled o' s) \<le> each_left s"
  "each_left (onRejected o' e s) \<le> each_left s"
  unfolding each_left_def left_fields(1-9) using left_fields(10-12) by (auto split: if_split)

lemma left_call:
  assumes "finite (ae_pending s)"
  shows "each_left (each_call o' r x s) \<le> Suc (each_left s)"
proof -
  let ?s = "s\<lparr>ae_running := ae_running s + 1, ae_index := Suc (ae_index s), ae_calls := ae_calls s @ [(x, ae_index s)]\<rparr>"
  have "each_left ?s = each_left s" by (simp add: each_left_def)
  moreover have "each_left (?s\<lparr>ae_pending := insert (ae_index s) (ae_pending ?s)\<rparr>) \<le> Suc (each_left s)"
    using assms by (simp add: each_left_def card_insert_if)
  ultimately show ?thesis
    using left_handlers(2) [of o' ?s] left_handlers(3) [of o' _ ?s]
    by (cases r) (simp_all add: each_call_def Let_def le_SucI)
qed

lemma left_flag: "each_left (s\<lparr>ae_nextIsRunning := b\<rparr>) = each_left s"
  by (simp add: each_left_def)

lemma left_pending:
  fixes s :: "('a, 'e) each"
  shows "each_left (s\<lparr>ae_pending := ps\<rparr>) + card (ae_pending s) = each_left s + card ps"
  by (simp add: each_left_def)

lemma left_resume:
  assumes inv: "each_inv o' xs s" and nx: "ae_nextIsRunning s"
  shows "each_left (each_resume o' r s) < each_left s"
proof -
  have fin: "finite (ae_pending s)" "\<not> ae_finished s" using assms by (auto simp: each_inv_def each_core_def)
  show ?thesis
  proof (cases "ae_it s")
    case Nil
    have "each_left (s\<lparr>ae_finished := True, ae_nextIsRunning := False\<rparr>) < each_left s"
      using fin by (simp add: each_left_def)
    then show ?thesis using Nil left_handlers(1) [of o' "s\<lparr>ae_finished := True, ae_nextIsRunning := False\<rparr>"]
      by (simp add: each_resume_def)
  next
    case (Cons y it)
    then obtain x where "y = Inr x" using inv by (auto simp: each_inv_def each_core_def)
    then have run: "each_resume o' r s =
        each_next o' ((each_call o' r x (s\<lparr>ae_it := it\<rparr>))\<lparr>ae_nextIsRunning := False\<rparr>)"
      using Cons by (simp add: each_resume_def)
    have "each_left (each_call o' r x (s\<lparr>ae_it := it\<rparr>)) \<le> Suc (each_left (s\<lparr>ae_it := it\<rparr>))"
      using fin by (intro left_call) simp
    moreover have "Suc (each_left (s\<lparr>ae_it := it\<rparr>)) < each_left s" using Cons by (simp add: each_left_def)
    ultimately show ?thesis
      unfolding run
      using left_handlers(1) [of o' "(each_call o' r x (s\<lparr>ae_it := it\<rparr>))\<lparr>ae_nextIsRunning := False\<rparr>"]
      by (simp add: left_flag)
  qed
qed

lemma step_left:
  assumes "each_step o' s s'" and "each_inv o' xs s"
  shows "each_left s' < each_left s"
  using assms(1)
proof cases
  case (each_resumes r)
  then show ?thesis using left_resume [OF assms(2)] by simp
next
  case (each_fulfilled i)
  then have "card (ae_pending s - {i}) < card (ae_pending s)"
    using assms(2) by (intro psubset_card_mono) (auto simp: each_inv_def each_core_def)
  then show ?thesis
    using each_fulfilled left_pending [of "ae_pending s - {i}" s] left_handlers(2) [of o' "s\<lparr>ae_pending := ae_pending s - {i}\<rparr>"]
    by simp
next
  case (each_rejected i e)
  then have "card (ae_pending s - {i}) < card (ae_pending s)"
    using assms(2) by (intro psubset_card_mono) (auto simp: each_inv_def each_core_def)
  then show ?thesis
    using each_rejected left_pending [of "ae_pending s - {i}" s] left_handlers(3) [of o' e "s\<lparr>ae_pending := ae_pending s - {i}\<rparr>"]
    by simp
next
  case (each_aborted e)
  then have "each_left (s\<lparr>ae_listening := False\<rparr>) < each_left s" by (simp add: each_left_def)
  then show ?thesis
    using each_aborted left_handlers(3) [of o' e "s\<lparr>ae_listening := False\<rparr>"] by (simp add: each_abort_def)
qed

lemma not_stuck:
  assumes "each_inv o' xs s" and "ae_settled s = None"
  shows "\<exists>s'. each_step o' s s'"
proof (cases "ae_nextIsRunning s")
  case True
  then show ?thesis using each_resumes by blast
next
  case False
  then have "ae_pending s \<noteq> {}" using assms by (auto simp: each_inv_def each_core_def)
  then show ?thesis using each_fulfilled by blast
qed

section \<open>What goes wrong\<close>

text \<open>An iterable that fails, without \<open>stopOnError\<close>: nothing is left to do and the promise is pending.\<close>

definition failing_each :: "(unit, string) each" where
  "failing_each = asyncEach \<lparr>eo_concurrency = 1, eo_stopOnError = False\<rparr> False [Inl ''failed'']"

lemmas each_eval = asyncEach_def each_next_def each_resume_def each_call_def onFulfilled_def onRejected_def settle_def
  each_abort_def below_concurrency_def Let_def

lemma failing_each_stuck:
  "\<exists>s. (each_step \<lparr>eo_concurrency = 1, eo_stopOnError = False\<rparr>)\<^sup>*\<^sup>* failing_each s \<and> ae_settled s = None \<and>
    ae_running s = -1 \<and> (\<nexists>s'. each_step \<lparr>eo_concurrency = 1, eo_stopOnError = False\<rparr> s s')"
proof -
  let ?o = "\<lparr>eo_concurrency = 1, eo_stopOnError = False\<rparr>"
  let ?s1 = "each_resume ?o Returned failing_each" and ?s2 = "each_resume ?o Returned (each_resume ?o Returned failing_each)"
  have "each_step ?o failing_each ?s1" by (rule each_resumes) (simp add: failing_each_def each_eval)
  moreover have "each_step ?o ?s1 ?s2" by (rule each_resumes) (simp add: failing_each_def each_eval)
  ultimately have "(each_step ?o)\<^sup>*\<^sup>* failing_each ?s2"
    by (meson rtranclp.rtrancl_into_rtrancl rtranclp.rtrancl_refl)
  moreover have "\<not> each_step ?o ?s2 s'" for s'
    by (rule notI, erule each_stepE) (simp_all add: failing_each_def each_eval)
  moreover have "ae_settled ?s2 = None \<and> ae_running ?s2 = -1" by (simp add: failing_each_def each_eval)
  ultimately show ?thesis by blast
qed

text \<open>Two items and two calls at a time: the first call throws, and the second item is still processed.\<close>

definition throwing_each :: "(nat, string) each" where
  "throwing_each = asyncEach \<lparr>eo_concurrency = 2, eo_stopOnError = True\<rparr> False [Inr 10, Inr 20]"

lemma throwing_each_goes_on:
  "\<exists>s s'. (each_step \<lparr>eo_concurrency = 2, eo_stopOnError = True\<rparr>)\<^sup>*\<^sup>* throwing_each s \<and>
    ae_settled s = Some (Rejected ''failed'') \<and> ae_calls s = [(10, 0)] \<and>
    each_step \<lparr>eo_concurrency = 2, eo_stopOnError = True\<rparr> s s' \<and> ae_calls s' = [(10, 0), (20, 1)]"
proof -
  let ?o = "\<lparr>eo_concurrency = 2, eo_stopOnError = True\<rparr>"
  let ?s1 = "each_resume ?o (Threw ''failed'') throwing_each"
  let ?s2 = "each_resume ?o Returned ?s1"
  have "each_step ?o throwing_each ?s1" by (rule each_resumes) (simp add: throwing_each_def each_eval)
  moreover have "each_step ?o ?s1 ?s2" by (rule each_resumes) (simp add: throwing_each_def each_eval)
  moreover have "ae_settled ?s1 = Some (Rejected ''failed'') \<and> ae_calls ?s1 = [(10, 0)]"
    "ae_calls ?s2 = [(10, 0), (20, 1)]" by (simp_all add: throwing_each_def each_eval)
  ultimately show ?thesis by blast
qed

text \<open>
  The signal aborts without \<open>stopOnError\<close>: the listener counts down a call that has not ended. With a
  concurrency of 1 and a call pending, a second call starts; and without any item, \<open>running\<close> goes below
  zero and the promise is never settled.
\<close>

definition aborted_each :: "nat list \<Rightarrow> (nat, string) each" where
  "aborted_each xs = asyncEach \<lparr>eo_concurrency = 1, eo_stopOnError = False\<rparr> True (map Inr xs)"

lemma aborted_each_exceeds:
  "\<exists>s. (each_step \<lparr>eo_concurrency = 1, eo_stopOnError = False\<rparr>)\<^sup>*\<^sup>* (aborted_each [10, 20]) s \<and> card (ae_pending s) = 2"
proof -
  let ?o = "\<lparr>eo_concurrency = 1, eo_stopOnError = False\<rparr>"
  let ?s1 = "each_resume ?o Pending (aborted_each [10, 20])"
  let ?s2 = "each_abort ?o ''aborted'' ?s1"
  let ?s3 = "each_resume ?o Pending ?s2"
  have "each_step ?o (aborted_each [10, 20]) ?s1" by (rule each_resumes) (simp add: aborted_each_def each_eval)
  moreover have "each_step ?o ?s1 ?s2" by (rule each_aborted) (simp add: aborted_each_def each_eval)
  moreover have "each_step ?o ?s2 ?s3" by (rule each_resumes) (simp add: aborted_each_def each_eval)
  ultimately have "(each_step ?o)\<^sup>*\<^sup>* (aborted_each [10, 20]) ?s3"
    by (meson rtranclp.rtrancl_into_rtrancl rtranclp.rtrancl_refl)
  moreover have "card (ae_pending ?s3) = 2" by (simp add: aborted_each_def each_eval)
  ultimately show ?thesis by blast
qed

lemma aborted_each_stuck:
  "\<exists>s. (each_step \<lparr>eo_concurrency = 1, eo_stopOnError = False\<rparr>)\<^sup>*\<^sup>* (aborted_each []) s \<and> ae_settled s = None \<and>
    ae_running s = -1 \<and> (\<nexists>s'. each_step \<lparr>eo_concurrency = 1, eo_stopOnError = False\<rparr> s s')"
proof -
  let ?o = "\<lparr>eo_concurrency = 1, eo_stopOnError = False\<rparr>"
  let ?s1 = "each_abort ?o ''aborted'' (aborted_each [])" and ?s2 = "each_resume ?o Returned (each_abort ?o ''aborted'' (aborted_each []))"
  have "each_step ?o (aborted_each []) ?s1" by (rule each_aborted) (simp add: aborted_each_def each_eval)
  moreover have "each_step ?o ?s1 ?s2" by (rule each_resumes) (simp add: aborted_each_def each_eval)
  ultimately have "(each_step ?o)\<^sup>*\<^sup>* (aborted_each []) ?s2"
    by (meson rtranclp.rtrancl_into_rtrancl rtranclp.rtrancl_refl)
  moreover have "\<not> each_step ?o ?s2 s'" for s'
    by (rule notI, erule each_stepE) (simp_all add: aborted_each_def each_eval)
  moreover have "ae_settled ?s2 = None \<and> ae_running ?s2 = -1" by (simp add: aborted_each_def each_eval)
  ultimately show ?thesis by blast
qed

end
