(* ===== verification/Task.thy ===== *)
theory Task
  imports Prelude
begin

text \<open>
  \<open>@vates/task/index.js\<close>: tasks, which tell a listener of their progress, with the tasks created inside of
  them. A task is known by its number. The log holds what the functions \<open>_onProgress\<close> are given, with
  the function; time and random ids are left out. \<open>asyncStorage\<close> is the argument \<open>parent\<close> of the
  constructor: the task inside of which the caller runs. A method that throws may have changed the
  state before: the result is the error, if any, and the state.
\<close>

section \<open>State\<close>

datatype task_status = PENDING | SUCCESS | FAILURE

datatype progress = Noop | Listener nat | AlreadyEnded

datatype 'd task_event =
    EvStart 'd "nat option"
  | EvAbortionRequested 'd
  | EvEnd task_status 'd
  | EvInfo 'd
  | EvProperty 'd
  | EvWarning 'd

text \<open>
  \<open>tk_calls\<close> are the functions that \<open>runInside\<close> has called and that have not settled, with whether \<open>run\<close>
  called it; \<open>tk_results\<close> those of \<open>run\<close> that have returned, before \<open>run\<close> goes on. \<open>tk_children\<close> are the
  abort listeners that the constructors of the children add to the signal, after the task's own.
\<close>

record 'd task =
  tk_startData :: "('d \<times> nat option) option"
  tk_status :: task_status
  tk_running :: bool
  tk_onProgress :: progress
  tk_aborted :: "'d option"
  tk_children :: "nat list"
  tk_calls :: "bool list"
  tk_results :: "'d list"

record 'd tasks =
  tw_task :: "nat \<Rightarrow> 'd task option"
  tw_next :: nat
  tw_log :: "(progress \<times> nat \<times> 'd task_event) list"

type_synonym 'd task_result = "js_error option \<times> 'd tasks"

definition no_tasks :: "'d tasks" where
  "no_tasks = \<lparr>tw_task = Map.empty, tw_next = 0, tw_log = []\<rparr>"

definition task_update :: "nat \<Rightarrow> ('d task \<Rightarrow> 'd task) \<Rightarrow> 'd tasks \<Rightarrow> 'd tasks" where
  "task_update i f w =
     (case tw_task w i of None \<Rightarrow> w | Some t \<Rightarrow> w\<lparr>tw_task := (tw_task w)(i \<mapsto> f t)\<rparr>)"

text \<open>What a method does on its task; a number that is not a task is no caller of a method.\<close>

definition on_task :: "nat \<Rightarrow> ('d task \<Rightarrow> 'd tasks \<Rightarrow> 'd task_result) \<Rightarrow> 'd tasks \<Rightarrow> 'd task_result" where
  "on_task i f w = (case tw_task w i of None \<Rightarrow> (Some TypeError, w) | Some t \<Rightarrow> f t w)"

definition task_then :: "'d task_result \<Rightarrow> ('d tasks \<Rightarrow> 'd task_result) \<Rightarrow> 'd task_result" where
  "task_then r f = (case r of (None, w) \<Rightarrow> f w | (Some e, w) \<Rightarrow> (Some e, w))"

definition task_assert :: "bool \<Rightarrow> 'd tasks \<Rightarrow> 'd task_result" where
  "task_assert b w = (if b then None else Some AssertionError, w)"

section \<open>Methods\<close>

definition new_task :: "'d \<Rightarrow> nat option \<Rightarrow> nat option \<Rightarrow> 'd tasks \<Rightarrow> nat \<times> 'd tasks" where
  "new_task properties onProgress parent w =
     (let i = tw_next w;
          parentTask = (case parent of None \<Rightarrow> None | Some p \<Rightarrow> tw_task w p);
          inherits = onProgress = None \<and> parentTask \<noteq> None;
          progress = (case onProgress of
              Some l \<Rightarrow> Listener l
            | None \<Rightarrow> (case parentTask of None \<Rightarrow> Noop | Some t \<Rightarrow> tk_onProgress t));
          t = \<lparr>tk_startData = Some (properties, if inherits then parent else None), tk_status = PENDING,
               tk_running = False, tk_onProgress = progress, tk_aborted = None, tk_children = [],
               tk_calls = [], tk_results = []\<rparr>;
          w = (case parent of
                 Some p \<Rightarrow> if inherits
                           then task_update p (\<lambda>t. t\<lparr>tk_children := tk_children t @ [i]\<rparr>) w else w
               | None \<Rightarrow> w)
      in (i, w\<lparr>tw_task := (tw_task w)(i \<mapsto> t), tw_next := i + 1\<rparr>))"

definition task_emit :: "nat \<Rightarrow> 'd task_event \<Rightarrow> 'd tasks \<Rightarrow> 'd task_result" where
  "task_emit i ev = on_task i (\<lambda>t w.
     if tk_startData t \<noteq> None then (Some AssertionError, w)
     else if tk_onProgress t = AlreadyEnded then (Some (JsError ''task has already ended''), w)
     else (None, w\<lparr>tw_log := tw_log w @ [(tk_onProgress t, i, ev)]\<rparr>))"

definition task_end :: "nat \<Rightarrow> task_status \<Rightarrow> 'd \<Rightarrow> 'd tasks \<Rightarrow> 'd task_result" where
  "task_end i status result = on_task i (\<lambda>t w.
     task_then (task_assert (tk_status t = PENDING) w) (\<lambda>w.
     task_then (task_assert (\<not> tk_running t) w) (\<lambda>w.
     task_then (task_emit i (EvEnd status result) w) (\<lambda>w.
     (None, task_update i (\<lambda>t. t\<lparr>tk_onProgress := AlreadyEnded, tk_status := status\<rparr>) w)))))"

definition task_failure :: "nat \<Rightarrow> 'd \<Rightarrow> 'd tasks \<Rightarrow> 'd task_result" where
  "task_failure i e = task_end i FAILURE e"

definition task_success :: "nat \<Rightarrow> 'd \<Rightarrow> 'd tasks \<Rightarrow> 'd task_result" where
  "task_success i result = task_end i SUCCESS result"

definition task_start :: "nat \<Rightarrow> 'd tasks \<Rightarrow> 'd task_result" where
  "task_start i = on_task i (\<lambda>t w.
     case tk_startData t of
       None \<Rightarrow> (Some AssertionError, w)
     | Some (properties, parentId) \<Rightarrow>
         task_emit i (EvStart properties parentId) (task_update i (\<lambda>t. t\<lparr>tk_startData := None\<rparr>) w))"

definition task_maybeStart :: "nat \<Rightarrow> 'd tasks \<Rightarrow> 'd task_result" where
  "task_maybeStart i = on_task i (\<lambda>t w. if tk_startData t \<noteq> None then task_start i w else (None, w))"

definition task_info :: "nat \<Rightarrow> 'd \<Rightarrow> 'd tasks \<Rightarrow> 'd task_result" where
  "task_info i data = task_emit i (EvInfo data)"

definition task_set :: "nat \<Rightarrow> 'd \<Rightarrow> 'd tasks \<Rightarrow> 'd task_result" where
  "task_set i data = on_task i (\<lambda>t w.
     task_then (task_assert (tk_status t = PENDING) w) (task_emit i (EvProperty data)))"

definition task_warning :: "nat \<Rightarrow> 'd \<Rightarrow> 'd tasks \<Rightarrow> 'd task_result" where
  "task_warning i data = on_task i (\<lambda>t w.
     task_then (task_assert (tk_status t = PENDING) w) (task_emit i (EvWarning data)))"

text \<open>
  The abort listener of a task. An error thrown by a listener is reported and does not stop the others,
  so it is dropped.
\<close>

definition task_onAbort :: "nat \<Rightarrow> 'd \<Rightarrow> 'd tasks \<Rightarrow> 'd tasks" where
  "task_onAbort i reason w = snd (on_task i (\<lambda>t w.
     if tk_status t = PENDING then
       task_then (task_maybeStart i w) (\<lambda>w.
       task_then (task_emit i (EvAbortionRequested reason) w) (\<lambda>w.
       if \<not> tk_running t then task_end i FAILURE reason w else (None, w)))
     else (None, w)) w)"

text \<open>
  Aborting: nothing the second time; then the task's listener and those of its children, which abort in
  turn. The first argument bounds the depth of the recursion: children are created after their parent.
\<close>

fun task_abort :: "nat \<Rightarrow> nat \<Rightarrow> 'd \<Rightarrow> 'd tasks \<Rightarrow> 'd tasks" where
  "task_abort 0 i reason w = w"
| "task_abort (Suc n) i reason w =
     (case tw_task w i of
        None \<Rightarrow> w
      | Some t \<Rightarrow>
          if tk_aborted t \<noteq> None then w
          else fold (\<lambda>c. task_abort n c reason) (tk_children t)
                 (task_onAbort i reason (task_update i (\<lambda>t. t\<lparr>tk_aborted := Some reason\<rparr>) w)))"

definition abort_task :: "nat \<Rightarrow> 'd \<Rightarrow> 'd tasks \<Rightarrow> 'd tasks" where
  "abort_task i reason w = task_abort (tw_next w) i reason w"

text \<open>\<open>runInside\<close>, and \<open>run\<close> when \<open>ends\<close> is set: up to the call of the function.\<close>

definition task_run :: "bool \<Rightarrow> nat \<Rightarrow> 'd tasks \<Rightarrow> 'd task_result" where
  "task_run ends i = on_task i (\<lambda>t w.
     task_then (task_assert (tk_status t = PENDING) w) (\<lambda>w.
     task_then (task_assert (\<not> tk_running t) w) (\<lambda>w.
     task_then (task_maybeStart i (task_update i (\<lambda>t. t\<lparr>tk_running := True\<rparr>) w)) (\<lambda>w.
     (None, task_update i (\<lambda>t. t\<lparr>tk_calls := tk_calls t @ [ends]\<rparr>) w)))))"

text \<open>The function has returned \<open>result\<close>, or thrown it.\<close>

definition task_returned :: "nat \<Rightarrow> 'd \<Rightarrow> 'd tasks \<Rightarrow> 'd tasks" where
  "task_returned i result = task_update i (\<lambda>t.
     t\<lparr>tk_running := False, tk_calls := tl (tk_calls t),
       tk_results := (if hd (tk_calls t) then tk_results t @ [result] else tk_results t)\<rparr>)"

definition task_threw :: "nat \<Rightarrow> 'd \<Rightarrow> 'd tasks \<Rightarrow> 'd task_result" where
  "task_threw i result w =
     task_end i FAILURE result (task_update i (\<lambda>t. t\<lparr>tk_running := False, tk_calls := tl (tk_calls t)\<rparr>) w)"

text \<open>\<open>run\<close> goes on with a result.\<close>

definition task_ran :: "nat \<Rightarrow> 'd tasks \<Rightarrow> 'd task_result" where
  "task_ran i = on_task i (\<lambda>t w.
     let w = task_update i (\<lambda>t. t\<lparr>tk_results := tl (tk_results t)\<rparr>) w
     in if tk_status t = PENDING then task_end i SUCCESS (hd (tk_results t)) w else (None, w))"

section \<open>Runs\<close>

datatype 'd task_call =
    CallNew 'd "nat option" "nat option"
  | CallAbort nat 'd
  | CallFailure nat 'd
  | CallSuccess nat 'd
  | CallStartTask nat
  | CallInfo nat 'd
  | CallSet nat 'd
  | CallWarning nat 'd
  | CallRun bool nat

definition task_call :: "'d task_call \<Rightarrow> 'd tasks \<Rightarrow> 'd tasks" where
  "task_call c w =
     (case c of
        CallNew properties onProgress parent \<Rightarrow> snd (new_task properties onProgress parent w)
      | CallAbort i reason \<Rightarrow> abort_task i reason w
      | CallFailure i e \<Rightarrow> snd (task_failure i e w)
      | CallSuccess i result \<Rightarrow> snd (task_success i result w)
      | CallStartTask i \<Rightarrow> snd (task_start i w)
      | CallInfo i data \<Rightarrow> snd (task_info i data w)
      | CallSet i data \<Rightarrow> snd (task_set i data w)
      | CallWarning i data \<Rightarrow> snd (task_warning i data w)
      | CallRun ends i \<Rightarrow> snd (task_run ends i w))"

inductive task_step :: "'d tasks \<Rightarrow> 'd tasks \<Rightarrow> bool" where
  task_calls: "task_step w (task_call c w)"
| task_returns: "tw_task w i = Some t \<Longrightarrow> tk_calls t \<noteq> [] \<Longrightarrow> task_step w (task_returned i result w)"
| task_throws: "tw_task w i = Some t \<Longrightarrow> tk_calls t \<noteq> [] \<Longrightarrow> task_step w (snd (task_threw i result w))"
| task_resumes: "tw_task w i = Some t \<Longrightarrow> tk_results t \<noteq> [] \<Longrightarrow> task_step w (snd (task_ran i w))"

end
