(* ===== verification/Task_Props.thy ===== *)
theory Task_Props
  imports Task
begin

text \<open>
  What the listeners of the tasks can count on: the events of a task are one start, what it tells in
  between, and at most one end, which tells its final status. Aborting a task that is not running ends it;
  a running one is only asked to end.
\<close>

section \<open>The events of a task\<close>

definition events_of :: "nat \<Rightarrow> 'd tasks \<Rightarrow> 'd task_event list" where
  "events_of i w = map (snd \<circ> snd) (filter (\<lambda>(_, j, _). j = i) (tw_log w))"

fun log_rest :: "task_status \<Rightarrow> 'd task_event list \<Rightarrow> bool" where
  "log_rest st [] \<longleftrightarrow> st = PENDING"
| "log_rest st (EvStart _ _ # es) \<longleftrightarrow> False"
| "log_rest st (EvEnd s _ # es) \<longleftrightarrow> es = [] \<and> s = st \<and> st \<noteq> PENDING"
| "log_rest st (_ # es) \<longleftrightarrow> log_rest st es"

fun task_log :: "task_status \<Rightarrow> 'd task_event list \<Rightarrow> bool" where
  "task_log st [] \<longleftrightarrow> st = PENDING"
| "task_log st (EvStart _ _ # es) \<longleftrightarrow> log_rest st es"
| "task_log st (_ # es) \<longleftrightarrow> False"

definition between :: "'d task_event \<Rightarrow> bool" where
  "between ev \<longleftrightarrow> (case ev of EvStart _ _ \<Rightarrow> False | EvEnd _ _ \<Rightarrow> False | _ \<Rightarrow> True)"

lemma log_rest_between: "log_rest PENDING es \<Longrightarrow> between ev \<Longrightarrow> log_rest PENDING (es @ [ev])"
  by (induction PENDING es rule: log_rest.induct) (auto simp: between_def split: task_event.splits)

lemma log_rest_end: "log_rest PENDING es \<Longrightarrow> st \<noteq> PENDING \<Longrightarrow> log_rest st (es @ [EvEnd st r])"
  by (induction PENDING es rule: log_rest.induct) auto

lemma task_log_between: "task_log PENDING es \<Longrightarrow> es \<noteq> [] \<Longrightarrow> between ev \<Longrightarrow> task_log PENDING (es @ [ev])"
  by (cases "(PENDING, es)" rule: task_log.cases) (auto intro: log_rest_between)

lemma task_log_end: "task_log PENDING es \<Longrightarrow> es \<noteq> [] \<Longrightarrow> st \<noteq> PENDING \<Longrightarrow> task_log st (es @ [EvEnd st r])"
  by (cases "(PENDING, es)" rule: task_log.cases) (auto intro: log_rest_end)

section \<open>The invariant\<close>

definition task_ok :: "nat \<Rightarrow> nat \<Rightarrow> 'd task \<Rightarrow> 'd task_event list \<Rightarrow> bool" where
  "task_ok n i t es \<longleftrightarrow>
     (tk_startData t \<noteq> None \<longrightarrow> es = [] \<and> tk_status t = PENDING) \<and>
     (tk_startData t = None \<longrightarrow> es = [] \<longrightarrow> tk_onProgress t = AlreadyEnded) \<and>
     task_log (tk_status t) es \<and>
     (tk_status t \<noteq> PENDING \<longrightarrow> tk_onProgress t = AlreadyEnded \<and> \<not> tk_running t) \<and>
     (tk_calls t \<noteq> [] \<longrightarrow> tk_running t \<and> length (tk_calls t) = 1) \<and>
     (\<forall>c \<in> set (tk_children t). i < c \<and> c < n)"

definition tasks_inv :: "'d tasks \<Rightarrow> bool" where
  "tasks_inv w \<longleftrightarrow>
     (\<forall>i t. tw_task w i = Some t \<longrightarrow> i < tw_next w \<and> task_ok (tw_next w) i t (events_of i w)) \<and>
     (\<forall>i. tw_next w \<le> i \<longrightarrow> events_of i w = [])"

lemma tasks_invD: "tasks_inv w \<Longrightarrow> tw_task w i = Some t \<Longrightarrow> task_ok (tw_next w) i t (events_of i w)"
  by (simp add: tasks_inv_def)

lemma events_append: "events_of i (w\<lparr>tw_log := tw_log w @ [(p, j, ev)]\<rparr>) = events_of i w @ (if i = j then [ev] else [])"
  by (auto simp: events_of_def)

lemma events_update: "events_of i (task_update j f w) = events_of i w"
  by (simp add: events_of_def task_update_def split: option.split)

lemma update_fields:
  "tw_next (task_update i f w) = tw_next w" "tw_log (task_update i f w) = tw_log w"
  "tw_task (task_update i f w) j = (if j = i then map_option f (tw_task w i) else tw_task w j)"
  by (auto simp: task_update_def split: option.split)

lemma update_tasks_inv:
  assumes "tasks_inv w"
    and "\<And>t. tw_task w i = Some t \<Longrightarrow> task_ok (tw_next w) i t (events_of i w) \<Longrightarrow> task_ok (tw_next w) i (f t) (events_of i w)"
  shows "tasks_inv (task_update i f w)"
  using assms by (auto simp: tasks_inv_def update_fields events_update split: if_splits)

text \<open>An event is logged and its task is updated.\<close>

lemma logged_inv:
  assumes "tasks_inv w" and "tw_task w i = Some t" and "task_ok (tw_next w) i (f t) (events_of i w @ [ev])"
  shows "tasks_inv (task_update i f (w\<lparr>tw_log := tw_log w @ [(p, i, ev)]\<rparr>))"
proof -
  have "task_update i f (w\<lparr>tw_log := tw_log w @ [(p, i, ev)]\<rparr>) = w\<lparr>tw_log := tw_log w @ [(p, i, ev)], tw_task := (tw_task w)(i \<mapsto> f t)\<rparr>"
    using assms(2) by (simp add: task_update_def)
  moreover have "events_of j (w\<lparr>tw_log := tw_log w @ [(p, i, ev)], tw_task := (tw_task w)(i \<mapsto> f t)\<rparr>) =
      events_of j w @ (if j = i then [ev] else [])" for j
    by (auto simp: events_of_def)
  moreover have "\<not> tw_next w \<le> i" using assms(1,2) by (simp add: tasks_inv_def not_le)
  ultimately show ?thesis using assms by (auto simp: tasks_inv_def)
qed

lemma update_same: "tw_task w i = Some t \<Longrightarrow> f t = t \<Longrightarrow> task_update i f w = w"
  by (simp add: task_update_def map_upd_triv)

lemma emit_inv:
  assumes inv: "tasks_inv w" and ev: "between ev"
  shows "tasks_inv (snd (task_emit i ev w))"
proof (cases "tw_task w i")
  case (Some t)
  let ?w = "w\<lparr>tw_log := tw_log w @ [(tk_onProgress t, i, ev)]\<rparr>"
  show ?thesis
  proof (cases "tk_startData t \<noteq> None \<or> tk_onProgress t = AlreadyEnded")
    case False
    have ok: "task_ok (tw_next w) i t (events_of i w)" by (rule tasks_invD [OF inv Some])
    then have "tk_status t = PENDING" "events_of i w \<noteq> []" using False by (auto simp: task_ok_def)
    then have "task_ok (tw_next w) i (id t) (events_of i w @ [ev])"
      using ok False task_log_between [OF _ _ ev] by (auto simp: task_ok_def)
    from logged_inv [of w i t id ev "tk_onProgress t", OF inv Some this] have "tasks_inv ?w"
      using Some by (simp add: update_same [of ?w i t id])
    then show ?thesis using Some False by (simp add: task_emit_def on_task_def)
  qed (use inv Some in \<open>auto simp: task_emit_def on_task_def\<close>)
qed (simp add: task_emit_def on_task_def inv)

lemma end_inv:
  assumes inv: "tasks_inv w" and st: "status \<noteq> PENDING"
  shows "tasks_inv (snd (task_end i status r w))"
proof (cases "tw_task w i")
  case (Some t)
  let ?f = "\<lambda>t :: 'a task. t\<lparr>tk_onProgress := AlreadyEnded, tk_status := status\<rparr>"
  have ok: "task_ok (tw_next w) i t (events_of i w)" by (rule tasks_invD [OF inv Some])
  show ?thesis
  proof (cases "tk_status t = PENDING \<and> \<not> tk_running t \<and> tk_startData t = None \<and> tk_onProgress t \<noteq> AlreadyEnded")
    case True
    then have "task_ok (tw_next w) i (?f t) (events_of i w @ [EvEnd status r])"
      using ok task_log_end [OF _ _ st] by (auto simp: task_ok_def)
    from logged_inv [of w i t ?f, OF inv Some this] show ?thesis
      using True Some by (simp add: task_end_def on_task_def task_then_def task_assert_def task_emit_def)
  next
    case False
    then show ?thesis
      using inv Some by (auto simp: task_end_def on_task_def task_then_def task_assert_def task_emit_def)
  qed
qed (simp add: task_end_def on_task_def inv)

lemma start_inv_task: "tasks_inv w \<Longrightarrow> tasks_inv (snd (task_start i w))"
proof (cases "tw_task w i")
  case (Some t)
  assume inv: "tasks_inv w"
  let ?f = "\<lambda>t :: 'a task. t\<lparr>tk_startData := None\<rparr>"
  have ok: "task_ok (tw_next w) i t (events_of i w)" by (rule tasks_invD [OF inv Some])
  show ?thesis
  proof (cases "tk_startData t")
    case None
    then show ?thesis using inv Some by (simp add: task_start_def on_task_def)
  next
    case data: (Some d)
    obtain p q where d: "d = (p, q)" by fastforce
    have es: "events_of i w = []" "tk_status t = PENDING" using ok data by (auto simp: task_ok_def)
    show ?thesis
    proof (cases "tk_onProgress t = AlreadyEnded")
      case True
      then have "tasks_inv (task_update i ?f w)"
        using inv ok Some es by (intro update_tasks_inv) (auto simp: task_ok_def)
      then show ?thesis
        using True Some data d by (simp add: task_start_def on_task_def task_emit_def update_fields)
    next
      case False
      then have "task_ok (tw_next w) i (?f t) (events_of i w @ [EvStart p q])"
        using ok es by (auto simp: task_ok_def)
      from logged_inv [of w i t ?f, OF inv Some this, of "tk_onProgress t"] show ?thesis
        using False Some data d
        by (cases w) (simp add: task_start_def on_task_def task_emit_def update_fields task_update_def)
    qed
  qed
qed (simp add: task_start_def on_task_def)

lemma maybeStart_inv: "tasks_inv w \<Longrightarrow> tasks_inv (snd (task_maybeStart i w))"
  using start_inv_task [of w i] by (simp add: task_maybeStart_def on_task_def split: option.split)

lemma then_inv:
  assumes "tasks_inv (snd r)" and "\<And>w. fst r = None \<Longrightarrow> snd r = w \<Longrightarrow> tasks_inv (snd (f w))"
  shows "tasks_inv (snd (task_then r f))"
  using assms by (cases r) (auto simp: task_then_def split: option.split)

lemma assert_inv: "tasks_inv w \<Longrightarrow> tasks_inv (snd (task_assert b w))"
  by (simp add: task_assert_def)

lemma on_task_inv:
  assumes "tasks_inv w" and "\<And>t. tw_task w i = Some t \<Longrightarrow> tasks_inv (snd (f t w))"
  shows "tasks_inv (snd (on_task i f w))"
  using assms by (simp add: on_task_def split: option.split)

lemma checked_emit_inv: "tasks_inv w \<Longrightarrow> between ev \<Longrightarrow>
    tasks_inv (snd (on_task i (\<lambda>t w. task_then (task_assert (tk_status t = PENDING) w) (task_emit i ev)) w))"
  by (rule on_task_inv) (auto intro!: then_inv assert_inv emit_inv simp: task_assert_def)

lemma onAbort_inv: "tasks_inv w \<Longrightarrow> tasks_inv (task_onAbort i reason w)"
  unfolding task_onAbort_def
  by (rule on_task_inv) (auto intro!: then_inv emit_inv end_inv maybeStart_inv simp: between_def)

lemma fold_tasks_inv: "tasks_inv w \<Longrightarrow> (\<And>c w. c \<in> set cs \<Longrightarrow> tasks_inv w \<Longrightarrow> tasks_inv (f c w)) \<Longrightarrow> tasks_inv (fold f cs w)"
  by (induction cs arbitrary: w) auto

lemma abort_inv: "tasks_inv w \<Longrightarrow> tasks_inv (task_abort n i reason w)"
proof (induction n arbitrary: i w)
  case (Suc n)
  have "tasks_inv (task_update i (\<lambda>t. t\<lparr>tk_aborted := Some reason\<rparr>) w)"
    by (rule update_tasks_inv [OF Suc.prems]) (simp add: task_ok_def)
  from onAbort_inv [OF this] show ?case
    using Suc by (auto split: option.split intro!: fold_tasks_inv)
qed simp

lemma run_task_inv: "tasks_inv w \<Longrightarrow> tasks_inv (snd (task_run ends i w))"
  unfolding task_run_def
proof (intro on_task_inv then_inv assert_inv)
  fix t w1 w2 w3
  assume inv: "tasks_inv w" and t: "tw_task w i = Some t"
    and a1: "fst (task_assert (tk_status t = PENDING) w) = None" "snd (task_assert (tk_status t = PENDING) w) = w1"
    and a2: "fst (task_assert (\<not> tk_running t) w1) = None" "snd (task_assert (\<not> tk_running t) w1) = w2"
  have st: "tk_status t = PENDING" "\<not> tk_running t" and w: "w1 = w" "w2 = w"
    using a1 a2 by (auto simp: task_assert_def split: if_splits)
  let ?w = "task_update i (\<lambda>t. t\<lparr>tk_running := True\<rparr>) w"
  have inv': "tasks_inv ?w" using t st by (intro update_tasks_inv [OF inv]) (auto simp: task_ok_def)
  then show "tasks_inv (snd (task_maybeStart i (task_update i (\<lambda>t. t\<lparr>tk_running := True\<rparr>) w2)))"
    unfolding w by (rule maybeStart_inv)
  assume "snd (task_maybeStart i (task_update i (\<lambda>t. t\<lparr>tk_running := True\<rparr>) w2)) = w3"
  then have w3: "w3 = snd (task_maybeStart i ?w)" by (simp add: w)
  have "tasks_inv w3" unfolding w3 by (rule maybeStart_inv [OF inv'])
  moreover have "tk_running t' \<and> tk_calls t' = [] \<and> tk_status t' = PENDING" if "tw_task w3 i = Some t'" for t'
  proof -
    have "tk_calls t = []" using tasks_invD [OF inv t] st by (auto simp: task_ok_def)
    then show ?thesis using that t st
      by (auto simp: w3 task_maybeStart_def task_start_def task_emit_def on_task_def update_fields split: if_splits)
  qed
  ultimately show "tasks_inv (snd (None, task_update i (\<lambda>t. t\<lparr>tk_calls := tk_calls t @ [ends]\<rparr>) w3))"
    unfolding snd_conv by (intro update_tasks_inv) (auto simp: task_ok_def)
qed (auto simp: task_assert_def)

lemma new_task_inv: "tasks_inv w \<Longrightarrow> tasks_inv (snd (new_task properties onProgress parent w))"
proof -
  assume inv: "tasks_inv w"
  have fresh: "tw_task w (tw_next w) = None"
    using inv by (cases "tw_task w (tw_next w)") (auto simp: tasks_inv_def)
  have mono: "task_ok n i t es \<Longrightarrow> n \<le> m \<Longrightarrow> task_ok m i t es" for n m i t and es :: "'a task_event list"
    by (auto simp: task_ok_def)
  have add: "tasks_inv (w'\<lparr>tw_task := (tw_task w')(tw_next w \<mapsto> t), tw_next := Suc (tw_next w)\<rparr>)"
    if ok: "\<And>i u. tw_task w' i = Some u \<Longrightarrow> i < tw_next w \<and> task_ok (Suc (tw_next w)) i u (events_of i w)"
      and log: "tw_log w' = tw_log w"
      and t: "task_ok (Suc (tw_next w)) (tw_next w) t []" for w' t
  proof -
    have "events_of j (w'\<lparr>tw_task := (tw_task w')(tw_next w \<mapsto> t), tw_next := Suc (tw_next w)\<rparr>) = events_of j w" for j
      by (simp add: events_of_def log)
    then show ?thesis using inv t by (auto simp: tasks_inv_def dest: ok intro: less_SucI)
  qed
  have old: "i < tw_next w \<and> task_ok (Suc (tw_next w)) i u (events_of i w)" if "tw_task w i = Some u" for i u
    using inv that mono [of "tw_next w" i u "events_of i w" "Suc (tw_next w)"] by (simp add: tasks_inv_def)
  have child: "i < tw_next w \<and> task_ok (Suc (tw_next w)) i u (events_of i w)"
    if "tw_task (task_update p (\<lambda>t. t\<lparr>tk_children := tk_children t @ [tw_next w]\<rparr>) w) i = Some u" for i u p
    using that old [of i] by (auto simp: update_fields task_ok_def split: if_splits)
  show ?thesis
    unfolding new_task_def Let_def snd_conv Suc_eq_plus1 [symmetric] update_fields
    by (cases parent; simp add: update_fields; intro conjI impI add;
        (erule old [THEN conjunct1] old [THEN conjunct2, unfolded Suc_eq_plus1 [symmetric]]
           child [THEN conjunct1] child [THEN conjunct2, unfolded Suc_eq_plus1 [symmetric]]
         | simp add: task_ok_def update_fields))
qed

lemma calls_tl: "task_ok n i t es \<Longrightarrow> tl (tk_calls t) = []"
  by (cases "tk_calls t") (auto simp: task_ok_def)

lemma returned_inv: "tasks_inv w \<Longrightarrow> tasks_inv (task_returned i result w)"
  unfolding task_returned_def
  by (rule update_tasks_inv, assumption, frule calls_tl) (auto simp: task_ok_def)

lemma threw_inv: "tasks_inv w \<Longrightarrow> tasks_inv (snd (task_threw i result w))"
  unfolding task_threw_def
  by (rule end_inv, rule update_tasks_inv, assumption, frule calls_tl) (auto simp: task_ok_def)

lemma ran_inv: "tasks_inv w \<Longrightarrow> tasks_inv (snd (task_ran i w))"
  unfolding task_ran_def Let_def
  by (rule on_task_inv) (auto intro!: end_inv update_tasks_inv simp: task_ok_def)

lemma call_inv: "tasks_inv w \<Longrightarrow> tasks_inv (task_call c w)"
  by (cases c) (simp_all add: task_call_def task_failure_def task_success_def task_info_def task_set_def
      task_warning_def abort_task_def new_task_inv abort_inv end_inv start_inv_task emit_inv checked_emit_inv
      run_task_inv between_def)

theorem task_step_inv: "task_step w w' \<Longrightarrow> tasks_inv w \<Longrightarrow> tasks_inv w'"
  by (induction rule: task_step.induct) (simp_all add: call_inv returned_inv threw_inv ran_inv)

lemma no_tasks_inv: "tasks_inv no_tasks"
  by (simp add: tasks_inv_def no_tasks_def events_of_def)

interpretation tasks_kept: kept_by_steps task_step tasks_inv
  by unfold_locales (rule task_step_inv)

lemma tasks_reach_inv: "task_step\<^sup>*\<^sup>* no_tasks w \<Longrightarrow> tasks_inv w"
  by (rule tasks_kept.run [OF _ no_tasks_inv])

section \<open>Aborting\<close>

text \<open>A method of a task leaves every other task alone, and creates none.\<close>

definition only_task :: "nat \<Rightarrow> 'd tasks \<Rightarrow> 'd tasks \<Rightarrow> bool" where
  "only_task i w w' \<longleftrightarrow> tw_next w' = tw_next w \<and>
     (\<forall>j. j \<noteq> i \<longrightarrow> tw_task w' j = tw_task w j \<and> events_of j w' = events_of j w) \<and>
     (\<forall>t. tw_task w i = Some t \<longrightarrow> (\<exists>t'. tw_task w' i = Some t' \<and> tk_children t' = tk_children t))"

lemma only_refl: "only_task i w w"
  by (simp add: only_task_def)

lemma only_trans: "only_task i w w' \<Longrightarrow> only_task i w' w'' \<Longrightarrow> only_task i w w''"
  by (fastforce simp: only_task_def)

lemma only_update: "(\<And>t. tk_children (f t) = tk_children t) \<Longrightarrow> only_task i w (task_update i f w)"
  by (auto simp: only_task_def update_fields events_update)

lemma only_emit: "only_task i w (snd (task_emit i ev w))"
  by (auto simp: task_emit_def on_task_def only_task_def events_append split: option.split)

lemma only_then: "only_task i w (snd r) \<Longrightarrow> (\<And>w'. only_task i w w' \<Longrightarrow> only_task i w (snd (f w'))) \<Longrightarrow>
    only_task i w (snd (task_then r f))"
  by (cases r) (auto simp: task_then_def split: option.split)

lemma only_on_task: "(\<And>t. only_task i w (snd (f t w))) \<Longrightarrow> only_task i w (snd (on_task i f w))"
  by (simp add: on_task_def only_refl split: option.split)

lemma only_end: "only_task i w (snd (task_end i status r w))"
  unfolding task_end_def
  by (intro only_on_task only_then)
     (auto simp: task_assert_def only_refl intro: only_trans [OF _ only_emit] only_trans [OF _ only_update])

lemma only_maybeStart: "only_task i w (snd (task_maybeStart i w))"
  by (auto simp: task_maybeStart_def task_start_def on_task_def only_refl split: option.split
      intro: only_trans [OF only_update only_emit])

lemma only_onAbort: "only_task i w (task_onAbort i reason w)"
  unfolding task_onAbort_def
  by (rule only_on_task)
     (auto simp: only_refl intro!: only_then only_maybeStart
       intro: only_trans [OF _ only_emit] only_trans [OF _ only_end])

text \<open>Aborting a task leaves the older ones alone.\<close>

definition from_task :: "nat \<Rightarrow> 'd tasks \<Rightarrow> 'd tasks \<Rightarrow> bool" where
  "from_task i w w' \<longleftrightarrow> (\<forall>j < i. tw_task w' j = tw_task w j \<and> events_of j w' = events_of j w) \<and> tw_next w' = tw_next w"

lemma fold_abort_from:
  assumes "\<And>c w. c \<in> set cs \<Longrightarrow> tasks_inv w \<Longrightarrow> from_task c w (f c w) \<and> tasks_inv (f c w)"
    and "\<forall>c \<in> set cs. i < c" and "tasks_inv w"
  shows "from_task (Suc i) w (fold f cs w)"
  using assms
proof (induction cs arbitrary: w)
  case (Cons c cs)
  have "from_task (Suc i) (f c w) (fold f cs (f c w))"
    using Cons.prems by (intro Cons.IH) auto
  moreover have "from_task c w (f c w)" "i < c" using Cons.prems by auto
  ultimately show ?case by (simp add: from_task_def)
qed (simp add: from_task_def)

lemma abort_from: "tasks_inv w \<Longrightarrow> from_task i w (task_abort n i reason w)"
proof (induction n arbitrary: i w)
  case (Suc n)
  show ?case
  proof (cases "tw_task w i")
    case (Some t)
    let ?u = "task_update i (\<lambda>t. t\<lparr>tk_aborted := Some reason\<rparr>) w"
    let ?w = "task_onAbort i reason ?u"
    have inv: "tasks_inv ?w"
      by (intro onAbort_inv update_tasks_inv [OF Suc.prems]) (simp add: task_ok_def)
    have "from_task (Suc i) ?w (fold (\<lambda>c. task_abort n c reason) (tk_children t) ?w)"
      using tasks_invD [OF Suc.prems Some] Suc.IH
      by (intro fold_abort_from inv) (auto simp: task_ok_def abort_inv)
    moreover have "only_task i w ?w"
      by (rule only_trans [OF only_update only_onAbort]) simp
    ultimately have "from_task i w (fold (\<lambda>c. task_abort n c reason) (tk_children t) ?w)"
      by (simp add: from_task_def only_task_def)
    then show ?thesis using Some by (simp add: from_task_def)
  qed (simp add: from_task_def)
qed (simp add: from_task_def)

text \<open>What the task itself becomes.\<close>

lemma abort_self:
  assumes inv: "tasks_inv w" and t: "tw_task w i = Some t" and "tk_aborted t = None"
  shows "tw_task (abort_task i reason w) i = tw_task (task_onAbort i reason (task_update i (\<lambda>t. t\<lparr>tk_aborted := Some reason\<rparr>) w)) i \<and>
    events_of i (abort_task i reason w) = events_of i (task_onAbort i reason (task_update i (\<lambda>t. t\<lparr>tk_aborted := Some reason\<rparr>) w))"
proof -
  let ?w = "task_onAbort i reason (task_update i (\<lambda>t. t\<lparr>tk_aborted := Some reason\<rparr>) w)"
  have "i < tw_next w" using inv t by (auto simp: tasks_inv_def)
  then obtain n where n: "tw_next w = Suc n" by (cases "tw_next w") auto
  have "tasks_inv ?w"
    by (intro onAbort_inv update_tasks_inv [OF inv]) (simp add: task_ok_def)
  then have "from_task (Suc i) ?w (fold (\<lambda>c. task_abort n c reason) (tk_children t) ?w)"
    using tasks_invD [OF inv t] by (intro fold_abort_from) (auto simp: task_ok_def abort_from abort_inv)
  then show ?thesis using assms n by (simp add: abort_task_def from_task_def)
qed

end
