(* ===== verification/Complex_Matcher.thy ===== *)
theory Complex_Matcher
  imports Prelude
begin

text \<open>
  \<open>packages/complex-matcher/index.js\<close>: the search syntax of the application, with its syntax trees, what
  they match, how they are printed and how they are parsed.

  Characters are those of Latin-1, code points 0 to 255. Numbers, regular expressions and \<open>escapeRegExp\<close> of
  lodash are the parameter \<open>lib\<close>.
\<close>

section \<open>What the code uses of the language\<close>

datatype 'n jsval =
    JUndefined
  | JNull
  | JBool bool
  | JNumber "'n option"
  | JString string
  | JArray "'n jsval list"
  | JObject "(string \<times> 'n jsval) list"
  | JOther nat

text \<open>
  \<open>JNumber None\<close> is NaN; \<open>JObject\<close> is a plain object with its own properties, and \<open>JOther\<close> anything else.
  \<open>ml_toNumber\<close> is the unary \<open>+\<close> on strings, \<open>None\<close> being NaN, and \<open>ml_coerce\<close> on objects. \<open>ml_newRegExp\<close> is
  \<open>None\<close> where the constructor throws. \<open>ml_inherited\<close> is the access to a property that is not an own property
  of a plain object.
\<close>

record ('n, 'r) matcher_lib =
  ml_toNumber :: "string \<Rightarrow> 'n option"
  ml_toString :: "'n \<Rightarrow> string"
  ml_less :: "'n \<Rightarrow> 'n \<Rightarrow> bool"
  ml_isZero :: "'n \<Rightarrow> bool"
  ml_coerce :: "'n jsval \<Rightarrow> 'n option"
  ml_inherited :: "'n jsval \<Rightarrow> string \<Rightarrow> 'n jsval"
  ml_newRegExp :: "string \<Rightarrow> string \<Rightarrow> 'r option"
  ml_test :: "'r \<Rightarrow> string \<Rightarrow> bool"
  ml_source :: "'r \<Rightarrow> string"
  ml_flags :: "'r \<Rightarrow> string"
  ml_escapeRegExp :: "string \<Rightarrow> string"

definition js_get :: "('n, 'r) matcher_lib \<Rightarrow> 'n jsval \<Rightarrow> string \<Rightarrow> 'n jsval" where
  "js_get lib v name =
     (case v of
        JObject kvs \<Rightarrow> (case map_of kvs name of Some x \<Rightarrow> x | None \<Rightarrow> ml_inherited lib v name)
      | _ \<Rightarrow> ml_inherited lib v name)"

definition nullish :: "'n jsval \<Rightarrow> bool" where
  "nullish v = (case v of JUndefined \<Rightarrow> True | JNull \<Rightarrow> True | _ \<Rightarrow> False)"

definition truthy :: "('n, 'r) matcher_lib \<Rightarrow> 'n jsval \<Rightarrow> bool" where
  "truthy lib v =
     (case v of
        JUndefined \<Rightarrow> False
      | JNull \<Rightarrow> False
      | JBool b \<Rightarrow> b
      | JNumber n \<Rightarrow> (case n of None \<Rightarrow> False | Some m \<Rightarrow> \<not> ml_isZero lib m)
      | JString s \<Rightarrow> s \<noteq> []
      | _ \<Rightarrow> True)"

definition js_toNumber :: "('n, 'r) matcher_lib \<Rightarrow> 'n jsval \<Rightarrow> 'n option" where
  "js_toNumber lib v =
     (case v of
        JUndefined \<Rightarrow> None
      | JNull \<Rightarrow> ml_toNumber lib ''0''
      | JBool b \<Rightarrow> ml_toNumber lib (if b then ''1'' else ''0'')
      | JNumber n \<Rightarrow> n
      | JString s \<Rightarrow> ml_toNumber lib s
      | _ \<Rightarrow> ml_coerce lib v)"

text \<open>\<open>toLowerCase\<close>: the capital letters of Latin-1 are 65 to 90, and 192 to 222 without the sign 215.\<close>

definition lower_char :: "char \<Rightarrow> char" where
  "lower_char c =
     (let n = of_char c :: nat
      in if 65 \<le> n \<and> n \<le> 90 \<or> 192 \<le> n \<and> n \<le> 222 \<and> n \<noteq> 215 then char_of (n + 32) else c)"

definition toLowerCase :: "string \<Rightarrow> string" where
  "toLowerCase = map lower_char"

fun starts_with :: "string \<Rightarrow> string \<Rightarrow> bool" where
  "starts_with [] s \<longleftrightarrow> True"
| "starts_with (c # cs) [] \<longleftrightarrow> False"
| "starts_with (c # cs) (d # ds) \<longleftrightarrow> c = d \<and> starts_with cs ds"

fun contains :: "string \<Rightarrow> string \<Rightarrow> bool" where
  "contains needle [] \<longleftrightarrow> needle = []"
| "contains needle (c # cs) \<longleftrightarrow> starts_with needle (c # cs) \<or> contains needle cs"

fun join :: "string \<Rightarrow> string list \<Rightarrow> string" where
  "join sep [] = []"
| "join sep [w] = w"
| "join sep (w # ws) = w @ sep @ join sep ws"

fun split_star :: "string \<Rightarrow> string list" where
  "split_star [] = [[]]"
| "split_star (c # cs) =
     (if c = CHR ''*'' then [] # split_star cs
      else case split_star cs of w # ws \<Rightarrow> (c # w) # ws | [] \<Rightarrow> [[c]])"

section \<open>Raw strings\<close>

text \<open>A character that is not its own upper and lower case is a letter: those of ASCII, 181 and from 192 on.\<close>

definition isRawStringChar :: "char \<Rightarrow> bool" where
  "isRawStringChar c \<longleftrightarrow>
     (let n = of_char c :: nat
      in 48 \<le> n \<and> n \<le> 57 \<or> c \<in> set ''_-.$'' \<or> 65 \<le> n \<and> n \<le> 90 \<or> 97 \<le> n \<and> n \<le> 122 \<or>
         n = 181 \<or> 192 \<le> n \<and> n \<noteq> 215 \<and> n \<noteq> 247)"

definition isRawString :: "string \<Rightarrow> bool" where
  "isRawString s \<longleftrightarrow> list_all isRawStringChar s"

section \<open>Syntax trees\<close>

datatype comparator = GT | GE | LT | LE

datatype ('n, 'r) cm_node =
    Null
  | And "('n, 'r) cm_node list"
  | Comparison comparator 'n
  | Or "('n, 'r) cm_node list"
  | Not "('n, 'r) cm_node"
  | NumberNode 'n
  | NumberOrString string
  | Property string "('n, 'r) cm_node"
  | GlobPattern string
  | RegExpNode 'r
  | StringNode string
  | TruthyProperty string

text \<open>The constructors that return something else than a new node, or throw.\<close>

definition new_And :: "('n, 'r) cm_node list \<Rightarrow> ('n, 'r) cm_node" where
  "new_And children = (case children of [child] \<Rightarrow> child | _ \<Rightarrow> And children)"

definition new_Or :: "('n, 'r) cm_node list \<Rightarrow> ('n, 'r) cm_node" where
  "new_Or children = (case children of [child] \<Rightarrow> child | _ \<Rightarrow> Or children)"

definition new_Comparison :: "comparator \<Rightarrow> 'n option \<Rightarrow> js_error + ('n, 'r) cm_node" where
  "new_Comparison operator v = (case v of None \<Rightarrow> Inl TypeError | Some n \<Rightarrow> Inr (Comparison operator n))"

definition glob_source :: "('n, 'r) matcher_lib \<Rightarrow> string \<Rightarrow> string" where
  "glob_source lib v = join ''.*'' (map (ml_escapeRegExp lib) (split_star v))"

definition new_GlobPattern :: "('n, 'r) matcher_lib \<Rightarrow> string \<Rightarrow> js_error + ('n, 'r) cm_node" where
  "new_GlobPattern lib v =
     (if CHR ''*'' \<notin> set v then Inr (StringNode v)
      else case ml_newRegExp lib (glob_source lib v) ''i'' of
        None \<Rightarrow> Inl SyntaxError | Some _ \<Rightarrow> Inr (GlobPattern v))"

definition new_RegExpNode :: "('n, 'r) matcher_lib \<Rightarrow> string \<Rightarrow> string \<Rightarrow> js_error + ('n, 'r) cm_node" where
  "new_RegExpNode lib pattern flags =
     (case ml_newRegExp lib pattern flags of None \<Rightarrow> Inl SyntaxError | Some re \<Rightarrow> Inr (RegExpNode re))"

section \<open>Printing\<close>

definition operator_string :: "comparator \<Rightarrow> string" where
  "operator_string c = (case c of GT \<Rightarrow> ''>'' | GE \<Rightarrow> ''>='' | LT \<Rightarrow> ''<'' | LE \<Rightarrow> ''<='')"

fun escape_string :: "string \<Rightarrow> string" where
  "escape_string [] = []"
| "escape_string (c # cs) =
     (if c = CHR 0x5C \<or> c = CHR 0x22 then CHR 0x5C # c # escape_string cs else c # escape_string cs)"

definition formatString :: "('n, 'r) matcher_lib \<Rightarrow> string \<Rightarrow> string" where
  "formatString lib v =
     (if ml_toNumber lib v = None
      then if isRawString v then v else CHR 0x22 # escape_string v @ [CHR 0x22]
      else CHR 0x22 # v @ [CHR 0x22])"

fun node_toString :: "('n, 'r) matcher_lib \<Rightarrow> bool \<Rightarrow> ('n, 'r) cm_node \<Rightarrow> string" where
  "node_toString lib isNested Null = []"
| "node_toString lib isNested (And children) =
     (let terms = join '' '' (map (node_toString lib True) children)
      in if isNested then CHR ''('' # terms @ '')'' else terms)"
| "node_toString lib isNested (Comparison operator v) = operator_string operator @ ml_toString lib v"
| "node_toString lib isNested (Or children) = ''|('' @ join '' '' (map (node_toString lib True) children) @ '')''"
| "node_toString lib isNested (Not child) = CHR ''!'' # node_toString lib True child"
| "node_toString lib isNested (NumberNode v) = ml_toString lib v"
| "node_toString lib isNested (NumberOrString v) = v"
| "node_toString lib isNested (Property name child) = formatString lib name @ CHR '':'' # node_toString lib True child"
| "node_toString lib isNested (GlobPattern v) = v"
| "node_toString lib isNested (RegExpNode re) = CHR ''/'' # ml_source lib re @ CHR ''/'' # ml_flags lib re"
| "node_toString lib isNested (StringNode v) = formatString lib v"
| "node_toString lib isNested (TruthyProperty name) = formatString lib name @ ''?''"

section \<open>Matching\<close>

definition compare :: "('n, 'r) matcher_lib \<Rightarrow> comparator \<Rightarrow> 'n jsval \<Rightarrow> 'n \<Rightarrow> bool" where
  "compare lib operator a b =
     (case js_toNumber lib a of
        None \<Rightarrow> False
      | Some x \<Rightarrow> (case operator of
            GT \<Rightarrow> ml_less lib b x | GE \<Rightarrow> \<not> ml_less lib x b
          | LT \<Rightarrow> ml_less lib x b | LE \<Rightarrow> \<not> ml_less lib b x))"

text \<open>
  The \<open>match\<close> of the leaves: what \<open>p\<close> says of the value or, for an array or a plain object, of one of its
  items, at any depth (\<open>some\<close> of lodash).
\<close>

fun match_some :: "('n jsval \<Rightarrow> bool) \<Rightarrow> 'n jsval \<Rightarrow> bool" where
  "match_some p (JArray vs) \<longleftrightarrow> p (JArray vs) \<or> list_ex (match_some p) vs"
| "match_some p (JObject kvs) \<longleftrightarrow> p (JObject kvs) \<or> list_ex (\<lambda>kv. match_some p (snd kv)) kvs"
| "match_some p v \<longleftrightarrow> p v"

definition match_string :: "(string \<Rightarrow> bool) \<Rightarrow> 'n jsval \<Rightarrow> bool" where
  "match_string p = match_some (\<lambda>v. case v of JString s \<Rightarrow> p s | _ \<Rightarrow> False)"

fun match :: "('n, 'r) matcher_lib \<Rightarrow> ('n, 'r) cm_node \<Rightarrow> 'n jsval \<Rightarrow> bool" where
  "match lib Null v \<longleftrightarrow> True"
| "match lib (And children) v \<longleftrightarrow> list_all (\<lambda>child. match lib child v) children"
| "match lib (Comparison operator n) v \<longleftrightarrow> compare lib operator v n"
| "match lib (Or children) v \<longleftrightarrow> list_ex (\<lambda>child. match lib child v) children"
| "match lib (Not child) v \<longleftrightarrow> \<not> match lib child v"
| "match lib (NumberNode n) v \<longleftrightarrow> match_some (\<lambda>v. v = JNumber (Some n)) v"
| "match lib (NumberOrString s) v \<longleftrightarrow>
     match_some (\<lambda>v. ml_toNumber lib s \<noteq> None \<and> v = JNumber (ml_toNumber lib s) \<or>
       (case v of JString t \<Rightarrow> contains (toLowerCase s) (toLowerCase t) | _ \<Rightarrow> False)) v"
| "match lib (Property name child) v \<longleftrightarrow> \<not> nullish v \<and> match lib child (js_get lib v name)"
| "match lib (GlobPattern s) v \<longleftrightarrow>
     (case ml_newRegExp lib (glob_source lib s) ''i'' of None \<Rightarrow> False | Some re \<Rightarrow> match_string (ml_test lib re) v)"
| "match lib (RegExpNode re) v \<longleftrightarrow> match_string (ml_test lib re) v"
| "match lib (StringNode s) v \<longleftrightarrow> match_string (\<lambda>t. contains (toLowerCase s) (toLowerCase t)) v"
| "match lib (TruthyProperty name) v \<longleftrightarrow> \<not> nullish v \<and> truthy lib (js_get lib v name)"

section \<open>Parser combinators\<close>

text \<open>
  A position is the rest of the input; \<open>None\<close> is the one after its end, which \<open>quotedString\<close> can reach, and
  at which no regular expression matches. The recursion of the grammar is on fuel.
\<close>

type_synonym pos = "string option"

datatype 'a parsed = Success pos 'a | Failure | Thrown js_error | Out_of_fuel

type_synonym 'a parser = "pos \<Rightarrow> 'a parsed"

definition p_return :: "'a \<Rightarrow> 'a parser" where
  "p_return x i = Success i x"

text \<open>\<open>P.seq\<close> is a chain of these, with the function of \<open>map\<close> at the end.\<close>

definition p_then :: "'a parser \<Rightarrow> ('a \<Rightarrow> 'b parser) \<Rightarrow> 'b parser" where
  "p_then p f i =
     (case p i of Success j x \<Rightarrow> f x j | Failure \<Rightarrow> Failure | Thrown e \<Rightarrow> Thrown e | Out_of_fuel \<Rightarrow> Out_of_fuel)"

definition p_build :: "js_error + 'a \<Rightarrow> 'a parser" where
  "p_build r i = (case r of Inl e \<Rightarrow> Thrown e | Inr x \<Rightarrow> Success i x)"

fun p_alt :: "'a parser list \<Rightarrow> 'a parser" where
  "p_alt [] i = Failure"
| "p_alt (p # ps) i = (case p i of Failure \<Rightarrow> p_alt ps i | r \<Rightarrow> r)"

definition p_skip :: "'a parser \<Rightarrow> 'b parser \<Rightarrow> 'a parser" where
  "p_skip p q = p_then p (\<lambda>x. p_then q (\<lambda>_. p_return x))"

fun p_repeat :: "nat \<Rightarrow> 'a parser \<Rightarrow> 'a list parser" where
  "p_repeat 0 p i = Out_of_fuel"
| "p_repeat (Suc n) p i =
     (case p i of
        Success j x \<Rightarrow> p_then (p_repeat n p) (\<lambda>xs. p_return (x # xs)) j
      | Failure \<Rightarrow> Success i []
      | Thrown e \<Rightarrow> Thrown e
      | Out_of_fuel \<Rightarrow> Out_of_fuel)"

definition p_repeat1 :: "nat \<Rightarrow> 'a parser \<Rightarrow> 'a list parser" where
  "p_repeat1 n p = p_then p (\<lambda>x. p_then (p_repeat n p) (\<lambda>xs. p_return (x # xs)))"

fun p_text :: "char \<Rightarrow> unit parser" where
  "p_text c (Some (d # r)) = (if c = d then Success (Some r) () else Failure)"
| "p_text c i = Failure"

definition p_eof :: "unit parser" where
  "p_eof i = (case i of Some (_ # _) \<Rightarrow> Failure | _ \<Rightarrow> Success i ())"

section \<open>The grammar\<close>

text \<open>The white space of Latin-1.\<close>

definition is_space :: "char \<Rightarrow> bool" where
  "is_space c \<longleftrightarrow> (let n = of_char c :: nat in 9 \<le> n \<and> n \<le> 13 \<or> n = 32 \<or> n = 160)"

fun p_ws :: "unit parser" where
  "p_ws None = Failure"
| "p_ws (Some s) = Success (Some (dropWhile is_space s)) ()"

fun p_comparator :: "comparator parser" where
  "p_comparator (Some (c # r)) =
     (if c = CHR ''<'' \<or> c = CHR ''>'' then
        (case r of
           d # r' \<Rightarrow> if d = CHR ''='' then Success (Some r') (if c = CHR ''<'' then LE else GE)
                    else Success (Some r) (if c = CHR ''<'' then LT else GT)
         | [] \<Rightarrow> Success (Some r) (if c = CHR ''<'' then LT else GT))
      else Failure)"
| "p_comparator i = Failure"

definition p_chars :: "(char \<Rightarrow> bool) \<Rightarrow> string parser" where
  "p_chars ok i =
     (case i of
        None \<Rightarrow> Failure
      | Some s \<Rightarrow> if takeWhile ok s = [] then Failure else Success (Some (dropWhile ok s)) (takeWhile ok s))"

definition rawString :: "string parser" where
  "rawString = p_chars isRawStringChar"

definition globChar :: "char \<Rightarrow> bool" where
  "globChar c \<longleftrightarrow> c = CHR ''*'' \<or> isRawStringChar c"

definition globPattern :: "string parser" where
  "globPattern = p_chars globChar"

text \<open>The loop of \<open>quotedString\<close>: an escape at the end of the input reads past it.\<close>

fun quoted_rest :: "string \<Rightarrow> pos \<times> string" where
  "quoted_rest [] = (Some [], [])"
| "quoted_rest (c # cs) =
     (if c = CHR 0x22 then (Some cs, [])
      else if c = CHR 0x5C then
        (case cs of [] \<Rightarrow> (None, []) | d # ds \<Rightarrow> map_prod id ((#) d) (quoted_rest ds))
      else map_prod id ((#) c) (quoted_rest cs))"

fun quotedString :: "string parser" where
  "quotedString (Some (c # cs)) = (if c = CHR 0x22 then (case quoted_rest cs of (j, v) \<Rightarrow> Success j v) else Failure)"
| "quotedString i = Failure"

text \<open>The loop of \<open>regex\<close>, and the test of the last character that was read.\<close>

fun regex_rest :: "bool \<Rightarrow> char option \<Rightarrow> string \<Rightarrow> (string \<times> string) option" where
  "regex_rest escaped c [] = (if c = Some CHR ''/'' then Some ([], []) else None)"
| "regex_rest escaped c (d # ds) =
     (if d \<noteq> CHR ''/'' \<or> escaped
      then map_option (map_prod ((#) d) id) (regex_rest (d = CHR 0x5C) (Some d) ds)
      else Some ([], ds))"

fun regex :: "('n, 'r) matcher_lib \<Rightarrow> ('n, 'r) cm_node parser" where
  "regex lib (Some (c # cs)) =
     (if c \<noteq> CHR ''/'' then Failure
      else case regex_rest False None cs of
        None \<Rightarrow> Failure
      | Some (pattern, r) \<Rightarrow>
          (case r of
             f # r' \<Rightarrow> if f = CHR ''i'' then p_build (new_RegExpNode lib pattern ''i'') (Some r')
                      else p_build (new_RegExpNode lib pattern '''') (Some r)
           | [] \<Rightarrow> p_build (new_RegExpNode lib pattern '''') (Some r)))"
| "regex lib i = Failure"

definition p_property :: "string parser" where
  "p_property = p_alt [quotedString, rawString]"

definition p_value :: "('n, 'r) matcher_lib \<Rightarrow> ('n, 'r) cm_node parser" where
  "p_value lib = p_alt
     [p_then quotedString (\<lambda>s. p_return (StringNode s)),
      regex lib,
      p_then globPattern (\<lambda>s. p_build
        (if ml_toNumber lib s = None then new_GlobPattern lib s else Inr (NumberOrString s)))]"

text \<open>\<open>term\<close>, where \<open>t\<close> is the parser of the terms inside of it.\<close>

definition p_group :: "nat \<Rightarrow> ('n, 'r) cm_node parser \<Rightarrow> ('n, 'r) cm_node list parser" where
  "p_group n t = p_then (p_text CHR ''('') (\<lambda>_. p_then p_ws (\<lambda>_. p_then (p_repeat1 n t) (\<lambda>ts.
     p_then (p_text CHR '')'') (\<lambda>_. p_return ts))))"

definition term_alternatives ::
    "('n, 'r) matcher_lib \<Rightarrow> nat \<Rightarrow> ('n, 'r) cm_node parser \<Rightarrow> ('n, 'r) cm_node parser list" where
  "term_alternatives lib n t =
     [p_then (p_group n t) (\<lambda>ts. p_return (new_And ts)),
      p_then (p_text CHR ''|'') (\<lambda>_. p_then p_ws (\<lambda>_. p_then (p_group n t) (\<lambda>ts. p_return (new_Or ts)))),
      p_then (p_text CHR ''!'') (\<lambda>_. p_then p_ws (\<lambda>_. p_then t (\<lambda>x. p_return (Not x)))),
      p_then p_comparator (\<lambda>op. p_then rawString (\<lambda>v. p_build (new_Comparison op (ml_toNumber lib v)))),
      p_then p_property (\<lambda>name. p_then p_ws (\<lambda>_. p_then (p_text CHR '':'') (\<lambda>_. p_then p_ws (\<lambda>_.
        p_then t (\<lambda>x. p_return (Property name x)))))),
      p_then p_property (\<lambda>name. p_then (p_text CHR ''?'') (\<lambda>_. p_return (TruthyProperty name))),
      p_value lib]"

fun p_term :: "nat \<Rightarrow> ('n, 'r) matcher_lib \<Rightarrow> ('n, 'r) cm_node parser" where
  "p_term 0 lib i = Out_of_fuel"
| "p_term (Suc n) lib i = p_skip (p_alt (term_alternatives lib (Suc n) (p_term n lib))) p_ws i"

definition p_default :: "nat \<Rightarrow> ('n, 'r) matcher_lib \<Rightarrow> ('n, 'r) cm_node parser" where
  "p_default n lib = p_then p_ws (\<lambda>_. p_then (p_repeat n (p_term n lib)) (\<lambda>terms. p_then p_eof (\<lambda>_.
     p_return (if terms = [] then Null else new_And terms))))"

text \<open>One unit of fuel for each character and one for the end; \<open>None\<close> would be a lack of fuel.\<close>

definition cm_parse :: "('n, 'r) matcher_lib \<Rightarrow> string \<Rightarrow> (js_error + ('n, 'r) cm_node) option" where
  "cm_parse lib input =
     (case p_default (Suc (length input)) lib (Some input) of
        Success _ node \<Rightarrow> Some (Inr node)
      | Failure \<Rightarrow> Some (Inl (JsError ''parse error''))
      | Thrown e \<Rightarrow> Some (Inl e)
      | Out_of_fuel \<Rightarrow> None)"

section \<open>Clauses\<close>

text \<open>\<open>source.replace(/^(\^)|\\|\$$/g, '')\<close>: one caret at the start, every backslash and one dollar at the end.\<close>

definition unescape_regexp :: "string \<Rightarrow> string" where
  "unescape_regexp s =
     (let s = (case s of c # r \<Rightarrow> if c = CHR ''^'' then r else s | [] \<Rightarrow> s);
          s = (if s \<noteq> [] \<and> last s = CHR ''$'' then butlast s else s)
      in filter (\<lambda>c. c \<noteq> CHR 0x5C) s)"

definition extractStringFromRegexp :: "('n, 'r) matcher_lib \<Rightarrow> 'r \<Rightarrow> string option" where
  "extractStringFromRegexp lib re =
     (let unescapedRegexp = unescape_regexp (ml_source lib re)
      in if ml_source lib re = CHR ''^'' # ml_escapeRegExp lib unescapedRegexp @ ''$'' then Some unescapedRegexp
         else None)"

definition node_strings :: "('n, 'r) matcher_lib \<Rightarrow> ('n, 'r) cm_node \<Rightarrow> string list" where
  "node_strings lib child =
     (case child of
        StringNode v \<Rightarrow> [v]
      | RegExpNode re \<Rightarrow> (case extractStringFromRegexp lib re of None \<Rightarrow> [] | Some s \<Rightarrow> [s])
      | _ \<Rightarrow> [])"

definition getPropertyClauseStrings :: "('n, 'r) matcher_lib \<Rightarrow> ('n, 'r) cm_node \<Rightarrow> string list" where
  "getPropertyClauseStrings lib child =
     (case child of Or children \<Rightarrow> concat (map (node_strings lib) children) | _ \<Rightarrow> node_strings lib child)"

text \<open>
  The strings are gathered in an object with a prototype: for the name of one of its members, the code
  calls a method of something that is not an array.
\<close>

definition add_clause_strings ::
    "('n, 'r) matcher_lib \<Rightarrow> ('n, 'r) cm_node \<Rightarrow> (string \<rightharpoonup> string list) \<Rightarrow> js_error + (string \<rightharpoonup> string list)" where
  "add_clause_strings lib node strings =
     (case node of
        Property name child \<Rightarrow>
          (case strings name of
             Some vs \<Rightarrow> Inr (strings(name \<mapsto> vs @ getPropertyClauseStrings lib child))
           | None \<Rightarrow>
               if truthy lib (ml_inherited lib (JObject []) name) then Inl TypeError
               else Inr (strings(name \<mapsto> getPropertyClauseStrings lib child)))
      | _ \<Rightarrow> Inr strings)"

definition getPropertyClausesStrings ::
    "('n, 'r) matcher_lib \<Rightarrow> ('n, 'r) cm_node option \<Rightarrow> js_error + (string \<rightharpoonup> string list)" where
  "getPropertyClausesStrings lib node =
     (case node of
        None \<Rightarrow> Inr Map.empty
      | Some (Property name child) \<Rightarrow> Inr [name \<mapsto> getPropertyClauseStrings lib child]
      | Some (And children) \<Rightarrow> res_fold (add_clause_strings lib) children Map.empty
      | Some _ \<Rightarrow> Inr Map.empty)"

text \<open>
  The child of a clause is a string or a node; without a child, the clause is removed. The empty string is
  neither: the code does not make a clause of it and yet adds it to the query, which is then not a syntax
  tree, \<open>None\<close> here.
\<close>

definition is_clause :: "string \<Rightarrow> ('n, 'r) cm_node \<Rightarrow> bool" where
  "is_clause name node = (case node of Property n _ \<Rightarrow> n = name | _ \<Rightarrow> False)"

definition setPropertyClause ::
    "('n, 'r) cm_node option \<Rightarrow> string \<Rightarrow> (string + ('n, 'r) cm_node) option \<Rightarrow> ('n, 'r) cm_node option option" where
  "setPropertyClause node name child =
     (if child = Some (Inl []) then None
      else Some (
        let property = map_option (\<lambda>c. Property name (case c of Inl s \<Rightarrow> StringNode s | Inr x \<Rightarrow> x)) child
        in case node of
             None \<Rightarrow> property
           | Some node \<Rightarrow>
               let children = filter (\<lambda>c. \<not> is_clause name c) (case node of And cs \<Rightarrow> cs | _ \<Rightarrow> [node])
               in Some (new_And (case property of None \<Rightarrow> children | Some p \<Rightarrow> children @ [p]))))"

end
