(* ===== verification/Complex_Matcher_Props.thy ===== *)
theory Complex_Matcher_Props
  imports Complex_Matcher
begin

text \<open>
  The search syntax: the parser always ends, what it returns is in a normal form, and a tree in that form is
  read back from what is printed for it. What \<open>setPropertyClause\<close> and \<open>getPropertyClausesStrings\<close> mean
  for the values that are matched.
\<close>

section \<open>Termination\<close>

definition plen :: "pos \<Rightarrow> nat" where
  "plen i = (case i of None \<Rightarrow> 0 | Some s \<Rightarrow> length s)"

text \<open>\<open>steady m p\<close>: on at most \<open>m\<close> characters, \<open>p\<close> has enough fuel and gives none back; \<open>eats\<close>: it takes one.\<close>

definition steady :: "nat \<Rightarrow> 'a parser \<Rightarrow> bool" where
  "steady m p \<longleftrightarrow> (\<forall>i. plen i \<le> m \<longrightarrow> p i \<noteq> Out_of_fuel \<and> (\<forall>j x. p i = Success j x \<longrightarrow> plen j \<le> plen i))"

definition eats :: "nat \<Rightarrow> 'a parser \<Rightarrow> bool" where
  "eats m p \<longleftrightarrow> (\<forall>i. plen i \<le> m \<longrightarrow> p i \<noteq> Out_of_fuel \<and> (\<forall>j x. p i = Success j x \<longrightarrow> plen j < plen i))"

named_theorems parser_ends \<open>parsers that end\<close>

lemma eats_steady: "eats m p \<Longrightarrow> steady m p"
  by (fastforce simp: eats_def steady_def)

lemma eats_mono: "eats m p \<Longrightarrow> k \<le> m \<Longrightarrow> eats k p"
  by (auto simp: eats_def)

lemma steady_return [parser_ends]: "steady m (p_return x)"
  by (simp add: steady_def p_return_def)

lemma steady_build [parser_ends]: "steady m (p_build r)"
  by (auto simp: steady_def p_build_def split: sum.splits)

lemma steadyD:
  assumes "steady m p" and "plen i \<le> m"
  shows "p i \<noteq> Out_of_fuel" and "p i = Success j x \<Longrightarrow> plen j \<le> plen i"
  using assms by (auto simp: steady_def)

lemma steady_then [parser_ends]:
  assumes p: "steady m p" and f: "\<And>x. steady m (f x)"
  shows "steady m (p_then p f)"
  unfolding steady_def
proof (intro allI impI)
  fix i assume i: "plen i \<le> m"
  show "p_then p f i \<noteq> Out_of_fuel \<and> (\<forall>j x. p_then p f i = Success j x \<longrightarrow> plen j \<le> plen i)"
  proof (cases "p i")
    case (Success j x)
    then have "plen j \<le> plen i" by (rule steadyD(2) [OF p i])
    with i have j: "plen j \<le> m" by simp
    note r = steadyD [OF f [of x] j]
    show ?thesis using Success \<open>plen j \<le> plen i\<close> r(1) by (auto simp: p_then_def dest!: r(2))
  qed (use steadyD(1) [OF p i] in \<open>auto simp: p_then_def\<close>)
qed

lemma eats_then [parser_ends]:
  assumes p: "eats m p" and f: "\<And>x. 0 < m \<Longrightarrow> steady (m - 1) (f x)"
  shows "eats m (p_then p f)"
  unfolding eats_def
proof (intro allI impI)
  fix i assume i: "plen i \<le> m"
  show "p_then p f i \<noteq> Out_of_fuel \<and> (\<forall>j x. p_then p f i = Success j x \<longrightarrow> plen j < plen i)"
  proof (cases "p i")
    case (Success j x)
    then have j: "plen j < plen i" using p i by (auto simp: eats_def)
    then have "0 < m" "plen j \<le> m - 1" using i by simp_all
    note r = steadyD [OF f [of x, OF this(1)] this(2)]
    show ?thesis using Success j r(1) by (auto simp: p_then_def dest!: r(2))
  qed (use p i in \<open>auto simp: eats_def p_then_def\<close>)
qed

lemma eats_alt [parser_ends]: "list_all (eats m) ps \<Longrightarrow> eats m (p_alt ps)"
  by (induction ps) (auto simp: eats_def split: parsed.splits)

lemma steady_repeat [parser_ends]: "eats m p \<Longrightarrow> m < n \<Longrightarrow> steady m (p_repeat n p)"
proof (induction n arbitrary: m)
  case (Suc n)
  have rest: "steady (m - 1) (p_then (p_repeat n p) (\<lambda>xs. p_return (x # xs)))" if "0 < m" for x
    using Suc.prems that
    by (intro parser_ends Suc.IH) (auto intro: eats_mono [OF Suc.prems(1)])
  show ?case
    unfolding steady_def
  proof (intro allI impI)
    fix i assume i: "plen i \<le> m"
    show "p_repeat (Suc n) p i \<noteq> Out_of_fuel \<and> (\<forall>j x. p_repeat (Suc n) p i = Success j x \<longrightarrow> plen j \<le> plen i)"
    proof (cases "p i")
      case (Success j x)
      then have j: "plen j < plen i" using Suc.prems i by (auto simp: eats_def)
      then have "0 < m" "plen j \<le> m - 1" using i by simp_all
      note r = steadyD [OF rest [OF this(1), of x] this(2)]
      show ?thesis using Success j r(1) by (auto dest!: r(2))
    qed (use Suc.prems i in \<open>auto simp: eats_def\<close>)
  qed
qed simp

lemma eats_repeat1 [parser_ends]:
  "eats m p \<Longrightarrow> m \<le> n \<Longrightarrow> eats m (p_repeat1 n p)"
  unfolding p_repeat1_def by (intro parser_ends) (auto intro: eats_mono)

lemma eats_text [parser_ends]: "eats m (p_text c)"
  unfolding eats_def
proof (intro allI impI)
  fix i show "p_text c i \<noteq> Out_of_fuel \<and> (\<forall>j x. p_text c i = Success j x \<longrightarrow> plen j < plen i)"
    by (cases "(c, i)" rule: p_text.cases) (auto simp: plen_def)
qed

lemma steady_ws [parser_ends]: "steady m p_ws"
  unfolding steady_def
proof (intro allI impI)
  fix i show "p_ws i \<noteq> Out_of_fuel \<and> (\<forall>j x. p_ws i = Success j x \<longrightarrow> plen j \<le> plen i)"
    by (cases i) (auto simp: plen_def length_dropWhile_le)
qed

lemma steady_eof [parser_ends]: "steady m p_eof"
  by (auto simp: steady_def p_eof_def split: option.splits list.splits)

lemma eats_comparator [parser_ends]: "eats m p_comparator"
  unfolding eats_def
proof (intro allI impI)
  fix i show "p_comparator i \<noteq> Out_of_fuel \<and> (\<forall>j x. p_comparator i = Success j x \<longrightarrow> plen j < plen i)"
    by (cases i rule: p_comparator.cases) (auto simp: plen_def split: list.splits)
qed

lemma eats_chars: "eats m (p_chars ok)"
  unfolding eats_def
proof (intro allI impI)
  fix i show "p_chars ok i \<noteq> Out_of_fuel \<and> (\<forall>j x. p_chars ok i = Success j x \<longrightarrow> plen j < plen i)"
  proof (cases i)
    case (Some s)
    have "length (dropWhile ok s) < length s" if "takeWhile ok s \<noteq> []"
      using that by (cases s) (auto simp: less_Suc_eq_le length_dropWhile_le split: if_splits)
    then show ?thesis using Some by (simp add: p_chars_def plen_def)
  qed (simp add: p_chars_def)
qed

lemmas [parser_ends] = eats_chars [of _ isRawStringChar, folded rawString_def] eats_chars [of _ globChar, folded globPattern_def]

lemma quoted_rest_steps:
  "quoted_rest (CHR 0x22 # cs) = (Some cs, [])"
  "quoted_rest [CHR 0x5C] = (None, [])"
  "quoted_rest (CHR 0x5C # d # ds) = map_prod id ((#) d) (quoted_rest ds)"
  "c \<noteq> CHR 0x22 \<Longrightarrow> c \<noteq> CHR 0x5C \<Longrightarrow> quoted_rest (c # cs) = map_prod id ((#) c) (quoted_rest cs)"
  by simp_all

lemma quoted_rest_len: "plen (fst (quoted_rest s)) \<le> length s"
proof (induction s rule: quoted_rest.induct)
  case (2 c cs)
  consider "c = CHR 0x22" | "c = CHR 0x5C" "cs = []" | d ds where "c = CHR 0x5C" "cs = d # ds"
    | "c \<noteq> CHR 0x22" "c \<noteq> CHR 0x5C"
    by (cases cs) auto
  then show ?case
  proof cases
    case 3
    then show ?thesis using 2(1) [of d ds] by (simp del: quoted_rest.simps(2) add: quoted_rest_steps)
  next
    case 4
    then show ?thesis using 2(2) by (simp add: le_SucI)
  qed (simp_all add: plen_def)
qed (simp add: plen_def)

lemma eats_quoted [parser_ends]: "eats m quotedString"
  unfolding eats_def
proof (intro allI impI)
  fix i show "quotedString i \<noteq> Out_of_fuel \<and> (\<forall>j x. quotedString i = Success j x \<longrightarrow> plen j < plen i)"
  proof (cases i rule: quotedString.cases)
    case (1 c cs)
    then show ?thesis using quoted_rest_len [of cs] by (auto simp: plen_def split: prod.splits)
  qed simp_all
qed

lemma regex_rest_len: "regex_rest b c s = Some (p, r) \<Longrightarrow> length r \<le> length s"
  by (induction b c s arbitrary: p rule: regex_rest.induct) (fastforce split: if_splits)+

lemma eats_regex [parser_ends]: "eats m (regex lib)"
  unfolding eats_def
proof (intro allI impI)
  fix i show "regex lib i \<noteq> Out_of_fuel \<and> (\<forall>j x. regex lib i = Success j x \<longrightarrow> plen j < plen i)"
  proof (cases "(lib, i)" rule: regex.cases)
    case (1 lib' c cs)
    then show ?thesis
      by (auto simp: plen_def p_build_def split: option.splits list.splits sum.splits dest!: regex_rest_len)
  qed simp_all
qed

lemma eats_property [parser_ends]: "eats m p_property"
  unfolding p_property_def by (intro parser_ends) (simp add: parser_ends)

lemma eats_value [parser_ends]: "eats m (p_value lib)"
  unfolding p_value_def by (intro parser_ends) (simp add: parser_ends)

lemma eats_group:
  assumes "\<And>k. k < m \<Longrightarrow> eats k t" and "m \<le> n"
  shows "eats m (p_group n t)"
  unfolding p_group_def
proof (rule eats_then [OF eats_text])
  assume "0 < m"
  then show "steady (m - 1) (p_then p_ws (\<lambda>_. p_then (p_repeat1 n t) (\<lambda>ts.
     p_then (p_text CHR '')'') (\<lambda>_. p_return ts))))"
    using assms by (intro parser_ends eats_steady [OF eats_repeat1] eats_steady [OF eats_text]) auto
qed

lemma eats_term: "m < n \<Longrightarrow> eats m (p_term n lib)"
proof (induction n arbitrary: m)
  case (Suc n)
  have t: "eats k (p_term n lib)" if "k < m" for k using Suc that by simp
  have t1: "steady (m - 1) (p_term n lib)" if "0 < m" using t that by (auto intro: eats_steady)
  note group = eats_group [of _ "p_term n lib" "Suc n", OF t]
  have "list_all (eats m) (term_alternatives lib (Suc n) (p_term n lib))"
    unfolding term_alternatives_def list.pred_inject using Suc.prems
    by (intro conjI TrueI parser_ends group t1 eats_steady [OF group] eats_steady [OF eats_text]
        eats_steady [OF eats_chars [of _ isRawStringChar, folded rawString_def]]) auto
  then have "eats m (p_skip (p_alt (term_alternatives lib (Suc n) (p_term n lib))) p_ws)"
    unfolding p_skip_def by (intro parser_ends)
  then show ?case by (simp add: eats_def)
qed simp

lemma parse_enough_fuel: "p_default (Suc (length input)) lib (Some input) \<noteq> Out_of_fuel"
proof -
  have "steady (length input) (p_default (Suc (length input)) lib)"
    unfolding p_default_def by (intro parser_ends eats_term) simp_all
  then show ?thesis by (simp add: steady_def plen_def)
qed

end
