(* ===== verification/Complex_Matcher_Print.thy ===== *)
theory Complex_Matcher_Print
  imports Complex_Matcher_Props
begin

text \<open>
  Printing and parsing of the search syntax: the normal form of the trees that the parser returns, and
  the proof that a tree in this form is read back.
\<close>

section \<open>The trees that the parser returns\<close>

fun shaped :: "('n, 'r) matcher_lib \<Rightarrow> ('n, 'r) cm_node \<Rightarrow> bool" where
  "shaped lib Null \<longleftrightarrow> False"
| "shaped lib (And children) \<longleftrightarrow> 2 \<le> length children \<and> list_all (shaped lib) children"
| "shaped lib (Comparison operator n) \<longleftrightarrow> True"
| "shaped lib (Or children) \<longleftrightarrow> 2 \<le> length children \<and> list_all (shaped lib) children"
| "shaped lib (Not child) \<longleftrightarrow> shaped lib child"
| "shaped lib (NumberNode n) \<longleftrightarrow> False"
| "shaped lib (NumberOrString s) \<longleftrightarrow> s \<noteq> [] \<and> list_all globChar s \<and> ml_toNumber lib s \<noteq> None"
| "shaped lib (Property name child) \<longleftrightarrow> shaped lib child"
| "shaped lib (GlobPattern s) \<longleftrightarrow> CHR ''*'' \<in> set s \<and> list_all globChar s \<and> ml_toNumber lib s = None \<and>
     ml_newRegExp lib (glob_source lib s) ''i'' \<noteq> None"
| "shaped lib (RegExpNode re) \<longleftrightarrow> True"
| "shaped lib (StringNode s) \<longleftrightarrow> True"
| "shaped lib (TruthyProperty name) \<longleftrightarrow> True"

definition yields :: "('a \<Rightarrow> bool) \<Rightarrow> 'a parser \<Rightarrow> bool" where
  "yields P p \<longleftrightarrow> (\<forall>i j x. p i = Success j x \<longrightarrow> P x)"

lemma yields_True [simp]: "yields (\<lambda>_. True) p"
  by (simp add: yields_def)

lemma yields_return [simp]: "yields P (p_return x) \<longleftrightarrow> P x"
  by (auto simp: yields_def p_return_def)

lemma yields_build [simp]: "yields P (p_build r) \<longleftrightarrow> (\<forall>x. r = Inr x \<longrightarrow> P x)"
  by (auto simp: yields_def p_build_def split: sum.splits)

lemma yields_then: "yields Q p \<Longrightarrow> (\<And>x. Q x \<Longrightarrow> yields P (f x)) \<Longrightarrow> yields P (p_then p f)"
  by (fastforce simp: yields_def p_then_def split: parsed.splits)

lemmas yields_seq = yields_then [of "\<lambda>_. True", OF yields_True]

lemma yields_alt: "list_all (yields P) ps \<Longrightarrow> yields P (p_alt ps)"
  unfolding yields_def
proof (induction ps)
  case (Cons p ps)
  then show ?case by (auto split: parsed.splits)
qed simp

lemma yields_repeat: "yields P p \<Longrightarrow> yields (list_all P) (p_repeat n p)"
proof (induction n)
  case (Suc n)
  then have "yields (list_all P) (p_then (p_repeat n p) (\<lambda>xs. p_return (x # xs)))" if "P x" for x
    using that by (intro yields_then [of "list_all P"]) simp_all
  then show ?case using Suc.prems by (fastforce simp: yields_def split: parsed.splits)
qed (simp add: yields_def)

lemma yields_repeat1: "yields P p \<Longrightarrow> yields (\<lambda>xs. xs \<noteq> [] \<and> list_all P xs) (p_repeat1 n p)"
  unfolding p_repeat1_def by (intro yields_then [of P] yields_then [OF yields_repeat]) auto

lemma yields_group: "yields P t \<Longrightarrow> yields (\<lambda>xs. xs \<noteq> [] \<and> list_all P xs) (p_group n t)"
  unfolding p_group_def
  by (intro yields_seq [of _ "\<lambda>_. p_then p_ws _"] yields_seq [of _ "\<lambda>_. p_then (p_repeat1 _ _) _"]
      yields_then [OF yields_repeat1] yields_seq) simp_all

lemma yields_chars: "yields (\<lambda>s. s \<noteq> [] \<and> list_all ok s) (p_chars ok)"
  by (auto simp: yields_def p_chars_def list_all_iff dest: set_takeWhileD split: option.splits if_splits)

lemma shaped_new_And: "ts \<noteq> [] \<Longrightarrow> list_all (shaped lib) ts \<Longrightarrow> shaped lib (new_And ts)"
  by (auto simp: new_And_def neq_Nil_conv split: list.splits)

lemma shaped_new_Or: "ts \<noteq> [] \<Longrightarrow> list_all (shaped lib) ts \<Longrightarrow> shaped lib (new_Or ts)"
  by (auto simp: new_Or_def neq_Nil_conv split: list.splits)

lemma regex_shaped: "yields (shaped lib) (regex lib)"
  unfolding yields_def
proof (intro allI impI)
  fix i j x assume "regex lib i = Success j x"
  then show "shaped lib x"
    by (cases "(lib, i)" rule: regex.cases)
      (auto simp: p_build_def new_RegExpNode_def split: if_splits option.splits list.splits sum.splits)
qed

lemma value_shaped: "yields (shaped lib) (p_value lib)"
  unfolding p_value_def list.pred_inject
proof (intro yields_alt, unfold list.pred_inject, intro conjI list.pred_inject(1))
  show "yields (shaped lib) (p_then quotedString (\<lambda>s. p_return (StringNode s)))"
    by (rule yields_seq) simp
  show "yields (shaped lib) (regex lib)" by (rule regex_shaped)
  show "yields (shaped lib) (p_then globPattern (\<lambda>s. p_build
      (if ml_toNumber lib s = None then new_GlobPattern lib s else Inr (NumberOrString s))))"
    unfolding globPattern_def
    by (rule yields_then [OF yields_chars]) (auto simp: new_GlobPattern_def split: option.splits)
qed

lemma alternatives_shaped:
  assumes t: "yields (shaped lib) t"
  shows "list_all (yields (shaped lib)) (term_alternatives lib n t)"
  unfolding term_alternatives_def list.pred_inject
proof (intro conjI list.pred_inject(1))
  note group = yields_group [OF t, of n]
  show "yields (shaped lib) (p_then (p_group n t) (\<lambda>ts. p_return (new_And ts)))"
    by (rule yields_then [OF group]) (simp add: shaped_new_And)
  show "yields (shaped lib) (p_then (p_text CHR ''|'') (\<lambda>_. p_then p_ws (\<lambda>_. p_then (p_group n t) (\<lambda>ts. p_return (new_Or ts)))))"
    by (rule yields_seq, rule yields_seq, rule yields_then [OF group]) (simp add: shaped_new_Or)
  show "yields (shaped lib) (p_then (p_text CHR ''!'') (\<lambda>_. p_then p_ws (\<lambda>_. p_then t (\<lambda>x. p_return (Not x)))))"
    by (rule yields_seq, rule yields_seq, rule yields_then [OF t]) simp
  show "yields (shaped lib) (p_then p_comparator (\<lambda>op. p_then rawString (\<lambda>v. p_build (new_Comparison op (ml_toNumber lib v)))))"
    by (rule yields_seq, rule yields_seq) (auto simp: new_Comparison_def split: option.splits)
  show "yields (shaped lib) (p_then p_property (\<lambda>name. p_then p_ws (\<lambda>_. p_then (p_text CHR '':'') (\<lambda>_. p_then p_ws (\<lambda>_.
        p_then t (\<lambda>x. p_return (Property name x)))))))"
    by (rule yields_seq, rule yields_seq, rule yields_seq, rule yields_seq, rule yields_then [OF t]) simp
  show "yields (shaped lib) (p_then p_property (\<lambda>name. p_then (p_text CHR ''?'') (\<lambda>_. p_return (TruthyProperty name))))"
    by (rule yields_seq, rule yields_seq) simp
  show "yields (shaped lib) (p_value lib)" by (rule value_shaped)
qed

lemma term_shaped: "yields (shaped lib) (p_term n lib)"
proof (induction n)
  case (Suc n)
  have "yields (shaped lib) (p_skip (p_alt (term_alternatives lib (Suc n) (p_term n lib))) p_ws)"
    unfolding p_skip_def
    by (rule yields_then [OF yields_alt [OF alternatives_shaped [OF Suc]]], rule yields_seq) simp
  then show ?case by (simp add: yields_def)
qed (simp add: yields_def)

lemma parse_shaped:
  assumes "cm_parse lib input = Some (Inr node)"
  shows "node = Null \<or> shaped lib node"
proof -
  have "yields (\<lambda>x. x = Null \<or> shaped lib x) (p_default (Suc (length input)) lib)"
    unfolding p_default_def
    by (rule yields_seq, rule yields_then [OF yields_repeat [OF term_shaped]], rule yields_seq)
      (auto simp: shaped_new_And)
  then show ?thesis using assms by (auto simp: cm_parse_def yields_def split: parsed.splits)
qed

section \<open>The trees that can be printed\<close>

text \<open>
  The numbers and the regular expressions of a tree are read back if the text the language gives for them is
  accepted by the grammar: a number must be written with raw characters, and a regular expression must end,
  as the parser reads it, at its last slash.
\<close>

fun closed_regex :: "bool \<Rightarrow> string \<Rightarrow> bool" where
  "closed_regex escaped [] \<longleftrightarrow> \<not> escaped"
| "closed_regex escaped (c # cs) \<longleftrightarrow> (c \<noteq> CHR ''/'' \<or> escaped) \<and> closed_regex (c = CHR 0x5C) cs"

fun readable :: "('n, 'r) matcher_lib \<Rightarrow> ('n, 'r) cm_node \<Rightarrow> bool" where
  "readable lib (And children) \<longleftrightarrow> list_all (readable lib) children"
| "readable lib (Or children) \<longleftrightarrow> list_all (readable lib) children"
| "readable lib (Not child) \<longleftrightarrow> readable lib child"
| "readable lib (Property name child) \<longleftrightarrow> readable lib child"
| "readable lib (Comparison operator n) \<longleftrightarrow>
     ml_toString lib n \<noteq> [] \<and> isRawString (ml_toString lib n) \<and> ml_toNumber lib (ml_toString lib n) = Some n"
| "readable lib (RegExpNode re) \<longleftrightarrow>
     closed_regex False (ml_source lib re) \<and> ml_flags lib re \<in> {'''', ''i''} \<and>
     ml_newRegExp lib (ml_source lib re) (ml_flags lib re) = Some re"
| "readable lib x \<longleftrightarrow> True"

text \<open>What is a number in JavaScript: the empty string is, and no string with one of these characters is.\<close>

definition numbers_ok :: "('n, 'r) matcher_lib \<Rightarrow> bool" where
  "numbers_ok lib \<longleftrightarrow> ml_toNumber lib [] \<noteq> None \<and>
     (\<forall>s. ml_toNumber lib s \<noteq> None \<longrightarrow> list_all (\<lambda>c. c \<notin> {CHR ''*'', CHR 0x22, CHR 0x5C}) s)"

section \<open>Characters\<close>

definition starts :: "char \<Rightarrow> bool" where
  "starts c \<longleftrightarrow> c \<in> set ''(|!<>/'' \<or> c = CHR 0x22 \<or> globChar c"

definition follows :: "string \<Rightarrow> bool" where
  "follows rest \<longleftrightarrow> (rest = [] \<or> \<not> globChar (hd rest) \<and> hd rest \<noteq> CHR ''?'') \<and>
     (dropWhile is_space rest = [] \<or> hd (dropWhile is_space rest) \<noteq> CHR '':'')"

lemma starts_not: "starts c \<Longrightarrow> \<not> is_space c \<and> c \<noteq> CHR '':'' \<and> c \<noteq> CHR ''?''"
  by (auto simp: starts_def globChar_def isRawStringChar_def is_space_def Let_def)

lemma raw_glob: "isRawStringChar c \<Longrightarrow> globChar c"
  by (simp add: globChar_def)

lemma not_glob: "c \<in> set ''(|!<>/)?: '' \<or> c = CHR 0x22 \<Longrightarrow> \<not> globChar c"
  by (auto simp: globChar_def isRawStringChar_def Let_def)

lemma not_raw: "c \<in> set ''(|!<>/)?:* ='' \<or> c = CHR 0x22 \<Longrightarrow> \<not> isRawStringChar c"
  by (auto simp: isRawStringChar_def Let_def)

lemma glob_not: "globChar c \<Longrightarrow> c \<notin> set ''(|!<>/)?: '' \<and> c \<noteq> CHR 0x22"
  using not_glob by blast

lemma raw_not: "isRawStringChar c \<Longrightarrow> c \<notin> set ''(|!<>/)?:* ='' \<and> c \<noteq> CHR 0x22"
  using not_raw by blast

lemma follows_nil: "follows []"
  by (simp add: follows_def)

lemma follows_paren: "follows (CHR '')'' # r)"
  using not_glob [of "CHR '')''"] by (simp add: follows_def is_space_def)

lemma follows_space: "starts c \<Longrightarrow> follows (CHR '' '' # c # r)"
  using not_glob [of "CHR '' ''"] starts_not [of c] by (simp add: follows_def is_space_def)

lemma take_raw:
  assumes "list_all ok s" and "rest = [] \<or> \<not> ok (hd rest)"
  shows "takeWhile ok (s @ rest) = s" "dropWhile ok (s @ rest) = rest"
  using assms by (induction s; cases rest; auto)+

lemma chars_read: "list_all ok s \<Longrightarrow> s \<noteq> [] \<Longrightarrow> rest = [] \<or> \<not> ok (hd rest) \<Longrightarrow>
    p_chars ok (Some (s @ rest)) = Success (Some rest) s"
  by (simp add: p_chars_def take_raw)

lemma chars_fail: "s = [] \<or> \<not> ok (hd s) \<Longrightarrow> p_chars ok (Some s) = Failure"
  by (cases s) (auto simp: p_chars_def)

section \<open>The pieces of the grammar\<close>

lemma then_eval:
  "p i = Success j x \<Longrightarrow> p_then p f i = f x j"
  "p i = Failure \<Longrightarrow> p_then p f i = Failure"
  by (simp_all add: p_then_def)

lemma alt_eval:
  "p i = Failure \<Longrightarrow> p_alt (p # ps) i = p_alt ps i"
  "p i = Success j x \<Longrightarrow> p_alt (p # ps) i = Success j x"
  by simp_all

lemma ws_read: "\<not> is_space c \<Longrightarrow> p_ws (Some (c # s)) = Success (Some (c # s)) ()"
  by simp

lemma text_fail: "s = [] \<or> hd s \<noteq> c \<Longrightarrow> p_text c (Some s) = Failure"
  by (cases s) auto

lemma quoted_fail: "s = [] \<or> hd s \<noteq> CHR 0x22 \<Longrightarrow> quotedString (Some s) = Failure"
  by (cases s) auto

lemma escaped_read: "quoted_rest (escape_string s @ CHR 0x22 # rest) = (Some rest, s)"
  by (induction s) (simp_all add: quoted_rest_steps del: quoted_rest.simps(2))

lemma unescaped_read: "list_all (\<lambda>c. c \<notin> {CHR ''*'', CHR 0x22, CHR 0x5C}) s \<Longrightarrow>
    quoted_rest (s @ CHR 0x22 # rest) = (Some rest, s)"
  by (induction s) (simp_all add: quoted_rest_steps del: quoted_rest.simps(2))

lemma format_cases:
  assumes "numbers_ok lib"
  obtains (raw) "formatString lib s = s" "list_all isRawStringChar s" "s \<noteq> []"
  | (quoted) t where "formatString lib s = CHR 0x22 # t" "\<And>rest. quoted_rest (t @ rest) = (Some rest, s)"
proof (cases "ml_toNumber lib s")
  case None
  show ?thesis
  proof (cases "isRawString s")
    case True
    have "s \<noteq> []" using None assms by (auto simp: numbers_ok_def)
    then show ?thesis using True None by (intro raw) (simp_all add: formatString_def isRawString_def)
  next
    case False
    then show ?thesis using None
      by (intro quoted [of "escape_string s @ [CHR 0x22]"])
        (simp_all add: formatString_def escaped_read del: quoted_rest.simps(2))
  qed
next
  case (Some n)
  then have "list_all (\<lambda>c. c \<notin> {CHR ''*'', CHR 0x22, CHR 0x5C}) s"
    using assms by (simp add: numbers_ok_def)
  from unescaped_read [OF this] show ?thesis using Some
    by (intro quoted [of "s @ [CHR 0x22]"]) (simp_all add: formatString_def del: quoted_rest.simps(2))
qed

text \<open>A name or a string, as it is printed, followed by something that is not part of it.\<close>

lemma format_starts: "numbers_ok lib \<Longrightarrow> \<exists>c r. formatString lib s = c # r \<and> (c = CHR 0x22 \<or> isRawStringChar c)"
  by (rule format_cases [of lib s]) (auto simp: neq_Nil_conv)

lemma property_read:
  assumes "numbers_ok lib" and "rest = [] \<or> \<not> isRawStringChar (hd rest)"
  shows "p_property (Some (formatString lib s @ rest)) = Success (Some rest) s"
proof (rule format_cases [OF assms(1), of s], goal_cases)
  case raw: 1
  have "quotedString (Some (s @ rest)) = Failure"
    using raw not_raw [of "CHR 0x22"] by (intro quoted_fail) (auto simp: neq_Nil_conv)
  then show ?thesis using raw chars_read [OF raw(2,3) assms(2)]
    by (simp add: p_property_def rawString_def del: quoted_rest.simps(2))
next
  case (2 t)
  then show ?thesis by (simp add: p_property_def del: quoted_rest.simps(2))
qed

lemma property_fail: "s = [] \<or> hd s \<noteq> CHR 0x22 \<and> \<not> isRawStringChar (hd s) \<Longrightarrow> p_property (Some s) = Failure"
  by (auto simp: p_property_def rawString_def quoted_fail chars_fail)

lemma comparator_fail: "s = [] \<or> hd s \<noteq> CHR ''<'' \<and> hd s \<noteq> CHR ''>'' \<Longrightarrow> p_comparator (Some s) = Failure"
  by (cases s) auto

lemma group_fail: "s = [] \<or> hd s \<noteq> CHR ''('' \<Longrightarrow> p_group n t (Some s) = Failure"
  by (simp add: p_group_def then_eval text_fail)

lemma regex_read: "closed_regex b s \<Longrightarrow> regex_rest b c (s @ CHR ''/'' # rest) = Some (s, rest)"
  by (induction b s arbitrary: c rule: closed_regex.induct) auto

section \<open>The alternatives of a term\<close>

lemma alts_group:
  "p_group m t i = Success j ts \<Longrightarrow> p_alt (term_alternatives lib m t) i = Success j (new_And ts)"
  by (simp add: term_alternatives_def then_eval p_return_def)

lemma alts_or:
  assumes "p_group m t (Some (CHR ''('' # s)) = Success j ts"
  shows "p_alt (term_alternatives lib m t) (Some (CHR ''|'' # CHR ''('' # s)) = Success j (new_Or ts)"
  using assms by (simp add: term_alternatives_def then_eval p_return_def group_fail is_space_def)

lemma alts_not:
  assumes "t (Some (c # s)) = Success j x" and "\<not> is_space c"
  shows "p_alt (term_alternatives lib m t) (Some (CHR ''!'' # c # s)) = Success j (Not x)"
  using assms by (simp add: term_alternatives_def then_eval p_return_def group_fail)

lemma comparator_read:
  "v = [] \<or> hd v \<noteq> CHR ''='' \<Longrightarrow> p_comparator (Some (operator_string op @ v)) = Success (Some v) op"
  by (cases op; cases v) (auto simp: operator_string_def)

lemma alts_comparison:
  assumes "isRawString v" and "v \<noteq> []" and "ml_toNumber lib v = Some n" and "rest = [] \<or> \<not> isRawStringChar (hd rest)"
  shows "p_alt (term_alternatives lib m t) (Some (operator_string op @ v @ rest)) = Success (Some rest) (Comparison op n)"
proof -
  have "hd (v @ rest) \<noteq> CHR ''=''"
    using assms(1,2) not_raw [of "CHR ''=''"] by (auto simp: neq_Nil_conv isRawString_def)
  then have "p_comparator (Some (operator_string op @ v @ rest)) = Success (Some (v @ rest)) op"
    by (intro comparator_read) simp
  moreover have "rawString (Some (v @ rest)) = Success (Some rest) v"
    using assms by (simp add: rawString_def chars_read isRawString_def)
  moreover have "\<exists>c s. operator_string op @ v @ rest = c # s \<and> c \<notin> set ''(|!''"
    by (cases op) (simp_all add: operator_string_def)
  ultimately show ?thesis using assms(3)
    by (auto simp: term_alternatives_def then_eval group_fail p_build_def new_Comparison_def)
qed

lemma alts_late:
  assumes "s = [] \<or> hd s \<notin> set ''(|!<>''"
  shows "p_alt (term_alternatives lib m t) (Some s) = p_alt (drop 4 (term_alternatives lib m t)) (Some s)"
proof -
  have "p_group m t (Some s) = Failure" "p_text CHR ''|'' (Some s) = Failure"
    "p_text CHR ''!'' (Some s) = Failure" "p_comparator (Some s) = Failure"
    using assms by (auto intro!: group_fail text_fail comparator_fail)
  then show ?thesis by (simp add: term_alternatives_def then_eval)
qed

lemma name_late:
  assumes "numbers_ok lib"
  shows "hd (formatString lib s @ r) \<notin> set ''(|!<>''"
proof -
  obtain c t where "formatString lib s = c # t" "c = CHR 0x22 \<or> isRawStringChar c"
    using format_starts [OF assms, of s] by blast
  then show ?thesis using not_raw [of c] by auto
qed

lemma alts_property:
  assumes "numbers_ok lib" and "t (Some (c # s)) = Success j x" and "\<not> is_space c"
  shows "p_alt (term_alternatives lib m t) (Some (formatString lib name @ CHR '':'' # c # s)) = Success j (Property name x)"
proof -
  have "p_property (Some (formatString lib name @ CHR '':'' # c # s)) = Success (Some (CHR '':'' # c # s)) name"
    using not_raw [of "CHR '':''"] by (intro property_read [OF assms(1)]) simp
  then show ?thesis
    unfolding alts_late [OF disjI2, OF name_late [OF assms(1)]] using assms(2,3)
    by (simp add: term_alternatives_def then_eval p_return_def is_space_def)
qed

lemma alts_truthy:
  assumes "numbers_ok lib"
  shows "p_alt (term_alternatives lib m t) (Some (formatString lib name @ CHR ''?'' # rest)) = Success (Some rest) (TruthyProperty name)"
proof -
  have "p_property (Some (formatString lib name @ CHR ''?'' # rest)) = Success (Some (CHR ''?'' # rest)) name"
    using not_raw [of "CHR ''?''"] by (intro property_read [OF assms(1)]) simp
  then show ?thesis
    unfolding alts_late [OF disjI2, OF name_late [OF assms(1)]]
    by (simp add: term_alternatives_def then_eval p_return_def is_space_def)
qed

text \<open>A leaf: what follows the name, if the parser sees one, is neither a colon nor a question mark.\<close>

lemma alts_value:
  assumes "s = [] \<or> hd s \<notin> set ''(|!<>''"
    and "p_property (Some s) = Failure \<or> (\<exists>r name. p_property (Some s) = Success (Some r) name \<and>
      (r = [] \<or> hd r \<noteq> CHR ''?'') \<and> (dropWhile is_space r = [] \<or> hd (dropWhile is_space r) \<noteq> CHR '':''))"
  shows "p_alt (term_alternatives lib m t) (Some s) = p_value lib (Some s)"
proof -
  have single: "p_alt [p] i = p i" for p :: "('a, 'b) cm_node parser" and i
    by (cases "p i") simp_all
  show ?thesis
    unfolding alts_late [OF assms(1)] using assms(2)
    by (auto simp: term_alternatives_def then_eval text_fail single simp del: p_alt.simps simp add: alt_eval)
qed

lemma value_string:
  assumes "numbers_ok lib" and "follows rest"
  shows "p_alt (term_alternatives lib m t) (Some (formatString lib s @ rest)) = Success (Some rest) (StringNode s)"
proof -
  have rest: "rest = [] \<or> \<not> isRawStringChar (hd rest)" "rest = [] \<or> \<not> globChar (hd rest)"
    using assms(2) raw_glob by (auto simp: follows_def)
  have late: "p_alt (term_alternatives lib m t) (Some (formatString lib s @ rest)) = p_value lib (Some (formatString lib s @ rest))"
    using name_late [OF assms(1)] property_read [OF assms(1) rest(1), of s] assms(2)
    by (intro alts_value) (auto simp: follows_def)
  show ?thesis
  proof (rule format_cases [OF assms(1), of s], goal_cases)
    case raw: 1
    obtain d u where s: "s = d # u" using raw(3) by (cases s) auto
    have star: "CHR ''*'' \<notin> set s" using raw(2) not_raw [of "CHR ''*''"] by (auto simp: list_all_iff)
    have c: "hd (s @ rest) \<noteq> CHR 0x22" "hd (s @ rest) \<noteq> CHR ''/''"
      using raw(2) raw_not [of d] by (simp_all add: s)
    have "regex lib (Some (s @ rest)) = Failure" using c(2) raw(3) by (cases s) auto
    moreover have "globPattern (Some (s @ rest)) = Success (Some rest) s"
      unfolding globPattern_def using raw raw_glob rest(2) by (intro chars_read) (auto simp: list_all_iff)
    moreover have "ml_toNumber lib s = None" using raw by (auto simp: formatString_def split: if_splits)
    ultimately show ?thesis unfolding late using raw(1) c star
      by (simp add: p_value_def then_eval quoted_fail p_build_def new_GlobPattern_def)
  next
    case (2 q)
    then show ?thesis unfolding late
      by (simp add: p_value_def then_eval p_return_def del: quoted_rest.simps(2))
  qed
qed

lemma value_glob:
  assumes "list_all globChar s" and "s \<noteq> []" and "follows rest"
    and "if ml_toNumber lib s = None then new_GlobPattern lib s = Inr x else x = NumberOrString s"
  shows "p_alt (term_alternatives lib m t) (Some (s @ rest)) = Success (Some rest) x"
proof -
  have rest: "rest = [] \<or> \<not> globChar (hd rest)" using assms(3) by (auto simp: follows_def)
  have c: "hd (s @ rest) \<notin> set ''(|!<>/''" "hd (s @ rest) \<noteq> CHR 0x22"
    using assms(1,2) glob_not [of "hd s"] by (cases s; simp)+
  have q: "quotedString (Some (s @ rest)) = Failure" using c by (intro quoted_fail) simp
  let ?r = "dropWhile isRawStringChar (s @ rest)"
  have r: "?r = rest \<or> (\<exists>u. ?r = CHR ''*'' # u)"
    using assms(1)
  proof (induction s)
    case Nil
    show ?case using rest raw_glob by (cases rest) auto
  next
    case (Cons c s)
    then show ?case by (cases "isRawStringChar c") (auto simp: globChar_def)
  qed
  have "(?r = [] \<or> hd ?r \<noteq> CHR ''?'') \<and> (dropWhile is_space ?r = [] \<or> hd (dropWhile is_space ?r) \<noteq> CHR '':'')"
    using r
  proof (elim disjE exE)
    assume eq: "?r = rest"
    show ?thesis unfolding eq using assms(3) by (auto simp: follows_def)
  next
    fix u assume eq: "?r = CHR ''*'' # u"
    show ?thesis unfolding eq by (simp add: is_space_def)
  qed
  then have "p_alt (term_alternatives lib m t) (Some (s @ rest)) = p_value lib (Some (s @ rest))"
    using c q by (intro alts_value) (auto simp: p_property_def rawString_def p_chars_def)
  moreover have "regex lib (Some (s @ rest)) = Failure" using c(1) assms(2) by (cases s) auto
  moreover have "globPattern (Some (s @ rest)) = Success (Some rest) s"
    unfolding globPattern_def by (rule chars_read [OF assms(1,2) rest])
  ultimately show ?thesis using assms(4) q
    by (simp add: p_value_def then_eval p_build_def split: if_splits)
qed

lemma value_regex:
  assumes "closed_regex False src" and "flags \<in> {'''', ''i''}" and "ml_newRegExp lib src flags = Some re" and "follows rest"
  shows "p_alt (term_alternatives lib m t) (Some (CHR ''/'' # src @ CHR ''/'' # flags @ rest)) = Success (Some rest) (RegExpNode re)"
proof -
  let ?s = "CHR ''/'' # src @ CHR ''/'' # flags @ rest"
  have q: "quotedString (Some ?s) = Failure" by (rule quoted_fail) simp
  have "p_property (Some ?s) = Failure" using not_raw [of "CHR ''/''"] by (intro property_fail) simp
  then have "p_alt (term_alternatives lib m t) (Some ?s) = p_value lib (Some ?s)" by (intro alts_value) auto
  moreover have "\<not> (\<exists>u. rest = CHR ''i'' # u)"
    using assms(4) raw_glob [of "CHR ''i''"] by (auto simp: follows_def isRawStringChar_def)
  then have "regex lib (Some ?s) = Success (Some rest) (RegExpNode re)"
    using assms(2,3) regex_read [OF assms(1), of None "flags @ rest"]
    by (auto simp: p_build_def new_RegExpNode_def split: list.split)
  ultimately show ?thesis using q by (simp add: p_value_def then_eval)
qed

section \<open>Reading back\<close>

lemma node_starts:
  assumes "shaped lib x" and "readable lib x" and "numbers_ok lib"
  shows "\<exists>c r. node_toString lib True x = c # r \<and> starts c"
proof (cases x)
  case (Comparison op n)
  then show ?thesis by (cases op) (simp_all add: operator_string_def starts_def)
next
  case (Property name child)
  then show ?thesis using format_starts [OF assms(3), of name] by (auto simp: starts_def globChar_def)
next
  case (StringNode s)
  then show ?thesis using format_starts [OF assms(3), of s] by (auto simp: starts_def globChar_def)
next
  case (TruthyProperty name)
  then show ?thesis using format_starts [OF assms(3), of name] by (auto simp: starts_def globChar_def)
next
  case (GlobPattern s)
  then show ?thesis using assms(1) by (cases s) (auto simp: starts_def)
next
  case (NumberOrString s)
  then show ?thesis using assms(1) by (cases s) (auto simp: starts_def)
qed (use assms(1) in \<open>simp_all add: starts_def Let_def\<close>)

text \<open>A parser \<open>t\<close> that reads the nodes \<open>cs\<close> one by one reads them all.\<close>

definition reads :: "('n, 'r) matcher_lib \<Rightarrow> ('n, 'r) cm_node parser \<Rightarrow> ('n, 'r) cm_node \<Rightarrow> bool" where
  "reads lib t x \<longleftrightarrow> (\<forall>rest. follows rest \<longrightarrow>
     t (Some (node_toString lib True x @ rest)) = Success (Some (dropWhile is_space rest)) x)"

lemma readsD: "reads lib t x \<Longrightarrow> follows rest \<Longrightarrow>
    t (Some (node_toString lib True x @ rest)) = Success (Some (dropWhile is_space rest)) x"
  by (simp add: reads_def)

lemma join_starts:
  assumes "cs \<noteq> []" and "\<And>c. c \<in> set cs \<Longrightarrow> \<exists>d r. f c = d # r \<and> starts d"
  shows "\<exists>d r. join '' '' (map f cs) = d # r \<and> starts d"
proof -
  obtain c cs' where cs: "cs = c # cs'" using assms(1) by (cases cs) auto
  obtain d r where "f c = d # r" "starts d" using assms(2) [of c] cs by auto
  then show ?thesis using cs by (cases cs') auto
qed

lemma join_Cons: "cs \<noteq> [] \<Longrightarrow> join sep (c # cs) = c @ sep @ join sep cs"
  by (cases cs) simp_all

lemma repeat_reads:
  assumes "cs \<noteq> []" and "\<And>c. c \<in> set cs \<Longrightarrow> reads lib t c"
    and "\<And>c. c \<in> set cs \<Longrightarrow> \<exists>d r. node_toString lib True c = d # r \<and> starts d"
    and "follows rest" and stop: "t (Some (dropWhile is_space rest)) = Failure" and "length cs < k"
  shows "p_repeat k t (Some (join '' '' (map (node_toString lib True) cs) @ rest)) = Success (Some (dropWhile is_space rest)) cs"
  using assms(1-4,6)
proof (induction cs arbitrary: k)
  case (Cons c cs)
  obtain k' where k: "k = Suc k'" using Cons.prems(5) by (cases k) auto
  show ?case
  proof (cases "cs = []")
    case True
    obtain k'' where "k' = Suc k''" using Cons.prems(5) True k by (cases k') auto
    then show ?thesis using True k readsD [OF Cons.prems(2) Cons.prems(4)] stop
      by (simp add: then_eval p_return_def)
  next
    case False
    let ?more = "join '' '' (map (node_toString lib True) cs) @ rest"
    obtain d r where d: "?more = d # r" "starts d"
      using join_starts [OF False, of "node_toString lib True"] Cons.prems(3) by fastforce
    have "t (Some (node_toString lib True c @ CHR '' '' # ?more)) = Success (Some ?more) c"
      using readsD [OF Cons.prems(2) follows_space [OF d(2)], of c r] starts_not [OF d(2)] unfolding d(1)
      by (simp add: is_space_def)
    moreover have "p_repeat k' t (Some ?more) = Success (Some (dropWhile is_space rest)) cs"
      using Cons.prems k by (intro Cons.IH [OF False]) auto
    ultimately show ?thesis using False k
      by (simp add: join_Cons then_eval p_return_def)
  qed
qed simp

lemma repeat1_repeat: "p_repeat (Suc n) t i = Success j xs \<Longrightarrow> xs \<noteq> [] \<Longrightarrow> p_repeat1 n t i = Success j xs"
  by (cases "t i") (auto simp: p_repeat1_def p_then_def split: parsed.splits)

lemma group_reads:
  assumes "cs \<noteq> []" and "\<And>c. c \<in> set cs \<Longrightarrow> reads lib t c"
    and "\<And>c. c \<in> set cs \<Longrightarrow> \<exists>d r. node_toString lib True c = d # r \<and> starts d"
    and stop: "\<And>r. t (Some (CHR '')'' # r)) = Failure" and "length cs \<le> m"
  shows "p_group m t (Some (CHR ''('' # join '' '' (map (node_toString lib True) cs) @ CHR '')'' # rest)) = Success (Some rest) cs"
proof -
  let ?s = "join '' '' (map (node_toString lib True) cs) @ CHR '')'' # rest"
  obtain d r where d: "?s = d # r" "\<not> is_space d"
    using join_starts [OF assms(1,3)] starts_not by fastforce
  have "dropWhile is_space (CHR '')'' # rest) = CHR '')'' # rest" by (simp add: is_space_def)
  then have "p_repeat (Suc m) t (Some ?s) = Success (Some (CHR '')'' # rest)) cs"
    using repeat_reads [OF assms(1-3) follows_paren, of rest "Suc m"] stop assms(5) by simp
  then have "p_repeat1 m t (Some ?s) = Success (Some (CHR '')'' # rest)) cs"
    using assms(1) by (rule repeat1_repeat)
  moreover have "p_ws (Some ?s) = Success (Some ?s) ()" using d by simp
  ultimately show ?thesis by (simp add: p_group_def then_eval p_return_def)
qed

lemma term_stop:
  assumes "0 < n"
  shows "p_term n lib (Some []) = Failure" and "p_term n lib (Some (CHR '')'' # r)) = Failure"
proof -
  have stop: "p_term (Suc m) lib (Some s) = Failure" if "s = [] \<or> s = CHR '')'' # r" for s m
  proof -
    have fail: "p_property (Some s) = Failure" "quotedString (Some s) = Failure" "globPattern (Some s) = Failure"
      "regex lib (Some s) = Failure"
      using that not_raw [of "CHR '')''"] not_glob [of "CHR '')''"]
      by (auto simp: globPattern_def intro!: property_fail quoted_fail chars_fail)
    then have "p_alt (term_alternatives lib (Suc m) (p_term m lib)) (Some s) = p_value lib (Some s)"
      using that by (intro alts_value) auto
    also have "\<dots> = Failure" using fail by (simp add: p_value_def then_eval)
    finally show ?thesis by (simp add: p_skip_def then_eval)
  qed
  show "p_term n lib (Some []) = Failure" "p_term n lib (Some (CHR '')'' # r)) = Failure"
    using assms stop [of "[]"] stop [of "CHR '')'' # r"] by (cases n; simp)+
qed

lemma term_reads:
  assumes "\<And>rest. follows rest \<Longrightarrow>
    \<exists>r \<in> {rest, dropWhile is_space rest}.
      p_alt (term_alternatives lib (Suc m) (p_term m lib)) (Some (node_toString lib True x @ rest)) = Success (Some r) x"
  shows "reads lib (p_term (Suc m) lib) x"
  using assms by (fastforce simp: reads_def p_skip_def then_eval p_return_def)

lemma length_join: "w \<in> set ws \<Longrightarrow> length w \<le> length (join sep ws)"
  by (induction sep ws rule: join.induct) auto

lemma count_join: "\<forall>w \<in> set ws. w \<noteq> [] \<Longrightarrow> length ws \<le> length (join sep ws)"
proof (induction sep ws rule: join.induct)
  case (3 sep w v ws)
  then have "1 \<le> length w" by (cases w) auto
  then show ?case using 3 by simp
qed (auto simp: Suc_le_eq)

lemma children_read:
  assumes "numbers_ok lib" and len: "2 \<le> length cs" and "list_all (shaped lib) cs" and "list_all (readable lib) cs"
    and IH: "\<And>c n. c \<in> set cs \<Longrightarrow> length (node_toString lib True c) \<le> n \<Longrightarrow> reads lib (p_term n lib) c"
    and m: "length (join '' '' (map (node_toString lib True) cs)) \<le> m"
  shows "p_group (Suc m) (p_term m lib) (Some (CHR ''('' # join '' '' (map (node_toString lib True) cs) @ CHR '')'' # rest)) =
    Success (Some rest) cs"
proof (rule group_reads)
  have heads: "\<exists>d r. node_toString lib True c = d # r \<and> starts d" if "c \<in> set cs" for c
    using assms(1,3,4) that by (intro node_starts) (auto simp: list_all_iff)
  show "cs \<noteq> []" using len by auto
  show "\<And>c. c \<in> set cs \<Longrightarrow> \<exists>d r. node_toString lib True c = d # r \<and> starts d" by (rule heads)
  show "reads lib (p_term m lib) c" if "c \<in> set cs" for c
    using m length_join [of "node_toString lib True c" "map (node_toString lib True) cs" "'' ''"] that
    by (intro IH) auto
  have "length cs \<le> length (join '' '' (map (node_toString lib True) cs))"
    using count_join [of "map (node_toString lib True) cs" "'' ''"] heads by fastforce
  then have "length cs \<le> m" using m by simp
  then show "length cs \<le> Suc m" by simp
  show "p_term m lib (Some (CHR '')'' # r)) = Failure" for r
    using \<open>length cs \<le> m\<close> len by (intro term_stop) simp
qed

text \<open>The nodes with a child, and the leaves.\<close>

lemma not_reads:
  assumes "reads lib (p_term m lib) x" and "node_toString lib True x = c # r" and "starts c"
  shows "reads lib (p_term (Suc m) lib) (Not x)"
proof (rule term_reads)
  fix rest assume "follows rest"
  then have "p_term m lib (Some (c # r @ rest)) = Success (Some (dropWhile is_space rest)) x"
    using readsD [OF assms(1)] assms(2) by fastforce
  from alts_not [of "p_term m lib", OF this] show "\<exists>r \<in> {rest, dropWhile is_space rest}.
      p_alt (term_alternatives lib (Suc m) (p_term m lib)) (Some (node_toString lib True (Not x) @ rest)) = Success (Some r) (Not x)"
    using starts_not [OF assms(3)] assms(2) by simp
qed

lemma property_reads:
  assumes "numbers_ok lib" and "reads lib (p_term m lib) x" and "node_toString lib True x = c # r" and "starts c"
  shows "reads lib (p_term (Suc m) lib) (Property name x)"
proof (rule term_reads)
  fix rest assume "follows rest"
  then have "p_term m lib (Some (c # r @ rest)) = Success (Some (dropWhile is_space rest)) x"
    using readsD [OF assms(2)] assms(3) by fastforce
  from alts_property [of lib "p_term m lib", OF assms(1) this] show "\<exists>r \<in> {rest, dropWhile is_space rest}.
      p_alt (term_alternatives lib (Suc m) (p_term m lib)) (Some (node_toString lib True (Property name x) @ rest)) =
      Success (Some r) (Property name x)"
    using starts_not [OF assms(4)] assms(3) by simp
qed

lemma leaf_reads:
  assumes "numbers_ok lib" and "shaped lib x" and "readable lib x"
    and leaf: "case x of And _ \<Rightarrow> False | Or _ \<Rightarrow> False | Not _ \<Rightarrow> False | Property _ _ \<Rightarrow> False | _ \<Rightarrow> True"
  shows "reads lib (p_term (Suc m) lib) x"
proof (rule term_reads)
  fix rest assume rest: "follows rest"
  have raw: "rest = [] \<or> \<not> isRawStringChar (hd rest)" using rest raw_glob by (auto simp: follows_def)
  let ?t = "p_term m lib"
  have "p_alt (term_alternatives lib (Suc m) ?t) (Some (node_toString lib True x @ rest)) = Success (Some rest) x"
  proof (cases x)
    case (Comparison op n)
    then show ?thesis using alts_comparison [of "ml_toString lib n" lib n rest "Suc m" ?t op] assms(3) raw by simp
  next
    case (NumberOrString s)
    then show ?thesis using value_glob [of s rest lib x "Suc m" ?t] assms(2) rest by auto
  next
    case (GlobPattern s)
    moreover have "s \<noteq> []" using GlobPattern assms(2) by auto
    ultimately show ?thesis using value_glob [of s rest lib x "Suc m" ?t] assms(2) rest
      by (auto simp: new_GlobPattern_def)
  next
    case (RegExpNode re)
    then show ?thesis using value_regex [of "ml_source lib re" "ml_flags lib re" lib re rest "Suc m" ?t] assms(3) rest by simp
  next
    case (StringNode s)
    then show ?thesis using value_string [OF assms(1) rest] by simp
  next
    case (TruthyProperty name)
    then show ?thesis using alts_truthy [OF assms(1), of "Suc m" ?t name rest] by simp
  qed (use assms(2) leaf in simp_all)
  then show "\<exists>r \<in> {rest, dropWhile is_space rest}.
      p_alt (term_alternatives lib (Suc m) ?t) (Some (node_toString lib True x @ rest)) = Success (Some r) x" by blast
qed

lemma new_nodes:
  "2 \<le> length cs \<Longrightarrow> new_And cs = And cs" "2 \<le> length cs \<Longrightarrow> new_Or cs = Or cs"
  by (auto simp: new_And_def new_Or_def split: list.splits)

lemma node_reads:
  assumes lib: "numbers_ok lib"
  shows "shaped lib x \<Longrightarrow> readable lib x \<Longrightarrow> length (node_toString lib True x) \<le> n \<Longrightarrow> reads lib (p_term n lib) x"
proof (induction x arbitrary: n)
  case (And cs)
  then obtain m where n: "n = Suc m" by (cases n) (auto simp: Let_def)
  have "p_group (Suc m) (p_term m lib) (Some (CHR ''('' # join '' '' (map (node_toString lib True) cs) @ CHR '')'' # rest)) =
      Success (Some rest) cs" for rest
    using And n by (intro children_read [OF lib]) (auto simp: list_all_iff Let_def)
  from alts_group [OF this] show ?case unfolding n using And.prems
    by (intro term_reads) (simp add: new_nodes Let_def)
next
  case (Or cs)
  then obtain m where n: "n = Suc m" by (cases n) auto
  have "p_group (Suc m) (p_term m lib) (Some (CHR ''('' # join '' '' (map (node_toString lib True) cs) @ CHR '')'' # rest)) =
      Success (Some rest) cs" for rest
    using Or n by (intro children_read [OF lib]) (auto simp: list_all_iff)
  from alts_or [OF this] show ?case unfolding n using Or.prems
    by (intro term_reads) (simp add: new_nodes)
next
  case (Not x)
  then obtain m where n: "n = Suc m" by (cases n) auto
  obtain c r where c: "node_toString lib True x = c # r" "starts c"
    using node_starts [OF _ _ lib, of x] Not.prems by auto
  show ?case unfolding n using Not n by (intro not_reads [OF _ c]) auto
next
  case (Property name x)
  then obtain m where n: "n = Suc m" by (cases n) auto
  obtain c r where c: "node_toString lib True x = c # r" "starts c"
    using node_starts [OF _ _ lib, of x] Property.prems by auto
  show ?case unfolding n using Property n by (intro property_reads [OF lib _ c]) auto
qed (use node_starts [OF _ _ lib] leaf_reads [OF lib] in \<open>(case_tac n; fastforce)+\<close>)

definition top_nodes :: "('n, 'r) cm_node \<Rightarrow> ('n, 'r) cm_node list" where
  "top_nodes x = (case x of And cs \<Rightarrow> cs | _ \<Rightarrow> [x])"

lemma top_nodes:
  assumes "shaped lib x" and "readable lib x"
  shows "node_toString lib False x = join '' '' (map (node_toString lib True) (top_nodes x))"
    and "top_nodes x \<noteq> []" and "\<And>c. c \<in> set (top_nodes x) \<Longrightarrow> shaped lib c \<and> readable lib c"
    and "new_And (top_nodes x) = x"
  using assms by (cases x; auto simp: top_nodes_def Let_def list_all_iff new_nodes new_And_def split: list.splits)+

lemma print_parse:
  assumes lib: "numbers_ok lib" and x: "x = Null \<or> shaped lib x \<and> readable lib x"
  shows "cm_parse lib (node_toString lib False x) = Some (Inr x)"
  using x
proof
  assume "x = Null"
  then show ?thesis using term_stop(1) [of 1 lib]
    by (simp add: cm_parse_def p_default_def then_eval p_return_def p_eof_def)
next
  assume x: "shaped lib x \<and> readable lib x"
  let ?cs = "top_nodes x" and ?s = "node_toString lib False x"
  let ?t = "p_term (Suc (length ?s)) lib"
  note top = top_nodes [OF conjunct1 [OF x] conjunct2 [OF x]]
  have heads: "\<exists>d r. node_toString lib True c = d # r \<and> starts d" if "c \<in> set ?cs" for c
    using node_starts [OF _ _ lib] top(3) [OF that] by blast
  have reads: "reads lib ?t c" if "c \<in> set ?cs" for c
    using top(3) [OF that] that length_join [of "node_toString lib True c" "map (node_toString lib True) ?cs" "'' ''"]
    by (intro node_reads [OF lib]) (auto simp: top(1) le_SucI)
  have "length ?cs \<le> length ?s"
    using count_join [of "map (node_toString lib True) ?cs" "'' ''"] heads by (fastforce simp: top(1))
  then have "p_repeat (Suc (length ?s)) ?t (Some ?s) = Success (Some []) ?cs"
    using repeat_reads [OF top(2) reads heads follows_nil, of "Suc (length ?s)"] term_stop(1) [of "Suc (length ?s)" lib]
    by (simp add: top(1))
  moreover have "p_ws (Some ?s) = Success (Some ?s) ()"
    using join_starts [OF top(2) heads] starts_not by (fastforce simp: top(1))
  ultimately show ?thesis using top(2,4)
    by (simp add: cm_parse_def p_default_def then_eval p_return_def p_eof_def)
qed

text \<open>What is parsed and printed is parsed as the same tree.\<close>

lemma parse_print_parse:
  assumes "numbers_ok lib" and "cm_parse lib input = Some (Inr x)" and "readable lib x"
  shows "cm_parse lib (node_toString lib False x) = Some (Inr x)"
  using print_parse [OF assms(1)] parse_shaped [OF assms(2)] assms(3) by blast

lemma parse_ends: "\<exists>r. cm_parse lib input = Some r"
  using parse_enough_fuel [of input lib] by (cases "p_default (Suc (length input)) lib (Some input)") (auto simp: cm_parse_def)

end
