(* ===== verification/Complex_Matcher_Clauses.thy ===== *)
theory Complex_Matcher_Clauses
  imports Complex_Matcher_Print Cron_Props
begin

text \<open>
  The clauses of the search syntax, and an instance of the parameter: numbers are natural numbers, written
  in decimal, and a regular expression matches what contains its source.
\<close>

section \<open>Setting a clause\<close>

lemma match_new_And: "match lib (new_And cs) v \<longleftrightarrow> list_all (\<lambda>c. match lib c v) cs"
  by (simp add: new_And_def split: list.split)

definition clause_of :: "string \<Rightarrow> (string + ('n, 'r) cm_node) \<Rightarrow> ('n, 'r) cm_node" where
  "clause_of name child = Property name (case child of Inl s \<Rightarrow> StringNode s | Inr x \<Rightarrow> x)"

lemma set_clause:
  "child \<noteq> Some (Inl []) \<Longrightarrow> setPropertyClause (Some node) name child =
     Some (Some (new_And (filter (\<lambda>c. \<not> is_clause name c) (top_nodes node) @
       (case child of None \<Rightarrow> [] | Some c \<Rightarrow> [clause_of name c]))))"
  by (simp add: setPropertyClause_def Let_def top_nodes_def clause_of_def split: option.split)

lemma set_clause_match:
  assumes "setPropertyClause (Some node) name child = Some (Some node')"
  shows "match lib node' v \<longleftrightarrow>
     list_all (\<lambda>c. is_clause name c \<or> match lib c v) (top_nodes node) \<and>
     (case child of None \<Rightarrow> True | Some c \<Rightarrow> match lib (clause_of name c) v)"
proof -
  have "child \<noteq> Some (Inl [])" using assms by (auto simp: setPropertyClause_def)
  from set_clause [OF this, of node name] show ?thesis using assms
    by (auto simp: match_new_And list_all_iff split: option.split)
qed

lemma top_set_clause:
  "top_nodes (new_And (cs @ [clause_of name c])) = cs @ [clause_of name c]"
  by (cases cs) (simp_all add: new_And_def top_nodes_def clause_of_def split: list.split)

lemma set_clause_twice:
  assumes "setPropertyClause (Some node) name (Some c) = Some (Some node')"
  shows "setPropertyClause (Some node') name child = setPropertyClause (Some node) name child"
proof -
  have "is_clause name (clause_of name c)" by (simp add: is_clause_def clause_of_def)
  moreover have c: "Some c \<noteq> Some (Inl [])" using assms by (auto simp: setPropertyClause_def)
  ultimately show ?thesis using assms set_clause [OF c, of node name]
    by (cases "child = Some (Inl [])") (auto simp: set_clause top_set_clause setPropertyClause_def [of _ _ "Some (Inl [])"])
qed

section \<open>The strings of the clauses\<close>

text \<open>A clause that only asks for strings.\<close>

definition only_strings :: "('n, 'r) cm_node \<Rightarrow> bool" where
  "only_strings child \<longleftrightarrow>
     (case child of
        StringNode _ \<Rightarrow> True
      | Or cs \<Rightarrow> list_all (\<lambda>c. case c of StringNode _ \<Rightarrow> True | _ \<Rightarrow> False) cs
      | _ \<Rightarrow> False)"

definition matches_string :: "string \<Rightarrow> string \<Rightarrow> bool" where
  "matches_string s t \<longleftrightarrow> contains (toLowerCase s) (toLowerCase t)"

lemma string_match: "match lib (StringNode s) (JString t) \<longleftrightarrow> matches_string s t"
  by (simp add: match_string_def matches_string_def)

lemma clause_strings:
  assumes "only_strings child" and "match lib child (JString t)"
  shows "\<exists>s \<in> set (getPropertyClauseStrings lib child). matches_string s t"
proof (cases child)
  case (StringNode s)
  then show ?thesis using assms(2) string_match [of lib s t] by (simp add: getPropertyClauseStrings_def node_strings_def)
next
  case (Or cs)
  then obtain c where "c \<in> set cs" "match lib c (JString t)" using assms(2) by (auto simp: list_ex_iff)
  moreover have "case c of StringNode _ \<Rightarrow> True | _ \<Rightarrow> False"
    using assms(1) \<open>c \<in> set cs\<close> Or by (simp add: only_strings_def list_all_iff)
  then obtain s where "c = StringNode s" by (cases c) auto
  ultimately show ?thesis using Or string_match [of lib s t]
    by (auto simp: getPropertyClauseStrings_def node_strings_def intro!: bexI [of _ c])
qed (use assms(1) in \<open>simp_all add: only_strings_def\<close>)

lemma gathered_strings:
  assumes "res_fold (add_clause_strings lib) cs Map.empty = Inr strings" and "strings name = Some vs"
  shows "\<exists>child. Property name child \<in> set cs \<and> set (getPropertyClauseStrings lib child) \<subseteq> set vs"
proof -
  let ?P = "\<lambda>m. \<forall>vs. m name = Some vs \<longrightarrow>
    (\<exists>child. Property name child \<in> set cs \<and> set (getPropertyClauseStrings lib child) \<subseteq> set vs)"
  have "?P strings"
  proof (rule res_fold_invariant [OF assms(1)])
    fix c m m' assume c: "c \<in> set cs" and P: "?P m" and step: "add_clause_strings lib c m = Inr m'"
    show "?P m'"
    proof (cases c)
      case (Property n child)
      then show ?thesis
        using c P step by (fastforce simp: add_clause_strings_def split: option.splits if_splits)
    qed (use P step in \<open>simp_all add: add_clause_strings_def\<close>)
  qed simp
  then show ?thesis using assms(2) by blast
qed

lemma clauses_strings:
  assumes strings: "getPropertyClausesStrings lib (Some node) = Inr strings" "strings name = Some vs"
    and only: "\<forall>child. Property name child \<in> set (top_nodes node) \<longrightarrow> only_strings child"
    and v: "match lib node v" "js_get lib v name = JString t"
  shows "\<exists>s \<in> set vs. matches_string s t"
proof -
  have "\<exists>child. Property name child \<in> set (top_nodes node) \<and> set (getPropertyClauseStrings lib child) \<subseteq> set vs"
    using strings gathered_strings [of lib _ strings name vs]
    by (cases node) (auto simp: getPropertyClausesStrings_def top_nodes_def split: if_splits)
  then obtain child where child: "Property name child \<in> set (top_nodes node)"
    "set (getPropertyClauseStrings lib child) \<subseteq> set vs" by blast
  have "match lib (Property name child) v"
    using child(1) v(1) by (cases node) (auto simp: top_nodes_def list_all_iff)
  then have "match lib child (JString t)" using v(2) by simp
  then show ?thesis using clause_strings only child by blast
qed

section \<open>An instance\<close>

definition ex_lib :: "(nat, string \<times> string) matcher_lib" where
  "ex_lib = \<lparr>ml_toNumber = (\<lambda>s. if list_all isDigit s then Some (digits_value s) else None),
     ml_toString = show_nat, ml_less = (<), ml_isZero = (\<lambda>n. n = 0), ml_coerce = (\<lambda>_. None),
     ml_inherited = (\<lambda>_ name. if name = ''constructor'' then JOther 0 else JUndefined),
     ml_newRegExp = (\<lambda>p f. Some (p, f)), ml_test = (\<lambda>(p, _) s. contains p s), ml_source = fst, ml_flags = snd,
     ml_escapeRegExp = id\<rparr>"

lemma ex_numbers_ok: "numbers_ok ex_lib"
  by (auto simp: numbers_ok_def ex_lib_def list_all_iff isDigit_def split: if_splits)

end
