(* ===== verification/Library_Properties.thy ===== *)
theory Library_Properties
  imports Async_Each_Props Task_Props Complex_Matcher_Clauses
begin

text \<open>
  The properties of the small libraries of \<open>@vates\<close>, each with an instance of its hypotheses.
\<close>

section \<open>Calling a function on many items\<close>


text \<open>One item, a call that is pending, and the abort of the signal.\<close>

lemma one_item_run:
  fixes o' defines "o' \<equiv> \<lparr>eo_concurrency = 1, eo_stopOnError = True\<rparr>"
  shows "(each_step o')\<^sup>*\<^sup>* (asyncEach o' True (map Inr [7 :: nat]) :: (nat, string) each)
     (each_abort o' ''aborted'' (each_resume o' Pending (asyncEach o' True (map Inr [7]))))"
proof -
  have "each_step o' (asyncEach o' True (map Inr [7 :: nat]) :: (nat, string) each)
      (each_resume o' Pending (asyncEach o' True (map Inr [7])))"
    by (rule each_resumes) (simp add: each_eval o'_def)
  moreover have "each_step o' (each_resume o' Pending (asyncEach o' True (map Inr [7 :: nat])) :: (nat, string) each)
      (each_abort o' ''aborted'' (each_resume o' Pending (asyncEach o' True (map Inr [7]))))"
    by (rule each_aborted) (simp add: each_eval o'_def)
  ultimately show ?thesis by (meson rtranclp.rtrancl_into_rtrancl rtranclp.rtrancl_refl)
qed

lemma one_item_signal: "\<not> True \<or> eo_stopOnError \<lparr>eo_concurrency = 1, eo_stopOnError = True\<rparr>"
  by simp


text \<open>
  C33: As long as its promise is not settled, \<open>asyncEach\<close> goes on, and every step it makes, whatever the
  calls do and whenever the signal aborts, brings it closer to the end: on an iterable that does not fail,
  the promise is settled after at most one step per item, one per call, one for the end of the iterable and
  one for the signal. This is for calls without a signal, or with \<open>stopOnError\<close>: with a signal and without
  \<open>stopOnError\<close>, the promise may stay pending for ever after an abort (lemma \<open>aborted_each_stuck\<close>).
\<close>

theorem asyncEach_settles:
  assumes "\<not> signal \<or> eo_stopOnError o'"
    and "(each_step o')\<^sup>*\<^sup>* (asyncEach o' signal (map Inr xs)) s"
  shows "(ae_settled s \<noteq> None \<or> (\<exists>s'. each_step o' s s')) \<and> each_left s \<le> 2 * length xs + (if signal then 2 else 1) \<and>
    (\<forall>s'. \<not> each_step o' s s' \<or> each_left s' < each_left s)"
proof -
  have inv: "each_inv o' xs s" by (rule run_inv_each [OF assms(2) start_inv [OF assms(1)]])
  have "each_inv o' xs t \<and> each_left t \<le> 2 * length xs + (if signal then 2 else 1)"
    if "(each_step o')\<^sup>*\<^sup>* (asyncEach o' signal (map Inr xs)) t" for t
    using that
  proof (induction rule: rtranclp_induct)
    case base
    have "each_left (asyncEach o' signal (map Inr xs)) \<le> 2 * length xs + (if signal then 2 else 1)"
      unfolding asyncEach_def by (rule order_trans [OF left_handlers(1)]) (simp add: each_left_def)
    then show ?case using start_inv [OF assms(1)] by blast
  next
    case (step t u)
    then show ?case using step_left [of o' t u xs] step_inv [of o' t u xs] by simp
  qed
  then show ?thesis using assms not_stuck [OF inv] step_left [OF _ inv] by blast
qed

theorem asyncEach_settles_witness:
  "each_left (each_abort \<lparr>eo_concurrency = 1, eo_stopOnError = True\<rparr> ''aborted''
    (each_resume \<lparr>eo_concurrency = 1, eo_stopOnError = True\<rparr> Pending
     (asyncEach \<lparr>eo_concurrency = 1, eo_stopOnError = True\<rparr> True (map Inr [7 :: nat]) :: (nat, string) each))) \<le> 4"
  using asyncEach_settles [OF one_item_signal one_item_run] by simp

text \<open>
  An iterable that fails, without \<open>stopOnError\<close>, leaves the promise pending for ever, with a negative
  number of running calls; and with \<open>stopOnError\<close>, the function is still called on another item after a
  call has failed and the promise is rejected.
\<close>

theorem asyncEach_hangs:
  "(\<exists>s. (each_step \<lparr>eo_concurrency = 1, eo_stopOnError = False\<rparr>)\<^sup>*\<^sup>* failing_each s \<and> ae_settled s = None \<and>
      ae_running s = -1 \<and> (\<nexists>s'. each_step \<lparr>eo_concurrency = 1, eo_stopOnError = False\<rparr> s s')) \<and>
   (\<exists>s s'. (each_step \<lparr>eo_concurrency = 2, eo_stopOnError = True\<rparr>)\<^sup>*\<^sup>* throwing_each s \<and>
      ae_settled s = Some (Rejected ''failed'') \<and> ae_calls s = [(10, 0)] \<and>
      each_step \<lparr>eo_concurrency = 2, eo_stopOnError = True\<rparr> s s' \<and> ae_calls s' = [(10, 0), (20, 1)])"
  by (rule conjI [OF failing_each_stuck throwing_each_goes_on])

section \<open>Tasks\<close>

text \<open>
  C18: Whatever methods of the tasks are called, in any order, and whenever the functions they run return or
  throw, the events a listener gets of one task are a start, then what happens, then at most one end, which
  is the last event and tells the status of the task; a task that has ended is not running.
\<close>

theorem task_events:
  assumes "task_step\<^sup>*\<^sup>* no_tasks w" and "tw_task w i = Some t"
  shows "task_log (tk_status t) (events_of i w) \<and>
    (tk_status t = PENDING \<or> \<not> tk_running t \<and> tk_onProgress t = AlreadyEnded) \<and> length (tk_calls t) \<le> 1"
  using tasks_invD [OF tasks_reach_inv [OF assms(1)] assms(2)] by (auto simp: task_ok_def)

text \<open>A task, and a task inside of it, that is started.\<close>

definition ex_tasks :: "string tasks" where
  "ex_tasks = task_call (CallStartTask 1) (task_call (CallNew ''child'' None (Some 0))
     (task_call (CallRun True 0) (task_call (CallNew ''parent'' (Some 5) None) no_tasks)))"

lemma call_reach: "task_step\<^sup>*\<^sup>* w w' \<Longrightarrow> task_step\<^sup>*\<^sup>* w (task_call c w')"
  by (erule rtranclp.rtrancl_into_rtrancl) (rule task_calls)

lemma ex_tasks_reach: "task_step\<^sup>*\<^sup>* no_tasks ex_tasks"
  unfolding ex_tasks_def by (intro call_reach rtranclp.rtrancl_refl)

lemmas task_eval = ex_tasks_def no_tasks_def task_call_def new_task_def task_run_def task_start_def
  task_maybeStart_def task_emit_def task_then_def task_assert_def task_update_def on_task_def events_of_def

lemma ex_tasks_child: "tw_task ex_tasks 1 =
    Some \<lparr>tk_startData = None, tk_status = PENDING, tk_running = False, tk_onProgress = Listener 5,
      tk_aborted = None, tk_children = [], tk_calls = [], tk_results = []\<rparr>"
  by (simp add: task_eval)

theorem task_events_witness:
  "events_of 1 ex_tasks = [EvStart ''child'' (Some 0)] \<and> task_log PENDING (events_of 1 ex_tasks)"
proof
  show "events_of 1 ex_tasks = [EvStart ''child'' (Some 0)]" by (simp add: task_eval)
  show "task_log PENDING (events_of 1 ex_tasks)"
    using task_events [OF ex_tasks_reach ex_tasks_child] by simp
qed

text \<open>
  Aborting a task that is pending tells its listener, and the task fails at once with the reason, unless
  it is running: then it is only asked to end, and stays pending.
\<close>

theorem task_abort_ends:
  assumes "task_step\<^sup>*\<^sup>* no_tasks w" and "tw_task w i = Some t" and "tk_status t = PENDING"
    and "tk_aborted t = None" and "tk_onProgress t \<noteq> AlreadyEnded"
  shows "\<exists>t' es. tw_task (abort_task i reason w) i = Some t' \<and> tk_running t' = tk_running t \<and>
    (if tk_running t
     then tk_status t' = PENDING \<and> events_of i (abort_task i reason w) = es @ [EvAbortionRequested reason]
     else tk_status t' = FAILURE \<and>
       events_of i (abort_task i reason w) = es @ [EvAbortionRequested reason, EvEnd FAILURE reason])"
proof -
  let ?u = "task_update i (\<lambda>t. t\<lparr>tk_aborted := Some reason\<rparr>) w"
  have self: "tw_task (abort_task i reason w) i = tw_task (task_onAbort i reason ?u) i"
    "events_of i (abort_task i reason w) = events_of i (task_onAbort i reason ?u)"
    using abort_self [OF tasks_reach_inv [OF assms(1)] assms(2,4)] by simp_all
  show ?thesis unfolding self using assms(2-5)
    by (cases "tk_startData t"; cases "tk_running t"; cases w)
      (auto simp: task_onAbort_def on_task_def task_maybeStart_def task_start_def task_emit_def task_end_def
        task_then_def task_assert_def task_update_def events_of_def)
qed

theorem task_abort_ends_witness:
  "\<exists>t' es. tw_task (abort_task 1 ''stop'' ex_tasks) 1 = Some t' \<and> tk_status t' = FAILURE \<and>
     events_of 1 (abort_task 1 ''stop'' ex_tasks) = es @ [EvAbortionRequested ''stop'', EvEnd FAILURE ''stop'']"
  using task_abort_ends [OF ex_tasks_reach ex_tasks_child, of "''stop''"] by auto

text \<open>A run of some calls, then a task inside of the first one.\<close>

definition late_task :: "string task_call list \<Rightarrow> string tasks" where
  "late_task cs = fold task_call (cs @ [CallNew ''late'' None (Some 0)]) no_tasks"

text \<open>
  A task created inside of a task that has ended cannot be run: its listener is the function of the
  parent that throws. And a task created inside of a task that was aborted is not aborted itself.
\<close>

theorem task_late_children:
  "fst (task_run True 1 (late_task [CallNew ''parent'' (Some 5) None, CallStartTask 0, CallSuccess 0 ''done''])) =
     Some (JsError ''task has already ended'') \<and>
   map_option tk_aborted (tw_task (late_task [CallNew ''parent'' (Some 5) None, CallRun True 0, CallAbort 0 ''stop'']) 0) =
     Some (Some ''stop'') \<and>
   map_option tk_aborted (tw_task (late_task [CallNew ''parent'' (Some 5) None, CallRun True 0, CallAbort 0 ''stop'']) 1) =
     Some None"
  by (intro conjI; simp add: late_task_def task_eval task_success_def task_end_def abort_task_def task_onAbort_def
      numeral_2_eq_2)

section \<open>The search syntax\<close>

text \<open>
  C16: What is printed for a tree of the search syntax is parsed as the same tree, if the parser has returned
  the tree for some input and the language writes its numbers and regular expressions in a way that the
  grammar reads.
\<close>

theorem matcher_roundtrip:
  assumes "numbers_ok lib" and "cm_parse lib input = Some (Inr node)" and "readable lib node"
  shows "cm_parse lib (node_toString lib False node) = Some (Inr node)"
  by (rule parse_print_parse [OF assms])

text \<open>A query with most of the syntax.\<close>

definition ex_query :: string where
  "ex_query = ''foo !bar name: |(a b) age:>12 up? c*d''"

definition ex_node :: "(nat, string \<times> string) cm_node" where
  "ex_node = And [StringNode ''foo'', Not (StringNode ''bar''), Property ''name'' (Or [StringNode ''a'', StringNode ''b'']),
     Property ''age'' (Comparison GT 12), TruthyProperty ''up'', GlobPattern ''c*d'']"

lemma ex_query_parses: "cm_parse ex_lib ex_query = Some (Inr ex_node)"
  by code_simp

theorem matcher_roundtrip_witness: "cm_parse ex_lib ''foo !bar name:|(a b) age:>12 up? c*d'' = Some (Inr ex_node)"
proof -
  have "readable ex_lib ex_node" by code_simp
  moreover have "node_toString ex_lib False ex_node = ''foo !bar name:|(a b) age:>12 up? c*d''" by code_simp
  ultimately show ?thesis using matcher_roundtrip [OF ex_numbers_ok ex_query_parses] by simp
qed

text \<open>
  C34: Parsing ends on every input, with a tree or an error: the recursion of the grammar never needs more
  levels, nor its loops more rounds, than the input has characters; and a tree that is returned is in normal form, in
  which conjunctions and disjunctions have at least two children.
\<close>

theorem matcher_parse_ends:
  "(\<exists>e. cm_parse lib input = Some (Inl e)) \<or> (\<exists>node. cm_parse lib input = Some (Inr node) \<and> (node = Null \<or> shaped lib node))"
proof -
  obtain r where r: "cm_parse lib input = Some r" using parse_ends by blast
  then show ?thesis using parse_shaped [of lib input] by (cases r) auto
qed

text \<open>
  Setting a clause of a query replaces what the query said of that property, at its first level, by the
  clause, or drops it when there is none; only the last clause that was set counts.
\<close>

theorem matcher_set_clause:
  assumes "setPropertyClause (Some node) name (Some child) = Some (Some node')"
  shows "match lib node' v =
     (list_all (\<lambda>c. is_clause name c \<or> match lib c v) (top_nodes node) \<and> match lib (clause_of name child) v) \<and>
   setPropertyClause (Some node') name other = setPropertyClause (Some node) name other"
  using set_clause_match [OF assms] set_clause_twice [OF assms] by simp

theorem matcher_set_clause_witness:
  "setPropertyClause (Some (And [StringNode ''foo'', Property ''age'' (StringNode ''new'')])) ''age'' None =
   setPropertyClause (Some (And [StringNode ''foo'', Property ''age'' (StringNode ''old'') :: (nat, string \<times> string) cm_node])) ''age'' None"
proof -
  have "setPropertyClause (Some (And [StringNode ''foo'', Property ''age'' (StringNode ''old'')])) ''age'' (Some (Inl ''new'')) =
      Some (Some (And [StringNode ''foo'', Property ''age'' (StringNode ''new'') :: (nat, string \<times> string) cm_node]))"
    by (simp add: setPropertyClause_def is_clause_def new_And_def)
  then show ?thesis by (rule matcher_set_clause [THEN conjunct2])
qed

text \<open>
  The strings gathered for a property are all that its value may be: a value that matches the query,
  whose clauses for the property are strings, contains one of them, in upper or lower case.
\<close>

theorem matcher_clause_strings:
  assumes "getPropertyClausesStrings lib (Some node) = Inr strings" and "strings name = Some vs"
    and "\<forall>child. Property name child \<in> set (top_nodes node) \<longrightarrow> only_strings child"
    and "match lib node v" and "js_get lib v name = JString t"
  shows "\<exists>s \<in> set vs. contains (toLowerCase s) (toLowerCase t)"
  using clauses_strings [OF assms] by (simp add: matches_string_def)

theorem matcher_clause_strings_witness:
  "\<exists>s \<in> set [''a'', ''b'']. contains (toLowerCase s) (toLowerCase ''Ba'')"
proof -
  let ?node = "And [StringNode ''foo'', Property ''name'' (Or [StringNode ''a'', StringNode ''b''])] :: (nat, string \<times> string) cm_node"
  let ?v = "JObject [(''name'', JString ''Ba''), (''x'', JString ''Foo'')] :: nat jsval"
  show ?thesis
  proof (rule matcher_clause_strings [of ex_lib ?node "[''name'' \<mapsto> [''a'', ''b'']]" "''name''" "[''a'', ''b'']" ?v "''Ba''"])
    show "getPropertyClausesStrings ex_lib (Some ?node) = Inr [''name'' \<mapsto> [''a'', ''b'']]"
      by (simp add: getPropertyClausesStrings_def add_clause_strings_def getPropertyClauseStrings_def node_strings_def
          truthy_def ex_lib_def)
    show "match ex_lib ?node ?v" by code_simp
    show "js_get ex_lib ?v ''name'' = JString ''Ba''" by (simp add: js_get_def)
  qed (simp_all add: top_nodes_def only_strings_def)
qed

text \<open>
  A regular expression that ends with an escaped backslash is not read as it is written: the slash after it is taken for an
  escaped one, so that the expression goes on, and a query that holds what is printed for it is parsed as
  something else. And a query with a clause for a property that every object inherits has no list of strings, but a type error.
\<close>

theorem matcher_misread:
  "ml_newRegExp ex_lib [CHR ''a'', CHR 0x5C, CHR 0x5C] '''' = Some ([CHR ''a'', CHR 0x5C, CHR 0x5C], '''') \<and>
   node_toString ex_lib False (RegExpNode ([CHR ''a'', CHR 0x5C, CHR 0x5C], '''')) = [CHR ''/'', CHR ''a'', CHR 0x5C, CHR 0x5C, CHR ''/''] \<and>
   cm_parse ex_lib [CHR ''/'', CHR ''a'', CHR 0x5C, CHR 0x5C, CHR ''/''] =
     Some (Inr (RegExpNode ([CHR ''a'', CHR 0x5C, CHR 0x5C, CHR ''/''], ''''))) \<and>
   cm_parse ex_lib [CHR ''/'', CHR ''a'', CHR 0x5C, CHR 0x5C, CHR ''/'', CHR '' '', CHR ''b''] = Some (Inl (JsError ''parse error'')) \<and>
   getPropertyClausesStrings ex_lib (Some (And [StringNode ''foo'', Property ''constructor'' (StringNode ''bar'')])) = Inl TypeError"
proof (intro conjI)
  show "getPropertyClausesStrings ex_lib (Some (And [StringNode ''foo'', Property ''constructor'' (StringNode ''bar'')])) = Inl TypeError"
    by (simp add: getPropertyClausesStrings_def add_clause_strings_def truthy_def ex_lib_def)
qed code_simp+

end
