(* ===== verification/Backup_Journal.thy ===== *)
theory Backup_Journal
  imports Posix_Path "HOL-Library.AList" "HOL-Library.List_Lexorder" "HOL-Library.Char_ord"
begin

text \<open>
  The journal of the backups of a repository: \<open>@xen-orchestra/backups/_backupJournal.mjs\<close>, the method
  \<open>readBackupJournalEvents\<close> of \<open>RemoteAdapter.mjs\<close>, and \<open>formatVmBackups.mjs\<close>.

  Strings are compared as JavaScript does, character by character. The dates of d3-time-format are the parameter
  \<open>dates\<close>; the random part of a name is an argument.
\<close>

section \<open>The repository\<close>

text \<open>
  A journal file is read back as an entry, or cannot be: it is not JSON, or reading it fails. \<open>'w\<close> is what the
  code passes on, the authors and the reason.
\<close>

record 'w journal_entry =
  je_event :: string
  je_vmUuid :: string
  je_filename :: string
  je_timestamp :: int
  je_who :: 'w

datatype 'w journal_file = Unreadable | JournalFile "'w journal_entry"

text \<open>The journal directory, when it exists: its directories, with the files of each.\<close>

type_synonym 'w journal = "(string \<times> (string \<times> 'w journal_file) list) list option"

record 'd journal_dates =
  jd_formatDate :: "int \<Rightarrow> string"
  jd_formatTime :: "int \<Rightarrow> string"
  jd_parse :: "string \<Rightarrow> 'd option"

text \<open>An entry that is read, with its date and its path.\<close>

record ('w, 'd) dated_entry =
  re_entry :: "'w journal_entry"
  re_date :: 'd
  re_path :: string

definition BACKUP_JOURNAL_DIR :: string where
  "BACKUP_JOURNAL_DIR = ''xo-backup-log''"

definition BACKUP_JOURNAL_EVENTS :: "string list" where
  "BACKUP_JOURNAL_EVENTS = [''add'', ''change'', ''del'']"

definition isKnownJournalEvent :: "string \<Rightarrow> bool" where
  "isKnownJournalEvent event = List.member BACKUP_JOURNAL_EVENTS event"

section \<open>Names\<close>

definition DAY_LENGTH :: nat where "DAY_LENGTH = 8"

definition TIME_LENGTH :: nat where "TIME_LENGTH = 20 - DAY_LENGTH - 1"

definition dayOfDate :: "string \<Rightarrow> string" where
  "dayOfDate date = take DAY_LENGTH date"

definition formatJournalDay :: "'d journal_dates \<Rightarrow> int \<Rightarrow> string" where
  "formatJournalDay dates timestamp = dayOfDate (jd_formatDate dates timestamp)"

definition formatJournalTime :: "'d journal_dates \<Rightarrow> int \<Rightarrow> string" where
  "formatJournalTime dates timestamp = jd_formatTime dates timestamp"

definition journal_path :: "string \<Rightarrow> string \<Rightarrow> string" where
  "journal_path day name = absolute [BACKUP_JOURNAL_DIR, day, name]"

definition journalCursorAt :: "'d journal_dates \<Rightarrow> int \<Rightarrow> string" where
  "journalCursorAt dates timestamp = journal_path (formatJournalDay dates timestamp) (formatJournalTime dates timestamp)"

definition isDayName :: "string \<Rightarrow> bool" where
  "isDayName name \<longleftrightarrow> length name = 8 \<and> list_all (\<lambda>c. of_char c \<in> {48 .. 57 :: nat}) name"

definition dateOfEntry :: "'d journal_dates \<Rightarrow> string \<Rightarrow> string \<Rightarrow> 'd option" where
  "dateOfEntry dates day name = jd_parse dates (day @ ''T'' @ take TIME_LENGTH name)"

definition entry_name :: "'d journal_dates \<Rightarrow> string \<Rightarrow> 'w journal_entry \<Rightarrow> string" where
  "entry_name dates unique e =
     formatJournalTime dates (je_timestamp e) @ ''-'' @ unique @ ''-'' @ je_event e @ ''-'' @ je_vmUuid e @ ''-'' @
     basename (je_filename e)"

definition getEntryPath :: "'d journal_dates \<Rightarrow> string \<Rightarrow> 'w journal_entry \<Rightarrow> string" where
  "getEntryPath dates unique e = journal_path (formatJournalDay dates (je_timestamp e)) (entry_name dates unique e)"

section \<open>Writing\<close>

text \<open>
  The file is created with its directories, unless it exists; an error is logged only, \<open>fails\<close> being one
  of the handler. A name that holds a slash would be a file in a directory that readers cannot read.
\<close>

definition writeBackupJournalEntry ::
    "'d journal_dates \<Rightarrow> bool \<Rightarrow> string \<Rightarrow> 'w journal_entry \<Rightarrow> 'w journal \<Rightarrow> 'w journal" where
  "writeBackupJournalEntry dates fails unique e j =
     (let day = formatJournalDay dates (je_timestamp e);
          name = entry_name dates unique e;
          days = (case j of None \<Rightarrow> [] | Some ds \<Rightarrow> ds);
          files = (case map_of days day of None \<Rightarrow> [] | Some fs \<Rightarrow> fs)
      in if fails \<or> CHR ''/'' \<in> set name \<or> map_of files name \<noteq> None then j
         else Some (AList.update day (files @ [(name, JournalFile e)]) days))"

definition writeBackupJournalEntries ::
    "'d journal_dates \<Rightarrow> (bool \<times> string \<times> 'w journal_entry) list \<Rightarrow> 'w journal \<Rightarrow> 'w journal" where
  "writeBackupJournalEntries dates = fold (\<lambda>(fails, unique, e). writeBackupJournalEntry dates fails unique e)"

section \<open>Reading\<close>

text \<open>\<open>list\<close> of the handler.\<close>

definition list_dir :: "(string \<Rightarrow> bool) \<Rightarrow> bool \<Rightarrow> (string \<times> 'a) list option \<Rightarrow> js_error + string list" where
  "list_dir keep ignoreMissing d =
     (case d of
        None \<Rightarrow> if ignoreMissing then Inr [] else Inl (Errno ''ENOENT'')
      | Some fs \<Rightarrow> Inr (filter keep (map fst fs)))"

definition read_entry ::
    "'d journal_dates \<Rightarrow> (string \<times> (string \<times> 'w journal_file) list) list \<Rightarrow> string \<Rightarrow> string \<Rightarrow> ('w, 'd) dated_entry option" where
  "read_entry dates days day name =
     (case dateOfEntry dates day name of
        None \<Rightarrow> None
      | Some date \<Rightarrow>
          (case map_of days day of
             None \<Rightarrow> None
           | Some files \<Rightarrow>
               (case map_of files name of
                  Some (JournalFile e) \<Rightarrow> Some \<lparr>re_entry = e, re_date = date, re_path = journal_path day name\<rparr>
                | _ \<Rightarrow> None)))"

definition readBackupJournal ::
    "'d journal_dates \<Rightarrow> 'w journal \<Rightarrow> string option \<Rightarrow> bool \<Rightarrow> js_error + ('w, 'd) dated_entry list" where
  "readBackupJournal dates j cursor mustExist =
     (let minDay = (case cursor of None \<Rightarrow> [] | Some c \<Rightarrow> basename (dirname c));
          minName = (case cursor of None \<Rightarrow> [] | Some c \<Rightarrow> basename c);
          dirs = (case j of None \<Rightarrow> [] | Some ds \<Rightarrow> ds)
      in res_bind (list_dir (\<lambda>name. isDayName name \<and> minDay \<le> name) (\<not> mustExist) j) (\<lambda>days.
         res_bind (res_map (\<lambda>day.
             res_bind (list_dir (\<lambda>name. day \<noteq> minDay \<or> minName < name) True (map_of dirs day)) (\<lambda>names.
             Inr (map (Pair day) names))) (sort days)) (\<lambda>found.
         Inr (sort_key re_path (List.map_filter (\<lambda>(day, name). read_entry dates dirs day name) (concat found))))))"

section \<open>Events\<close>

text \<open>
  \<open>readBackupJournalEvents\<close>: the last event of each backup, with the metadata that \<open>readMetadata\<close> reads
  back from the repository. The map goes from the path of a backup to its last event, the index of its entry
  and the machine. The resolutions run concurrently; their order does not show but in the order of the events.
\<close>

datatype 'm journal_event = Upsert (ev_event: string) (ev_vmUuid: string) (ev_filename: string) 'm
  | Deleted (ev_vmUuid: string) (ev_filename: string)

type_synonym last_events = "(string \<times> string \<times> nat \<times> string) list"

definition note_event :: "('w, 'd) dated_entry \<times> nat \<Rightarrow> last_events \<Rightarrow> last_events" where
  "note_event ie evs =
     (case ie of (r, index) \<Rightarrow>
        let e = re_entry r
        in if isKnownJournalEvent (je_event e)
           then AList.update (normalize (je_filename e)) (je_event e, index, je_vmUuid e) evs else evs)"

definition lastEventByFilename :: "('w, 'd) dated_entry list \<Rightarrow> last_events" where
  "lastEventByFilename entries = fold note_event (zip entries [0 ..< length entries]) []"

definition resolve_event ::
    "(string \<Rightarrow> js_error + 'm) \<Rightarrow> string \<times> string \<times> nat \<times> string \<Rightarrow> nat + 'm journal_event" where
  "resolve_event readMetadata le =
     (case le of (filename, event, index, vmUuid) \<Rightarrow>
        if event = ''del'' then Inr (Deleted vmUuid filename)
        else case readMetadata filename of
               Inr metadata \<Rightarrow> Inr (Upsert event vmUuid filename metadata)
             | Inl e \<Rightarrow> if e = Errno ''ENOENT'' then Inr (Deleted vmUuid filename) else Inl index)"

definition minFailedIndex :: "nat \<Rightarrow> (nat + 'm journal_event) list \<Rightarrow> nat" where
  "minFailedIndex n rs = fold (\<lambda>r m. case r of Inl index \<Rightarrow> if index < m then index else m | Inr _ \<Rightarrow> m) rs n"

definition resolve_events ::
    "(string \<Rightarrow> js_error + 'm) \<Rightarrow> string option \<Rightarrow> ('w, 'd) dated_entry list \<Rightarrow> 'm journal_event list \<times> string option" where
  "resolve_events readMetadata cursor entries =
     (let rs = map (resolve_event readMetadata) (lastEventByFilename entries);
          m = minFailedIndex (length entries) rs
      in (List.map_filter (\<lambda>r. case r of Inr ev \<Rightarrow> Some ev | Inl _ \<Rightarrow> None) rs,
          if m > 0 then Some (re_path (entries ! (m - 1))) else cursor))"

definition readBackupJournalEvents ::
    "'d journal_dates \<Rightarrow> 'w journal \<Rightarrow> (string \<Rightarrow> js_error + 'm) \<Rightarrow> string option \<Rightarrow> bool \<Rightarrow>
     js_error + ('m journal_event list \<times> string option)" where
  "readBackupJournalEvents dates j readMetadata cursor mustExist =
     res_bind (readBackupJournal dates j cursor mustExist) (\<lambda>entries. Inr (resolve_events readMetadata cursor entries))"

section \<open>Formatting\<close>

text \<open>
  The metadata of a backup: what the code looks at, and \<open>'o\<close> for what it copies. \<open>vmSnapshot\<close> is known by its
  \<open>suspend_VDI\<close>, if it has one.
\<close>

record 'o vm_backup_metadata =
  bm_isVhdDifferencing :: "(string \<times> bool) list option"
  bm_vmSnapshot :: "string option option"
  bm_vhds :: "(string \<times> string) list option"
  bm_vdis :: "(string \<times> string \<times> string) list"
  bm_timestamp :: int
  bm_tags :: "string list option"
  bm_others :: 'o

record disk =
  dk_id :: string
  dk_name :: string
  dk_uuid :: string

record 'o vm_backup =
  vb_id :: string
  vb_backupRepository :: string
  vb_disks :: "disk list"
  vb_timestamp :: int
  vb_tags :: "string list"
  vb_differencingVhds :: "int option"
  vb_dynamicVhds :: "int option"
  vb_withMemory :: bool
  vb_others :: 'o

definition format_disk ::
    "'o vm_backup_metadata \<Rightarrow> string \<Rightarrow> string \<times> string \<Rightarrow> js_error + disk" where
  "format_disk backup filename vhd =
     (case map_of (bm_vdis backup) (fst vhd) of
        None \<Rightarrow> Inl TypeError
      | Some (name, uuid) \<Rightarrow> Inr \<lparr>dk_id = dirname filename @ ''/'' @ snd vhd, dk_name = name, dk_uuid = uuid\<rparr>)"

definition formatVmBackup ::
    "string \<Rightarrow> string \<Rightarrow> string \<Rightarrow> 'o vm_backup_metadata \<Rightarrow> js_error + 'o vm_backup" where
  "formatVmBackup filename backupRepositoryId ident backup =
     (let withMemory = bm_vmSnapshot backup \<noteq> None \<and> bm_vmSnapshot backup \<noteq> Some (Some ''OpaqueRef:NULL'');
          differencingVhds = map_option (\<lambda>kvs. int (length (filter snd kvs))) (bm_isVhdDifferencing backup);
          dynamicVhds = map_option (\<lambda>kvs. int (length (filter (\<lambda>kv. \<not> snd kv) kvs)) - (if withMemory then 1 else 0))
            (bm_isVhdDifferencing backup)
      in res_bind (case bm_vhds backup of None \<Rightarrow> Inr [] | Some vhds \<Rightarrow> res_map (format_disk backup filename) vhds) (\<lambda>disks.
         Inr \<lparr>vb_id = ident, vb_backupRepository = backupRepositoryId, vb_disks = disks, vb_timestamp = bm_timestamp backup,
           vb_tags = (case bm_tags backup of None \<Rightarrow> [] | Some ts \<Rightarrow> ts), vb_differencingVhds = differencingVhds,
           vb_dynamicVhds = dynamicVhds, vb_withMemory = withMemory, vb_others = bm_others backup\<rparr>))"

definition formatVmBackupAt :: "'o vm_backup_metadata \<Rightarrow> string \<Rightarrow> string \<Rightarrow> js_error + 'o vm_backup" where
  "formatVmBackupAt metadata filename backupRepositoryId =
     formatVmBackup (normalize filename) backupRepositoryId (normalize filename) metadata"

definition format_event ::
    "string \<Rightarrow> 'o vm_backup_metadata journal_event \<Rightarrow> js_error + 'o vm_backup journal_event" where
  "format_event backupRepositoryId ev =
     (case ev of
        Deleted vmUuid filename \<Rightarrow> Inr (Deleted vmUuid filename)
      | Upsert event vmUuid filename metadata \<Rightarrow>
          res_bind (formatVmBackupAt metadata filename backupRepositoryId) (\<lambda>backup.
          Inr (Upsert event vmUuid filename backup)))"

definition formatJournalEvents ::
    "'o vm_backup_metadata journal_event list \<Rightarrow> string \<Rightarrow> js_error + 'o vm_backup journal_event list" where
  "formatJournalEvents events backupRepositoryId = res_map (format_event backupRepositoryId) events"

definition formatVmBackups ::
    "(string \<times> (string \<times> 'o vm_backup_metadata) list) list \<Rightarrow> string \<Rightarrow> js_error + (string \<times> 'o vm_backup list) list" where
  "formatVmBackups backupsByVM backupRepositoryId =
     res_map (\<lambda>(vm, backups).
       res_bind (res_map (\<lambda>(filename, backup). formatVmBackupAt backup filename backupRepositoryId) backups) (\<lambda>bs.
       Inr (vm, bs))) backupsByVM"

end
