(* ===== verification/Vm_Backups_Cache.thy ===== *)
theory Vm_Backups_Cache
  imports Backup_Journal
begin

text \<open>
  The cache of the VM backups of the repositories, \<open>_vmBackupsCache.mjs\<close> in
  \<open>packages/xo-server/src/xo-mixins/backups-ng\<close>, and what it reads the repositories with, \<open>_vmBackupsSource.mjs\<close>.

  An object with the names of machines or files as its keys is an association list, in the order of the keys.
\<close>

type_synonym 'o backups = "(string \<times> 'o vm_backup) list"
type_synonym 'o backups_by_vm = "(string \<times> 'o backups) list"

section \<open>The source\<close>

text \<open>The repository, as the cache knows it; \<open>'p\<close> are the options.\<close>

record repository =
  rp_id :: string
  rp_url :: string
  rp_options :: "string option"
  rp_proxy :: "string option"

text \<open>What calling a method of a proxy ends with.\<close>

datatype 'a rpc = Answer 'a | MethodNotFound | InvalidParameters | RpcFailure js_error

definition keyBackups :: "'o vm_backup list \<Rightarrow> 'o backups" where
  "keyBackups bs = fold (\<lambda>b. AList.update (vb_id b) b) bs []"

definition formatBackups :: "(string \<times> 'o vm_backup_metadata) list \<Rightarrow> string \<Rightarrow> js_error + 'o backups" where
  "formatBackups metadata repositoryId =
     res_bind (res_map (\<lambda>(filename, m). formatVmBackupAt m filename repositoryId) metadata) (\<lambda>bs. Inr (keyBackups bs))"

text \<open>A listing by the adapter of the repository, or by its proxy, whose answer is by repository.\<close>

definition listAll_local ::
    "string \<Rightarrow> js_error + (string \<times> (string \<times> 'o vm_backup_metadata) list) list \<Rightarrow> js_error + 'o backups_by_vm" where
  "listAll_local repositoryId listing =
     res_bind listing (res_map (\<lambda>(vm, metadata).
       res_bind (formatBackups metadata repositoryId) (\<lambda>bs. Inr (vm, bs))))"

definition listVmBackupsOnProxy ::
    "string \<Rightarrow> (string \<times> (string \<times> 'o vm_backup list) list) list rpc \<Rightarrow> (string \<times> 'o vm_backup list) list rpc" where
  "listVmBackupsOnProxy repositoryId answer =
     (case answer of
        Answer byRepository \<Rightarrow>
          (case map_of byRepository repositoryId of
             None \<Rightarrow> RpcFailure (JsError ''the proxy failed to list the backup repository'')
           | Some byVm \<Rightarrow> Answer byVm)
      | MethodNotFound \<Rightarrow> MethodNotFound
      | InvalidParameters \<Rightarrow> InvalidParameters
      | RpcFailure e \<Rightarrow> RpcFailure e)"

definition rpc_result :: "'a rpc \<Rightarrow> js_error + 'a" where
  "rpc_result r =
     (case r of
        Answer x \<Rightarrow> Inr x
      | MethodNotFound \<Rightarrow> Inl (JsError ''method not found'')
      | InvalidParameters \<Rightarrow> Inl (JsError ''invalid parameters'')
      | RpcFailure e \<Rightarrow> Inl e)"

definition listAll_proxy ::
    "string \<Rightarrow> (string \<times> (string \<times> 'o vm_backup list) list) list rpc \<Rightarrow> js_error + 'o backups_by_vm" where
  "listAll_proxy repositoryId answer =
     res_bind (rpc_result (listVmBackupsOnProxy repositoryId answer)) (\<lambda>byVm. Inr (map (map_prod id keyBackups) byVm))"

text \<open>The proxy is called with the machine and, when it does not know of that parameter, without.\<close>

definition listOneVmOnProxy ::
    "string \<Rightarrow> string \<Rightarrow> (string option \<Rightarrow> (string \<times> (string \<times> 'o vm_backup list) list) list rpc) \<Rightarrow>
     js_error + 'o backups" where
  "listOneVmOnProxy repositoryId vmUuid call =
     res_bind (case listVmBackupsOnProxy repositoryId (call (Some vmUuid)) of
         InvalidParameters \<Rightarrow> rpc_result (listVmBackupsOnProxy repositoryId (call None))
       | r \<Rightarrow> rpc_result r) (\<lambda>byVm.
     Inr (keyBackups (case map_of byVm vmUuid of None \<Rightarrow> [] | Some bs \<Rightarrow> bs)))"

type_synonym 'o journal_answer = "'o vm_backup journal_event list \<times> string option"

text \<open>
  The journal by a proxy: the events of a kind this version does not know are dropped. \<open>None\<close> tells that
  the proxy has no such method, which is logged the first time.
\<close>

definition event_kind :: "'m journal_event \<Rightarrow> string" where
  "event_kind ev = (case ev of Upsert event _ _ _ \<Rightarrow> event | Deleted _ _ \<Rightarrow> ''del'')"

definition readJournal_proxy ::
    "string \<Rightarrow> 'o journal_answer rpc \<Rightarrow> string set \<Rightarrow> (js_error + 'o journal_answer option) \<times> string set" where
  "readJournal_proxy proxy answer proxiesWithoutJournal =
     (case answer of
        Answer (events, cursor) \<Rightarrow>
          (Inr (Some (filter (\<lambda>ev. isKnownJournalEvent (event_kind ev)) events, cursor)), proxiesWithoutJournal)
      | MethodNotFound \<Rightarrow> (Inr None, insert proxy proxiesWithoutJournal)
      | InvalidParameters \<Rightarrow> (Inl (JsError ''invalid parameters''), proxiesWithoutJournal)
      | RpcFailure e \<Rightarrow> (Inl e, proxiesWithoutJournal))"

definition readJournal_local ::
    "string \<Rightarrow> js_error + ('o vm_backup_metadata journal_event list \<times> string option) \<Rightarrow> js_error + 'o journal_answer option" where
  "readJournal_local repositoryId answer =
     res_bind answer (\<lambda>(events, cursor).
     res_bind (formatJournalEvents events repositoryId) (\<lambda>evs. Inr (Some (evs, cursor))))"

section \<open>Backups by machine\<close>

definition removeBackup :: "string \<Rightarrow> string \<Rightarrow> 'o backups_by_vm \<Rightarrow> 'o backups_by_vm" where
  "removeBackup vmUuid key backupsByVm =
     (case map_of backupsByVm vmUuid of
        None \<Rightarrow> backupsByVm
      | Some backups \<Rightarrow>
          if AList.delete key backups = [] then AList.delete vmUuid backupsByVm
          else AList.update vmUuid (AList.delete key backups) backupsByVm)"

definition backup_at :: "'o backups_by_vm \<Rightarrow> string \<Rightarrow> string \<Rightarrow> 'o vm_backup option" where
  "backup_at backupsByVm vmUuid key =
     (case map_of backupsByVm vmUuid of None \<Rightarrow> None | Some backups \<Rightarrow> map_of backups key)"

datatype 'o change = Add "'o vm_backup" | Update "'o vm_backup" | Remove "'o vm_backup"

fun applyEvent :: "'o vm_backup journal_event \<Rightarrow> 'o backups_by_vm \<Rightarrow> 'o change option \<times> 'o backups_by_vm" where
  "applyEvent (Deleted vmUuid filename) backupsByVm =
     (map_option Remove (backup_at backupsByVm vmUuid filename), removeBackup vmUuid filename backupsByVm)"
| "applyEvent (Upsert event vmUuid filename backup) backupsByVm =
     (let previous = backup_at backupsByVm vmUuid filename;
          backups = (case map_of backupsByVm vmUuid of None \<Rightarrow> [] | Some bs \<Rightarrow> bs);
          backupsByVm = AList.update vmUuid (AList.update filename backup backups) backupsByVm
      in (if previous = Some backup then None
          else if previous = None then Some (Add backup) else Some (Update backup), backupsByVm))"

definition archiveOf :: "'o vm_backup \<Rightarrow> string \<Rightarrow> 'o vm_backup" where
  "archiveOf backup repositoryId = backup\<lparr>vb_id := repositoryId @ CHR ''/'' # vb_id backup\<rparr>"

definition serveVmBackups ::
    "'o backups_by_vm \<Rightarrow> string \<Rightarrow> string option \<Rightarrow> (string \<times> 'o vm_backup list) list" where
  "serveVmBackups backupsByVm remoteId vmId =
     map (\<lambda>vmUuid. (vmUuid, case map_of backupsByVm vmUuid of
         None \<Rightarrow> []
       | Some backups \<Rightarrow> sort_key vb_timestamp (map (\<lambda>kb. archiveOf (snd kb) remoteId) backups)))
       (case vmId of None \<Rightarrow> map fst backupsByVm | Some vm \<Rightarrow> [vm])"

section \<open>State\<close>

text \<open>
  An entry is an object the cache mutates, and so is a listing, which the entry and the collection share:
  both are known by a number. A call of \<open>get\<close> that reads is an operation, known by a number as well, with the place where
  it waits: for a listing, with the entry it builds and the one it found; for a read of the journal, with the
  time it was called; or for its turn.
\<close>

record cache_entry =
  ce_backups :: "nat option"
  ce_builtAt :: int
  ce_cursor :: string
  ce_journalConfirmed :: bool
  ce_options :: "string option"
  ce_proxy :: "string option"
  ce_rebuildInterval :: int
  ce_refreshedAt :: int
  ce_stale :: bool
  ce_url :: string

datatype phase =
    Listing nat "nat option"
  | Journal nat int
  | NotReplayable nat
  | Failing js_error "nat option"
  | ReadDone "js_error + nat option"
  | Settled "js_error + nat option"

record cache_op =
  op_repository :: repository
  op_reads :: nat
  op_phase :: phase

datatype 'o emitted = EmitAdd "'o vm_backup" | EmitUpdate "'o vm_backup" | EmitRemove string

record 'o cache =
  vc_announced :: "(string \<times> nat) list"
  vc_entries :: "string \<Rightarrow> nat option"
  vc_pending :: "string \<Rightarrow> nat option"
  vc_unreplayable :: "string set"
  vc_entry :: "nat \<Rightarrow> cache_entry"
  vc_object :: "nat \<Rightarrow> 'o backups_by_vm"
  vc_op :: "nat \<Rightarrow> cache_op option"
  vc_next :: nat
  vc_emitted :: "'o emitted list"

text \<open>The settings: \<open>minRefreshDelay\<close>, the cursor before a time, and the interval in the URL, if any.\<close>

datatype interval_setting = NoInterval | IntegerInterval int | OtherInterval

record cache_config =
  cc_minRefreshDelay :: int
  cc_cursorAt :: "int \<Rightarrow> string"
  cc_fullListingInterval :: "string \<Rightarrow> interval_setting"

definition CLOCK_SKEW_TOLERANCE :: int where "CLOCK_SKEW_TOLERANCE = 5 * 60 * 1000"
definition DEFAULT_REBUILD_INTERVAL :: int where "DEFAULT_REBUILD_INTERVAL = 60 * 60 * 1000"
definition MAX_REFRESH_READS :: nat where "MAX_REFRESH_READS = 3"

definition isSameRepository :: "cache_entry \<Rightarrow> repository \<Rightarrow> bool" where
  "isSameRepository entry repository \<longleftrightarrow>
     ce_url entry = rp_url repository \<and> ce_options entry = rp_options repository \<and> ce_proxy entry = rp_proxy repository"

definition rebuildIntervalOf :: "cache_config \<Rightarrow> repository \<Rightarrow> int" where
  "rebuildIntervalOf cfg repository =
     (case cc_fullListingInterval cfg (rp_url repository) of
        NoInterval \<Rightarrow> DEFAULT_REBUILD_INTERVAL
      | OtherInterval \<Rightarrow> DEFAULT_REBUILD_INTERVAL
      | IntegerInterval n \<Rightarrow> if n \<le> 0 then DEFAULT_REBUILD_INTERVAL else n * 60000)"

definition new_cache :: "'o cache" where
  "new_cache = \<lparr>vc_announced = [], vc_entries = Map.empty, vc_pending = Map.empty, vc_unreplayable = {},
     vc_entry = (\<lambda>_. \<lparr>ce_backups = None, ce_builtAt = 0, ce_cursor = [], ce_journalConfirmed = False, ce_options = None,
       ce_proxy = None, ce_rebuildInterval = 0, ce_refreshedAt = 0, ce_stale = False, ce_url = []\<rparr>),
     vc_object = (\<lambda>_. []), vc_op = Map.empty, vc_next = 0, vc_emitted = []\<rparr>"

section \<open>The collection\<close>

definition emit :: "'o change \<Rightarrow> string \<Rightarrow> 'o cache \<Rightarrow> 'o cache" where
  "emit change repositoryId s =
     s\<lparr>vc_emitted := vc_emitted s @ [case change of
         Add b \<Rightarrow> EmitAdd (archiveOf b repositoryId)
       | Update b \<Rightarrow> EmitUpdate (archiveOf b repositoryId)
       | Remove b \<Rightarrow> EmitRemove (vb_id (archiveOf b repositoryId))]\<rparr>"

definition emit_all :: "'o change list \<Rightarrow> string \<Rightarrow> 'o cache \<Rightarrow> 'o cache" where
  "emit_all changes repositoryId = fold (\<lambda>c. emit c repositoryId) changes"

text \<open>What \<open>announce\<close> emits: first what is new or has changed, then what is gone.\<close>

definition listing_changes :: "'o backups_by_vm \<Rightarrow> 'o backups_by_vm \<Rightarrow> 'o change list" where
  "listing_changes old new =
     concat (map (\<lambda>(vm, backups). List.map_filter (\<lambda>(key, backup).
         case backup_at old vm key of
           None \<Rightarrow> Some (Add backup)
         | Some previous \<Rightarrow> if previous = backup then None else Some (Update backup)) backups) new) @
     concat (map (\<lambda>(vm, backups). List.map_filter (\<lambda>(key, backup).
         if backup_at new vm key = None then Some (Remove backup) else None) backups) old)"

definition announce :: "string \<Rightarrow> nat \<Rightarrow> 'o cache \<Rightarrow> 'o cache" where
  "announce repositoryId obj s =
     emit_all (listing_changes (case map_of (vc_announced s) repositoryId of None \<Rightarrow> [] | Some o' \<Rightarrow> vc_object s o')
         (vc_object s obj)) repositoryId
       (s\<lparr>vc_announced := AList.update repositoryId obj (vc_announced s)\<rparr>)"

definition archives_of :: "string \<Rightarrow> 'o backups_by_vm \<Rightarrow> 'o vm_backup list" where
  "archives_of repositoryId backupsByVm = concat (map (\<lambda>(_, backups). map (\<lambda>kb. archiveOf (snd kb) repositoryId) backups) backupsByVm)"

definition listArchives :: "'o cache \<Rightarrow> 'o vm_backup list" where
  "listArchives s = concat (map (\<lambda>(rid, obj). archives_of rid (vc_object s obj)) (vc_announced s))"

definition findArchive :: "string \<Rightarrow> 'o cache \<Rightarrow> 'o vm_backup option" where
  "findArchive ident s = find (\<lambda>a. vb_id a = ident) (listArchives s)"

section \<open>Methods\<close>

text \<open>The clock is read once between two waits.\<close>

definition cache_delete :: "string \<Rightarrow> 'o cache \<Rightarrow> 'o cache" where
  "cache_delete rid s = s\<lparr>vc_entries := (vc_entries s)(rid := None), vc_pending := (vc_pending s)(rid := None),
     vc_unreplayable := vc_unreplayable s - {rid}\<rparr>"

definition isReplayable :: "string \<Rightarrow> 'o cache \<Rightarrow> bool" where
  "isReplayable rid s \<longleftrightarrow> map_of (vc_announced s) rid \<noteq> None \<and> rid \<notin> vc_unreplayable s"

definition repositoryIds :: "bool \<Rightarrow> 'o cache \<Rightarrow> string list" where
  "repositoryIds unreplayable s = filter (\<lambda>rid. (rid \<in> vc_unreplayable s) = unreplayable) (map fst (vc_announced s))"

definition cache_remove :: "string \<Rightarrow> 'o cache \<Rightarrow> 'o cache" where
  "cache_remove rid s =
     (let announced = map_of (vc_announced s) rid;
          s = cache_delete rid s
      in case announced of
           None \<Rightarrow> s
         | Some obj \<Rightarrow>
             emit_all (concat (map (\<lambda>(_, backups). map (\<lambda>kb. Remove (snd kb)) backups) (vc_object s obj))) rid
               (s\<lparr>vc_announced := AList.delete rid (vc_announced s)\<rparr>))"

definition update_entry :: "nat \<Rightarrow> (cache_entry \<Rightarrow> cache_entry) \<Rightarrow> 'o cache \<Rightarrow> 'o cache" where
  "update_entry e f s = s\<lparr>vc_entry := (vc_entry s)(e := f (vc_entry s e))\<rparr>"

definition cache_refresh :: "string \<Rightarrow> 'o cache \<Rightarrow> 'o cache" where
  "cache_refresh rid s =
     (case vc_entries s rid of None \<Rightarrow> s | Some e \<Rightarrow> update_entry e (\<lambda>x. x\<lparr>ce_stale := True\<rparr>) s)"

definition set_phase :: "nat \<Rightarrow> phase \<Rightarrow> 'o cache \<Rightarrow> 'o cache" where
  "set_phase p ph s = s\<lparr>vc_op := (vc_op s)(p := map_option (\<lambda>op. op\<lparr>op_phase := ph\<rparr>) (vc_op s p))\<rparr>"

text \<open>\<open>#build\<close>, up to the listing; \<open>found\<close> is the entry that \<open>#read\<close> has found.\<close>

definition start_build :: "cache_config \<Rightarrow> int \<Rightarrow> nat \<Rightarrow> repository \<Rightarrow> nat option \<Rightarrow> 'o cache \<Rightarrow> 'o cache" where
  "start_build cfg now p repository found s =
     (let e = vc_next s;
          entry = \<lparr>ce_backups = None, ce_builtAt = now, ce_cursor = cc_cursorAt cfg (now - CLOCK_SKEW_TOLERANCE),
            ce_journalConfirmed = False, ce_options = rp_options repository, ce_proxy = rp_proxy repository,
            ce_rebuildInterval = rebuildIntervalOf cfg repository, ce_refreshedAt = now, ce_stale = False,
            ce_url = rp_url repository\<rparr>
      in set_phase p (Listing e found)
           (s\<lparr>vc_next := Suc e, vc_entry := (vc_entry s)(e := entry),
              vc_entries := (vc_entries s)(rp_id repository := Some e)\<rparr>))"

text \<open>\<open>#read\<close>, up to where it waits.\<close>

definition start_read :: "cache_config \<Rightarrow> int \<Rightarrow> nat \<Rightarrow> repository \<Rightarrow> 'o cache \<Rightarrow> 'o cache" where
  "start_read cfg now p repository s =
     (let found = vc_entries s (rp_id repository)
      in case found of
           None \<Rightarrow> start_build cfg now p repository found s
         | Some e \<Rightarrow>
             let entry = vc_entry s e
             in if \<not> isSameRepository entry repository \<or> now - ce_builtAt entry \<ge> ce_rebuildInterval entry
                then start_build cfg now p repository found s
                else if ce_stale entry \<or> now - ce_refreshedAt entry \<ge> cc_minRefreshDelay cfg
                then set_phase p (Journal e now) (update_entry e (\<lambda>x. x\<lparr>ce_stale := False\<rparr>) s)
                else set_phase p (ReadDone (Inr (ce_backups entry))) s)"

text \<open>\<open>get\<close>: the operation whose promise the caller waits for.\<close>

definition cache_get :: "cache_config \<Rightarrow> int \<Rightarrow> repository \<Rightarrow> 'o cache \<Rightarrow> nat \<times> 'o cache" where
  "cache_get cfg now repository s =
     (case vc_pending s (rp_id repository) of
        Some p \<Rightarrow> (p, s)
      | None \<Rightarrow>
          let p = vc_next s;
              s = s\<lparr>vc_next := Suc p, vc_op := (vc_op s)(p := Some
                \<lparr>op_repository = repository, op_reads = 1, op_phase = ReadDone (Inr None)\<rparr>)\<rparr>;
              s = start_read cfg now p repository s
          in (p, s\<lparr>vc_pending := (vc_pending s)(rp_id repository := Some p)\<rparr>))"

text \<open>The listing has been read, or has failed.\<close>

definition listed :: "nat \<Rightarrow> js_error + 'o backups_by_vm \<Rightarrow> 'o cache \<Rightarrow> 'o cache" where
  "listed p result s =
     (case vc_op s p of
        Some op \<Rightarrow>
          (case op_phase op of
             Listing e found \<Rightarrow>
               let rid = rp_id (op_repository op)
               in (case result of
                     Inr backupsByVm \<Rightarrow>
                       let obj = vc_next s;
                           s = update_entry e (\<lambda>x. x\<lparr>ce_backups := Some obj\<rparr>)
                             (s\<lparr>vc_next := Suc obj, vc_object := (vc_object s)(obj := backupsByVm)\<rparr>);
                           s = (if vc_entries s rid = Some e then announce rid obj s else s)
                       in set_phase p (ReadDone (Inr (Some obj))) s
                   | Inl error \<Rightarrow>
                       set_phase p (Failing error found)
                         (if vc_entries s rid = Some e then s\<lparr>vc_entries := (vc_entries s)(rid := None)\<rparr> else s))
           | _ \<Rightarrow> s)
      | None \<Rightarrow> s)"

text \<open>The journal has been read, or reading it has failed.\<close>

definition apply_events :: "'o vm_backup journal_event list \<Rightarrow> 'o backups_by_vm \<Rightarrow> 'o change list \<times> 'o backups_by_vm" where
  "apply_events evs backupsByVm =
     fold (\<lambda>ev (changes, b). case applyEvent ev b of (c, b') \<Rightarrow> (changes @ (case c of None \<Rightarrow> [] | Some x \<Rightarrow> [x]), b'))
       evs ([], backupsByVm)"

definition journal_done :: "nat \<Rightarrow> nat \<Rightarrow> int \<Rightarrow> string option \<Rightarrow> 'o cache \<Rightarrow> 'o cache" where
  "journal_done p e refreshedAt cursor s =
     (let s = (case cursor of
                 Some c \<Rightarrow> if c \<noteq> ce_cursor (vc_entry s e)
                           then update_entry e (\<lambda>x. x\<lparr>ce_cursor := c, ce_journalConfirmed := True\<rparr>) s else s
               | None \<Rightarrow> s);
          s = update_entry e (\<lambda>x. x\<lparr>ce_refreshedAt := refreshedAt\<rparr>) s
      in set_phase p (ReadDone (Inr (ce_backups (vc_entry s e)))) s)"

definition journal_read :: "nat \<Rightarrow> js_error + 'o journal_answer option \<Rightarrow> 'o cache \<Rightarrow> 'o cache" where
  "journal_read p result s =
     (case vc_op s p of
        Some op \<Rightarrow>
          (case op_phase op of
             Journal e refreshedAt \<Rightarrow>
               let rid = rp_id (op_repository op)
               in (case result of
                     Inl error \<Rightarrow> set_phase p (Failing error (Some e)) s
                   | Inr None \<Rightarrow> set_phase p (NotReplayable e) s
                   | Inr (Some (events, cursor)) \<Rightarrow>
                       let s = (if vc_entries s rid = Some e then s\<lparr>vc_unreplayable := vc_unreplayable s - {rid}\<rparr> else s)
                       in (case ce_backups (vc_entry s e) of
                             None \<Rightarrow> if events \<noteq> [] then set_phase p (Failing TypeError (Some e)) s
                                     else journal_done p e refreshedAt cursor s
                           | Some obj \<Rightarrow>
                               let announced = map_of (vc_announced s) rid = Some obj;
                                   r = apply_events events (vc_object s obj);
                                   s = s\<lparr>vc_object := (vc_object s)(obj := snd r)\<rparr>;
                                   s = (if announced then emit_all (fst r) rid s else s)
                               in journal_done p e refreshedAt cursor s))
           | _ \<Rightarrow> s)
      | None \<Rightarrow> s)"

text \<open>\<open>#read\<close> goes on after a replay that was not possible, and after an error.\<close>

definition not_replayed :: "cache_config \<Rightarrow> int \<Rightarrow> nat \<Rightarrow> 'o cache \<Rightarrow> 'o cache" where
  "not_replayed cfg now p s =
     (case vc_op s p of
        Some op \<Rightarrow>
          (case op_phase op of
             NotReplayable e \<Rightarrow>
               let rid = rp_id (op_repository op);
                   s = (if vc_entries s rid = Some e then s\<lparr>vc_unreplayable := insert rid (vc_unreplayable s)\<rparr> else s)
               in start_build cfg now p (op_repository op) (Some e) s
           | _ \<Rightarrow> s)
      | None \<Rightarrow> s)"

definition read_failed :: "nat \<Rightarrow> 'o cache \<Rightarrow> 'o cache" where
  "read_failed p s =
     (case vc_op s p of
        Some op \<Rightarrow>
          (case op_phase op of
             Failing error found \<Rightarrow>
               let rid = rp_id (op_repository op)
               in set_phase p (ReadDone (Inl error)) (if vc_entries s rid = found then cache_delete rid s else s)
           | _ \<Rightarrow> s)
      | None \<Rightarrow> s)"

text \<open>\<open>#refresh\<close> goes on after a read: it reads again, or settles. The clock is read once more for the read.
  Without an entry the call settles with what it has; the source would throw where that is \<open>undefined\<close>.\<close>

definition reads_again :: "int \<Rightarrow> cache_op \<Rightarrow> nat option \<Rightarrow> 'o cache \<Rightarrow> bool" where
  "reads_again now op obj s \<longleftrightarrow>
     (case vc_entries s (rp_id (op_repository op)) of
        None \<Rightarrow> False
      | Some e \<Rightarrow>
          let entry = vc_entry s e
          in ce_backups entry = obj \<and> ce_stale entry \<and> rp_id (op_repository op) \<notin> vc_unreplayable s \<and>
             now - ce_builtAt entry < ce_rebuildInterval entry \<and> op_reads op < MAX_REFRESH_READS)"

definition refreshed :: "cache_config \<Rightarrow> int \<Rightarrow> int \<Rightarrow> nat \<Rightarrow> 'o cache \<Rightarrow> 'o cache" where
  "refreshed cfg now later p s =
     (case vc_op s p of
        Some op \<Rightarrow>
          (case op_phase op of
             ReadDone (Inr obj) \<Rightarrow>
               if reads_again now op obj s
               then start_read cfg later p (op_repository op)
                 (s\<lparr>vc_op := (vc_op s)(p := Some (op\<lparr>op_reads := Suc (op_reads op)\<rparr>))\<rparr>)
               else set_phase p (Settled (Inr obj)) s
           | ReadDone (Inl error) \<Rightarrow> set_phase p (Settled (Inl error)) s
           | _ \<Rightarrow> s)
      | None \<Rightarrow> s)"

text \<open>The \<open>finally\<close> of \<open>get\<close>.\<close>

definition get_finally :: "nat \<Rightarrow> 'o cache \<Rightarrow> 'o cache" where
  "get_finally p s =
     (case vc_op s p of
        Some op \<Rightarrow>
          (case op_phase op of
             Settled _ \<Rightarrow>
               let rid = rp_id (op_repository op)
               in s\<lparr>vc_op := (vc_op s)(p := None),
                    vc_pending := (if vc_pending s rid = Some p then (vc_pending s)(rid := None) else vc_pending s)\<rparr>
           | _ \<Rightarrow> s)
      | None \<Rightarrow> s)"

text \<open>
  \<open>getOneVm\<close>: it joins a call of \<open>get\<close>, or lists the machine and then calls \<open>get\<close>, without waiting for it.
\<close>

definition getOneVm :: "cache_config \<Rightarrow> int \<Rightarrow> repository \<Rightarrow> 'o cache \<Rightarrow> nat option \<times> 'o cache" where
  "getOneVm cfg now repository s =
     (if vc_entries s (rp_id repository) \<noteq> None \<or> vc_pending s (rp_id repository) \<noteq> None
      then (case cache_get cfg now repository s of (p, s) \<Rightarrow> (Some p, s)) else (None, s))"

definition one_vm_of :: "string \<Rightarrow> 'o backups_by_vm \<Rightarrow> 'o backups_by_vm" where
  "one_vm_of vmUuid backupsByVm = (case map_of backupsByVm vmUuid of None \<Rightarrow> [] | Some bs \<Rightarrow> [(vmUuid, bs)])"

definition one_vm_listed ::
    "cache_config \<Rightarrow> int \<Rightarrow> repository \<Rightarrow> string \<Rightarrow> 'o backups \<Rightarrow> 'o cache \<Rightarrow> 'o backups_by_vm \<times> 'o cache" where
  "one_vm_listed cfg now repository vmUuid backups s =
     (if backups = [] then [] else [(vmUuid, backups)], snd (cache_get cfg now repository s))"

section \<open>Runs\<close>

text \<open>What a source answers: it lists a backup under the name of its metadata, and each name under one machine.\<close>

definition well_keyed :: "(string \<Rightarrow> string) \<Rightarrow> 'o backups_by_vm \<Rightarrow> bool" where
  "well_keyed owner b \<longleftrightarrow> distinct (map fst b) \<and>
     (\<forall>(vm, backups) \<in> set b. distinct (map fst backups) \<and> (\<forall>(key, backup) \<in> set backups. vb_id backup = key \<and> owner key = vm))"

definition well_keyed_event :: "(string \<Rightarrow> string) \<Rightarrow> 'o vm_backup journal_event \<Rightarrow> bool" where
  "well_keyed_event owner ev =
     (case ev of
        Deleted vm filename \<Rightarrow> True
      | Upsert _ vm filename backup \<Rightarrow> vb_id backup = filename \<and> owner filename = vm)"

text \<open>
  The ids of repositories have no slash. In the runs that are \<open>replayable\<close>, the source can read the journal of
  every repository.
\<close>

inductive cache_step :: "cache_config \<Rightarrow> (string \<Rightarrow> string \<Rightarrow> string) \<Rightarrow> bool \<Rightarrow> 'o cache \<Rightarrow> 'o cache \<Rightarrow> bool"
  for cfg owner replayable where
  step_get: "CHR ''/'' \<notin> set (rp_id repository) \<Longrightarrow>
    cache_step cfg owner replayable s (snd (cache_get cfg now repository s))"
| step_listed: "vc_op s p = Some op \<Longrightarrow>
    (\<And>b. result = Inr b \<Longrightarrow> well_keyed (owner (rp_id (op_repository op))) b) \<Longrightarrow>
    cache_step cfg owner replayable s (listed p result s)"
| step_journal: "vc_op s p = Some op \<Longrightarrow> (replayable \<longrightarrow> result \<noteq> Inr None) \<Longrightarrow>
    (\<And>evs c ev. result = Inr (Some (evs, c)) \<Longrightarrow> ev \<in> set evs \<Longrightarrow> well_keyed_event (owner (rp_id (op_repository op))) ev) \<Longrightarrow>
    cache_step cfg owner replayable s (journal_read p result s)"
| step_not_replayed: "cache_step cfg owner replayable s (not_replayed cfg now p s)"
| step_failed: "cache_step cfg owner replayable s (read_failed p s)"
| step_refreshed: "cache_step cfg owner replayable s (refreshed cfg now later p s)"
| step_finally: "cache_step cfg owner replayable s (get_finally p s)"
| step_delete: "cache_step cfg owner replayable s (cache_delete rid s)"
| step_remove: "cache_step cfg owner replayable s (cache_remove rid s)"
| step_refresh: "cache_step cfg owner replayable s (cache_refresh rid s)"

inductive_cases cache_stepE: "cache_step cfg owner replayable s s'"

end
