(* ===== verification/Backup_Journal_Props.thy ===== *)
theory Backup_Journal_Props
  imports Vm_Backups_Cache
begin

text \<open>
  The journal: a read from a cursor is the part of a full read that comes after it, and a listing that is
  brought up to date with the events of a read shows the backups as they are.
\<close>

section \<open>Reading from a cursor\<close>

lemma list_less_append: "(a @ x < a @ y) = (x < (y :: string))"
  by (induction a) simp_all

lemma list_less_same_length:
  "length a = length b \<Longrightarrow> (a @ x < b @ y) = (a < b \<or> a = b \<and> x < (y :: string))"
proof (induction a arbitrary: b)
  case (Cons c a)
  then obtain d b' where b: "b = d # b'" "length a = length b'" by (cases b) auto
  then show ?case using Cons.IH [of b'] by auto
qed simp

lemma journal_path_less:
  assumes "length day = length day'"
  shows "journal_path day name < journal_path day' name' \<longleftrightarrow> day < day' \<or> day = day' \<and> name < name'"
proof -
  have p: "journal_path d n = ''/xo-backup-log/'' @ d @ ''/'' @ n" for d n
    by (simp add: journal_path_def absolute_def BACKUP_JOURNAL_DIR_def)
  show ?thesis unfolding p list_less_append list_less_same_length [OF assms] by simp
qed

lemma isDayName_plain: "isDayName day \<Longrightarrow> plain_segment day"
proof -
  assume d: "isDayName day"
  then have "CHR ''/'' \<notin> set day" "day \<noteq> []" by (auto simp: isDayName_def list_all_iff)
  moreover have "length day = 8" using d by (simp add: isDayName_def)
  then have "day \<noteq> ''.''" "day \<noteq> ''..''" by auto
  ultimately show ?thesis by (simp add: plain_segment_def)
qed

lemma cursor_parts:
  assumes "isDayName day" and "plain_segment name"
  shows "basename (journal_path day name) = name" and "basename (dirname (journal_path day name)) = day"
proof -
  have p: "plain_segment BACKUP_JOURNAL_DIR" by (simp add: plain_segment_def BACKUP_JOURNAL_DIR_def)
  have path: "journal_path day name = absolute ([BACKUP_JOURNAL_DIR, day] @ [name])"
    "absolute [BACKUP_JOURNAL_DIR, day] = absolute ([BACKUP_JOURNAL_DIR] @ [day])"
    by (simp_all add: journal_path_def)
  show "basename (journal_path day name) = name" unfolding path by (rule basename_absolute [OF assms(2)])
  show "basename (dirname (journal_path day name)) = day"
    unfolding path dirname_absolute [OF assms(2)] by (rule basename_absolute [OF isDayName_plain [OF assms(1)]])
qed

text \<open>What a read finds before it sorts, without and with a cursor.\<close>

definition found_entries ::
    "'d journal_dates \<Rightarrow> (string \<times> (string \<times> 'w journal_file) list) list \<Rightarrow> (string \<Rightarrow> bool) \<Rightarrow> (string \<Rightarrow> string \<Rightarrow> bool) \<Rightarrow>
     ('w, 'd) dated_entry list" where
  "found_entries dates dirs keep_day keep =
     List.map_filter (\<lambda>(day, name). read_entry dates dirs day name)
       (concat (map (\<lambda>day. map (Pair day) (filter (keep day)
          (case map_of dirs day of None \<Rightarrow> [] | Some fs \<Rightarrow> map fst fs)))
         (sort (filter keep_day (map fst dirs)))))"

lemma res_map_pure: "res_map (\<lambda>x. Inr (g x)) xs = Inr (map g xs)"
  by (rule res_map_Inr) simp

lemma list_dir_ignore: "list_dir keep True d = Inr (filter keep (case d of None \<Rightarrow> [] | Some fs \<Rightarrow> map fst fs))"
  by (simp add: list_dir_def split: option.split)

lemma readBackupJournal_found:
  "readBackupJournal dates (Some dirs) cursor mustExist =
     Inr (sort_key re_path (found_entries dates dirs
       (\<lambda>day. isDayName day \<and> (case cursor of None \<Rightarrow> [] | Some c \<Rightarrow> basename (dirname c)) \<le> day)
       (\<lambda>day name. day \<noteq> (case cursor of None \<Rightarrow> [] | Some c \<Rightarrow> basename (dirname c)) \<or>
          (case cursor of None \<Rightarrow> [] | Some c \<Rightarrow> basename c) < name)))"
  by (simp add: readBackupJournal_def Let_def list_dir_ignore list_dir_def [of _ _ "Some dirs"] res_map_pure found_entries_def)

lemma map_filter_append: "List.map_filter g (xs @ ys) = List.map_filter g xs @ List.map_filter g ys"
  by (induction xs) (simp_all add: List.map_filter_simps split: option.split)

lemma map_filter_concat: "List.map_filter g (concat xss) = concat (map (List.map_filter g) xss)"
  by (induction xss) (simp_all add: map_filter_append List.map_filter_simps)

lemma concat_filter: "concat (map f (filter P ds)) = concat (map (\<lambda>d. if P d then f d else []) ds)"
  by (induction ds) simp_all

lemma map_filter_filter: "List.map_filter g (filter P xs) = List.map_filter (\<lambda>x. if P x then g x else None) xs"
  by (induction xs) (simp_all add: List.map_filter_simps split: option.split)

lemma filter_map_filter: "filter P (List.map_filter g xs) = List.map_filter (\<lambda>x. case g x of None \<Rightarrow> None | Some y \<Rightarrow> if P y then Some y else None) xs"
  by (induction xs) (simp_all add: List.map_filter_simps split: option.split)

lemma read_entry_path: "read_entry dates dirs day name = Some r \<Longrightarrow> re_path r = journal_path day name"
  by (auto simp: read_entry_def split: option.splits journal_file.splits)

text \<open>
  Filtering by day and name is filtering by path: both sides are a concatenation over the days.
\<close>

lemma found_filter:
  assumes "isDayName minDay"
  shows "found_entries dates dirs (\<lambda>day. isDayName day \<and> minDay \<le> day) (\<lambda>day name. day \<noteq> minDay \<or> minName < name) =
    filter (\<lambda>r. journal_path minDay minName < re_path r) (found_entries dates dirs isDayName (\<lambda>_ _. True))"
proof -
  let ?names = "\<lambda>day. case map_of dirs day of None \<Rightarrow> [] | Some fs \<Rightarrow> map fst fs"
  have later: "journal_path minDay minName < re_path r \<longleftrightarrow> minDay < day \<or> minDay = day \<and> minName < name"
    if "read_entry dates dirs day name = Some r" "isDayName day" for day name r
    using that assms read_entry_path [OF that(1)] by (simp add: journal_path_less isDayName_def)
  have days: "filter (\<lambda>r. journal_path minDay minName < re_path r)
      (List.map_filter (\<lambda>(day, name). read_entry dates dirs day name) (map (Pair day) (?names day))) =
    (if minDay \<le> day then List.map_filter (\<lambda>(day, name). read_entry dates dirs day name)
       (map (Pair day) (filter (\<lambda>name. day \<noteq> minDay \<or> minName < name) (?names day))) else [])"
    if "isDayName day" for day
  proof -
    have "filter (\<lambda>r. journal_path minDay minName < re_path r)
        (List.map_filter (\<lambda>(day, name). read_entry dates dirs day name) (map (Pair day) ns)) =
      (if minDay \<le> day then List.map_filter (\<lambda>(day, name). read_entry dates dirs day name)
         (map (Pair day) (filter (\<lambda>name. day \<noteq> minDay \<or> minName < name) ns)) else [])" for ns
    proof (induction ns)
      case (Cons n ns)
      then show ?case using later [OF _ that, of n]
        by (auto simp: List.map_filter_simps split: option.split)
    qed (simp add: List.map_filter_simps)
    then show ?thesis .
  qed
  have sf: "sort (filter P ds) = filter P (sort ds)" for P and ds :: "string list"
    by (simp add: filter_sort)
  show ?thesis
    unfolding found_entries_def map_filter_concat filter_concat map_map comp_def sf concat_filter
    by (rule arg_cong [of _ _ concat], rule map_cong [OF refl])
       (use days in \<open>auto simp: List.map_filter_simps\<close>)
qed

lemma isDayName_ne: "isDayName day \<Longrightarrow> day \<noteq> []"
  by (auto simp: isDayName_def)

lemma found_all:
  "found_entries dates dirs (\<lambda>day. isDayName day \<and> [] \<le> day) (\<lambda>day name. day \<noteq> [] \<or> [] < name) =
   found_entries dates dirs isDayName (\<lambda>_ _. True)"
  unfolding found_entries_def
  by (intro arg_cong [where f = "List.map_filter _"] arg_cong [where f = concat] map_cong)
     (auto dest!: isDayName_ne)

lemma read_from_cursor:
  assumes "isDayName minDay" and "plain_segment minName"
    and "readBackupJournal dates j None mustExist = Inr entries" and "j \<noteq> None"
  shows "readBackupJournal dates j (Some (journal_path minDay minName)) mustExist' =
    Inr (filter (\<lambda>r. journal_path minDay minName < re_path r) entries)"
proof -
  obtain dirs where j: "j = Some dirs" using assms(4) by auto
  have entries: "entries = sort_key re_path (found_entries dates dirs isDayName (\<lambda>_ _. True))"
    using assms(3) by (simp add: j readBackupJournal_found found_all [simplified])
  show ?thesis
    by (simp add: j readBackupJournal_found cursor_parts [OF assms(1,2)] found_filter [OF assms(1), simplified] filter_sort entries)
qed

lemma read_missing:
  "readBackupJournal dates None cursor mustExist = (if mustExist then Inl (Errno ''ENOENT'') else Inr [])"
  by (simp add: readBackupJournal_def list_dir_def Let_def List.map_filter_simps)

lemma read_sorted: "readBackupJournal dates j cursor mustExist = Inr entries \<Longrightarrow> sorted (map re_path entries)"
  by (cases j) (auto simp: read_missing readBackupJournal_found split: if_splits)

section \<open>The last event of a backup\<close>

definition about :: "('w, 'd) dated_entry list \<Rightarrow> string \<Rightarrow> nat \<Rightarrow> bool" where
  "about entries filename i \<longleftrightarrow> i < length entries \<and> isKnownJournalEvent (je_event (re_entry (entries ! i))) \<and>
     normalize (je_filename (re_entry (entries ! i))) = filename"

definition last_about :: "('w, 'd) dated_entry list \<Rightarrow> string \<Rightarrow> string \<times> nat \<times> string \<Rightarrow> bool" where
  "last_about entries filename v \<longleftrightarrow>
     (case v of (event, i, vm) \<Rightarrow> about entries filename i \<and> event = je_event (re_entry (entries ! i)) \<and>
        vm = je_vmUuid (re_entry (entries ! i)) \<and> (\<forall>j. about entries filename j \<longrightarrow> j \<le> i))"

lemma zip_snoc: "zip (xs @ [x]) [0 ..< length (xs @ [x])] = zip xs [0 ..< length xs] @ [(x, length xs)]"
  by simp

lemma about_snoc: "about (entries @ [r]) filename i \<longleftrightarrow> about entries filename i \<or>
    i = length entries \<and> isKnownJournalEvent (je_event (re_entry r)) \<and> normalize (je_filename (re_entry r)) = filename"
  by (auto simp: about_def nth_append less_Suc_eq)

lemma about_less: "about entries filename i \<Longrightarrow> i < length entries"
  by (simp add: about_def)

lemma last_event_spec:
  "distinct (map fst (lastEventByFilename entries)) \<and>
   (case map_of (lastEventByFilename entries) filename of
      None \<Rightarrow> \<forall>i. \<not> about entries filename i
    | Some v \<Rightarrow> last_about entries filename v)"
proof (induction entries rule: rev_induct)
  case Nil
  show ?case by (simp add: lastEventByFilename_def about_def)
next
  case (snoc r entries)
  let ?L = "lastEventByFilename entries" and ?e = "re_entry r"
  have L: "lastEventByFilename (entries @ [r]) = note_event (r, length entries) ?L"
    by (simp add: lastEventByFilename_def)
  show ?case
  proof (cases "isKnownJournalEvent (je_event ?e) \<and> normalize (je_filename ?e) = filename")
    case True
    then have "last_about (entries @ [r]) filename (je_event ?e, length entries, je_vmUuid ?e)"
      by (auto simp: last_about_def about_snoc dest: about_less)
    then show ?thesis using True snoc by (simp add: L note_event_def update_conv' distinct_update Let_def)
  next
    case False
    then have same: "map_of (lastEventByFilename (entries @ [r])) filename = map_of ?L filename"
      by (auto simp: L note_event_def update_conv' Let_def)
    have about: "about (entries @ [r]) filename i = about entries filename i" for i
      using False by (auto simp: about_snoc)
    have last: "last_about (entries @ [r]) filename v = last_about entries filename v" for v
      using False by (auto simp: last_about_def about_snoc nth_append dest: about_less split: prod.split)
    have "distinct (map fst (lastEventByFilename (entries @ [r])))"
      using snoc by (simp add: L note_event_def distinct_update Let_def)
    then show ?thesis unfolding same about last using snoc by blast
  qed
qed

lemma minFailed_le: "minFailedIndex n rs \<le> n"
proof (induction rs arbitrary: n)
  case (Cons r rs)
  show ?case using Cons.IH [of "case r of Inl index \<Rightarrow> if index < n then index else n | Inr _ \<Rightarrow> n"]
    by (cases r) (auto simp: minFailedIndex_def split: if_splits)
qed (simp add: minFailedIndex_def)

lemma minFailed_in: "Inl i \<in> set rs \<Longrightarrow> minFailedIndex n rs \<le> i"
proof (induction rs arbitrary: n)
  case (Cons r rs)
  show ?case
  proof (cases "r = Inl i")
    case True
    then show ?thesis using minFailed_le [of "if i < n then i else n" rs] by (simp add: minFailedIndex_def split: if_splits)
  next
    case False
    then have "Inl i \<in> set rs" using Cons.prems by simp
    from Cons.IH [OF this] show ?thesis by (cases r) (simp_all add: minFailedIndex_def)
  qed
qed simp

section \<open>Bringing a listing up to date\<close>

text \<open>The backup under a name, as the repository has it now; whether its metadata can be read, or is not there.\<close>

definition current_backup :: "(string \<Rightarrow> js_error + 'o vm_backup_metadata) \<Rightarrow> string \<Rightarrow> string \<Rightarrow> 'o vm_backup option" where
  "current_backup readMetadata rid filename =
     (case readMetadata filename of
        Inl _ \<Rightarrow> None
      | Inr metadata \<Rightarrow> (case formatVmBackupAt metadata filename rid of Inl _ \<Rightarrow> None | Inr b \<Rightarrow> Some b))"

definition readable_metadata :: "(string \<Rightarrow> js_error + 'm) \<Rightarrow> string \<Rightarrow> bool" where
  "readable_metadata readMetadata filename \<longleftrightarrow>
     (case readMetadata filename of Inl e \<Rightarrow> e = Errno ''ENOENT'' | Inr _ \<Rightarrow> True)"

definition ev_value :: "'m journal_event \<Rightarrow> 'm option" where
  "ev_value ev = (case ev of Upsert _ _ _ m \<Rightarrow> Some m | Deleted _ _ \<Rightarrow> None)"

lemma backup_at_remove:
  "backup_at (removeBackup vm f b) v k = (if v = vm \<and> k = f then None else backup_at b v k)"
proof (cases "map_of b vm")
  case (Some bs)
  have "map_of bs k = None" if "AList.delete f bs = []" "k \<noteq> f" for k
    using that delete_conv' [of f bs] by (metis fun_upd_apply map_of.simps(1))
  then show ?thesis using Some
    by (auto simp: removeBackup_def backup_at_def delete_conv' update_conv' split: option.split)
qed (auto simp: removeBackup_def backup_at_def)

lemma backup_at_apply:
  "backup_at (snd (applyEvent ev b)) v k =
     (if v = ev_vmUuid ev \<and> k = ev_filename ev then ev_value ev else backup_at b v k)"
proof (cases ev)
  case (Upsert event vm f backup)
  then show ?thesis
    by (auto simp: Let_def backup_at_def update_conv' ev_value_def split: option.splits)
qed (auto simp: backup_at_remove ev_value_def)

lemma apply_events_snd: "snd (apply_events evs b) = fold (\<lambda>ev b. snd (applyEvent ev b)) evs b"
proof -
  have "snd (fold (\<lambda>ev (cs, b). case applyEvent ev b of (c, b') \<Rightarrow> (cs @ (case c of None \<Rightarrow> [] | Some x \<Rightarrow> [x]), b')) evs (cs, b)) =
      fold (\<lambda>ev b. snd (applyEvent ev b)) evs b" for cs :: "'a change list"
  proof (induction evs arbitrary: cs b)
    case (Cons ev evs)
    then show ?case by (cases "applyEvent ev b") simp
  qed simp
  then show ?thesis by (simp add: apply_events_def)
qed

lemma backup_at_events:
  assumes "distinct (map ev_filename evs)"
  shows "backup_at (snd (apply_events evs b)) v k =
    (case find (\<lambda>ev. ev_filename ev = k \<and> ev_vmUuid ev = v) evs of None \<Rightarrow> backup_at b v k | Some ev \<Rightarrow> ev_value ev)"
  using assms unfolding apply_events_snd
proof (induction evs arbitrary: b)
  case (Cons ev evs)
  show ?case
  proof (cases "ev_filename ev = k \<and> ev_vmUuid ev = v")
    case True
    then have "find (\<lambda>ev. ev_filename ev = k \<and> ev_vmUuid ev = v) evs = None"
      using Cons.prems True by (auto simp: find_None_iff) (metis image_eqI)
    then show ?thesis using True Cons by (simp add: backup_at_apply)
  next
    case False
    then show ?thesis using Cons by (auto simp: backup_at_apply split: option.split)
  qed
qed simp

text \<open>The events of a read, by name.\<close>

lemma resolved_event:
  "List.map_filter (\<lambda>r. case r of Inr ev \<Rightarrow> Some ev | Inl _ \<Rightarrow> None) (map (resolve_event readMetadata) evs) =
   List.map_filter (\<lambda>le. case resolve_event readMetadata le of Inr ev \<Rightarrow> Some ev | Inl _ \<Rightarrow> None) evs"
  by (simp add: List.map_filter_def comp_def filter_map)

lemma resolve_names:
  "resolve_event readMetadata le = Inr ev \<Longrightarrow> ev_filename ev = fst le \<and> ev_vmUuid ev = snd (snd (snd le))"
  by (auto simp: resolve_event_def split: prod.splits if_splits sum.splits)

lemma format_names:
  "format_event rid ev = Inr fev \<Longrightarrow> ev_filename fev = ev_filename ev \<and> ev_vmUuid fev = ev_vmUuid ev"
  by (auto simp: format_event_def res_bind_Inr_iff split: journal_event.splits)

lemma res_map_InrD: "res_map f xs = Inr ys \<Longrightarrow> list_all2 (\<lambda>x y. f x = Inr y) xs ys"
  by (induction xs arbitrary: ys) (auto simp: res_bind_Inr_iff)

lemma map_filter_distinct:
  assumes "distinct (map f xs)" and "\<And>x y. x \<in> set xs \<Longrightarrow> g x = Some y \<Longrightarrow> h y = f x"
  shows "distinct (map h (List.map_filter g xs)) \<and> set (map h (List.map_filter g xs)) \<subseteq> set (map f xs)"
  using assms
proof (induction xs)
  case (Cons x xs)
  then have IH: "distinct (map h (List.map_filter g xs))" "set (map h (List.map_filter g xs)) \<subseteq> set (map f xs)" by auto
  show ?case
  proof (cases "g x")
    case None
    then show ?thesis using IH by (auto simp: List.map_filter_simps)
  next
    case (Some y)
    then have "h y = f x" using Cons.prems(2) by simp
    moreover have "f x \<notin> set (map f xs)" using Cons.prems(1) by simp
    ultimately show ?thesis using IH Some by (auto simp: List.map_filter_simps)
  qed
qed (simp add: List.map_filter_simps)

lemma map_filter_in: "y \<in> set (List.map_filter g xs) \<longleftrightarrow> (\<exists>x \<in> set xs. g x = Some y)"
  by (induction xs) (auto simp: List.map_filter_simps split: option.split)

lemma Inr_option_iff: "(case r of Inl _ \<Rightarrow> None | Inr y \<Rightarrow> Some y) = Some ev \<longleftrightarrow> r = Inr ev"
  by (cases r) auto

lemma events_by_name:
  assumes "resolve_events readMetadata cursor entries = (evs, cursor')"
  shows "distinct (map ev_filename evs)"
    and "ev \<in> set evs \<longleftrightarrow> (\<exists>le \<in> set (lastEventByFilename entries). resolve_event readMetadata le = Inr ev)"
proof -
  have evs: "evs = List.map_filter (\<lambda>le. case resolve_event readMetadata le of Inr ev \<Rightarrow> Some ev | Inl _ \<Rightarrow> None) (lastEventByFilename entries)"
    using assms by (simp add: resolve_events_def Let_def resolved_event)
  have "distinct (map fst (lastEventByFilename entries))" using last_event_spec by blast
  then show "distinct (map ev_filename evs)"
    unfolding evs by (intro map_filter_distinct [THEN conjunct1]) (auto dest: resolve_names split: sum.splits)
  show "ev \<in> set evs \<longleftrightarrow> (\<exists>le \<in> set (lastEventByFilename entries). resolve_event readMetadata le = Inr ev)"
    unfolding evs map_filter_in Inr_option_iff ..
qed

lemma list_all2_in_left: "list_all2 P xs ys \<Longrightarrow> x \<in> set xs \<Longrightarrow> \<exists>y \<in> set ys. P x y"
  by (induction rule: list_all2_induct) auto

lemma find_unique:
  "distinct (map h xs) \<Longrightarrow> x \<in> set xs \<Longrightarrow> P x \<Longrightarrow> (\<And>y. P y \<Longrightarrow> h y = h x) \<Longrightarrow> find P xs = Some x"
proof (induction xs)
  case (Cons y xs)
  show ?case
  proof (cases "x = y")
    case True
    then show ?thesis using Cons.prems(3) by simp
  next
    case False
    then have x: "x \<in> set xs" using Cons.prems(2) by simp
    then have "h y \<noteq> h x" using Cons.prems(1) by (metis distinct.simps(2) image_eqI image_set list.simps(9))
    then have "\<not> P y" using Cons.prems(4) by blast
    moreover have "find P xs = Some x" using Cons.IH x Cons.prems(1,3,4) by (metis distinct.simps(2) list.simps(9))
    ultimately show ?thesis by simp
  qed
qed simp

lemma last_about_unique: "last_about entries f (e, i, vm) \<Longrightarrow> last_about entries f (e', i', vm') \<Longrightarrow> e = e' \<and> i = i' \<and> vm = vm'"
  using last_event_spec [of entries f] unfolding last_about_def by (auto dest!: antisym)

lemma replay_backup:
  assumes evs: "resolve_events readMetadata cursor entries = (evs, cursor')"
    and fevs: "formatJournalEvents evs rid = Inr fevs"
    and owner: "\<And>i. about entries f i \<Longrightarrow> je_vmUuid (re_entry (entries ! i)) = vmUuid"
    and readable: "(\<exists>i. about entries f i) \<Longrightarrow> (\<nexists>i vm. last_about entries f (''del'', i, vm)) \<Longrightarrow>
      readable_metadata readMetadata f"
  shows "backup_at (snd (apply_events fevs b)) vmUuid f =
    (if \<nexists>i. about entries f i then backup_at b vmUuid f
     else if \<exists>i vm. last_about entries f (''del'', i, vm) then None
     else current_backup readMetadata rid f)"
proof -
  have rel: "list_all2 (\<lambda>x y. format_event rid x = Inr y) evs fevs"
    using res_map_InrD fevs by (simp add: formatJournalEvents_def)
  then have names: "map ev_filename fevs = map ev_filename evs"
    by (induction rule: list_all2_induct) (auto dest: format_names)
  then have dist: "distinct (map ev_filename fevs)" using events_by_name(1) [OF evs] by simp
  show ?thesis
  proof (cases "map_of (lastEventByFilename entries) f")
    case None
    then have "\<forall>i. \<not> about entries f i" using last_event_spec [of entries f] by simp
    moreover have "f \<notin> ev_filename ` set fevs"
    proof
      assume "f \<in> ev_filename ` set fevs"
      then have "f \<in> set (map ev_filename evs)" using names by (metis image_set)
      then obtain ev where "ev \<in> set evs" "ev_filename ev = f" by auto
      then obtain le where "le \<in> set (lastEventByFilename entries)" "fst le = f"
        using events_by_name(2) [OF evs] resolve_names by metis
      then show False using None by (metis map_of_eq_None_iff image_eqI)
    qed
    then have "find (\<lambda>ev. ev_filename ev = f \<and> ev_vmUuid ev = vmUuid) fevs = None" by (auto simp: find_None_iff)
    ultimately show ?thesis by (simp add: backup_at_events [OF dist])
  next
    case (Some v)
    obtain event i vm where v: "v = (event, i, vm)" by (cases v)
    have last: "last_about entries f (event, i, vm)" using last_event_spec [of entries f] Some v by simp
    then have i: "about entries f i" and vm: "vm = vmUuid" using owner by (auto simp: last_about_def)
    have del: "(\<exists>i vm. last_about entries f (''del'', i, vm)) \<longleftrightarrow> event = ''del''"
      using last last_about_unique [OF last] by blast
    have in_L: "(f, event, i, vm) \<in> set (lastEventByFilename entries)" using Some v by (simp add: map_of_SomeD)
    obtain ev where ev: "resolve_event readMetadata (f, event, i, vm) = Inr ev"
      and ev_cases: "ev = (if event = ''del'' then Deleted vm f else case readMetadata f of Inr m \<Rightarrow> Upsert event vm f m | Inl _ \<Rightarrow> Deleted vm f)"
    proof (cases "event = ''del''")
      case True
      then show ?thesis using that by (simp add: resolve_event_def)
    next
      case False
      then have "readable_metadata readMetadata f" using readable i del by blast
      then show ?thesis using that False
        by (cases "readMetadata f") (auto simp: resolve_event_def readable_metadata_def)
    qed
    have "ev \<in> set evs" using events_by_name(2) [OF evs] in_L ev by blast
    then obtain fe where fe: "fe \<in> set fevs" "format_event rid ev = Inr fe"
      using list_all2_in_left [OF rel] by blast
    have fe_names: "ev_filename fe = f" "ev_vmUuid fe = vmUuid"
      using format_names [OF fe(2)] resolve_names [OF ev] vm by auto
    have "find (\<lambda>ev. ev_filename ev = f \<and> ev_vmUuid ev = vmUuid) fevs = Some fe"
      by (rule find_unique [OF dist fe(1)]) (use fe_names in auto)
    moreover have "ev_value fe = (if event = ''del'' then None else current_backup readMetadata rid f)"
      using fe(2) ev_cases
      by (cases "readMetadata f")
        (auto simp: format_event_def ev_value_def current_backup_def res_bind_Inr_iff split: sum.splits if_splits)
    ultimately show ?thesis using i del by (auto simp: backup_at_events [OF dist])
  qed
qed

section \<open>What stays for the next read\<close>

lemma unreadable_cursor:
  assumes "resolve_events readMetadata cursor entries = (evs, cursor')"
    and "last_about entries f (event, i, vm)" and "event \<noteq> ''del''" and "\<not> readable_metadata readMetadata f"
  shows "cursor' = cursor \<or> (\<exists>m. m < i \<and> i < length entries \<and> cursor' = Some (re_path (entries ! m)))"
proof -
  have "map_of (lastEventByFilename entries) f = Some (event, i, vm)"
  proof (cases "map_of (lastEventByFilename entries) f")
    case None
    then show ?thesis using last_event_spec [of entries f] assms(2) by (simp add: last_about_def)
  next
    case (Some v)
    have "last_about entries f v" using last_event_spec [of entries f, THEN conjunct2] unfolding Some by simp
    then obtain event' i' vm' where v: "v = (event', i', vm')" "about entries f i'" "\<forall>j. about entries f j \<longrightarrow> j \<le> i'"
      "event' = je_event (re_entry (entries ! i'))" "vm' = je_vmUuid (re_entry (entries ! i'))"
      by (cases v) (simp add: last_about_def)
    then have "i' = i" using assms(2) by (simp add: last_about_def le_antisym)
    then show ?thesis using Some v assms(2) unfolding last_about_def by simp
  qed
  then have "(f, event, i, vm) \<in> set (lastEventByFilename entries)" by (rule map_of_SomeD)
  moreover have "resolve_event readMetadata (f, event, i, vm) = Inl i"
    using assms(3,4) by (auto simp: resolve_event_def readable_metadata_def split: sum.splits)
  ultimately have fails: "Inl i \<in> set (map (resolve_event readMetadata) (lastEventByFilename entries))"
    by (metis image_eqI image_set)
  define m where "m = minFailedIndex (length entries) (map (resolve_event readMetadata) (lastEventByFilename entries))"
  have "m \<le> i" unfolding m_def by (rule minFailed_in [OF fails])
  moreover have "cursor' = (if m > 0 then Some (re_path (entries ! (m - 1))) else cursor)"
    using assms(1) [symmetric] unfolding resolve_events_def Let_def m_def by simp
  moreover have "i < length entries" using assms(2) by (simp add: last_about_def about_def)
  ultimately show ?thesis by (cases m) (auto dest: Suc_le_lessD)
qed

section \<open>What a read returns\<close>

lemma in_found:
  "r \<in> set (found_entries dates dirs isDayName (\<lambda>_ _. True)) \<longleftrightarrow>
     (\<exists>day name. isDayName day \<and> read_entry dates dirs day name = Some r)"
proof -
  have "day \<in> fst ` set dirs \<and> name \<in> set (case map_of dirs day of None \<Rightarrow> [] | Some fs \<Rightarrow> map fst fs)"
    if "read_entry dates dirs day name = Some r" for day name
    using that by (force simp: read_entry_def dest: map_of_SomeD split: option.splits)
  then show ?thesis unfolding found_entries_def by (fastforce simp: map_filter_in)
qed

lemma read_members:
  "readBackupJournal dates (Some dirs) None mustExist = Inr entries \<Longrightarrow>
   r \<in> set entries \<longleftrightarrow> (\<exists>day name. isDayName day \<and> read_entry dates dirs day name = Some r)"
  unfolding in_found [symmetric] by (auto simp: readBackupJournal_found found_all [simplified])

text \<open>Writing an entry adds it to a read that comes to it.\<close>

lemma read_entry_written:
  assumes "map_of (case map_of days day of None \<Rightarrow> [] | Some fs \<Rightarrow> fs) name = None"
  shows "read_entry dates (AList.update day ((case map_of days day of None \<Rightarrow> [] | Some fs \<Rightarrow> fs) @ [(name, JournalFile e)]) days) day' name' =
    (if day' = day \<and> name' = name
     then map_option (\<lambda>date. \<lparr>re_entry = e, re_date = date, re_path = journal_path day name\<rparr>) (dateOfEntry dates day name)
     else read_entry dates days day' name')"
  using assms by (auto simp: read_entry_def update_conv' map_add_def split: option.split)

lemma written_days:
  assumes "writeBackupJournalEntry dates False unique e j = Some dirs"
    and "CHR ''/'' \<notin> set (entry_name dates unique e)"
    and "map_of (case map_of (case j of None \<Rightarrow> [] | Some ds \<Rightarrow> ds) (formatJournalDay dates (je_timestamp e)) of None \<Rightarrow> [] | Some fs \<Rightarrow> fs)
      (entry_name dates unique e) = None"
  shows "read_entry dates dirs day' name' =
    (if day' = formatJournalDay dates (je_timestamp e) \<and> name' = entry_name dates unique e
     then map_option (\<lambda>date. \<lparr>re_entry = e, re_date = date, re_path = getEntryPath dates unique e\<rparr>)
       (dateOfEntry dates day' name')
     else read_entry dates (case j of None \<Rightarrow> [] | Some ds \<Rightarrow> ds) day' name')"
  using assms(1) assms(2,3) [simplified]
  by (auto simp: writeBackupJournalEntry_def Let_def getEntryPath_def read_entry_written [OF assms(3)])

lemma written_read:
  assumes fresh: "map_of (case map_of (case j of None \<Rightarrow> [] | Some ds \<Rightarrow> ds) (formatJournalDay dates (je_timestamp e)) of None \<Rightarrow> [] | Some fs \<Rightarrow> fs)
      (entry_name dates unique e) = None"
    and slash: "CHR ''/'' \<notin> set (entry_name dates unique e)"
    and day: "isDayName (formatJournalDay dates (je_timestamp e))"
    and date: "dateOfEntry dates (formatJournalDay dates (je_timestamp e)) (entry_name dates unique e) = Some date"
    and cursor: "isDayName minDay" "plain_segment minName"
    and before: "readBackupJournal dates j (Some (journal_path minDay minName)) False = Inr entries"
    and after: "readBackupJournal dates (writeBackupJournalEntry dates False unique e j) (Some (journal_path minDay minName)) False = Inr entries'"
  shows "set entries' = set entries \<union>
    (if journal_path minDay minName < getEntryPath dates unique e
     then {\<lparr>re_entry = e, re_date = date, re_path = getEntryPath dates unique e\<rparr>} else {})"
proof -
  let ?day = "formatJournalDay dates (je_timestamp e)" and ?name = "entry_name dates unique e"
  define dirs where "dirs = (case j of None \<Rightarrow> [] | Some ds \<Rightarrow> ds)"
  obtain dirs' where dirs': "writeBackupJournalEntry dates False unique e j = Some dirs'"
    using fresh slash by (auto simp: writeBackupJournalEntry_def Let_def)
  obtain all where all: "readBackupJournal dates (Some dirs) None False = Inr all" by (simp add: readBackupJournal_found)
  obtain all' where all': "readBackupJournal dates (Some dirs') None False = Inr all'" by (simp add: readBackupJournal_found)
  have "readBackupJournal dates (Some dirs) (Some (journal_path minDay minName)) False = Inr entries"
    using before by (cases j) (auto simp: dirs_def readBackupJournal_def list_dir_def Let_def)
  then have entries: "entries = filter (\<lambda>r. journal_path minDay minName < re_path r) all"
    using read_from_cursor [OF cursor all] by simp
  have entries': "entries' = filter (\<lambda>r. journal_path minDay minName < re_path r) all'"
    using read_from_cursor [OF cursor all'] after dirs' by simp
  have none: "read_entry dates dirs ?day ?name = None"
    using fresh by (auto simp: read_entry_def dirs_def split: option.splits)
  have "r \<in> set all' \<longleftrightarrow> r \<in> set all \<or> r = \<lparr>re_entry = e, re_date = date, re_path = getEntryPath dates unique e\<rparr>" for r
    unfolding read_members [OF all] read_members [OF all'] written_days [OF dirs' slash fresh] dirs_def [symmetric]
    using day date none by (auto split: if_splits) (metis option.distinct(1))+
  then show ?thesis unfolding entries entries' by auto
qed

text \<open>
  An event whose backup cannot be read stays past the cursor that the read returns, so the next one reads it again.
\<close>

lemma entries_distinct_paths:
  assumes "readBackupJournal dates j cursor mustExist = Inr entries" and "distinct (map re_path entries)" and "m < i" and "i < length entries"
  shows "re_path (entries ! m) < re_path (entries ! i)"
proof -
  have "re_path (entries ! m) \<le> re_path (entries ! i)"
    using sorted_nth_mono [OF read_sorted [OF assms(1)], of m i] assms(3,4) by simp
  moreover have "re_path (entries ! m) \<noteq> re_path (entries ! i)"
    using assms(2-4) by (auto simp: distinct_conv_nth)
  ultimately show ?thesis by simp
qed

text \<open>The names of a directory are distinct segments, and the paths that are read are distinct.\<close>

definition journal_names :: "(string \<times> (string \<times> 'f) list) list \<Rightarrow> bool" where
  "journal_names dirs \<longleftrightarrow> distinct (map fst dirs) \<and> (\<forall>(_, files) \<in> set dirs. distinct (map fst files) \<and> (\<forall>(name, _) \<in> set files. plain_segment name))"

lemma distinct_pairs:
  assumes "distinct ds" and "\<And>d. distinct (f d)"
  shows "distinct (concat (map (\<lambda>d. map (Pair d) (f d)) ds))"
  using assms by (induction ds) (auto simp: distinct_map inj_on_def)

lemma journal_path_inj:
  assumes "isDayName day" and "isDayName day'" and "journal_path day name = journal_path day' name'"
  shows "day = day'" and "name = name'"
proof -
  have l: "length day = length day'" using assms by (simp add: isDayName_def)
  have "\<not> journal_path day name < journal_path day' name'" "\<not> journal_path day' name' < journal_path day name"
    using assms(3) by simp_all
  then show "day = day'" "name = name'" using journal_path_less [OF l] journal_path_less [OF l [symmetric]] by auto
qed

lemma read_entry_plain:
  assumes "journal_names dirs" and "read_entry dates dirs day name = Some r"
  shows "plain_segment name"
proof -
  obtain files f where "map_of dirs day = Some files" "map_of files name = Some f"
    using assms(2) by (auto simp: read_entry_def split: option.splits)
  then have "(day, files) \<in> set dirs" "(name, f) \<in> set files" by (auto dest: map_of_SomeD)
  then show ?thesis using assms(1) by (fastforce simp: journal_names_def)
qed

lemma full_distinct_paths:
  assumes "journal_names dirs"
  shows "distinct (map re_path (found_entries dates dirs isDayName (\<lambda>_ _. True)))"
proof -
  let ?names = "\<lambda>day. filter (\<lambda>_. True) (case map_of dirs day of None \<Rightarrow> [] | Some fs \<Rightarrow> map fst fs)"
  let ?pairs = "concat (map (\<lambda>day. map (Pair day) (?names day)) (sort (filter isDayName (map fst dirs))))"
  have "distinct (?names day)" for day
    using assms by (auto simp: journal_names_def dest: map_of_SomeD split: option.split)
  moreover have "distinct (sort (filter isDayName (map fst dirs)))" using assms by (simp add: journal_names_def)
  ultimately have "distinct ?pairs" by (intro distinct_pairs)
  moreover have "inj_on (\<lambda>(day, name). journal_path day name) (set ?pairs)"
    by (auto intro!: inj_onI dest: journal_path_inj)
  ultimately have "distinct (map (\<lambda>(day, name). journal_path day name) ?pairs)" by (simp add: distinct_map)
  then show ?thesis unfolding found_entries_def
    by (rule map_filter_distinct [THEN conjunct1]) (auto dest: read_entry_path)
qed

lemma unreadable_read_again:
  assumes names: "journal_names dirs"
    and cursor: "isDayName minDay" "plain_segment minName"
    and all: "readBackupJournal dates (Some dirs) None mustExist = Inr all"
    and read: "readBackupJournal dates (Some dirs) (Some (journal_path minDay minName)) mustExist = Inr entries"
    and evs: "resolve_events readMetadata (Some (journal_path minDay minName)) entries = (evs, Some cursor')"
    and last: "last_about entries f (event, i, vm)" "event \<noteq> ''del''" "\<not> readable_metadata readMetadata f"
  shows "readBackupJournal dates (Some dirs) (Some cursor') mustExist' =
      Inr (filter (\<lambda>r. cursor' < re_path r) all)" and "cursor' < re_path (entries ! i)" and "entries ! i \<in> set all"
proof -
  have entries: "entries = filter (\<lambda>r. journal_path minDay minName < re_path r) all"
    using read_from_cursor [OF cursor all] read by simp
  have found: "all = sort_key re_path (found_entries dates dirs isDayName (\<lambda>_ _. True))"
    using all by (simp add: readBackupJournal_found found_all [simplified])
  have "distinct (map re_path all)"
    using full_distinct_paths [OF names, of dates] unfolding found distinct_map by simp
  then have dist: "distinct (map re_path entries)" unfolding entries by (rule distinct_map_filter)
  have i: "i < length entries" using last(1) by (simp add: last_about_def about_def)
  consider "cursor' = journal_path minDay minName" | m where "m < i" "cursor' = re_path (entries ! m)"
    using unreadable_cursor [OF evs last] by auto
  note at = this
  show "entries ! i \<in> set all" using i entries by (metis filter_is_subset nth_mem subsetD)
  from at show "cursor' < re_path (entries ! i)"
  proof cases
    case 1
    have "entries ! i \<in> set entries" using i by simp
    then show ?thesis unfolding entries using 1 by simp
  next
    case 2
    then show ?thesis using entries_distinct_paths [OF read dist _ i] by simp
  qed
  from at obtain day name where "isDayName day" "plain_segment name" "cursor' = journal_path day name"
  proof cases
    case 1
    then show ?thesis using that cursor by blast
  next
    case 2
    then have "entries ! m \<in> set all" using i entries by (metis filter_is_subset nth_mem order_less_trans subsetD)
    then obtain day name where r: "isDayName day" "read_entry dates dirs day name = Some (entries ! m)"
      using read_members [OF all] by blast
    then show ?thesis using that [of day name] 2(2) read_entry_path [OF r(2)] read_entry_plain [OF names r(2)] by simp
  qed
  then show "readBackupJournal dates (Some dirs) (Some cursor') mustExist' = Inr (filter (\<lambda>r. cursor' < re_path r) all)"
    using read_from_cursor [OF _ _ all] by simp
qed

end
