(* ===== verification/Vm_Backups_Cache_Props.thy ===== *)
theory Vm_Backups_Cache_Props
  imports Backup_Journal_Props
begin

text \<open>
  The cache of the VM backups: the invariant of its state, what the consumers of its collection have been told,
  what a call of \<open>get\<close> is served, and the end of a call.
\<close>

section \<open>The fields that an operation leaves\<close>

definition emitted_of :: "string \<Rightarrow> 'o change \<Rightarrow> 'o emitted" where
  "emitted_of repositoryId change =
     (case change of
        Add b \<Rightarrow> EmitAdd (archiveOf b repositoryId)
      | Update b \<Rightarrow> EmitUpdate (archiveOf b repositoryId)
      | Remove b \<Rightarrow> EmitRemove (vb_id (archiveOf b repositoryId)))"

lemma emit_all_simp [simp]: "emit_all cs rid s = s\<lparr>vc_emitted := vc_emitted s @ map (emitted_of rid) cs\<rparr>"
proof (induction cs arbitrary: s)
  case (Cons c cs)
  have "emit_all (c # cs) rid s = emit_all cs rid (emit c rid s)" by (simp add: emit_all_def)
  then show ?case using Cons by (simp add: emit_def emitted_of_def)
qed (simp add: emit_all_def)

lemma update_entry_sel [simp]:
  "vc_announced (update_entry e f s) = vc_announced s" "vc_entries (update_entry e f s) = vc_entries s"
  "vc_pending (update_entry e f s) = vc_pending s" "vc_unreplayable (update_entry e f s) = vc_unreplayable s"
  "vc_entry (update_entry e f s) = (vc_entry s)(e := f (vc_entry s e))" "vc_object (update_entry e f s) = vc_object s"
  "vc_op (update_entry e f s) = vc_op s" "vc_next (update_entry e f s) = vc_next s" "vc_emitted (update_entry e f s) = vc_emitted s"
  by (simp_all add: update_entry_def)

lemma set_phase_sel [simp]:
  "vc_announced (set_phase p ph s) = vc_announced s" "vc_entries (set_phase p ph s) = vc_entries s"
  "vc_pending (set_phase p ph s) = vc_pending s" "vc_unreplayable (set_phase p ph s) = vc_unreplayable s"
  "vc_entry (set_phase p ph s) = vc_entry s" "vc_object (set_phase p ph s) = vc_object s"
  "vc_op (set_phase p ph s) = (vc_op s)(p := map_option (\<lambda>op. op\<lparr>op_phase := ph\<rparr>) (vc_op s p))"
  "vc_next (set_phase p ph s) = vc_next s" "vc_emitted (set_phase p ph s) = vc_emitted s"
  by (simp_all add: set_phase_def)

lemma cache_delete_sel [simp]:
  "vc_announced (cache_delete rid s) = vc_announced s" "vc_entries (cache_delete rid s) = (vc_entries s)(rid := None)"
  "vc_pending (cache_delete rid s) = (vc_pending s)(rid := None)"
  "vc_entry (cache_delete rid s) = vc_entry s" "vc_object (cache_delete rid s) = vc_object s"
  "vc_op (cache_delete rid s) = vc_op s" "vc_next (cache_delete rid s) = vc_next s" "vc_emitted (cache_delete rid s) = vc_emitted s"
  by (simp_all add: cache_delete_def)

lemma announce_sel [simp]:
  "vc_announced (announce rid obj s) = AList.update rid obj (vc_announced s)" "vc_entries (announce rid obj s) = vc_entries s"
  "vc_pending (announce rid obj s) = vc_pending s" "vc_unreplayable (announce rid obj s) = vc_unreplayable s"
  "vc_entry (announce rid obj s) = vc_entry s" "vc_object (announce rid obj s) = vc_object s"
  "vc_op (announce rid obj s) = vc_op s" "vc_next (announce rid obj s) = vc_next s"
  by (simp_all add: announce_def)

text \<open>The entry that \<open>#build\<close> makes.\<close>

definition built_entry :: "cache_config \<Rightarrow> int \<Rightarrow> repository \<Rightarrow> cache_entry" where
  "built_entry cfg now repository =
     \<lparr>ce_backups = None, ce_builtAt = now, ce_cursor = cc_cursorAt cfg (now - CLOCK_SKEW_TOLERANCE),
      ce_journalConfirmed = False, ce_options = rp_options repository, ce_proxy = rp_proxy repository,
      ce_rebuildInterval = rebuildIntervalOf cfg repository, ce_refreshedAt = now, ce_stale = False,
      ce_url = rp_url repository\<rparr>"

lemma built_backups [simp]: "ce_backups (built_entry cfg now repository) = None"
  by (simp add: built_entry_def)

lemma start_build_sel [simp]:
  "vc_announced (start_build cfg now p r found s) = vc_announced s"
  "vc_entries (start_build cfg now p r found s) = (vc_entries s)(rp_id r := Some (vc_next s))"
  "vc_pending (start_build cfg now p r found s) = vc_pending s"
  "vc_entry (start_build cfg now p r found s) = (vc_entry s)(vc_next s := built_entry cfg now r)"
  "vc_object (start_build cfg now p r found s) = vc_object s"
  "vc_op (start_build cfg now p r found s) =
     (vc_op s)(p := map_option (\<lambda>op. op\<lparr>op_phase := Listing (vc_next s) found\<rparr>) (vc_op s p))"
  "vc_next (start_build cfg now p r found s) = Suc (vc_next s)"
  "vc_emitted (start_build cfg now p r found s) = vc_emitted s"
  by (simp_all add: start_build_def Let_def built_entry_def)

text \<open>The three ways in which \<open>#read\<close> goes on.\<close>

lemma start_read_cases:
  obtains (build) "start_read cfg now p r s = start_build cfg now p r (vc_entries s (rp_id r)) s"
  | (journal) e where "vc_entries s (rp_id r) = Some e"
      "start_read cfg now p r s = set_phase p (Journal e now) (update_entry e (\<lambda>x. x\<lparr>ce_stale := False\<rparr>) s)"
  | (held) e where "vc_entries s (rp_id r) = Some e"
      "start_read cfg now p r s = set_phase p (ReadDone (Inr (ce_backups (vc_entry s e)))) s"
proof (cases "vc_entries s (rp_id r)")
  case None
  then show ?thesis using build by (simp add: start_read_def Let_def)
next
  case (Some e)
  let ?x = "vc_entry s e"
  consider "\<not> isSameRepository ?x r \<or> now - ce_builtAt ?x \<ge> ce_rebuildInterval ?x"
    | "isSameRepository ?x r" "\<not> now - ce_builtAt ?x \<ge> ce_rebuildInterval ?x" "ce_stale ?x \<or> now - ce_refreshedAt ?x \<ge> cc_minRefreshDelay cfg"
    | "isSameRepository ?x r" "\<not> now - ce_builtAt ?x \<ge> ce_rebuildInterval ?x" "\<not> (ce_stale ?x \<or> now - ce_refreshedAt ?x \<ge> cc_minRefreshDelay cfg)"
    by blast
  then show ?thesis
  proof cases
    case 1
    then show ?thesis using Some build by (auto simp: start_read_def Let_def)
  next
    case 2
    then show ?thesis using Some journal by (auto simp: start_read_def Let_def)
  next
    case 3
    then show ?thesis using Some held by (auto simp: start_read_def Let_def)
  qed
qed

section \<open>The invariant\<close>

text \<open>
  \<open>ow\<close> tells the repository of each entry and each listing; \<open>keys rid\<close> the machine of each backup of a
  repository. All numbers in use are below \<open>vc_next\<close>, an entry and a listing are of one repository, an entry is
  listed by one operation, and it shares its listing with no other entry.
\<close>

definition phase_ok :: "(nat \<Rightarrow> string) \<Rightarrow> 'o cache \<Rightarrow> string \<Rightarrow> phase \<Rightarrow> bool" where
  "phase_ok ow s rid ph \<longleftrightarrow>
     (case ph of
        Listing e _ \<Rightarrow> e < vc_next s \<and> ow e = rid \<and> ce_backups (vc_entry s e) = None
      | Journal e _ \<Rightarrow> e < vc_next s \<and> ow e = rid
      | NotReplayable e \<Rightarrow> e < vc_next s \<and> ow e = rid
      | _ \<Rightarrow> True)"

definition entries_ok :: "(nat \<Rightarrow> string) \<Rightarrow> 'o cache \<Rightarrow> bool" where
  "entries_ok ow s \<longleftrightarrow> (\<forall>rid e. vc_entries s rid = Some e \<longrightarrow> e < vc_next s \<and> ow e = rid)"

definition announced_ok :: "(nat \<Rightarrow> string) \<Rightarrow> 'o cache \<Rightarrow> bool" where
  "announced_ok ow s \<longleftrightarrow> distinct (map fst (vc_announced s)) \<and>
     (\<forall>rid obj. map_of (vc_announced s) rid = Some obj \<longrightarrow> obj < vc_next s \<and> ow obj = rid \<and> CHR ''/'' \<notin> set rid)"

definition backups_ok :: "(nat \<Rightarrow> string) \<Rightarrow> 'o cache \<Rightarrow> bool" where
  "backups_ok ow s \<longleftrightarrow>
     (\<forall>e obj. ce_backups (vc_entry s e) = Some obj \<longrightarrow> e < vc_next s \<and> obj < vc_next s \<and> ow obj = ow e) \<and>
     (\<forall>e e' obj. ce_backups (vc_entry s e) = Some obj \<longrightarrow> ce_backups (vc_entry s e') = Some obj \<longrightarrow> e = e')"

definition ops_ok :: "(nat \<Rightarrow> string) \<Rightarrow> 'o cache \<Rightarrow> bool" where
  "ops_ok ow s \<longleftrightarrow>
     (\<forall>p op. vc_op s p = Some op \<longrightarrow> p < vc_next s \<and> CHR ''/'' \<notin> set (rp_id (op_repository op)) \<and>
        phase_ok ow s (rp_id (op_repository op)) (op_phase op))"

definition listing_of :: "cache_op \<Rightarrow> nat option" where
  "listing_of op = (case op_phase op of Listing e _ \<Rightarrow> Some e | _ \<Rightarrow> None)"

definition listings_ok :: "'o cache \<Rightarrow> bool" where
  "listings_ok s \<longleftrightarrow> (\<forall>p p' op op' e. vc_op s p = Some op \<longrightarrow> vc_op s p' = Some op' \<longrightarrow> listing_of op = Some e \<longrightarrow>
     listing_of op' = Some e \<longrightarrow> p = p')"

definition pending_ok :: "'o cache \<Rightarrow> bool" where
  "pending_ok s \<longleftrightarrow> (\<forall>rid p. vc_pending s rid = Some p \<longrightarrow> map_option (rp_id \<circ> op_repository) (vc_op s p) = Some rid)"

definition objects_ok :: "(string \<Rightarrow> string \<Rightarrow> string) \<Rightarrow> (nat \<Rightarrow> string) \<Rightarrow> 'o cache \<Rightarrow> bool" where
  "objects_ok keys ow s \<longleftrightarrow>
     (\<forall>obj. well_keyed (keys (ow obj)) (vc_object s obj) \<and> (vc_next s \<le> obj \<longrightarrow> vc_object s obj = []))"

definition cache_ok :: "(string \<Rightarrow> string \<Rightarrow> string) \<Rightarrow> (nat \<Rightarrow> string) \<Rightarrow> 'o cache \<Rightarrow> bool" where
  "cache_ok keys ow s \<longleftrightarrow> entries_ok ow s \<and> announced_ok ow s \<and> backups_ok ow s \<and> ops_ok ow s \<and>
     listings_ok s \<and> pending_ok s \<and> objects_ok keys ow s"

lemmas ok_defs = cache_ok_def entries_ok_def announced_ok_def backups_ok_def ops_ok_def listings_ok_def pending_ok_def objects_ok_def

lemma listing_of_simps [simp]:
  "listing_of (op\<lparr>op_phase := Listing e f\<rparr>) = Some e" "listing_of (op\<lparr>op_phase := Journal e t\<rparr>) = None"
  "listing_of (op\<lparr>op_phase := NotReplayable e\<rparr>) = None" "listing_of (op\<lparr>op_phase := Failing err g\<rparr>) = None"
  "listing_of (op\<lparr>op_phase := ReadDone r\<rparr>) = None" "listing_of (op\<lparr>op_phase := Settled r\<rparr>) = None"
  by (simp_all add: listing_of_def)

lemma phase_ok_simps [simp]:
  "phase_ok ow s rid (Listing e f) \<longleftrightarrow> e < vc_next s \<and> ow e = rid \<and> ce_backups (vc_entry s e) = None"
  "phase_ok ow s rid (Journal e t) \<longleftrightarrow> e < vc_next s \<and> ow e = rid"
  "phase_ok ow s rid (NotReplayable e) \<longleftrightarrow> e < vc_next s \<and> ow e = rid"
  "phase_ok ow s rid (Failing err f)" "phase_ok ow s rid (ReadDone r)" "phase_ok ow s rid (Settled r)"
  by (simp_all add: phase_ok_def)

lemma phase_ok_mono:
  assumes "phase_ok ow s rid ph" and "vc_next s \<le> vc_next s'" and "\<And>e. e < vc_next s \<Longrightarrow> ow' e = ow e"
    and "\<And>e. e < vc_next s \<Longrightarrow> ce_backups (vc_entry s' e) = ce_backups (vc_entry s e)"
  shows "phase_ok ow' s' rid ph"
  using assms by (cases ph) auto

lemma well_keyed_Nil [simp]: "well_keyed key []"
  by (simp add: well_keyed_def)

lemma ok_new_cache: "cache_ok keys ow new_cache"
  by (auto simp: ok_defs new_cache_def)

text \<open>The fields that the invariant does not look at.\<close>

lemma ok_cong:
  assumes "vc_announced s' = vc_announced s" "vc_entries s' = vc_entries s" "vc_pending s' = vc_pending s"
    "\<And>e. ce_backups (vc_entry s' e) = ce_backups (vc_entry s e)" "vc_object s' = vc_object s" "vc_op s' = vc_op s" "vc_next s' = vc_next s"
  shows "cache_ok keys ow s' = cache_ok keys ow s"
proof -
  have "phase_ok ow s' = phase_ok ow s" using assms by (auto simp: phase_ok_def fun_eq_iff split: phase.split)
  then show ?thesis by (simp add: ok_defs assms)
qed

lemma ok_update_entry: "(\<And>x. ce_backups (f x) = ce_backups x) \<Longrightarrow> cache_ok keys ow (update_entry e f s) = cache_ok keys ow s"
  by (rule ok_cong) simp_all

lemma ops_okD:
  assumes "cache_ok keys ow s" and "vc_op s p = Some op"
  shows "p < vc_next s" "CHR ''/'' \<notin> set (rp_id (op_repository op))" "phase_ok ow s (rp_id (op_repository op)) (op_phase op)"
  using assms by (auto simp: ok_defs)

lemma entries_okD: "cache_ok keys ow s \<Longrightarrow> vc_entries s rid = Some e \<Longrightarrow> e < vc_next s \<and> ow e = rid"
  by (simp add: ok_defs)

lemma pending_repository: "pending_ok s \<Longrightarrow> vc_pending s rid = Some p \<Longrightarrow> vc_op s p = Some op \<Longrightarrow> rp_id (op_repository op) = rid"
  by (fastforce simp: pending_ok_def)

text \<open>An operation that goes on with its repository.\<close>

lemma pending_go_on:
  assumes "pending_ok s" and "vc_op s p = Some op" and "rp_id (op_repository op') = rp_id (op_repository op)"
    and "vc_pending s' = vc_pending s" and "vc_op s' = (vc_op s)(p := Some op')"
  shows "pending_ok s'"
  using assms pending_repository [OF assms(1) _ assms(2)] by (auto simp: pending_ok_def)

lemma listings_go_on:
  assumes "listings_ok s" and "vc_op s' = (vc_op s)(p := Some op')"
    and "\<And>e p' op. listing_of op' = Some e \<Longrightarrow> vc_op s p' = Some op \<Longrightarrow> listing_of op \<noteq> Some e"
  shows "listings_ok s'"
  using assms by (auto simp: listings_ok_def)

lemma ok_set_phase:
  assumes ok: "cache_ok keys ow s" and op: "vc_op s p = Some op"
    and ph: "phase_ok ow s (rp_id (op_repository op)) ph" "listing_of (op\<lparr>op_phase := ph\<rparr>) = None"
  shows "cache_ok keys ow (set_phase p ph s)"
proof -
  let ?s = "set_phase p ph s" and ?op = "op\<lparr>op_phase := ph\<rparr>"
  have s': "vc_op ?s = (vc_op s)(p := Some ?op)" by (simp add: op)
  have "phase_ok ow ?s = phase_ok ow s" by (auto simp: phase_ok_def fun_eq_iff split: phase.split)
  then have "ops_ok ow ?s" using ok ops_okD [OF ok op] ph op by (auto simp: ok_defs s')
  moreover have "listings_ok ?s" using ok ph by (intro listings_go_on [OF _ s']) (auto simp: cache_ok_def)
  moreover have "pending_ok ?s" using ok by (intro pending_go_on [OF _ op _ _ s']) (auto simp: cache_ok_def)
  ultimately show ?thesis using ok
    by (simp add: cache_ok_def entries_ok_def announced_ok_def backups_ok_def objects_ok_def)
qed

lemma ok_start_build:
  assumes ok: "cache_ok keys ow s" and op: "vc_op s p = Some op" "rp_id (op_repository op) = rp_id r"
  shows "cache_ok keys (ow(vc_next s := rp_id r)) (start_build cfg now p r found s)"
proof -
  let ?s = "start_build cfg now p r found s" and ?ow = "ow(vc_next s := rp_id r)" and ?op = "op\<lparr>op_phase := Listing (vc_next s) found\<rparr>"
  have s': "vc_op ?s = (vc_op s)(p := Some ?op)" by (simp add: op)
  have old: "phase_ok ?ow ?s rid ph" if "phase_ok ow s rid ph" for rid ph
    using that by (rule phase_ok_mono) auto
  have "ops_ok ?ow ?s"
    unfolding ops_ok_def using ops_okD [OF ok op(1)] ops_okD(1,2) [OF ok] old [OF ops_okD(3) [OF ok]]
    by (auto simp: s' op less_SucI simp del: start_build_sel(6))
  moreover have "listings_ok ?s"
  proof (rule listings_go_on [OF _ s'])
    show "listing_of op' \<noteq> Some e" if "listing_of ?op = Some e" "vc_op s p' = Some op'" for e p' op'
      using that ops_okD(3) [OF ok that(2)] by (auto simp: listing_of_def split: phase.splits)
  qed (use ok in \<open>simp add: cache_ok_def\<close>)
  moreover have "pending_ok ?s" using ok by (intro pending_go_on [OF _ op(1) _ _ s']) (auto simp: cache_ok_def)
  moreover have "entries_ok ?ow ?s" using ok by (auto simp: ok_defs less_SucI)
  moreover have "announced_ok ?ow ?s" using ok by (fastforce simp: ok_defs)
  moreover have "backups_ok ?ow ?s" using ok by (fastforce simp: ok_defs)
  moreover have "objects_ok keys ?ow ?s" using ok by (auto simp: cache_ok_def objects_ok_def well_keyed_def)
  ultimately show ?thesis by (simp add: cache_ok_def)
qed

text \<open>The repositories of the numbers that an operation takes.\<close>

definition extends :: "'o cache \<Rightarrow> (nat \<Rightarrow> string) \<Rightarrow> (nat \<Rightarrow> string) \<Rightarrow> bool" where
  "extends s ow ow' \<longleftrightarrow> (\<forall>n < vc_next s. ow' n = ow n)"

lemma extends_refl [simp]: "extends s ow ow"
  by (simp add: extends_def)

lemma extends_next [simp]: "extends s ow (ow(vc_next s := rid))"
  by (simp add: extends_def)

lemma ok_start_read:
  assumes ok: "cache_ok keys ow s" and op: "vc_op s p = Some op" "rp_id (op_repository op) = rp_id r"
  shows "\<exists>ow'. extends s ow ow' \<and> cache_ok keys ow' (start_read cfg now p r s)"
proof (cases rule: start_read_cases [of cfg now p r s])
  case build
  then show ?thesis using ok_start_build [OF ok op] extends_next by metis
next
  case (journal e)
  have "cache_ok keys ow (set_phase p (Journal e now) (update_entry e (\<lambda>x. x\<lparr>ce_stale := False\<rparr>) s))"
    by (rule ok_set_phase [where op = op]) (use ok op entries_okD [OF ok journal(1)] in \<open>simp_all add: ok_update_entry\<close>)
  then show ?thesis using journal(2) extends_refl by metis
next
  case (held e)
  have "cache_ok keys ow (set_phase p (ReadDone (Inr (ce_backups (vc_entry s e)))) s)"
    by (rule ok_set_phase [OF ok op(1)]) simp_all
  then show ?thesis using held(2) extends_refl by metis
qed

lemma ok_pending:
  assumes "cache_ok keys ow s" and "vc_op s p = Some op" and "rp_id (op_repository op) = rid"
  shows "cache_ok keys ow (s\<lparr>vc_pending := (vc_pending s)(rid := Some p)\<rparr>)"
proof -
  have "phase_ok ow (s\<lparr>vc_pending := (vc_pending s)(rid := Some p)\<rparr>) = phase_ok ow s"
    by (auto simp: phase_ok_def fun_eq_iff split: phase.split)
  then show ?thesis using assms by (simp add: ok_defs)
qed

definition new_op :: "repository \<Rightarrow> 'o cache \<Rightarrow> 'o cache" where
  "new_op r s = s\<lparr>vc_next := Suc (vc_next s), vc_op := (vc_op s)(vc_next s := Some
     \<lparr>op_repository = r, op_reads = 1, op_phase = ReadDone (Inr None)\<rparr>)\<rparr>"

lemma new_op_sel [simp]:
  "vc_announced (new_op r s) = vc_announced s" "vc_entries (new_op r s) = vc_entries s" "vc_pending (new_op r s) = vc_pending s"
  "vc_entry (new_op r s) = vc_entry s" "vc_object (new_op r s) = vc_object s" "vc_next (new_op r s) = Suc (vc_next s)"
  "vc_op (new_op r s) = (vc_op s)(vc_next s := Some \<lparr>op_repository = r, op_reads = 1, op_phase = ReadDone (Inr None)\<rparr>)"
  "vc_emitted (new_op r s) = vc_emitted s"
  by (simp_all add: new_op_def)

lemma cache_get_None:
  "vc_pending s (rp_id r) = None \<Longrightarrow> cache_get cfg now r s =
     (vc_next s, (let s1 = start_read cfg now (vc_next s) r (new_op r s)
        in s1\<lparr>vc_pending := (vc_pending s1)(rp_id r := Some (vc_next s))\<rparr>))"
  by (simp add: cache_get_def new_op_def Let_def)

lemma cache_get_Some: "vc_pending s (rp_id r) = Some p \<Longrightarrow> cache_get cfg now r s = (p, s)"
  by (simp add: cache_get_def)

lemma ok_new_op:
  assumes ok: "cache_ok keys ow s" and "CHR ''/'' \<notin> set (rp_id r)"
  shows "cache_ok keys ow (new_op r s)"
proof -
  let ?op = "\<lparr>op_repository = r, op_reads = 1, op_phase = ReadDone (Inr None)\<rparr>"
  have s': "vc_op (new_op r s) = (vc_op s)(vc_next s := Some ?op)" by simp
  have old: "phase_ok ow (new_op r s) rid ph" if "phase_ok ow s rid ph" for rid ph
    using that by (rule phase_ok_mono) auto
  have fresh: "vc_op s (vc_next s) = None" using ops_okD(1) [OF ok] by (cases "vc_op s (vc_next s)") auto
  have "ops_ok ow (new_op r s)"
    unfolding ops_ok_def using ops_okD(1,2) [OF ok] old [OF ops_okD(3) [OF ok]] assms(2)
    by (auto simp: less_SucI)
  moreover have "listings_ok (new_op r s)"
    using ok by (intro listings_go_on [OF _ s']) (auto simp: cache_ok_def listing_of_def)
  moreover have "pending_ok (new_op r s)"
    using ok fresh by (fastforce simp: cache_ok_def pending_ok_def)
  moreover have "entries_ok ow (new_op r s)" using ok by (auto simp: ok_defs less_SucI)
  moreover have "announced_ok ow (new_op r s)" using ok by (fastforce simp: ok_defs)
  moreover have "backups_ok ow (new_op r s)" using ok by (fastforce simp: ok_defs)
  moreover have "objects_ok keys ow (new_op r s)" using ok by (auto simp: cache_ok_def objects_ok_def)
  ultimately show ?thesis by (simp add: cache_ok_def)
qed

text \<open>An operation stays with its repository.\<close>

lemma start_read_op:
  assumes "vc_op s p = Some op"
  obtains op' where "vc_op (start_read cfg now p r s) p = Some op'" "op_repository op' = op_repository op" "op_reads op' = op_reads op"
proof (cases rule: start_read_cases [of cfg now p r s])
qed (use assms that in auto)

lemma start_read_others: "q \<noteq> p \<Longrightarrow> vc_op (start_read cfg now p r s) q = vc_op s q"
  by (cases rule: start_read_cases [of cfg now p r s]) auto

lemma start_read_sel [simp]:
  "vc_announced (start_read cfg now p r s) = vc_announced s" "vc_pending (start_read cfg now p r s) = vc_pending s"
  "vc_object (start_read cfg now p r s) = vc_object s" "vc_emitted (start_read cfg now p r s) = vc_emitted s"
  by (cases rule: start_read_cases [of cfg now p r s]; auto)+

lemma start_read_next: "vc_next s \<le> vc_next (start_read cfg now p r s)"
  by (cases rule: start_read_cases [of cfg now p r s]) auto

lemma ok_get:
  assumes ok: "cache_ok keys ow s" and slash: "CHR ''/'' \<notin> set (rp_id r)"
  shows "\<exists>ow'. extends s ow ow' \<and> cache_ok keys ow' (snd (cache_get cfg now r s))"
proof (cases "vc_pending s (rp_id r)")
  case (Some p)
  then show ?thesis using ok cache_get_Some extends_refl by (metis snd_conv)
next
  case None
  let ?s1 = "start_read cfg now (vc_next s) r (new_op r s)"
  obtain ow' where ow': "extends (new_op r s) ow ow'" "cache_ok keys ow' ?s1"
    using ok_start_read [OF ok_new_op [OF ok slash], of "vc_next s" _ r] by fastforce
  obtain op where "vc_op ?s1 (vc_next s) = Some op" "op_repository op = r"
    by (rule start_read_op [of "new_op r s" "vc_next s" _ cfg now r]) auto
  from ok_pending [OF ow'(2) this(1), of "rp_id r"] this(2) have "cache_ok keys ow' (snd (cache_get cfg now r s))"
    by (simp add: cache_get_None [OF None] Let_def)
  moreover have "extends s ow ow'" using ow'(1) by (simp add: extends_def)
  ultimately show ?thesis by blast
qed

text \<open>A listing that has been read.\<close>

definition populated :: "nat \<Rightarrow> 'o backups_by_vm \<Rightarrow> 'o cache \<Rightarrow> 'o cache" where
  "populated e b s = update_entry e (\<lambda>x. x\<lparr>ce_backups := Some (vc_next s)\<rparr>)
     (s\<lparr>vc_next := Suc (vc_next s), vc_object := (vc_object s)(vc_next s := b)\<rparr>)"

lemma populated_sel [simp]:
  "vc_announced (populated e b s) = vc_announced s" "vc_entries (populated e b s) = vc_entries s"
  "vc_pending (populated e b s) = vc_pending s" "vc_op (populated e b s) = vc_op s" "vc_next (populated e b s) = Suc (vc_next s)"
  "vc_object (populated e b s) = (vc_object s)(vc_next s := b)" "vc_emitted (populated e b s) = vc_emitted s"
  "vc_entry (populated e b s) = (vc_entry s)(e := (vc_entry s e)\<lparr>ce_backups := Some (vc_next s)\<rparr>)"
  by (simp_all add: populated_def)

lemma listed_Inr:
  assumes "vc_op s p = Some op" and "op_phase op = Listing e found"
  shows "listed p (Inr b) s = set_phase p (ReadDone (Inr (Some (vc_next s))))
    (if vc_entries s (rp_id (op_repository op)) = Some e then announce (rp_id (op_repository op)) (vc_next s) (populated e b s)
     else populated e b s)"
  using assms by (simp add: listed_def Let_def populated_def)

lemma listed_Inl:
  assumes "vc_op s p = Some op" and "op_phase op = Listing e found"
  shows "listed p (Inl err) s = set_phase p (Failing err found)
    (if vc_entries s (rp_id (op_repository op)) = Some e then s\<lparr>vc_entries := (vc_entries s)(rp_id (op_repository op) := None)\<rparr> else s)"
  using assms by (simp add: listed_def Let_def)

lemma listed_other:
  assumes "\<And>op e found. vc_op s p = Some op \<Longrightarrow> op_phase op \<noteq> Listing e found"
  shows "listed p result s = s"
  using assms by (auto simp: listed_def split: option.split phase.split)

lemma ok_drop_entry: "cache_ok keys ow s \<Longrightarrow> cache_ok keys ow (s\<lparr>vc_entries := (vc_entries s)(rid := None)\<rparr>)"
proof -
  have "phase_ok ow (s\<lparr>vc_entries := (vc_entries s)(rid := None)\<rparr>) = phase_ok ow s"
    by (auto simp: phase_ok_def fun_eq_iff split: phase.split)
  then show "cache_ok keys ow s \<Longrightarrow> cache_ok keys ow (s\<lparr>vc_entries := (vc_entries s)(rid := None)\<rparr>)"
    by (simp add: ok_defs)
qed

lemma ok_delete: "cache_ok keys ow s \<Longrightarrow> cache_ok keys ow (cache_delete rid s)"
proof -
  have "phase_ok ow (cache_delete rid s) = phase_ok ow s"
    by (auto simp: phase_ok_def fun_eq_iff split: phase.split)
  then show "cache_ok keys ow s \<Longrightarrow> cache_ok keys ow (cache_delete rid s)" by (simp add: ok_defs)
qed

lemma ok_announced:
  assumes "cache_ok keys ow s" and "announced_ok ow (s\<lparr>vc_announced := a\<rparr>)"
  shows "cache_ok keys ow (s\<lparr>vc_announced := a\<rparr>)"
proof -
  have "phase_ok ow (s\<lparr>vc_announced := a\<rparr>) = phase_ok ow s"
    by (auto simp: phase_ok_def fun_eq_iff split: phase.split)
  then show ?thesis using assms by (simp add: ok_defs)
qed

text \<open>The listing of an entry, before and after its operation goes on.\<close>

lemma ok_populated:
  assumes ok: "cache_ok keys ow s" and op: "vc_op s p = Some op" "op_phase op = Listing e found"
    and b: "well_keyed (keys (rp_id (op_repository op))) b"
  shows "cache_ok keys (ow(vc_next s := rp_id (op_repository op))) (set_phase p (ReadDone (Inr (Some (vc_next s)))) (populated e b s))"
    (is "cache_ok keys ?ow ?s")
proof -
  let ?op = "op\<lparr>op_phase := ReadDone (Inr (Some (vc_next s)))\<rparr>"
  have e: "e < vc_next s" "ow e = rp_id (op_repository op)" "ce_backups (vc_entry s e) = None"
    using ops_okD(3) [OF ok op(1)] op(2) by simp_all
  have s': "vc_op ?s = (vc_op s)(p := Some ?op)" by (simp add: op)
  have others: "phase_ok ?ow ?s (rp_id (op_repository op')) (op_phase op')" if "vc_op s q = Some op'" "q \<noteq> p" for q op'
  proof -
    have "listing_of op' \<noteq> Some e"
      using ok op that by (auto simp: cache_ok_def listings_ok_def listing_of_def)
    then show ?thesis using ops_okD(3) [OF ok that(1)] by (auto simp: listing_of_def phase_ok_def split: phase.splits)
  qed
  have "ops_ok ?ow ?s"
    unfolding ops_ok_def using ops_okD(1,2) [OF ok] others op by (auto simp: less_SucI)
  moreover have "listings_ok ?s" using ok by (intro listings_go_on [OF _ s']) (auto simp: cache_ok_def)
  moreover have "pending_ok ?s" using ok by (intro pending_go_on [OF _ op(1) _ _ s']) (auto simp: cache_ok_def)
  moreover have "entries_ok ?ow ?s" using ok by (auto simp: ok_defs less_SucI)
  moreover have "announced_ok ?ow ?s" using ok by (fastforce simp: ok_defs)
  moreover have "backups_ok ?ow ?s"
    using ok e unfolding cache_ok_def backups_ok_def by (auto simp: less_SucI)
  moreover have "objects_ok keys ?ow ?s" using ok b by (auto simp: cache_ok_def objects_ok_def)
  ultimately show ?thesis by (simp add: cache_ok_def)
qed

lemma ok_listed:
  assumes ok: "cache_ok keys ow s" and op: "vc_op s p = Some op"
    and b: "\<And>b. result = Inr b \<Longrightarrow> well_keyed (keys (rp_id (op_repository op))) b"
  shows "\<exists>ow'. extends s ow ow' \<and> cache_ok keys ow' (listed p result s)"
proof (cases "\<exists>e found. op_phase op = Listing e found")
  case False
  then have "listed p result s = s" using op by (intro listed_other) auto
  then show ?thesis using ok extends_refl by metis
next
  case True
  then obtain e found where ph: "op_phase op = Listing e found" by blast
  let ?rid = "rp_id (op_repository op)"
  show ?thesis
  proof (cases result)
    case (Inl err)
    have "cache_ok keys ow (listed p result s)"
      unfolding Inl listed_Inl [OF op ph]
      by (rule ok_set_phase [where op = op]) (use ok op in \<open>auto intro: ok_drop_entry\<close>)
    then show ?thesis using extends_refl by blast
  next
    case (Inr bs)
    let ?ow = "ow(vc_next s := ?rid)" and ?s1 = "set_phase p (ReadDone (Inr (Some (vc_next s)))) (populated e bs s)"
    have ok1: "cache_ok keys ?ow ?s1" using ok_populated [OF ok op ph] b Inr by simp
    have "cache_ok keys ?ow (listed p result s)"
    proof (cases "vc_entries s ?rid = Some e")
      case True
      have "announced_ok ?ow (?s1\<lparr>vc_announced := AList.update ?rid (vc_next s) (vc_announced s)\<rparr>)"
        using ok1 ops_okD(2) [OF ok op]
        by (auto simp: cache_ok_def announced_ok_def distinct_update update_conv')
      from ok_announced [OF ok1 this] show ?thesis
        unfolding Inr listed_Inr [OF op ph] using True by (subst (asm) ok_cong) auto
    next
      case False
      then show ?thesis using ok1 unfolding Inr listed_Inr [OF op ph] by simp
    qed
    then show ?thesis using extends_next by blast
  qed
qed

text \<open>The events of the journal keep a listing well keyed.\<close>

lemma in_delete: "(x, y) \<in> set (AList.delete k al) \<longleftrightarrow> x \<noteq> k \<and> (x, y) \<in> set al"
  by (auto simp: AList.delete_eq)

lemma well_keyed_delete:
  assumes "well_keyed key b"
  shows "well_keyed key (AList.delete vm b)"
  using assms by (fastforce simp: well_keyed_def distinct_delete in_delete)

lemma in_update: "distinct (map fst al) \<Longrightarrow> (x, y) \<in> set (AList.update k v al) \<longleftrightarrow> (if x = k then y = v else (x, y) \<in> set al)"
  using map_of_eq_Some_iff [of "AList.update k v al" x y] map_of_eq_Some_iff [of al x y]
  by (auto simp: distinct_update update_conv')

lemma well_keyed_update:
  assumes "well_keyed key b" and "distinct (map fst bs)" and "\<And>k v. (k, v) \<in> set bs \<Longrightarrow> vb_id v = k \<and> key k = vm"
  shows "well_keyed key (AList.update vm bs b)"
proof -
  have b: "distinct (map fst b)" using assms(1) by (simp add: well_keyed_def)
  have "distinct (map fst y) \<and> (\<forall>(k, v) \<in> set y. vb_id v = k \<and> key k = x)" if "(x, y) \<in> set (AList.update vm bs b)" for x y
    using that assms unfolding in_update [OF b] by (fastforce simp: well_keyed_def split: if_splits)
  then show ?thesis using b by (fastforce simp: well_keyed_def distinct_update)
qed

lemma well_keyed_map_of:
  assumes "well_keyed key b" and "map_of b vm = Some bs"
  shows "distinct (map fst bs)" and "(k, v) \<in> set bs \<Longrightarrow> vb_id v = k \<and> key k = vm"
  using assms map_of_SomeD [OF assms(2)] by (auto simp: well_keyed_def)

lemma well_keyed_apply:
  assumes b: "well_keyed key b" and ev: "well_keyed_event key ev"
  shows "well_keyed key (snd (applyEvent ev b))"
proof (cases ev)
  case (Deleted vm f)
  show ?thesis
  proof (cases "map_of b vm")
    case None
    then show ?thesis using b Deleted by (simp add: removeBackup_def)
  next
    case (Some bs)
    have "well_keyed key (AList.update vm (AList.delete f bs) b)"
      using well_keyed_map_of [OF b Some]
      by (intro well_keyed_update [OF b]) (auto simp: distinct_delete in_delete)
    then show ?thesis using b Deleted Some by (simp add: removeBackup_def well_keyed_delete)
  qed
next
  case (Upsert event vm f backup)
  let ?bs = "case map_of b vm of None \<Rightarrow> [] | Some bs \<Rightarrow> bs"
  have bs: "distinct (map fst ?bs)" "\<And>k v. (k, v) \<in> set ?bs \<Longrightarrow> vb_id v = k \<and> key k = vm"
    using well_keyed_map_of [OF b, of vm] by (cases "map_of b vm"; auto)+
  have "well_keyed key (AList.update vm (AList.update f backup ?bs) b)"
    using ev Upsert bs by (intro well_keyed_update [OF b]) (auto simp: distinct_update in_update well_keyed_event_def split: if_splits)
  then show ?thesis using Upsert by (simp add: Let_def)
qed

lemma well_keyed_events:
  "well_keyed key b \<Longrightarrow> (\<And>ev. ev \<in> set evs \<Longrightarrow> well_keyed_event key ev) \<Longrightarrow> well_keyed key (snd (apply_events evs b))"
  unfolding apply_events_snd by (induction evs arbitrary: b) (auto intro: well_keyed_apply)

text \<open>A read of the journal.\<close>

lemma journal_done_eq:
  "\<exists>x. journal_done p e t cursor s = set_phase p (ReadDone (Inr (ce_backups (vc_entry s e)))) (update_entry e (\<lambda>_. x) s) \<and>
     ce_backups x = ce_backups (vc_entry s e)"
proof -
  let ?x = "case cursor of None \<Rightarrow> vc_entry s e | Some c \<Rightarrow>
    if c \<noteq> ce_cursor (vc_entry s e) then (vc_entry s e)\<lparr>ce_cursor := c, ce_journalConfirmed := True\<rparr> else vc_entry s e"
  have "journal_done p e t cursor s = set_phase p (ReadDone (Inr (ce_backups (vc_entry s e))))
      (update_entry e (\<lambda>_. ?x\<lparr>ce_refreshedAt := t\<rparr>) s)"
    by (auto simp: journal_done_def Let_def update_entry_def set_phase_def split: option.split)
  moreover have "ce_backups (?x\<lparr>ce_refreshedAt := t\<rparr>) = ce_backups (vc_entry s e)" by (auto split: option.split)
  ultimately show ?thesis by blast
qed

definition replayed :: "string \<Rightarrow> nat \<Rightarrow> 'o vm_backup journal_event list \<Rightarrow> 'o cache \<Rightarrow> 'o cache" where
  "replayed rid obj evs s = s\<lparr>vc_object := (vc_object s)(obj := snd (apply_events evs (vc_object s obj))),
     vc_emitted := vc_emitted s @ (if map_of (vc_announced s) rid = Some obj
       then map (emitted_of rid) (fst (apply_events evs (vc_object s obj))) else [])\<rparr>"

lemma replayed_sel [simp]:
  "vc_announced (replayed rid obj evs s) = vc_announced s" "vc_entries (replayed rid obj evs s) = vc_entries s"
  "vc_pending (replayed rid obj evs s) = vc_pending s" "vc_op (replayed rid obj evs s) = vc_op s"
  "vc_next (replayed rid obj evs s) = vc_next s" "vc_entry (replayed rid obj evs s) = vc_entry s"
  by (simp_all add: replayed_def)

text \<open>The ways in which \<open>#replay\<close> goes on; \<open>unreplayable\<close> may have been changed before.\<close>

lemma journal_read_cases:
  assumes "vc_op s p = Some op" and "op_phase op = Journal e t"
  obtains (failed) err where "journal_read p result s = set_phase p (Failing err (Some e)) s" "result = Inl err"
  | (unreplayable) "journal_read p result s = set_phase p (NotReplayable e) s" "result = Inr None"
  | (unpopulated) u ph where "ce_backups (vc_entry s e) = None" "ph = Failing TypeError (Some e)"
      "journal_read p result s = set_phase p ph (s\<lparr>vc_unreplayable := u\<rparr>)"
  | (unlisted) u t' cursor where "ce_backups (vc_entry s e) = None"
      "journal_read p result s = journal_done p e t' cursor (s\<lparr>vc_unreplayable := u\<rparr>)"
  | (replay) u evs t' cursor c obj where "ce_backups (vc_entry s e) = Some obj" "result = Inr (Some (evs, c))"
      "journal_read p result s = journal_done p e t' cursor (replayed (rp_id (op_repository op)) obj evs (s\<lparr>vc_unreplayable := u\<rparr>))"
proof (cases result)
  case (Inl err)
  then show ?thesis using failed assms by (simp add: journal_read_def)
next
  case (Inr r)
  show ?thesis
  proof (cases r)
    case None
    then show ?thesis using unreplayable assms Inr by (simp add: journal_read_def)
  next
    case (Some ec)
    obtain evs c where ec: "ec = (evs, c)" by (cases ec)
    let ?rid = "rp_id (op_repository op)"
    let ?u = "if vc_entries s ?rid = Some e then vc_unreplayable s - {?rid} else vc_unreplayable s"
    have u: "(if vc_entries s ?rid = Some e then s\<lparr>vc_unreplayable := vc_unreplayable s - {?rid}\<rparr> else s) = s\<lparr>vc_unreplayable := ?u\<rparr>" by simp
    show ?thesis
    proof (cases "ce_backups (vc_entry s e)")
      case None
      then have "journal_read p result s = (if evs \<noteq> [] then set_phase p (Failing TypeError (Some e)) (s\<lparr>vc_unreplayable := ?u\<rparr>)
          else journal_done p e t c (s\<lparr>vc_unreplayable := ?u\<rparr>))"
        using assms Inr Some ec by (simp add: journal_read_def Let_def u)
      then consider "journal_read p result s = set_phase p (Failing TypeError (Some e)) (s\<lparr>vc_unreplayable := ?u\<rparr>)"
        | "journal_read p result s = journal_done p e t c (s\<lparr>vc_unreplayable := ?u\<rparr>)" by (cases "evs = []") simp_all
      then show ?thesis
      proof cases
        case 1
        then show ?thesis by (rule unpopulated [OF None refl])
      next
        case 2
        then show ?thesis by (rule unlisted [OF None])
      qed
    next
      case (Some obj)
      have "journal_read p result s = journal_done p e t c (replayed ?rid obj evs (s\<lparr>vc_unreplayable := ?u\<rparr>))"
        using assms Inr \<open>r = Some ec\<close> ec Some by (simp add: journal_read_def Let_def u replayed_def)
      then show ?thesis using replay [OF Some] Inr \<open>r = Some ec\<close> ec by blast
    qed
  qed
qed

lemma journal_read_other:
  assumes "\<And>op e t. vc_op s p = Some op \<Longrightarrow> op_phase op \<noteq> Journal e t"
  shows "journal_read p result s = s"
  using assms by (auto simp: journal_read_def split: option.split phase.split)

lemma ok_replayed:
  assumes ok: "cache_ok keys ow s" and evs: "\<And>ev. ev \<in> set evs \<Longrightarrow> well_keyed_event (keys (ow obj)) ev"
    and obj: "obj < vc_next s"
  shows "cache_ok keys ow (replayed rid obj evs s)"
proof -
  have "phase_ok ow (replayed rid obj evs s) = phase_ok ow s"
    by (auto simp: phase_ok_def fun_eq_iff split: phase.split)
  moreover have "objects_ok keys ow (replayed rid obj evs s)"
    using ok evs obj by (auto simp: cache_ok_def objects_ok_def replayed_def intro: well_keyed_events)
  ultimately show ?thesis using ok
    by (simp add: cache_ok_def entries_ok_def announced_ok_def backups_ok_def ops_ok_def listings_ok_def pending_ok_def)
qed

lemma ok_unreplayable: "cache_ok keys ow (s\<lparr>vc_unreplayable := u\<rparr>) = cache_ok keys ow s"
  by (rule ok_cong) simp_all

lemma ok_journal_done:
  assumes "cache_ok keys ow s" and "vc_op s p = Some op"
  shows "cache_ok keys ow (journal_done p e t cursor s)"
proof -
  obtain x where x: "journal_done p e t cursor s = set_phase p (ReadDone (Inr (ce_backups (vc_entry s e)))) (update_entry e (\<lambda>_. x) s)"
    "ce_backups x = ce_backups (vc_entry s e)" using journal_done_eq by blast
  have "cache_ok keys ow (update_entry e (\<lambda>_. x) s) = cache_ok keys ow s" by (rule ok_cong) (simp_all add: x(2))
  then show ?thesis unfolding x(1) using assms by (intro ok_set_phase [where op = op]) simp_all
qed

lemma ok_journal_read:
  assumes ok: "cache_ok keys ow s" and op: "vc_op s p = Some op"
    and evs: "\<And>evs c ev. result = Inr (Some (evs, c)) \<Longrightarrow> ev \<in> set evs \<Longrightarrow> well_keyed_event (keys (rp_id (op_repository op))) ev"
  shows "cache_ok keys ow (journal_read p result s)"
proof (cases "\<exists>e t. op_phase op = Journal e t")
  case False
  then have "journal_read p result s = s" using op by (intro journal_read_other) auto
  then show ?thesis using ok by simp
next
  case True
  then obtain e t where ph: "op_phase op = Journal e t" by blast
  have e: "e < vc_next s" "ow e = rp_id (op_repository op)" using ops_okD(3) [OF ok op] ph by simp_all
  from op ph show ?thesis
  proof (cases rule: journal_read_cases [where result = result])
    case (failed err)
    then show ?thesis using ok op by (simp add: ok_set_phase)
  next
    case unreplayable
    then show ?thesis using ok op e by (simp add: ok_set_phase)
  next
    case (unpopulated u ph)
    then show ?thesis using ok op by (simp add: ok_set_phase ok_unreplayable)
  next
    case (unlisted u t' cursor)
    then show ?thesis using ok op by (simp add: ok_journal_done ok_unreplayable)
  next
    case (replay u evs' t' cursor c obj)
    have obj: "obj < vc_next s" "ow obj = rp_id (op_repository op)"
      using ok replay(1) e by (auto simp: cache_ok_def backups_ok_def)
    have "cache_ok keys ow (replayed (rp_id (op_repository op)) obj evs' (s\<lparr>vc_unreplayable := u\<rparr>))"
      using ok obj evs [OF replay(2)] by (intro ok_replayed) (simp_all add: ok_unreplayable)
    then show ?thesis unfolding replay(3) using op by (intro ok_journal_done) simp_all
  qed
qed

text \<open>The other steps, and all of them together.\<close>

lemma not_replayed_eq:
  assumes "vc_op s p = Some op" and "op_phase op = NotReplayable e"
  obtains u where "not_replayed cfg now p s = start_build cfg now p (op_repository op) (Some e) (s\<lparr>vc_unreplayable := u\<rparr>)"
proof
  show "not_replayed cfg now p s = start_build cfg now p (op_repository op) (Some e) (s\<lparr>vc_unreplayable :=
      if vc_entries s (rp_id (op_repository op)) = Some e then insert (rp_id (op_repository op)) (vc_unreplayable s) else vc_unreplayable s\<rparr>)"
    using assms by (simp add: not_replayed_def Let_def)
qed

lemma not_replayed_other:
  assumes "\<And>op e. vc_op s p = Some op \<Longrightarrow> op_phase op \<noteq> NotReplayable e"
  shows "not_replayed cfg now p s = s"
  using assms by (auto simp: not_replayed_def split: option.split phase.split)

lemma read_failed_eq:
  assumes "vc_op s p = Some op" and "op_phase op = Failing err found"
  shows "read_failed p s = set_phase p (ReadDone (Inl err))
    (if vc_entries s (rp_id (op_repository op)) = found then cache_delete (rp_id (op_repository op)) s else s)"
  using assms by (simp add: read_failed_def Let_def)

lemma read_failed_other:
  assumes "\<And>op err f. vc_op s p = Some op \<Longrightarrow> op_phase op \<noteq> Failing err f"
  shows "read_failed p s = s"
  using assms by (auto simp: read_failed_def split: option.split phase.split)

definition next_read :: "nat \<Rightarrow> cache_op \<Rightarrow> 'o cache \<Rightarrow> 'o cache" where
  "next_read p op s = s\<lparr>vc_op := (vc_op s)(p := Some (op\<lparr>op_reads := Suc (op_reads op)\<rparr>))\<rparr>"

lemma next_read_sel [simp]:
  "vc_announced (next_read p op s) = vc_announced s" "vc_entries (next_read p op s) = vc_entries s" "vc_pending (next_read p op s) = vc_pending s"
  "vc_entry (next_read p op s) = vc_entry s" "vc_object (next_read p op s) = vc_object s" "vc_next (next_read p op s) = vc_next s"
  "vc_op (next_read p op s) = (vc_op s)(p := Some (op\<lparr>op_reads := Suc (op_reads op)\<rparr>))" "vc_emitted (next_read p op s) = vc_emitted s"
  by (simp_all add: next_read_def)

lemma refreshed_cases:
  assumes "vc_op s p = Some op"
  obtains (again) obj where "op_phase op = ReadDone (Inr obj)" "reads_again now op obj s"
      "refreshed cfg now later p s = start_read cfg later p (op_repository op) (next_read p op s)"
  | (settles) r where "op_phase op = ReadDone r" "refreshed cfg now later p s = set_phase p (Settled r) s"
  | (other) "\<And>r. op_phase op \<noteq> ReadDone r" "refreshed cfg now later p s = s"
proof (cases "\<exists>r. op_phase op = ReadDone r")
  case True
  then obtain r where r: "op_phase op = ReadDone r" by blast
  show ?thesis
  proof (cases r)
    case (Inl err)
    then show ?thesis using settles [OF r] r assms by (simp add: refreshed_def)
  next
    case (Inr obj)
    then show ?thesis using settles [OF r] again [of obj] r assms
      by (cases "reads_again now op obj s") (simp_all add: refreshed_def next_read_def)
  qed
next
  case False
  then show ?thesis using other assms by (auto simp: refreshed_def split: phase.splits)
qed

lemma refreshed_None: "vc_op s p = None \<Longrightarrow> refreshed cfg now later p s = s"
  by (simp add: refreshed_def)

lemma ok_next_read:
  assumes ok: "cache_ok keys ow s" and op: "vc_op s p = Some op"
  shows "cache_ok keys ow (next_read p op s)"
proof -
  let ?op = "op\<lparr>op_reads := Suc (op_reads op)\<rparr>"
  have s': "vc_op (next_read p op s) = (vc_op s)(p := Some ?op)" by simp
  have l: "listing_of ?op = listing_of op" by (simp add: listing_of_def)
  have "phase_ok ow (next_read p op s) = phase_ok ow s" by (auto simp: phase_ok_def fun_eq_iff split: phase.split)
  then have "ops_ok ow (next_read p op s)" using ok ops_okD [OF ok op] by (auto simp: cache_ok_def ops_ok_def)
  moreover have "listings_ok (next_read p op s)" using ok op l by (auto simp: cache_ok_def listings_ok_def)
  moreover have "pending_ok (next_read p op s)" using ok by (intro pending_go_on [OF _ op _ _ s']) (auto simp: cache_ok_def)
  ultimately show ?thesis using ok
    by (simp add: cache_ok_def entries_ok_def announced_ok_def backups_ok_def objects_ok_def)
qed

lemma get_finally_eq:
  assumes "vc_op s p = Some op" and "op_phase op = Settled r"
  shows "get_finally p s = s\<lparr>vc_op := (vc_op s)(p := None), vc_pending :=
    (if vc_pending s (rp_id (op_repository op)) = Some p then (vc_pending s)(rp_id (op_repository op) := None) else vc_pending s)\<rparr>"
  using assms by (simp add: get_finally_def Let_def)

lemma get_finally_other:
  assumes "\<And>op r. vc_op s p = Some op \<Longrightarrow> op_phase op \<noteq> Settled r"
  shows "get_finally p s = s"
  using assms by (auto simp: get_finally_def split: option.split phase.split)

lemma ok_finally:
  assumes ok: "cache_ok keys ow s"
  shows "cache_ok keys ow (get_finally p s)"
proof (cases "\<exists>op r. vc_op s p = Some op \<and> op_phase op = Settled r")
  case False
  then show ?thesis using ok get_finally_other [of s p] by auto
next
  case True
  then obtain op r where op: "vc_op s p = Some op" "op_phase op = Settled r" by blast
  let ?s = "get_finally p s"
  have "phase_ok ow ?s = phase_ok ow s" by (auto simp: get_finally_eq [OF op] phase_ok_def fun_eq_iff split: phase.split)
  then have "ops_ok ow ?s" using ok by (auto simp: cache_ok_def ops_ok_def get_finally_eq [OF op])
  moreover have "listings_ok ?s" using ok by (auto simp: cache_ok_def listings_ok_def get_finally_eq [OF op])
  moreover have "pending_ok ?s"
  proof -
    have ok': "pending_ok s" using ok by (simp add: cache_ok_def)
    have "vc_pending s rid = Some q \<and> q \<noteq> p" if "vc_pending ?s rid = Some q" for rid q
      using that pending_repository [OF ok' _ op(1), of rid] by (auto simp: get_finally_eq [OF op] split: if_splits)
    moreover have "vc_op ?s q = vc_op s q" if "q \<noteq> p" for q using that by (simp add: get_finally_eq [OF op])
    ultimately show ?thesis using ok' unfolding pending_ok_def by metis
  qed
  ultimately show ?thesis using ok
    by (simp add: cache_ok_def entries_ok_def announced_ok_def backups_ok_def objects_ok_def get_finally_eq [OF op])
qed

lemma cache_remove_eq:
  "cache_remove rid s = (case map_of (vc_announced s) rid of
     None \<Rightarrow> cache_delete rid s
   | Some obj \<Rightarrow> (cache_delete rid s)\<lparr>vc_announced := AList.delete rid (vc_announced s), vc_emitted := vc_emitted s @
       map (emitted_of rid) (concat (map (\<lambda>(_, backups). map (\<lambda>kb. Remove (snd kb)) backups) (vc_object s obj)))\<rparr>)"
  by (simp add: cache_remove_def Let_def split: option.split)

lemma ok_remove:
  assumes ok: "cache_ok keys ow s"
  shows "cache_ok keys ow (cache_remove rid s)"
proof (cases "map_of (vc_announced s) rid")
  case None
  then show ?thesis using ok_delete [OF ok] by (simp add: cache_remove_eq)
next
  case (Some obj)
  have "announced_ok ow ((cache_delete rid s)\<lparr>vc_announced := AList.delete rid (vc_announced s)\<rparr>)"
    using ok by (auto simp: cache_ok_def announced_ok_def distinct_delete delete_conv')
  from ok_announced [OF ok_delete [OF ok] this] show ?thesis
    unfolding cache_remove_eq Some by (subst (asm) ok_cong) auto
qed

lemma ok_refresh: "cache_ok keys ow s \<Longrightarrow> cache_ok keys ow (cache_refresh rid s)"
  by (simp add: cache_refresh_def ok_update_entry split: option.split)

lemma ok_refreshed:
  assumes ok: "cache_ok keys ow s"
  shows "\<exists>ow'. extends s ow ow' \<and> cache_ok keys ow' (refreshed cfg now later p s)"
proof (cases "vc_op s p")
  case None
  then show ?thesis using ok by (auto simp: refreshed_None intro: extends_refl)
next
  case (Some op)
  then show ?thesis
  proof (cases rule: refreshed_cases [of s p op now cfg later])
    case (again obj)
    obtain ow' where "extends (next_read p op s) ow ow'" "cache_ok keys ow' (refreshed cfg now later p s)"
      unfolding again(3) using ok_start_read [OF ok_next_read [OF ok Some], of p "op\<lparr>op_reads := Suc (op_reads op)\<rparr>"] by fastforce
    moreover from this(1) have "extends s ow ow'" by (simp add: extends_def)
    ultimately show ?thesis by blast
  next
    case (settles r)
    then have "cache_ok keys ow (refreshed cfg now later p s)" using ok_set_phase [OF ok Some, of "Settled r"] by simp
    then show ?thesis by (auto intro: extends_refl)
  next
    case other
    then show ?thesis using ok by (auto intro: extends_refl)
  qed
qed

lemma ok_not_replayed:
  assumes ok: "cache_ok keys ow s"
  shows "\<exists>ow'. extends s ow ow' \<and> cache_ok keys ow' (not_replayed cfg now p s)"
proof (cases "\<exists>op e. vc_op s p = Some op \<and> op_phase op = NotReplayable e")
  case False
  then have "not_replayed cfg now p s = s" by (intro not_replayed_other) auto
  then show ?thesis using ok by (auto intro: extends_refl)
next
  case True
  then obtain op e where op: "vc_op s p = Some op" "op_phase op = NotReplayable e" by blast
  obtain u where u: "not_replayed cfg now p s = start_build cfg now p (op_repository op) (Some e) (s\<lparr>vc_unreplayable := u\<rparr>)"
    using not_replayed_eq [OF op] by blast
  have "cache_ok keys (ow(vc_next s := rp_id (op_repository op))) (not_replayed cfg now p s)"
    unfolding u using ok_start_build [of keys ow "s\<lparr>vc_unreplayable := u\<rparr>" p op "op_repository op"] ok op
    by (simp add: ok_unreplayable)
  then show ?thesis using extends_next by blast
qed

lemma ok_failed:
  assumes ok: "cache_ok keys ow s"
  shows "cache_ok keys ow (read_failed p s)"
proof (cases "\<exists>op err f. vc_op s p = Some op \<and> op_phase op = Failing err f")
  case False
  then show ?thesis using ok read_failed_other [of s p] by auto
next
  case True
  then obtain op err f where op: "vc_op s p = Some op" "op_phase op = Failing err f" by blast
  show ?thesis unfolding read_failed_eq [OF op]
    by (rule ok_set_phase [where op = op]) (use ok op in \<open>simp_all add: ok_delete\<close>)
qed

theorem ok_step:
  assumes "cache_step cfg keys replayable s s'" and ok: "cache_ok keys ow s"
  shows "\<exists>ow'. extends s ow ow' \<and> cache_ok keys ow' s'"
  using assms(1)
proof (cases rule: cache_step.cases)
  case (step_get r now)
  then show ?thesis using ok_get [OF ok] by simp
next
  case (step_listed p op result)
  then show ?thesis using ok_listed [OF ok, of p op result] by blast
next
  case (step_journal p op result)
  then show ?thesis using ok_journal_read [OF ok, of p op result] extends_refl by blast
next
  case (step_not_replayed now p)
  then show ?thesis using ok_not_replayed [OF ok] by blast
next
  case (step_refreshed now later p)
  then show ?thesis using ok_refreshed [OF ok] by blast
qed (use ok extends_refl in \<open>blast intro: ok_failed ok_finally ok_delete ok_remove ok_refresh\<close>)+


interpretation ok_kept: kept_by_steps "cache_step cfg keys replayable" "\<lambda>s. \<exists>ow. cache_ok keys ow s"
  by unfold_locales (blast dest: ok_step)

end
