(* ===== verification/Vm_Backups_Collection.thy ===== *)
theory Vm_Backups_Collection
  imports Vm_Backups_Cache_Props
begin

text \<open>
  The collection of the archives: a consumer that applies what the cache emits, and accepts an archive as new
  only when it does not have it, and as changed or gone only when it has it, holds what the cache serves.
\<close>

section \<open>The consumer\<close>

fun consume_one :: "'o emitted \<Rightarrow> (string \<Rightarrow> 'o vm_backup option) option \<Rightarrow> (string \<Rightarrow> 'o vm_backup option) option" where
  "consume_one _ None = None"
| "consume_one (EmitAdd a) (Some m) = (if m (vb_id a) = None then Some (m(vb_id a := Some a)) else None)"
| "consume_one (EmitUpdate a) (Some m) = (if m (vb_id a) = None then None else Some (m(vb_id a := Some a)))"
| "consume_one (EmitRemove ident) (Some m) = (if m ident = None then None else Some (m(ident := None)))"

definition consume :: "'o emitted list \<Rightarrow> (string \<Rightarrow> 'o vm_backup option) option \<Rightarrow> (string \<Rightarrow> 'o vm_backup option) option" where
  "consume es m = fold consume_one es m"

lemma consume_append: "consume (es @ es') m = consume es' (consume es m)"
  by (simp add: consume_def)

lemma consume_Nil [simp]: "consume [] m = m"
  by (simp add: consume_def)

section \<open>The changes of a repository\<close>

text \<open>The backups of a listing by name, and what one change makes of them, when it may happen.\<close>

definition by_key :: "(string \<Rightarrow> string) \<Rightarrow> 'o backups_by_vm \<Rightarrow> string \<Rightarrow> 'o vm_backup option" where
  "by_key key b k = backup_at b (key k) k"

definition change_id :: "'o change \<Rightarrow> string" where
  "change_id c = (case c of Add b \<Rightarrow> vb_id b | Update b \<Rightarrow> vb_id b | Remove b \<Rightarrow> vb_id b)"

definition change_value :: "'o change \<Rightarrow> 'o vm_backup option" where
  "change_value c = (case c of Add b \<Rightarrow> Some b | Update b \<Rightarrow> Some b | Remove _ \<Rightarrow> None)"

definition applies :: "'o change \<Rightarrow> (string \<Rightarrow> 'o vm_backup option) \<Rightarrow> bool" where
  "applies c m \<longleftrightarrow> (m (change_id c) = None) = (\<exists>b. c = Add b)"

fun changes_to :: "'o change list \<Rightarrow> (string \<Rightarrow> 'o vm_backup option) \<Rightarrow> (string \<Rightarrow> 'o vm_backup option) \<Rightarrow> bool" where
  "changes_to [] m m' \<longleftrightarrow> m' = m"
| "changes_to (c # cs) m m' \<longleftrightarrow> applies c m \<and> changes_to cs (m(change_id c := change_value c)) m'"

lemma changes_to_append: "changes_to cs m m' \<Longrightarrow> changes_to cs' m' m'' \<Longrightarrow> changes_to (cs @ cs') m m''"
  by (induction cs arbitrary: m) auto

text \<open>Changes of distinct backups.\<close>

lemma changes_distinct:
  assumes "distinct (map change_id cs)" and "\<And>c. c \<in> set cs \<Longrightarrow> applies c m"
    and "\<And>c. c \<in> set cs \<Longrightarrow> m' (change_id c) = change_value c"
    and "\<And>k. k \<notin> change_id ` set cs \<Longrightarrow> m' k = m k"
  shows "changes_to cs m m'"
  using assms
proof (induction cs arbitrary: m)
  case Nil
  then show ?case by auto
next
  case (Cons c cs)
  let ?m = "m(change_id c := change_value c)"
  have other: "change_id c' \<noteq> change_id c" if "c' \<in> set cs" for c'
    using that Cons.prems(1) by (metis distinct.simps(2) image_eqI image_set list.simps(9))
  have "changes_to cs ?m m'"
  proof (rule Cons.IH)
    show "applies c' ?m" if "c' \<in> set cs" for c'
      using other [OF that] Cons.prems(2) [of c'] that by (simp add: applies_def)
    show "m' k = ?m k" if "k \<notin> change_id ` set cs" for k
      using that Cons.prems(3) [of c] Cons.prems(4) [of k] by auto
  qed (use Cons.prems in auto)
  then show ?case using Cons.prems(2) by simp
qed

text \<open>The events of the journal, one after the other.\<close>

lemma by_key_apply:
  assumes "well_keyed_event key ev" and "well_keyed key b"
  shows "changes_to (case fst (applyEvent ev b) of None \<Rightarrow> [] | Some c \<Rightarrow> [c]) (by_key key b) (by_key key (snd (applyEvent ev b)))"
proof (cases ev)
  case (Deleted vm f)
  show ?thesis
  proof (cases "backup_at b vm f")
    case None
    then have "by_key key (removeBackup vm f b) = by_key key b"
      by (auto simp: by_key_def backup_at_remove fun_eq_iff)
    then show ?thesis using Deleted None by simp
  next
    case (Some x)
    obtain bs where bs: "map_of b vm = Some bs" "map_of bs f = Some x" using Some by (auto simp: backup_at_def split: option.splits)
    then have x: "vb_id x = f" "key f = vm" using well_keyed_map_of(2) [OF assms(2) bs(1) map_of_SomeD [OF bs(2)]] by auto
    then have "by_key key (removeBackup vm f b) = (by_key key b)(f := None)"
      by (auto simp: by_key_def backup_at_remove fun_eq_iff)
    then show ?thesis using Deleted Some x by (simp add: applies_def change_id_def change_value_def by_key_def)
  qed
next
  case (Upsert event vm f backup)
  have k: "vb_id backup = f" "key f = vm" using assms(1) Upsert by (simp_all add: well_keyed_event_def)
  have "by_key key (snd (applyEvent ev b)) = (by_key key b)(f := Some backup)"
  proof -
    have "ev_vmUuid ev = vm" "ev_filename ev = f" "ev_value ev = Some backup" using Upsert by (simp_all add: ev_value_def)
    then show ?thesis using k by (auto simp: by_key_def backup_at_apply fun_eq_iff)
  qed
  then show ?thesis using Upsert k
    by (auto simp: Let_def applies_def change_id_def change_value_def by_key_def fun_eq_iff)
qed

lemma by_key_events:
  "(\<And>ev. ev \<in> set evs \<Longrightarrow> well_keyed_event key ev) \<Longrightarrow> well_keyed key b \<Longrightarrow>
     changes_to (fst (apply_events evs b)) (by_key key b) (by_key key (snd (apply_events evs b)))"
proof (induction evs rule: rev_induct)
  case Nil
  show ?case by (simp add: apply_events_def)
next
  case (snoc ev evs)
  let ?r = "apply_events evs b"
  have "apply_events (evs @ [ev]) b =
    (fst ?r @ (case fst (applyEvent ev (snd ?r)) of None \<Rightarrow> [] | Some c \<Rightarrow> [c]), snd (applyEvent ev (snd ?r)))"
    by (simp add: apply_events_def split: prod.split)
  moreover have "well_keyed key (snd ?r)" using snoc.prems by (intro well_keyed_events) auto
  ultimately show ?case using snoc by (auto intro!: changes_to_append [OF _ by_key_apply])
qed

section \<open>A listing against the one before\<close>

definition flat :: "'o backups_by_vm \<Rightarrow> 'o backups" where
  "flat b = concat (map snd b)"

lemma flat_Cons: "flat ((vm, bs) # b) = bs @ flat b"
  by (simp add: flat_def)

lemma in_flat: "(k, x) \<in> set (flat b) \<longleftrightarrow> (\<exists>vm bs. (vm, bs) \<in> set b \<and> (k, x) \<in> set bs)"
  by (force simp: flat_def)

lemma well_keyedD:
  assumes "well_keyed key b" and "(vm, bs) \<in> set b"
  shows "distinct (map fst bs)" and "(k, x) \<in> set bs \<Longrightarrow> vb_id x = k" and "(k, x) \<in> set bs \<Longrightarrow> key k = vm"
  using assms by (auto simp: well_keyed_def)

lemma flat_keyed:
  assumes "well_keyed key b" and "(k, x) \<in> set (flat b)"
  shows "vb_id x = k"
  using assms well_keyedD(2) unfolding in_flat by blast

lemma flat_distinct: "well_keyed key b \<Longrightarrow> distinct (map fst (flat b))"
proof (induction b)
  case (Cons vbs b)
  obtain vm bs where v: "vbs = (vm, bs)" by (cases vbs)
  have b: "well_keyed key b" "vm \<notin> fst ` set b" using Cons.prems v by (simp_all add: well_keyed_def)
  have "(k, x') \<notin> set (flat b)" if "(k, x) \<in> set bs" for k x x'
  proof
    assume "(k, x') \<in> set (flat b)"
    then obtain vm' bs' where m: "(vm', bs') \<in> set b" "(k, x') \<in> set bs'" by (auto simp: in_flat)
    have "key k = vm'" using well_keyedD(3) [OF b(1) m] .
    moreover have "key k = vm" using well_keyedD(3) [OF Cons.prems _ that] v by simp
    ultimately show False using m(1) b(2) by force
  qed
  then have "fst ` set bs \<inter> fst ` set (flat b) = {}" by force
  then show ?case using Cons.IH [OF b(1)] well_keyedD(1) [OF Cons.prems, of vm bs] v by (simp add: flat_Cons)
qed (simp add: flat_def)

lemma by_key_flat:
  assumes b: "well_keyed key b"
  shows "by_key key b k = Some x \<longleftrightarrow> (k, x) \<in> set (flat b)"
proof
  assume "by_key key b k = Some x"
  then obtain bs where "map_of b (key k) = Some bs" "map_of bs k = Some x"
    by (auto simp: by_key_def backup_at_def split: option.splits)
  then show "(k, x) \<in> set (flat b)" by (auto simp: in_flat dest: map_of_SomeD)
next
  assume "(k, x) \<in> set (flat b)"
  then obtain vm bs where bs: "(vm, bs) \<in> set b" "(k, x) \<in> set bs" by (auto simp: in_flat)
  then have "key k = vm" "distinct (map fst bs)" using well_keyedD [OF b bs(1)] by simp_all
  moreover have "distinct (map fst b)" using b by (simp add: well_keyed_def)
  ultimately show "by_key key b k = Some x" using bs by (simp add: by_key_def backup_at_def)
qed

lemma map_filter_cong: "(\<And>x. x \<in> set xs \<Longrightarrow> f x = g x) \<Longrightarrow> List.map_filter f xs = List.map_filter g xs"
  by (induction xs) (simp_all add: List.map_filter_simps split: option.split)

lemma map_filter_pairs:
  assumes "\<And>vm bs k x. (vm, bs) \<in> set b \<Longrightarrow> (k, x) \<in> set bs \<Longrightarrow> f vm (k, x) = g (k, x)"
  shows "concat (map (\<lambda>(vm, bs). List.map_filter (f vm) bs) b) = List.map_filter g (flat b)"
  using assms
proof (induction b)
  case (Cons vbs b)
  obtain vm bs where v: "vbs = (vm, bs)" by (cases vbs)
  have "List.map_filter (f vm) bs = List.map_filter g bs"
    by (rule map_filter_cong) (use Cons.prems v in auto)
  moreover have "concat (map (\<lambda>(vm, bs). List.map_filter (f vm) bs) b) = List.map_filter g (flat b)"
    by (rule Cons.IH) (use Cons.prems in auto)
  ultimately show ?case using v by (simp add: flat_Cons map_filter_append)
qed (simp add: flat_def List.map_filter_simps)

lemma listing_changes_flat:
  assumes old: "well_keyed key old" and new: "well_keyed key new"
  shows "listing_changes old new =
    List.map_filter (\<lambda>(k, x). case by_key key old k of
        None \<Rightarrow> Some (Add x) | Some y \<Rightarrow> if y = x then None else Some (Update x)) (flat new) @
    List.map_filter (\<lambda>(k, x). if by_key key new k = None then Some (Remove x) else None) (flat old)"
proof -
  have k: "key k = vm" if "well_keyed key b" "(vm, bs) \<in> set b" "(k, x) \<in> set bs" for b :: "'a backups_by_vm" and vm bs k x
    using that well_keyedD(3) by blast
  show ?thesis unfolding listing_changes_def
    by (intro arg_cong2 [where f = append] map_filter_pairs) (auto simp: by_key_def k [OF new] k [OF old])
qed

lemma listing_changes_to:
  assumes old: "well_keyed key old" and new: "well_keyed key new"
  shows "changes_to (listing_changes old new) (by_key key old) (by_key key new)"
proof -
  let ?f = "\<lambda>(k, x). case by_key key old k of None \<Rightarrow> Some (Add x) | Some y \<Rightarrow> if y = x then None else Some (Update x)"
  let ?g = "\<lambda>(k, x). if by_key key new k = None then Some (Remove x) else None"
  have fD: "c = Add x \<or> c = Update x" if "?f (k, x) = Some c" for k x c
    using that by (auto split: option.splits if_splits)
  have gD: "c = Remove x" if "?g (k, x) = Some c" for k x c using that by (simp split: if_splits)
  have f: "change_id c = fst kx" if "kx \<in> set (flat new)" "?f kx = Some c" for kx c
  proof -
    obtain k x where kx: "kx = (k, x)" by (cases kx)
    show ?thesis using fD [OF that(2) [unfolded kx]] flat_keyed [OF new that(1) [unfolded kx]] kx by (auto simp: change_id_def)
  qed
  have g: "change_id c = fst kx" if "kx \<in> set (flat old)" "?g kx = Some c" for kx c
  proof -
    obtain k x where kx: "kx = (k, x)" by (cases kx)
    show ?thesis using gD [OF that(2) [unfolded kx]] flat_keyed [OF old that(1) [unfolded kx]] kx by (simp add: change_id_def)
  qed
  have f_in: "c \<in> set (List.map_filter ?f (flat new)) \<longleftrightarrow> (\<exists>k x. by_key key new k = Some x \<and> ?f (k, x) = Some c)" for c
    unfolding map_filter_in by_key_flat [OF new] Bex_def split_paired_Ex ..
  have g_in: "c \<in> set (List.map_filter ?g (flat old)) \<longleftrightarrow> (\<exists>k x. by_key key old k = Some x \<and> ?g (k, x) = Some c)" for c
    unfolding map_filter_in by_key_flat [OF old] Bex_def split_paired_Ex ..
  have ids: "vb_id x = k" if "by_key key new k = Some x \<or> by_key key old k = Some x" for k x
    using that flat_keyed [OF new] flat_keyed [OF old] by_key_flat [OF new] by_key_flat [OF old] by blast
  let ?cs = "List.map_filter ?f (flat new) @ List.map_filter ?g (flat old)"
  have kinds: "(\<exists>x. c = Add x \<and> by_key key new (vb_id x) = Some x \<and> by_key key old (vb_id x) = None) \<or>
      (\<exists>x y. c = Update x \<and> by_key key new (vb_id x) = Some x \<and> by_key key old (vb_id x) = Some y) \<or>
      (\<exists>x. c = Remove x \<and> by_key key old (vb_id x) = Some x \<and> by_key key new (vb_id x) = None)" if "c \<in> set ?cs" for c
  proof -
    from that consider k x where "by_key key new k = Some x" "?f (k, x) = Some c" | k x where "by_key key old k = Some x" "?g (k, x) = Some c"
      unfolding set_append Un_iff f_in g_in by blast
    then show ?thesis
    proof cases
      case 1
      then have "vb_id x = k" using ids by blast
      then show ?thesis using 1 by (cases "by_key key old k") (auto split: if_splits)
    next
      case 2
      then have "vb_id x = k" using ids by blast
      then show ?thesis using 2 by (auto split: if_splits)
    qed
  qed
  show ?thesis unfolding listing_changes_flat [OF old new]
  proof (rule changes_distinct)
    have "distinct (map change_id (List.map_filter ?f (flat new)))"
      using flat_distinct [OF new] f by (rule map_filter_distinct [THEN conjunct1])
    moreover have "distinct (map change_id (List.map_filter ?g (flat old)))"
      using flat_distinct [OF old] g by (rule map_filter_distinct [THEN conjunct1])
    moreover have "change_id c \<noteq> change_id c'"
      if c: "c \<in> set (List.map_filter ?f (flat new))" and c': "c' \<in> set (List.map_filter ?g (flat old))" for c c'
    proof -
      obtain k x where kx: "by_key key new k = Some x" "?f (k, x) = Some c" using c unfolding f_in by blast
      obtain k' x' where kx': "by_key key old k' = Some x'" "?g (k', x') = Some c'" using c' unfolding g_in by blast
      have "change_id c = k" using fD [OF kx(2)] ids kx(1) by (auto simp: change_id_def)
      moreover have "change_id c' = k'" using gD [OF kx'(2)] ids kx'(1) by (simp add: change_id_def)
      moreover have "by_key key new k' = None" using kx'(2) by (simp split: if_splits)
      ultimately show ?thesis using kx(1) by auto
    qed
    ultimately show "distinct (map change_id ?cs)" by auto
  next
    show "applies c (by_key key old)" if "c \<in> set ?cs" for c
      using kinds [OF that] by (auto simp: applies_def change_id_def)
  next
    show "by_key key new (change_id c) = change_value c" if "c \<in> set ?cs" for c
      using kinds [OF that] by (auto simp: change_id_def change_value_def)
  next
    show "by_key key new k = by_key key old k" if "k \<notin> change_id ` set ?cs" for k
    proof (rule ccontr)
      assume "by_key key new k \<noteq> by_key key old k"
      then consider x where "by_key key new k = Some x" "by_key key old k \<noteq> Some x"
        | y where "by_key key new k = None" "by_key key old k = Some y"
        by (cases "by_key key new k"; cases "by_key key old k") auto
      then obtain c where "c \<in> set ?cs" "change_id c = k"
      proof cases
        case 1
        then have "?f (k, x) = Some (if by_key key old k = None then Add x else Update x)" by (auto split: option.split)
        then have "(if by_key key old k = None then Add x else Update x) \<in> set ?cs" using 1 unfolding set_append Un_iff f_in by blast
        then show ?thesis using that ids 1 by (auto simp: change_id_def split: if_splits)
      next
        case 2
        then have "Remove y \<in> set ?cs" unfolding set_append Un_iff g_in by auto
        then show ?thesis using that ids 2 by (auto simp: change_id_def)
      qed
      then show False using that by auto
    qed
  qed
qed

lemma removal_changes:
  "concat (map (\<lambda>(_, backups). map (\<lambda>kb. Remove (snd kb)) backups) b) = map (\<lambda>kb. Remove (snd kb)) (flat b)"
  by (simp add: flat_def map_concat comp_def split_def)

lemma removal_changes_to:
  assumes b: "well_keyed key b"
  shows "changes_to (map (\<lambda>kb. Remove (snd kb)) (flat b)) (by_key key b) (\<lambda>_. None)"
proof (rule changes_distinct)
  have ids: "map change_id (map (\<lambda>kb. Remove (snd kb)) (flat b)) = map fst (flat b)"
    using flat_keyed [OF b] by (auto simp: change_id_def)
  show "distinct (map change_id (map (\<lambda>kb. Remove (snd kb)) (flat b)))" unfolding ids by (rule flat_distinct [OF b])
  show "applies c (by_key key b)" if in_b: "c \<in> set (map (\<lambda>kb. Remove (snd kb)) (flat b))" for c
  proof -
    obtain kb where c: "kb \<in> set (flat b)" "c = Remove (snd kb)" using in_b by auto
    then have "(fst kb, snd kb) \<in> set (flat b)" by simp
    then have "by_key key b (fst kb) = Some (snd kb)" "vb_id (snd kb) = fst kb"
      using by_key_flat [OF b] flat_keyed [OF b] by blast+
    then show ?thesis using c by (simp add: applies_def change_id_def)
  qed
  show "None = change_value c" if "c \<in> set (map (\<lambda>kb. Remove (snd kb)) (flat b))" for c
    using that by (auto simp: change_value_def)
  show "None = by_key key b k" if "k \<notin> change_id ` set (map (\<lambda>kb. Remove (snd kb)) (flat b))" for k
  proof (cases "by_key key b k")
    case (Some x)
    then have "(k, x) \<in> set (flat b)" using by_key_flat [OF b] by blast
    then have "k \<in> set (map fst (flat b))" by force
    then have "k \<in> set (map change_id (map (\<lambda>kb. Remove (snd kb)) (flat b)))" unfolding ids .
    then show ?thesis using that by (metis image_set)
  qed simp
qed

section \<open>What the cache serves\<close>

definition served :: "(string \<Rightarrow> string \<Rightarrow> string) \<Rightarrow> 'o cache \<Rightarrow> string \<Rightarrow> string \<Rightarrow> 'o vm_backup option" where
  "served keys s rid k =
     (case map_of (vc_announced s) rid of
        None \<Rightarrow> None
      | Some obj \<Rightarrow> map_option (\<lambda>b. archiveOf b rid) (by_key (keys rid) (vc_object s obj) k))"

definition view :: "(string \<Rightarrow> string \<Rightarrow> string) \<Rightarrow> 'o cache \<Rightarrow> string \<Rightarrow> 'o vm_backup option" where
  "view keys s ident = (if CHR ''/'' \<in> set ident
     then served keys s (takeWhile (\<lambda>c. c \<noteq> CHR ''/'') ident) (tl (dropWhile (\<lambda>c. c \<noteq> CHR ''/'') ident)) else None)"

lemma view_at: "CHR ''/'' \<notin> set rid \<Longrightarrow> view keys s (rid @ CHR ''/'' # k) = served keys s rid k"
proof -
  assume "CHR ''/'' \<notin> set rid"
  then have "takeWhile (\<lambda>c. c \<noteq> CHR ''/'') (rid @ CHR ''/'' # k) = rid" "dropWhile (\<lambda>c. c \<noteq> CHR ''/'') (rid @ CHR ''/'' # k) = CHR ''/'' # k"
    by (induction rid) auto
  then show ?thesis by (simp add: view_def)
qed

lemma ident_cases:
  obtains (none) "CHR ''/'' \<notin> set ident" | (at) rid k where "ident = rid @ CHR ''/'' # k" "CHR ''/'' \<notin> set rid"
  using split_list_first [of "CHR ''/''" ident] by blast

lemma ident_inj:
  assumes "rid @ CHR ''/'' # k = rid' @ CHR ''/'' # k'" and "CHR ''/'' \<notin> set rid" and "CHR ''/'' \<notin> set rid'"
  shows "rid = rid'" and "k = k'"
proof -
  have "takeWhile (\<lambda>c. c \<noteq> CHR ''/'') (r @ CHR ''/'' # x) = r" if "CHR ''/'' \<notin> set r" for r x
    using that by (induction r) auto
  then show "rid = rid'" using assms by metis
  then show "k = k'" using assms(1) by simp
qed

text \<open>A consumer that is told the changes of a repository.\<close>

lemma consume_changes:
  assumes "changes_to cs \<kappa> \<kappa>'" and "\<And>k. m (rid @ CHR ''/'' # k) = map_option (\<lambda>b. archiveOf b rid) (\<kappa> k)"
  shows "\<exists>m'. consume (map (emitted_of rid) cs) (Some m) = Some m' \<and>
    (\<forall>k. m' (rid @ CHR ''/'' # k) = map_option (\<lambda>b. archiveOf b rid) (\<kappa>' k)) \<and>
    (\<forall>ident. (\<forall>k. ident \<noteq> rid @ CHR ''/'' # k) \<longrightarrow> m' ident = m ident)"
  using assms
proof (induction cs arbitrary: m \<kappa>)
  case Nil
  then show ?case by auto
next
  case (Cons c cs)
  let ?m = "m(rid @ CHR ''/'' # change_id c := map_option (\<lambda>b. archiveOf b rid) (change_value c))"
  have step: "consume_one (emitted_of rid c) (Some m) = Some ?m"
    using Cons.prems
    by (cases c) (auto simp: emitted_of_def archiveOf_def change_id_def change_value_def applies_def)
  have at: "?m (rid @ CHR ''/'' # k) = map_option (\<lambda>b. archiveOf b rid) ((\<kappa>(change_id c := change_value c)) k)" for k
    using Cons.prems(2) by simp
  have cs: "changes_to cs (\<kappa>(change_id c := change_value c)) \<kappa>'" using Cons.prems(1) by simp
  obtain m' where m': "consume (map (emitted_of rid) cs) (Some ?m) = Some m'"
    "\<forall>k. m' (rid @ CHR ''/'' # k) = map_option (\<lambda>b. archiveOf b rid) (\<kappa>' k)"
    "\<forall>ident. (\<forall>k. ident \<noteq> rid @ CHR ''/'' # k) \<longrightarrow> m' ident = ?m ident"
    using Cons.IH [OF cs at] by blast
  then show ?case using step by (auto simp: consume_def)
qed

definition told :: "(string \<Rightarrow> string \<Rightarrow> string) \<Rightarrow> 'o cache \<Rightarrow> bool" where
  "told keys s \<longleftrightarrow> consume (vc_emitted s) (Some Map.empty) = Some (view keys s)"

lemma told_changes:
  assumes told: "told keys s" and rid: "CHR ''/'' \<notin> set rid"
    and cs: "changes_to cs \<kappa> \<kappa>'" "vc_emitted s' = vc_emitted s @ map (emitted_of rid) cs"
    and before: "\<And>k. served keys s rid k = map_option (\<lambda>b. archiveOf b rid) (\<kappa> k)"
    and after: "\<And>k. served keys s' rid k = map_option (\<lambda>b. archiveOf b rid) (\<kappa>' k)"
    and others: "\<And>rid' k. rid' \<noteq> rid \<Longrightarrow> CHR ''/'' \<notin> set rid' \<Longrightarrow> served keys s' rid' k = served keys s rid' k"
  shows "told keys s'"
proof -
  obtain m' where m': "consume (map (emitted_of rid) cs) (Some (view keys s)) = Some m'"
    "\<And>k. m' (rid @ CHR ''/'' # k) = map_option (\<lambda>b. archiveOf b rid) (\<kappa>' k)"
    "\<And>ident. (\<forall>k. ident \<noteq> rid @ CHR ''/'' # k) \<Longrightarrow> m' ident = view keys s ident"
    using consume_changes [OF cs(1), of "view keys s" rid] before rid by (auto simp: view_at)
  have "m' ident = view keys s' ident" for ident
  proof (cases ident rule: ident_cases)
    case none
    then have "m' ident = view keys s ident" by (intro m'(3)) auto
    then show ?thesis using none by (simp add: view_def)
  next
    case (at rid' k)
    show ?thesis
    proof (cases "rid' = rid")
      case True
      then show ?thesis using at m'(2) after rid by (simp add: view_at)
    next
      case False
      then have "m' ident = view keys s ident" using at rid by (intro m'(3)) (auto dest: ident_inj)
      then show ?thesis using at False others by (simp add: view_at)
    qed
  qed
  then show ?thesis using told m'(1) cs(2) by (simp add: told_def consume_append fun_eq_iff)
qed

lemma told_same:
  assumes "told keys s" and "vc_emitted s' = vc_emitted s" and "vc_announced s' = vc_announced s"
    and "\<And>rid obj. map_of (vc_announced s) rid = Some obj \<Longrightarrow> vc_object s' obj = vc_object s obj"
  shows "told keys s'"
proof -
  have "served keys s' = served keys s" using assms(3,4) by (auto simp: served_def fun_eq_iff split: option.split)
  then have "view keys s' = view keys s" by (simp add: view_def fun_eq_iff)
  then show ?thesis using assms(1,2) by (simp add: told_def)
qed

section \<open>The steps\<close>

lemma announced_okD:
  assumes "cache_ok keys ow s" and "map_of (vc_announced s) rid = Some obj"
  shows "obj < vc_next s" "ow obj = rid" "CHR ''/'' \<notin> set rid" "well_keyed (keys rid) (vc_object s obj)"
proof -
  show "obj < vc_next s" and ow: "ow obj = rid" and "CHR ''/'' \<notin> set rid"
    using assms by (simp_all add: cache_ok_def announced_ok_def)
  have "well_keyed (keys (ow obj)) (vc_object s obj)" using assms(1) by (simp add: cache_ok_def objects_ok_def)
  then show "well_keyed (keys rid) (vc_object s obj)" unfolding ow .
qed

lemma told_start_read: "told keys s \<Longrightarrow> told keys (start_read cfg now p r s)"
  by (rule told_same) auto

lemma told_get:
  assumes "told keys s"
  shows "told keys (snd (cache_get cfg now r s))"
proof (cases "vc_pending s (rp_id r)")
  case None
  show ?thesis by (rule told_same [OF assms]) (simp_all add: cache_get_None [OF None] Let_def)
qed (simp add: cache_get_Some assms)

lemma told_listed:
  assumes ok: "cache_ok keys ow s" and told: "told keys s" and op: "vc_op s p = Some op"
    and b: "\<And>b. result = Inr b \<Longrightarrow> well_keyed (keys (rp_id (op_repository op))) b"
  shows "told keys (listed p result s)"
proof (cases "\<exists>e found. op_phase op = Listing e found")
  case False
  then have "listed p result s = s" using op by (intro listed_other) auto
  then show ?thesis using told by simp
next
  case True
  then obtain e found where ph: "op_phase op = Listing e found" by blast
  let ?rid = "rp_id (op_repository op)"
  show ?thesis
  proof (cases result)
    case (Inl err)
    then show ?thesis using told by (auto simp: listed_Inl [OF op ph] intro!: told_same [of keys s])
  next
    case (Inr bs)
    have same: "((vc_object s)(vc_next s := bs)) obj = vc_object s obj" if "map_of (vc_announced s) rid = Some obj" for rid obj
      using announced_okD(1) [OF ok that] by simp
    show ?thesis
    proof (cases "vc_entries s ?rid = Some e")
      case False
      then show ?thesis using told same unfolding Inr listed_Inr [OF op ph] by (intro told_same [OF told]) auto
    next
      case True
      let ?old = "case map_of (vc_announced s) ?rid of None \<Rightarrow> [] | Some obj \<Rightarrow> vc_object s obj"
      let ?s = "listed p result s"
      have old: "well_keyed (keys ?rid) ?old" using announced_okD(4) [OF ok] by (simp split: option.split)
      have s': "vc_announced ?s = AList.update ?rid (vc_next s) (vc_announced s)" "vc_object ?s = (vc_object s)(vc_next s := bs)"
        using True by (simp_all add: Inr listed_Inr [OF op ph])
      have old': "(case map_of (vc_announced s) ?rid of None \<Rightarrow> [] | Some obj \<Rightarrow> vc_object (populated e bs s) obj) = ?old"
        using same by (simp split: option.split)
      have em: "vc_emitted ?s = vc_emitted s @ map (emitted_of ?rid) (listing_changes ?old bs)"
        using True old' by (simp add: Inr listed_Inr [OF op ph] announce_def)
      show ?thesis
      proof (rule told_changes [OF told ops_okD(2) [OF ok op] listing_changes_to [OF old b [OF Inr]] em])
        show "served keys s ?rid k = map_option (\<lambda>b. archiveOf b ?rid) (by_key (keys ?rid) ?old k)" for k
          by (auto simp: served_def by_key_def backup_at_def split: option.split)
        show "served keys ?s ?rid k = map_option (\<lambda>b. archiveOf b ?rid) (by_key (keys ?rid) bs k)" for k
          by (simp add: served_def s' update_conv')
        show "served keys ?s rid' k = served keys s rid' k" if "rid' \<noteq> ?rid" for rid' k
          using that same by (auto simp: served_def s' update_conv' split: option.split)
      qed
    qed
  qed
qed

lemma told_journal_read:
  assumes ok: "cache_ok keys ow s" and told: "told keys s" and op: "vc_op s p = Some op"
    and evs: "\<And>evs c ev. result = Inr (Some (evs, c)) \<Longrightarrow> ev \<in> set evs \<Longrightarrow> well_keyed_event (keys (rp_id (op_repository op))) ev"
  shows "told keys (journal_read p result s)"
proof (cases "\<exists>e t. op_phase op = Journal e t")
  case False
  then have "journal_read p result s = s" using op by (intro journal_read_other) auto
  then show ?thesis using told by simp
next
  case True
  then obtain e t where ph: "op_phase op = Journal e t" by blast
  have e: "ow e = rp_id (op_repository op)" using ops_okD(3) [OF ok op] ph by simp
  have go_on: "told keys (journal_done p e t cursor s')" if "told keys s'" for t cursor and s' :: "'a cache"
  proof -
    obtain x where "journal_done p e t cursor s' = set_phase p (ReadDone (Inr (ce_backups (vc_entry s' e)))) (update_entry e (\<lambda>_. x) s')"
      using journal_done_eq by blast
    then show ?thesis using that by (auto intro: told_same)
  qed
  have unr: "told keys (s\<lparr>vc_unreplayable := u\<rparr>)" for u by (rule told_same [OF told]) auto
  from op ph show ?thesis
  proof (cases rule: journal_read_cases [where result = result])
    case (failed err)
    then show ?thesis by (auto intro: told_same [OF told])
  next
    case unreplayable
    then show ?thesis by (auto intro: told_same [OF told])
  next
    case (unpopulated u ph)
    then show ?thesis by (auto intro: told_same [OF told])
  next
    case (unlisted u t' cursor)
    then show ?thesis using go_on [OF unr] by simp
  next
    case (replay u evs' t' cursor c obj)
    let ?rid = "rp_id (op_repository op)" and ?s = "s\<lparr>vc_unreplayable := u\<rparr>"
    let ?s' = "replayed ?rid obj evs' ?s"
    have "ow obj = ?rid" using ok replay(1) e by (auto simp: cache_ok_def backups_ok_def)
    then have mine: "rid = ?rid" if "map_of (vc_announced s) rid = Some obj" for rid
      using announced_okD(2) [OF ok that] by simp
    have "told keys ?s'"
    proof (cases "map_of (vc_announced s) ?rid = Some obj")
      case False
      then have "map_of (vc_announced s) rid \<noteq> Some obj" for rid using mine by blast
      then show ?thesis using False by (intro told_same [OF unr]) (auto simp: replayed_def)
    next
      case True
      have keyed: "well_keyed (keys ?rid) (vc_object s obj)" using announced_okD(4) [OF ok True] .
      show ?thesis
      proof (rule told_changes [OF unr ops_okD(2) [OF ok op] by_key_events [OF evs [OF replay(2)] keyed]])
        show "vc_emitted ?s' = vc_emitted ?s @ map (emitted_of ?rid) (fst (apply_events evs' (vc_object s obj)))"
          using True by (simp add: replayed_def)
        show "served keys ?s ?rid k = map_option (\<lambda>b. archiveOf b ?rid) (by_key (keys ?rid) (vc_object s obj) k)" for k
          using True by (simp add: served_def)
        show "served keys ?s' ?rid k = map_option (\<lambda>b. archiveOf b ?rid) (by_key (keys ?rid) (snd (apply_events evs' (vc_object s obj))) k)" for k
          using True by (simp add: served_def replayed_def)
        show "served keys ?s' rid' k = served keys ?s rid' k" if "rid' \<noteq> ?rid" for rid' k
          using that mine [of rid'] by (auto simp: served_def replayed_def split: option.split)
      qed
    qed
    then show ?thesis unfolding replay(3) by (rule go_on)
  qed
qed

lemma told_remove:
  assumes ok: "cache_ok keys ow s" and told: "told keys s"
  shows "told keys (cache_remove rid s)"
proof (cases "map_of (vc_announced s) rid")
  case None
  then show ?thesis by (auto simp: cache_remove_eq intro: told_same [OF told])
next
  case (Some obj)
  note a = announced_okD [OF ok Some]
  have s': "vc_announced (cache_remove rid s) = AList.delete rid (vc_announced s)" "vc_object (cache_remove rid s) = vc_object s"
    by (simp_all add: cache_remove_eq Some)
  show ?thesis
  proof (rule told_changes [OF told a(3) removal_changes_to [OF a(4)]])
    show "vc_emitted (cache_remove rid s) = vc_emitted s @ map (emitted_of rid) (map (\<lambda>kb. Remove (snd kb)) (flat (vc_object s obj)))"
      by (simp add: cache_remove_eq Some removal_changes)
    show "served keys s rid k = map_option (\<lambda>b. archiveOf b rid) (by_key (keys rid) (vc_object s obj) k)" for k
      by (simp add: served_def Some)
    show "served keys (cache_remove rid s) rid k = map_option (\<lambda>b. archiveOf b rid) None" for k
      by (simp add: served_def s' delete_conv')
    show "served keys (cache_remove rid s) rid' k = served keys s rid' k" if "rid' \<noteq> rid" for rid' k
      using that by (simp add: served_def s' delete_conv' split: option.split)
  qed
qed

lemma told_step:
  assumes "cache_step cfg keys replayable s s'" and ok: "cache_ok keys ow s" and told: "told keys s"
  shows "told keys s'"
  using assms(1)
proof (cases rule: cache_step.cases)
  case (step_get r now)
  then show ?thesis using told_get [OF told] by simp
next
  case (step_listed p op result)
  then show ?thesis using told_listed [OF ok told, of p op result] by blast
next
  case (step_journal p op result)
  then show ?thesis using told_journal_read [OF ok told, of p op result] by blast
next
  case (step_not_replayed now p)
  show ?thesis unfolding step_not_replayed
    by (rule told_same [OF told])
       (auto simp: not_replayed_def Let_def split: option.split phase.split)
next
  case (step_failed p)
  show ?thesis unfolding step_failed
    by (rule told_same [OF told]) (auto simp: read_failed_def Let_def split: option.split phase.split)
next
  case (step_refreshed now later p)
  show ?thesis unfolding step_refreshed
    by (rule told_same [OF told])
       (auto simp: refreshed_def split: option.split phase.split sum.split)
next
  case (step_finally p)
  show ?thesis unfolding step_finally
    by (rule told_same [OF told]) (auto simp: get_finally_def Let_def split: option.split phase.split)
next
  case (step_delete rid)
  then show ?thesis by (auto intro: told_same [OF told])
next
  case (step_remove rid)
  then show ?thesis using told_remove [OF ok told] by simp
next
  case (step_refresh rid)
  then show ?thesis by (auto simp: cache_refresh_def intro: told_same [OF told] split: option.split)
qed

interpretation told_kept: kept_by_steps "cache_step cfg keys replayable" "\<lambda>s. told keys s \<and> (\<exists>ow. cache_ok keys ow s)"
  by unfold_locales (blast dest: ok_step intro: told_step)

theorem told_run:
  assumes "(cache_step cfg keys replayable)\<^sup>*\<^sup>* new_cache s"
  shows "told keys s \<and> (\<exists>ow. cache_ok keys ow s)"
  using assms
proof (rule told_kept.run)
  have "told keys new_cache" by (simp add: told_def view_def served_def new_cache_def fun_eq_iff)
  then show "told keys new_cache \<and> (\<exists>ow. cache_ok keys ow new_cache)" by (intro conjI exI) (assumption, rule ok_new_cache)
qed

section \<open>Listing and finding archives\<close>

lemma archives_flat: "archives_of rid b = map (\<lambda>kb. archiveOf (snd kb) rid) (flat b)"
  by (simp add: archives_of_def flat_def map_concat comp_def split_def)

lemma in_archives:
  assumes "well_keyed key b"
  shows "a \<in> set (archives_of rid b) \<longleftrightarrow> (\<exists>k x. by_key key b k = Some x \<and> a = archiveOf x rid)"
  unfolding archives_flat by_key_flat [OF assms] by (force simp: image_iff)

lemma archive_ids: "well_keyed key b \<Longrightarrow> map vb_id (archives_of rid b) = map (\<lambda>k. rid @ CHR ''/'' # k) (map fst (flat b))"
  using flat_keyed [of key b] by (auto simp: archives_flat archiveOf_def)

lemma list_distinct:
  assumes "distinct (map fst al)" and "\<And>rid obj. (rid, obj) \<in> set al \<Longrightarrow> CHR ''/'' \<notin> set rid \<and> well_keyed (keys rid) (objs obj)"
  shows "distinct (map vb_id (concat (map (\<lambda>(rid, obj). archives_of rid (objs obj)) al)))"
  using assms
proof (induction al)
  case (Cons x al)
  obtain rid obj where x: "x = (rid, obj)" by (cases x)
  have w: "CHR ''/'' \<notin> set rid" "well_keyed (keys rid) (objs obj)" using Cons.prems(2) x by auto
  have "distinct (map vb_id (archives_of rid (objs obj)))"
    unfolding archive_ids [OF w(2)] using flat_distinct [OF w(2)] by (simp add: distinct_map inj_on_def)
  moreover have "vb_id a \<noteq> vb_id a'" if "a \<in> set (archives_of rid (objs obj))" "(rid', obj') \<in> set al" "a' \<in> set (archives_of rid' (objs obj'))" for a a' rid' obj'
  proof -
    have w': "CHR ''/'' \<notin> set rid'" "well_keyed (keys rid') (objs obj')" using Cons.prems(2) that(2) by auto
    have "vb_id a \<in> set (map vb_id (archives_of rid (objs obj)))" "vb_id a' \<in> set (map vb_id (archives_of rid' (objs obj')))"
      using that(1,3) by simp_all
    then obtain k k' where "vb_id a = rid @ CHR ''/'' # k" "vb_id a' = rid' @ CHR ''/'' # k'"
      unfolding archive_ids [OF w(2)] archive_ids [OF w'(2)] by auto
    moreover have "rid \<noteq> rid'" using Cons.prems(1) that(2) x by force
    ultimately show ?thesis using ident_inj(1) w(1) w'(1) by metis
  qed
  ultimately show ?case using Cons x by (auto simp: image_iff) (metis)+
qed simp

lemma find_by_id:
  "distinct (map h xs) \<Longrightarrow> find (\<lambda>a. h a = i) xs = Some a \<longleftrightarrow> a \<in> set xs \<and> h a = i"
  by (induction xs) (auto simp: rev_image_eqI)

lemma option_by_value: "(\<And>a. x = Some a \<longleftrightarrow> y = Some a) \<Longrightarrow> x = y"
  by (cases x) (metis not_None_eq)+

theorem view_archives:
  assumes ok: "cache_ok keys ow s"
  shows "distinct (map vb_id (listArchives s))" and "findArchive ident s = view keys s ident"
proof -
  have al: "distinct (map fst (vc_announced s))" using ok by (simp add: cache_ok_def announced_ok_def)
  have w: "CHR ''/'' \<notin> set rid \<and> well_keyed (keys rid) (vc_object s obj)" if "(rid, obj) \<in> set (vc_announced s)" for rid obj
    using announced_okD(3,4) [OF ok map_of_is_SomeI [OF al that]] by blast
  show dist: "distinct (map vb_id (listArchives s))"
    unfolding listArchives_def using al w by (rule list_distinct)
  have "findArchive ident s = Some a \<longleftrightarrow> view keys s ident = Some a" for a
  proof -
    have "findArchive ident s = Some a \<longleftrightarrow> a \<in> set (listArchives s) \<and> vb_id a = ident"
      unfolding findArchive_def by (rule find_by_id [OF dist])
    also have "a \<in> set (listArchives s) \<longleftrightarrow> (\<exists>rid obj k x. map_of (vc_announced s) rid = Some obj \<and> by_key (keys rid) (vc_object s obj) k = Some x \<and> a = archiveOf x rid)"
    proof -
      have "a \<in> set (listArchives s) \<longleftrightarrow> (\<exists>rid obj. (rid, obj) \<in> set (vc_announced s) \<and> a \<in> set (archives_of rid (vc_object s obj)))"
        by (auto simp: listArchives_def)
      also have "\<dots> \<longleftrightarrow> (\<exists>rid obj. (rid, obj) \<in> set (vc_announced s) \<and> (\<exists>k x. by_key (keys rid) (vc_object s obj) k = Some x \<and> a = archiveOf x rid))"
        using in_archives w by blast
      finally show ?thesis by (simp add: map_of_eq_Some_iff [OF al])
    qed
    finally have found: "findArchive ident s = Some a \<longleftrightarrow>
      (\<exists>rid obj k x. map_of (vc_announced s) rid = Some obj \<and> by_key (keys rid) (vc_object s obj) k = Some x \<and> a = archiveOf x rid) \<and> vb_id a = ident" .
    have ids: "vb_id (archiveOf x rid) = rid @ CHR ''/'' # k"
      if "map_of (vc_announced s) rid = Some obj" "by_key (keys rid) (vc_object s obj) k = Some x" for rid obj k x
    proof -
      have "vb_id x = k" using that(2) by_key_flat [OF announced_okD(4) [OF ok that(1)]] flat_keyed [OF announced_okD(4) [OF ok that(1)]] by blast
      then show ?thesis by (simp add: archiveOf_def)
    qed
    have *: "findArchive ident s = Some a \<longleftrightarrow>
      (\<exists>rid k. CHR ''/'' \<notin> set rid \<and> ident = rid @ CHR ''/'' # k \<and> served keys s rid k = Some a)" (is "?l \<longleftrightarrow> ?r")
    proof (intro iffI)
      assume ?l
      then obtain rid obj k x where x: "map_of (vc_announced s) rid = Some obj" "by_key (keys rid) (vc_object s obj) k = Some x"
        "a = archiveOf x rid" "vb_id a = ident" using found by blast
      then have "ident = rid @ CHR ''/'' # k" "served keys s rid k = Some a" using ids [OF x(1,2)] by (auto simp: served_def)
      then show ?r using announced_okD(3) [OF ok x(1)] by blast
    next
      assume ?r
      then obtain rid k where k: "ident = rid @ CHR ''/'' # k" "served keys s rid k = Some a" by blast
      then obtain obj x where x: "map_of (vc_announced s) rid = Some obj" "by_key (keys rid) (vc_object s obj) k = Some x"
        "a = archiveOf x rid" by (auto simp: served_def split: option.splits)
      then show ?l using found ids [OF x(1,2)] k(1) by blast
    qed
    show ?thesis
    proof (cases ident rule: ident_cases)
      case none
      then show ?thesis unfolding * by (auto simp: view_def)
    next
      case (at rid k)
      have same: "served keys s rid' k' = served keys s rid k" if "ident = rid' @ CHR ''/'' # k'" "CHR ''/'' \<notin> set rid'" for rid' k'
      proof -
        have eq: "rid' @ CHR ''/'' # k' = rid @ CHR ''/'' # k" by (rule trans [OF sym [OF that(1)] at(1)])
        show ?thesis unfolding ident_inj(1) [OF eq that(2) at(2)] ident_inj(2) [OF eq that(2) at(2)] ..
      qed
      have v: "view keys s ident = served keys s rid k" unfolding at(1) by (rule view_at [OF at(2)])
      show ?thesis unfolding * v
      proof
        assume found: "served keys s rid k = Some a"
        show "\<exists>rid k. CHR ''/'' \<notin> set rid \<and> ident = rid @ CHR ''/'' # k \<and> served keys s rid k = Some a"
          by (intro exI conjI) (rule at(2), rule at(1), rule found)
      qed (elim exE conjE, drule (1) same, erule subst, assumption)
    qed
  qed
  then show "findArchive ident s = view keys s ident" by (rule option_by_value)
qed

theorem collection_run:
  assumes "(cache_step cfg keys replayable)\<^sup>*\<^sup>* new_cache s"
  shows "consume (vc_emitted s) (Some Map.empty) = Some (\<lambda>ident. findArchive ident s)"
    and "distinct (map vb_id (listArchives s))"
proof -
  obtain ow where ok: "cache_ok keys ow s" and told: "told keys s" using told_run [OF assms] by blast
  show "distinct (map vb_id (listArchives s))" using view_archives(1) [OF ok] .
  show "consume (vc_emitted s) (Some Map.empty) = Some (\<lambda>ident. findArchive ident s)"
    using told view_archives(2) [OF ok] by (simp add: told_def)
qed

end
