(* ===== verification/Vm_Backups_Calls.thy ===== *)
theory Vm_Backups_Calls
  imports Vm_Backups_Cache_Props
begin

text \<open>
  The calls of \<open>get\<close> of the cache of the VM backups: they end, what they are served after \<open>delete\<close>, and, when
  every journal can be read, that they are served a listing.
\<close>

section \<open>A call ends\<close>

definition phase_rank :: "phase \<Rightarrow> nat" where
  "phase_rank ph =
     (case ph of Journal _ _ \<Rightarrow> 6 | NotReplayable _ \<Rightarrow> 5 | Listing _ _ \<Rightarrow> 4 | Failing _ _ \<Rightarrow> 3 | ReadDone _ \<Rightarrow> 2 | Settled _ \<Rightarrow> 1)"

definition op_measure :: "cache_op option \<Rightarrow> nat" where
  "op_measure x = (case x of None \<Rightarrow> 0 | Some op \<Rightarrow> 5 * (MAX_REFRESH_READS - op_reads op) + phase_rank (op_phase op))"

lemma start_read_rank:
  assumes "vc_op s p = Some op"
  shows "op_measure (vc_op (start_read cfg now p r s) p) \<le> 5 * (MAX_REFRESH_READS - op_reads op) + 6"
  by (cases rule: start_read_cases [of cfg now p r s]) (use assms in \<open>auto simp: op_measure_def phase_rank_def\<close>)

lemma set_phase_measure:
  "vc_op s p = Some op \<Longrightarrow> phase_rank ph < phase_rank (op_phase op) \<Longrightarrow>
   vc_op s' = (vc_op s)(p := Some (op\<lparr>op_phase := ph\<rparr>)) \<Longrightarrow> op_measure (vc_op s' p) < op_measure (vc_op s p)"
  by (simp add: op_measure_def)

lemma journal_done_op: "vc_op (journal_done p e t cursor s) = (vc_op s)(p := map_option (\<lambda>op. op\<lparr>op_phase := ReadDone (Inr (ce_backups (vc_entry s e)))\<rparr>) (vc_op s p))"
proof -
  obtain x where "journal_done p e t cursor s = set_phase p (ReadDone (Inr (ce_backups (vc_entry s e)))) (update_entry e (\<lambda>_. x) s)"
    using journal_done_eq by blast
  then show ?thesis by simp
qed

text \<open>What one step makes of the operations.\<close>

definition own_step :: "nat \<Rightarrow> 'o cache \<Rightarrow> 'o cache \<Rightarrow> bool" where
  "own_step p s s' \<longleftrightarrow> (\<forall>q. q \<noteq> p \<longrightarrow> vc_op s' q = vc_op s q) \<and>
     (vc_op s' p = vc_op s p \<or> op_measure (vc_op s' p) < op_measure (vc_op s p))"

lemma own_phase:
  assumes "vc_op s p = Some op" and "phase_rank ph < phase_rank (op_phase op)" and "vc_op s' = (vc_op s)(p := Some (op\<lparr>op_phase := ph\<rparr>))"
  shows "own_step p s s'"
  using assms by (auto simp: own_step_def op_measure_def)

lemma own_same: "vc_op s' = vc_op s \<Longrightarrow> own_step p s s'"
  by (simp add: own_step_def)

lemma own_listed: "own_step p s (listed p result s)"
proof (cases "\<exists>op e found. vc_op s p = Some op \<and> op_phase op = Listing e found")
  case True
  then obtain op e found where op: "vc_op s p = Some op" "op_phase op = Listing e found" by blast
  show ?thesis
  proof (cases result)
    case (Inl err)
    show ?thesis unfolding Inl listed_Inl [OF op]
      by (rule own_phase [OF op(1), of "Failing err found"]) (use op in \<open>auto simp: phase_rank_def\<close>)
  next
    case (Inr b)
    show ?thesis unfolding Inr listed_Inr [OF op]
      by (rule own_phase [OF op(1), of "ReadDone (Inr (Some (vc_next s)))"]) (use op in \<open>auto simp: phase_rank_def\<close>)
  qed
next
  case False
  then have "listed p result s = s" by (intro listed_other) auto
  then show ?thesis by (simp add: own_same)
qed

lemma own_journal_read: "own_step p s (journal_read p result s)"
proof (cases "\<exists>op e t. vc_op s p = Some op \<and> op_phase op = Journal e t")
  case True
  then obtain op e t where op: "vc_op s p = Some op" "op_phase op = Journal e t" by blast
  then show ?thesis
  proof (cases rule: journal_read_cases [where result = result])
    case (failed err)
    show ?thesis unfolding failed(1) by (rule own_phase [OF op(1), of "Failing err (Some e)"]) (use op in \<open>auto simp: phase_rank_def\<close>)
  next
    case unreplayable
    show ?thesis unfolding unreplayable(1) by (rule own_phase [OF op(1), of "NotReplayable e"]) (use op in \<open>auto simp: phase_rank_def\<close>)
  next
    case (unpopulated u ph)
    show ?thesis unfolding unpopulated(3) unpopulated(2) by (rule own_phase [OF op(1), of "Failing TypeError (Some e)"]) (use op in \<open>auto simp: phase_rank_def\<close>)
  next
    case (unlisted u t' cursor)
    show ?thesis unfolding unlisted(2) by (rule own_phase [OF op(1), of "ReadDone (Inr (ce_backups (vc_entry s e)))"]) (use op in \<open>auto simp: phase_rank_def journal_done_op\<close>)
  next
    case (replay u evs t' cursor c obj)
    show ?thesis unfolding replay(3) by (rule own_phase [OF op(1), of "ReadDone (Inr (ce_backups (vc_entry s e)))"]) (use op in \<open>auto simp: phase_rank_def journal_done_op\<close>)
  qed
next
  case False
  then have "journal_read p result s = s" by (intro journal_read_other) auto
  then show ?thesis by (simp add: own_same)
qed

lemma own_not_replayed: "own_step p s (not_replayed cfg now p s)"
proof (cases "\<exists>op e. vc_op s p = Some op \<and> op_phase op = NotReplayable e")
  case True
  then obtain op e where op: "vc_op s p = Some op" "op_phase op = NotReplayable e" by blast
  obtain u where u: "not_replayed cfg now p s = start_build cfg now p (op_repository op) (Some e) (s\<lparr>vc_unreplayable := u\<rparr>)"
    using not_replayed_eq [OF op] by blast
  show ?thesis unfolding u
    by (rule own_phase [OF op(1), of "Listing (vc_next s) (Some e)"]) (use op in \<open>auto simp: phase_rank_def\<close>)
next
  case False
  then have "not_replayed cfg now p s = s" by (intro not_replayed_other) auto
  then show ?thesis by (simp add: own_same)
qed

lemma own_failed: "own_step p s (read_failed p s)"
proof (cases "\<exists>op err f. vc_op s p = Some op \<and> op_phase op = Failing err f")
  case True
  then obtain op err f where op: "vc_op s p = Some op" "op_phase op = Failing err f" by blast
  show ?thesis unfolding read_failed_eq [OF op]
    by (rule own_phase [OF op(1), of "ReadDone (Inl err)"]) (use op in \<open>auto simp: phase_rank_def\<close>)
next
  case False
  then have "read_failed p s = s" by (intro read_failed_other) auto
  then show ?thesis by (simp add: own_same)
qed

lemma own_refreshed: "own_step p s (refreshed cfg now later p s)"
proof (cases "vc_op s p")
  case None
  then show ?thesis by (simp add: refreshed_None own_same)
next
  case (Some op)
  then show ?thesis
  proof (cases rule: refreshed_cases [of s p op now cfg later])
    case (again obj)
    have "op_reads op < MAX_REFRESH_READS" using again(2) by (auto simp: reads_again_def Let_def split: option.splits)
    then have "5 * (MAX_REFRESH_READS - Suc (op_reads op)) + 6 < op_measure (vc_op s p)"
      using Some again(1) by (simp add: op_measure_def phase_rank_def)
    then have "op_measure (vc_op (refreshed cfg now later p s) p) < op_measure (vc_op s p)"
      unfolding again(3) using start_read_rank [of "next_read p op s" p _ cfg later "op_repository op"]
      by (force intro: le_less_trans)
    then show ?thesis unfolding own_step_def again(3) by (simp add: start_read_others)
  next
    case (settles r)
    show ?thesis unfolding settles(2)
      by (rule own_phase [OF Some, of "Settled r"]) (use Some settles in \<open>auto simp: phase_rank_def\<close>)
  next
    case other
    then show ?thesis by (simp add: own_same)
  qed
qed

lemma own_finally: "own_step p s (get_finally p s)"
proof (cases "\<exists>op r. vc_op s p = Some op \<and> op_phase op = Settled r")
  case True
  then obtain op r where op: "vc_op s p = Some op" "op_phase op = Settled r" by blast
  show ?thesis using op by (simp add: get_finally_eq [OF op] own_step_def op_measure_def phase_rank_def)
next
  case False
  then have "get_finally p s = s" by (intro get_finally_other) auto
  then show ?thesis by (simp add: own_same)
qed

lemma own_stepD: "own_step q s s' \<Longrightarrow> vc_op s' p = vc_op s p \<or> op_measure (vc_op s' p) < op_measure (vc_op s p)"
  by (cases "q = p") (auto simp: own_step_def)

lemma get_others: "p < vc_next s \<Longrightarrow> vc_op (snd (cache_get cfg now r s)) p = vc_op s p"
  by (cases "vc_pending s (rp_id r)") (auto simp: cache_get_Some cache_get_None Let_def start_read_others)

lemma step_measure:
  assumes "cache_step cfg keys replayable s s'" and "p < vc_next s"
  shows "vc_op s' p = vc_op s p \<or> op_measure (vc_op s' p) < op_measure (vc_op s p)"
  using assms(1)
proof (cases rule: cache_step.cases)
  case (step_get r now)
  then show ?thesis using get_others [OF assms(2)] by simp
next
  case (step_remove rid)
  then show ?thesis by (simp add: cache_remove_eq split: option.split)
next
  case (step_refresh rid)
  then show ?thesis by (simp add: cache_refresh_def split: option.split)
next
  case step_delete
  then show ?thesis by simp
qed (hypsubst, rule own_stepD, (rule own_listed own_journal_read own_not_replayed own_failed own_refreshed own_finally))+

lemma journal_done_sel [simp]:
  "vc_next (journal_done p e t cursor s) = vc_next s" "vc_entries (journal_done p e t cursor s) = vc_entries s"
  "vc_pending (journal_done p e t cursor s) = vc_pending s"
  "ce_backups (vc_entry (journal_done p e t cursor s) e') = ce_backups (vc_entry s e')"
proof -
  obtain x where x: "journal_done p e t cursor s = set_phase p (ReadDone (Inr (ce_backups (vc_entry s e)))) (update_entry e (\<lambda>_. x) s)"
    "ce_backups x = ce_backups (vc_entry s e)" using journal_done_eq by blast
  then show "vc_next (journal_done p e t cursor s) = vc_next s" "vc_entries (journal_done p e t cursor s) = vc_entries s"
    "vc_pending (journal_done p e t cursor s) = vc_pending s"
    "ce_backups (vc_entry (journal_done p e t cursor s) e') = ce_backups (vc_entry s e')" by auto
qed

lemma journal_read_sel [simp]:
  "vc_next (journal_read p result s) = vc_next s" "vc_entries (journal_read p result s) = vc_entries s"
  "vc_pending (journal_read p result s) = vc_pending s"
  "ce_backups (vc_entry (journal_read p result s) e') = ce_backups (vc_entry s e')"
  by (auto simp: journal_read_def Let_def split: option.split phase.split sum.split)

lemma step_next:
  assumes "cache_step cfg keys replayable s s'"
  shows "vc_next s \<le> vc_next s'"
  using assms
proof (cases rule: cache_step.cases)
  case (step_get r now)
  show ?thesis unfolding step_get
  proof (cases "vc_pending s (rp_id r)")
    case None
    show "vc_next s \<le> vc_next (snd (cache_get cfg now r s))"
      using start_read_next [of "new_op r s" cfg now "vc_next s" r] by (simp add: cache_get_None [OF None] Let_def)
  qed (simp add: cache_get_Some)
next
  case (step_listed p op result)
  then show ?thesis by (auto simp: listed_def Let_def split: option.split phase.split sum.split)
next
  case (step_not_replayed now p)
  then show ?thesis by (auto simp: not_replayed_def Let_def split: option.split phase.split)
next
  case (step_failed p)
  then show ?thesis by (auto simp: read_failed_def Let_def split: option.split phase.split)
next
  case (step_refreshed now later p)
  show ?thesis
  proof (cases "vc_op s p")
    case (Some op)
    then show ?thesis
      using start_read_next [of "next_read p op s" cfg later p "op_repository op"]
      by (cases rule: refreshed_cases [of s p op now cfg later]) (simp_all add: step_refreshed)
  qed (simp add: step_refreshed refreshed_None)
next
  case (step_finally p)
  then show ?thesis by (auto simp: get_finally_def Let_def split: option.split phase.split)
next
  case (step_remove rid)
  then show ?thesis by (simp add: cache_remove_eq split: option.split)
next
  case (step_refresh rid)
  then show ?thesis by (simp add: cache_refresh_def split: option.split)
qed simp_all

interpretation call_lowered: lowered_by_steps "cache_step cfg keys replayable" "\<lambda>s. p < vc_next s" "\<lambda>s. vc_op s p" op_measure
proof unfold_locales
  show "p < vc_next s'" if "cache_step cfg keys replayable s s'" "p < vc_next s" for s s' :: "'a cache"
    using step_next [OF that(1)] that(2) by simp
  show "vc_op s' p = vc_op s p \<or> op_measure (vc_op s' p) < op_measure (vc_op s p)"
    if "cache_step cfg keys replayable s s'" "p < vc_next s" for s s' :: "'a cache"
    using step_measure [OF that] .
qed

lemma new_call_measure:
  assumes "vc_pending s (rp_id r) = None" and "cache_get cfg now r s = (p, s0)"
  shows "op_measure (vc_op s0 p) \<le> 16" and "p < vc_next s0"
proof -
  let ?s1 = "start_read cfg now (vc_next s) r (new_op r s)"
  have s0: "p = vc_next s" "vc_op s0 = vc_op ?s1" "vc_next s0 = vc_next ?s1"
    using assms by (auto simp: cache_get_None Let_def)
  show "op_measure (vc_op s0 p) \<le> 16"
    using start_read_rank [of "new_op r s" "vc_next s" _ cfg now r] by (simp add: s0 MAX_REFRESH_READS_def)
  show "p < vc_next s0" using start_read_next [of "new_op r s" cfg now "vc_next s" r] by (simp add: s0)
qed

lemma call_changes:
  assumes "\<And>i. i < n \<Longrightarrow> cache_step cfg keys replayable (f i) (f (Suc i))"
    and new: "vc_pending s (rp_id r) = None" "cache_get cfg now r s = (p, f 0)"
  shows "card {i. i < n \<and> vc_op (f (Suc i)) p \<noteq> vc_op (f i) p} \<le> 16"
  using call_lowered.changes [of p f n cfg keys replayable, OF new_call_measure(2) [OF new] assms(1)] new_call_measure(1) [OF new]
  by simp

lemma journal_read_op:
  assumes op: "vc_op s p = Some op" "op_phase op = Journal e t"
  obtains (read) "vc_op (journal_read p result s) = (vc_op s)(p := Some (op\<lparr>op_phase := ReadDone (Inr (ce_backups (vc_entry s e)))\<rparr>))"
  | (failed) err where "vc_op (journal_read p result s) = (vc_op s)(p := Some (op\<lparr>op_phase := Failing err (Some e)\<rparr>))"
  | (unreplayable) "vc_op (journal_read p result s) = (vc_op s)(p := Some (op\<lparr>op_phase := NotReplayable e\<rparr>))" "result = Inr None"
  using op
proof (cases rule: journal_read_cases [where result = result])
  case (failed err)
  show ?thesis by (rule that(2) [of err]) (unfold failed(1), simp add: op)
next
  case unreplayable
  show ?thesis by (rule that(3) [OF _ unreplayable(2)]) (unfold unreplayable(1), simp add: op)
next
  case (unpopulated u ph)
  show ?thesis by (rule that(2) [of TypeError]) (unfold unpopulated(3), simp add: op unpopulated(2))
next
  case (unlisted u t' cursor)
  show ?thesis by (rule that(1)) (unfold unlisted(2), simp add: op journal_done_op)
next
  case (replay u evs t' cursor c obj)
  show ?thesis by (rule that(1)) (unfold replay(3), simp add: op journal_done_op)
qed

text \<open>A call that has not ended goes on, whatever it is answered.\<close>

definition advance ::
    "cache_config \<Rightarrow> int \<Rightarrow> int \<Rightarrow> js_error + 'o backups_by_vm \<Rightarrow> js_error + 'o journal_answer option \<Rightarrow> nat \<Rightarrow> 'o cache \<Rightarrow> 'o cache" where
  "advance cfg now later listing journal p s =
     (case map_option op_phase (vc_op s p) of
        Some (Listing _ _) \<Rightarrow> listed p listing s
      | Some (Journal _ _) \<Rightarrow> journal_read p journal s
      | Some (NotReplayable _) \<Rightarrow> not_replayed cfg now p s
      | Some (Failing _ _) \<Rightarrow> read_failed p s
      | Some (ReadDone _) \<Rightarrow> refreshed cfg now later p s
      | Some (Settled _) \<Rightarrow> get_finally p s
      | None \<Rightarrow> s)"

lemma phase_differs: "vc_op s' p = Some (op\<lparr>op_phase := ph\<rparr>) \<Longrightarrow> vc_op s p = Some op \<Longrightarrow> ph \<noteq> op_phase op \<Longrightarrow> vc_op s' p \<noteq> vc_op s p"
  by (auto dest: arg_cong [of _ _ op_phase])

lemma advance_lowers:
  assumes op: "vc_op s p = Some op"
  shows "op_measure (vc_op (advance cfg now later listing journal p s) p) < op_measure (vc_op s p)"
proof -
  let ?s = "advance cfg now later listing journal p s"
  have "own_step p s ?s"
    by (auto simp: advance_def own_same own_listed own_journal_read own_not_replayed own_failed own_refreshed own_finally
        split: option.split phase.split)
  moreover have "vc_op ?s p \<noteq> vc_op s p"
  proof (cases "op_phase op")
    case (Listing e found)
    show ?thesis
    proof (cases listing)
      case (Inl err)
      show ?thesis by (rule phase_differs [OF _ op, of _ "Failing err found"])
        (use op Listing in \<open>simp_all add: advance_def Inl listed_Inl [OF op Listing]\<close>)
    next
      case (Inr b)
      show ?thesis by (rule phase_differs [OF _ op, of _ "ReadDone (Inr (Some (vc_next s)))"])
        (use op Listing in \<open>simp_all add: advance_def Inr listed_Inr [OF op Listing]\<close>)
    qed
  next
    case (Journal e t)
    then have s': "?s = journal_read p journal s" by (simp add: advance_def op)
    from op Journal show ?thesis unfolding s'
    proof (cases rule: journal_read_op [where result = journal])
      case read
      then show "vc_op (journal_read p journal s) p \<noteq> vc_op s p"
        using Journal by (intro phase_differs [OF _ op, of _ "ReadDone (Inr (ce_backups (vc_entry s e)))"]) simp_all
    next
      case (failed err)
      then show "vc_op (journal_read p journal s) p \<noteq> vc_op s p"
        using Journal by (intro phase_differs [OF _ op, of _ "Failing err (Some e)"]) simp_all
    next
      case unreplayable
      then show "vc_op (journal_read p journal s) p \<noteq> vc_op s p"
        using Journal by (intro phase_differs [OF _ op, of _ "NotReplayable e"]) simp_all
    qed
  next
    case (NotReplayable e)
    obtain u where "not_replayed cfg now p s = start_build cfg now p (op_repository op) (Some e) (s\<lparr>vc_unreplayable := u\<rparr>)"
      using not_replayed_eq [OF op NotReplayable] by blast
    then have "?s = start_build cfg now p (op_repository op) (Some e) (s\<lparr>vc_unreplayable := u\<rparr>)"
      by (simp add: advance_def op NotReplayable)
    then show ?thesis using NotReplayable by (intro phase_differs [OF _ op, of _ "Listing (vc_next s) (Some e)"]) (simp_all add: op)
  next
    case (Failing err found)
    show ?thesis by (rule phase_differs [OF _ op, of _ "ReadDone (Inl err)"])
      (use op Failing in \<open>simp_all add: advance_def read_failed_eq [OF op Failing]\<close>)
  next
    case (ReadDone r)
    then have s': "?s = refreshed cfg now later p s" by (simp add: advance_def op)
    show ?thesis using op
    proof (cases rule: refreshed_cases [of s p op now cfg later])
      case (again obj)
      obtain op' where "vc_op (refreshed cfg now later p s) p = Some op'" "op_reads op' = Suc (op_reads op)"
        unfolding again(3) by (rule start_read_op [of "next_read p op s" p _ cfg later "op_repository op"]) auto
      then show ?thesis using op by (auto simp: s')
    next
      case (settles r')
      then show ?thesis using ReadDone op by (intro phase_differs [OF _ op, of _ "Settled r'"]) (simp_all add: s')
    qed (use ReadDone in auto)
  next
    case (Settled r)
    then show ?thesis by (simp add: advance_def op get_finally_eq [OF op Settled])
  qed
  ultimately show ?thesis using own_stepD by blast
qed

section \<open>The listings of the entries\<close>

text \<open>The listing of an entry is never replaced.\<close>

lemma start_build_backups:
  assumes "cache_ok keys ow s" and "ce_backups (vc_entry s e) = Some obj"
  shows "ce_backups (vc_entry (start_build cfg now p r found s) e) = Some obj"
  using assms by (auto simp: cache_ok_def backups_ok_def)

lemma start_read_backups:
  assumes "cache_ok keys ow s" and "ce_backups (vc_entry s e) = Some obj"
  shows "ce_backups (vc_entry (start_read cfg now p r s) e) = Some obj"
  by (cases rule: start_read_cases [of cfg now p r s])
     (use assms start_build_backups [OF assms] in \<open>auto simp del: start_build_sel\<close>)

lemma entry_number: "cache_ok keys ow s \<Longrightarrow> ce_backups (vc_entry s e) = Some obj \<Longrightarrow> e < vc_next s \<and> obj < vc_next s"
  by (auto simp: cache_ok_def backups_ok_def)

lemma step_backups:
  assumes "cache_step cfg keys replayable s s'" and ok: "cache_ok keys ow s" and obj: "ce_backups (vc_entry s e) = Some obj"
  shows "ce_backups (vc_entry s' e) = Some obj"
  using assms(1)
proof (cases rule: cache_step.cases)
  case (step_get r now)
  show ?thesis unfolding step_get(1)
  proof (cases "vc_pending s (rp_id r)")
    case None
    then show "ce_backups (vc_entry (snd (cache_get cfg now r s)) e) = Some obj"
      using start_read_backups [OF ok_new_op [OF ok step_get(2)]] obj by (simp add: cache_get_None Let_def)
  qed (simp add: cache_get_Some obj)
next
  case (step_listed p op result)
  show ?thesis
  proof (cases "\<exists>e' found. op_phase op = Listing e' found")
    case False
    then have "listed p result s = s" using step_listed by (intro listed_other) auto
    then show ?thesis using obj step_listed by simp
  next
    case True
    then obtain e' found where ph: "op_phase op = Listing e' found" by blast
    then have "ce_backups (vc_entry s e') = None" using ops_okD(3) [OF ok step_listed(2)] by simp
    then show ?thesis using obj step_listed
      by (cases result) (auto simp: listed_Inl [OF step_listed(2) ph] listed_Inr [OF step_listed(2) ph])
  qed
next
  case (step_not_replayed now p)
  show ?thesis
  proof (cases "\<exists>op e. vc_op s p = Some op \<and> op_phase op = NotReplayable e")
    case True
    then obtain op e' where op: "vc_op s p = Some op" "op_phase op = NotReplayable e'" by blast
    obtain u where "not_replayed cfg now p s = start_build cfg now p (op_repository op) (Some e') (s\<lparr>vc_unreplayable := u\<rparr>)"
      using not_replayed_eq [OF op] by blast
    then show ?thesis using step_not_replayed obj entry_number [OF ok obj] by simp
  next
    case False
    then have "not_replayed cfg now p s = s" by (intro not_replayed_other) auto
    then show ?thesis using obj step_not_replayed by simp
  qed
next
  case (step_failed p)
  then show ?thesis using obj by (auto simp: read_failed_def Let_def split: option.split phase.split)
next
  case (step_refreshed now later p)
  show ?thesis
  proof (cases "vc_op s p")
    case (Some op)
    then show ?thesis
      using start_read_backups [OF ok_next_read [OF ok Some], of e obj] obj
      by (cases rule: refreshed_cases [of s p op now cfg later]) (simp_all add: step_refreshed)
  qed (simp add: step_refreshed refreshed_None obj)
next
  case (step_finally p)
  then show ?thesis using obj by (auto simp: get_finally_def Let_def split: option.split phase.split)
next
  case (step_remove rid)
  then show ?thesis using obj by (simp add: cache_remove_eq split: option.split)
next
  case (step_refresh rid)
  then show ?thesis using obj by (simp add: cache_refresh_def split: option.split)
qed (use obj in simp_all)

section \<open>After \<open>delete\<close>\<close>

text \<open>
  What belongs to a repository and is numbered \<open>n\<close> or more knows nothing older: the entry and the pending call
  of the repository are such, and such a call works with such an entry.
\<close>

definition served_after :: "nat \<Rightarrow> 'o cache \<Rightarrow> nat \<Rightarrow> bool" where
  "served_after n s obj \<longleftrightarrow> (\<exists>e \<ge> n. ce_backups (vc_entry s e) = Some obj)"

definition phase_after :: "nat \<Rightarrow> 'o cache \<Rightarrow> phase \<Rightarrow> bool" where
  "phase_after n s ph \<longleftrightarrow>
     (case ph of
        Listing e _ \<Rightarrow> n \<le> e
      | Journal e _ \<Rightarrow> n \<le> e
      | ReadDone (Inr (Some obj)) \<Rightarrow> served_after n s obj
      | Settled (Inr (Some obj)) \<Rightarrow> served_after n s obj
      | _ \<Rightarrow> True)"

definition after :: "nat \<Rightarrow> string \<Rightarrow> 'o cache \<Rightarrow> bool" where
  "after n rid s \<longleftrightarrow> n \<le> vc_next s \<and> (\<forall>e. vc_entries s rid = Some e \<longrightarrow> n \<le> e) \<and> (\<forall>p. vc_pending s rid = Some p \<longrightarrow> n \<le> p) \<and>
     (\<forall>p op. n \<le> p \<longrightarrow> vc_op s p = Some op \<longrightarrow> rp_id (op_repository op) = rid \<longrightarrow> phase_after n s (op_phase op))"

lemma after_delete:
  assumes "cache_ok keys ow s"
  shows "after (vc_next s) rid (cache_delete rid s)"
  using ops_okD(1) [OF assms] by (fastforce simp: after_def)

lemma phase_after_mono:
  assumes "phase_after n s ph" and "\<And>e obj. ce_backups (vc_entry s e) = Some obj \<Longrightarrow> ce_backups (vc_entry s' e) = Some obj"
  shows "phase_after n s' ph"
  using assms by (auto simp: phase_after_def served_after_def split: phase.splits sum.splits option.splits)

lemma after_change:
  assumes "after n rid s" and "vc_next s \<le> vc_next s'"
    and "\<And>e obj. ce_backups (vc_entry s e) = Some obj \<Longrightarrow> ce_backups (vc_entry s' e) = Some obj"
    and "\<And>e. vc_entries s' rid = Some e \<Longrightarrow> n \<le> e" and "\<And>p. vc_pending s' rid = Some p \<Longrightarrow> n \<le> p"
    and "\<And>q op. n \<le> q \<Longrightarrow> vc_op s' q = Some op \<Longrightarrow> rp_id (op_repository op) = rid \<Longrightarrow>
      vc_op s q = Some op \<or> phase_after n s' (op_phase op)"
  shows "after n rid s'"
proof -
  have "phase_after n s' (op_phase op)" if "n \<le> q" "vc_op s' q = Some op" "rp_id (op_repository op) = rid" for q op
    using assms(6) [OF that] that assms(1,3) phase_after_mono [of n s "op_phase op" s'] by (auto simp: after_def)
  then show ?thesis using assms by (auto simp: after_def)
qed

lemma afterD:
  assumes "after n rid s"
  shows "n \<le> vc_next s" "vc_entries s rid = Some e \<Longrightarrow> n \<le> e" "vc_pending s rid = Some p \<Longrightarrow> n \<le> p"
    "n \<le> p \<Longrightarrow> vc_op s p = Some op \<Longrightarrow> rp_id (op_repository op) = rid \<Longrightarrow> phase_after n s (op_phase op)"
  using assms by (auto simp: after_def)

lemma phase_after_simps [simp]:
  "phase_after n s (Listing e f) \<longleftrightarrow> n \<le> e" "phase_after n s (Journal e t) \<longleftrightarrow> n \<le> e"
  "phase_after n s (NotReplayable e)" "phase_after n s (Failing err g)"
  "phase_after n s (ReadDone (Inl err))" "phase_after n s (ReadDone (Inr None))"
  "phase_after n s (ReadDone (Inr (Some obj))) \<longleftrightarrow> served_after n s obj"
  "phase_after n s (Settled r) \<longleftrightarrow> phase_after n s (ReadDone r)"
  by (auto simp: phase_after_def split: sum.split)

lemma served_entry: "n \<le> e \<Longrightarrow> phase_after n s (ReadDone (Inr (ce_backups (vc_entry s e))))"
  by (cases "ce_backups (vc_entry s e)") (auto simp: served_after_def)

lemma phase_after_cong: "vc_entry s' = vc_entry s \<Longrightarrow> phase_after n s' ph = phase_after n s ph"
  by (auto simp: phase_after_def served_after_def split: phase.split sum.split option.split)

text \<open>An operation that is of another repository, or is old, may begin to read.\<close>

lemma after_start_read:
  assumes ok: "cache_ok keys ow s" and a: "after n rid s" and op: "vc_op s p = Some op" "op_repository op = r"
  shows "after n rid (start_read cfg now p r s)"
proof (cases rule: start_read_cases [of cfg now p r s])
  case build
  show ?thesis unfolding build
    by (rule after_change [OF a]) (use a op start_build_backups [OF ok] in \<open>auto simp: after_def split: if_splits\<close>)
next
  case (journal e)
  show ?thesis unfolding journal(2)
    by (rule after_change [OF a]) (use journal(1) afterD [OF a] op in \<open>auto split: if_splits\<close>)
next
  case (held e)
  show ?thesis unfolding held(2)
  proof (rule after_change [OF a])
    show "vc_op s q = Some op' \<or> phase_after n (set_phase p (ReadDone (Inr (ce_backups (vc_entry s e)))) s) (op_phase op')"
      if "n \<le> q" "vc_op (set_phase p (ReadDone (Inr (ce_backups (vc_entry s e)))) s) q = Some op'" "rp_id (op_repository op') = rid" for q op'
    proof (cases "q = p")
      case True
      then have "n \<le> e" using that op held(1) afterD(2) [OF a] by auto
      then show ?thesis using that True op served_entry [of n e "set_phase p (ReadDone (Inr (ce_backups (vc_entry s e)))) s"] by auto
    qed (use that in simp)
  qed (use afterD [OF a] in auto)
qed

lemma after_get:
  assumes ok: "cache_ok keys ow s" and slash: "CHR ''/'' \<notin> set (rp_id r)" and a: "after n rid s"
  shows "after n rid (snd (cache_get cfg now r s))"
proof (cases "vc_pending s (rp_id r)")
  case None
  let ?s1 = "start_read cfg now (vc_next s) r (new_op r s)"
  have "after n rid (new_op r s)"
    by (rule after_change [OF a]) (use afterD [OF a] in \<open>auto split: if_splits\<close>)
  then have a1: "after n rid ?s1"
    using after_start_read [OF ok_new_op [OF ok slash]] by simp
  have "vc_next s \<le> vc_next ?s1" using start_read_next [of "new_op r s" cfg now "vc_next s" r] by simp
  show ?thesis unfolding cache_get_None [OF None] Let_def snd_conv
    by (rule after_change [OF a1]) (use afterD [OF a1] afterD(1) [OF a] in \<open>auto split: if_splits\<close>)
qed (simp add: cache_get_Some a)

lemma after_step:
  assumes "cache_step cfg keys replayable s s'" and ok: "cache_ok keys ow s" and a: "after n rid s"
  shows "after n rid s'"
proof -
  note mono = step_next [OF assms(1)] and kept = step_backups [OF assms(1) ok]
  from assms(1) show ?thesis
  proof (cases rule: cache_step.cases)
    case (step_get r now)
    then show ?thesis using after_get [OF ok _ a] by simp
  next
    case (step_listed p op result)
    show ?thesis
    proof (cases "\<exists>e found. op_phase op = Listing e found")
      case False
      then have "listed p result s = s" using step_listed by (intro listed_other) auto
      then show ?thesis using a step_listed by simp
    next
      case True
      then obtain e found where ph: "op_phase op = Listing e found" by blast
      have s': "s' = listed p result s" using step_listed by simp
      show ?thesis
      proof (cases result)
        case (Inl err)
        show ?thesis
          by (rule after_change [OF a mono kept])
             (use afterD [OF a] step_listed(2) in \<open>auto simp: s' Inl listed_Inl [OF step_listed(2) ph] split: if_splits\<close>)
      next
        case (Inr b)
        show ?thesis
        proof (rule after_change [OF a mono kept])
          show "vc_op s q = Some op' \<or> phase_after n s' (op_phase op')"
            if "n \<le> q" "vc_op s' q = Some op'" "rp_id (op_repository op') = rid" for q op'
          proof (cases "q = p")
            case True
            then have op': "op' = op\<lparr>op_phase := ReadDone (Inr (Some (vc_next s)))\<rparr>"
              using that step_listed(2) by (simp add: s' Inr listed_Inr [OF step_listed(2) ph] split: if_splits)
            have "n \<le> e" using afterD(4) [OF a that(1), of op] that(3) step_listed(2) True op' ph by simp
            moreover have "ce_backups (vc_entry s' e) = Some (vc_next s)" by (simp add: s' Inr listed_Inr [OF step_listed(2) ph])
            ultimately show ?thesis by (auto simp: op' served_after_def)
          qed (use that in \<open>auto simp: s' Inr listed_Inr [OF step_listed(2) ph] split: if_splits\<close>)
        qed (use afterD [OF a] in \<open>auto simp: s' Inr listed_Inr [OF step_listed(2) ph] split: if_splits\<close>)
      qed
    qed
  next
    case (step_journal p op result)
    show ?thesis
    proof (cases "\<exists>e t. op_phase op = Journal e t")
      case False
      then have "journal_read p result s = s" using step_journal by (intro journal_read_other) auto
      then show ?thesis using a step_journal by simp
    next
      case True
      then obtain e t where ph: "op_phase op = Journal e t" by blast
      have s': "s' = journal_read p result s" using step_journal by simp
      have e: "n \<le> e" if "n \<le> p" "rp_id (op_repository op) = rid" using afterD(4) [OF a that(1) step_journal(2) that(2)] ph by simp
      have ops: "vc_op s' = (vc_op s)(p := Some (op\<lparr>op_phase := ReadDone (Inr (ce_backups (vc_entry s' e)))\<rparr>)) \<or>
          (\<exists>ph. vc_op s' = (vc_op s)(p := Some (op\<lparr>op_phase := ph\<rparr>)) \<and> (\<forall>m. phase_after m s' ph))"
        using step_journal(2) ph
      proof (cases rule: journal_read_op [where result = result])
        case read
        then show ?thesis by (simp add: s')
      next
        case (failed err)
        then show ?thesis by (intro disjI2 exI [of _ "Failing err (Some e)"]) (simp add: s')
      next
        case unreplayable
        then show ?thesis by (intro disjI2 exI [of _ "NotReplayable e"]) (simp add: s')
      qed
      show ?thesis
        by (rule after_change [OF a mono kept])
           (use ops afterD [OF a] e served_entry [of n e s'] in \<open>auto simp: s' split: if_splits\<close>)
    qed
  next
    case (step_not_replayed now p)
    show ?thesis
    proof (cases "\<exists>op e. vc_op s p = Some op \<and> op_phase op = NotReplayable e")
      case True
      then obtain op e where op: "vc_op s p = Some op" "op_phase op = NotReplayable e" by blast
      obtain u where u: "s' = start_build cfg now p (op_repository op) (Some e) (s\<lparr>vc_unreplayable := u\<rparr>)"
        using not_replayed_eq [OF op] step_not_replayed by metis
      show ?thesis
        by (rule after_change [OF a mono kept]) (use afterD [OF a] op in \<open>auto simp: u split: if_splits\<close>)
    next
      case False
      then have "not_replayed cfg now p s = s" by (intro not_replayed_other) auto
      then show ?thesis using a step_not_replayed by simp
    qed
  next
    case (step_failed p)
    then show ?thesis
      by (intro after_change [OF a mono kept])
         (use afterD [OF a] in \<open>auto simp: read_failed_def Let_def split: option.splits phase.splits if_splits\<close>)
  next
    case (step_refreshed now later p)
    show ?thesis
    proof (cases "vc_op s p")
      case (Some op)
      then show ?thesis
      proof (cases rule: refreshed_cases [of s p op now cfg later])
        case (again obj)
        have "after n rid (next_read p op s)"
        proof (rule after_change [OF a])
          show "vc_op s q = Some op' \<or> phase_after n (next_read p op s) (op_phase op')"
            if "n \<le> q" "vc_op (next_read p op s) q = Some op'" "rp_id (op_repository op') = rid" for q op'
          proof (cases "q = p")
            case True
            then have "op' = op\<lparr>op_reads := Suc (op_reads op)\<rparr>" using that(2) by simp
            then have "phase_after n s (op_phase op')" using afterD(4) [OF a that(1), of op] that(3) Some True by simp
            then show ?thesis unfolding phase_after_cong [of "next_read p op s" s, OF next_read_sel(4)] ..
          qed (use that in simp)
        qed (use afterD [OF a] in auto)
        then have "after n rid (start_read cfg later p (op_repository op) (next_read p op s))"
          by (rule after_start_read [OF ok_next_read [OF ok Some], where op = "op\<lparr>op_reads := Suc (op_reads op)\<rparr>"]) simp_all
        then show ?thesis by (simp add: step_refreshed again(3))
      next
        case (settles r)
        show ?thesis
          by (rule after_change [OF a mono kept])
             (use afterD [OF a] afterD(4) [OF a _ Some] phase_after_cong [of "set_phase p (Settled r) s" s n "ReadDone r"] Some settles
              in \<open>auto simp: step_refreshed split: if_splits\<close>)
      next
        case other
        then show ?thesis using a step_refreshed by simp
      qed
    qed (simp add: step_refreshed refreshed_None a)
  next
    case (step_finally p)
    then show ?thesis
      by (intro after_change [OF a mono kept])
         (use afterD [OF a] in \<open>auto simp: get_finally_def Let_def split: option.splits phase.splits if_splits\<close>)
  next
    case (step_delete rid')
    then show ?thesis by (intro after_change [OF a mono kept]) (use afterD [OF a] in \<open>auto split: if_splits\<close>)
  next
    case (step_remove rid')
    then show ?thesis by (intro after_change [OF a mono kept])
      (use afterD [OF a] in \<open>auto simp: cache_remove_eq split: if_splits option.splits\<close>)
  next
    case (step_refresh rid')
    then show ?thesis by (intro after_change [OF a mono kept])
      (use afterD [OF a] in \<open>auto simp: cache_refresh_def split: if_splits option.splits\<close>)
  qed
qed

text \<open>An operation is of one repository.\<close>

lemma step_repository:
  assumes "cache_step cfg keys replayable s s'" and p: "p < vc_next s" and op': "vc_op s' p = Some op'"
  shows "\<exists>op. vc_op s p = Some op \<and> op_repository op = op_repository op'"
  using assms(1)
proof (cases rule: cache_step.cases)
  case (step_get r now)
  then show ?thesis using get_others [OF p] op' by simp
next
  case (step_listed q op result)
  then show ?thesis using op'
    by (auto simp: listed_def Let_def split: option.splits phase.splits sum.splits if_splits)
next
  case (step_journal q op result)
  show ?thesis
  proof (cases "\<exists>e t. op_phase op = Journal e t")
    case True
    then obtain e t where ph: "op_phase op = Journal e t" by blast
    then show ?thesis using step_journal op'
      by (cases rule: journal_read_op [OF step_journal(2) ph, where result = result]) (auto split: if_splits)
  next
    case False
    then have "journal_read q result s = s" using step_journal by (intro journal_read_other) auto
    then show ?thesis using op' step_journal by simp
  qed
next
  case (step_not_replayed now q)
  then show ?thesis using op'
    by (auto simp: not_replayed_def Let_def split: option.splits phase.splits if_splits)
next
  case (step_failed q)
  then show ?thesis using op'
    by (auto simp: read_failed_def Let_def split: option.splits phase.splits if_splits)
next
  case (step_refreshed now later q)
  show ?thesis
  proof (cases "vc_op s q")
    case (Some op)
    then show ?thesis
    proof (cases rule: refreshed_cases [of s q op now cfg later])
      case (again obj)
      obtain op1 where "vc_op (start_read cfg later q (op_repository op) (next_read q op s)) q = Some op1" "op_repository op1 = op_repository op"
        by (rule start_read_op [of "next_read q op s" q _ cfg later "op_repository op"]) auto
      then show ?thesis using Some op' start_read_others [of p q cfg later "op_repository op" "next_read q op s"]
        by (cases "p = q") (auto simp: step_refreshed again(3))
    qed (use Some op' step_refreshed in \<open>auto split: if_splits\<close>)
  qed (use op' in \<open>simp add: step_refreshed refreshed_None\<close>)
next
  case (step_finally q)
  then show ?thesis using op'
    by (auto simp: get_finally_def Let_def split: option.splits phase.splits if_splits)
next
  case (step_remove rid)
  then show ?thesis using op' by (simp add: cache_remove_eq split: option.splits)
next
  case (step_refresh rid)
  then show ?thesis using op' by (simp add: cache_refresh_def split: option.splits)
qed (use op' in simp_all)

lemma run_keeps:
  assumes "(cache_step cfg keys replayable)\<^sup>*\<^sup>* s s'" and "cache_ok keys ow s"
  shows "\<exists>ow'. cache_ok keys ow' s'" and "vc_next s \<le> vc_next s'"
    and "after n rid s \<Longrightarrow> after n rid s'"
    and "p < vc_next s \<Longrightarrow> vc_op s' p = Some op' \<Longrightarrow> \<exists>op. vc_op s p = Some op \<and> op_repository op = op_repository op'"
proof -
  from assms have "(\<exists>ow'. cache_ok keys ow' s') \<and> vc_next s \<le> vc_next s' \<and> (after n rid s \<longrightarrow> after n rid s') \<and>
    (p < vc_next s \<longrightarrow> (\<forall>op'. vc_op s' p = Some op' \<longrightarrow> (\<exists>op. vc_op s p = Some op \<and> op_repository op = op_repository op')))"
  proof (induction rule: rtranclp_induct)
    case (step s1 s2)
    then obtain ow1 where ok1: "cache_ok keys ow1 s1" by blast
    have "\<exists>ow2. cache_ok keys ow2 s2" using ok_step [OF step(2) ok1] by blast
    moreover have "vc_next s \<le> vc_next s2" using step step_next [OF step(2)] by simp
    moreover have "after n rid s \<Longrightarrow> after n rid s2" using step after_step [OF step(2) ok1] by blast
    moreover have "\<exists>op. vc_op s p = Some op \<and> op_repository op = op_repository op2" if p: "p < vc_next s" and op2: "vc_op s2 p = Some op2" for op2
    proof -
      have "p < vc_next s1" using step p by auto
      from step_repository [OF step(2) this op2] obtain op1 where "vc_op s1 p = Some op1" "op_repository op1 = op_repository op2" by blast
      then show ?thesis using step p by fastforce
    qed
    ultimately show ?case by blast
  qed auto
  then show "\<exists>ow'. cache_ok keys ow' s'" "vc_next s \<le> vc_next s'" "after n rid s \<Longrightarrow> after n rid s'"
    "p < vc_next s \<Longrightarrow> vc_op s' p = Some op' \<Longrightarrow> \<exists>op. vc_op s p = Some op \<and> op_repository op = op_repository op'" by blast+
qed

lemma served_since_delete:
  assumes run: "(cache_step cfg keys replayable)\<^sup>*\<^sup>* new_cache s"
    and since: "(cache_step cfg keys replayable)\<^sup>*\<^sup>* (cache_delete (rp_id r) s) s1"
    and get: "cache_get cfg now r s1 = (p, s2)" "CHR ''/'' \<notin> set (rp_id r)"
    and then_run: "(cache_step cfg keys replayable)\<^sup>*\<^sup>* s2 s3"
    and served: "vc_op s3 p = Some op" "op_phase op = Settled (Inr (Some obj))"
  shows "vc_next s \<le> p" and "\<exists>e \<ge> vc_next s. ce_backups (vc_entry s3 e) = Some obj"
proof -
  obtain ow where ok: "cache_ok keys ow s" using run_keeps(1) [OF run ok_new_cache] by blast
  have a: "after (vc_next s) (rp_id r) (cache_delete (rp_id r) s)" by (rule after_delete [OF ok])
  obtain ow1 where ok1: "cache_ok keys ow1 s1" using run_keeps(1) [OF since ok_delete [OF ok]] by blast
  have a1: "after (vc_next s) (rp_id r) s1" by (rule run_keeps(3) [OF since ok_delete [OF ok] a])
  have s2: "s2 = snd (cache_get cfg now r s1)" using get(1) by simp
  have a2: "after (vc_next s) (rp_id r) s2" unfolding s2 by (rule after_get [OF ok1 get(2) a1])
  obtain ow2 where ok2: "cache_ok keys ow2 s2" using ok_get [OF ok1 get(2)] s2 by blast
  have pending: "vc_pending s2 (rp_id r) = Some p"
    using get(1) by (cases "vc_pending s1 (rp_id r)") (auto simp: cache_get_Some cache_get_None Let_def)
  then show p: "vc_next s \<le> p" using afterD(3) [OF a2] by simp
  obtain op2 where op2: "vc_op s2 p = Some op2" "rp_id (op_repository op2) = rp_id r"
    using ok2 pending by (auto simp: cache_ok_def pending_ok_def)
  have "rp_id (op_repository op) = rp_id r"
    using run_keeps(4) [OF then_run ok2 ops_okD(1) [OF ok2 op2(1)] served(1)] op2 by auto
  moreover have "after (vc_next s) (rp_id r) s3" by (rule run_keeps(3) [OF then_run ok2 a2])
  ultimately have "phase_after (vc_next s) s3 (op_phase op)" using afterD(4) p served(1) by metis
  then show "\<exists>e \<ge> vc_next s. ce_backups (vc_entry s3 e) = Some obj" by (simp add: served(2) served_after_def)
qed

section \<open>A call is served a listing\<close>

text \<open>
  When every journal can be read: an entry is replayed or served only once it is listed, because the entry in
  place is listed by the pending call, and is not used by another one. \<open>x\<close> is a call that has not begun to read.
\<close>

definition phase_live :: "'o cache \<Rightarrow> phase \<Rightarrow> bool" where
  "phase_live s ph \<longleftrightarrow>
     (case ph of
        NotReplayable _ \<Rightarrow> False
      | Journal e _ \<Rightarrow> ce_backups (vc_entry s e) \<noteq> None
      | ReadDone (Inr obj) \<Rightarrow> (\<exists>n < vc_next s. obj = Some n)
      | Settled (Inr obj) \<Rightarrow> obj \<noteq> None
      | _ \<Rightarrow> True)"

definition uses :: "'o cache \<Rightarrow> phase \<Rightarrow> nat \<Rightarrow> bool" where
  "uses s ph e \<longleftrightarrow>
     (case ph of
        Listing e' _ \<Rightarrow> e' = e
      | Journal e' _ \<Rightarrow> e' = e
      | ReadDone (Inr (Some obj)) \<Rightarrow> ce_backups (vc_entry s e) = Some obj
      | _ \<Rightarrow> False)"

definition listed_by_pending :: "'o cache \<Rightarrow> string \<Rightarrow> nat \<Rightarrow> bool" where
  "listed_by_pending s rid e \<longleftrightarrow> (\<exists>p op f. vc_pending s rid = Some p \<and> vc_op s p = Some op \<and> op_phase op = Listing e f)"

definition live :: "nat option \<Rightarrow> 'o cache \<Rightarrow> bool" where
  "live x s \<longleftrightarrow>
     (\<forall>p op. vc_op s p = Some op \<longrightarrow> Some p \<noteq> x \<longrightarrow> phase_live s (op_phase op)) \<and>
     (\<forall>rid e. vc_entries s rid = Some e \<longrightarrow> ce_backups (vc_entry s e) = None \<longrightarrow> listed_by_pending s rid e) \<and>
     (\<forall>p op e. vc_op s p = Some op \<longrightarrow> uses s (op_phase op) e \<longrightarrow> vc_entries s (rp_id (op_repository op)) = Some e \<longrightarrow>
        vc_pending s (rp_id (op_repository op)) = Some p)"

lemma phase_live_simps [simp]:
  "phase_live s (Listing e f)" "\<not> phase_live s (NotReplayable e)" "phase_live s (Failing err g)"
  "phase_live s (Journal e t) \<longleftrightarrow> ce_backups (vc_entry s e) \<noteq> None"
  "phase_live s (ReadDone (Inl err))" "phase_live s (ReadDone (Inr obj)) \<longleftrightarrow> (\<exists>n < vc_next s. obj = Some n)"
  "phase_live s (Settled (Inl err))" "phase_live s (Settled (Inr obj)) \<longleftrightarrow> obj \<noteq> None"
  by (simp_all add: phase_live_def)

lemma uses_simps [simp]:
  "uses s (Listing e' f) e \<longleftrightarrow> e' = e" "uses s (Journal e' t) e \<longleftrightarrow> e' = e" "\<not> uses s (NotReplayable e') e" "\<not> uses s (Failing err g) e"
  "\<not> uses s (ReadDone (Inl err)) e" "\<not> uses s (ReadDone (Inr None)) e"
  "uses s (ReadDone (Inr (Some obj))) e \<longleftrightarrow> ce_backups (vc_entry s e) = Some obj" "\<not> uses s (Settled r) e"
  by (simp_all add: uses_def)

lemma liveD:
  assumes "live x s"
  shows "vc_op s p = Some op \<Longrightarrow> Some p \<noteq> x \<Longrightarrow> phase_live s (op_phase op)"
    and "vc_entries s rid = Some e \<Longrightarrow> ce_backups (vc_entry s e) = None \<Longrightarrow> listed_by_pending s rid e"
    and "vc_op s p = Some op \<Longrightarrow> uses s (op_phase op) e \<Longrightarrow> vc_entries s (rp_id (op_repository op)) = Some e \<Longrightarrow>
      vc_pending s (rp_id (op_repository op)) = Some p"
  using assms by (auto simp: live_def)

text \<open>The operation \<open>p\<close> goes on; no other changes, nor the entry in place and the pending call.\<close>

lemma phase_live_same:
  assumes "\<And>e. ce_backups (vc_entry s' e) = ce_backups (vc_entry s e)" and "vc_next s' = vc_next s"
  shows "phase_live s' = phase_live s"
  using assms by (auto simp: phase_live_def fun_eq_iff split: phase.split sum.split)

lemma uses_same:
  assumes "\<And>e. ce_backups (vc_entry s' e) = ce_backups (vc_entry s e)"
  shows "uses s' = uses s"
  using assms by (auto simp: uses_def fun_eq_iff split: phase.split sum.split option.split)

lemma live_phase:
  assumes live: "live x s" and op: "vc_op s p = Some op" and op': "vc_op s' = (vc_op s)(p := Some op')" "op_repository op' = op_repository op"
    and same: "vc_entries s' = vc_entries s" "vc_pending s' = vc_pending s" "\<And>e. ce_backups (vc_entry s' e) = ce_backups (vc_entry s e)"
      "vc_next s' = vc_next s"
    and ph: "Some p \<noteq> y \<Longrightarrow> phase_live s (op_phase op')" "\<And>q. Some q \<noteq> y \<Longrightarrow> q \<noteq> p \<Longrightarrow> Some q \<noteq> x"
    and unlisted: "\<And>e f rid. op_phase op = Listing e f \<Longrightarrow> vc_entries s rid = Some e \<Longrightarrow> ce_backups (vc_entry s e) \<noteq> None"
    and used: "\<And>e. uses s (op_phase op') e \<Longrightarrow> vc_entries s (rp_id (op_repository op)) = Some e \<Longrightarrow>
      vc_pending s (rp_id (op_repository op)) = Some p"
  shows "live y s'"
proof -
  have pl: "phase_live s' = phase_live s" and us: "uses s' = uses s"
    using same by (auto intro!: phase_live_same uses_same)
  have 1: "phase_live s' (op_phase o1)" if "vc_op s' q = Some o1" "Some q \<noteq> y" for q o1
    using that liveD(1) [OF live, of q o1] ph unfolding pl op'(1) by (cases "q = p") auto
  have 2: "listed_by_pending s' rid e" if e: "vc_entries s' rid = Some e" "ce_backups (vc_entry s' e) = None" for rid e
  proof -
    obtain q o1 f where q: "vc_pending s rid = Some q" "vc_op s q = Some o1" "op_phase o1 = Listing e f"
      using liveD(2) [OF live, of rid e] e same by (auto simp: listed_by_pending_def)
    then have "q \<noteq> p" using unlisted [of e f rid] op e same by auto
    then show ?thesis using q op'(1) same(2) by (auto simp: listed_by_pending_def)
  qed
  have 3: "vc_pending s' (rp_id (op_repository o1)) = Some q"
    if "vc_op s' q = Some o1" "uses s' (op_phase o1) e" "vc_entries s' (rp_id (op_repository o1)) = Some e" for q o1 e
    using that liveD(3) [OF live, of q o1 e] used [of e] op'(2) unfolding us same(1,2) op'(1) by (cases "q = p") auto
  show ?thesis unfolding live_def using 1 2 3 by blast
qed

text \<open>The entry in place is dropped, and perhaps the pending call.\<close>

lemma live_drop:
  assumes live: "live None s" and same: "vc_op s' = vc_op s" "\<And>e. ce_backups (vc_entry s' e) = ce_backups (vc_entry s e)" "vc_next s' = vc_next s"
    and drop: "vc_entries s' = (vc_entries s)(rid := None)" "\<And>r. r \<noteq> rid \<Longrightarrow> vc_pending s' r = vc_pending s r"
  shows "live None s'"
proof -
  have pl: "phase_live s' = phase_live s" and us: "uses s' = uses s"
    using same by (auto intro!: phase_live_same uses_same)
  have keep: "vc_entries s r = Some e" "vc_pending s' r = vc_pending s r" if "vc_entries s' r = Some e" for r e
    using that drop by (auto split: if_splits)
  have lp: "listed_by_pending s' r e" if "listed_by_pending s r e" "vc_entries s' r = Some e" for r e
    using that keep(2) [OF that(2)] by (simp add: listed_by_pending_def same(1))
  show ?thesis unfolding live_def pl us same(1,2)
  proof (intro conjI allI impI)
    show "phase_live s (op_phase op)" if "vc_op s p = Some op" "Some p \<noteq> None" for p op
      using liveD(1) [OF live that] .
    show "listed_by_pending s' r e" if "vc_entries s' r = Some e" "ce_backups (vc_entry s e) = None" for r e
      using lp [OF liveD(2) [OF live keep(1) [OF that(1)] that(2)] that(1)] .
    show "vc_pending s' (rp_id (op_repository op)) = Some p"
      if "vc_op s p = Some op" "uses s (op_phase op) e" "vc_entries s' (rp_id (op_repository op)) = Some e" for p op e
      using liveD(3) [OF live that(1,2) keep(1) [OF that(3)]] keep(2) [OF that(3)] by simp
  qed
qed

lemma live_same:
  assumes live: "live None s" and same: "vc_op s' = vc_op s" "\<And>e. ce_backups (vc_entry s' e) = ce_backups (vc_entry s e)" "vc_next s' = vc_next s"
    "vc_entries s' = vc_entries s" "vc_pending s' = vc_pending s"
  shows "live None s'"
proof -
  have pl: "phase_live s' = phase_live s" and us: "uses s' = uses s"
    using same by (auto intro!: phase_live_same uses_same)
  show ?thesis using live unfolding live_def listed_by_pending_def pl us same .
qed

text \<open>The pending call reads, while the entry in place is listed.\<close>

lemma live_build:
  assumes ok: "cache_ok keys ow s" and live: "live x s" "x = None \<or> x = Some p"
    and op: "vc_op s p = Some op" "op_repository op = r" "op_phase op = ReadDone res"
    and pending: "vc_pending s (rp_id r) = Some p"
  shows "live None (start_build cfg now p r found s)" (is "live None ?s")
proof -
  have kept: "ce_backups (vc_entry ?s e) = ce_backups (vc_entry s e)" if "e \<noteq> vc_next s" for e using that by simp
  have fresh: "ce_backups (vc_entry ?s (vc_next s)) = None" by simp
  have ops: "vc_op ?s = (vc_op s)(p := Some (op\<lparr>op_phase := Listing (vc_next s) found\<rparr>))" by (simp add: op)
  show ?thesis unfolding live_def
  proof (intro conjI allI impI)
    show "phase_live ?s (op_phase o1)" if o1: "vc_op ?s q = Some o1" and "Some q \<noteq> None" for q o1
    proof (cases "q = p")
      case True
      then show ?thesis using o1 ops by auto
    next
      case False
      then have q: "vc_op s q = Some o1" using o1 ops by simp
      then have "phase_live s (op_phase o1)" using liveD(1) [OF live(1) q] live(2) False by auto
      then show ?thesis using ops_okD(3) [OF ok q] by (cases "op_phase o1") (auto simp: phase_live_def less_SucI split: sum.splits)
    qed
  next
    show "listed_by_pending ?s rid e" if e: "vc_entries ?s rid = Some e" "ce_backups (vc_entry ?s e) = None" for rid e
    proof (cases "rid = rp_id r")
      case True
      then show ?thesis using e(1) pending ops by (simp add: listed_by_pending_def)
    next
      case False
      then have e': "vc_entries s rid = Some e" using e(1) by simp
      then have "e \<noteq> vc_next s" using entries_okD [OF ok e'] by simp
      then obtain q o1 f where q: "vc_pending s rid = Some q" "vc_op s q = Some o1" "op_phase o1 = Listing e f"
        using liveD(2) [OF live(1) e'] e(2) kept by (auto simp: listed_by_pending_def)
      then have "q \<noteq> p" using op by auto
      then show ?thesis using q ops by (auto simp: listed_by_pending_def)
    qed
  next
    show "vc_pending ?s (rp_id (op_repository o1)) = Some q"
      if o1: "vc_op ?s q = Some o1" "uses ?s (op_phase o1) e" "vc_entries ?s (rp_id (op_repository o1)) = Some e" for q o1 e
    proof (cases "q = p")
      case True
      then show ?thesis using o1(1) op(1,2) pending by auto
    next
      case False
      then have q: "vc_op s q = Some o1" using o1(1) ops by simp
      have "e \<noteq> vc_next s"
        using o1(2) ops_okD(3) [OF ok q] fresh by (cases "op_phase o1") (auto simp: uses_def split: sum.splits option.splits)
      then have "uses s (op_phase o1) e" "vc_entries s (rp_id (op_repository o1)) = Some e"
        using o1(2,3) by (auto simp: uses_def split: phase.splits sum.splits option.splits if_splits)
      then show ?thesis using liveD(3) [OF live(1) q] by simp
    qed
  qed
qed

lemma live_start_read:
  assumes ok: "cache_ok keys ow s" and live: "live x s" "x = None \<or> x = Some p"
    and op: "vc_op s p = Some op" "op_repository op = r" "op_phase op = ReadDone res"
    and pending: "vc_pending s (rp_id r) = Some p"
    and listed: "\<And>e. vc_entries s (rp_id r) = Some e \<Longrightarrow> ce_backups (vc_entry s e) \<noteq> None"
  shows "live None (start_read cfg now p r s)"
proof (cases rule: start_read_cases [of cfg now p r s])
  case build
  show ?thesis unfolding build by (rule live_build [OF ok live op pending])
next
  case (journal e)
  show ?thesis unfolding journal(2)
    by (rule live_phase [OF live(1) op(1), of _ "op\<lparr>op_phase := Journal e now\<rparr>"])
       (use live(2) op pending listed [OF journal(1)] in auto)
next
  case (held e)
  obtain obj where obj: "ce_backups (vc_entry s e) = Some obj" using listed [OF held(1)] by blast
  show ?thesis unfolding held(2)
    by (rule live_phase [OF live(1) op(1), of _ "op\<lparr>op_phase := ReadDone (Inr (ce_backups (vc_entry s e)))\<rparr>"])
       (use live(2) op pending obj entry_number [OF ok obj] in auto)
qed

lemma start_read_pending: "start_read cfg now p r (s\<lparr>vc_pending := g\<rparr>) = (start_read cfg now p r s)\<lparr>vc_pending := g\<rparr>"
  by (simp add: start_read_def start_build_def set_phase_def update_entry_def Let_def split: option.split)

lemma live_get:
  assumes ok: "cache_ok keys ow s" and slash: "CHR ''/'' \<notin> set (rp_id r)" and live: "live None s"
  shows "live None (snd (cache_get cfg now r s))"
proof (cases "vc_pending s (rp_id r)")
  case None
  let ?p = "vc_next s" and ?op = "\<lparr>op_repository = r, op_reads = 1, op_phase = ReadDone (Inr None)\<rparr>"
  let ?s = "(new_op r s)\<lparr>vc_pending := (vc_pending s)(rp_id r := Some (vc_next s))\<rparr>"
  have fresh: "q \<noteq> ?p" if "vc_op s q = Some o1" for q o1 using ops_okD(1) [OF ok that] by simp
  have ok': "cache_ok keys ow ?s" using ok_pending [OF ok_new_op [OF ok slash], of ?p ?op "rp_id r"] by simp
  have us: "uses ?s = uses s" by (rule uses_same) simp
  have "live (Some ?p) ?s" unfolding live_def us
  proof (intro conjI allI impI)
    show "phase_live ?s (op_phase o1)" if "vc_op ?s q = Some o1" "Some q \<noteq> Some ?p" for q o1
      using liveD(1) [OF live, of q o1] that by (auto simp: phase_live_def less_SucI split: phase.splits sum.splits)
    show "listed_by_pending ?s rid e" if e: "vc_entries ?s rid = Some e" "ce_backups (vc_entry ?s e) = None" for rid e
    proof -
      obtain q o1 f where q: "vc_pending s rid = Some q" "vc_op s q = Some o1" "op_phase o1 = Listing e f"
        using liveD(2) [OF live, of rid e] e by (auto simp: listed_by_pending_def)
      then show ?thesis using None fresh [OF q(2)] by (auto simp: listed_by_pending_def)
    qed
    show "vc_pending ?s (rp_id (op_repository o1)) = Some q"
      if "vc_op ?s q = Some o1" "uses s (op_phase o1) e" "vc_entries ?s (rp_id (op_repository o1)) = Some e" for q o1 e
      using that liveD(3) [OF live, of q o1 e] None by (auto split: if_splits)
  qed
  moreover have "ce_backups (vc_entry ?s e) \<noteq> None" if "vc_entries ?s (rp_id r) = Some e" for e
    using liveD(2) [OF live, of "rp_id r" e] that None by (auto simp: listed_by_pending_def)
  ultimately have "live None (start_read cfg now ?p r ?s)"
    by (intro live_start_read [OF ok', of "Some ?p" ?p ?op]) simp_all
  then show ?thesis by (simp add: cache_get_None [OF None] start_read_pending)
qed (simp add: cache_get_Some live)

lemma live_listed:
  assumes ok: "cache_ok keys ow s" and live: "live None s" and op: "vc_op s p = Some op"
  shows "live None (listed p result s)"
proof (cases "\<exists>e found. op_phase op = Listing e found")
  case False
  then have "listed p result s = s" using op by (intro listed_other) auto
  then show ?thesis using live by simp
next
  case True
  then obtain e found where ph: "op_phase op = Listing e found" by blast
  let ?rid = "rp_id (op_repository op)"
  have e: "e < vc_next s" "ow e = ?rid" "ce_backups (vc_entry s e) = None" using ops_okD(3) [OF ok op] ph by simp_all
  show ?thesis
  proof (cases result)
    case (Inl err)
    let ?s1 = "if vc_entries s ?rid = Some e then s\<lparr>vc_entries := (vc_entries s)(?rid := None)\<rparr> else s"
    have "live None ?s1" by (simp add: live live_drop [OF live, of _ ?rid])
    moreover have "vc_entries ?s1 rid \<noteq> Some e" for rid
      using entries_okD [OF ok, of rid e] e(2) by auto
    ultimately show ?thesis unfolding Inl listed_Inl [OF op ph]
      by (rule_tac live_phase [of None _ p op _ "op\<lparr>op_phase := Failing err found\<rparr>"]) (use op ph in auto)
  next
    case (Inr b)
    let ?s1 = "populated e b s"
    have entry: "ce_backups (vc_entry ?s1 e') = (if e' = e then Some (vc_next s) else ce_backups (vc_entry s e'))" for e' by simp
    have old: "obj < vc_next s" if "ce_backups (vc_entry s e') = Some obj" for e' obj using entry_number [OF ok that] by simp
    have uses: "uses ?s1 (op_phase o1) e' \<Longrightarrow> uses s (op_phase o1) e'" if "vc_op s q = Some o1" for q o1 e'
      using liveD(1) [OF live that] e(3)
      by (auto simp: uses_def phase_live_def split: phase.splits sum.splits option.splits if_splits)
    have l1: "live None ?s1" unfolding live_def
    proof (intro conjI allI impI)
      show "phase_live ?s1 (op_phase o1)" if "vc_op ?s1 q = Some o1" "Some q \<noteq> None" for q o1
        using liveD(1) [OF live, of q o1] that by (auto simp: phase_live_def less_SucI split: phase.splits sum.splits)
      show "listed_by_pending ?s1 rid e'" if "vc_entries ?s1 rid = Some e'" "ce_backups (vc_entry ?s1 e') = None" for rid e'
        using liveD(2) [OF live, of rid e'] that entry by (auto simp: listed_by_pending_def split: if_splits)
      show "vc_pending ?s1 (rp_id (op_repository o1)) = Some q"
        if "vc_op ?s1 q = Some o1" "uses ?s1 (op_phase o1) e'" "vc_entries ?s1 (rp_id (op_repository o1)) = Some e'" for q o1 e'
        using liveD(3) [OF live, of q o1 e'] uses [of q o1 e'] that by simp
    qed
    define s2 where "s2 = (if vc_entries s ?rid = Some e then announce ?rid (vc_next s) ?s1 else ?s1)"
    have l2: "live None s2" by (rule live_same [OF l1]) (simp_all add: s2_def)
    have s2: "vc_op s2 = vc_op s" "vc_entry s2 = vc_entry ?s1" "vc_next s2 = Suc (vc_next s)" "vc_entries s2 = vc_entries s" "vc_pending s2 = vc_pending s"
      by (simp_all add: s2_def)
    have used: "vc_pending s ?rid = Some p" if "ce_backups (vc_entry s2 e') = Some (vc_next s)" "vc_entries s ?rid = Some e'" for e'
    proof -
      have "e' = e" using that(1) old [of e' "vc_next s"] by (auto simp: s2(2) split: if_splits)
      then show ?thesis using liveD(3) [OF live op, of e] ph that(2) by simp
    qed
    show ?thesis unfolding Inr listed_Inr [OF op ph] s2_def [symmetric]
      by (rule live_phase [OF l2, of p op _ "op\<lparr>op_phase := ReadDone (Inr (Some (vc_next s)))\<rparr>"])
         (use op ph used in \<open>auto simp: s2\<close>)
  qed
qed

lemma live_journal_read:
  assumes ok: "cache_ok keys ow s" and live: "live None s" and op: "vc_op s p = Some op" and result: "result \<noteq> Inr None"
  shows "live None (journal_read p result s)"
proof (cases "\<exists>e t. op_phase op = Journal e t")
  case False
  then have "journal_read p result s = s" using op by (intro journal_read_other) auto
  then show ?thesis using live by simp
next
  case True
  then obtain e t where ph: "op_phase op = Journal e t" by blast
  obtain obj where obj: "ce_backups (vc_entry s e) = Some obj" using liveD(1) [OF live op] ph by auto
  have used: "e' = e" if "ce_backups (vc_entry s e') = Some obj" for e'
    using ok obj that by (auto simp: cache_ok_def backups_ok_def)
  then have used: "vc_pending s (rp_id (op_repository op)) = Some p"
    if "ce_backups (vc_entry s e') = Some obj" "vc_entries s (rp_id (op_repository op)) = Some e'" for e'
    using that liveD(3) [OF live op, of e] ph by (metis uses_simps(2))
  have obj': "obj < vc_next s" using entry_number [OF ok obj] by simp
  from op ph show ?thesis
  proof (cases rule: journal_read_op [where result = result])
    case read
    show ?thesis
      by (rule live_phase [OF live op read])
         (use obj obj' used ph in auto)
  next
    case (failed err)
    show ?thesis by (rule live_phase [OF live op failed]) (use ph in auto)
  qed (use result in simp)
qed

lemma live_refreshed:
  assumes ok: "cache_ok keys ow s" and live: "live None s"
  shows "live None (refreshed cfg now later p s)"
proof (cases "vc_op s p")
  case (Some op)
  then show ?thesis
  proof (cases rule: refreshed_cases [of s p op now cfg later])
    case (again obj)
    let ?op = "op\<lparr>op_reads := Suc (op_reads op)\<rparr>" and ?rid = "rp_id (op_repository op)"
    obtain e where e: "vc_entries s ?rid = Some e" "ce_backups (vc_entry s e) = obj"
      using again(2) by (auto simp: reads_again_def Let_def split: option.splits)
    obtain n where n: "obj = Some n" using liveD(1) [OF live Some] again(1) by auto
    have pending: "vc_pending s ?rid = Some p" using liveD(3) [OF live Some _ e(1)] again(1) e(2) n by simp
    have "live None (next_read p op s)"
      by (rule live_phase [OF live Some, of _ ?op])
         (use liveD(1) [OF live Some] again(1) pending in auto)
    then show ?thesis unfolding again(3)
      by (rule live_start_read [OF ok_next_read [OF ok Some], of None p ?op]) (use again(1) pending e n in auto)
  next
    case (settles r)
    have "phase_live s (Settled r)" using liveD(1) [OF live Some] settles(1) by (cases r) auto
    then show ?thesis unfolding settles(2)
      by (rule_tac live_phase [OF live Some, of _ "op\<lparr>op_phase := Settled r\<rparr>"]) (use settles(1) Some in auto)
  next
    case other
    then show ?thesis using live by simp
  qed
qed (simp add: refreshed_None live)

lemma live_failed:
  assumes live: "live None s"
  shows "live None (read_failed p s)"
proof (cases "\<exists>op err f. vc_op s p = Some op \<and> op_phase op = Failing err f")
  case False
  then have "read_failed p s = s" by (intro read_failed_other) auto
  then show ?thesis using live by simp
next
  case True
  then obtain op err f where op: "vc_op s p = Some op" "op_phase op = Failing err f" by blast
  let ?s1 = "if vc_entries s (rp_id (op_repository op)) = f then cache_delete (rp_id (op_repository op)) s else s"
  have "live None ?s1" by (simp add: live live_drop [OF live, of _ "rp_id (op_repository op)"])
  then show ?thesis unfolding read_failed_eq [OF op]
    by (rule live_phase [of None _ p op _ "op\<lparr>op_phase := ReadDone (Inl err)\<rparr>"]) (use op in auto)
qed

lemma live_finally:
  assumes live: "live None s"
  shows "live None (get_finally p s)"
proof (cases "\<exists>op r. vc_op s p = Some op \<and> op_phase op = Settled r")
  case False
  then have "get_finally p s = s" by (intro get_finally_other) auto
  then show ?thesis using live by simp
next
  case True
  then obtain op r where op: "vc_op s p = Some op" "op_phase op = Settled r" by blast
  let ?s = "get_finally p s"
  have s': "vc_op ?s = (vc_op s)(p := None)" "vc_entries ?s = vc_entries s" "vc_next ?s = vc_next s" "vc_entry ?s = vc_entry s"
    by (simp_all add: get_finally_eq [OF op])
  have pending: "vc_pending ?s rid = Some q \<longleftrightarrow> vc_pending s rid = Some q" if "vc_op s q = Some o1" "q \<noteq> p" for q o1 rid
    using that by (auto simp: get_finally_eq [OF op])
  have pl: "phase_live ?s = phase_live s" and us: "uses ?s = uses s"
    by (auto intro!: phase_live_same uses_same simp: s')
  show ?thesis unfolding live_def pl us
  proof (intro conjI allI impI)
    show "phase_live s (op_phase o1)" if "vc_op ?s q = Some o1" "Some q \<noteq> None" for q o1
      using liveD(1) [OF live, of q o1] that by (auto simp: s' split: if_splits)
    show "listed_by_pending ?s rid e" if e: "vc_entries ?s rid = Some e" "ce_backups (vc_entry ?s e) = None" for rid e
    proof -
      obtain q o1 g where q: "vc_pending s rid = Some q" "vc_op s q = Some o1" "op_phase o1 = Listing e g"
        using liveD(2) [OF live, of rid e] e by (auto simp: listed_by_pending_def s')
      then have "q \<noteq> p" using op by auto
      then show ?thesis using q pending [OF q(2)] by (auto simp: listed_by_pending_def s')
    qed
    show "vc_pending ?s (rp_id (op_repository o1)) = Some q"
      if "vc_op ?s q = Some o1" "uses s (op_phase o1) e" "vc_entries ?s (rp_id (op_repository o1)) = Some e" for q o1 e
    proof -
      have "vc_op s q = Some o1" "q \<noteq> p" using that(1) by (auto simp: s' split: if_splits)
      then show ?thesis using liveD(3) [OF live _ that(2)] that(3) pending by (simp add: s')
    qed
  qed
qed

lemma live_step:
  assumes "cache_step cfg keys True s s'" and ok: "cache_ok keys ow s" and live: "live None s"
  shows "live None s'"
  using assms(1)
proof (cases rule: cache_step.cases)
  case (step_get r now)
  then show ?thesis using live_get [OF ok _ live] by simp
next
  case (step_listed p op result)
  then show ?thesis using live_listed [OF ok live, of p op result] by blast
next
  case (step_journal p op result)
  then show ?thesis using live_journal_read [OF ok live, of p op result] by blast
next
  case (step_not_replayed now p)
  have "not_replayed cfg now p s = s" using liveD(1) [OF live] by (intro not_replayed_other) fastforce
  then show ?thesis using live step_not_replayed by simp
next
  case (step_failed p)
  then show ?thesis using live_failed [OF live] by simp
next
  case (step_refreshed now later p)
  then show ?thesis using live_refreshed [OF ok live] by simp
next
  case (step_finally p)
  then show ?thesis using live_finally [OF live] by simp
next
  case (step_delete rid)
  show ?thesis unfolding step_delete by (rule live_drop [OF live, of _ rid]) auto
next
  case (step_remove rid)
  show ?thesis unfolding step_remove by (rule live_drop [OF live, of _ rid]) (auto simp: cache_remove_eq split: option.splits)
next
  case (step_refresh rid)
  show ?thesis unfolding step_refresh by (rule live_same [OF live]) (auto simp: cache_refresh_def split: option.splits)
qed

interpretation live_kept: kept_by_steps "cache_step cfg keys True" "\<lambda>s. live None s \<and> (\<exists>ow. cache_ok keys ow s)"
  by unfold_locales (blast dest: ok_step intro: live_step)

lemma live_run: "(cache_step cfg keys True)\<^sup>*\<^sup>* new_cache s \<Longrightarrow> live None s \<and> (\<exists>ow. cache_ok keys ow s)"
  by (erule live_kept.run) (use ok_new_cache in \<open>auto simp: live_def new_cache_def\<close>)

end
