(* ===== verification/Backup_Properties.thy ===== *)
theory Backup_Properties
  imports Vm_Backups_Collection Vm_Backups_Calls
begin

text \<open>
  The properties of the journal of the backups, of its events, and of the cache of the VM backups that follows it.
\<close>

section \<open>Examples\<close>

definition ex_dates :: "unit journal_dates" where
  "ex_dates = \<lparr>jd_formatDate = (\<lambda>_. ''20240501T000000000Z''), jd_formatTime = (\<lambda>_. ''000000000Z''), jd_parse = (\<lambda>_. Some ())\<rparr>"

definition ex_journal_entry :: "unit journal_entry" where
  "ex_journal_entry = \<lparr>je_event = ''add'', je_vmUuid = ''vm'', je_filename = ''/b/f.json'', je_timestamp = 0, je_who = ()\<rparr>"

definition ex_days :: "(string \<times> (string \<times> unit journal_file) list) list" where
  "ex_days = [(''20240430'', [(''a'', JournalFile ex_journal_entry)]), (''20240501'', [(''b'', JournalFile ex_journal_entry)])]"

definition ex_metadata :: "unit vm_backup_metadata" where
  "ex_metadata = \<lparr>bm_isVhdDifferencing = None, bm_vmSnapshot = None, bm_vhds = None, bm_vdis = [], bm_timestamp = 5,
     bm_tags = None, bm_others = ()\<rparr>"

definition ex_backup :: "unit vm_backup" where
  "ex_backup = \<lparr>vb_id = ''/b/f.json'', vb_backupRepository = ''r'', vb_disks = [], vb_timestamp = 5, vb_tags = [],
     vb_differencingVhds = None, vb_dynamicVhds = None, vb_withMemory = False, vb_others = ()\<rparr>"

definition ex_cfg :: cache_config where
  "ex_cfg = \<lparr>cc_minRefreshDelay = 0, cc_cursorAt = (\<lambda>_. ''/xo-backup-log/20240430/''), cc_fullListingInterval = (\<lambda>_. NoInterval)\<rparr>"

definition ex_repo :: repository where
  "ex_repo = \<lparr>rp_id = ''r'', rp_url = ''u'', rp_options = None, rp_proxy = None\<rparr>"

definition ex_keys :: "string \<Rightarrow> string \<Rightarrow> string" where
  "ex_keys rid key = ''vm''"

definition ex_called :: "unit cache" where "ex_called = snd (cache_get ex_cfg 0 ex_repo new_cache)"
definition ex_listed :: "unit cache" where "ex_listed = listed 0 (Inr [(''vm'', [(''/b/f.json'', ex_backup)])]) ex_called"
definition ex_called_again :: "unit cache" where "ex_called_again = snd (cache_get ex_cfg 0 ex_repo (cache_delete ''r'' ex_listed))"
definition ex_listed_again :: "unit cache" where "ex_listed_again = listed 3 (Inr []) ex_called_again"
definition ex_served :: "unit cache" where "ex_served = refreshed ex_cfg 0 0 3 ex_listed_again"

lemmas cache_eval = cache_get_def start_read_def start_build_def set_phase_def update_entry_def listed_def announce_def
  listing_changes_def List.map_filter_simps backup_at_def emitted_of_def listArchives_def archives_of_def cache_delete_def
  refreshed_def reads_again_def new_cache_def Let_def ex_repo_def ex_cfg_def ex_backup_def

lemma ex_called_op: "vc_op ex_called 0 = Some \<lparr>op_repository = ex_repo, op_reads = 1, op_phase = Listing 1 None\<rparr>"
  by (simp add: ex_called_def cache_eval)

lemma ex_run_called: "(cache_step ex_cfg ex_keys True)\<^sup>*\<^sup>* new_cache ex_called"
  unfolding ex_called_def by (rule r_into_rtranclp, rule step_get) (simp add: ex_repo_def)

lemma ex_run_listed: "(cache_step ex_cfg ex_keys True)\<^sup>*\<^sup>* new_cache ex_listed"
  unfolding ex_listed_def
  by (rule rtranclp.rtrancl_into_rtrancl [OF ex_run_called], rule step_listed [OF ex_called_op])
     (auto simp: well_keyed_def ex_keys_def ex_backup_def)

lemma ex_listed_shows: "listArchives ex_listed = [archiveOf ex_backup ''r'']" "vc_emitted ex_listed = [EmitAdd (archiveOf ex_backup ''r'')]"
  by (simp_all add: ex_listed_def ex_called_def cache_eval)

lemma ex_called_again_op: "vc_op ex_called_again 3 = Some \<lparr>op_repository = ex_repo, op_reads = 1, op_phase = Listing 4 None\<rparr>"
  by (simp add: ex_called_again_def ex_listed_def ex_called_def cache_eval)

lemma ex_served_op: "vc_op ex_served 3 = Some \<lparr>op_repository = ex_repo, op_reads = 1, op_phase = Settled (Inr (Some 5))\<rparr>"
  by (simp add: ex_served_def ex_listed_again_def ex_called_again_def ex_listed_def ex_called_def cache_eval)

lemma ex_called_again_get: "cache_get ex_cfg 0 ex_repo (cache_delete (rp_id ex_repo) ex_listed) = (3, ex_called_again)"
  by (simp add: ex_called_again_def ex_listed_def ex_called_def cache_eval)

lemma ex_run_served: "(cache_step ex_cfg ex_keys True)\<^sup>*\<^sup>* ex_called_again ex_served"
proof -
  have "cache_step ex_cfg ex_keys True ex_called_again ex_listed_again"
    unfolding ex_listed_again_def by (rule step_listed [OF ex_called_again_op]) (simp add: well_keyed_def)
  moreover have "cache_step ex_cfg ex_keys True ex_listed_again ex_served"
    unfolding ex_served_def by (rule step_refreshed)
  ultimately show ?thesis by (rule rtranclp.rtrancl_into_rtrancl [OF r_into_rtranclp])
qed

definition ex_replaying :: "unit cache" where
  "ex_replaying = snd (cache_get ex_cfg 0 ex_repo (get_finally 0 (refreshed ex_cfg 0 0 0 ex_listed)))"

lemma ex_replaying_op: "vc_op ex_replaying 3 = Some \<lparr>op_repository = ex_repo, op_reads = 1, op_phase = Journal 1 0\<rparr>"
  by (simp add: ex_replaying_def ex_listed_def ex_called_def get_finally_def isSameRepository_def rebuildIntervalOf_def
      DEFAULT_REBUILD_INTERVAL_def cache_eval)

lemma ex_run_replaying: "(cache_step ex_cfg ex_keys True)\<^sup>*\<^sup>* new_cache ex_replaying"
proof -
  have "cache_step ex_cfg ex_keys True ex_listed (refreshed ex_cfg 0 0 0 ex_listed)" by (rule step_refreshed)
  moreover have "cache_step ex_cfg ex_keys True (refreshed ex_cfg 0 0 0 ex_listed) (get_finally 0 (refreshed ex_cfg 0 0 0 ex_listed))"
    by (rule step_finally)
  moreover have "cache_step ex_cfg ex_keys True (get_finally 0 (refreshed ex_cfg 0 0 0 ex_listed)) ex_replaying"
    unfolding ex_replaying_def by (rule step_get) (simp add: ex_repo_def)
  ultimately show ?thesis
    using rtranclp.rtrancl_into_rtrancl [OF rtranclp.rtrancl_into_rtrancl [OF rtranclp.rtrancl_into_rtrancl [OF ex_run_listed]]] by blast
qed

section \<open>The collection of the archives\<close>

text \<open>
  C11: In every run of the cache, whatever the calls, their order and what the repositories answer, a consumer of
  the events of the collection holds exactly the archives that the cache finds: an archive is announced as new
  only when the consumer does not have it, as changed or gone only when it has it, and no two archives have the same id.
  The repositories answer with listings and events in which a file name is always of the same machine, and
  the listeners neither throw nor call the cache.
\<close>

theorem cache_collection:
  assumes "(cache_step cfg keys replayable)\<^sup>*\<^sup>* new_cache s"
  shows "consume (vc_emitted s) (Some Map.empty) = Some (\<lambda>ident. findArchive ident s) \<and>
    distinct (map vb_id (listArchives s))"
  using collection_run [OF assms] by blast

theorem cache_collection_witness:
  "consume (vc_emitted ex_listed) (Some Map.empty) = Some (\<lambda>ident. findArchive ident ex_listed) \<and>
   vc_emitted ex_listed = [EmitAdd (archiveOf ex_backup ''r'')] \<and> distinct (map vb_id (listArchives ex_listed))"
  using cache_collection [OF ex_run_listed] ex_listed_shows(2) by blast

section \<open>The calls of the cache\<close>

text \<open>
  C19: A call of \<open>get\<close> made after \<open>delete\<close> never joins a read that began before it, and what it is served is the
  listing of an entry built after it, however the reads in flight go on.
\<close>

theorem cache_delete_fresh:
  assumes "(cache_step cfg keys replayable)\<^sup>*\<^sup>* new_cache s"
    and "(cache_step cfg keys replayable)\<^sup>*\<^sup>* (cache_delete (rp_id r) s) s1"
    and "cache_get cfg now r s1 = (p, s2)" and "CHR ''/'' \<notin> set (rp_id r)"
    and "(cache_step cfg keys replayable)\<^sup>*\<^sup>* s2 s3"
    and "vc_op s3 p = Some op" and "op_phase op = Settled (Inr (Some obj))"
  shows "vc_next s \<le> p \<and> (\<exists>e \<ge> vc_next s. ce_backups (vc_entry s3 e) = Some obj)"
  using served_since_delete [OF assms] by blast

theorem cache_delete_fresh_witness:
  "vc_next ex_listed \<le> 3 \<and> (\<exists>e \<ge> vc_next ex_listed. ce_backups (vc_entry ex_served e) = Some 5)"
  using cache_delete_fresh [OF ex_run_listed rtranclp.rtrancl_refl ex_called_again_get _ ex_run_served ex_served_op]
  by (simp add: ex_repo_def)

text \<open>
  C21: A call of \<open>get\<close> that begins to read makes at most 16 steps of its own, whatever other calls do in between and
  however often \<open>refresh\<close> is called; and each time it waits, any answer brings it closer to its end.
\<close>

theorem cache_call_ends:
  assumes "vc_pending s (rp_id r) = None" and "cache_get cfg now r s = (p, f 0)"
    and "\<And>i. i < n \<Longrightarrow> cache_step cfg keys replayable (f i) (f (Suc i))"
  shows "card {i. i < n \<and> vc_op (f (Suc i)) p \<noteq> vc_op (f i) p} \<le> 16 \<and>
    (vc_op (f n) p = None \<or>
     op_measure (vc_op (advance cfg' t t' listing journal p (f n)) p) < op_measure (vc_op (f n) p))"
proof -
  have "card {i. i < n \<and> vc_op (f (Suc i)) p \<noteq> vc_op (f i) p} \<le> 16"
    by (rule call_changes [where f = f and s = s and r = r]) (fact assms)+
  moreover have "vc_op (f n) p = None \<or>
     op_measure (vc_op (advance cfg' t t' listing journal p (f n)) p) < op_measure (vc_op (f n) p)"
    using advance_lowers by (cases "vc_op (f n) p = None") blast+
  ultimately show ?thesis ..
qed

theorem cache_call_ends_witness:
  "card {i. i < 1 \<and> vc_op ((if Suc i = 0 then ex_called else ex_listed)) 0 \<noteq> vc_op (if i = 0 then ex_called else ex_listed) 0} \<le> 16 \<and>
   (vc_op (if (1 :: nat) = 0 then ex_called else ex_listed) 0 = None \<or>
    op_measure (vc_op (advance ex_cfg 0 0 (Inr []) (Inr None) 0 (if (1 :: nat) = 0 then ex_called else ex_listed)) 0) <
    op_measure (vc_op (if (1 :: nat) = 0 then ex_called else ex_listed) 0))"
proof (rule cache_call_ends [where f = "\<lambda>i. if i = 0 then ex_called else ex_listed" and keys = ex_keys and replayable = True])
  show "vc_pending new_cache (rp_id ex_repo) = None" by (simp add: new_cache_def)
  show "cache_get ex_cfg 0 ex_repo new_cache = (0, if (0 :: nat) = 0 then ex_called else ex_listed)"
    by (simp add: ex_called_def cache_eval)
  show "cache_step ex_cfg ex_keys True (if i = 0 then ex_called else ex_listed) (if Suc i = 0 then ex_called else ex_listed)"
    if "i < 1" for i :: nat
  proof -
    have "cache_step ex_cfg ex_keys True ex_called ex_listed" unfolding ex_listed_def
      by (rule step_listed [OF ex_called_op]) (auto simp: well_keyed_def ex_keys_def ex_backup_def)
    then show ?thesis using that by simp
  qed
qed

text \<open>
  C20: As long as the journal of every repository can be read, whatever the calls, \<open>delete\<close>, \<open>remove\<close> and failures
  included: an entry is replayed only once it is listed, and a call of \<open>get\<close> ends with a listing or an
  error. Its value is never undefined.
\<close>

theorem cache_serves_listing:
  assumes "(cache_step cfg keys True)\<^sup>*\<^sup>* new_cache s" and "vc_op s p = Some op"
  shows "op_phase op \<noteq> Settled (Inr None) \<and> (\<forall>e t. op_phase op = Journal e t \<longrightarrow> ce_backups (vc_entry s e) \<noteq> None)"
  using liveD(1) [OF conjunct1 [OF live_run [OF assms(1)]] assms(2)] by (auto simp: phase_live_def)

theorem cache_serves_listing_witness:
  "op_phase \<lparr>op_repository = ex_repo, op_reads = 1, op_phase = Journal 1 0\<rparr> \<noteq> Settled (Inr None) \<and>
   ce_backups (vc_entry ex_replaying 1) \<noteq> None"
  using cache_serves_listing [OF ex_run_replaying ex_replaying_op] by simp

text \<open>
  When a journal turns out not to be readable, the call goes on and lists the repository, even though it was
  removed in the meantime: its archives are in the collection again.
\<close>

lemma removed_comes_back:
  assumes ok: "cache_ok keys ow s" and op: "vc_op s p = Some op" "op_phase op = Journal e t" and rid: "rid = rp_id (op_repository op)"
    and s1_def: "s1 = cache_remove rid s"
    and s2_def: "s2 = listed p (Inr b) (not_replayed cfg now p (journal_read p (Inr None) s1))"
  shows "map_of (vc_announced s1) rid = None" and "vc_entries s1 rid = None"
    and "map_of (vc_announced s2) rid = Some (Suc (vc_next s)) \<and> vc_object s2 (Suc (vc_next s)) = b"
proof -
  show "map_of (vc_announced s1) rid = None"
    by (auto simp: s1_def cache_remove_eq delete_conv' split: option.split)
  show none: "vc_entries s1 rid = None" by (simp add: s1_def cache_remove_eq split: option.split)
  have s1: "vc_op s1 p = Some op" "vc_next s1 = vc_next s" using op(1) by (simp_all add: s1_def cache_remove_eq split: option.split)
  have r: "journal_read p (Inr None) s1 = set_phase p (NotReplayable e) s1" using s1 op(2) by (simp add: journal_read_def)
  then obtain u where u: "not_replayed cfg now p (journal_read p (Inr None) s1) =
      start_build cfg now p (op_repository op) (Some e) ((set_phase p (NotReplayable e) s1)\<lparr>vc_unreplayable := u\<rparr>)"
    using not_replayed_eq [of "journal_read p (Inr None) s1" p "op\<lparr>op_phase := NotReplayable e\<rparr>" e cfg now] s1 by auto
  have l: "vc_op (not_replayed cfg now p (journal_read p (Inr None) s1)) p = Some (op\<lparr>op_phase := Listing (vc_next s) (Some e)\<rparr>)"
    unfolding u by (simp add: s1)
  show "map_of (vc_announced s2) rid = Some (Suc (vc_next s)) \<and> vc_object s2 (Suc (vc_next s)) = b"
    unfolding s2_def by (subst (1 2) listed_Inr [OF l]) (auto simp: u s1 rid update_conv')
qed

section \<open>The journal\<close>

text \<open>
  C22: Reading the journal from a cursor gives the entries of a full read whose path comes after the cursor, in the
  same order: bounding the days, and the names within the day of the cursor, loses nothing and repeats nothing.
\<close>

theorem journal_cursor:
  assumes "isDayName day" and "plain_segment name" and "readBackupJournal dates (Some dirs) None mustExist = Inr entries"
  shows "readBackupJournal dates (Some dirs) (Some (journal_path day name)) mustExist' =
    Inr (filter (\<lambda>r. journal_path day name < re_path r) entries)"
  using read_from_cursor [OF assms] by simp

lemma ex_days_read:
  "readBackupJournal ex_dates (Some ex_days) None True = Inr
     [\<lparr>re_entry = ex_journal_entry, re_date = (), re_path = ''/xo-backup-log/20240430/a''\<rparr>,
      \<lparr>re_entry = ex_journal_entry, re_date = (), re_path = ''/xo-backup-log/20240501/b''\<rparr>]"
  by (code_simp)

theorem journal_cursor_witness:
  "readBackupJournal ex_dates (Some ex_days) (Some (journal_path ''20240430'' ''a'')) True =
     Inr (filter (\<lambda>r. journal_path ''20240430'' ''a'' < re_path r)
       [\<lparr>re_entry = ex_journal_entry, re_date = (), re_path = ''/xo-backup-log/20240430/a''\<rparr>,
        \<lparr>re_entry = ex_journal_entry, re_date = (), re_path = ''/xo-backup-log/20240501/b''\<rparr>])"
  by (rule journal_cursor [OF _ _ ex_days_read]) (code_simp, simp add: plain_segment_def)

text \<open>
  C23: An entry that is written is in what a read from a cursor before it returns, with its date and path, and
  writing it hides no other entry and adds none.
\<close>

theorem journal_written:
  assumes "map_of (case map_of (case j of None \<Rightarrow> [] | Some ds \<Rightarrow> ds) (formatJournalDay dates (je_timestamp e)) of None \<Rightarrow> [] | Some fs \<Rightarrow> fs)
      (entry_name dates unique e) = None"
    and "CHR ''/'' \<notin> set (entry_name dates unique e)"
    and "isDayName (formatJournalDay dates (je_timestamp e))"
    and "dateOfEntry dates (formatJournalDay dates (je_timestamp e)) (entry_name dates unique e) = Some date"
    and "isDayName day" and "plain_segment name"
    and "readBackupJournal dates j (Some (journal_path day name)) False = Inr entries"
    and "readBackupJournal dates (writeBackupJournalEntry dates False unique e j) (Some (journal_path day name)) False = Inr entries'"
  shows "set entries' = set entries \<union>
    (if journal_path day name < getEntryPath dates unique e
     then {\<lparr>re_entry = e, re_date = date, re_path = getEntryPath dates unique e\<rparr>} else {})"
  by (rule written_read [OF assms])

theorem journal_written_witness:
  "set [\<lparr>re_entry = ex_journal_entry, re_date = (), re_path = ''/xo-backup-log/20240501/000000000Z-u-add-vm-f.json''\<rparr>] = set [] \<union>
    (if journal_path ''20240430'' ''a'' < getEntryPath ex_dates ''u'' ex_journal_entry
     then {\<lparr>re_entry = ex_journal_entry, re_date = (), re_path = getEntryPath ex_dates ''u'' ex_journal_entry\<rparr>} else {})"
  by (rule journal_written [where j = None and dates = ex_dates and e = ex_journal_entry and unique = "''u''" and date = "()"
        and day = "''20240430''" and name = "''a''"]) code_simp+

text \<open>
  C24: An event that is not a deletion and whose backup cannot be read at that time is not lost: the cursor that
  the read returns comes before its entry, and the next read from that cursor returns the entry again.
\<close>

theorem journal_unreadable:
  assumes "journal_names dirs" and "isDayName day" and "plain_segment name"
    and "readBackupJournal dates (Some dirs) None mustExist = Inr all"
    and "readBackupJournal dates (Some dirs) (Some (journal_path day name)) mustExist = Inr entries"
    and "resolve_events readMetadata (Some (journal_path day name)) entries = (evs, Some cursor')"
    and "last_about entries f (event, i, vm)" and "event \<noteq> ''del''" and "\<not> readable_metadata readMetadata f"
  shows "\<exists>again. readBackupJournal dates (Some dirs) (Some cursor') mustExist = Inr again \<and> entries ! i \<in> set again"
  using unreadable_read_again [OF assms] by auto

definition ex_failing :: "string \<Rightarrow> js_error + unit vm_backup_metadata" where
  "ex_failing f = Inl TypeError"

lemma ex_days_after:
  "readBackupJournal ex_dates (Some ex_days) (Some (journal_path ''20240430'' ''a'')) True =
     Inr [\<lparr>re_entry = ex_journal_entry, re_date = (), re_path = ''/xo-backup-log/20240501/b''\<rparr>]"
  by code_simp

theorem journal_unreadable_witness:
  "\<exists>again. readBackupJournal ex_dates (Some ex_days) (Some (journal_path ''20240430'' ''a'')) True = Inr again \<and>
     [\<lparr>re_entry = ex_journal_entry, re_date = (), re_path = ''/xo-backup-log/20240501/b''\<rparr>] ! 0 \<in> set again"
proof (rule journal_unreadable [OF _ _ _ ex_days_read ex_days_after, where evs = "[]" and readMetadata = ex_failing])
  show "journal_names ex_days" by (simp add: journal_names_def ex_days_def plain_segment_def)
  show "isDayName ''20240430''" by code_simp
  show "plain_segment ''a''" by (simp add: plain_segment_def)
  show "resolve_events ex_failing (Some (journal_path ''20240430'' ''a''))
      [\<lparr>re_entry = ex_journal_entry, re_date = (), re_path = ''/xo-backup-log/20240501/b''\<rparr>] = ([], Some (journal_path ''20240430'' ''a''))"
    by code_simp
  show "last_about [\<lparr>re_entry = ex_journal_entry, re_date = (), re_path = ''/xo-backup-log/20240501/b''\<rparr>] ''/b/f.json'' (''add'', 0, ''vm'')"
  proof -
    have "normalize ''/b/f.json'' = ''/b/f.json''" "isKnownJournalEvent ''add''" by code_simp+
    then show ?thesis by (simp add: last_about_def about_def ex_journal_entry_def)
  qed
  show "''add'' \<noteq> ''del''" by simp
  show "\<not> readable_metadata ex_failing ''/b/f.json''" by (simp add: readable_metadata_def ex_failing_def)
qed

section \<open>Following a repository\<close>

text \<open>
  C12: A listing that is brought up to date from the journal shows of every backup: what it showed before,
  when none of the entries that were read is about it; nothing, when the last event of it is a deletion,
  without its metadata being read; and otherwise its value in the repository at the time of the read, or
  nothing when its metadata is gone by then, whatever events there were of it before the last one. This is
  for a backup whose entries are all of one machine, and whose metadata, when its last event is not a
  deletion, can be read or does not exist (for one that cannot be read, see C24).
\<close>

theorem journal_replay:
  assumes "readBackupJournal dates j cursor mustExist = Inr entries"
    and "readJournal_local rid (readBackupJournalEvents dates j readMetadata cursor mustExist) = Inr (Some (evs, cursor'))"
    and "\<And>i. about entries f i \<Longrightarrow> je_vmUuid (re_entry (entries ! i)) = vmUuid"
    and "(\<exists>i. about entries f i) \<Longrightarrow> (\<nexists>i vm. last_about entries f (''del'', i, vm)) \<Longrightarrow> readable_metadata readMetadata f"
  shows "backup_at (snd (apply_events evs b)) vmUuid f =
    (if \<nexists>i. about entries f i then backup_at b vmUuid f
     else if \<exists>i vm. last_about entries f (''del'', i, vm) then None
     else current_backup readMetadata rid f)"
proof -
  obtain raw c where raw: "resolve_events readMetadata cursor entries = (raw, c)" by (cases "resolve_events readMetadata cursor entries")
  then have "formatJournalEvents raw rid = Inr evs"
    using assms(1,2) by (auto simp: readJournal_local_def readBackupJournalEvents_def res_bind_Inr_iff)
  from replay_backup [OF raw this assms(3,4)] show ?thesis .
qed

definition ex_readMetadata :: "string \<Rightarrow> js_error + unit vm_backup_metadata" where
  "ex_readMetadata f = (if f = ''/b/f.json'' then Inr ex_metadata else Inl (Errno ''ENOENT''))"

theorem journal_replay_witness:
  "backup_at (snd (apply_events [Upsert ''add'' ''vm'' ''/b/f.json'' ex_backup] [])) ''vm'' ''/b/f.json'' =
   current_backup ex_readMetadata ''r'' ''/b/f.json''"
proof -
  let ?entries = "[\<lparr>re_entry = ex_journal_entry, re_date = (), re_path = ''/xo-backup-log/20240501/b''\<rparr>]"
  have name: "normalize ''/b/f.json'' = ''/b/f.json''" "isKnownJournalEvent ''add''" by code_simp+
  have evs: "readJournal_local ''r'' (readBackupJournalEvents ex_dates (Some ex_days) ex_readMetadata
      (Some (journal_path ''20240430'' ''a'')) True) =
    Inr (Some ([Upsert ''add'' ''vm'' ''/b/f.json'' ex_backup], Some ''/xo-backup-log/20240501/b''))"
    by code_simp
  have owner: "je_vmUuid (re_entry (?entries ! i)) = ''vm''" if "about ?entries ''/b/f.json'' i" for i
    using that by (auto simp: about_def ex_journal_entry_def)
  have readable: "readable_metadata ex_readMetadata ''/b/f.json''"
    by (simp add: readable_metadata_def ex_readMetadata_def)
  have "about ?entries ''/b/f.json'' 0" using name by (simp add: about_def ex_journal_entry_def)
  moreover have "\<not> last_about ?entries ''/b/f.json'' (''del'', i, vm)" for i vm
    by (auto simp: last_about_def about_def ex_journal_entry_def)
  ultimately show ?thesis
    using journal_replay [OF ex_days_after evs owner readable, of "[]"] by auto
qed

end
