(* ===== verification/Spec2Isabelle.thy ===== *)
theory Spec2Isabelle
  imports Vhd_Properties Zero_Filter_Props Vhd_Stream_Properties Service_Properties Library_Properties Backup_Properties
begin

text \<open>
  A model of the core logic of Xen Orchestra: the virtual disks its backups are made of, and the services
  around them that have a logic of their own. The code is JavaScript; paths are relative to \<open>src/\<close>.

  \<^bold>\<open>Virtual disks\<close> (\<open>packages/vhd-lib\<close>). A VHD is a footer, a header, a block allocation table and
  blocks, each one a bitmap and data.
  \<^item> \<open>Vhd_Format\<close>, \<open>Vhd_Struct\<close>, \<open>Vhd_Layout\<close>: the structures of \<open>_structs.js\<close> with their checksum, their
    validation, the sizes of \<open>Vhd/_utils.js\<close>, the bitmaps, the CHS geometry, the scan of a table. The
    package struct-fu is the record \<open>struct_fu\<close>, its documented behaviour the locale \<open>struct_fu_codec\<close>,
    interpreted on \<open>fu_reference\<close>.
  \<^item> \<open>Vhd_File\<close>: the class \<open>VhdFile\<close>, one definition per method, over the record \<open>vhd_file\<close> (the bytes of
    the file, the header, the footer and the table in memory). \<open>Vhd_File_Props\<close> has its invariant \<open>vf_inv\<close>
    and what writing, growing the table and moving blocks do to the blocks; \<open>Vhd_Durable\<close> what is on the
    disk, up to opening the file again, which \<open>write_durable\<close> and \<open>merge_file\<close> rest on.
  \<^item> \<open>Vhd_Directory\<close>: the class \<open>VhdDirectory\<close>, a VHD as a directory of compressed chunks; \<open>Zero_Filter\<close>
    is the filter of \<open>Vhd/_zeroFilter.js\<close>, one of its compressors, and \<open>Zero_Filter_Props\<close> its round trip.
  \<^item> \<open>Vhd_Store\<close>: the locale \<open>vhd_store\<close>, what code that writes blocks relies on, interpreted on the file and
    on the directory.
  \<^item> \<open>Vhd_Abstract\<close>: the methods \<open>VhdAbstract\<close> shares, over the records \<open>vhd_view\<close> and \<open>vhd_writer\<close> of what a
    subclass overrides. \<open>Vhd_Chain\<close>: \<open>VhdSynthetic\<close> and \<open>VhdNegative\<close>, views made of other views, with
    the disk they show. \<open>Posix_Path\<close>: the part of Node's path that is used. \<open>Vhd_Aliases\<close>: the alias files.
  \<^item> \<open>Vhd_Merge\<close>: \<open>merge.js\<close>, with its state file, its resumption, the final renaming and the removals; and
    \<open>merging_step\<close>, the interleavings of the concurrent merge. \<open>Vhd_Merge_Props\<close> states the contract of
    a merge as the locale \<open>vhd_merge\<close>, which copying extends as \<open>vhd_copy\<close>, and follows a merge into a file
    (\<open>file_merging\<close>) from the growth of the table to the footer on the disk.
  \<^item> \<open>Vhd_Examples\<close> has small VHDs, \<open>Vhd_Properties\<close> the properties, applied to them.

  \<^bold>\<open>VHD streams.\<close> A readable stream is the list of the chunks it delivers, an async generator what it yields and
  how it ends.
  \<^item> \<open>Vhd_Stream\<close>: reading a stream (\<open>@vates/read-chunk\<close>, \<open>@vates/stream-reader\<close>), \<open>parseVhdStream.js\<close>,
    \<open>vhdStreamValidator.js\<close>, \<open>createVhdStreamWithLength.js\<close>, \<open>peekFooterFromVhdStream.js\<close> and the consumer
    \<open>packages/xo-vmdk-to-vhd/src/parseVhdToBlocks.js\<close>. \<open>Vhd_Stream_Props\<close> characterises when the parser reads a
    content to its end (\<open>streamable\<close>) and what it yields; \<open>Vhd_Stream_Tools\<close> does the validator and the cut,
    \<open>Vhd_Stream_File\<close> that the content of a \<open>VhdFile\<close> and images written block after block can be parsed,
    \<open>Vhd_Stream_Blocks\<close> the blocks without their bitmaps.
  \<^item> \<open>Vhd_Consumer\<close>: the consumers \<open>disk-consumer/DiskConsumerVhdStream.mjs\<close> and \<open>DiskConsumerVhdDirectory.mjs\<close> over
    \<open>BaseVhd.mjs\<close>, from the record \<open>source_disk\<close> of what they ask of a disk, and \<open>createReadableSparseStream.js\<close>.
    \<open>Vhd_Consumer_Props\<close>, \<open>Vhd_Consumer_Dir\<close> and \<open>Vhd_Sparse_Props\<close>: what each one makes is read back as the disk.
  \<^item> \<open>Vhd_Stream_Properties\<close> has their properties.

  \<^bold>\<open>Services.\<close>
  \<^item> \<open>Retention\<close>: \<open>_getOldEntries.mjs\<close> of \<open>@xen-orchestra/backups\<close>, which backups are deleted.
  \<^item> \<open>Acl_Resolver\<close>: \<open>packages/xo-acl-resolver\<close>, permissions through the relations of the objects, with
    what is granted as the inductive relation \<open>granted\<close> that the checkers decide.
  \<^item> \<open>Collection\<close>, \<open>Collection_Props\<close>: \<open>packages/xo-collection\<close>, the observable collection with its
    buffered events, and the indexes and views that follow it. The locale \<open>follower\<close> is the contract of
    a listener; \<open>coll_run\<close> the runs, in which listeners may change the collection during a flush.
  \<^item> \<open>Multi_Key_Map\<close>: \<open>@vates/multi-key-map\<close>.
  \<^item> \<open>Cron\<close>, \<open>Cron_Props\<close>: \<open>@xen-orchestra/cron\<close>, the parser of the schedules and the jobs,
    whose next run may not exist.
  \<^item> \<open>Audit_Log\<close>, \<open>Audit_Log_Props\<close>: \<open>@xen-orchestra/audit-core\<close>, the chain of hashes over JSON
    records without their keys \<open>id\<close>, and the store, the import, the export and the fingerprint of \<open>packages/xo-server-audit\<close>.
  \<^item> \<open>Service_Properties\<close> has their properties.

  \<^bold>\<open>The backups of a repository\<close> (\<open>@xen-orchestra/backups\<close>, \<open>packages/xo-server\<close>). The events of the backups are
  appended to a journal on the repository; the server lists a repository once, then follows its journal.
  \<^item> \<open>Backup_Journal\<close>: \<open>_backupJournal.mjs\<close> with its names, its writing and its reading from a cursor,
    \<open>readBackupJournalEvents\<close> of \<open>RemoteAdapter.mjs\<close>, which reduces the entries to the last event of each
    backup and holds its cursor back where a backup cannot be read, and \<open>formatVmBackups.mjs\<close>.
    \<open>Backup_Journal_Props\<close>: what a read returns, and that applying its events brings a listing up to date.
  \<^item> \<open>Vm_Backups_Cache\<close>: the cache \<open>_vmBackupsCache.mjs\<close> and its source \<open>_vmBackupsSource.mjs\<close>. The objects that the
    cache and its collection share are numbers in a store; the code of a method up to where it waits is a
    function on the record \<open>cache\<close>, a call in flight a \<open>cache_op\<close> with the place where it waits, and
    \<open>cache_step\<close> the relation of all interleavings. \<open>Vm_Backups_Cache_Props\<close> has the invariant \<open>cache_ok\<close>,
    \<open>Vm_Backups_Collection\<close> what the listeners of the collection are told, \<open>Vm_Backups_Calls\<close> the calls: they end,
    what they are served after \<open>delete\<close>, and that they are served a listing.
  \<^item> \<open>Backup_Properties\<close> has their properties.

  \<^bold>\<open>Libraries.\<close>
  \<^item> \<open>Async_Each\<close>, \<open>Async_Each_Props\<close>: \<open>@vates/async-each\<close>, calls with a bounded concurrency, as a step
    relation on its counters with the abort signal, with an invariant and a measure that every step decreases.
  \<^item> \<open>Task\<close>, \<open>Task_Props\<close>: \<open>@vates/task\<close>, the tasks and what they tell their listeners; every method is a
    function on the record \<open>tasks\<close>, and \<open>task_step\<close> a call of one or the end of a function they run.
  \<^item> \<open>Complex_Matcher\<close>: \<open>packages/complex-matcher\<close>, the search syntax: trees, matching, printing, parser
    combinators and grammar. \<open>Complex_Matcher_Props\<close> has the termination of the parser,
    \<open>Complex_Matcher_Print\<close> the round trip, \<open>Complex_Matcher_Clauses\<close> the clauses and an instance of the
    numbers and regular expressions of the language. The grammar recurses on fuel, one more than the
    characters of the input, which is enough (\<open>matcher_parse_ends\<close>).
  \<^item> \<open>Library_Properties\<close> has their properties.

  \<open>Prelude\<close> has what they share; its locales \<open>kept_by_steps\<close> and \<open>lowered_by_steps\<close> are the contract of a step
  relation, an invariant and what its steps can only lower, interpreted on the tasks, the concurrent calls
  and the cache.

  \<^bold>\<open>How the code is translated.\<close> An exception is the left value of a sum (\<open>js_error\<close> or an error type of
  the component), a promise that is awaited is a sequence, a callback a function on the state. Loops that
  may not end are \<open>partial_function (option)\<close>: None is not ending. The checks of the ACLs recurse over a
  graph that may have cycles, and take the depth they may reach; where the members that are followed have
  no cycle, the rank of the object is enough (\<open>acl_decides\<close>). Numbers are integers below \<open>2 ^ 53\<close>, where the doubles of JavaScript
  are exact; bytes are 8-bit words. Dates, hashes, compression by zlib, the struct-fu codecs and the
  opening of a path are parameters. A call of the cache makes at most 16 steps of its own (\<open>cache_call_ends\<close>).

  \<^bold>\<open>What the lemmas show.\<close> For the disks: what is written is read back, by the same object and after the
  file is opened again; other blocks are kept by every operation, growth of the table included; the two
  formats agree; chains, negatives and merges show the disk they should; corrupted structures are
  refused; a file read as a stream gives its blocks, and a disk turned into a stream or a directory is read back. For the services: the specification of the retention; that the
  resolver decides the permissions that are granted; that followers of a collection agree with it after each flush; the laws of the
  multi-key map; the range and round trip of the schedules and the timers of a job; that the audit
  chain is tamper-evident but for its keys \<open>id\<close>. For the backups of a repository: nothing that is journaled is lost by reading from a
  cursor, the archives announced are those served, and no interleaving serves what \<open>delete\<close> has dropped.
  For the libraries: the bound, the order and the progress of the concurrent calls;
  the shape of the events of a task and what an abortion does; that the search syntax is parsed in the
  end and read back as it was printed. Some theorems state what the code does where it differs from what
  it means to do: the padding of a new table, the unique index, the rewriting of audit records, the zero
  step of a schedule, an iterator that fails, an abort signal without \<open>stopOnError\<close>, the keys \<open>id\<close> in the
  data of an audit record, a job whose schedule has no solution, a listener that changes a collection during a flush, a stream whose parent locators are behind its blocks, a regular expression that ends with a backslash, a repository
  that is removed while its journal is read.

  \<^bold>\<open>Not modelled.\<close> The handlers of remotes, XAPI and other network protocols, xo-server and its plugins, the
  REST API and the user interfaces: they are I/O and wiring around the parts above. The concurrency of a
  single VHD object is not modelled, apart from the merge: the classes are used by one caller at a time. Streams
  that fail, and abort signals other than those of \<open>asyncEach\<close> and the tasks, are not modelled.
\<close>

end
